(* ===== verification/Floating_Point.thy ===== *)
theory Floating_Point
  imports Complex_Main
begin

text \<open>
  The C++ types \<^verbatim>\<open>float\<close> and \<^verbatim>\<open>double\<close> as the sources use them: values are rationals, and
  every arithmetic operation or conversion rounds its exact result to a significand of 24 or
  53 bits, to nearest with ties to even (IEEE 754 binary32 and binary64, the default rounding
  mode).  Overflow to infinity, subnormal numbers and NaN do not occur for the values the
  modelled code computes (sizes, token counts, times in milliseconds and ratios of small
  weights), so the exponent is unbounded here.

  The lemmas give what the components need of rounding: it is monotone, odd, exact on
  integers that fit the significand, and maps a result back into an interval whose
  integer end points fit.
\<close>

subsection \<open>Binary logarithm\<close>

fun log2n :: "nat \<Rightarrow> nat" where
  "log2n n = (if n \<le> 1 then 0 else Suc (log2n (n div 2)))"

declare log2n.simps [simp del]

lemma log2n_one [simp]: "log2n (Suc 0) = 0"
  by (simp add: log2n.simps)

lemma log2n_bounds: "1 \<le> n \<Longrightarrow> 2 ^ log2n n \<le> n \<and> n < 2 ^ Suc (log2n n)"
proof (induction n rule: log2n.induct)
  case (1 n)
  show ?case
  proof (cases "n \<le> 1")
    case True
    with "1.prems" have "n = Suc 0" by simp
    then show ?thesis by simp
  next
    case False
    then have "1 \<le> n div 2" by simp
    with "1.IH" False have "2 ^ log2n (n div 2) \<le> n div 2 \<and> n div 2 < 2 ^ Suc (log2n (n div 2))"
      by simp
    with False show ?thesis by (auto simp: log2n.simps [of n])
  qed
qed

definition floor_log2 :: "rat \<Rightarrow> int" where
  "floor_log2 x =
     (if 1 \<le> x then int (log2n (nat \<lfloor>x\<rfloor>))
      else - 1 - int (log2n (nat \<lceil>1 / x\<rceil> - 1)))"

lemma floor_log2_ge_1:
  assumes "1 \<le> x"
  shows "2 powi floor_log2 x \<le> x \<and> x < 2 powi (floor_log2 x + 1)"
proof -
  let ?n = "nat \<lfloor>x\<rfloor>"
  have n: "1 \<le> ?n" using assms by (simp add: le_nat_iff)
  have f: "of_nat ?n = (of_int \<lfloor>x\<rfloor> :: rat)" using assms by simp
  have "(of_nat (2 ^ log2n ?n) :: rat) \<le> of_nat ?n"
    using log2n_bounds [OF n] by (simp only: of_nat_le_iff)
  then have lo: "2 ^ log2n ?n \<le> x"
    unfolding of_nat_power of_nat_numeral using f of_int_floor_le [of x] by linarith
  have "Suc ?n \<le> 2 ^ Suc (log2n ?n)"
    using log2n_bounds [OF n] by simp
  then have "(of_nat (Suc ?n) :: rat) \<le> of_nat (2 ^ Suc (log2n ?n))"
    by (simp only: of_nat_le_iff)
  then have hi: "x < 2 ^ Suc (log2n ?n)"
    using f by (simp only: of_nat_power of_nat_numeral of_nat_Suc) linarith
  show ?thesis
    using lo hi assms by (simp add: floor_log2_def power_int_add)
qed

lemma floor_log2_less_1:
  assumes "0 < x" and "x < 1"
  shows "2 powi floor_log2 x \<le> x \<and> x < 2 powi (floor_log2 x + 1)"
proof -
  let ?m = "nat \<lceil>1 / x\<rceil> - 1"
  have x1: "1 < 1 / x" using assms by simp
  then have c2: "2 \<le> \<lceil>1 / x\<rceil>" by linarith
  then have "2 \<le> nat \<lceil>1 / x\<rceil>" by (simp add: le_nat_iff)
  then have m: "1 \<le> ?m" by linarith
  have "int ?m + 1 = \<lceil>1 / x\<rceil>" using c2 by linarith
  then have mc: "(of_nat ?m :: rat) + 1 = of_int \<lceil>1 / x\<rceil>"
    by (metis of_int_1 of_int_add of_int_of_nat_eq)
  have "?m + 1 \<le> 2 ^ Suc (log2n ?m)"
    using log2n_bounds [OF m] by linarith
  then have "(of_nat (?m + 1) :: rat) \<le> of_nat (2 ^ Suc (log2n ?m))"
    by (simp only: of_nat_le_iff)
  then have "1 / x \<le> 2 ^ Suc (log2n ?m)"
    unfolding of_nat_power of_nat_numeral of_nat_add of_nat_1
    using mc le_of_int_ceiling [of "1 / x"] by linarith
  then have lo: "1 / 2 ^ Suc (log2n ?m) \<le> x"
    using assms by (simp add: field_simps)
  have "(of_nat (2 ^ log2n ?m) :: rat) \<le> of_nat ?m"
    using log2n_bounds [OF m] by (simp only: of_nat_le_iff)
  then have "2 ^ log2n ?m < 1 / x"
    unfolding of_nat_power of_nat_numeral using mc by linarith
  then have hi: "x < 1 / 2 ^ log2n ?m"
    using assms by (simp add: field_simps)
  have e: "floor_log2 x = - int (Suc (log2n ?m))"
    using assms by (simp add: floor_log2_def)
  have "floor_log2 x + 1 = - int (log2n ?m)"
    using e by simp
  with lo hi e show ?thesis
    by (simp only: power_int_minus power_int_of_nat inverse_eq_divide)
qed

lemma floor_log2_bounds:
  assumes "0 < x"
  shows "2 powi floor_log2 x \<le> x" and "x < 2 powi (floor_log2 x + 1)"
  using floor_log2_ge_1 [of x] floor_log2_less_1 [of x] assms by (cases "1 \<le> x"; auto)+

lemma powi2_less_cancel: "(2::rat) powi a < 2 powi b \<Longrightarrow> a < b"
  by (metis not_less one_le_numeral power_int_increasing)

lemma floor_log2_eq:
  assumes "2 powi k \<le> x" and "x < 2 powi (k + 1)"
  shows "floor_log2 x = k"
proof -
  have x: "0 < x" using assms(1) by (rule less_le_trans [rotated]) simp
  have "k < floor_log2 x + 1"
    using le_less_trans [OF assms(1) floor_log2_bounds(2) [OF x]] by (rule powi2_less_cancel)
  moreover have "floor_log2 x < k + 1"
    using le_less_trans [OF floor_log2_bounds(1) [OF x] assms(2)] by (rule powi2_less_cancel)
  ultimately show ?thesis by simp
qed

lemma floor_log2_add_power:
  assumes "0 \<le> d" and "d < 2 ^ e"
  shows "floor_log2 (2 ^ e + d) = int e"
proof (rule floor_log2_eq)
  show "2 powi int e \<le> 2 ^ e + d" using assms(1) by (simp add: power_int_def)
  have "(2::rat) powi (int e + 1) = 2 ^ Suc e"
    by (simp only: power_int_of_nat of_nat_Suc [symmetric] add.commute [of _ 1] flip: of_nat_Suc)
  then show "2 ^ e + d < 2 powi (int e + 1)" using assms(2) by simp
qed

lemma floor_log2_mono:
  assumes "0 < x" and "x \<le> y"
  shows "floor_log2 x \<le> floor_log2 y"
proof -
  have "(2::rat) powi floor_log2 x < 2 powi (floor_log2 y + 1)"
    using floor_log2_bounds [of x] floor_log2_bounds [of y] assms by linarith
  then show ?thesis using powi2_less_cancel by fastforce
qed

subsection \<open>Rounding to the nearest integer, ties to even\<close>

definition rne :: "rat \<Rightarrow> int" where
  "rne x = (let f = \<lfloor>x\<rfloor>; r = x - of_int f
            in if r < 1 / 2 then f else if r > 1 / 2 then f + 1
               else if even f then f else f + 1)"

lemma rne_of_int [simp]: "rne (of_int k) = k"
  by (simp add: rne_def)

lemma rne_bounds: "\<lfloor>x\<rfloor> \<le> rne x" "rne x \<le> \<lfloor>x\<rfloor> + 1"
  by (auto simp: rne_def Let_def)

lemma rne_mono:
  assumes "x \<le> y"
  shows "rne x \<le> rne y"
proof (cases "\<lfloor>x\<rfloor> = \<lfloor>y\<rfloor>")
  case True
  with assms show ?thesis by (auto simp: rne_def Let_def)
next
  case False
  with assms have "\<lfloor>x\<rfloor> + 1 \<le> \<lfloor>y\<rfloor>" using floor_mono [of x y] by linarith
  with rne_bounds [of x] rne_bounds [of y] show ?thesis by linarith
qed

lemma rne_minus: "rne (- x) = - rne x"
proof (cases "x = of_int \<lfloor>x\<rfloor>")
  case True
  then obtain k where "x = of_int k" by blast
  then have "- x = of_int (- k)" by simp
  with \<open>x = of_int k\<close> show ?thesis using rne_of_int by metis
next
  case False
  then have f: "\<lfloor>- x\<rfloor> = - \<lfloor>x\<rfloor> - 1" by linarith
  show ?thesis
    by (auto simp: rne_def Let_def f)
qed

subsection \<open>Rounding to a significand of p bits\<close>

definition fround :: "nat \<Rightarrow> rat \<Rightarrow> rat" where
  "fround p x = (if x = 0 then 0
     else let u = 2 powi (floor_log2 \<bar>x\<bar> - int p + 1) in of_int (rne (x / u)) * u)"

abbreviation float32 :: "rat \<Rightarrow> rat" where
  "float32 \<equiv> fround 24"

abbreviation float64 :: "rat \<Rightarrow> rat" where
  "float64 \<equiv> fround 53"

lemma fround_zero [simp]: "fround p 0 = 0"
  by (simp add: fround_def)

lemma fround_minus: "fround p (- x) = - fround p x"
  by (simp add: fround_def Let_def rne_minus)

lemma fround_nonneg: "0 \<le> x \<Longrightarrow> 0 \<le> fround p x"
  using rne_mono [of 0] rne_of_int [of 0] by (auto simp: fround_def Let_def)

lemma fround_range:
  assumes "0 < x" and "0 < p"
  shows "2 powi floor_log2 x \<le> fround p x" and "fround p x \<le> 2 powi (floor_log2 x + 1)"
proof -
  let ?u = "2 powi (floor_log2 x - int p + 1) :: rat"
  have u: "0 < ?u" by simp
  have lo: "of_int (2 ^ (p - 1)) * ?u = 2 powi floor_log2 x"
    using assms(2) by (simp flip: power_int_of_nat power_int_add add: of_nat_diff)
  have hi: "of_int (2 ^ p) * ?u = 2 powi (floor_log2 x + 1)"
    by (simp flip: power_int_of_nat power_int_add)
  have "of_int (2 ^ (p - 1)) \<le> x / ?u"
    using floor_log2_bounds(1) [OF assms(1)] lo u by (simp add: pos_le_divide_eq)
  then have "2 ^ (p - 1) \<le> rne (x / ?u)"
    using rne_mono rne_of_int by metis
  then have "(of_int (2 ^ (p - 1)) :: rat) \<le> of_int (rne (x / ?u))"
    by (simp only: of_int_le_iff)
  then have "of_int (2 ^ (p - 1)) * ?u \<le> of_int (rne (x / ?u)) * ?u"
    using u by (intro mult_right_mono) auto
  then show "2 powi floor_log2 x \<le> fround p x"
    using assms by (simp add: fround_def Let_def lo [symmetric])
  have "x / ?u \<le> of_int (2 ^ p)"
    using floor_log2_bounds(2) [OF assms(1)] hi u by (simp add: pos_divide_le_eq)
  then have "rne (x / ?u) \<le> 2 ^ p"
    using rne_mono rne_of_int by metis
  then have "(of_int (rne (x / ?u)) :: rat) \<le> of_int (2 ^ p)"
    by (simp only: of_int_le_iff)
  then have "of_int (rne (x / ?u)) * ?u \<le> of_int (2 ^ p) * ?u"
    using u by (intro mult_right_mono) auto
  then show "fround p x \<le> 2 powi (floor_log2 x + 1)"
    using assms by (simp add: fround_def Let_def hi [symmetric])
qed

lemma fround_mono_pos:
  assumes "0 < x" and "x \<le> y" and "0 < p"
  shows "fround p x \<le> fround p y"
proof (cases "floor_log2 x = floor_log2 y")
  case True
  let ?u = "2 powi (floor_log2 x - int p + 1) :: rat"
  have "rne (x / ?u) \<le> rne (y / ?u)"
    using assms by (intro rne_mono divide_right_mono) auto
  with True assms show ?thesis
    by (simp add: fround_def Let_def)
next
  case False
  with floor_log2_mono [OF assms(1,2)] have "floor_log2 x + 1 \<le> floor_log2 y" by simp
  then have "(2::rat) powi (floor_log2 x + 1) \<le> 2 powi floor_log2 y"
    by (intro power_int_increasing) auto
  with fround_range(2) [OF assms(1,3)] fround_range(1) [of y p] assms show ?thesis by linarith
qed

lemma fround_mono:
  assumes "x \<le> y" and "0 < p"
  shows "fround p x \<le> fround p y"
proof -
  consider "0 < x" | "x \<le> 0" "0 \<le> y" | "y < 0" by linarith
  then show ?thesis
  proof cases
    case 1
    with assms show ?thesis by (intro fround_mono_pos)
  next
    case 2
    then show ?thesis
      using fround_nonneg [of y p] fround_nonneg [of "- x" p] by (simp add: fround_minus)
  next
    case 3
    then show ?thesis
      using fround_mono_pos [of "- y" "- x" p] assms by (simp add: fround_minus)
  qed
qed

lemma fround_of_nat:
  assumes "n \<le> 2 ^ p" and "0 < p"
  shows "fround p (of_nat n) = of_nat n"
proof (cases "n = 0")
  case False
  let ?x = "of_nat n :: rat"
  let ?e = "floor_log2 ?x - int p + 1"
  have x: "0 < ?x" using False by simp
  have exact: "\<exists>k::int. ?x = of_int k * 2 powi ?e"
  proof (cases "n = 2 ^ p")
    case True
    then have "?x = 2 powi int p" by simp
    have fl: "floor_log2 ?x \<le> int p"
      using floor_log2_bounds(1) [OF x] \<open>?x = 2 powi int p\<close> powi2_less_cancel
      by (metis leD leI power_int_strict_increasing one_less_numeral_iff semiring_norm(76))
    from fl assms(2) have "int p = int (nat (int p - ?e)) + ?e" by simp
    then obtain j where j: "int p = int j + ?e" ..
    have "(2::rat) powi (int j + ?e) = of_int (2 ^ j) * 2 powi ?e"
      by (subst power_int_add) auto
    with j \<open>?x = 2 powi int p\<close> have "?x = of_int (2 ^ j) * 2 powi ?e" by metis
    then show ?thesis by blast
  next
    case ne: False
    then have "?x < 2 powi int p"
      using assms(1) by (simp add: order_less_le)
    then have "floor_log2 ?x < int p"
      using floor_log2_bounds(1) [OF x] powi2_less_cancel [of "floor_log2 ?x" "int p"] by linarith
    then have "?e = - int (nat (- ?e))" by simp
    then obtain j where j: "?e = - int j" ..
    have "?x = of_int (int n * 2 ^ j) * 2 powi ?e"
      unfolding j by (simp add: power_int_minus)
    then show ?thesis by blast
  qed
  then obtain k where k: "?x = of_int k * 2 powi ?e" by blast
  have "?x / 2 powi ?e = of_int k"
    by (subst k) simp
  then have "fround p ?x = of_int k * 2 powi ?e"
    using x by (simp add: fround_def Let_def)
  then show ?thesis using k by metis
qed simp

lemma fround_of_int:
  assumes "\<bar>k\<bar> \<le> 2 ^ p" and "0 < p"
  shows "fround p (of_int k) = of_int k"
proof -
  have *: "nat \<bar>k\<bar> \<le> 2 ^ p" using assms(1) by (simp add: nat_le_iff)
  show ?thesis
    using fround_of_nat [OF * assms(2)] fround_minus [of p "of_int (- k)"]
    by (cases "0 \<le> k") auto
qed

lemma fround_between_int:
  assumes "of_int a \<le> x" and "x \<le> of_int b" and "\<bar>a\<bar> \<le> 2 ^ p" and "\<bar>b\<bar> \<le> 2 ^ p" and "0 < p"
  shows "of_int a \<le> fround p x" and "fround p x \<le> of_int b"
  using fround_mono [OF assms(1,5)] fround_mono [OF assms(2,5)]
    fround_of_int [OF assms(3,5)] fround_of_int [OF assms(4,5)] by simp_all

text \<open>Evaluation of closed instances by the simplifier.\<close>

lemma floor_rat_numeral [simp]:
  "\<lfloor>numeral a / numeral b :: rat\<rfloor> = numeral a div numeral b"
  "\<lfloor>1 / numeral b :: rat\<rfloor> = 1 div numeral b"
  by (metis floor_divide_of_int_eq of_int_numeral)
     (metis floor_divide_of_int_eq of_int_numeral of_int_1)

lemma ceiling_rat_numeral [simp]:
  "\<lceil>numeral a / numeral b :: rat\<rceil> = - (- numeral a div numeral b)"
  using ceiling_divide_eq_div [of "numeral a" "numeral b", where ?'a = rat]
  by simp

lemmas fround_eval = fround_def floor_log2_def rne_def log2n.simps Let_def

text \<open>Just above a power of two, a float that cannot represent the rest rounds down to that power:
  up to and with half a unit in the last place.\<close>

lemma float32_above_power:
  assumes "24 \<le> e" and "0 \<le> d" and "d \<le> 2 ^ (e - 24)"
  shows "float32 (2 ^ e + d) = 2 ^ e"
proof -
  let ?u = "2 ^ (e - 23) :: rat"
  obtain k where k: "e = k + 24" using assms(1) by (metis le_add_diff_inverse2)
  have "(2::rat) ^ (e - 24) < 2 ^ e" using assms(1) by (intro power_strict_increasing) auto
  then have l: "floor_log2 (2 ^ e + d) = int e"
    using floor_log2_add_power [OF assms(2) le_less_trans [OF assms(3)]] by simp
  have u: "2 powi (int e - int 24 + 1) = ?u"
    using assms(1) by (simp add: power_int_def nat_diff_distrib)
  have q: "(2 ^ e + d) / ?u = 2 ^ 23 + d / ?u" using k by (simp add: add_divide_distrib power_add)
  have d: "0 \<le> d / ?u" "d / ?u \<le> 1 / 2"
    using assms(2,3) k by (simp_all add: divide_le_eq)
  have "d / ?u < 1" using d(2) by (rule le_less_trans) simp
  then have "\<lfloor>d / ?u\<rfloor> = 0" using d(1) unfolding floor_eq_iff by simp
  then have f: "\<lfloor>2 ^ 23 + d / ?u\<rfloor> = 2 ^ 23" by simp
  have "rne ((2 ^ e + d) / ?u) = 2 ^ 23"
    using d(2) unfolding q rne_def f Let_def by simp
  moreover have "0 < 2 ^ e + d" using assms(2) by (simp add: add_pos_nonneg)
  ultimately have "float32 (2 ^ e + d) = of_int (2 ^ 23) * ?u"
    unfolding fround_def using l u by (simp add: Let_def)
  then show ?thesis using k by (simp add: power_add)
qed

lemma float32_16777217: "float32 16777217 = 16777216"
  by (simp add: fround_eval)

lemma float32_tenth: "float32 (1 / 10) = 13421773 / 134217728"
  by (simp add: fround_eval)

subsection \<open>Conversion to integers\<close>

text \<open>
  Conversion of a \<^verbatim>\<open>float\<close> to \<^verbatim>\<open>uint64_t\<close> truncates; it is undefined outside the range.
\<close>

definition to_uint64 :: "rat \<Rightarrow> nat option" where
  "to_uint64 x = (if 0 \<le> x \<and> x < 2 ^ 64 then Some (nat \<lfloor>x\<rfloor>) else None)"

text \<open>
  Conversion of a nonnegative value to \<^verbatim>\<open>size_t\<close> where the result is a number of objects in
  memory, so that it cannot exceed the range.
\<close>

definition to_size :: "rat \<Rightarrow> nat" where
  "to_size x = nat \<lfloor>x\<rfloor>"

lemma to_size_pos: "1 \<le> x \<Longrightarrow> 0 < to_size x"
  by (simp add: to_size_def)

end
