(* ===== verification/Nfd_Prelude.thy ===== *)
theory Nfd_Prelude
  imports
    Complex_Main
    "HOL-Library.Word"
    "HOL-Library.Sublist"
    "HOL-Library.AList"
    "HOL-Library.Monad_Syntax"
    Floating_Point
begin

text \<open>
  What the components share: names, faces and packets as the forwarder reads them, the
  C++ containers it uses (\<^verbatim>\<open>std::vector\<close> with checked access, \<^verbatim>\<open>std::unordered_map\<close> as an
  association list in iteration order, \<^verbatim>\<open>std::find_if\<close> and \<^verbatim>\<open>std::max_element\<close>), and the lemmas on
  lists, options and association lists the component proofs use.

  Names, packets and enumerations are data of the library ndn-cxx; a name is the list of
  its components, a component its type and octets, and a packet is the record of the fields the
  daemon's code reads through accessors.  Code of ndn-cxx that decides something
  (\<^verbatim>\<open>Interest::matchesData\<close>, wire sizes, the severity order of Nack reasons) is a parameter of
  the definitions that call it.

  Results: a definition that can run into a failed \<^verbatim>\<open>BOOST_ASSERT\<close>, a null dereference or an
  out-of-range access returns an option, and None stands for that failure.
\<close>

subsection \<open>Names, time, faces\<close>

datatype component = Component (type: nat) (value_bytes: string)

type_synonym name = "component list"

text \<open>TLV types 8 and 1: generic components, and the implicit digest that can end a full name.\<close>

abbreviation Generic :: "string \<Rightarrow> component" where
  "Generic s \<equiv> Component 8 s"

abbreviation ImplicitDigest :: "string \<Rightarrow> component" where
  "ImplicitDigest s \<equiv> Component 1 s"

definition isImplicitSha256Digest :: "component \<Rightarrow> bool" where
  "isImplicitSha256Digest c \<longleftrightarrow> type c = 1"

text \<open>\<^verbatim>\<open>name.size() > 0 && name[-1].isImplicitSha256Digest()\<close>\<close>

definition hasDigest :: "name \<Rightarrow> bool" where
  "hasDigest name \<longleftrightarrow> name \<noteq> [] \<and> isImplicitSha256Digest (last name)"

text \<open>Points of the steady clock and durations, in nanoseconds; milliseconds where noted.\<close>

type_synonym time = int

abbreviation ms :: "int \<Rightarrow> time" where
  "ms t \<equiv> t * 1000000"

text \<open>\<^verbatim>\<open>core/scope-prefix.cpp\<close>\<close>

definition LOCALHOST :: name where
  "LOCALHOST = [Generic ''localhost'']"

definition LOCALHOP :: name where
  "LOCALHOP = [Generic ''localhop'']"

text \<open>A face is referred to by its address; its attributes are in a store.\<close>

type_synonym face_ref = nat
type_synonym pit_ref = nat

datatype face_scope = FACE_SCOPE_NONE | FACE_SCOPE_NON_LOCAL | FACE_SCOPE_LOCAL

datatype link_type =
  LINK_TYPE_NONE | LINK_TYPE_POINT_TO_POINT | LINK_TYPE_MULTI_ACCESS | LINK_TYPE_AD_HOC

record face =
  getId :: nat
  getScope :: face_scope
  getLinkType :: link_type

definition INVALID_FACEID :: nat where
  "INVALID_FACEID = 0"

definition FACEID_CONTENT_STORE :: nat where
  "FACEID_CONTENT_STORE = 254"

definition FACEID_RESERVED_MAX :: nat where
  "FACEID_RESERVED_MAX = 255"

subsection \<open>Packets\<close>

text \<open>
  Selectors: the two the daemon reads, and the rest (suffix bounds, exclude, key locator)
  as one opaque value that is only compared for equality.
\<close>

record selectors =
  getMustBeFresh :: bool
  getChildSelector :: int
  otherSelectors :: string

record interest =
  getName :: name
  getSelectors :: selectors
  getNonce :: "32 word"
  getInterestLifetime :: int
  getForwardingHint :: "name list"
  getNextHopFaceId :: "nat option"

record data =
  getDataName :: name
  getDigest :: string
  getFreshnessPeriod :: int
  getCachePolicyNoCache :: bool
  getContent :: string

datatype nack_reason = NACK_NONE | NACK_CONGESTION | NACK_DUPLICATE | NACK_NO_ROUTE

record nack =
  getInterest :: interest
  getReason :: nack_reason

definition getFullName :: "data \<Rightarrow> name" where
  "getFullName d = getDataName d @ [ImplicitDigest (getDigest d)]"

text \<open>\<^verbatim>\<open>ndn::DEFAULT_INTEREST_LIFETIME\<close>, in milliseconds.\<close>

definition DEFAULT_INTEREST_LIFETIME :: int where
  "DEFAULT_INTEREST_LIFETIME = 4000"

subsection \<open>Failing accesses\<close>

text \<open>A failed assertion stops the computation.\<close>

definition assert :: "bool \<Rightarrow> unit option" where
  "assert b = (if b then Some () else None)"

lemma assert_simps [simp]: "assert True = Some ()" "assert False = None"
  by (simp_all add: assert_def)

lemma assert_eq_Some [simp]: "assert b = Some u \<longleftrightarrow> b"
  by (simp add: assert_def)

lemma assert_eq_None [simp]: "assert b = None \<longleftrightarrow> \<not> b"
  by (simp add: assert_def)

lemma bind_assert_eq_Some [simp]: "(assert b \<bind> f = Some y) \<longleftrightarrow> b \<and> f () = Some y"
  by (simp add: assert_def)

text \<open>\<^verbatim>\<open>std::vector::operator[]\<close>: out of range is undefined behaviour, here None.\<close>

definition vec_get :: "'a list \<Rightarrow> nat \<Rightarrow> 'a option" where
  "vec_get xs i = (if i < length xs then Some (xs ! i) else None)"

lemma vec_get_in [simp]: "i < length xs \<Longrightarrow> vec_get xs i = Some (xs ! i)"
  by (simp add: vec_get_def)

lemma vec_get_eq_Some: "vec_get xs i = Some x \<longleftrightarrow> i < length xs \<and> xs ! i = x"
  by (auto simp: vec_get_def)

lemma vec_get_eq_None [simp]: "vec_get xs i = None \<longleftrightarrow> length xs \<le> i"
  by (auto simp: vec_get_def)

subsection \<open>Searching lists\<close>

text \<open>\<^verbatim>\<open>std::find_if\<close> then \<^verbatim>\<open>erase\<close> at the iterator: removes the first match only.\<close>

fun erase_first :: "('a \<Rightarrow> bool) \<Rightarrow> 'a list \<Rightarrow> 'a list" where
  "erase_first P [] = []"
| "erase_first P (x # xs) = (if P x then xs else x # erase_first P xs)"

text \<open>\<^verbatim>\<open>std::find_if\<close> then an update through the iterator.\<close>

fun update_first :: "('a \<Rightarrow> bool) \<Rightarrow> ('a \<Rightarrow> 'a) \<Rightarrow> 'a list \<Rightarrow> 'a list" where
  "update_first P f [] = []"
| "update_first P f (x # xs) = (if P x then f x # xs else x # update_first P f xs)"

lemma find_eq_None: "List.find P xs = None \<longleftrightarrow> (\<forall>x\<in>set xs. \<not> P x)"
  by (auto simp: find_None_iff)

lemma find_SomeD: "List.find P xs = Some x \<Longrightarrow> x \<in> set xs \<and> P x"
  by (auto simp: find_Some_iff)

lemma set_erase_first: "set (erase_first P xs) \<subseteq> set xs"
  by (induction xs) auto

lemma erase_first_none: "\<forall>x\<in>set xs. \<not> P x \<Longrightarrow> erase_first P xs = xs"
  by (induction xs) auto

lemma map_update_first:
  "(\<And>x. P x \<Longrightarrow> g (f x) = g x) \<Longrightarrow> map g (update_first P f xs) = map g xs"
  by (induction xs) auto

lemma length_update_first [simp]: "length (update_first P f xs) = length xs"
  by (induction xs) auto

lemma set_update_first: "x \<in> set (update_first P f xs) \<Longrightarrow> x \<in> set xs \<or> (\<exists>y\<in>set xs. P y \<and> x = f y)"
  by (induction xs) (auto split: if_splits)

text \<open>
  With distinct keys, erasing the first record of a key removes it and keeps the others.
\<close>

lemma erase_first_key:
  "distinct (map k xs) \<Longrightarrow> erase_first (\<lambda>x. k x = a) xs = filter (\<lambda>x. k x \<noteq> a) xs"
proof (induction xs)
  case (Cons x xs)
  show ?case
  proof (cases "k x = a")
    case True
    from Cons.prems have "k x \<notin> k ` set xs" by simp
    with True have "\<forall>y\<in>set xs. k y \<noteq> a" by (metis imageI)
    then have "filter (\<lambda>y. k y \<noteq> a) xs = xs" by (simp add: filter_id_conv)
    with True show ?thesis by simp
  next
    case False
    with Cons show ?thesis by simp
  qed
qed simp

lemma distinct_map_erase_first:
  "distinct (map k xs) \<Longrightarrow> distinct (map k (erase_first P xs))"
proof (induction xs)
  case (Cons x xs)
  with set_erase_first [of P xs] show ?case by auto
qed simp

lemma find_erase_first_other:
  "k b \<Longrightarrow> (\<And>x. k x \<Longrightarrow> \<not> P x) \<Longrightarrow> List.find k (erase_first P xs) = List.find k xs"
  by (induction xs) auto

lemma find_update_first_same:
  "(\<And>x. P x \<Longrightarrow> P (f x)) \<Longrightarrow> List.find P (update_first P f xs) = map_option f (List.find P xs)"
  by (induction xs) auto

lemma find_update_first_other:
  "(\<And>x. P x \<Longrightarrow> \<not> Q x \<and> \<not> Q (f x)) \<Longrightarrow> List.find Q (update_first P f xs) = List.find Q xs"
  by (induction xs) auto

text \<open>\<^verbatim>\<open>std::max_element\<close> for a strict order given by a key: the first maximal element.\<close>

fun max_element :: "('a \<Rightarrow> int) \<Rightarrow> 'a list \<Rightarrow> 'a option" where
  "max_element k [] = None"
| "max_element k (x # xs) =
     Some (foldl (\<lambda>best y. if k best < k y then y else best) x xs)"

lemma foldl_max_element:
  "foldl (\<lambda>best y. if k best < k y then y else best) x xs \<in> set (x # xs) \<and>
   (\<forall>y\<in>set (x # xs). k y \<le> (k (foldl (\<lambda>best y. if k best < k y then y else best) x xs) :: int))"
proof (induction xs arbitrary: x)
  case (Cons z zs)
  show ?case
    using Cons.IH [of "if k x < k z then z else x"] by (auto split: if_splits)
qed simp

lemma max_elementD:
  assumes "max_element k xs = Some m"
  shows "m \<in> set xs" and "y \<in> set xs \<Longrightarrow> k y \<le> k m"
  using assms foldl_max_element [of k] by (cases xs; fastforce)+

lemma max_element_None [simp]: "max_element k xs = None \<longleftrightarrow> xs = []"
  by (cases xs) auto

subsection \<open>Unordered maps as association lists\<close>

text \<open>\<^verbatim>\<open>m[k]\<close> on an arithmetic map: reads zero for an absent key, and inserts it.\<close>

definition map_at :: "('k \<times> 'v::zero) list \<Rightarrow> 'k \<Rightarrow> 'v" where
  "map_at m k = (case map_of m k of Some v \<Rightarrow> v | None \<Rightarrow> 0)"

definition map_touch :: "'k \<Rightarrow> ('k \<times> 'v::zero) list \<Rightarrow> ('k \<times> 'v) list" where
  "map_touch k m = (case map_of m k of Some v \<Rightarrow> m | None \<Rightarrow> m @ [(k, 0)])"

lemma map_at_touch [simp]: "map_at (map_touch k m) j = map_at m j"
  by (auto simp: map_at_def map_touch_def map_add_def split: option.splits)

lemma map_at_update: "map_at (AList.update k v m) j = (if j = k then v else map_at m j)"
  by (simp add: map_at_def update_conv)

lemma keys_update_existing:
  "k \<in> fst ` set m \<Longrightarrow> map fst (AList.update k v m) = map fst m"
  by (induction m) auto

lemma distinct_update: "distinct (map fst m) \<Longrightarrow> distinct (map fst (AList.update k v m))"
  by (rule AList.distinct_update)

subsection \<open>Collections of facts\<close>

text \<open>Facts that unfold the operations of a component, and well-formedness rules.\<close>

named_theorems qos_ops
named_theorems wf_intros

end
