(* ===== verification/Token_Bucket.thy ===== *)
theory Token_Bucket
  imports Nfd_Prelude
begin

text \<open>
  \<^verbatim>\<open>daemon/fw/ndn-token-bucket.{hpp,cpp}\<close>: one bucket per priority class, with a token count per
  outgoing face.  A driver calls \<open>addToken\<close> at the refill rate; the QoS strategy calls
  \<open>consumeToken\<close> when it sends a packet.  The signals the methods raise are returned with
  the new state.

  Counts are \<^verbatim>\<open>double\<close> values.  The invariant \<open>tb_wf\<close> says what the class maintains when it is
  driven with whole tokens: every count is an integer that is at most the capacity.
\<close>

record token_bucket =
  hasFaces :: bool
  m_atCapacity :: bool
  m_tokens :: "(nat \<times> rat) list"
  m_need :: "(nat \<times> rat) list"
  m_capacity :: int

definition TokenBucket :: token_bucket where
  "TokenBucket = \<lparr>hasFaces = False, m_atCapacity = False, m_tokens = [], m_need = [], m_capacity = 0\<rparr>"

text \<open>One iteration of the loop of \<open>addToken\<close>, for the face the iterator is at.\<close>

definition addToken_face :: "nat \<Rightarrow> token_bucket \<times> bool \<Rightarrow> token_bucket \<times> bool" where
  "addToken_face f = (\<lambda>(tb, callsend).
     let v = map_at (m_tokens tb) f;
         tb = (if v < of_int (m_capacity tb)
               then tb\<lparr>m_atCapacity := False, m_tokens := AList.update f (float64 (v + 1)) (m_tokens tb)\<rparr>
               else tb);
         tb = tb\<lparr>m_need := map_touch f (m_need tb)\<rparr>;
         need = map_at (m_need tb) f
     in (tb, callsend \<or> (need \<noteq> 0 \<and> need \<le> map_at (m_tokens tb) f)))"

text \<open>The new bucket, and whether the signal \<^verbatim>\<open>send\<close> is raised.\<close>

definition addToken :: "token_bucket \<Rightarrow> token_bucket \<times> bool" where
  "addToken tb = fold addToken_face (map fst (m_tokens tb)) (tb\<lparr>m_atCapacity := True\<rparr>, False)"

text \<open>The new bucket, and whether the signal \<^verbatim>\<open>noLongerAtCapacity\<close> is raised.\<close>

definition consumeToken :: "rat \<Rightarrow> nat \<Rightarrow> token_bucket \<Rightarrow> token_bucket \<times> bool" where
  "consumeToken tokens f tb =
     (let tb = (if map_of (m_tokens tb) f = None
                then tb\<lparr>m_tokens := AList.update f (of_int (m_capacity tb)) (m_tokens tb)\<rparr> else tb);
          tb = tb\<lparr>m_tokens := AList.update f (float64 (map_at (m_tokens tb) f - tokens)) (m_tokens tb)\<rparr>
      in if m_atCapacity tb then (tb\<lparr>m_atCapacity := False\<rparr>, True) else (tb, False))"

text \<open>
  What the strategy reads before it asks for a queue: the capacity for a face the bucket
  has not seen (\<^verbatim>\<open>qos-strategy.cpp\<close>, in \<open>prioritySend\<close>).
\<close>

definition available :: "token_bucket \<Rightarrow> nat \<Rightarrow> rat" where
  "available tb f = (case map_of (m_tokens tb) f of Some v \<Rightarrow> v | None \<Rightarrow> of_int (m_capacity tb))"

subsection \<open>The invariant\<close>

definition tb_wf :: "token_bucket \<Rightarrow> bool" where
  "tb_wf tb \<longleftrightarrow> distinct (map fst (m_tokens tb)) \<and> 0 \<le> m_capacity tb \<and> m_capacity tb \<le> 2 ^ 31 - 1 \<and>
     (\<forall>v\<in>snd ` set (m_tokens tb). \<exists>k. v = of_int k \<and> 0 \<le> k \<and> k \<le> m_capacity tb)"

lemma tb_wf_new: "tb_wf TokenBucket"
  by (simp add: tb_wf_def TokenBucket_def)

text \<open>
  One refill of a count: the function every iteration applies to its face.
\<close>

definition refill :: "int \<Rightarrow> rat \<Rightarrow> rat" where
  "refill c v = (if v < of_int c then float64 (v + 1) else v)"

lemma refill_of_int:
  assumes "0 \<le> k" and "k \<le> c" and "c \<le> 2 ^ 31 - 1"
  shows "refill c (of_int k) = of_int (min c (k + 1))"
proof (cases "k < c")
  case True
  have "float64 (of_int (k + 1)) = of_int (k + 1)"
    using assms by (intro fround_of_int) auto
  with True assms show ?thesis by (simp add: refill_def)
next
  case False
  with assms show ?thesis by (simp add: refill_def)
qed

subsection \<open>The refill loop\<close>

lemma addToken_face_effect:
  assumes "addToken_face f (tb, b) = (tb', b')" and "f \<in> fst ` set (m_tokens tb)"
  shows "map fst (m_tokens tb') = map fst (m_tokens tb)"
    and "map_at (m_tokens tb') g =
           (if g = f then refill (m_capacity tb) (map_at (m_tokens tb) f) else map_at (m_tokens tb) g)"
    and "map_at (m_need tb') g = map_at (m_need tb) g"
    and "m_capacity tb' = m_capacity tb" and "hasFaces tb' = hasFaces tb"
    and "m_atCapacity tb' \<longleftrightarrow> m_atCapacity tb \<and> of_int (m_capacity tb) \<le> map_at (m_tokens tb) f"
    and "b' \<longleftrightarrow> b \<or> (map_at (m_need tb) f \<noteq> 0 \<and>
           map_at (m_need tb) f \<le> refill (m_capacity tb) (map_at (m_tokens tb) f))"
  using assms
  by (auto simp: addToken_face_def Let_def refill_def map_at_update
      keys_update_existing [OF assms(2)] split: if_splits)

lemma addToken_fold_effect:
  assumes "fold addToken_face fs (tb, b) = (tb', b')"
    and "distinct fs" and "set fs \<subseteq> fst ` set (m_tokens tb)"
  shows "map fst (m_tokens tb') = map fst (m_tokens tb) \<and>
    (\<forall>g. map_at (m_tokens tb') g =
       (if g \<in> set fs then refill (m_capacity tb) (map_at (m_tokens tb) g) else map_at (m_tokens tb) g)) \<and>
    (\<forall>g. map_at (m_need tb') g = map_at (m_need tb) g) \<and>
    m_capacity tb' = m_capacity tb \<and> hasFaces tb' = hasFaces tb \<and>
    (m_atCapacity tb' \<longleftrightarrow> m_atCapacity tb \<and> (\<forall>g\<in>set fs. of_int (m_capacity tb) \<le> map_at (m_tokens tb) g)) \<and>
    (b' \<longleftrightarrow> b \<or> (\<exists>g\<in>set fs. map_at (m_need tb) g \<noteq> 0 \<and>
       map_at (m_need tb) g \<le> refill (m_capacity tb) (map_at (m_tokens tb) g)))"
  using assms
proof (induction fs arbitrary: tb b)
  case Nil
  then show ?case by simp
next
  case (Cons f fs)
  obtain tb1 b1 where s: "addToken_face f (tb, b) = (tb1, b1)" by (cases "addToken_face f (tb, b)")
  have f: "f \<in> fst ` set (m_tokens tb)" using Cons.prems(3) by simp
  note e = addToken_face_effect [OF s f]
  have k: "fst ` set (m_tokens tb1) = fst ` set (m_tokens tb)"
    using e(1) by (metis list.set_map)
  have IH: "fold addToken_face fs (tb1, b1) = (tb', b')"
    using Cons.prems(1) s by simp
  have ne: "\<And>g. g \<in> set fs \<Longrightarrow> g \<noteq> f" using Cons.prems(2) by auto
  show ?case
    using Cons.IH [OF IH] Cons.prems(2,3) k by (auto simp: e ne)
qed

lemma addToken_effect:
  assumes "addToken tb = (tb', send)" and "distinct (map fst (m_tokens tb))"
  shows "map fst (m_tokens tb') = map fst (m_tokens tb)"
    and "f \<in> fst ` set (m_tokens tb) \<Longrightarrow>
           map_at (m_tokens tb') f = refill (m_capacity tb) (map_at (m_tokens tb) f)"
    and "map_at (m_need tb') g = map_at (m_need tb) g"
    and "m_capacity tb' = m_capacity tb"
    and "m_atCapacity tb' \<longleftrightarrow> (\<forall>f\<in>fst ` set (m_tokens tb). of_int (m_capacity tb) \<le> map_at (m_tokens tb) f)"
    and "send \<longleftrightarrow> (\<exists>f\<in>fst ` set (m_tokens tb). map_at (m_need tb) f \<noteq> 0 \<and>
           map_at (m_need tb) f \<le> refill (m_capacity tb) (map_at (m_tokens tb) f))"
  using addToken_fold_effect [of "map fst (m_tokens tb)" "tb\<lparr>m_atCapacity := True\<rparr>" False tb' send] assms
  by (auto simp: addToken_def)

lemma map_at_in_set:
  "distinct (map fst m) \<Longrightarrow> (f, v) \<in> set m \<Longrightarrow> map_at m f = v"
  by (simp add: map_at_def map_of_is_SomeI)

text \<open>The invariant in terms of what the map reads at each of its keys.\<close>

lemma tb_wf_alt:
  "tb_wf tb \<longleftrightarrow> distinct (map fst (m_tokens tb)) \<and> 0 \<le> m_capacity tb \<and> m_capacity tb \<le> 2 ^ 31 - 1 \<and>
     (\<forall>f\<in>fst ` set (m_tokens tb). \<exists>k. map_at (m_tokens tb) f = of_int k \<and> 0 \<le> k \<and> k \<le> m_capacity tb)"
proof (cases "distinct (map fst (m_tokens tb))")
  case True
  have "snd ` set (m_tokens tb) = map_at (m_tokens tb) ` fst ` set (m_tokens tb)"
    using map_at_in_set [OF True] by (force simp: image_image)
  then show ?thesis by (auto simp: tb_wf_def)
qed (simp add: tb_wf_def)

lemma addToken_wf [wf_intros]:
  assumes "tb_wf tb" and "addToken tb = (tb', send)"
  shows "tb_wf tb'"
proof -
  have d: "distinct (map fst (m_tokens tb))" using assms(1) by (simp add: tb_wf_def)
  note e = addToken_effect [OF assms(2) d]
  have k: "fst ` set (m_tokens tb') = fst ` set (m_tokens tb)"
    using e(1) by (metis list.set_map)
  have "\<exists>j. map_at (m_tokens tb') f = of_int j \<and> 0 \<le> j \<and> j \<le> m_capacity tb"
    if "f \<in> fst ` set (m_tokens tb)" for f
  proof -
    obtain j where j: "map_at (m_tokens tb) f = of_int j" "0 \<le> j" "j \<le> m_capacity tb"
      using assms(1) \<open>f \<in> fst ` set (m_tokens tb)\<close> unfolding tb_wf_alt by blast
    have c: "m_capacity tb \<le> 2 ^ 31 - 1" using assms(1) by (simp add: tb_wf_def)
    have "map_at (m_tokens tb') f = of_int (min (m_capacity tb) (j + 1))"
      using e(2) [OF \<open>f \<in> fst ` set (m_tokens tb)\<close>] j refill_of_int [OF j(2,3) c] by simp
    with j show ?thesis by (intro exI [of _ "min (m_capacity tb) (j + 1)"]) auto
  qed
  with assms(1) e(1,4) k show ?thesis unfolding tb_wf_alt by simp
qed

text \<open>The refills of a driver that ticks n times.\<close>

primrec addTokens :: "nat \<Rightarrow> token_bucket \<Rightarrow> token_bucket" where
  "addTokens 0 tb = tb"
| "addTokens (Suc n) tb = fst (addToken (addTokens n tb))"

lemma addToken_iter_wf:
  assumes "tb_wf tb"
  shows "tb_wf (addTokens m tb) \<and> m_capacity (addTokens m tb) = m_capacity tb"
proof (induction m)
  case (Suc m)
  let ?t = "addTokens m tb"
  obtain t' s where s: "addToken ?t = (t', s)" by (cases "addToken ?t")
  have "distinct (map fst (m_tokens ?t))" using Suc by (simp add: tb_wf_def)
  from addToken_wf [OF _ s] addToken_effect(4) [OF s this] Suc s show ?case by simp
qed (simp add: assms)

lemma available_wf:
  assumes "tb_wf tb"
  obtains k where "available tb f = of_int k" "0 \<le> k" "k \<le> m_capacity tb"
proof (cases "map_of (m_tokens tb) f")
  case None
  with assms that [of "m_capacity tb"] show ?thesis by (simp add: available_def tb_wf_def)
next
  case (Some v)
  then have "v \<in> snd ` set (m_tokens tb)" by (force dest: map_of_SomeD)
  with assms Some that show ?thesis by (auto simp: available_def tb_wf_def)
qed

lemma consumeToken_effect:
  assumes "consumeToken t f tb = (tb', sig)"
  shows "available tb' g = (if g = f then float64 (available tb f - t) else available tb g)"
    and "m_capacity tb' = m_capacity tb" and "m_need tb' = m_need tb"
    and "\<not> m_atCapacity tb'" and "sig \<longleftrightarrow> m_atCapacity tb"
    and "distinct (map fst (m_tokens tb)) \<Longrightarrow> distinct (map fst (m_tokens tb'))"
  using assms
  by (auto simp: consumeToken_def Let_def available_def map_at_def update_conv
      distinct_update split: if_splits option.splits)

lemma consumeToken_wf [wf_intros]:
  assumes "tb_wf tb" and "1 \<le> available tb f" and "consumeToken 1 f tb = (tb', sig)"
  shows "tb_wf tb'"
proof -
  have v: "\<exists>j. available tb' g = of_int j \<and> 0 \<le> j \<and> j \<le> m_capacity tb" for g
  proof (cases "g = f")
    case True
    obtain k where k: "available tb f = of_int k" "0 \<le> k" "k \<le> m_capacity tb"
      using available_wf [OF assms(1)] .
    have "1 \<le> k" using assms(2) k(1) by simp
    moreover have "float64 (of_int (k - 1)) = of_int (k - 1)"
      using k \<open>1 \<le> k\<close> assms(1) by (intro fround_of_int) (auto simp: tb_wf_def)
    ultimately show ?thesis
      using True k consumeToken_effect(1) [OF assms(3), of g] by (intro exI [of _ "k - 1"]) auto
  next
    case False
    then show ?thesis
      using available_wf [OF assms(1), of g] consumeToken_effect(1) [OF assms(3), of g] by metis
  qed
  have "map_at (m_tokens tb') g = available tb' g" if "g \<in> fst ` set (m_tokens tb')" for g
    using that by (auto simp: map_at_def available_def split: option.splits dest: map_of_eq_None_iff [THEN iffD1])
  then show ?thesis
    using v assms(1) consumeToken_effect(2,6) [OF assms(3)] unfolding tb_wf_alt by auto
qed

subsection \<open>Properties\<close>

text \<open>One call of \<open>addToken\<close> adds a token to exactly the faces whose count is below the
  capacity and leaves every other count, the needs and the set of faces unchanged; the bucket
  reports that it is at capacity iff no face was below it; and the signal that wakes the
  strategy is raised iff some face that waits for tokens now has as many as it needs.\<close>

theorem addToken_spec:
  assumes "addToken tb = (tb', send)" and "distinct (map fst (m_tokens tb))"
  shows "map fst (m_tokens tb') = map fst (m_tokens tb) \<and>
    (\<forall>f\<in>fst ` set (m_tokens tb). map_at (m_tokens tb') f =
       (if map_at (m_tokens tb) f < of_int (m_capacity tb)
        then float64 (map_at (m_tokens tb) f + 1) else map_at (m_tokens tb) f)) \<and>
    (\<forall>f. map_at (m_need tb') f = map_at (m_need tb) f) \<and>
    (m_atCapacity tb' \<longleftrightarrow> (\<forall>f\<in>fst ` set (m_tokens tb). of_int (m_capacity tb) \<le> map_at (m_tokens tb) f)) \<and>
    (send \<longleftrightarrow> (\<exists>f\<in>fst ` set (m_tokens tb). map_at (m_need tb) f \<noteq> 0 \<and>
       map_at (m_need tb) f \<le> map_at (m_tokens tb') f))"
  using addToken_effect [OF assms] by (auto simp: refill_def)

theorem addToken_spec_witness:
  "\<exists>tb'. addToken \<lparr>hasFaces = True, m_atCapacity = False, m_tokens = [(256, 3), (257, 0)],
       m_need = [(257, 1)], m_capacity = 3\<rparr> = (tb', True) \<and>
     map_at (m_tokens tb') 256 = 3 \<and> map_at (m_tokens tb') 257 = 1 \<and> \<not> m_atCapacity tb'"
proof -
  let ?tb = "\<lparr>hasFaces = True, m_atCapacity = False, m_tokens = [(256, 3), (257, 0)],
       m_need = [(257, 1)], m_capacity = 3\<rparr> :: token_bucket"
  obtain tb' s where t: "addToken ?tb = (tb', s)" by (cases "addToken ?tb")
  have d: "distinct (map fst (m_tokens ?tb))" by simp
  have one: "float64 1 = 1" by (simp add: fround_eval)
  show ?thesis
    using addToken_spec [OF t d] t by (simp add: map_at_def one)
qed

text \<open>The states of a bucket that is driven with whole tokens.\<close>

inductive tb_reachable :: "int \<Rightarrow> token_bucket \<Rightarrow> bool" for c where
  new: "0 \<le> c \<Longrightarrow> c \<le> 2 ^ 31 - 1 \<Longrightarrow> tb_reachable c (TokenBucket\<lparr>m_capacity := c\<rparr>)"
| add: "tb_reachable c tb \<Longrightarrow> addToken tb = (tb', s) \<Longrightarrow> tb_reachable c tb'"
| consume: "tb_reachable c tb \<Longrightarrow> 1 \<le> available tb f \<Longrightarrow> consumeToken 1 f tb = (tb', s) \<Longrightarrow>
     tb_reachable c tb'"

lemma tb_reachable_wf: "tb_reachable c tb \<Longrightarrow> tb_wf tb \<and> m_capacity tb = c"
proof (induction rule: tb_reachable.induct)
  case new
  then show ?case by (simp add: tb_wf_def TokenBucket_def)
next
  case (add tb tb' s)
  then have "distinct (map fst (m_tokens tb))" by (simp add: tb_wf_def)
  from addToken_effect(4) [OF add.hyps(2) this] addToken_wf [OF _ add.hyps(2)] add.IH
  show ?case by simp
next
  case (consume tb f tb' s)
  then show ?case using consumeToken_wf consumeToken_effect(2) by metis
qed

text \<open>C34: in every state a bucket of capacity c reaches by refills and by taking single
  tokens that are available, the tokens available to a face are a whole number between zero
  and c.\<close>

theorem tokens_within_capacity:
  assumes "tb_reachable c tb"
  shows "\<exists>k. available tb f = of_int k \<and> 0 \<le> k \<and> k \<le> c"
  using available_wf [of tb f] tb_reachable_wf [OF assms] by metis

theorem tokens_within_capacity_witness:
  "\<exists>k. available (fst (consumeToken 1 256 (TokenBucket\<lparr>m_capacity := 2\<rparr>))) 256 = of_int k \<and>
     0 \<le> k \<and> k \<le> (2::int)"
proof -
  let ?tb = "TokenBucket\<lparr>m_capacity := 2\<rparr>"
  obtain tb' s where t: "consumeToken 1 256 ?tb = (tb', s)" by (cases "consumeToken 1 256 ?tb")
  have "tb_reachable 2 tb'"
    by (rule tb_reachable.consume [OF tb_reachable.new _ t]) (simp_all add: available_def TokenBucket_def)
  then show ?thesis using tokens_within_capacity [of 2 tb' 256] t by simp
qed

text \<open>Refilling makes progress: after n refills a face that had k tokens has k + n of
  them, or as many as the capacity allows.\<close>

theorem addToken_iterated:
  assumes "tb_wf tb" and "map_of (m_tokens tb) f = Some (of_int k)"
  shows "map_of (m_tokens (addTokens n tb)) f = Some (of_int (min (m_capacity tb) (k + int n)))"
proof (induction n)
  case 0
  have "of_int k \<in> snd ` set (m_tokens tb)"
    using map_of_SomeD [OF assms(2)] by (rule image_eqI [rotated]) simp
  then have "k \<le> m_capacity tb" using assms(1) by (auto simp: tb_wf_def)
  then show ?case using assms(2) by (simp add: min_def)
next
  case (Suc n)
  let ?t = "addTokens n tb"
  obtain t' s where s: "addToken ?t = (t', s)" by (cases "addToken ?t")
  note w = addToken_iter_wf [OF assms(1)]
  have d: "distinct (map fst (m_tokens ?t))" using w tb_wf_def by blast
  note e = addToken_effect [OF s d]
  have f: "f \<in> fst ` set (m_tokens ?t)"
    using Suc.IH by (metis domI dom_map_of_conv_image_fst)
  let ?j = "min (m_capacity tb) (k + int n)"
  have "of_int ?j \<in> snd ` set (m_tokens ?t)"
    using map_of_SomeD [OF Suc.IH] by (rule image_eqI [rotated]) simp
  then have "0 \<le> ?j"
    using w [of n] by (auto simp: tb_wf_def)
  then have "refill (m_capacity tb) (of_int ?j) = of_int (min (m_capacity tb) (?j + 1))"
    using w [of n] by (intro refill_of_int) (auto simp: tb_wf_def)
  moreover have "map_at (m_tokens ?t) f = of_int ?j"
    using Suc.IH by (simp add: map_at_def)
  ultimately have "map_at (m_tokens t') f = of_int (min (m_capacity tb) (?j + 1))"
    using e(2) [OF f] w by simp
  moreover have "f \<in> fst ` set (m_tokens t')"
    using e(1) f by (metis list.set_map)
  then have "map_of (m_tokens t') f \<noteq> None" by (simp add: map_of_eq_None_iff)
  ultimately have "map_of (m_tokens t') f = Some (of_int (min (m_capacity tb) (?j + 1)))"
    by (auto simp: map_at_def)
  moreover have "min (m_capacity tb) (?j + 1) = min (m_capacity tb) (k + int (Suc n))" by simp
  ultimately show ?case using s by simp
qed

theorem addToken_iterated_witness:
  "map_of (m_tokens (addTokens 7 (TokenBucket\<lparr>m_tokens := [(256, 1)], m_capacity := 5\<rparr>))) 256 = Some 5"
proof -
  let ?tb = "TokenBucket\<lparr>m_tokens := [(256, 1)], m_capacity := 5\<rparr>"
  have w: "tb_wf ?tb" by (auto simp: tb_wf_def TokenBucket_def intro: exI [of _ 1])
  have m: "map_of (m_tokens ?tb) 256 = Some (of_int 1)" by simp
  show ?thesis using addToken_iterated [OF w m, of 7] by simp
qed

end
