(* ===== verification/Qos_Queue.thy ===== *)
theory Qos_Queue
  imports Nfd_Prelude
begin

text \<open>
  \<^verbatim>\<open>daemon/fw/ndn-qos-queue.{hpp,cpp}\<close>: the queue of one priority class on one face, a bounded
  first-in-first-out queue of packets with the weight and the last virtual finish time that
  weighted fair queueing needs.

  The locale \<open>bounded_fifo\<close> is what its clients rely on: an operation that accepts an item
  only below the bound and appends it, and one that removes the oldest item.  Its lemmas
  (a run of the queue delivers a prefix of what it accepted, in order) hold for any
  provider; the interpretation \<open>qq\<close> gives them for the class.
\<close>

datatype QosPacketType = INVALID | INTEREST | DATA | NACK

text \<open>
  A wire-encoded packet, as the block that \<^verbatim>\<open>wireEncode\<close> of the packet returns and
  \<^verbatim>\<open>wireDecode\<close> reads back; its size is a parameter of the operations that use it.
\<close>

datatype block = EmptyBlock | InterestBlock interest | DataBlock data

record QueueItem =
  wireEncode :: block
  packetType :: QosPacketType
  pitEntry :: "pit_ref option"
  inface :: "face_ref option"
  outface :: "face_ref option"

definition QueueItem_default :: QueueItem where
  "QueueItem_default = \<lparr>wireEncode = EmptyBlock, packetType = INVALID, pitEntry = None,
     inface = None, outface = None\<rparr>"

definition QueueItem_of :: "pit_ref \<Rightarrow> QueueItem" where
  "QueueItem_of pe = QueueItem_default\<lparr>pitEntry := Some pe\<rparr>"

record QosQueue =
  m_maxQueueSize :: nat
  m_weight :: rat
  m_lastVirtualFinishTime :: nat
  m_queue :: "QueueItem list"

definition QUEUE_SIZE :: nat where
  "QUEUE_SIZE = 10"

definition QosQueue_new :: QosQueue where
  "QosQueue_new = \<lparr>m_maxQueueSize = QUEUE_SIZE, m_weight = 0, m_lastVirtualFinishTime = 0, m_queue = []\<rparr>"

definition SetMaxQueueSize :: "nat \<Rightarrow> QosQueue \<Rightarrow> QosQueue" where
  "SetMaxQueueSize n q = q\<lparr>m_maxQueueSize := n\<rparr>"

definition SetWeight :: "rat \<Rightarrow> QosQueue \<Rightarrow> QosQueue" where
  "SetWeight weight q = q\<lparr>m_weight := weight\<rparr>"

definition SetLastVirtualFinishTime :: "nat \<Rightarrow> QosQueue \<Rightarrow> QosQueue" where
  "SetLastVirtualFinishTime lvft q = q\<lparr>m_lastVirtualFinishTime := lvft\<rparr>"

definition Enqueue :: "QueueItem \<Rightarrow> QosQueue \<Rightarrow> QosQueue \<times> bool" where
  "Enqueue item q =
     (if length (m_queue q) < m_maxQueueSize q then (q\<lparr>m_queue := m_queue q @ [item]\<rparr>, True)
      else (q, False))"

definition Dequeue :: "QosQueue \<Rightarrow> QosQueue \<times> QueueItem" where
  "Dequeue q =
     (case m_queue q of
        [] \<Rightarrow> (q, QueueItem_default)
      | item # rest \<Rightarrow> (q\<lparr>m_queue := rest\<rparr>, item))"

definition IsEmpty :: "QosQueue \<Rightarrow> bool" where
  "IsEmpty q \<longleftrightarrow> m_queue q = []"

definition GetFirstElement :: "QosQueue \<Rightarrow> QueueItem" where
  "GetFirstElement q = (case m_queue q of [] \<Rightarrow> QueueItem_default | item # rest \<Rightarrow> item)"

subsection \<open>Bounded queues\<close>

datatype 'a queue_op = Enq 'a | Deq

text \<open>
  A run of queue operations: the final state, the items accepted and the items delivered,
  each in order.
\<close>

fun queue_run :: "('a \<Rightarrow> 'q \<Rightarrow> 'q \<times> bool) \<Rightarrow> ('q \<Rightarrow> 'q \<times> 'a) \<Rightarrow> ('q \<Rightarrow> bool) \<Rightarrow>
    'a queue_op list \<Rightarrow> 'q \<Rightarrow> 'q \<times> 'a list \<times> 'a list" where
  "queue_run enq deq is_empty [] q = (q, [], [])"
| "queue_run enq deq is_empty (Enq x # ops) q =
     (let (q1, ok) = enq x q; (q2, acc, out) = queue_run enq deq is_empty ops q1
      in (q2, if ok then x # acc else acc, out))"
| "queue_run enq deq is_empty (Deq # ops) q =
     (if is_empty q then queue_run enq deq is_empty ops q
      else let (q1, x) = deq q; (q2, acc, out) = queue_run enq deq is_empty ops q1
           in (q2, acc, x # out))"

locale bounded_fifo =
  fixes enq :: "'a \<Rightarrow> 'q \<Rightarrow> 'q \<times> bool"
    and deq :: "'q \<Rightarrow> 'q \<times> 'a"
    and is_empty :: "'q \<Rightarrow> bool"
    and items :: "'q \<Rightarrow> 'a list"
    and bound :: "'q \<Rightarrow> nat"
  assumes enq_accept: "length (items q) < bound q \<Longrightarrow> enq x q = (q', ok) \<Longrightarrow>
      ok \<and> items q' = items q @ [x] \<and> bound q' = bound q"
    and enq_reject: "\<not> length (items q) < bound q \<Longrightarrow> enq x q = (q, False)"
    and deq_some: "items q = x # xs \<Longrightarrow> deq q = (q', y) \<Longrightarrow> y = x \<and> items q' = xs \<and> bound q' = bound q"
    and is_empty_iff: "is_empty q \<longleftrightarrow> items q = []"
begin

lemma enq_cases:
  assumes "enq x q = (q', ok)"
  shows "ok \<longleftrightarrow> length (items q) < bound q" and "items q' = (if ok then items q @ [x] else items q)"
    and "bound q' = bound q"
  using assms enq_accept [of q x q' ok] enq_reject [of q x]
  by (cases "length (items q) < bound q"; auto)+

lemma enq_bounded:
  "enq x q = (q', ok) \<Longrightarrow> length (items q) \<le> bound q \<Longrightarrow> length (items q') \<le> bound q'"
  using enq_cases [of x q q' ok] by auto

lemma deq_keeps_bound: "deq q = (q', y) \<Longrightarrow> \<not> is_empty q \<Longrightarrow> bound q' = bound q"
  by (cases "items q") (auto simp: is_empty_iff dest: deq_some)

lemma deq_bounded:
  "deq q = (q', y) \<Longrightarrow> \<not> is_empty q \<Longrightarrow> length (items q) \<le> bound q \<Longrightarrow> length (items q') \<le> bound q'"
  by (cases "items q") (auto simp: is_empty_iff dest: deq_some)

text \<open>Conservation and order: what was in the queue and what was accepted is what was
  delivered followed by what is left.\<close>

lemma run_fifo:
  "queue_run enq deq is_empty ops q = (q', acc, out) \<Longrightarrow> items q @ acc = out @ items q'"
proof (induction ops arbitrary: q q' acc out)
  case Nil
  then show ?case by simp
next
  case (Cons op ops)
  show ?case
  proof (cases op)
    case (Enq x)
    obtain q1 ok where e: "enq x q = (q1, ok)" by (cases "enq x q")
    obtain q2 a o' where r: "queue_run enq deq is_empty ops q1 = (q2, a, o')"
      by (cases "queue_run enq deq is_empty ops q1") auto
    from Cons.prems Enq e r have "q2 = q'" "o' = out" "acc = (if ok then x # a else a)" by auto
    with Cons.IH [OF r] enq_cases(2) [OF e] show ?thesis by (auto split: if_splits)
  next
    case Deq
    show ?thesis
    proof (cases "is_empty q")
      case True
      with Cons Deq show ?thesis by simp
    next
      case False
      then obtain x xs where i: "items q = x # xs" by (auto simp: is_empty_iff neq_Nil_conv)
      obtain q1 y where d: "deq q = (q1, y)" by (cases "deq q")
      obtain q2 a o' where r: "queue_run enq deq is_empty ops q1 = (q2, a, o')"
        by (cases "queue_run enq deq is_empty ops q1") auto
      from Cons.prems Deq False d r have "q2 = q'" "out = y # o'" "acc = a" by auto
      with Cons.IH [OF r] deq_some [OF i d] i show ?thesis by simp
    qed
  qed
qed

lemma run_bounded:
  "queue_run enq deq is_empty ops q = (q', acc, out) \<Longrightarrow> length (items q) \<le> bound q \<Longrightarrow>
   length (items q') \<le> bound q'"
proof (induction ops arbitrary: q q' acc out)
  case Nil
  then show ?case by simp
next
  case (Cons op ops)
  show ?case
  proof (cases op)
    case (Enq x)
    with Cons show ?thesis
      by (auto simp: split_beta Let_def) (metis enq_bounded prod.collapse)
  next
    case Deq
    with Cons show ?thesis
      by (auto simp: split_beta Let_def split: if_splits) (metis deq_bounded prod.collapse)
  qed
qed

lemma run_bound:
  "queue_run enq deq is_empty ops q = (q', acc, out) \<Longrightarrow> bound q' = bound q"
proof (induction ops arbitrary: q q' acc out)
  case Nil
  then show ?case by simp
next
  case (Cons op ops)
  show ?case
  proof (cases op)
    case (Enq x)
    with Cons show ?thesis
      by (auto simp: split_beta Let_def) (metis enq_cases(3) prod.collapse)
  next
    case Deq
    with Cons show ?thesis
      by (auto simp: split_beta Let_def split: if_splits) (metis deq_keeps_bound prod.collapse)
  qed
qed

end

interpretation qq: bounded_fifo Enqueue Dequeue IsEmpty m_queue m_maxQueueSize
  by unfold_locales (auto simp: Enqueue_def Dequeue_def IsEmpty_def)

lemma Dequeue_keeps:
  assumes "Dequeue q = (q', item)"
  shows "m_maxQueueSize q' = m_maxQueueSize q" and "m_weight q' = m_weight q"
    and "m_lastVirtualFinishTime q' = m_lastVirtualFinishTime q"
  using assms by (auto simp: Dequeue_def split: list.splits)

lemma Enqueue_keeps:
  assumes "Enqueue item q = (q', ok)"
  shows "m_maxQueueSize q' = m_maxQueueSize q" and "m_weight q' = m_weight q"
    and "m_lastVirtualFinishTime q' = m_lastVirtualFinishTime q"
  using assms by (auto simp: Enqueue_def split: if_splits)

subsection \<open>Properties\<close>

text \<open>Over any sequence of enqueues and dequeues on a new queue, the packets delivered
  followed by those still queued are exactly the packets accepted, in order of acceptance
  (nothing is lost, duplicated or reordered), and the queue never holds more than
  \<open>QUEUE_SIZE\<close> packets.\<close>

theorem QosQueue_fifo:
  assumes "queue_run Enqueue Dequeue IsEmpty ops QosQueue_new = (q, accepted, delivered)"
  shows "accepted = delivered @ m_queue q \<and> length (m_queue q) \<le> QUEUE_SIZE"
proof -
  have "length (m_queue q) \<le> m_maxQueueSize q"
    by (rule qq.run_bounded [OF assms]) (simp add: QosQueue_new_def)
  moreover have "m_maxQueueSize q = QUEUE_SIZE"
    using qq.run_bound [OF assms] by (simp add: QosQueue_new_def)
  ultimately show ?thesis using qq.run_fifo [OF assms] by (simp add: QosQueue_new_def)
qed

theorem QosQueue_fifo_witness:
  "let a = QueueItem_of 1; b = QueueItem_of 2;
       (q, accepted, delivered) = queue_run Enqueue Dequeue IsEmpty [Enq a, Enq b, Deq, Deq, Deq, Enq a] QosQueue_new
   in accepted = [a, b, a] \<and> delivered = [a, b] \<and> m_queue q = [a]"
proof -
  let ?a = "QueueItem_of 1" and ?b = "QueueItem_of 2"
  let ?q = "QosQueue_new\<lparr>m_queue := [?a]\<rparr>"
  have r: "queue_run Enqueue Dequeue IsEmpty [Enq ?a, Enq ?b, Deq, Deq, Deq, Enq ?a] QosQueue_new =
      (?q, [?a, ?b, ?a], [?a, ?b])"
    by (simp add: Enqueue_def Dequeue_def IsEmpty_def QosQueue_new_def QUEUE_SIZE_def)
  show ?thesis using QosQueue_fifo [OF r] r by (simp add: Let_def)
qed

end
