(* ===== verification/Priority_Tx_Queue.thy ===== *)
theory Priority_Tx_Queue
  imports Qos_Queue
begin

text \<open>
  \<^verbatim>\<open>daemon/fw/ndn-priority-tx-queue.{hpp,cpp}\<close>: the transmit queue of one face, a vector of
  \<open>QosQueue\<close>s served by weighted fair queueing.  Weights, flow rates and the virtual finish
  time are computed in \<^verbatim>\<open>float\<close>, with one rounding per operation; the finish time is kept as
  a \<^verbatim>\<open>uint64_t\<close>.  The current time (\<^verbatim>\<open>ns3::Simulator::Now()\<close>, milliseconds) and the size of a
  block are parameters.  Vector accesses are checked: None is an access out of range.

  The lemmas: selection picks the least finish time among the queues that can send, first
  index on ties; enqueueing touches one queue only; the finish time of a queue does not go
  back while times are below 2 ^ 24 milliseconds, and can go back beyond.
\<close>

record NdnPriorityTxQueue =
  m_priorityQueues :: "QosQueue list"
  totalQueues :: nat

definition NdnPriorityTxQueue_new :: NdnPriorityTxQueue where
  "NdnPriorityTxQueue_new = \<lparr>m_priorityQueues = [], totalQueues = 0\<rparr>"

text \<open>One iteration of \<open>initialize\<close>: push a queue, then set the weight of queue i.\<close>

definition initialize_step :: "nat \<Rightarrow> nat \<Rightarrow> QosQueue list \<Rightarrow> QosQueue list" where
  "initialize_step queues i qs =
     (let qs = qs @ [QosQueue_new] in qs[i := SetWeight (float32 (of_nat (queues - i))) (qs ! i)])"

definition initialize :: "nat \<Rightarrow> NdnPriorityTxQueue \<Rightarrow> NdnPriorityTxQueue" where
  "initialize queues tq =
     tq\<lparr>m_priorityQueues := fold (initialize_step queues) [0..<queues] (m_priorityQueues tq),
        totalQueues := queues\<rparr>"

text \<open>The loop of \<open>GetFlowRate\<close> adds the weights in index order.\<close>

fun total_weight :: "QosQueue list \<Rightarrow> nat \<Rightarrow> rat option" where
  "total_weight qs 0 = Some 0"
| "total_weight qs (Suc i) = do {
     w \<leftarrow> total_weight qs i;
     q \<leftarrow> vec_get qs i;
     Some (float32 (w + m_weight q))
   }"

definition GetFlowRate :: "NdnPriorityTxQueue \<Rightarrow> QosQueue \<Rightarrow> rat option" where
  "GetFlowRate tq queue = do {
     w \<leftarrow> total_weight (m_priorityQueues tq) (totalQueues tq);
     Some (float32 (m_weight queue / w))
   }"

definition UpdateTime :: "nat \<Rightarrow> nat \<Rightarrow> NdnPriorityTxQueue \<Rightarrow> QosQueue \<Rightarrow> QosQueue option" where
  "UpdateTime current_time packet_size tq queue = do {
     rate \<leftarrow> GetFlowRate tq queue;
     let virtualStartTime = max current_time (m_lastVirtualFinishTime queue);
     let service = float32 (float32 (of_nat packet_size) * float32 (1 - rate));
     virtualFinishTime \<leftarrow> to_uint64 (float32 (float32 (of_nat virtualStartTime) + service));
     Some (SetLastVirtualFinishTime virtualFinishTime queue)
   }"

text \<open>\<^verbatim>\<open>std::numeric_limits<float>::max()\<close>\<close>

definition FLT_MAX :: rat where
  "FLT_MAX = (2 ^ 24 - 1) * 2 ^ 104"

text \<open>
  \<open>SelectQueueToSend\<close>: the loop over the queues with the least finish time so far and its
  queue; the result None of the inner option is the value -1.
\<close>

fun select_loop :: "QosQueue list \<Rightarrow> rat list \<Rightarrow> nat \<Rightarrow> (rat \<times> nat option) option" where
  "select_loop qs tokens 0 = Some (FLT_MAX, None)"
| "select_loop qs tokens (Suc i) = do {
     (minVirtualFinishTime, squeue) \<leftarrow> select_loop qs tokens i;
     q \<leftarrow> vec_get qs i;
     eligible \<leftarrow> (if IsEmpty q then Some False else do { t \<leftarrow> vec_get tokens i; Some (1 \<le> t) });
     let vft = float32 (of_nat (m_lastVirtualFinishTime q));
     Some (if eligible \<and> vft < minVirtualFinishTime then (vft, Some i) else (minVirtualFinishTime, squeue))
   }"

definition SelectQueueToSend :: "rat list \<Rightarrow> NdnPriorityTxQueue \<Rightarrow> nat option option" where
  "SelectQueueToSend tokens tq =
     map_option snd (select_loop (m_priorityQueues tq) tokens (totalQueues tq))"

definition DoEnqueue :: "(block \<Rightarrow> nat) \<Rightarrow> nat \<Rightarrow> QueueItem \<Rightarrow> nat \<Rightarrow> NdnPriorityTxQueue \<Rightarrow>
    (NdnPriorityTxQueue \<times> bool) option" where
  "DoEnqueue block_size current_time item pr_level tq = do {
     queue \<leftarrow> vec_get (m_priorityQueues tq) pr_level;
     case Enqueue item queue of
       (queue, True) \<Rightarrow> do {
         let tq = tq\<lparr>m_priorityQueues := (m_priorityQueues tq)[pr_level := queue]\<rparr>;
         queue \<leftarrow> UpdateTime current_time (block_size (wireEncode item)) tq queue;
         Some (tq\<lparr>m_priorityQueues := (m_priorityQueues tq)[pr_level := queue]\<rparr>, True)
       }
     | (_, False) \<Rightarrow> Some (tq, False)
   }"

fun all_empty :: "QosQueue list \<Rightarrow> nat \<Rightarrow> bool option" where
  "all_empty qs 0 = Some True"
| "all_empty qs (Suc i) = do {
     e \<leftarrow> all_empty qs i;
     if e then do { q \<leftarrow> vec_get qs i; Some (IsEmpty q) } else Some False
   }"

definition TxIsEmpty :: "NdnPriorityTxQueue \<Rightarrow> bool option" where
  "TxIsEmpty tq = all_empty (m_priorityQueues tq) (totalQueues tq)"

definition DoDequeue :: "nat \<Rightarrow> NdnPriorityTxQueue \<Rightarrow> (NdnPriorityTxQueue \<times> QueueItem) option" where
  "DoDequeue choice tq = do {
     e \<leftarrow> TxIsEmpty tq;
     if e then Some (tq, QueueItem_default)
     else do {
       queue \<leftarrow> vec_get (m_priorityQueues tq) choice;
       let (queue, item) = Dequeue queue;
       Some (tq\<lparr>m_priorityQueues := (m_priorityQueues tq)[choice := queue]\<rparr>, item)
     }
   }"

definition tokenReq :: "nat \<Rightarrow> NdnPriorityTxQueue \<Rightarrow> nat option" where
  "tokenReq bucket tq = do {
     queue \<leftarrow> vec_get (m_priorityQueues tq) bucket;
     Some (if \<not> IsEmpty queue then 1 else 0)
   }"

subsection \<open>Well-formedness\<close>

text \<open>
  What \<open>initialize\<close> establishes and every operation keeps: as many queues as the counter
  says, weights n, n-1, ..., 1, the default bound on each queue, which is respected.
\<close>

definition txq_wf :: "nat \<Rightarrow> NdnPriorityTxQueue \<Rightarrow> bool" where
  "txq_wf n tq \<longleftrightarrow> length (m_priorityQueues tq) = n \<and> totalQueues tq = n \<and>
     (\<forall>i<n. m_weight (m_priorityQueues tq ! i) = of_nat (n - i) \<and>
        m_maxQueueSize (m_priorityQueues tq ! i) = QUEUE_SIZE \<and>
        length (m_queue (m_priorityQueues tq ! i)) \<le> QUEUE_SIZE)"

lemma initialize_step_snoc:
  "length qs = i \<Longrightarrow> initialize_step n i qs = qs @ [SetWeight (float32 (of_nat (n - i))) QosQueue_new]"
  by (simp add: initialize_step_def Let_def nth_append list_update_append)

lemma initialize_fold:
  "fold (initialize_step n) [0..<k] [] = map (\<lambda>i. SetWeight (float32 (of_nat (n - i))) QosQueue_new) [0..<k]"
  by (induction k) (simp_all add: initialize_step_snoc)

lemma initialize_new:
  "initialize n NdnPriorityTxQueue_new =
     \<lparr>m_priorityQueues = map (\<lambda>i. SetWeight (float32 (of_nat (n - i))) QosQueue_new) [0..<n], totalQueues = n\<rparr>"
  by (simp add: initialize_def NdnPriorityTxQueue_new_def initialize_fold)

lemma txq_wf_initialize [wf_intros]:
  "n \<le> 2 ^ 24 \<Longrightarrow> txq_wf n (initialize n NdnPriorityTxQueue_new)"
  by (simp add: initialize_new txq_wf_def SetWeight_def QosQueue_new_def fround_of_nat del: of_nat_diff)

subsection \<open>Selection\<close>

definition can_send :: "QosQueue list \<Rightarrow> rat list \<Rightarrow> nat \<Rightarrow> bool" where
  "can_send qs tokens i \<longleftrightarrow> \<not> IsEmpty (qs ! i) \<and> 1 \<le> tokens ! i"

abbreviation vft :: "QosQueue list \<Rightarrow> nat \<Rightarrow> rat" where
  "vft qs i \<equiv> float32 (of_nat (m_lastVirtualFinishTime (qs ! i)))"

lemma float32_uint64_less_FLT_MAX:
  assumes "t < 2 ^ 64"
  shows "float32 (of_nat t) < FLT_MAX"
proof -
  have f: "fround 24 (of_nat (2 ^ 64)) = (of_nat (2 ^ 64) :: rat)"
    by (simp add: fround_eval)
  have "fround 24 (of_nat t) \<le> fround 24 (of_nat (2 ^ 64) :: rat)"
    using assms by (intro fround_mono) (auto simp only: of_nat_le_iff order_less_imp_le)
  then show ?thesis unfolding f by (simp add: FLT_MAX_def)
qed

lemma select_loop_spec:
  assumes "n \<le> length qs" and "length qs \<le> length tokens"
    and "\<forall>i<n. m_lastVirtualFinishTime (qs ! i) < 2 ^ 64"
  shows "\<exists>m s. select_loop qs tokens n = Some (m, s) \<and>
    (case s of
       None \<Rightarrow> m = FLT_MAX \<and> (\<forall>i<n. \<not> can_send qs tokens i)
     | Some j \<Rightarrow> j < n \<and> can_send qs tokens j \<and> m = vft qs j \<and>
         (\<forall>i<n. can_send qs tokens i \<longrightarrow> vft qs j \<le> vft qs i) \<and>
         (\<forall>i<j. can_send qs tokens i \<longrightarrow> vft qs j < vft qs i))"
  using assms
proof (induction n)
  case 0
  then show ?case by simp
next
  case (Suc n)
  then obtain m s where l: "select_loop qs tokens n = Some (m, s)" and
    s: "case s of
       None \<Rightarrow> m = FLT_MAX \<and> (\<forall>i<n. \<not> can_send qs tokens i)
     | Some j \<Rightarrow> j < n \<and> can_send qs tokens j \<and> m = vft qs j \<and>
         (\<forall>i<n. can_send qs tokens i \<longrightarrow> vft qs j \<le> vft qs i) \<and>
         (\<forall>i<j. can_send qs tokens i \<longrightarrow> vft qs j < vft qs i)"
    by force
  have v: "vft qs n < FLT_MAX" using Suc.prems(3) float32_uint64_less_FLT_MAX by simp
  have step: "select_loop qs tokens (Suc n) =
      Some (if can_send qs tokens n \<and> vft qs n < m then (vft qs n, Some n) else (m, s))"
    using l Suc.prems by (simp add: can_send_def Let_def)
  show ?case
  proof (cases "can_send qs tokens n \<and> vft qs n < m")
    case True
    with s have "\<forall>i<n. can_send qs tokens i \<longrightarrow> vft qs n < vft qs i"
      by (cases s) fastforce+
    with True show ?thesis
      unfolding step by (auto simp: less_Suc_eq)
  next
    case False
    with s v show ?thesis
      unfolding step by (cases s) (auto simp: less_Suc_eq)
  qed
qed

subsection \<open>Flow rates and virtual finish times\<close>

text \<open>With the weights \<open>initialize\<close> sets, the sum of the weights is exact.\<close>

lemma total_weight_wf:
  assumes "txq_wf n tq" and "n \<le> 1000" and "k \<le> n"
  shows "total_weight (m_priorityQueues tq) k = Some (of_nat (\<Sum>i<k. n - i))"
  using assms(3)
proof (induction k)
  case (Suc k)
  have "(\<Sum>i<k. n - i) + (n - k) \<le> (\<Sum>i<Suc k. n - i)" by simp
  also have "\<dots> \<le> (\<Sum>i<Suc k. 1000)" using assms(2) by (intro sum_mono) simp
  also have "\<dots> \<le> 1000 * 1000" using Suc.prems assms(2) by simp
  finally have "(\<Sum>i<k. n - i) + (n - k) \<le> 2 ^ 24" by simp
  then have "float32 (of_nat ((\<Sum>i<k. n - i) + (n - k))) = of_nat ((\<Sum>i<k. n - i) + (n - k))"
    by (rule fround_of_nat) simp
  with Suc assms(1) show ?case by (simp add: txq_wf_def add_diff_eq)
qed simp

lemma GetFlowRate_wf:
  assumes "txq_wf n tq" and "n \<le> 1000" and "i < n" and "m_weight q = of_nat (n - i)"
  obtains r where "GetFlowRate tq q = Some r" and "0 \<le> r" and "r \<le> 1"
proof -
  let ?w = "of_nat (\<Sum>i<n. n - i) :: rat"
  have "n - i \<le> (\<Sum>i<n. n - i)"
    using member_le_sum [of i "{..<n}" "\<lambda>i. n - i"] assms(3) by simp
  then have le: "(of_nat (n - i) :: rat) \<le> ?w" by (simp only: of_nat_le_iff)
  have pos: "(0::rat) < of_nat (n - i)" using assms(3) by simp
  have "0 \<le> of_nat (n - i) / ?w" "of_nat (n - i) / ?w \<le> (1::rat)"
    using le pos by (auto simp: divide_le_eq_1)
  then have "0 \<le> float32 (of_nat (n - i) / ?w)" "float32 (of_nat (n - i) / ?w) \<le> 1"
    using fround_between_int [of 0 "of_nat (n - i) / ?w" 1 24] by auto
  moreover have "GetFlowRate tq q = Some (float32 (of_nat (n - i) / ?w))"
    using total_weight_wf [OF assms(1,2) order_refl] assms(1,4) by (simp add: GetFlowRate_def txq_wf_def)
  ultimately show ?thesis using that by blast
qed

text \<open>
  The service time of a packet lies between zero and its size, as a float.
\<close>

lemma service_bounds:
  assumes "0 \<le> r" and "r \<le> 1" and "sz \<le> 2 ^ 32"
  shows "0 \<le> float32 (float32 (of_nat sz) * float32 (1 - r))"
    and "float32 (float32 (of_nat sz) * float32 (1 - r)) \<le> 2 ^ 32"
proof -
  have a: "0 \<le> float32 (1 - r)" "float32 (1 - r) \<le> 1"
    using fround_between_int [of 0 "1 - r" 1 24] assms by auto
  have f: "float32 (of_nat (2 ^ 32)) = (2 ^ 32 :: rat)" by (simp add: fround_eval)
  have b: "0 \<le> float32 (of_nat sz)" by (simp add: fround_nonneg)
  have "float32 (of_nat sz) \<le> float32 (of_nat (2 ^ 32))"
    using assms(3) by (intro fround_mono) (simp_all only: of_nat_le_iff zero_less_numeral)
  then have c: "float32 (of_nat sz) \<le> 2 ^ 32" unfolding f .
  show "0 \<le> float32 (float32 (of_nat sz) * float32 (1 - r))"
    using a b by (intro fround_nonneg) simp
  have "float32 (of_nat sz) * float32 (1 - r) \<le> 2 ^ 32 * 1"
    using a b c by (intro mult_mono) auto
  then have "float32 (float32 (of_nat sz) * float32 (1 - r)) \<le> float32 (of_nat (2 ^ 32))"
    by (intro fround_mono) auto
  then show "float32 (float32 (of_nat sz) * float32 (1 - r)) \<le> 2 ^ 32" unfolding f .
qed

lemma service_le:
  assumes "0 \<le> r" and "r \<le> 1" and "sz \<le> 2 ^ 24"
  shows "0 \<le> float32 (float32 (of_nat sz) * float32 (1 - r))"
    and "float32 (float32 (of_nat sz) * float32 (1 - r)) \<le> of_nat sz"
proof -
  have a: "0 \<le> float32 (1 - r)" "float32 (1 - r) \<le> 1"
    using fround_between_int [of 0 "1 - r" 1 24] assms by auto
  have f: "float32 (of_nat sz) = of_nat sz" using assms(3) by (intro fround_of_nat) auto
  have m: "of_int 0 \<le> of_nat sz * float32 (1 - r)" "of_nat sz * float32 (1 - r) \<le> of_int (int sz)"
    using a by (simp_all add: mult_left_le)
  have z: "\<bar>int sz\<bar> \<le> 2 ^ 24" using assms(3) by simp
  show "0 \<le> float32 (float32 (of_nat sz) * float32 (1 - r))"
    and "float32 (float32 (of_nat sz) * float32 (1 - r)) \<le> of_nat sz"
    unfolding f using fround_between_int [OF m _ z] by simp_all
qed

lemma UpdateTime_defined:
  assumes "txq_wf n tq" and "n \<le> 1000" and "i < n" and "m_weight q = of_nat (n - i)"
    and "now \<le> 2 ^ 63" and "m_lastVirtualFinishTime q \<le> 2 ^ 63" and "sz \<le> 2 ^ 32"
  obtains v s where "UpdateTime now sz tq q = Some (SetLastVirtualFinishTime v q)"
    and "v = nat \<lfloor>float32 (float32 (of_nat (max now (m_lastVirtualFinishTime q))) + s)\<rfloor>" and "0 \<le> s"
    and "s \<le> 2 ^ 32" and "v < 2 ^ 64"
proof -
  obtain r where r: "GetFlowRate tq q = Some r" "0 \<le> r" "r \<le> 1"
    using GetFlowRate_wf [OF assms(1-4)] .
  let ?s = "float32 (float32 (of_nat sz) * float32 (1 - r))"
  let ?t = "of_nat (max now (m_lastVirtualFinishTime q)) :: rat"
  note s = service_bounds [OF r(2,3) assms(7)]
  have f: "float32 (of_nat (2 ^ 63)) = (2 ^ 63 :: rat)" "float32 (of_nat (2 ^ 63 + 2 ^ 42)) = (2 ^ 63 + 2 ^ 42 :: rat)"
    by (simp_all add: fround_eval)
  have t0: "0 \<le> float32 ?t" by (simp add: fround_nonneg)
  have "float32 ?t \<le> float32 (of_nat (2 ^ 63))"
    using assms(5,6) by (intro fround_mono) (simp_all only: of_nat_le_iff max.bounded_iff zero_less_numeral)
  then have "float32 ?t + ?s \<le> of_nat (2 ^ 63 + 2 ^ 42)"
    using s(2) unfolding f by simp
  then have "float32 (float32 ?t + ?s) \<le> float32 (of_nat (2 ^ 63 + 2 ^ 42))"
    by (intro fround_mono) auto
  then have hi: "float32 (float32 ?t + ?s) < 2 ^ 64" unfolding f by simp
  have lo: "0 \<le> float32 (float32 ?t + ?s)" using t0 s(1) by (intro fround_nonneg) simp
  have u: "to_uint64 (float32 (float32 ?t + ?s)) = Some (nat \<lfloor>float32 (float32 ?t + ?s)\<rfloor>)"
    using hi lo by (simp add: to_uint64_def)
  have "UpdateTime now sz tq q = Some (SetLastVirtualFinishTime (nat \<lfloor>float32 (float32 ?t + ?s)\<rfloor>) q)"
    using r(1) u by (simp add: UpdateTime_def)
  moreover have "\<lfloor>float32 (float32 ?t + ?s)\<rfloor> < 2 ^ 64"
    using hi by (simp add: floor_less_iff)
  then have "nat \<lfloor>float32 (float32 ?t + ?s)\<rfloor> < 2 ^ 64" using lo by (simp add: nat_less_iff)
  ultimately show ?thesis using that s by blast
qed

subsection \<open>Enqueue and dequeue\<close>

definition times_ok :: "nat \<Rightarrow> NdnPriorityTxQueue \<Rightarrow> bool" where
  "times_ok now tq \<longleftrightarrow> now \<le> 2 ^ 63 \<and> (\<forall>q\<in>set (m_priorityQueues tq). m_lastVirtualFinishTime q \<le> 2 ^ 63)"

lemma txq_wf_update [wf_intros]:
  assumes "txq_wf n tq" and "i < n" and "m_weight q = m_weight (m_priorityQueues tq ! i)"
    and "m_maxQueueSize q = QUEUE_SIZE" and "length (m_queue q) \<le> QUEUE_SIZE"
  shows "txq_wf n (tq\<lparr>m_priorityQueues := (m_priorityQueues tq)[i := q]\<rparr>)"
  using assms by (auto simp: txq_wf_def nth_list_update)

lemma DoEnqueue_wf:
  assumes "txq_wf n tq" and "n \<le> 1000" and "i < n" and "times_ok now tq" and "bsize (wireEncode item) \<le> 2 ^ 32"
  obtains tq' where "DoEnqueue bsize now item i tq = Some (tq', length (m_queue (m_priorityQueues tq ! i)) < QUEUE_SIZE)"
    and "txq_wf n tq'"
    and "m_queue (m_priorityQueues tq' ! i) =
      (if length (m_queue (m_priorityQueues tq ! i)) < QUEUE_SIZE
       then m_queue (m_priorityQueues tq ! i) @ [item] else m_queue (m_priorityQueues tq ! i))"
    and "\<forall>j. j \<noteq> i \<longrightarrow> m_priorityQueues tq' ! j = m_priorityQueues tq ! j"
proof -
  let ?q = "m_priorityQueues tq ! i"
  obtain q1 ok where e: "Enqueue item ?q = (q1, ok)" by (cases "Enqueue item ?q")
  have len: "length (m_priorityQueues tq) = n" using assms(1) by (simp add: txq_wf_def)
  have mx: "m_maxQueueSize ?q = QUEUE_SIZE" "length (m_queue ?q) \<le> QUEUE_SIZE" "m_weight ?q = of_nat (n - i)"
    using assms(1,3) by (auto simp: txq_wf_def)
  have ok: "ok \<longleftrightarrow> length (m_queue ?q) < QUEUE_SIZE" using qq.enq_cases(1) [OF e] mx by simp
  show ?thesis
  proof (cases ok)
    case False
    then have "DoEnqueue bsize now item i tq = Some (tq, False)"
      using e len assms(3) by (simp add: DoEnqueue_def)
    with that [of tq] False ok assms(1) show ?thesis by simp
  next
    case True
    let ?t1 = "tq\<lparr>m_priorityQueues := (m_priorityQueues tq)[i := q1]\<rparr>"
    have q1: "m_maxQueueSize q1 = QUEUE_SIZE" "m_weight q1 = of_nat (n - i)"
      "m_lastVirtualFinishTime q1 = m_lastVirtualFinishTime ?q" "m_queue q1 = m_queue ?q @ [item]"
      using Enqueue_keeps [OF e] mx qq.enq_cases(2) [OF e] True by auto
    have w1: "txq_wf n ?t1"
      using assms(1,3) q1 mx True ok by (intro txq_wf_update) auto
    have tm: "now \<le> 2 ^ 63" "m_lastVirtualFinishTime q1 \<le> 2 ^ 63"
      using assms(3,4) q1(3) len by (auto simp: times_ok_def)
    obtain v s where u: "UpdateTime now (bsize (wireEncode item)) ?t1 q1 = Some (SetLastVirtualFinishTime v q1)"
      using UpdateTime_defined [OF w1 assms(2,3) q1(2) tm assms(5)] by metis
    let ?q2 = "SetLastVirtualFinishTime v q1"
    let ?t2 = "?t1\<lparr>m_priorityQueues := (m_priorityQueues ?t1)[i := ?q2]\<rparr>"
    have "DoEnqueue bsize now item i tq = Some (?t2, True)"
      using e True len assms(3) u by (simp add: DoEnqueue_def)
    moreover have "txq_wf n ?t2"
      by (rule txq_wf_update [OF w1 assms(3)])
        (use assms(3) q1 True ok len in \<open>simp_all add: SetLastVirtualFinishTime_def\<close>)
    ultimately show ?thesis
      using that [of ?t2] True ok len assms(3) q1 by (simp add: SetLastVirtualFinishTime_def)
  qed
qed

lemma all_empty_spec:
  "n \<le> length qs \<Longrightarrow> all_empty qs n = Some (\<forall>i<n. m_queue (qs ! i) = [])"
  by (induction n) (auto simp: less_Suc_eq IsEmpty_def)

lemma TxIsEmpty_wf: "txq_wf n tq \<Longrightarrow> TxIsEmpty tq = Some (\<forall>i<n. m_queue (m_priorityQueues tq ! i) = [])"
  by (simp add: TxIsEmpty_def txq_wf_def all_empty_spec)

lemma DoDequeue_wf:
  assumes "txq_wf n tq" and "i < n" and "m_queue (m_priorityQueues tq ! i) = item # rest"
  obtains tq' where "DoDequeue i tq = Some (tq', item)" and "txq_wf n tq'"
    and "m_queue (m_priorityQueues tq' ! i) = rest"
    and "\<forall>j. j \<noteq> i \<longrightarrow> m_priorityQueues tq' ! j = m_priorityQueues tq ! j"
    and "map m_lastVirtualFinishTime (m_priorityQueues tq') = map m_lastVirtualFinishTime (m_priorityQueues tq)"
proof -
  let ?q = "m_priorityQueues tq ! i"
  let ?q1 = "?q\<lparr>m_queue := rest\<rparr>"
  let ?t = "tq\<lparr>m_priorityQueues := (m_priorityQueues tq)[i := ?q1]\<rparr>"
  have len: "length (m_priorityQueues tq) = n" using assms(1) by (simp add: txq_wf_def)
  have "TxIsEmpty tq = Some False" using TxIsEmpty_wf [OF assms(1)] assms(2,3) by force
  then have "DoDequeue i tq = Some (?t, item)"
    using len assms(2,3) by (simp add: DoDequeue_def Dequeue_def)
  moreover have "length rest < QUEUE_SIZE" "m_maxQueueSize ?q = QUEUE_SIZE"
    using assms by (auto simp: txq_wf_def)
  then have "txq_wf n ?t" using assms(1,2) by (intro txq_wf_update) auto
  moreover have "map m_lastVirtualFinishTime ((m_priorityQueues tq)[i := ?q1]) =
      map m_lastVirtualFinishTime (m_priorityQueues tq)"
    by (simp add: map_update list_update_id) (metis list_update_id map_update)
  ultimately show ?thesis using that [of ?t] len assms(2) by simp
qed

subsection \<open>Properties\<close>

text \<open>C31: weighted fair queueing serves the right queue: with one token count per queue,
  \<open>SelectQueueToSend\<close> returns queue j iff j is not empty and has a token, no queue that can
  send has a smaller virtual finish time, and none before j has the same one; it returns -1
  iff no queue can send.\<close>

theorem SelectQueueToSend_spec:
  assumes "txq_wf n tq" and "n \<le> length tokens"
    and "\<forall>q\<in>set (m_priorityQueues tq). m_lastVirtualFinishTime q < 2 ^ 64"
  shows "case SelectQueueToSend tokens tq of
      None \<Rightarrow> False
    | Some None \<Rightarrow> \<forall>i<n. \<not> can_send (m_priorityQueues tq) tokens i
    | Some (Some j) \<Rightarrow> j < n \<and> can_send (m_priorityQueues tq) tokens j \<and>
        (\<forall>i<n. can_send (m_priorityQueues tq) tokens i \<longrightarrow> vft (m_priorityQueues tq) j \<le> vft (m_priorityQueues tq) i) \<and>
        (\<forall>i<j. can_send (m_priorityQueues tq) tokens i \<longrightarrow> vft (m_priorityQueues tq) j < vft (m_priorityQueues tq) i)"
proof -
  have n: "length (m_priorityQueues tq) = n" "totalQueues tq = n" using assms(1) by (auto simp: txq_wf_def)
  have "\<forall>i<n. m_lastVirtualFinishTime (m_priorityQueues tq ! i) < 2 ^ 64" using assms(3) n by simp
  from select_loop_spec [of n "m_priorityQueues tq" tokens, OF _ _ this] n assms(2)
  obtain m s where "select_loop (m_priorityQueues tq) tokens n = Some (m, s)" and
    "case s of
       None \<Rightarrow> m = FLT_MAX \<and> (\<forall>i<n. \<not> can_send (m_priorityQueues tq) tokens i)
     | Some j \<Rightarrow> j < n \<and> can_send (m_priorityQueues tq) tokens j \<and> m = vft (m_priorityQueues tq) j \<and>
         (\<forall>i<n. can_send (m_priorityQueues tq) tokens i \<longrightarrow> vft (m_priorityQueues tq) j \<le> vft (m_priorityQueues tq) i) \<and>
         (\<forall>i<j. can_send (m_priorityQueues tq) tokens i \<longrightarrow> vft (m_priorityQueues tq) j < vft (m_priorityQueues tq) i)"
    by auto
  then show ?thesis using n by (cases s) (auto simp: SelectQueueToSend_def)
qed

text \<open>Three classes with one packet each in the first two, for the examples below.\<close>

definition example_txq :: NdnPriorityTxQueue where
  "example_txq = \<lparr>m_priorityQueues =
     [\<lparr>m_maxQueueSize = 10, m_weight = 3, m_lastVirtualFinishTime = 90, m_queue = [QueueItem_of 1]\<rparr>,
      \<lparr>m_maxQueueSize = 10, m_weight = 2, m_lastVirtualFinishTime = 70, m_queue = [QueueItem_of 2]\<rparr>,
      \<lparr>m_maxQueueSize = 10, m_weight = 1, m_lastVirtualFinishTime = 0, m_queue = []\<rparr>], totalQueues = 3\<rparr>"

lemma example_txq_wf: "txq_wf 3 example_txq"
  by (simp add: example_txq_def txq_wf_def QUEUE_SIZE_def numeral_3_eq_3 less_Suc_eq nth_Cons' conj_disj_distribR
      disj_imp)

theorem SelectQueueToSend_spec_witness:
  "SelectQueueToSend [1, 1, 1] example_txq = Some (Some 1) \<and>
   vft (m_priorityQueues example_txq) 1 \<le> vft (m_priorityQueues example_txq) 0"
proof -
  have "SelectQueueToSend [1, 1, 1] example_txq = Some (Some 1)"
    by (simp add: SelectQueueToSend_def example_txq_def numeral_3_eq_3 IsEmpty_def FLT_MAX_def fround_eval Let_def)
  moreover have "can_send (m_priorityQueues example_txq) [1, 1, 1] 0"
    by (simp add: can_send_def example_txq_def IsEmpty_def)
  ultimately show ?thesis
    using SelectQueueToSend_spec [OF example_txq_wf, of "[1, 1, 1]"] by (simp add: example_txq_def)
qed

text \<open>Enqueueing a packet of class i touches the queue of class i only: below the bound the
  packet is appended there, at the bound the packet is refused and nothing changes, and in
  both cases the queues stay well formed. A class with no queue is an access out of range.\<close>

theorem DoEnqueue_spec:
  assumes "txq_wf n tq" and "n \<le> 1000" and "times_ok now tq" and "bsize (wireEncode item) \<le> 2 ^ 32"
  shows "case DoEnqueue bsize now item i tq of
      None \<Rightarrow> n \<le> i
    | Some (tq', ok) \<Rightarrow> i < n \<and> txq_wf n tq' \<and>
        (ok \<longleftrightarrow> length (m_queue (m_priorityQueues tq ! i)) < QUEUE_SIZE) \<and>
        map m_queue (m_priorityQueues tq') =
          (map m_queue (m_priorityQueues tq))[i := m_queue (m_priorityQueues tq ! i) @ (if ok then [item] else [])] \<and>
        (\<forall>j. j \<noteq> i \<longrightarrow> m_priorityQueues tq' ! j = m_priorityQueues tq ! j)"
proof (cases "i < n")
  case True
  obtain tq' where t: "DoEnqueue bsize now item i tq = Some (tq', length (m_queue (m_priorityQueues tq ! i)) < QUEUE_SIZE)"
    "txq_wf n tq'"
    "m_queue (m_priorityQueues tq' ! i) =
      (if length (m_queue (m_priorityQueues tq ! i)) < QUEUE_SIZE
       then m_queue (m_priorityQueues tq ! i) @ [item] else m_queue (m_priorityQueues tq ! i))"
    "\<forall>j. j \<noteq> i \<longrightarrow> m_priorityQueues tq' ! j = m_priorityQueues tq ! j"
    using DoEnqueue_wf [where bsize = bsize and item = item, OF assms(1,2) True assms(3,4)] .
  moreover have "length (m_priorityQueues tq) = n" "length (m_priorityQueues tq') = n"
    using assms(1) t(2) by (auto simp: txq_wf_def)
  ultimately show ?thesis
    using True by (auto intro!: nth_equalityI simp: nth_list_update)
next
  case False
  then have "DoEnqueue bsize now item i tq = None"
    using assms(1) by (simp add: DoEnqueue_def txq_wf_def vec_get_def)
  with False show ?thesis by simp
qed

theorem DoEnqueue_spec_witness:
  "\<exists>tq' ok. DoEnqueue (\<lambda>b. 100) 60 (QueueItem_of 3) 1 example_txq = Some (tq', ok) \<and> ok \<and>
     map m_queue (m_priorityQueues tq') = [[QueueItem_of 1], [QueueItem_of 2, QueueItem_of 3], []]"
proof -
  have t: "times_ok 60 example_txq" by (simp add: times_ok_def example_txq_def)
  have "DoEnqueue (\<lambda>b. 100) 60 (QueueItem_of 3) 1 example_txq \<noteq> None"
    using DoEnqueue_spec [OF example_txq_wf _ t, of "\<lambda>b. 100" "QueueItem_of 3" 1] by (auto split: option.splits)
  then show ?thesis
    using DoEnqueue_spec [OF example_txq_wf _ t, of "\<lambda>b. 100" "QueueItem_of 3" 1]
    by (auto simp: example_txq_def QUEUE_SIZE_def split: option.splits)
qed

text \<open>What is enqueued for a class is what a dequeue of that class returns: dequeueing a
  non-empty class returns its oldest packet, removes it, and leaves the other classes and
  every virtual finish time as they were.\<close>

theorem DoDequeue_spec:
  assumes "txq_wf n tq" and "i < n" and "m_queue (m_priorityQueues tq ! i) = item # rest"
  shows "\<exists>tq'. DoDequeue i tq = Some (tq', item) \<and> txq_wf n tq' \<and>
    map m_queue (m_priorityQueues tq') = (map m_queue (m_priorityQueues tq))[i := rest] \<and>
    map m_lastVirtualFinishTime (m_priorityQueues tq') = map m_lastVirtualFinishTime (m_priorityQueues tq)"
proof -
  obtain tq' where t: "DoDequeue i tq = Some (tq', item)" "txq_wf n tq'"
    "m_queue (m_priorityQueues tq' ! i) = rest"
    "\<forall>j. j \<noteq> i \<longrightarrow> m_priorityQueues tq' ! j = m_priorityQueues tq ! j"
    "map m_lastVirtualFinishTime (m_priorityQueues tq') = map m_lastVirtualFinishTime (m_priorityQueues tq)"
    using DoDequeue_wf [OF assms] .
  moreover have "length (m_priorityQueues tq) = n" "length (m_priorityQueues tq') = n"
    using assms(1) t(2) by (auto simp: txq_wf_def)
  ultimately show ?thesis
    using assms(2) by (auto intro!: nth_equalityI simp: nth_list_update)
qed

theorem DoDequeue_spec_witness:
  "\<exists>tq'. DoDequeue 1 example_txq = Some (tq', QueueItem_of 2) \<and>
     map m_queue (m_priorityQueues tq') = [[QueueItem_of 1], [], []]"
  using DoDequeue_spec [OF example_txq_wf, of 1 "QueueItem_of 2" "[]"] by (auto simp: example_txq_def)

text \<open>Virtual time does not go back: while the current time and the last finish time of a
  queue are at most 2 ^ 24 milliseconds, the finish time of a packet is at least its start
  time, which is the later of the two.\<close>

theorem UpdateTime_monotone:
  assumes "txq_wf n tq" and "n \<le> 1000" and "i < n" and "m_weight q = of_nat (n - i)"
    and "now \<le> 2 ^ 24" and "m_lastVirtualFinishTime q \<le> 2 ^ 24" and "sz \<le> 2 ^ 32"
  shows "\<exists>v. UpdateTime now sz tq q = Some (SetLastVirtualFinishTime v q) \<and>
    now \<le> v \<and> m_lastVirtualFinishTime q \<le> v"
proof -
  have le: "now \<le> 2 ^ 63" "m_lastVirtualFinishTime q \<le> 2 ^ 63" using assms(5,6) by simp_all
  let ?t = "max now (m_lastVirtualFinishTime q)"
  obtain v s where v: "UpdateTime now sz tq q = Some (SetLastVirtualFinishTime v q)"
    "v = nat \<lfloor>float32 (float32 (of_nat ?t) + s)\<rfloor>" "0 \<le> s"
    using UpdateTime_defined [OF assms(1-4) le assms(7)] by metis
  have t: "float32 (of_nat ?t) = of_nat ?t" using assms(5,6) by (intro fround_of_nat) auto
  have "float32 (of_nat ?t) \<le> float32 (float32 (of_nat ?t) + s)"
    using v(3) t by (intro fround_mono) auto
  then have "int ?t \<le> \<lfloor>float32 (float32 (of_nat ?t) + s)\<rfloor>"
    unfolding t by (simp only: le_floor_iff of_int_of_nat_eq)
  then have "?t \<le> v" unfolding v(2) by linarith
  with v(1) show ?thesis by auto
qed

theorem UpdateTime_monotone_witness:
  "\<exists>v. UpdateTime 60 100 example_txq (m_priorityQueues example_txq ! 1) =
     Some (SetLastVirtualFinishTime v (m_priorityQueues example_txq ! 1)) \<and> 60 \<le> v \<and> 70 \<le> v"
  using UpdateTime_monotone [OF example_txq_wf, of 1 "m_priorityQueues example_txq ! 1" 60 100]
  by (simp add: example_txq_def)

text \<open>C38: virtual time can go back, because finish times are computed in single precision: for
  every exponent e from 24 to 62, a packet enqueued d milliseconds after time 2 ^ e, with
  0 < d and d at most 2 ^ (e - 24), in any queue of an initialized scheduler of at most 1000
  queues whose last finish time is not later than that moment, gets the finish time 2 ^ e,
  before the moment it was enqueued, when its size is at most 2 ^ (e - 24) octets and at most
  2 ^ 24.\<close>

theorem UpdateTime_goes_back:
  assumes "txq_wf n tq" and "n \<le> 1000" and "i < n" and "q = m_priorityQueues tq ! i"
    and "24 \<le> e" and "e < 63" and "0 < d" and "d \<le> 2 ^ (e - 24)"
    and "m_lastVirtualFinishTime q \<le> 2 ^ e + d" and "sz \<le> 2 ^ 24" and "sz \<le> 2 ^ (e - 24)"
  shows "UpdateTime (2 ^ e + d) sz tq q = Some (SetLastVirtualFinishTime (2 ^ e) q)"
proof -
  have w: "m_weight q = of_nat (n - i)" using assms(1,3,4) by (simp add: txq_wf_def)
  obtain r where r: "GetFlowRate tq q = Some r" "0 \<le> r" "r \<le> 1"
    using GetFlowRate_wf [OF assms(1-3) w] .
  let ?t = "of_nat (2 ^ e + d) :: rat"
  let ?s = "float32 (float32 (of_nat sz) * float32 (1 - r))"
  have dd: "(of_nat d :: rat) \<le> 2 ^ (e - 24)"
    using assms(8) by (metis of_nat_le_iff of_nat_numeral of_nat_power)
  have t: "float32 ?t = 2 ^ e"
    using float32_above_power [OF assms(5) _ dd] by simp
  have "(of_nat sz :: rat) \<le> 2 ^ (e - 24)"
    using assms(11) by (metis of_nat_le_iff of_nat_numeral of_nat_power)
  then have s: "0 \<le> ?s" "?s \<le> 2 ^ (e - 24)"
    using service_le [OF r(2,3) assms(10)] by (simp_all only: order_trans)
  have v: "float32 (float32 ?t + ?s) = 2 ^ e"
    unfolding t by (rule float32_above_power [OF assms(5) s])
  have "\<lfloor>2 ^ e :: rat\<rfloor> = 2 ^ e" by (metis floor_of_int of_int_numeral of_int_power)
  moreover have "(2::rat) ^ e < 2 ^ 64" using assms(6) by (intro power_strict_increasing) auto
  ultimately have "to_uint64 (2 ^ e) = Some (2 ^ e)" by (simp add: to_uint64_def nat_power_eq)
  then show ?thesis
    using r(1) v assms(9) by (simp add: UpdateTime_def max_absorb1)
qed

theorem UpdateTime_goes_back_witness:
  "UpdateTime (2 ^ 31 + 100) 100 example_txq (m_priorityQueues example_txq ! 1) =
   Some (SetLastVirtualFinishTime (2 ^ 31) (m_priorityQueues example_txq ! 1))"
  using UpdateTime_goes_back [OF example_txq_wf, of 1 "m_priorityQueues example_txq ! 1" 31 100 100]
  by (simp add: example_txq_def)

end
