(* ===== verification/Name_Tree_Hashtable.thy ===== *)
theory Name_Tree_Hashtable
  imports Nfd_Prelude "HOL-Library.Multiset"
begin

text \<open>
  \<^verbatim>\<open>daemon/table/name-tree-entry.{hpp,cpp}\<close> and \<^verbatim>\<open>daemon/table/name-tree-hashtable.{hpp,cpp}\<close>:
  the entries of the name tree and the hashtable that stores them.

  A pointer to an entry or to its node is the name of the entry; an entry is stored once, so
  the name determines it.  The chain of a bucket (the pointers \<open>prev\<close> and \<open>next\<close>) is a list,
  head first.  The table entries attached to an entry are values of type parameters, apart
  from PIT entries, which other parts of the daemon share and which are references.  The
  hash of one name component is a field of the table, so that every statement holds for
  every such function.  None is a failed assertion.

  The lemmas: the i-th value of \<open>computeHashes\<close> is \<open>computeHash\<close> of the prefix of length i; the table
  refines a map from names to entries, through insertion, erasure, updates and the resizing
  that insertion and erasure cause.
\<close>

unbundle bit_operations_syntax

subsection \<open>Entries\<close>

definition FIB_MAX_DEPTH :: nat where
  "FIB_MAX_DEPTH = 32"

definition getMaxDepth :: nat where
  "getMaxDepth = FIB_MAX_DEPTH"

record ('f, 'm, 's) nt_entry =
  m_name :: name
  m_parent :: "name option"
  m_children :: "name list"
  m_fibEntry :: "'f option"
  m_pitEntries :: "pit_ref list"
  m_measurementsEntry :: "'m option"
  m_strategyChoiceEntry :: "'s option"

definition fresh_entry :: "name \<Rightarrow> ('f, 'm, 's) nt_entry" where
  "fresh_entry name = \<lparr>m_name = name, m_parent = None, m_children = [], m_fibEntry = None,
     m_pitEntries = [], m_measurementsEntry = None, m_strategyChoiceEntry = None\<rparr>"

definition Entry :: "name \<Rightarrow> ('f, 'm, 's) nt_entry option" where
  "Entry name = do {
     assert (length name \<le> getMaxDepth);
     Some (fresh_entry name)
   }"

definition hasChildren :: "('f, 'm, 's) nt_entry \<Rightarrow> bool" where
  "hasChildren e \<longleftrightarrow> m_children e \<noteq> []"

definition hasTableEntries :: "('f, 'm, 's) nt_entry \<Rightarrow> bool" where
  "hasTableEntries e \<longleftrightarrow> m_fibEntry e \<noteq> None \<or> m_pitEntries e \<noteq> [] \<or>
     m_measurementsEntry e \<noteq> None \<or> m_strategyChoiceEntry e \<noteq> None"

definition isEmpty :: "('f, 'm, 's) nt_entry \<Rightarrow> bool" where
  "isEmpty e \<longleftrightarrow> \<not> hasChildren e \<and> \<not> hasTableEntries e"

subsection \<open>Hash values\<close>

type_synonym HashValue = "64 word"

definition computeHash :: "(component \<Rightarrow> HashValue) \<Rightarrow> name \<Rightarrow> nat \<Rightarrow> HashValue" where
  "computeHash H name prefixLen = fold (\<lambda>c h. h XOR H c) (take prefixLen name) 0"

fun hash_loop :: "(component \<Rightarrow> HashValue) \<Rightarrow> HashValue \<Rightarrow> name \<Rightarrow> HashValue list" where
  "hash_loop H h [] = [h]"
| "hash_loop H h (c # rest) = h # hash_loop H (h XOR H c) rest"

definition computeHashes :: "(component \<Rightarrow> HashValue) \<Rightarrow> name \<Rightarrow> nat \<Rightarrow> HashValue list" where
  "computeHashes H name prefixLen = hash_loop H 0 (take prefixLen name)"

subsection \<open>The hashtable\<close>

record ('f, 'm, 's) node =
  hash :: HashValue
  entry :: "('f, 'm, 's) nt_entry"

abbreviation node_name :: "('f, 'm, 's) node \<Rightarrow> name" where
  "node_name node \<equiv> m_name (entry node)"

record HashtableOptions =
  initialSize :: nat
  minSize :: nat
  expandLoadFactor :: rat
  expandFactor :: rat
  shrinkLoadFactor :: rat
  shrinkFactor :: rat

definition HashtableOptions_new :: "nat \<Rightarrow> HashtableOptions" where
  "HashtableOptions_new n = \<lparr>initialSize = n, minSize = n, expandLoadFactor = float32 (1 / 2),
     expandFactor = 2, shrinkLoadFactor = float32 (1 / 10), shrinkFactor = float32 (1 / 2)\<rparr>"

record ('f, 'm, 's) hashtable =
  hashFunc :: "component \<Rightarrow> HashValue"
  m_buckets :: "('f, 'm, 's) node list list"
  m_options :: HashtableOptions
  m_size :: nat
  m_expandThreshold :: nat
  m_shrinkThreshold :: nat

definition getNBuckets :: "('f, 'm, 's) hashtable \<Rightarrow> nat" where
  "getNBuckets ht = length (m_buckets ht)"

definition computeBucketIndex :: "('f, 'm, 's) hashtable \<Rightarrow> HashValue \<Rightarrow> nat" where
  "computeBucketIndex ht h = unat h mod getNBuckets ht"

definition computeThresholds :: "('f, 'm, 's) hashtable \<Rightarrow> ('f, 'm, 's) hashtable" where
  "computeThresholds ht = ht\<lparr>
     m_expandThreshold := to_size (float32 (expandLoadFactor (m_options ht) * float32 (of_nat (getNBuckets ht)))),
     m_shrinkThreshold := to_size (float32 (shrinkLoadFactor (m_options ht) * float32 (of_nat (getNBuckets ht))))\<rparr>"

definition options_ok :: "HashtableOptions \<Rightarrow> bool" where
  "options_ok opt \<longleftrightarrow> minSize opt > 0 \<and> initialSize opt \<ge> minSize opt \<and>
     expandLoadFactor opt > 0 \<and> expandLoadFactor opt \<le> 1 \<and> expandFactor opt > 1 \<and>
     shrinkLoadFactor opt \<ge> 0 \<and> shrinkLoadFactor opt < 1 \<and> shrinkFactor opt > 0 \<and> shrinkFactor opt < 1"

definition Hashtable :: "(component \<Rightarrow> HashValue) \<Rightarrow> HashtableOptions \<Rightarrow> ('f, 'm, 's) hashtable option" where
  "Hashtable H options = do {
     assert (options_ok options);
     Some (computeThresholds \<lparr>hashFunc = H, m_buckets = replicate (initialSize options) [],
       m_options = options, m_size = 0, m_expandThreshold = 0, m_shrinkThreshold = 0\<rparr>)
   }"

definition attach :: "nat \<Rightarrow> ('f, 'm, 's) node \<Rightarrow> ('f, 'm, 's) hashtable \<Rightarrow> ('f, 'm, 's) hashtable" where
  "attach bucket node ht = ht\<lparr>m_buckets := (m_buckets ht)[bucket := node # m_buckets ht ! bucket]\<rparr>"

definition detach :: "nat \<Rightarrow> name \<Rightarrow> ('f, 'm, 's) hashtable \<Rightarrow> ('f, 'm, 's) hashtable option" where
  "detach bucket n ht = do {
     chain \<leftarrow> vec_get (m_buckets ht) bucket;
     assert (n \<in> node_name ` set chain);
     Some (ht\<lparr>m_buckets := (m_buckets ht)[bucket := erase_first (\<lambda>node. node_name node = n) chain]\<rparr>)
   }"

definition resize :: "nat \<Rightarrow> ('f, 'm, 's) hashtable \<Rightarrow> ('f, 'm, 's) hashtable" where
  "resize newNBuckets ht =
     (if getNBuckets ht = newNBuckets then ht
      else computeThresholds
        (fold (\<lambda>node ht. attach (computeBucketIndex ht (hash node)) node ht) (concat (m_buckets ht))
           (ht\<lparr>m_buckets := replicate newNBuckets []\<rparr>)))"

definition findOrInsert :: "name \<Rightarrow> nat \<Rightarrow> HashValue \<Rightarrow> bool \<Rightarrow> ('f, 'm, 's) hashtable \<Rightarrow>
    (('f, 'm, 's) hashtable \<times> name option \<times> bool) option" where
  "findOrInsert name prefixLen h allowInsert ht = do {
     let bucket = computeBucketIndex ht h;
     chain \<leftarrow> vec_get (m_buckets ht) bucket;
     case List.find (\<lambda>node. hash node = h \<and> take prefixLen name = node_name node) chain of
       Some node \<Rightarrow> Some (ht, Some (node_name node), False)
     | None \<Rightarrow>
         if \<not> allowInsert then Some (ht, None, False)
         else do {
           e \<leftarrow> Entry (take prefixLen name);
           let ht = attach bucket \<lparr>hash = h, entry = e\<rparr> ht;
           let ht = ht\<lparr>m_size := m_size ht + 1\<rparr>;
           let ht = (if m_size ht > m_expandThreshold ht
             then resize (to_size (float32 (expandFactor (m_options ht) * float32 (of_nat (getNBuckets ht))))) ht
             else ht);
           Some (ht, Some (take prefixLen name), True)
         }
   }"

definition ht_find :: "('f, 'm, 's) hashtable \<Rightarrow> name \<Rightarrow> nat \<Rightarrow> name option option" where
  "ht_find ht name prefixLen =
     map_option (fst \<circ> snd) (findOrInsert name prefixLen (computeHash (hashFunc ht) name prefixLen) False ht)"

definition ht_find_hashes :: "('f, 'm, 's) hashtable \<Rightarrow> name \<Rightarrow> nat \<Rightarrow> HashValue list \<Rightarrow> name option option" where
  "ht_find_hashes ht name prefixLen hashes = do {
     h \<leftarrow> vec_get hashes prefixLen;
     assert (h = computeHash (hashFunc ht) name prefixLen);
     map_option (fst \<circ> snd) (findOrInsert name prefixLen h False ht)
   }"

definition ht_insert :: "name \<Rightarrow> nat \<Rightarrow> HashValue list \<Rightarrow> ('f, 'm, 's) hashtable \<Rightarrow>
    (('f, 'm, 's) hashtable \<times> name option \<times> bool) option" where
  "ht_insert name prefixLen hashes ht = do {
     h \<leftarrow> vec_get hashes prefixLen;
     assert (h = computeHash (hashFunc ht) name prefixLen);
     findOrInsert name prefixLen h True ht
   }"

text \<open>The node and the entry a pointer refers to, and a change of the entry through it.\<close>

definition nodes :: "('f, 'm, 's) hashtable \<Rightarrow> ('f, 'm, 's) node list" where
  "nodes ht = concat (m_buckets ht)"

definition node_at :: "name \<Rightarrow> ('f, 'm, 's) hashtable \<Rightarrow> ('f, 'm, 's) node option" where
  "node_at n ht = List.find (\<lambda>node. node_name node = n) (nodes ht)"

definition entry_at :: "('f, 'm, 's) hashtable \<Rightarrow> name \<Rightarrow> ('f, 'm, 's) nt_entry option" where
  "entry_at ht n = map_option entry (node_at n ht)"

definition modify :: "name \<Rightarrow> (('f, 'm, 's) nt_entry \<Rightarrow> ('f, 'm, 's) nt_entry) \<Rightarrow>
    ('f, 'm, 's) hashtable \<Rightarrow> ('f, 'm, 's) hashtable" where
  "modify n f ht = ht\<lparr>m_buckets :=
     map (map (\<lambda>node. if node_name node = n then node\<lparr>entry := f (entry node)\<rparr> else node)) (m_buckets ht)\<rparr>"

definition ht_erase :: "name \<Rightarrow> ('f, 'm, 's) hashtable \<Rightarrow> ('f, 'm, 's) hashtable option" where
  "ht_erase n ht = do {
     node \<leftarrow> node_at n ht;
     assert (m_parent (entry node) = None);
     ht \<leftarrow> detach (computeBucketIndex ht (hash node)) n ht;
     let ht = ht\<lparr>m_size := m_size ht - 1\<rparr>;
     Some (if m_size ht < m_shrinkThreshold ht
       then resize (max (minSize (m_options ht))
              (to_size (float32 (shrinkFactor (m_options ht) * float32 (of_nat (getNBuckets ht)))))) ht
       else ht)
   }"

subsection \<open>Hash sequences\<close>

lemma computeHash_take [simp]:
  "computeHash H (take k name) k = computeHash H name k"
  "computeHash H (take k name) (min (length name) k) = computeHash H name k"
  by (auto simp: computeHash_def min_def)

lemma length_hash_loop [simp]: "length (hash_loop H h name) = Suc (length name)"
  by (induction name arbitrary: h) auto

lemma hash_loop_nth:
  "i \<le> length name \<Longrightarrow> hash_loop H h name ! i = fold (\<lambda>c h. h XOR H c) (take i name) h"
proof (induction name arbitrary: h i)
  case (Cons c name)
  then show ?case by (cases i) auto
qed simp

lemma computeHashes_get [simp]:
  "i \<le> k \<Longrightarrow> i \<le> length name \<Longrightarrow> vec_get (computeHashes H name k) i = Some (computeHash H name i)"
  by (simp add: vec_get_def computeHashes_def computeHash_def hash_loop_nth min_absorb1)

text \<open>The sequence of hashes computed in one pass over a name agrees with the hash of each
  prefix: it has one value per prefix up to the given length, and its i-th value is
  \<open>computeHash\<close> of the prefix of length i.\<close>

theorem computeHashes_computeHash:
  "length (computeHashes H name k) = Suc (min k (length name)) \<and>
   computeHashes H name k = map (computeHash H name) [0..<Suc (min k (length name))]"
proof -
  have "length (computeHashes H name k) = Suc (min k (length name))"
    by (simp add: computeHashes_def min.commute)
  moreover have "computeHashes H name k ! i = computeHash H name i" if "i < Suc (min k (length name))" for i
    using that hash_loop_nth [of i "take k name" H 0]
    by (simp add: computeHashes_def computeHash_def less_Suc_eq_le min_absorb1)
  ultimately show ?thesis
    by (auto intro!: nth_equalityI simp del: upt_Suc)
qed

subsection \<open>Multisets of nodes\<close>

lemma mset_concat_update:
  "b < length bs \<Longrightarrow> mset (concat (bs[b := xs])) + mset (bs ! b) = mset (concat bs) + mset xs"
proof (induction bs arbitrary: b)
  case (Cons c bs)
  then show ?case by (cases b) (auto simp: ac_simps)
qed simp

lemma mset_erase_first:
  "List.find P xs = Some x \<Longrightarrow> add_mset x (mset (erase_first P xs)) = mset xs"
  by (induction xs) (auto split: if_splits)

lemma mset_concat_attach:
  "b < length bs \<Longrightarrow> mset (concat (bs[b := x # bs ! b])) = add_mset x (mset (concat bs))"
  using mset_concat_update [of b bs "x # bs ! b"] by simp

lemma mset_concat_detach:
  assumes "b < length bs" and "List.find P (bs ! b) = Some x"
  shows "add_mset x (mset (concat (bs[b := erase_first P (bs ! b)]))) = mset (concat bs)"
proof -
  have e: "mset (bs ! b) = add_mset x (mset (erase_first P (bs ! b)))"
    using mset_erase_first [OF assms(2)] by simp
  show ?thesis
    using mset_concat_update [OF assms(1), of "erase_first P (bs ! b)"] by (simp add: e)
qed

subsection \<open>Well-formedness and abstraction\<close>

text \<open>
  Every node is in the bucket of its hash, which is the hash of its name; names are
  unique; the counter is right.  The abstraction of a table is the map \<open>entry_at\<close>.
\<close>

definition placed :: "('f, 'm, 's) hashtable \<Rightarrow> bool" where
  "placed ht \<longleftrightarrow> (\<forall>i<getNBuckets ht. \<forall>node\<in>set (m_buckets ht ! i).
     hash node = computeHash (hashFunc ht) (node_name node) (length (node_name node)) \<and>
     computeBucketIndex ht (hash node) = i)"

definition ht_wf :: "('f, 'm, 's) hashtable \<Rightarrow> bool" where
  "ht_wf ht \<longleftrightarrow> options_ok (m_options ht) \<and> 0 < getNBuckets ht \<and> placed ht \<and>
     distinct (map node_name (nodes ht)) \<and> m_size ht = length (nodes ht)"

lemma find_distinct_iff:
  "distinct (map k xs) \<Longrightarrow> List.find (\<lambda>x. k x = a) xs = Some x \<longleftrightarrow> x \<in> set xs \<and> k x = a"
proof (induction xs)
  case (Cons y ys)
  then show ?case by (auto simp: image_iff)
qed simp

lemma find_map: "List.find P (map g xs) = map_option g (List.find (P \<circ> g) xs)"
  by (induction xs) auto

lemma node_at_iff:
  "ht_wf ht \<Longrightarrow> node_at n ht = Some node \<longleftrightarrow> node \<in> set (nodes ht) \<and> node_name node = n"
  by (simp add: node_at_def ht_wf_def find_distinct_iff)

lemma entry_at_iff:
  "distinct (map node_name (nodes ht)) \<Longrightarrow>
   entry_at ht n = Some e \<longleftrightarrow> (\<exists>node\<in>set (nodes ht). node_name node = n \<and> entry node = e)"
  by (auto simp: entry_at_def node_at_def find_distinct_iff)

lemma entry_at_None: "entry_at ht n = None \<longleftrightarrow> n \<notin> node_name ` set (nodes ht)"
  by (auto simp: entry_at_def node_at_def find_eq_None)

lemma entry_at_name: "entry_at ht n = Some e \<Longrightarrow> m_name e = n"
  by (auto simp: entry_at_def node_at_def dest: find_SomeD)

lemma entry_at_mset:
  assumes "distinct (map node_name (nodes ht))" and "mset (nodes ht') = mset (nodes ht)"
  shows "distinct (map node_name (nodes ht'))" and "entry_at ht' = entry_at ht"
proof -
  show d: "distinct (map node_name (nodes ht'))"
    using assms mset_eq_imp_distinct_iff [of "map node_name (nodes ht')" "map node_name (nodes ht)"] by simp
  have "set (nodes ht') = set (nodes ht)" using assms(2) by (rule mset_eq_setD)
  then have "entry_at ht' n = Some e \<longleftrightarrow> entry_at ht n = Some e" for n e
    using assms(1) d by (simp add: entry_at_iff)
  then show "entry_at ht' = entry_at ht" by (metis option.exhaust ext)
qed

lemma ht_fields [simp]:
  "hashFunc (attach b node ht) = hashFunc ht" "m_options (attach b node ht) = m_options ht"
  "m_size (attach b node ht) = m_size ht" "getNBuckets (attach b node ht) = getNBuckets ht"
  "hashFunc (computeThresholds ht) = hashFunc ht" "m_options (computeThresholds ht) = m_options ht"
  "m_size (computeThresholds ht) = m_size ht" "m_buckets (computeThresholds ht) = m_buckets ht"
  "getNBuckets (computeThresholds ht) = getNBuckets ht" "nodes (computeThresholds ht) = nodes ht"
  "getNBuckets (ht\<lparr>m_size := k\<rparr>) = getNBuckets ht" "nodes (ht\<lparr>m_size := k\<rparr>) = nodes ht"
  by (simp_all add: attach_def computeThresholds_def getNBuckets_def nodes_def)

lemma computeBucketIndex_less [simp]: "0 < getNBuckets ht \<Longrightarrow> computeBucketIndex ht h < getNBuckets ht"
  by (simp add: computeBucketIndex_def)

lemma computeBucketIndex_attach [simp]: "computeBucketIndex (attach b node ht) h = computeBucketIndex ht h"
  by (simp add: computeBucketIndex_def)

lemma placed_cong:
  "m_buckets ht' = m_buckets ht \<Longrightarrow> hashFunc ht' = hashFunc ht \<Longrightarrow> placed ht' = placed ht"
  by (simp add: placed_def getNBuckets_def computeBucketIndex_def)

lemma nodes_attach:
  "b < getNBuckets ht \<Longrightarrow> mset (nodes (attach b node ht)) = add_mset node (mset (nodes ht))"
  by (simp add: attach_def nodes_def getNBuckets_def mset_concat_attach)

lemma placed_attach:
  assumes "placed ht" and "hash node = computeHash (hashFunc ht) (node_name node) (length (node_name node))"
    and "0 < getNBuckets ht"
  shows "placed (attach (computeBucketIndex ht (hash node)) node ht)"
  unfolding placed_def
proof (intro allI impI ballI)
  let ?b = "computeBucketIndex ht (hash node)"
  fix i x
  assume "i < getNBuckets (attach ?b node ht)" and x: "x \<in> set (m_buckets (attach ?b node ht) ! i)"
  then have i: "i < getNBuckets ht" by simp
  with x have "(i = ?b \<and> x = node) \<or> x \<in> set (m_buckets ht ! i)"
    by (cases "i = ?b") (auto simp: attach_def getNBuckets_def)
  then show "hash x = computeHash (hashFunc (attach ?b node ht)) (node_name x) (length (node_name x)) \<and>
      computeBucketIndex (attach ?b node ht) (hash x) = i"
    using assms(1,2) i by (auto simp: placed_def)
qed

lemma placed_hash:
  assumes "placed ht" and "node \<in> set (nodes ht)"
  shows "hash node = computeHash (hashFunc ht) (node_name node) (length (node_name node))"
    and "node \<in> set (m_buckets ht ! computeBucketIndex ht (hash node))"
proof -
  from assms(2) obtain i where "i < getNBuckets ht" "node \<in> set (m_buckets ht ! i)"
    by (auto simp: nodes_def getNBuckets_def in_set_conv_nth [of _ "m_buckets ht"])
  moreover from this assms(1) have
    "hash node = computeHash (hashFunc ht) (node_name node) (length (node_name node)) \<and>
     computeBucketIndex ht (hash node) = i"
    unfolding placed_def by blast
  ultimately show "hash node = computeHash (hashFunc ht) (node_name node) (length (node_name node))"
    and "node \<in> set (m_buckets ht ! computeBucketIndex ht (hash node))"
    by blast+
qed

abbreviation reattach :: "('f, 'm, 's) node list \<Rightarrow> ('f, 'm, 's) hashtable \<Rightarrow> ('f, 'm, 's) hashtable" where
  "reattach \<equiv> fold (\<lambda>node ht. attach (computeBucketIndex ht (hash node)) node ht)"

lemma reattach_fields [simp]:
  "hashFunc (reattach ns ht) = hashFunc ht" "m_options (reattach ns ht) = m_options ht"
  "m_size (reattach ns ht) = m_size ht" "getNBuckets (reattach ns ht) = getNBuckets ht"
  by (induction ns arbitrary: ht) auto

lemma nodes_reattach:
  "0 < getNBuckets ht \<Longrightarrow> mset (nodes (reattach ns ht)) = mset ns + mset (nodes ht)"
  by (induction ns arbitrary: ht) (auto simp: nodes_attach)

lemma placed_reattach:
  "placed ht \<Longrightarrow> 0 < getNBuckets ht \<Longrightarrow>
   \<forall>node\<in>set ns. hash node = computeHash (hashFunc ht) (node_name node) (length (node_name node)) \<Longrightarrow>
   placed (reattach ns ht)"
proof (induction ns arbitrary: ht)
  case (Cons node ns)
  have "placed (attach (computeBucketIndex ht (hash node)) node ht)"
    using Cons.prems by (intro placed_attach) simp_all
  then have "placed (reattach ns (attach (computeBucketIndex ht (hash node)) node ht))"
    by (rule Cons.IH) (use Cons.prems in simp_all)
  then show ?case by simp
qed simp

lemma resize_fields [simp]:
  "hashFunc (resize n ht) = hashFunc ht" "m_options (resize n ht) = m_options ht"
  "m_size (resize n ht) = m_size ht"
  by (simp_all add: resize_def)

lemma getNBuckets_resize [simp]: "getNBuckets (resize n ht) = n"
  by (auto simp: resize_def getNBuckets_def [of "_\<lparr>m_buckets := _\<rparr>"])

lemma nodes_empty [simp]: "nodes (ht\<lparr>m_buckets := replicate n []\<rparr>) = []"
  by (simp add: nodes_def)

lemma nodes_resize: "0 < n \<Longrightarrow> mset (nodes (resize n ht)) = mset (nodes ht)"
  by (simp add: resize_def nodes_reattach getNBuckets_def [of "_\<lparr>m_buckets := _\<rparr>"] nodes_def [symmetric])

lemma placed_resize: "placed ht \<Longrightarrow> 0 < n \<Longrightarrow> placed (resize n ht)"
proof -
  assume p: "placed ht" and n: "0 < n"
  let ?e = "ht\<lparr>m_buckets := replicate n []\<rparr>"
  have "placed ?e" by (simp add: placed_def getNBuckets_def)
  moreover have "\<forall>node\<in>set (concat (m_buckets ht)).
      hash node = computeHash (hashFunc ?e) (node_name node) (length (node_name node))"
    using placed_hash(1) [OF p] by (simp add: nodes_def)
  ultimately have "placed (reattach (concat (m_buckets ht)) ?e)"
    using n by (intro placed_reattach) (auto simp: getNBuckets_def)
  then show ?thesis
    using p by (simp add: resize_def placed_cong [of "computeThresholds _"])
qed

lemma resize_wf:
  assumes "ht_wf ht" and "0 < n"
  shows "ht_wf (resize n ht)" and "entry_at (resize n ht) = entry_at ht"
  using assms entry_at_mset [OF _ nodes_resize [OF assms(2)]] nodes_resize [OF assms(2), of ht, THEN mset_eq_length]
  by (auto simp: ht_wf_def placed_resize)

lemma expand_size_pos:
  assumes "options_ok opt" and "0 < n"
  shows "0 < to_size (float32 (expandFactor opt * float32 (of_nat n)))"
proof (rule to_size_pos)
  have one: "float32 1 = 1" using fround_of_nat [of 1 24] by simp
  have "1 \<le> float32 (of_nat n)" using fround_mono [of 1 "of_nat n" 24] assms(2) one by simp
  then have "1 * 1 \<le> expandFactor opt * float32 (of_nat n)"
    using assms(1) by (intro mult_mono) (auto simp: options_ok_def)
  then show "1 \<le> float32 (expandFactor opt * float32 (of_nat n))"
    using fround_mono [of 1 _ 24] one by simp
qed

subsection \<open>The operations refine a map\<close>

lemma find_chain:
  assumes "ht_wf ht" and "h = computeHash (hashFunc ht) name k"
  shows "List.find (\<lambda>node. hash node = h \<and> take k name = node_name node) (m_buckets ht ! computeBucketIndex ht h) =
    node_at (take k name) ht"
proof (cases "node_at (take k name) ht")
  case None
  have "\<forall>node\<in>set (m_buckets ht ! computeBucketIndex ht h). node \<in> set (nodes ht)"
    using assms(1) by (auto simp: nodes_def ht_wf_def getNBuckets_def computeBucketIndex_def)
  with None have "List.find (\<lambda>node. hash node = h \<and> take k name = node_name node)
      (m_buckets ht ! computeBucketIndex ht h) = None"
    unfolding node_at_def find_eq_None by metis
  with None show ?thesis by simp
next
  case (Some node)
  then have n: "node \<in> set (nodes ht)" "node_name node = take k name"
    using assms(1) by (simp_all add: node_at_iff)
  have p: "placed ht" using assms(1) by (simp add: ht_wf_def)
  have h: "hash node = h" using placed_hash(1) [OF p n(1)] n(2) assms(2) by simp
  let ?c = "m_buckets ht ! computeBucketIndex ht h"
  let ?f = "List.find (\<lambda>node. hash node = h \<and> take k name = node_name node) ?c"
  have "node \<in> set ?c" using placed_hash(2) [OF p n(1)] h by simp
  then have "?f \<noteq> None" using h n(2) by (auto simp: find_eq_None)
  then obtain node' where f: "?f = Some node'" by auto
  then have "node' \<in> set ?c" "node_name node' = take k name" using find_SomeD [OF f] by auto
  then have "node_at (take k name) ht = Some node'"
    using assms(1) by (auto simp: node_at_iff nodes_def getNBuckets_def ht_wf_def computeBucketIndex_def)
  with f show ?thesis by simp
qed

lemma vec_get_bucket: "ht_wf ht \<Longrightarrow> vec_get (m_buckets ht) (computeBucketIndex ht h) = Some (m_buckets ht ! computeBucketIndex ht h)"
  by (simp add: ht_wf_def vec_get_def flip: getNBuckets_def)

lemma findOrInsert_present:
  assumes "ht_wf ht" and "entry_at ht (take k name) = Some e"
  shows "findOrInsert name k (computeHash (hashFunc ht) name k) b ht = Some (ht, Some (take k name), False)"
proof -
  obtain node where "node_at (take k name) ht = Some node" using assms(2) by (auto simp: entry_at_def)
  moreover from this have "node_name node = take k name" using assms(1) by (simp add: node_at_iff)
  ultimately show ?thesis
    using assms(1) by (simp add: findOrInsert_def find_chain vec_get_bucket Let_def)
qed

lemma findOrInsert_absent:
  assumes "ht_wf ht" and "entry_at ht (take k name) = None"
  shows "findOrInsert name k (computeHash (hashFunc ht) name k) False ht = Some (ht, None, False)"
  using assms by (simp add: findOrInsert_def find_chain vec_get_bucket Let_def entry_at_def)

lemma attach_wf:
  assumes "ht_wf ht" and "node_name node \<notin> node_name ` set (nodes ht)"
    and "hash node = computeHash (hashFunc ht) (node_name node) (length (node_name node))"
  defines "ht' \<equiv> attach (computeBucketIndex ht (hash node)) node ht\<lparr>m_size := m_size ht + 1\<rparr>"
  shows "ht_wf ht'" and "entry_at ht' = (entry_at ht)(node_name node \<mapsto> entry node)"
    and "length (nodes ht') = Suc (length (nodes ht))"
proof -
  have m: "mset (nodes ht') = add_mset node (mset (nodes ht))"
    using assms(1) by (simp add: ht'_def nodes_attach ht_wf_def)
  have "mset (map node_name (nodes ht')) = add_mset (node_name node) (mset (map node_name (nodes ht)))"
    using m by simp
  then have "mset (map node_name (nodes ht')) = mset (node_name node # map node_name (nodes ht))"
    by simp
  then have d: "distinct (map node_name (nodes ht'))"
    using mset_eq_imp_distinct_iff assms(1,2) by (fastforce simp: ht_wf_def)
  have p: "placed ht'"
    using placed_attach [OF _ assms(3)] assms(1) by (simp add: ht'_def ht_wf_def placed_cong [of "_\<lparr>m_size := _\<rparr>"])
  show len: "length (nodes ht') = Suc (length (nodes ht))"
    using m by (metis size_mset size_add_mset)
  show "ht_wf ht'" using assms(1) d p len by (simp add: ht'_def ht_wf_def)
  have s: "set (nodes ht') = insert node (set (nodes ht))"
    using m by (metis set_mset_mset set_mset_add_mset_insert)
  have "entry_at ht' n = Some e \<longleftrightarrow> ((entry_at ht)(node_name node \<mapsto> entry node)) n = Some e" for n e
    using assms(1,2) by (auto simp: entry_at_iff [OF d] s entry_at_iff ht_wf_def image_iff)
  then show "entry_at ht' = (entry_at ht)(node_name node \<mapsto> entry node)" by (metis option.exhaust ext)
qed

lemma findOrInsert_insert:
  assumes "ht_wf ht" and "entry_at ht (take k name) = None" and "length (take k name) \<le> getMaxDepth"
  obtains ht' where
    "findOrInsert name k (computeHash (hashFunc ht) name k) True ht = Some (ht', Some (take k name), True)"
    and "ht_wf ht'" and "entry_at ht' = (entry_at ht)(take k name \<mapsto> fresh_entry (take k name))"
    and "hashFunc ht' = hashFunc ht" and "m_options ht' = m_options ht"
proof -
  let ?h = "computeHash (hashFunc ht) name k" and ?p = "take k name"
  let ?node = "\<lparr>hash = ?h, entry = fresh_entry ?p\<rparr>"
  let ?a = "attach (computeBucketIndex ht ?h) ?node ht\<lparr>m_size := m_size ht + 1\<rparr>"
  have nn: "node_name ?node = ?p" by (simp add: fresh_entry_def)
  have "?p \<notin> node_name ` set (nodes ht)" using assms(2) by (simp add: entry_at_None)
  then have w: "ht_wf ?a" "entry_at ?a = (entry_at ht)(?p \<mapsto> fresh_entry ?p)"
    using attach_wf [OF assms(1), of ?node] unfolding nn by simp_all
  let ?n = "to_size (float32 (expandFactor (m_options ht) * float32 (of_nat (getNBuckets ht))))"
  have n: "0 < ?n" using assms(1) by (auto simp: ht_wf_def intro: expand_size_pos)
  let ?r = "if m_size ?a > m_expandThreshold ?a then resize ?n ?a else ?a"
  have "findOrInsert name k ?h True ht = Some (?r, Some ?p, True)"
    using assms by (simp add: findOrInsert_def find_chain vec_get_bucket Let_def entry_at_def Entry_def)
  moreover have "ht_wf ?r" "entry_at ?r = (entry_at ht)(?p \<mapsto> fresh_entry ?p)"
    using w resize_wf [OF w(1) n] by (simp_all split: if_splits)
  ultimately show ?thesis using that [of ?r] by simp
qed

lemma ht_find_spec:
  "ht_wf ht \<Longrightarrow> ht_find ht name k = Some (if entry_at ht (take k name) = None then None else Some (take k name))"
  by (auto simp: ht_find_def findOrInsert_present findOrInsert_absent)

lemma ht_find_hashes_spec:
  "ht_wf ht \<Longrightarrow> i \<le> k \<Longrightarrow> i \<le> length name \<Longrightarrow>
   ht_find_hashes ht name i (computeHashes (hashFunc ht) name k) = ht_find ht name i"
  by (simp add: ht_find_hashes_def ht_find_def)

lemma placed_shrink:
  assumes "placed ht" and "set xs \<subseteq> set (m_buckets ht ! b)"
  shows "placed (ht\<lparr>m_buckets := (m_buckets ht)[b := xs], m_size := k\<rparr>)"
  unfolding placed_def
proof (intro allI impI ballI)
  fix i node
  let ?ht = "ht\<lparr>m_buckets := (m_buckets ht)[b := xs], m_size := k\<rparr>"
  assume "i < getNBuckets ?ht" and n: "node \<in> set (m_buckets ?ht ! i)"
  then have i: "i < getNBuckets ht" by (simp add: getNBuckets_def)
  moreover have "node \<in> set (m_buckets ht ! i)"
    using n i assms(2) by (cases "i = b") (auto simp: getNBuckets_def)
  ultimately have "hash node = computeHash (hashFunc ht) (node_name node) (length (node_name node)) \<and>
      computeBucketIndex ht (hash node) = i"
    using assms(1) unfolding placed_def by blast
  then show "hash node = computeHash (hashFunc ?ht) (node_name node) (length (node_name node)) \<and>
      computeBucketIndex ?ht (hash node) = i"
    by (auto simp: computeBucketIndex_def getNBuckets_def)
qed

lemma nodes_modify:
  "nodes (modify n f ht) = map (\<lambda>node. if node_name node = n then node\<lparr>entry := f (entry node)\<rparr> else node) (nodes ht)"
  by (simp add: nodes_def modify_def map_concat)

lemma modify_fields [simp]:
  "hashFunc (modify n f ht) = hashFunc ht" "m_options (modify n f ht) = m_options ht"
  "m_size (modify n f ht) = m_size ht" "getNBuckets (modify n f ht) = getNBuckets ht"
  "computeBucketIndex (modify n f ht) h = computeBucketIndex ht h"
  by (simp_all add: modify_def getNBuckets_def computeBucketIndex_def)

lemma modify_wf:
  assumes "ht_wf ht" and "\<And>e. m_name (f e) = m_name e"
  shows "ht_wf (modify n f ht)" and "entry_at (modify n f ht) = (entry_at ht)(n := map_option f (entry_at ht n))"
proof -
  have m: "map node_name (nodes (modify n f ht)) = map node_name (nodes ht)"
    using assms(2) by (simp add: nodes_modify)
  then have d: "distinct (map node_name (nodes (modify n f ht)))"
    using assms(1) by (simp add: ht_wf_def)
  have "placed (modify n f ht)"
    unfolding placed_def
  proof (intro allI impI ballI)
    fix i x
    assume i: "i < getNBuckets (modify n f ht)" and x: "x \<in> set (m_buckets (modify n f ht) ! i)"
    then obtain y where y: "y \<in> set (m_buckets ht ! i)" "hash x = hash y" "node_name x = node_name y"
      using assms(2) by (auto simp: modify_def getNBuckets_def)
    moreover from i have "i < getNBuckets ht" by simp
    ultimately have "hash y = computeHash (hashFunc ht) (node_name y) (length (node_name y)) \<and>
        computeBucketIndex ht (hash y) = i"
      using assms(1) unfolding ht_wf_def placed_def by blast
    then show "hash x = computeHash (hashFunc (modify n f ht)) (node_name x) (length (node_name x)) \<and>
        computeBucketIndex (modify n f ht) (hash x) = i"
      using y by auto
  qed
  with assms(1) d show "ht_wf (modify n f ht)" by (simp add: ht_wf_def nodes_modify)
  show "entry_at (modify n f ht) = (entry_at ht)(n := map_option f (entry_at ht n))"
  proof
    fix k
    let ?g = "\<lambda>node. if node_name node = n then node\<lparr>entry := f (entry node)\<rparr> else node"
    have "(\<lambda>x. node_name x = k) \<circ> ?g = (\<lambda>x. node_name x = k)" using assms(2) by (auto simp: fun_eq_iff)
    then have "node_at k (modify n f ht) = map_option ?g (node_at k ht)"
      by (simp add: node_at_def nodes_modify find_map)
    moreover have "node_at k ht = Some x \<Longrightarrow> node_name x = k" for x
      by (auto simp: node_at_def dest: find_SomeD)
    ultimately show "entry_at (modify n f ht) k = ((entry_at ht)(n := map_option f (entry_at ht n))) k"
      by (cases "node_at k ht") (auto simp: entry_at_def)
  qed
qed

lemma entry_at_remove:
  assumes "add_mset node (mset (nodes ht')) = mset (nodes ht)" and "distinct (map node_name (nodes ht))"
  shows "distinct (map node_name (nodes ht'))" and "entry_at ht' = (entry_at ht)(node_name node := None)"
    and "length (nodes ht) = Suc (length (nodes ht'))"
proof -
  have "mset (node_name node # map node_name (nodes ht')) = mset (map node_name (nodes ht))"
    by (simp flip: assms(1))
  from mset_eq_imp_distinct_iff [OF this] have d: "distinct (node_name node # map node_name (nodes ht'))"
    using assms(2) by simp
  then show ds: "distinct (map node_name (nodes ht'))" by simp
  show "length (nodes ht) = Suc (length (nodes ht'))"
    using assms(1) by (metis size_mset size_add_mset)
  have s: "set (nodes ht) = insert node (set (nodes ht'))"
    using assms(1) by (metis set_mset_mset set_mset_add_mset_insert)
  have "\<forall>x\<in>set (nodes ht'). node_name x \<noteq> node_name node" using d by (auto simp: image_iff)
  then have "entry_at ht' k = Some x \<longleftrightarrow> ((entry_at ht)(node_name node := None)) k = Some x" for k x
    unfolding fun_upd_apply entry_at_iff [OF ds] by (auto simp: entry_at_iff [OF assms(2)] s)
  then show "entry_at ht' = (entry_at ht)(node_name node := None)" by (metis option.exhaust ext)
qed

lemma ht_erase_wf:
  assumes "ht_wf ht" and "entry_at ht n = Some e" and "m_parent e = None"
  obtains ht' where "ht_erase n ht = Some ht'" and "ht_wf ht'" and "entry_at ht' = (entry_at ht)(n := None)"
    and "hashFunc ht' = hashFunc ht" and "m_options ht' = m_options ht"
proof -
  obtain node where node: "node_at n ht = Some node" "entry node = e" using assms(2) by (auto simp: entry_at_def)
  then have n: "node \<in> set (nodes ht)" "node_name node = n" using assms(1) by (simp_all add: node_at_iff)
  let ?b = "computeBucketIndex ht (hash node)"
  let ?c = "m_buckets ht ! ?b"
  have b: "?b < length (m_buckets ht)" using assms(1) by (simp add: ht_wf_def flip: getNBuckets_def)
  have p: "placed ht" using assms(1) by (simp add: ht_wf_def)
  have c: "node \<in> set ?c" by (rule placed_hash(2) [OF p n(1)])
  then have chain: "n \<in> node_name ` set ?c" using n(2) by blast
  let ?d = "ht\<lparr>m_buckets := (m_buckets ht)[?b := erase_first (\<lambda>node. node_name node = n) ?c]\<rparr>"
  let ?s = "?d\<lparr>m_size := m_size ht - 1\<rparr>"
  obtain node' where f: "List.find (\<lambda>node. node_name node = n) ?c = Some node'"
    using c n(2) by (cases "List.find (\<lambda>node. node_name node = n) ?c") (auto simp: find_eq_None)
  have "node' \<in> set (nodes ht) \<and> node_name node' = n"
    using find_SomeD [OF f] b nth_mem by (fastforce simp: nodes_def)
  then have "node_at n ht = Some node'" using assms(1) by (simp add: node_at_iff)
  with node(1) have "node' = node" by simp
  then have m: "add_mset node (mset (nodes ?s)) = mset (nodes ht)"
    using mset_concat_detach [OF b f] by (simp add: nodes_def)
  have dh: "distinct (map node_name (nodes ht))" using assms(1) by (simp add: ht_wf_def)
  note r = entry_at_remove [OF m dh, unfolded n(2)]
  have "placed ?s" by (rule placed_shrink [OF p set_erase_first])
  moreover have "m_size ?s = length (nodes ?s)"
    using assms(1) r(3) by (simp only: ht_wf_def) simp
  ultimately have w: "ht_wf ?s" using assms(1) r(1) unfolding ht_wf_def getNBuckets_def by auto
  note e = r(2)
  let ?n = "max (minSize (m_options ht)) (to_size (float32 (shrinkFactor (m_options ht) * float32 (of_nat (getNBuckets ht)))))"
  have pos: "0 < ?n" using assms(1) unfolding ht_wf_def options_ok_def less_max_iff_disj by blast
  let ?r = "if m_size ?s < m_shrinkThreshold ?s then resize ?n ?s else ?s"
  have "ht_erase n ht = Some ?r"
    using node assms(3) b chain by (simp add: ht_erase_def detach_def Let_def getNBuckets_def)
  moreover have "ht_wf ?r" "entry_at ?r = (entry_at ht)(n := None)"
    using w e resize_wf [OF w pos] by simp_all
  ultimately show ?thesis using that [of ?r] by simp
qed

lemma Hashtable_wf:
  assumes "options_ok opt"
  obtains ht :: "('f, 'm, 's) hashtable" where "Hashtable H opt = Some ht" and "ht_wf ht"
    and "entry_at ht = (\<lambda>n. None)" and "hashFunc ht = H"
proof -
  let ?h = "\<lparr>hashFunc = H, m_buckets = replicate (initialSize opt) [], m_options = opt, m_size = 0,
    m_expandThreshold = 0, m_shrinkThreshold = 0\<rparr> :: ('f, 'm, 's) hashtable"
  have "Hashtable H opt = Some (computeThresholds ?h)" using assms by (simp add: Hashtable_def)
  moreover have "ht_wf (computeThresholds ?h)"
    using assms by (auto simp: ht_wf_def placed_def getNBuckets_def nodes_def options_ok_def)
  moreover have "entry_at (computeThresholds ?h) = (\<lambda>n. None)"
    by (auto simp: entry_at_def node_at_def nodes_def)
  ultimately show ?thesis using that by simp
qed

lemma ht_insert_spec:
  assumes "ht_wf ht" and "i \<le> k" and "i \<le> length name" and "i \<le> getMaxDepth"
  obtains ht' where
    "ht_insert name i (computeHashes (hashFunc ht) name k) ht = Some (ht', Some (take i name), entry_at ht (take i name) = None)"
    and "ht_wf ht'" and "hashFunc ht' = hashFunc ht" and "m_options ht' = m_options ht"
    and "entry_at ht' = (if entry_at ht (take i name) = None
      then (entry_at ht)(take i name \<mapsto> fresh_entry (take i name)) else entry_at ht)"
proof (cases "entry_at ht (take i name)")
  case None
  have len: "length (take i name) \<le> getMaxDepth" using assms(4) by simp
  show ?thesis
    using findOrInsert_insert [OF assms(1) None len] that None assms(2,3) by (auto simp: ht_insert_def)
next
  case (Some e)
  then show ?thesis
    using findOrInsert_present [OF assms(1) Some] that [of ht] assms by (simp add: ht_insert_def)
qed

lemma options_ok_new: "0 < n \<Longrightarrow> options_ok (HashtableOptions_new n)"
  by (simp add: options_ok_def HashtableOptions_new_def fround_eval)

text \<open>C18: the hashtable refines a map from names to entries, whatever the hash function: on a
  well-formed table finding a prefix finds exactly a stored name; inserting a prefix returns
  it, reports whether it was absent, and adds only a fresh entry for it; erasing a stored
  name without parent removes only that name. Insertion and erasure keep the table
  well formed, also when they resize it.\<close>

theorem hashtable_refines_map:
  assumes "ht_wf ht" and "k \<le> length name" and "k \<le> getMaxDepth"
  defines "p \<equiv> take k name" and "hs \<equiv> computeHashes (hashFunc ht) name (length name)"
  shows "ht_find ht name k = Some (if entry_at ht p = None then None else Some p) \<and>
    ht_find_hashes ht name k hs = ht_find ht name k \<and>
    (\<exists>ht'. ht_insert name k hs ht = Some (ht', Some p, entry_at ht p = None) \<and> ht_wf ht' \<and>
       entry_at ht' = (if entry_at ht p = None then (entry_at ht)(p \<mapsto> fresh_entry p) else entry_at ht)) \<and>
    (\<forall>e. entry_at ht p = Some e \<and> m_parent e = None \<longrightarrow>
       (\<exists>ht'. ht_erase p ht = Some ht' \<and> ht_wf ht' \<and> entry_at ht' = (entry_at ht)(p := None)))"
proof (intro conjI allI impI)
  show "ht_find ht name k = Some (if entry_at ht p = None then None else Some p)"
    using assms(1) by (simp add: p_def ht_find_spec)
  show "ht_find_hashes ht name k hs = ht_find ht name k"
    using assms by (simp add: ht_find_hashes_spec)
  show "\<exists>ht'. ht_insert name k hs ht = Some (ht', Some p, entry_at ht p = None) \<and> ht_wf ht' \<and>
       entry_at ht' = (if entry_at ht p = None then (entry_at ht)(p \<mapsto> fresh_entry p) else entry_at ht)"
    unfolding p_def hs_def using ht_insert_spec [OF assms(1,2,2,3)] by metis
next
  fix e assume "entry_at ht p = Some e \<and> m_parent e = None"
  then show "\<exists>ht'. ht_erase p ht = Some ht' \<and> ht_wf ht' \<and> entry_at ht' = (entry_at ht)(p := None)"
    using ht_erase_wf [OF assms(1)] by metis
qed

theorem hashtable_refines_map_witness:
  "\<exists>(ht :: (unit, unit, unit) hashtable) ht'. Hashtable (\<lambda>c. 0) (HashtableOptions_new 16) = Some ht \<and>
     ht_insert [Generic ''a'', Generic ''b''] 1 (computeHashes (\<lambda>c. 0) [Generic ''a'', Generic ''b''] 2) ht = Some (ht', Some [Generic ''a''], True) \<and>
     entry_at ht' [Generic ''a''] = Some (fresh_entry [Generic ''a''])"
proof -
  obtain ht :: "(unit, unit, unit) hashtable" where ht:
    "Hashtable (\<lambda>c. 0) (HashtableOptions_new 16) = Some ht" "ht_wf ht" "entry_at ht = (\<lambda>n. None)" "hashFunc ht = (\<lambda>c. 0)"
    using Hashtable_wf [of "HashtableOptions_new 16"] options_ok_new by (metis zero_less_numeral)
  then show ?thesis
    using hashtable_refines_map [OF ht(2), of 1 "[Generic ''a'', Generic ''b'']"]
    by (auto simp: getMaxDepth_def FIB_MAX_DEPTH_def numeral_2_eq_2)
qed

end
