(* ===== verification/Name_Tree.thy ===== *)
theory Name_Tree
  imports Name_Tree_Hashtable
begin

text \<open>
  \<^verbatim>\<open>daemon/table/name-tree.{hpp,cpp}\<close> and \<^verbatim>\<open>daemon/table/name-tree-iterator.{hpp,cpp}\<close>: the tree of
  names over the hashtable, which the FIB, PIT, strategy choice table and measurements
  table attach their entries to.

  The state is the hashtable.  Operations that walk pointers of unknown length (the walk to
  the root, the iteration of a range) are partial functions to option.

  The lemmas: every operation keeps the tree well formed (ancestors exist, parent and
  children agree with the names); what is attached to names is unchanged by the creation
  and the removal of empty entries; the three ways to find the longest prefix match compute
  the same function, \<open>lpm\<close>; full enumeration visits every selected entry once.  The locale
  \<open>nt_field\<close> gives these facts for one attached field and is interpreted for the four tables.
\<close>

type_synonym ('f, 'm, 's) name_tree = "('f, 'm, 's) hashtable"

definition NameTree :: "(component \<Rightarrow> HashValue) \<Rightarrow> nat \<Rightarrow> ('f, 'm, 's) name_tree option" where
  "NameTree H nBuckets = Hashtable H (HashtableOptions_new nBuckets)"

subsection \<open>Entries and their parents\<close>

definition setParent :: "name \<Rightarrow> name \<Rightarrow> ('f, 'm, 's) name_tree \<Rightarrow> ('f, 'm, 's) name_tree option" where
  "setParent this p nt = do {
     e \<leftarrow> entry_at nt this;
     pe \<leftarrow> entry_at nt p;
     assert (m_parent e = None);
     assert (m_name e \<noteq> []);
     assert (m_name pe = butlast (m_name e));
     let nt = modify this (m_parent_update (\<lambda>_. Some p)) nt;
     Some (modify p (m_children_update (\<lambda>cs. cs @ [this])) nt)
   }"

definition unsetParent :: "name \<Rightarrow> ('f, 'm, 's) name_tree \<Rightarrow> ('f, 'm, 's) name_tree option" where
  "unsetParent this nt = do {
     e \<leftarrow> entry_at nt this;
     p \<leftarrow> m_parent e;
     pe \<leftarrow> entry_at nt p;
     assert (this \<in> set (m_children pe));
     let nt = modify p (m_children_update (erase_first (\<lambda>c. c = this))) nt;
     Some (modify this (m_parent_update (\<lambda>_. None)) nt)
   }"

subsection \<open>Mutation\<close>

fun lookup_loop :: "name \<Rightarrow> HashValue list \<Rightarrow> nat list \<Rightarrow> name option \<Rightarrow> ('f, 'm, 's) name_tree \<Rightarrow>
    (('f, 'm, 's) name_tree \<times> name option) option" where
  "lookup_loop name hashes [] parent nt = Some (nt, parent)"
| "lookup_loop name hashes (i # is) parent nt = do {
     (nt, node, isNew) \<leftarrow> ht_insert name i hashes nt;
     n \<leftarrow> node;
     nt \<leftarrow> (case parent of
         Some p \<Rightarrow> if isNew then setParent n p nt else Some nt
       | None \<Rightarrow> Some nt);
     lookup_loop name hashes is (Some n) nt
   }"

definition lookup :: "name \<Rightarrow> nat \<Rightarrow> ('f, 'm, 's) name_tree \<Rightarrow> (('f, 'm, 's) name_tree \<times> name) option" where
  "lookup name prefixLen nt = do {
     assert (prefixLen \<le> length name);
     assert (prefixLen \<le> getMaxDepth);
     let hashes = computeHashes (hashFunc nt) name prefixLen;
     (nt, node) \<leftarrow> lookup_loop name hashes [0..<Suc prefixLen] None nt;
     n \<leftarrow> node;
     Some (nt, n)
   }"

text \<open>
  Removal of empty entries towards the root.  Every iteration removes a node, so the loop
  ends on every table.
\<close>

lemma length_nodes_attach: "length (nodes (attach b node nt)) \<le> Suc (length (nodes nt))"
proof (cases "b < getNBuckets nt")
  case True
  then show ?thesis using nodes_attach [of b nt node] by (metis size_mset size_add_mset order_refl)
next
  case False
  then show ?thesis by (simp add: nodes_def attach_def getNBuckets_def not_less list_update_beyond)
qed

lemma length_nodes_reattach: "length (nodes (reattach ns nt)) \<le> length ns + length (nodes nt)"
proof (induction ns arbitrary: nt)
  case (Cons node ns)
  show ?case
    using Cons.IH [of "attach (computeBucketIndex nt (hash node)) node nt"]
      length_nodes_attach [of "computeBucketIndex nt (hash node)" node nt] by simp
qed simp

lemma length_nodes_resize: "length (nodes (resize n nt)) \<le> length (nodes nt)"
  using length_nodes_reattach [of "concat (m_buckets nt)" "nt\<lparr>m_buckets := replicate n []\<rparr>"]
  by (simp add: resize_def nodes_def [of nt])

lemma ht_erase_nodes:
  assumes "ht_erase n nt = Some nt'"
  shows "length (nodes nt') < length (nodes nt)"
proof -
  from assms obtain node chain where node: "node_at n nt = Some node"
    and chain: "vec_get (m_buckets nt) (computeBucketIndex nt (hash node)) = Some chain" "n \<in> node_name ` set chain"
    and nt': "nt' = (let d = nt\<lparr>m_buckets := (m_buckets nt)[computeBucketIndex nt (hash node) :=
        erase_first (\<lambda>x. node_name x = n) chain], m_size := m_size nt - 1\<rparr>
      in if m_size d < m_shrinkThreshold d
         then resize (max (minSize (m_options d)) (to_size (float32 (shrinkFactor (m_options d) * float32 (of_nat (getNBuckets d)))))) d
         else d)"
    by (auto simp: ht_erase_def detach_def Let_def split: bind_splits)
  let ?b = "computeBucketIndex nt (hash node)"
  let ?d = "nt\<lparr>m_buckets := (m_buckets nt)[?b := erase_first (\<lambda>x. node_name x = n) chain], m_size := m_size nt - 1\<rparr>"
  have b: "?b < length (m_buckets nt)" "m_buckets nt ! ?b = chain" using chain(1) by (auto simp: vec_get_eq_Some)
  obtain x where x: "List.find (\<lambda>x. node_name x = n) chain = Some x"
    using chain(2) by (cases "List.find (\<lambda>x. node_name x = n) chain") (auto simp: find_eq_None)
  have "add_mset x (mset (nodes ?d)) = mset (nodes nt)"
    using mset_concat_detach [of ?b "m_buckets nt", OF b(1)] x b(2) by (simp add: nodes_def)
  then have "length (nodes ?d) < length (nodes nt)" by (metis size_mset size_add_mset lessI)
  then show ?thesis
    unfolding nt' Let_def using length_nodes_resize [of _ ?d] by (auto intro: le_less_trans)
qed

lemma length_nodes_modify [simp]: "length (nodes (modify n f nt)) = length (nodes nt)"
  by (simp add: nodes_modify)

lemma unsetParent_nodes: "unsetParent n nt = Some nt' \<Longrightarrow> length (nodes nt') = length (nodes nt)"
  by (auto simp: unsetParent_def Let_def split: bind_splits)

lemma bind_option_cong [fundef_cong]:
  "x = y \<Longrightarrow> (\<And>a. y = Some a \<Longrightarrow> f a = g a) \<Longrightarrow> Option.bind x f = Option.bind y g"
  by (cases y) auto

function erase_loop :: "bool \<Rightarrow> name \<Rightarrow> ('f, 'm, 's) name_tree \<Rightarrow> (('f, 'm, 's) name_tree \<times> nat) option" where
  "erase_loop canEraseAncestors n nt = do {
     e \<leftarrow> entry_at nt n;
     if \<not> isEmpty e then Some (nt, 0)
     else do {
       nt1 \<leftarrow> (if m_parent e \<noteq> None then unsetParent n nt else Some nt);
       nt2 \<leftarrow> ht_erase n nt1;
       if \<not> canEraseAncestors then Some (nt2, 1)
       else (case m_parent e of
           None \<Rightarrow> Some (nt2, 1)
         | Some p \<Rightarrow> do {
             (nt3, nErased) \<leftarrow> erase_loop canEraseAncestors p nt2;
             Some (nt3, nErased + 1)
           })
     }
   }"
  by pat_completeness auto
termination
  by (relation "measure (\<lambda>(_, _, nt). length (nodes nt))")
    (auto dest!: ht_erase_nodes unsetParent_nodes split: if_splits)

declare erase_loop.simps [simp del]

definition eraseIfEmpty :: "name \<Rightarrow> bool \<Rightarrow> ('f, 'm, 's) name_tree \<Rightarrow> (('f, 'm, 's) name_tree \<times> nat) option" where
  "eraseIfEmpty n canEraseAncestors nt = erase_loop canEraseAncestors n nt"

subsection \<open>Matching\<close>

definition findExactMatch :: "('f, 'm, 's) name_tree \<Rightarrow> name \<Rightarrow> nat \<Rightarrow> name option option" where
  "findExactMatch nt name prefixLen =
     (let prefixLen = min (length name) prefixLen
      in if prefixLen > getMaxDepth then Some None else ht_find nt name prefixLen)"

fun lpm_loop :: "('f, 'm, 's) name_tree \<Rightarrow> (('f, 'm, 's) nt_entry \<Rightarrow> bool) \<Rightarrow> name \<Rightarrow> HashValue list \<Rightarrow> nat \<Rightarrow>
    name option option" where
  "lpm_loop nt sel name hashes i = do {
     node \<leftarrow> ht_find_hashes nt name i hashes;
     hit \<leftarrow> (case node of None \<Rightarrow> Some False | Some n \<Rightarrow> map_option sel (entry_at nt n));
     if hit then Some node
     else (case i of 0 \<Rightarrow> Some None | Suc j \<Rightarrow> lpm_loop nt sel name hashes j)
   }"

declare lpm_loop.simps [simp del]

definition findLongestPrefixMatch :: "('f, 'm, 's) name_tree \<Rightarrow> name \<Rightarrow> (('f, 'm, 's) nt_entry \<Rightarrow> bool) \<Rightarrow>
    name option option" where
  "findLongestPrefixMatch nt name sel =
     (let depth = min (length name) getMaxDepth
      in lpm_loop nt sel name (computeHashes (hashFunc nt) name depth) depth)"

text \<open>The overload that starts at an entry and follows the parent pointers.\<close>

partial_function (option) lpm_up :: "('f, 'm, 's) name_tree \<Rightarrow> (('f, 'm, 's) nt_entry \<Rightarrow> bool) \<Rightarrow> name option \<Rightarrow>
    name option option" where
  "lpm_up nt sel cur =
     (case cur of
        None \<Rightarrow> Some None
      | Some n \<Rightarrow> Option.bind (entry_at nt n)
          (\<lambda>e. if sel e then Some (Some n) else lpm_up nt sel (m_parent e)))"

definition findLongestPrefixMatch_entry :: "('f, 'm, 's) name_tree \<Rightarrow> name \<Rightarrow> (('f, 'm, 's) nt_entry \<Rightarrow> bool) \<Rightarrow>
    name option option" where
  "findLongestPrefixMatch_entry nt n sel = lpm_up nt sel (Some n)"

text \<open>
  The overload for a PIT entry of the given name, attached to the entry \<open>nte\<close>: the loop goes
  deeper as long as an entry exists.
\<close>

fun deeper_loop :: "('f, 'm, 's) name_tree \<Rightarrow> name \<Rightarrow> nat list \<Rightarrow> name \<Rightarrow> name option" where
  "deeper_loop nt name [] nte = Some nte"
| "deeper_loop nt name (i # is) nte = do {
     exact \<leftarrow> findExactMatch nt name i;
     case exact of None \<Rightarrow> Some nte | Some n \<Rightarrow> deeper_loop nt name is n
   }"

definition findLongestPrefixMatch_pit :: "('f, 'm, 's) name_tree \<Rightarrow> name \<Rightarrow> name option \<Rightarrow>
    (('f, 'm, 's) nt_entry \<Rightarrow> bool) \<Rightarrow> name option option" where
  "findLongestPrefixMatch_pit nt name nte sel = do {
     nte \<leftarrow> nte;
     let depth = min (length name) getMaxDepth;
     nte \<leftarrow> (if length nte < length name
       then deeper_loop nt name [length nte + 1..<Suc depth] nte
       else Some nte);
     findLongestPrefixMatch_entry nt nte sel
   }"

text \<open>
  \<^verbatim>\<open>lookup\<close> of the entry a FIB entry is attached to (none for the empty FIB entry), and of the
  entry for a PIT entry's name.
\<close>

definition lookup_fib :: "name option \<Rightarrow> ('f, 'm, 's) name_tree \<Rightarrow> (('f, 'm, 's) name_tree \<times> name) option" where
  "lookup_fib fibEntry nt = (case fibEntry of
       None \<Rightarrow> lookup [] 0 nt
     | Some n \<Rightarrow> do {
         e \<leftarrow> entry_at nt n;
         assert (m_fibEntry e \<noteq> None);
         Some (nt, n)
       })"

definition lookup_pit :: "pit_ref \<Rightarrow> name \<Rightarrow> name option \<Rightarrow> ('f, 'm, 's) name_tree \<Rightarrow>
    (('f, 'm, 's) name_tree \<times> name) option" where
  "lookup_pit pe name nte nt =
     (if hasDigest name \<and> length name \<le> getMaxDepth then lookup name (length name) nt
      else do {
        n \<leftarrow> nte;
        e \<leftarrow> entry_at nt n;
        assert (count_list (m_pitEntries e) pe = 1);
        Some (nt, n)
      })"

subsection \<open>Enumeration\<close>

record Iterator =
  m_entry :: "name option"
  m_ref :: "name option"
  m_state :: bool

definition Iterator_end :: Iterator where
  "Iterator_end = \<lparr>m_entry = None, m_ref = None, m_state = False\<rparr>"

text \<open>
  \<^verbatim>\<open>FullEnumerationImpl::advance\<close>: after the current entry, first the rest of its bucket, then
  the other buckets.
\<close>

definition full_continue :: "('f, 'm, 's) name_tree \<Rightarrow> (('f, 'm, 's) nt_entry \<Rightarrow> bool) \<Rightarrow> name \<Rightarrow> Iterator \<Rightarrow>
    Iterator option" where
  "full_continue nt pred n i = do {
     node \<leftarrow> node_at n nt;
     let currentBucket = computeBucketIndex nt (hash node);
     chain \<leftarrow> vec_get (m_buckets nt) currentBucket;
     let next = tl (dropWhile (\<lambda>x. node_name x \<noteq> n) chain);
     case List.find (\<lambda>x. pred (entry x)) next of
       Some x \<Rightarrow> Some (i\<lparr>m_entry := Some (node_name x)\<rparr>)
     | None \<Rightarrow> (case List.find (\<lambda>x. pred (entry x)) (concat (drop (currentBucket + 1) (m_buckets nt))) of
           Some x \<Rightarrow> Some (i\<lparr>m_entry := Some (node_name x)\<rparr>)
         | None \<Rightarrow> Some Iterator_end)
   }"

definition FullEnumeration_advance :: "('f, 'm, 's) name_tree \<Rightarrow> (('f, 'm, 's) nt_entry \<Rightarrow> bool) \<Rightarrow> Iterator \<Rightarrow>
    Iterator option" where
  "FullEnumeration_advance nt pred i =
     (case m_entry i of
        None \<Rightarrow> (case List.find (\<lambda>chain. chain \<noteq> []) (m_buckets nt) of
            None \<Rightarrow> Some Iterator_end
          | Some chain \<Rightarrow>
              if pred (entry (hd chain)) then Some (i\<lparr>m_entry := Some (node_name (hd chain))\<rparr>)
              else full_continue nt pred (node_name (hd chain)) i)
      | Some n \<Rightarrow> full_continue nt pred n i)"

definition PrefixMatch_advance :: "('f, 'm, 's) name_tree \<Rightarrow> (('f, 'm, 's) nt_entry \<Rightarrow> bool) \<Rightarrow> Iterator \<Rightarrow>
    Iterator option" where
  "PrefixMatch_advance nt pred i = do {
     start \<leftarrow> (case m_entry i of
         Some n \<Rightarrow> map_option m_parent (entry_at nt n)
       | None \<Rightarrow> Some (m_ref i));
     found \<leftarrow> lpm_up nt pred start;
     Some (case found of None \<Rightarrow> Iterator_end | Some n \<Rightarrow> i\<lparr>m_entry := Some n\<rparr>)
   }"

text \<open>
  \<^verbatim>\<open>PartialEnumerationImpl::advance\<close>: a pre-order walk of the subtree of \<open>ref\<close>.  The inner loop
  goes through the later siblings of an entry; its outcomes are a sibling to visit, a
  sibling whose children are to be processed, and no more siblings.
\<close>

datatype sibling_result = VisitSibling name bool | DescendInto name | NoMoreSibling

fun sibling_loop :: "('f, 'm, 's) name_tree \<Rightarrow> (('f, 'm, 's) nt_entry \<Rightarrow> bool \<times> bool) \<Rightarrow> name list \<Rightarrow>
    sibling_result option" where
  "sibling_loop nt pred [] = Some NoMoreSibling"
| "sibling_loop nt pred (n # siblings) = do {
     e \<leftarrow> entry_at nt n;
     let (wantSelf, wantChildren) = pred e;
     if wantSelf then Some (VisitSibling n wantChildren)
     else if wantChildren then Some (DescendInto n)
     else sibling_loop nt pred siblings
   }"

partial_function (option) partial_loop :: "('f, 'm, 's) name_tree \<Rightarrow> (('f, 'm, 's) nt_entry \<Rightarrow> bool \<times> bool) \<Rightarrow>
    name \<Rightarrow> name \<Rightarrow> bool \<Rightarrow> Iterator option" where
  "partial_loop nt pred ref n wantChildren =
     Option.bind (entry_at nt n) (\<lambda>e.
       if n \<noteq> ref \<or> (wantChildren \<and> hasChildren e) then
         (if wantChildren \<and> hasChildren e then
            Option.bind (entry_at nt (hd (m_children e))) (\<lambda>c.
              if fst (pred c)
              then Some \<lparr>m_entry = Some (hd (m_children e)), m_ref = Some ref, m_state = snd (pred c)\<rparr>
              else partial_loop nt pred ref (hd (m_children e)) (snd (pred c)))
          else
            Option.bind (m_parent e) (\<lambda>p.
            Option.bind (entry_at nt p) (\<lambda>pe.
            Option.bind (assert (n \<in> set (m_children pe))) (\<lambda>_.
            Option.bind (sibling_loop nt pred (tl (dropWhile (\<lambda>c. c \<noteq> n) (m_children pe)))) (\<lambda>r.
              case r of
                VisitSibling s wc \<Rightarrow> Some \<lparr>m_entry = Some s, m_ref = Some ref, m_state = wc\<rparr>
              | DescendInto s \<Rightarrow> partial_loop nt pred ref s True
              | NoMoreSibling \<Rightarrow> partial_loop nt pred ref p False)))))
       else Some Iterator_end)"

definition PartialEnumeration_advance :: "('f, 'm, 's) name_tree \<Rightarrow> (('f, 'm, 's) nt_entry \<Rightarrow> bool \<times> bool) \<Rightarrow>
    Iterator \<Rightarrow> Iterator option" where
  "PartialEnumeration_advance nt pred i =
     (case m_entry i of
        None \<Rightarrow> (case m_ref i of
            None \<Rightarrow> Some Iterator_end
          | Some start \<Rightarrow> do {
              e \<leftarrow> entry_at nt start;
              let (wantSelf, wantChildren) = pred e;
              if wantSelf then Some (i\<lparr>m_entry := Some start, m_state := wantChildren\<rparr>)
              else partial_loop nt pred start start wantChildren
            })
      | Some n \<Rightarrow> do {
          start \<leftarrow> m_ref i;
          partial_loop nt pred start n (m_state i)
        })"

text \<open>A range-based loop: construct the begin iterator, then advance until the end iterator.\<close>

partial_function (option) visit_from :: "(Iterator \<Rightarrow> Iterator option) \<Rightarrow> Iterator \<Rightarrow> name list option" where
  "visit_from advance i =
     (case m_entry i of
        None \<Rightarrow> Some []
      | Some n \<Rightarrow> Option.bind (advance i)
          (\<lambda>i. Option.bind (visit_from advance i) (\<lambda>ns. Some (n # ns))))"

definition visit :: "(Iterator \<Rightarrow> Iterator option) \<Rightarrow> name option \<Rightarrow> name list option" where
  "visit advance ref =
     Option.bind (advance \<lparr>m_entry = None, m_ref = ref, m_state = False\<rparr>) (visit_from advance)"

definition findAllMatches :: "('f, 'm, 's) name_tree \<Rightarrow> name \<Rightarrow> (('f, 'm, 's) nt_entry \<Rightarrow> bool) \<Rightarrow> name list option" where
  "findAllMatches nt name sel = do {
     lpm \<leftarrow> findLongestPrefixMatch nt name sel;
     visit (PrefixMatch_advance nt sel) lpm
   }"

definition partialEnumerate :: "('f, 'm, 's) name_tree \<Rightarrow> name \<Rightarrow> (('f, 'm, 's) nt_entry \<Rightarrow> bool \<times> bool) \<Rightarrow>
    name list option" where
  "partialEnumerate nt prefix_name sel = do {
     start \<leftarrow> findExactMatch nt prefix_name (length prefix_name);
     visit (PartialEnumeration_advance nt sel) start
   }"

definition fullEnumerate :: "('f, 'm, 's) name_tree \<Rightarrow> (('f, 'm, 's) nt_entry \<Rightarrow> bool) \<Rightarrow> name list option" where
  "fullEnumerate nt sel = visit (FullEnumeration_advance nt sel) None"

subsection \<open>Well-formed trees\<close>

text \<open>
  On the abstraction of the table: ancestors exist, the parent pointer of an entry is the
  entry of its name without the last component, and the children are those that say so.
\<close>

definition tree_ok :: "(name \<Rightarrow> ('f, 'm, 's) nt_entry option) \<Rightarrow> bool" where
  "tree_ok M \<longleftrightarrow> (\<forall>n e. M n = Some e \<longrightarrow>
     m_name e = n \<and> length n \<le> getMaxDepth \<and> (n \<noteq> [] \<longrightarrow> M (butlast n) \<noteq> None) \<and>
     m_parent e = (if n = [] then None else Some (butlast n)) \<and>
     distinct (m_children e) \<and> set (m_children e) = {c. c \<noteq> [] \<and> butlast c = n \<and> M c \<noteq> None})"

definition nt_wf :: "('f, 'm, 's) name_tree \<Rightarrow> bool" where
  "nt_wf nt \<longleftrightarrow> ht_wf nt \<and> tree_ok (entry_at nt)"

lemma tree_okD:
  assumes "tree_ok M" and "M n = Some e"
  shows "m_name e = n" and "length n \<le> getMaxDepth" and "n \<noteq> [] \<Longrightarrow> M (butlast n) \<noteq> None"
    and "m_parent e = (if n = [] then None else Some (butlast n))" and "distinct (m_children e)"
    and "set (m_children e) = {c. c \<noteq> [] \<and> butlast c = n \<and> M c \<noteq> None}"
  using assms unfolding tree_ok_def by blast+

lemma tree_ok_prefix:
  assumes "tree_ok M"
  shows "M n \<noteq> None \<Longrightarrow> M (take k n) \<noteq> None"
proof (induction n rule: rev_induct)
  case (snoc x xs)
  then have "M xs \<noteq> None" using tree_okD(3) [OF assms, of "xs @ [x]"] by auto
  with snoc show ?case by (cases "k \<le> length xs") auto
qed simp

text \<open>
  What is attached to a name: the table entries of its entry, or nothing when there is none.
\<close>

definition payload :: "(name \<Rightarrow> ('f, 'm, 's) nt_entry option) \<Rightarrow> name \<Rightarrow>
    'f option \<times> pit_ref list \<times> 'm option \<times> 's option" where
  "payload M n = (case M n of
       None \<Rightarrow> (None, [], None, None)
     | Some e \<Rightarrow> (m_fibEntry e, m_pitEntries e, m_measurementsEntry e, m_strategyChoiceEntry e))"

lemma tree_ok_insert_root:
  assumes "tree_ok M" and "M [] = None"
  shows "tree_ok (M([] \<mapsto> fresh_entry []))" and "payload (M([] \<mapsto> fresh_entry [])) = payload M"
proof -
  have M: "M n = None" for n
    using tree_ok_prefix [OF assms(1), of n 0] assms(2) by (cases "M n") auto
  then show "tree_ok (M([] \<mapsto> fresh_entry []))" by (auto simp: tree_ok_def fresh_entry_def)
  from M show "payload (M([] \<mapsto> fresh_entry [])) = payload M" by (auto simp: payload_def fresh_entry_def fun_eq_iff)
qed

definition add_child :: "name \<Rightarrow> (name \<Rightarrow> ('f, 'm, 's) nt_entry option) \<Rightarrow> name \<Rightarrow> ('f, 'm, 's) nt_entry option" where
  "add_child p M = (M(p \<mapsto> fresh_entry p\<lparr>m_parent := Some (butlast p)\<rparr>))
     (butlast p := map_option (m_children_update (\<lambda>cs. cs @ [p])) (M (butlast p)))"

lemma butlast_neq: "p \<noteq> [] \<Longrightarrow> butlast p \<noteq> p" "p \<noteq> [] \<Longrightarrow> p \<noteq> butlast p"
  by (metis append_butlast_last_id append_self_conv not_Cons_self2)+

lemma tree_ok_add_child:
  assumes "tree_ok M" and "M p = None" and "p \<noteq> []" and "M (butlast p) \<noteq> None" and "length p \<le> getMaxDepth"
  shows "tree_ok (add_child p M)" and "payload (add_child p M) = payload M"
    and "add_child p M n = None \<longleftrightarrow> n \<noteq> p \<and> M n = None"
proof -
  from assms(4) obtain pe where pe: "M (butlast p) = Some pe" by auto
  note ne = butlast_neq [OF assms(3)]
  have nn: "add_child p M n = None \<longleftrightarrow> n \<noteq> p \<and> M n = None" for n
    using pe ne by (auto simp: add_child_def)
  then show "add_child p M n = None \<longleftrightarrow> n \<noteq> p \<and> M n = None" .
  have dom: "{c. c \<noteq> [] \<and> butlast c = n \<and> add_child p M c \<noteq> None} =
      {c. c \<noteq> [] \<and> butlast c = n \<and> M c \<noteq> None} \<union> (if n = butlast p then {p} else {})" for n
    using assms(3) by (auto simp: nn)
  have leaf: "{c. c \<noteq> [] \<and> butlast c = p \<and> M c \<noteq> None} = {}"
    using assms(1,2) tree_okD(3) by fastforce
  have "p \<notin> set (m_children pe)" using tree_okD(6) [OF assms(1) pe] assms(2) by simp
  show "tree_ok (add_child p M)"
    unfolding tree_ok_def
  proof (intro allI impI, goal_cases)
    case (1 n e)
    consider "n = p" | "n = butlast p" "n \<noteq> p" | "n \<noteq> p" "n \<noteq> butlast p" by blast
    then show ?case
    proof cases
      case 1
      with \<open>add_child p M n = Some e\<close> have e: "e = fresh_entry p\<lparr>m_parent := Some (butlast p)\<rparr>"
        using ne by (simp add: add_child_def)
      then show ?thesis
        unfolding dom using 1 ne leaf assms(3,4,5) by (auto simp: nn fresh_entry_def)
    next
      case 2
      with \<open>add_child p M n = Some e\<close> have e: "e = m_children_update (\<lambda>cs. cs @ [p]) pe"
        using pe by (simp add: add_child_def)
      note t = tree_okD [OF assms(1) pe]
      show ?thesis
        unfolding dom using 2 e t \<open>p \<notin> set (m_children pe)\<close> by (auto simp: nn)
    next
      case 3
      with \<open>add_child p M n = Some e\<close> have e: "M n = Some e" by (simp add: add_child_def)
      note t = tree_okD [OF assms(1) e]
      show ?thesis unfolding dom using 3 t by (auto simp: nn)
    qed
  qed
  show "payload (add_child p M) = payload M"
    using pe assms(2) ne by (auto simp: payload_def add_child_def fresh_entry_def fun_eq_iff)
qed

lemma setParent_add_child:
  assumes "ht_wf nt" and "entry_at nt = M(p \<mapsto> fresh_entry p)" and "M (butlast p) = Some pe" and "p \<noteq> []"
    and "m_name pe = butlast p"
  obtains nt' where "setParent p (butlast p) nt = Some nt'" and "ht_wf nt'" and "entry_at nt' = add_child p M"
    and "hashFunc nt' = hashFunc nt"
proof -
  note ne = butlast_neq [OF assms(4)]
  let ?nt1 = "modify p (m_parent_update (\<lambda>_. Some (butlast p))) nt"
  let ?nt2 = "modify (butlast p) (m_children_update (\<lambda>cs. cs @ [p])) ?nt1"
  have 1: "ht_wf ?nt1" "entry_at ?nt1 = (entry_at nt)(p := map_option (m_parent_update (\<lambda>_. Some (butlast p))) (entry_at nt p))"
    using modify_wf [OF assms(1), of "m_parent_update (\<lambda>_. Some (butlast p))" p] by simp_all
  have 2: "ht_wf ?nt2"
    "entry_at ?nt2 = (entry_at ?nt1)(butlast p := map_option (m_children_update (\<lambda>cs. cs @ [p])) (entry_at ?nt1 (butlast p)))"
    using modify_wf [OF 1(1), of "m_children_update (\<lambda>cs. cs @ [p])" "butlast p"] by simp_all
  have "entry_at nt (butlast p) = Some pe" using assms(2,3) ne by simp
  then have "setParent p (butlast p) nt = Some ?nt2"
    using assms(2,4,5) by (simp add: setParent_def fresh_entry_def)
  moreover have "entry_at ?nt2 = add_child p M"
    unfolding 2 1 assms(2) using ne by (auto simp: add_child_def fun_eq_iff)
  ultimately show ?thesis using that [of ?nt2] 2(1) by simp
qed

lemma lookup_step:
  assumes "nt_wf nt" and "i \<le> k" and "k \<le> length name" and "k \<le> getMaxDepth"
    and "parent = (if i = 0 then None else Some (take (i - 1) name))"
    and "i \<noteq> 0 \<Longrightarrow> entry_at nt (take (i - 1) name) \<noteq> None"
  obtains nt1 new nt2 where
    "ht_insert name i (computeHashes (hashFunc nt) name k) nt = Some (nt1, Some (take i name), new)"
    and "(case parent of Some p \<Rightarrow> if new then setParent (take i name) p nt1 else Some nt1 | None \<Rightarrow> Some nt1) = Some nt2"
    and "nt_wf nt2" and "hashFunc nt2 = hashFunc nt" and "payload (entry_at nt2) = payload (entry_at nt)"
    and "\<forall>n. entry_at nt2 n = None \<longleftrightarrow> n \<noteq> take i name \<and> entry_at nt n = None"
proof -
  let ?p = "take i name"
  have i: "i \<le> length name" "i \<le> getMaxDepth" using assms by simp_all
  have h: "ht_wf nt" and t: "tree_ok (entry_at nt)" using assms(1) by (simp_all add: nt_wf_def)
  obtain nt1 where nt1:
    "ht_insert name i (computeHashes (hashFunc nt) name k) nt = Some (nt1, Some ?p, entry_at nt ?p = None)"
    "ht_wf nt1" "hashFunc nt1 = hashFunc nt" "m_options nt1 = m_options nt"
    "entry_at nt1 = (if entry_at nt ?p = None then (entry_at nt)(?p \<mapsto> fresh_entry ?p) else entry_at nt)"
    using ht_insert_spec [OF h assms(2) i] .
  show ?thesis
  proof (cases "entry_at nt ?p = None \<and> i \<noteq> 0")
    case False
    then have "entry_at nt ?p \<noteq> None \<or> i = 0" by auto
    then have "tree_ok (entry_at nt1) \<and> payload (entry_at nt1) = payload (entry_at nt)"
      using nt1(5) tree_ok_insert_root [OF t] t by (cases "entry_at nt ?p = None") simp_all
    moreover have "(case parent of Some p \<Rightarrow> if entry_at nt ?p = None then setParent ?p p nt1 else Some nt1
        | None \<Rightarrow> Some nt1) = Some nt1"
      using False assms(5) by (auto split: option.splits)
    moreover have "\<forall>n. entry_at nt1 n = None \<longleftrightarrow> n \<noteq> ?p \<and> entry_at nt n = None"
      using nt1(5) by auto
    ultimately show ?thesis using that [of nt1 "entry_at nt ?p = None" nt1] nt1(1-3) by (simp add: nt_wf_def)
  next
    case True
    have bl: "butlast ?p = take (i - 1) name" and ne: "?p \<noteq> []" using True i by (auto simp: butlast_take)
    from True assms(6) obtain pe where pe: "entry_at nt (butlast ?p) = Some pe" unfolding bl by auto
    have e1: "entry_at nt1 = (entry_at nt)(?p \<mapsto> fresh_entry ?p)" using nt1(5) True by simp
    obtain nt2 where nt2: "setParent ?p (butlast ?p) nt1 = Some nt2" "ht_wf nt2"
      "entry_at nt2 = add_child ?p (entry_at nt)" "hashFunc nt2 = hashFunc nt1"
      using setParent_add_child [OF nt1(2) e1 pe ne entry_at_name [OF pe]] .
    have "length ?p \<le> getMaxDepth" using i by simp
    note ac = tree_ok_add_child [OF t _ ne _ this]
    have "tree_ok (entry_at nt2)" "payload (entry_at nt2) = payload (entry_at nt)"
      "\<forall>n. entry_at nt2 n = None \<longleftrightarrow> n \<noteq> ?p \<and> entry_at nt n = None"
      unfolding nt2(3) using ac True pe by simp_all
    moreover have "parent = Some (butlast ?p)" using assms(5) True bl by simp
    ultimately show ?thesis
      using that [of nt1 True nt2] nt1(1,3) nt2(1,2,4) True by (simp add: nt_wf_def)
  qed
qed

lemma lookup_loop_spec:
  assumes "k \<le> length name" and "k \<le> getMaxDepth"
  shows "nt_wf nt \<Longrightarrow> i \<le> Suc k \<Longrightarrow>
    (i \<noteq> 0 \<Longrightarrow> entry_at nt (take (i - 1) name) \<noteq> None) \<Longrightarrow>
    \<exists>nt'. lookup_loop name (computeHashes (hashFunc nt) name k) [i..<Suc k]
        (if i = 0 then None else Some (take (i - 1) name)) nt = Some (nt', Some (take k name)) \<and>
      nt_wf nt' \<and> hashFunc nt' = hashFunc nt \<and> payload (entry_at nt') = payload (entry_at nt) \<and>
      (\<forall>n. entry_at nt' n = None \<longleftrightarrow> (\<forall>j. i \<le> j \<and> j \<le> k \<longrightarrow> n \<noteq> take j name) \<and> entry_at nt n = None)"
proof (induction "Suc k - i" arbitrary: i nt)
  case 0
  then have "i = Suc k" by simp
  then show ?case using 0 by auto
next
  case (Suc m)
  then have i: "i \<le> k" by simp
  let ?par = "if i = 0 then None else Some (take (i - 1) name)"
  obtain nt1 new nt2 where st:
    "ht_insert name i (computeHashes (hashFunc nt) name k) nt = Some (nt1, Some (take i name), new)"
    "(case ?par of Some p \<Rightarrow> if new then setParent (take i name) p nt1 else Some nt1 | None \<Rightarrow> Some nt1) = Some nt2"
    "nt_wf nt2" "hashFunc nt2 = hashFunc nt" "payload (entry_at nt2) = payload (entry_at nt)"
    "\<forall>n. entry_at nt2 n = None \<longleftrightarrow> n \<noteq> take i name \<and> entry_at nt n = None"
    using lookup_step [OF Suc.prems(1) i assms refl Suc.prems(3)] .
  have loop: "lookup_loop name (computeHashes (hashFunc nt) name k) [i..<Suc k] ?par nt =
      lookup_loop name (computeHashes (hashFunc nt2) name k) [Suc i..<Suc k]
        (if Suc i = 0 then None else Some (take (Suc i - 1) name)) nt2"
    using i st(1,2,4) by (subst upt_conv_Cons) (simp_all del: upt_Suc)
  have "\<exists>nt'. lookup_loop name (computeHashes (hashFunc nt2) name k) [Suc i..<Suc k]
        (if Suc i = 0 then None else Some (take (Suc i - 1) name)) nt2 = Some (nt', Some (take k name)) \<and>
      nt_wf nt' \<and> hashFunc nt' = hashFunc nt2 \<and> payload (entry_at nt') = payload (entry_at nt2) \<and>
      (\<forall>n. entry_at nt' n = None \<longleftrightarrow> (\<forall>j. Suc i \<le> j \<and> j \<le> k \<longrightarrow> n \<noteq> take j name) \<and> entry_at nt2 n = None)"
    using Suc.hyps(2) i st(6) by (intro Suc.hyps(1) st(3)) auto
  then obtain nt' where nt': "lookup_loop name (computeHashes (hashFunc nt) name k) [i..<Suc k] ?par nt =
      Some (nt', Some (take k name))" "nt_wf nt'" "hashFunc nt' = hashFunc nt"
      "payload (entry_at nt') = payload (entry_at nt)"
      "\<forall>n. entry_at nt' n = None \<longleftrightarrow> (\<forall>j. Suc i \<le> j \<and> j \<le> k \<longrightarrow> n \<noteq> take j name) \<and> entry_at nt2 n = None"
    unfolding loop st(4,5) by blast
  have "(\<forall>j. i \<le> j \<and> j \<le> k \<longrightarrow> n \<noteq> take j name) \<longleftrightarrow>
      n \<noteq> take i name \<and> (\<forall>j. Suc i \<le> j \<and> j \<le> k \<longrightarrow> n \<noteq> take j name)" for n
    using i by (metis Suc_le_eq le_eq_less_or_eq order_refl)
  then have "\<forall>n. entry_at nt' n = None \<longleftrightarrow> (\<forall>j. i \<le> j \<and> j \<le> k \<longrightarrow> n \<noteq> take j name) \<and> entry_at nt n = None"
    using nt'(5) st(6) by metis
  with nt'(1-4) show ?case by blast
qed

lemma lookup_wf:
  assumes "nt_wf nt" and "k \<le> length name" and "k \<le> getMaxDepth"
  obtains nt' where "lookup name k nt = Some (nt', take k name)" and "nt_wf nt'" and "hashFunc nt' = hashFunc nt"
    and "payload (entry_at nt') = payload (entry_at nt)"
    and "\<forall>n. entry_at nt' n = None \<longleftrightarrow> (\<forall>j\<le>k. n \<noteq> take j name) \<and> entry_at nt n = None"
  using lookup_loop_spec [OF assms(2,3), of nt 0] assms that
  by (auto simp: lookup_def Let_def simp del: upt_Suc)

lemma lookup_exists:
  "lookup name k nt = Some (nt', n) \<Longrightarrow> nt_wf nt \<Longrightarrow> \<exists>e. entry_at nt' n = Some e"
proof -
  assume l: "lookup name k nt = Some (nt', n)" and w: "nt_wf nt"
  then have "k \<le> length name" "k \<le> getMaxDepth" by (auto simp: lookup_def split: bind_splits)
  with w l show ?thesis
    using lookup_wf [of nt k name] by (metis option.exhaust option.inject order_refl prod.inject)
qed

definition del_child :: "name \<Rightarrow> (name \<Rightarrow> ('f, 'm, 's) nt_entry option) \<Rightarrow> name \<Rightarrow> ('f, 'm, 's) nt_entry option" where
  "del_child n M = (if n = [] then M([] := None)
     else (M(n := None))(butlast n := map_option (m_children_update (erase_first (\<lambda>c. c = n))) (M (butlast n))))"

lemma del_child_other:
  "m \<noteq> n \<Longrightarrow> del_child n M m =
     (if n \<noteq> [] \<and> m = butlast n then map_option (m_children_update (erase_first (\<lambda>c. c = n))) (M m) else M m)"
  by (auto simp: del_child_def)

lemma set_erase_first_distinct:
  "distinct xs \<Longrightarrow> set (erase_first (\<lambda>c. c = a) xs) = set xs - {a}" "distinct xs \<Longrightarrow> distinct (erase_first (\<lambda>c. c = a) xs)"
  using erase_first_key [of "\<lambda>x. x" xs a] by auto

lemma tree_ok_del_child:
  assumes "tree_ok M" and "M n = Some e" and "isEmpty e"
  shows "tree_ok (del_child n M)" and "payload (del_child n M) = payload M"
    and "del_child n M m = None \<longleftrightarrow> m = n \<or> M m = None"
proof -
  have leaf: "\<And>c. c \<noteq> [] \<Longrightarrow> butlast c = n \<Longrightarrow> M c = None"
    using tree_okD(6) [OF assms(1,2)] assms(3) by (auto simp: isEmpty_def hasChildren_def)
  have nn: "del_child n M m = None \<longleftrightarrow> m = n \<or> M m = None" for m
  proof (cases "n = []")
    case False
    then show ?thesis
      using butlast_neq [OF False] tree_okD(3) [OF assms(1,2) False] by (auto simp: del_child_def)
  qed (auto simp: del_child_def)
  then show "del_child n M m = None \<longleftrightarrow> m = n \<or> M m = None" .
  show "payload (del_child n M) = payload M"
  proof
    fix m
    show "payload (del_child n M) m = payload M m"
    proof (cases "m = n")
      case True
      then have "del_child n M m = None" by (simp add: nn)
      then show ?thesis using True assms(2,3) by (simp add: payload_def isEmpty_def hasTableEntries_def)
    next
      case False
      then show ?thesis by (cases "M m") (auto simp: payload_def del_child_other)
    qed
  qed
  show "tree_ok (del_child n M)"
    unfolding tree_ok_def
  proof (intro allI impI, goal_cases)
    case (1 m x)
    have "del_child n M m \<noteq> None" using 1 by simp
    then have mn: "m \<noteq> n" and "M m \<noteq> None" unfolding nn by simp_all
    then obtain y where y: "M m = Some y" by auto
    note t = tree_okD [OF assms(1) y]
    have x: "x = (if n \<noteq> [] \<and> m = butlast n then m_children_update (erase_first (\<lambda>c. c = n)) y else y)"
      using 1 y mn by (auto simp: del_child_other split: if_splits)
    have bl: "m \<noteq> [] \<Longrightarrow> butlast m \<noteq> n" using leaf y by fastforce
    have dom: "{c. c \<noteq> [] \<and> butlast c = m \<and> del_child n M c \<noteq> None} = {c. c \<noteq> [] \<and> butlast c = m \<and> M c \<noteq> None} - {n}"
      by (auto simp: nn)
    have anc: "m \<noteq> [] \<longrightarrow> del_child n M (butlast m) \<noteq> None" using t(3) bl by (simp add: nn)
    show ?case
    proof (cases "n \<noteq> [] \<and> m = butlast n")
      case True
      then show ?thesis
        using t x anc set_erase_first_distinct [OF t(5), of n] unfolding dom by simp
    next
      case False
      then have "{c. c \<noteq> [] \<and> butlast c = m \<and> M c \<noteq> None} - {n} = {c. c \<noteq> [] \<and> butlast c = m \<and> M c \<noteq> None}"
        by auto
      then show ?thesis using t x anc False unfolding dom by simp
    qed
  qed
qed

lemma unsetParent_del_child:
  assumes "nt_wf nt" and "entry_at nt n = Some e" and "isEmpty e"
  obtains nt1 nt2 where "(if m_parent e \<noteq> None then unsetParent n nt else Some nt) = Some nt1"
    and "ht_erase n nt1 = Some nt2" and "nt_wf nt2" and "hashFunc nt2 = hashFunc nt"
    and "entry_at nt2 = del_child n (entry_at nt)"
proof (cases "n = []")
  case True
  have w: "ht_wf nt" "tree_ok (entry_at nt)" using assms(1) by (simp_all add: nt_wf_def)
  have par: "m_parent e = None" using tree_okD(4) [OF w(2) assms(2)] True by simp
  obtain nt2 where "ht_erase n nt = Some nt2" "ht_wf nt2" "entry_at nt2 = (entry_at nt)(n := None)"
    "hashFunc nt2 = hashFunc nt" "m_options nt2 = m_options nt" using ht_erase_wf [OF w(1) assms(2) par] .
  then show ?thesis
    using that [of nt nt2] par True tree_ok_del_child(1) [OF w(2) assms(2,3)] by (simp add: del_child_def nt_wf_def)
next
  case False
  have w: "ht_wf nt" "tree_ok (entry_at nt)" using assms(1) by (simp_all add: nt_wf_def)
  note ne = butlast_neq [OF False]
  have par: "m_parent e = Some (butlast n)" using tree_okD(4) [OF w(2) assms(2)] False by simp
  obtain pe where pe: "entry_at nt (butlast n) = Some pe" using tree_okD(3) [OF w(2) assms(2) False] by auto
  let ?f = "m_children_update (erase_first (\<lambda>c. c = n)) :: ('a, 'b, 'c) nt_entry \<Rightarrow> _"
  let ?a = "modify (butlast n) ?f nt"
  let ?b = "modify n (m_parent_update (\<lambda>_. None)) ?a"
  have a: "ht_wf ?a" "entry_at ?a = (entry_at nt)(butlast n := map_option ?f (entry_at nt (butlast n)))"
    using modify_wf [OF w(1), of ?f "butlast n"] by simp_all
  have b: "ht_wf ?b" "entry_at ?b = (entry_at ?a)(n := map_option (m_parent_update (\<lambda>_. None)) (entry_at ?a n))"
    using modify_wf [OF a(1), of "m_parent_update (\<lambda>_. None)" n] by simp_all
  have "n \<in> set (m_children pe)" using tree_okD(6) [OF w(2) pe] False assms(2) by simp
  then have u: "unsetParent n nt = Some ?b" using assms(2) par pe by (simp add: unsetParent_def)
  have eb: "entry_at ?b n = Some (e\<lparr>m_parent := None\<rparr>)" unfolding b(2) a(2) using assms(2) ne by simp
  have pn: "m_parent (e\<lparr>m_parent := None\<rparr>) = None" by simp
  obtain nt2 where nt2: "ht_erase n ?b = Some nt2" "ht_wf nt2" "entry_at nt2 = (entry_at ?b)(n := None)"
    "hashFunc nt2 = hashFunc ?b" "m_options nt2 = m_options ?b" using ht_erase_wf [OF b(1) eb pn] .
  have "entry_at nt2 = del_child n (entry_at nt)"
    unfolding nt2(3) b(2) a(2) using False ne by (auto simp: del_child_def fun_eq_iff)
  then show ?thesis
    using that [of ?b nt2] u par nt2 tree_ok_del_child(1) [OF w(2) assms(2,3)] by (simp add: nt_wf_def)
qed

text \<open>
  Removal leaves what is attached to names unchanged and removes prefixes of the given name
  only; if every other entry was in use, every entry is in use afterwards.
\<close>

definition in_use :: "(name \<Rightarrow> ('f, 'm, 's) nt_entry option) \<Rightarrow> name \<Rightarrow> bool" where
  "in_use M n \<longleftrightarrow> (case M n of None \<Rightarrow> True | Some e \<Rightarrow> \<not> isEmpty e)"

lemma in_use_del_child:
  assumes "tree_ok M" and "M n = Some e" and "isEmpty e" and "in_use M m" and "m \<noteq> n" and "n = [] \<or> m \<noteq> butlast n"
  shows "in_use (del_child n M) m"
  using assms(4-6) by (auto simp: in_use_def del_child_other)

lemma erase_loop_spec:
  "nt_wf nt \<Longrightarrow> entry_at nt n \<noteq> None \<Longrightarrow>
   \<exists>nt' k. erase_loop anc n nt = Some (nt', k) \<and> nt_wf nt' \<and> hashFunc nt' = hashFunc nt \<and>
     payload (entry_at nt') = payload (entry_at nt) \<and>
     (\<forall>m. entry_at nt' m = None \<longrightarrow> entry_at nt m = None \<or> prefix m n) \<and>
     (\<forall>m. entry_at nt m = None \<longrightarrow> entry_at nt' m = None) \<and>
     (anc \<longrightarrow> (\<forall>m. m \<noteq> n \<longrightarrow> in_use (entry_at nt) m) \<longrightarrow> (\<forall>m. in_use (entry_at nt') m))"
proof (induction "length n" arbitrary: n nt rule: less_induct)
  case less
  then obtain e where e: "entry_at nt n = Some e" by auto
  show ?case
  proof (cases "isEmpty e")
    case False
    then have "in_use (entry_at nt) n" using e by (simp add: in_use_def)
    then have "(\<forall>m. m \<noteq> n \<longrightarrow> in_use (entry_at nt) m) \<longrightarrow> (\<forall>m. in_use (entry_at nt) m)" by metis
    moreover have "erase_loop anc n nt = Some (nt, 0)" using e False by (simp add: erase_loop.simps)
    ultimately show ?thesis using less.prems by auto
  next
    case True
    have t: "tree_ok (entry_at nt)" using less.prems(1) by (simp add: nt_wf_def)
    obtain nt1 nt2 where st: "(if m_parent e \<noteq> None then unsetParent n nt else Some nt) = Some nt1"
      "ht_erase n nt1 = Some nt2" "nt_wf nt2" "hashFunc nt2 = hashFunc nt" "entry_at nt2 = del_child n (entry_at nt)"
      using unsetParent_del_child [OF less.prems(1) e True] .
    note dc = tree_ok_del_child [OF t e True]
    have none2: "\<forall>m. entry_at nt2 m = None \<longleftrightarrow> m = n \<or> entry_at nt m = None" unfolding st(5) using dc(3) by simp
    show ?thesis
    proof (cases "anc \<and> n \<noteq> []")
      case False
      then have res: "erase_loop anc n nt = Some (nt2, 1)"
        using e True st(1,2) tree_okD(4) [OF t e] by (subst erase_loop.simps) auto
      have iu: "in_use (entry_at nt2) m" if "anc" and "\<forall>m. m \<noteq> n \<longrightarrow> in_use (entry_at nt) m" for m
      proof (cases "m = n")
        case True
        then have "entry_at nt2 m = None" by (simp add: none2)
        then show ?thesis by (simp add: in_use_def)
      next
        case mn: False
        then show ?thesis unfolding st(5) using that False by (intro in_use_del_child [OF t e True]) auto
      qed
      show ?thesis
      proof (intro exI conjI)
        show "\<forall>m. entry_at nt2 m = None \<longrightarrow> entry_at nt m = None \<or> prefix m n"
          and "\<forall>m. entry_at nt m = None \<longrightarrow> entry_at nt2 m = None" by (auto simp: none2)
        show "anc \<longrightarrow> (\<forall>m. m \<noteq> n \<longrightarrow> in_use (entry_at nt) m) \<longrightarrow> (\<forall>m. in_use (entry_at nt2) m)"
          using iu by blast
        show "payload (entry_at nt2) = payload (entry_at nt)" using st(5) dc(2) by simp
      qed (fact res st)+
    next
      case anc: True
      then have par: "m_parent e = Some (butlast n)" using tree_okD(4) [OF t e] by simp
      have "length (butlast n) < length n" using anc by simp
      moreover have "entry_at nt2 (butlast n) \<noteq> None"
        using tree_okD(3) [OF t e] anc butlast_neq [of n] by (simp add: none2)
      ultimately obtain nt3 k where ih: "erase_loop anc (butlast n) nt2 = Some (nt3, k)" "nt_wf nt3"
        "hashFunc nt3 = hashFunc nt2" "payload (entry_at nt3) = payload (entry_at nt2)"
        "\<forall>m. entry_at nt3 m = None \<longrightarrow> entry_at nt2 m = None \<or> prefix m (butlast n)"
        "\<forall>m. entry_at nt2 m = None \<longrightarrow> entry_at nt3 m = None"
        "(\<forall>m. m \<noteq> butlast n \<longrightarrow> in_use (entry_at nt2) m) \<longrightarrow> (\<forall>m. in_use (entry_at nt3) m)"
        using less.hyps [of "butlast n" nt2] st(3) anc by blast
      have res: "erase_loop anc n nt = Some (nt3, Suc k)"
        using e True st(1,2) par anc ih(1) by (subst erase_loop.simps) auto
      have pre: "\<forall>m. entry_at nt3 m = None \<longrightarrow> entry_at nt m = None \<or> prefix m n"
        using ih(5) none2 by (metis prefix_order.refl prefix_order.trans prefixeq_butlast)
      have iu: "in_use (entry_at nt2) m" if "\<forall>m. m \<noteq> n \<longrightarrow> in_use (entry_at nt) m" "m \<noteq> butlast n" for m
      proof (cases "m = n")
        case True
        then have "entry_at nt2 m = None" by (simp add: none2)
        then show ?thesis by (simp add: in_use_def)
      next
        case mn: False
        then show ?thesis unfolding st(5) using that by (intro in_use_del_child [OF t e True]) auto
      qed
      show ?thesis
      proof (intro exI conjI)
        show "\<forall>m. entry_at nt m = None \<longrightarrow> entry_at nt3 m = None" using ih(6) by (simp add: none2)
        show "anc \<longrightarrow> (\<forall>m. m \<noteq> n \<longrightarrow> in_use (entry_at nt) m) \<longrightarrow> (\<forall>m. in_use (entry_at nt3) m)"
          using ih(7) iu by blast
        show "payload (entry_at nt3) = payload (entry_at nt)" using ih(4) st(5) dc(2) by simp
        show "hashFunc nt3 = hashFunc nt" using ih(3) st(4) by simp
      qed (fact res ih(2) pre)+
    qed
  qed
qed

lemma eraseIfEmpty_wf:
  assumes "nt_wf nt" and "entry_at nt n \<noteq> None"
  obtains nt' k where "eraseIfEmpty n anc nt = Some (nt', k)" and "nt_wf nt'" and "hashFunc nt' = hashFunc nt"
    and "payload (entry_at nt') = payload (entry_at nt)"
    and "\<forall>m. entry_at nt' m = None \<longrightarrow> entry_at nt m = None \<or> prefix m n"
    and "\<forall>m. entry_at nt m = None \<longrightarrow> entry_at nt' m = None"
    and "anc \<longrightarrow> (\<forall>m. m \<noteq> n \<longrightarrow> in_use (entry_at nt) m) \<longrightarrow> (\<forall>m. in_use (entry_at nt') m)"
  using erase_loop_spec [OF assms, of anc] that unfolding eraseIfEmpty_def by blast

subsection \<open>Longest prefix match\<close>

text \<open>The reference definition: try the prefixes of a name from the longest to the shortest.\<close>

fun lpm_from :: "(name \<Rightarrow> bool) \<Rightarrow> name \<Rightarrow> nat \<Rightarrow> name option" where
  "lpm_from P name 0 = (if P [] then Some [] else None)"
| "lpm_from P name (Suc i) = (if P (take (Suc i) name) then Some (take (Suc i) name) else lpm_from P name i)"

definition lpm :: "(name \<Rightarrow> bool) \<Rightarrow> name \<Rightarrow> name option" where
  "lpm P name = lpm_from P name (length name)"

lemma lpm_from_Some:
  "lpm_from P name i = Some n \<Longrightarrow> P n \<and> prefix n name \<and> (\<forall>j\<le>i. P (take j name) \<longrightarrow> length (take j name) \<le> length n)"
proof (induction i)
  case (Suc i)
  show ?case
  proof (cases "P (take (Suc i) name)")
    case True
    with Suc.prems show ?thesis by (auto simp: take_is_prefix)
  next
    case False
    with Suc have "P n \<and> prefix n name \<and> (\<forall>j\<le>i. P (take j name) \<longrightarrow> length (take j name) \<le> length n)" by simp
    with False show ?thesis by (metis le_Suc_eq)
  qed
qed (simp split: if_splits)

lemma lpm_from_None: "lpm_from P name i = None \<longleftrightarrow> (\<forall>j\<le>i. \<not> P (take j name))"
  by (induction i) (auto simp: le_Suc_eq)

lemma lpm_Some:
  assumes "lpm P name = Some n"
  shows "P n" and "prefix n name" and "prefix m name \<Longrightarrow> P m \<Longrightarrow> length m \<le> length n"
proof -
  note l = lpm_from_Some [OF assms [unfolded lpm_def]]
  from l show "P n" "prefix n name" by blast+
  assume "prefix m name" "P m"
  then show "length m \<le> length n"
    using l by (metis append_eq_conv_conj prefix_def prefix_length_le)
qed

lemma lpm_None: "lpm P name = None \<longleftrightarrow> (\<forall>m. prefix m name \<longrightarrow> \<not> P m)"
  unfolding lpm_def lpm_from_None by (metis append_eq_conv_conj prefix_def prefix_length_le take_is_prefix)

lemma lpm_unique:
  assumes "P n" and "prefix n name" and "\<And>m. prefix m name \<Longrightarrow> P m \<Longrightarrow> length m \<le> length n"
  shows "lpm P name = Some n"
proof (cases "lpm P name")
  case None
  with assms show ?thesis by (simp add: lpm_None)
next
  case (Some m)
  from lpm_Some [OF this] assms have "length m = length n" "prefix m name" by (simp_all add: eq_iff)
  with assms(2) Some show ?thesis by (metis prefix_length_prefix prefix_order.antisym order_refl)
qed

lemma lpm_butlast: "\<not> P name \<Longrightarrow> name \<noteq> [] \<Longrightarrow> lpm P name = lpm P (butlast name)"
proof -
  assume a: "\<not> P name" "name \<noteq> []"
  then obtain k where k: "length name = Suc k" by (cases name) auto
  have "lpm_from P name i = lpm_from P (butlast name) i" if "i \<le> k" for i
    using that k by (induction i) (auto simp: take_butlast)
  then show ?thesis using a k by (simp add: lpm_def)
qed

lemma lpm_take:
  assumes "\<And>m. prefix m name \<Longrightarrow> P m \<Longrightarrow> length m \<le> k"
  shows "lpm P name = lpm P (take k name)"
proof (cases "lpm P (take k name)")
  case None
  have "\<not> P m" if "prefix m name" for m
  proof
    assume "P m"
    with assms that have "prefix m (take k name)"
      by (metis prefix_def append_eq_conv_conj take_take min_absorb1 take_is_prefix)
    with None \<open>P m\<close> show False by (simp add: lpm_None)
  qed
  then have "lpm P name = None" by (simp add: lpm_None)
  with None show ?thesis by simp
next
  case (Some n)
  note l = lpm_Some [OF Some]
  have "lpm P name = Some n"
  proof (rule lpm_unique)
    show "prefix n name" using l(2) take_is_prefix prefix_order.trans by blast
    fix m assume m: "prefix m name" "P m"
    with assms have "prefix m (take k name)"
      by (metis prefix_def append_eq_conv_conj take_take min_absorb1 take_is_prefix)
    with l(3) m(2) show "length m \<le> length n" by blast
  qed (rule l(1))
  with Some show ?thesis by simp
qed

text \<open>The selected entries of a tree, as a predicate on names.\<close>

definition selected :: "('f, 'm, 's) name_tree \<Rightarrow> (('f, 'm, 's) nt_entry \<Rightarrow> bool) \<Rightarrow> name \<Rightarrow> bool" where
  "selected nt sel n \<longleftrightarrow> (case entry_at nt n of None \<Rightarrow> False | Some e \<Rightarrow> sel e)"

lemma selected_simps:
  "entry_at nt n = Some e \<Longrightarrow> selected nt sel n = sel e" "entry_at nt n = None \<Longrightarrow> \<not> selected nt sel n"
  by (simp_all add: selected_def)

lemma selected_exists: "selected nt sel n \<Longrightarrow> entry_at nt n \<noteq> None"
  by (auto simp: selected_def split: option.splits)

lemma selected_depth: "nt_wf nt \<Longrightarrow> selected nt sel n \<Longrightarrow> length n \<le> getMaxDepth"
  by (auto simp: selected_def nt_wf_def split: option.splits dest: tree_okD(2))

lemma lpm_loop_spec:
  assumes "ht_wf nt"
  shows "i \<le> k \<Longrightarrow> i \<le> length name \<Longrightarrow>
    lpm_loop nt sel name (computeHashes (hashFunc nt) name k) i = Some (lpm_from (selected nt sel) name i)"
proof (induction i)
  case 0
  then show ?case
    using assms by (auto simp: lpm_loop.simps ht_find_hashes_spec ht_find_spec selected_def split: option.splits)
next
  case (Suc i)
  then show ?case
    using assms by (subst lpm_loop.simps, cases "entry_at nt (take (Suc i) name)")
      (simp_all add: ht_find_hashes_spec ht_find_spec selected_simps)
qed

lemma findLongestPrefixMatch_spec:
  assumes "nt_wf nt"
  shows "findLongestPrefixMatch nt name sel = Some (lpm (selected nt sel) name)"
proof -
  let ?d = "min (length name) getMaxDepth"
  have "lpm (selected nt sel) name = lpm (selected nt sel) (take ?d name)"
    using selected_depth [OF assms] by (intro lpm_take) (simp add: prefix_length_le)
  moreover have "lpm_from P name ?d = lpm P (take ?d name)" for P
  proof -
    have "i \<le> ?d \<Longrightarrow> lpm_from P name i = lpm_from P (take ?d name) i" for i
      by (induction i) (auto simp: min_absorb1)
    then show ?thesis by (simp add: lpm_def)
  qed
  ultimately show ?thesis
    using assms by (simp add: findLongestPrefixMatch_def Let_def lpm_loop_spec nt_wf_def)
qed

lemma lpm_up_spec:
  "nt_wf nt \<Longrightarrow> entry_at nt n \<noteq> None \<Longrightarrow> lpm_up nt sel (Some n) = Some (lpm (selected nt sel) n)"
proof (induction n rule: rev_induct)
  case Nil
  then obtain e where e: "entry_at nt [] = Some e" by auto
  then have "m_parent e = None" using Nil tree_okD(4) by (fastforce simp: nt_wf_def)
  then show ?case
    using e by (simp add: lpm_up.simps lpm_def selected_def)
next
  case (snoc x xs)
  then obtain e where e: "entry_at nt (xs @ [x]) = Some e" by auto
  have t: "tree_ok (entry_at nt)" using snoc.prems by (simp add: nt_wf_def)
  have p: "m_parent e = Some xs" and xs: "entry_at nt xs \<noteq> None" using tree_okD(3,4) [OF t e] by simp_all
  show ?case
  proof (cases "sel e")
    case True
    then have "lpm (selected nt sel) (xs @ [x]) = Some (xs @ [x])"
      using e by (intro lpm_unique) (auto simp: selected_def dest: prefix_length_le)
    with True e show ?thesis by (simp add: lpm_up.simps)
  next
    case False
    then have "lpm (selected nt sel) (xs @ [x]) = lpm (selected nt sel) xs"
      using e lpm_butlast [of "selected nt sel" "xs @ [x]"] by (simp add: selected_def)
    with False e p snoc.IH [OF snoc.prems(1) xs] show ?thesis by (subst lpm_up.simps) simp
  qed
qed

lemma findExactMatch_spec:
  assumes "nt_wf nt"
  shows "findExactMatch nt name k = Some (if entry_at nt (take k name) = None then None else Some (take k name))"
proof -
  have t: "take (min (length name) k) name = take k name" by (simp add: min_def)
  have "entry_at nt (take k name) = None" if "min (length name) k > getMaxDepth"
    using that assms tree_okD(2) by (fastforce simp: nt_wf_def)
  then show ?thesis
    using assms by (auto simp: findExactMatch_def Let_def ht_find_spec nt_wf_def t)
qed

lemma deeper_loop_spec:
  assumes "nt_wf nt" and "entry_at nt (take k name) \<noteq> None" and "k \<le> d" and "d \<le> length name"
  shows "\<exists>j. k \<le> j \<and> j \<le> d \<and> deeper_loop nt name [Suc k..<Suc d] (take k name) = Some (take j name) \<and>
    entry_at nt (take j name) \<noteq> None \<and> (\<forall>l. j < l \<and> l \<le> d \<longrightarrow> entry_at nt (take l name) = None)"
  using assms(2,3)
proof (induction "d - k" arbitrary: k)
  case 0
  then show ?case by auto
next
  case (Suc m)
  then have upt: "[Suc k..<Suc d] = Suc k # [Suc (Suc k)..<Suc d]" by (intro upt_conv_Cons) simp
  show ?case
  proof (cases "entry_at nt (take (Suc k) name)")
    case None
    have "entry_at nt (take l name) = None" if "k < l" and "l \<le> d" for l
    proof (rule ccontr)
      assume "entry_at nt (take l name) \<noteq> None"
      then have "entry_at nt (take (Suc k) (take l name)) \<noteq> None"
        using assms(1) tree_ok_prefix by (fastforce simp: nt_wf_def)
      with None that show False by (simp add: min_absorb1)
    qed
    moreover have "deeper_loop nt name [Suc k..<Suc d] (take k name) = Some (take k name)"
      unfolding upt using None by (simp add: findExactMatch_spec [OF assms(1)])
    ultimately show ?thesis using Suc.prems by blast
  next
    case (Some e)
    have "deeper_loop nt name [Suc k..<Suc d] (take k name) = deeper_loop nt name [Suc (Suc k)..<Suc d] (take (Suc k) name)"
      unfolding upt using Some by (simp add: findExactMatch_spec [OF assms(1)] del: upt_Suc)
    moreover have "\<exists>j. Suc k \<le> j \<and> j \<le> d \<and>
        deeper_loop nt name [Suc (Suc k)..<Suc d] (take (Suc k) name) = Some (take j name) \<and>
        entry_at nt (take j name) \<noteq> None \<and> (\<forall>l. j < l \<and> l \<le> d \<longrightarrow> entry_at nt (take l name) = None)"
      using Suc.hyps(2) Suc.prems Some by (intro Suc.hyps(1)) auto
    ultimately show ?thesis by (metis Suc_leD)
  qed
qed

lemma findLongestPrefixMatch_pit_spec:
  assumes "nt_wf nt" and "entry_at nt n \<noteq> None" and "prefix n name"
  shows "findLongestPrefixMatch_pit nt name (Some n) sel = Some (lpm (selected nt sel) name)"
proof (cases "length n < length name")
  case False
  with assms(3) have "n = name" using prefix_length_less [of n name] by (auto simp: strict_prefix_def)
  then show ?thesis
    using assms lpm_up_spec by (simp add: findLongestPrefixMatch_pit_def findLongestPrefixMatch_entry_def)
next
  case True
  let ?d = "min (length name) getMaxDepth"
  have n: "n = take (length n) name" using assms(3) by (metis append_eq_conv_conj prefix_def)
  have t: "tree_ok (entry_at nt)" using assms(1) by (simp add: nt_wf_def)
  from assms(2) obtain e where "entry_at nt n = Some e" by auto
  then have "length n \<le> ?d" using True tree_okD(2) [OF t] by simp
  then obtain j where j: "j \<le> ?d" "deeper_loop nt name [Suc (length n)..<Suc ?d] n = Some (take j name)"
    "entry_at nt (take j name) \<noteq> None" "\<forall>l. j < l \<and> l \<le> ?d \<longrightarrow> entry_at nt (take l name) = None"
    using deeper_loop_spec [OF assms(1), of "length n" name ?d] assms(2) n by auto
  have "lpm (selected nt sel) name = lpm (selected nt sel) (take j name)"
  proof (rule lpm_take)
    fix m assume m: "prefix m name" "selected nt sel m"
    then have "m = take (length m) name" by (metis append_eq_conv_conj prefix_def)
    moreover have "length m \<le> ?d" using m selected_depth [OF assms(1)] by (simp add: prefix_length_le)
    moreover have "entry_at nt m \<noteq> None" using m(2) by (rule selected_exists)
    ultimately show "length m \<le> j" using j(4) by (metis not_le)
  qed
  then show ?thesis
    using True j lpm_up_spec [OF assms(1) j(3)]
    by (simp add: findLongestPrefixMatch_pit_def findLongestPrefixMatch_entry_def del: upt_Suc)
qed

subsection \<open>Enumerations\<close>

lemma lpm_filter_prefixes:
  "lpm P name = Some n \<Longrightarrow> filter P (rev (prefixes name)) = filter P (rev (prefixes n))"
proof (induction name rule: rev_induct)
  case (snoc x xs)
  show ?case
  proof (cases "P (xs @ [x])")
    case True
    then have "lpm P (xs @ [x]) = Some (xs @ [x])" by (intro lpm_unique) (auto dest: prefix_length_le)
    with snoc.prems show ?thesis by simp
  next
    case False
    then show ?thesis using snoc lpm_butlast [of P "xs @ [x]"] by simp
  qed
qed (simp add: lpm_def split: if_splits)

lemma visit_prefixes:
  assumes "nt_wf nt"
  shows "entry_at nt n \<noteq> None \<Longrightarrow>
    visit_from (PrefixMatch_advance nt sel)
      (case lpm (selected nt sel) n of None \<Rightarrow> Iterator_end | Some m \<Rightarrow> \<lparr>m_entry = Some m, m_ref = ref, m_state = False\<rparr>) =
    Some (filter (selected nt sel) (rev (prefixes n)))"
proof (induction n rule: rev_induct)
  case Nil
  then obtain e where e: "entry_at nt [] = Some e" by auto
  then have "m_parent e = None" using assms tree_okD(4) by (fastforce simp: nt_wf_def)
  with e show ?case
    by (auto simp: lpm_def visit_from.simps PrefixMatch_advance_def lpm_up.simps Iterator_end_def)
next
  case (snoc x xs)
  then obtain e where e: "entry_at nt (xs @ [x]) = Some e" by auto
  have t: "tree_ok (entry_at nt)" using assms by (simp add: nt_wf_def)
  have p: "m_parent e = Some xs" and xs: "entry_at nt xs \<noteq> None" using tree_okD(3,4) [OF t e] by simp_all
  show ?case
  proof (cases "selected nt sel (xs @ [x])")
    case True
    then have l: "lpm (selected nt sel) (xs @ [x]) = Some (xs @ [x])" by (intro lpm_unique) (auto dest: prefix_length_le)
    have "PrefixMatch_advance nt sel \<lparr>m_entry = Some (xs @ [x]), m_ref = ref, m_state = False\<rparr> =
        Some (case lpm (selected nt sel) xs of None \<Rightarrow> Iterator_end | Some m \<Rightarrow> \<lparr>m_entry = Some m, m_ref = ref, m_state = False\<rparr>)"
      using e p lpm_up_spec [OF assms xs] by (auto simp: PrefixMatch_advance_def split: option.splits)
    then show ?thesis using snoc.IH [OF xs] True by (subst visit_from.simps) (simp add: l)
  next
    case False
    then show ?thesis using snoc.IH [OF xs] lpm_butlast [of "selected nt sel" "xs @ [x]"] by simp
  qed
qed

lemma findAllMatches_spec:
  assumes "nt_wf nt"
  shows "findAllMatches nt name sel = Some (filter (selected nt sel) (rev (prefixes name)))"
proof (cases "lpm (selected nt sel) name")
  case None
  then have "filter (selected nt sel) (rev (prefixes name)) = []" by (simp add: lpm_None filter_empty_conv)
  with None show ?thesis
    by (simp add: findAllMatches_def findLongestPrefixMatch_spec [OF assms] visit_def PrefixMatch_advance_def
        lpm_up.simps visit_from.simps Iterator_end_def)
next
  case (Some n)
  have s: "selected nt sel n" using lpm_Some(1) [OF Some] .
  then have e: "entry_at nt n \<noteq> None" by (rule selected_exists)
  have l: "lpm (selected nt sel) n = Some n" using s by (intro lpm_unique) (auto dest: prefix_length_le)
  have "PrefixMatch_advance nt sel \<lparr>m_entry = None, m_ref = Some n, m_state = False\<rparr> =
      Some \<lparr>m_entry = Some n, m_ref = Some n, m_state = False\<rparr>"
    using lpm_up_spec [OF assms e, of sel] l by (simp add: PrefixMatch_advance_def)
  then show ?thesis
    using visit_prefixes [OF assms e, of sel "Some n"] l lpm_filter_prefixes [OF Some] Some
    by (simp add: findAllMatches_def findLongestPrefixMatch_spec [OF assms] visit_def)
qed

lemma find_append: "List.find P (xs @ ys) = (case List.find P xs of None \<Rightarrow> List.find P ys | Some x \<Rightarrow> Some x)"
  by (induction xs) auto

lemma find_split:
  "List.find P xs = Some x \<Longrightarrow> \<exists>us vs. xs = us @ x # vs \<and> (\<forall>u\<in>set us. \<not> P u) \<and> P x"
proof (induction xs)
  case (Cons y ys)
  show ?case
  proof (cases "P y")
    case True
    then have "y # ys = [] @ x # ys \<and> (\<forall>u\<in>set []. \<not> P u) \<and> P x" using Cons.prems by simp
    then show ?thesis by blast
  next
    case False
    with Cons obtain us vs where "ys = us @ x # vs \<and> (\<forall>u\<in>set us. \<not> P u) \<and> P x" by auto
    with False have "y # ys = (y # us) @ x # vs \<and> (\<forall>u\<in>set (y # us). \<not> P u) \<and> P x" by simp
    then show ?thesis by blast
  qed
qed simp

lemma full_continue_spec:
  assumes "ht_wf nt" and "nodes nt = ys @ node # zs"
  shows "full_continue nt pred (node_name node) i =
    Some (case List.find (\<lambda>x. pred (entry x)) zs of None \<Rightarrow> Iterator_end | Some x \<Rightarrow> i\<lparr>m_entry := Some (node_name x)\<rparr>)"
proof -
  let ?b = "computeBucketIndex nt (hash node)" and ?B = "m_buckets nt"
  have n: "node \<in> set (nodes nt)" using assms(2) by simp
  have p: "placed nt" and d: "distinct (map node_name (nodes nt))" using assms(1) by (simp_all add: ht_wf_def)
  have b: "?b < length ?B" using assms(1) by (simp add: ht_wf_def flip: getNBuckets_def)
  obtain c1 c2 where c: "?B ! ?b = c1 @ node # c2" using placed_hash(2) [OF p n] by (meson split_list)
  from b have "?B = take ?b ?B @ (?B ! ?b) # drop (Suc ?b) ?B" by (rule id_take_nth_drop)
  from arg_cong [OF this, of concat]
  have nodes: "nodes nt = (concat (take ?b ?B) @ c1) @ node # (c2 @ concat (drop (Suc ?b) ?B))"
    unfolding nodes_def by (simp only: c concat_append concat.simps append_assoc append_Cons)
  have nin: "node \<notin> set ys" "node \<notin> set zs" using d assms(2) by auto
  have "ys @ node # zs = (concat (take ?b ?B) @ c1) @ node # (c2 @ concat (drop (Suc ?b) ?B))"
    using assms(2) nodes by (rule trans [OF sym])
  then have zs: "zs = c2 @ concat (drop (Suc ?b) ?B)"
    unfolding append_Cons_eq_iff [OF nin] by (rule conjunct2)
  have "node_name node \<notin> node_name ` set c1" using d unfolding nodes by simp
  then have "\<forall>x\<in>set c1. node_name x \<noteq> node_name node" by (auto simp: image_iff)
  then have "dropWhile (\<lambda>x. node_name x \<noteq> node_name node) (?B ! ?b) = node # c2"
    unfolding c by (simp add: dropWhile_append2)
  then have nx: "tl (dropWhile (\<lambda>x. node_name x \<noteq> node_name node) (?B ! ?b)) = c2" by simp
  have na: "node_at (node_name node) nt = Some node" using n assms(1) by (simp add: node_at_iff)
  show ?thesis
    unfolding zs full_continue_def Let_def na vec_get_in [OF b] bind.bind_lunit nx find_append
    by (cases "List.find (\<lambda>x. pred (entry x)) c2") (simp_all split: option.split)
qed

lemma visit_full:
  assumes "ht_wf nt"
  shows "nodes nt = ys @ node # zs \<Longrightarrow>
    visit_from (FullEnumeration_advance nt pred) \<lparr>m_entry = Some (node_name node), m_ref = None, m_state = False\<rparr> =
    Some (node_name node # map node_name (filter (\<lambda>x. pred (entry x)) zs))"
proof (induction "length zs" arbitrary: ys node zs rule: less_induct)
  case less
  note f = full_continue_spec [OF assms less.prems, of pred]
  show ?case
  proof (cases "List.find (\<lambda>x. pred (entry x)) zs")
    case None
    then have "filter (\<lambda>x. pred (entry x)) zs = []" by (simp add: find_eq_None filter_empty_conv)
    with None f show ?thesis
      by (simp add: visit_from.simps FullEnumeration_advance_def Iterator_end_def)
  next
    case (Some x)
    then obtain us vs where zs: "zs = us @ x # vs" "\<forall>u\<in>set us. \<not> pred (entry u)" "pred (entry x)"
      by (auto dest: find_split)
    then have fl: "filter (\<lambda>x. pred (entry x)) zs = x # filter (\<lambda>x. pred (entry x)) vs" by (simp add: filter_empty_conv)
    have "nodes nt = (ys @ node # us) @ x # vs" using less.prems zs(1) by simp
    then have "visit_from (FullEnumeration_advance nt pred) \<lparr>m_entry = Some (node_name x), m_ref = None, m_state = False\<rparr> =
        Some (node_name x # map node_name (filter (\<lambda>x. pred (entry x)) vs))"
      using zs(1) by (intro less.hyps) auto
    then show ?thesis
      using Some f fl by (subst visit_from.simps) (simp add: FullEnumeration_advance_def)
  qed
qed

lemma find_nonempty: "List.find (\<lambda>c. c \<noteq> []) bs = Some ch \<Longrightarrow> ch \<noteq> [] \<and> (\<exists>rest. concat bs = ch @ rest)"
  by (induction bs) (auto split: if_splits)

lemma find_nonempty_ex: "List.find (\<lambda>c. c \<noteq> []) bs = None \<longleftrightarrow> concat bs = []"
  by (induction bs) auto

lemma fullEnumerate_spec:
  assumes "ht_wf nt"
  shows "fullEnumerate nt pred = Some (map node_name (filter (\<lambda>x. pred (entry x)) (nodes nt)))"
proof (cases "nodes nt = []")
  case True
  then have "List.find (\<lambda>c. c \<noteq> []) (m_buckets nt) = None" by (simp only: find_nonempty_ex nodes_def)
  with True show ?thesis
    by (simp add: fullEnumerate_def visit_def FullEnumeration_advance_def visit_from.simps Iterator_end_def)
next
  case False
  then have "List.find (\<lambda>c. c \<noteq> []) (m_buckets nt) \<noteq> None" by (simp only: find_nonempty_ex nodes_def) simp
  then obtain ch where ch: "List.find (\<lambda>c. c \<noteq> []) (m_buckets nt) = Some ch" by (elim not_None_eq [THEN iffD1, elim_format] exE)
  from find_nonempty [OF ch] obtain rest where r: "ch \<noteq> []" "nodes nt = ch @ rest" unfolding nodes_def by (elim conjE exE)
  from r(1) obtain c0 cs where c: "ch = c0 # cs" by (cases ch) simp_all
  have n: "nodes nt = [] @ c0 # (cs @ rest)" using r c by simp
  let ?i = "\<lparr>m_entry = None, m_ref = None, m_state = False\<rparr>"
  show ?thesis
  proof (cases "pred (entry c0)")
    case True
    then show ?thesis
      using visit_full [OF assms n, of pred] ch c n by (simp add: fullEnumerate_def visit_def FullEnumeration_advance_def)
  next
    case pf: False
    have adv: "FullEnumeration_advance nt pred ?i = full_continue nt pred (node_name c0) ?i"
      using ch c pf by (simp add: FullEnumeration_advance_def)
    show ?thesis
    proof (cases "List.find (\<lambda>x. pred (entry x)) (cs @ rest)")
      case None
      then have "filter (\<lambda>x. pred (entry x)) (nodes nt) = []"
        using n pf by (simp add: find_eq_None filter_empty_conv)
      then show ?thesis
        using adv full_continue_spec [OF assms n] None
        by (simp add: fullEnumerate_def visit_def visit_from.simps Iterator_end_def)
    next
      case (Some x)
      then obtain us vs where zs: "cs @ rest = us @ x # vs" "\<forall>u\<in>set us. \<not> pred (entry u)" "pred (entry x)"
        by (auto dest: find_split)
      have n2: "nodes nt = (c0 # us) @ x # vs" using n zs(1) by simp
      have "filter (\<lambda>x. pred (entry x)) (nodes nt) = x # filter (\<lambda>x. pred (entry x)) vs"
        unfolding n2 using pf zs(2,3) by (simp add: filter_empty_conv)
      then show ?thesis
        using adv full_continue_spec [OF assms n] Some visit_full [OF assms n2, of pred]
        by (simp add: fullEnumerate_def visit_def)
    qed
  qed
qed

subsection \<open>The tables attached to the tree\<close>

text \<open>
  One attached field seen as a table indexed by name: the value attached to a name, or the
  empty value when the name has no entry.
\<close>

definition view :: "(('f, 'm, 's) nt_entry \<Rightarrow> 'v) \<Rightarrow> 'v \<Rightarrow> ('f, 'm, 's) name_tree \<Rightarrow> name \<Rightarrow> 'v" where
  "view get none nt n = (case entry_at nt n of None \<Rightarrow> none | Some e \<Rightarrow> get e)"

abbreviation attached :: "('f, 'm, 's) nt_entry \<Rightarrow> 'f option \<times> pit_ref list \<times> 'm option \<times> 's option" where
  "attached e \<equiv> (m_fibEntry e, m_pitEntries e, m_measurementsEntry e, m_strategyChoiceEntry e)"

locale nt_field =
  fixes get :: "('f, 'm, 's) nt_entry \<Rightarrow> 'v"
    and upd :: "('v \<Rightarrow> 'v) \<Rightarrow> ('f, 'm, 's) nt_entry \<Rightarrow> ('f, 'm, 's) nt_entry"
    and none :: 'v
  assumes get_attached: "attached e = attached e' \<Longrightarrow> get e = get e'"
    and get_fresh: "get (fresh_entry n) = none"
    and get_upd: "get (upd f e) = f (get e)"
    and upd_name: "m_name (upd f e) = m_name e"
    and upd_parent: "m_parent (upd f e) = m_parent e"
    and upd_children: "m_children (upd f e) = m_children e"
begin

lemma view_payload:
  assumes "payload (entry_at nt') = payload (entry_at nt)"
  shows "view get none nt' = view get none nt"
proof
  fix n
  have p: "payload (entry_at nt') n = payload (entry_at nt) n" using assms by simp
  have empty: "get e = none" if "attached e = (None, [], None, None)" for e
    using get_attached [of e "fresh_entry n"] that by (simp add: fresh_entry_def get_fresh [unfolded fresh_entry_def])
  show "view get none nt' n = view get none nt n"
  proof (cases "entry_at nt n"; cases "entry_at nt' n")
    fix e e' assume e: "entry_at nt n = Some e" "entry_at nt' n = Some e'"
    then have "attached e' = attached e" using p by (simp add: payload_def)
    then have "get e' = get e" by (rule get_attached)
    then show ?thesis using e by (simp add: view_def)
  next
    fix e assume "entry_at nt n = Some e" "entry_at nt' n = None"
    moreover from this have "attached e = (None, [], None, None)" using p by (simp add: payload_def)
    ultimately show ?thesis using empty by (simp add: view_def)
  next
    fix e assume "entry_at nt n = None" "entry_at nt' n = Some e"
    moreover from this have "attached e = (None, [], None, None)" using p by (simp add: payload_def)
    ultimately show ?thesis using empty by (simp add: view_def)
  qed (simp add: view_def)
qed

lemma modify_upd:
  assumes "nt_wf nt"
  shows "nt_wf (modify n (upd f) nt)"
    and "entry_at (modify n (upd f) nt) = (entry_at nt)(n := map_option (upd f) (entry_at nt n))"
proof -
  have h: "ht_wf nt" and t: "tree_ok (entry_at nt)" using assms by (simp_all add: nt_wf_def)
  note m = modify_wf [OF h, of "upd f" n, OF upd_name]
  show e: "entry_at (modify n (upd f) nt) = (entry_at nt)(n := map_option (upd f) (entry_at nt n))" by (rule m(2))
  let ?M = "entry_at (modify n (upd f) nt)"
  have none: "?M k = None \<longleftrightarrow> entry_at nt k = None" for k unfolding e by simp
  have "tree_ok ?M"
    unfolding tree_ok_def none
  proof (intro allI impI)
    fix k x assume "?M k = Some x"
    then obtain y where y: "entry_at nt k = Some y" and x: "x = y \<or> x = upd f y"
      unfolding e by (auto split: if_splits)
    have "m_name x = m_name y" "m_parent x = m_parent y" "m_children x = m_children y"
      using x upd_name upd_parent upd_children by auto
    then show "m_name x = k \<and> length k \<le> getMaxDepth \<and> (k \<noteq> [] \<longrightarrow> entry_at nt (butlast k) \<noteq> None) \<and>
        m_parent x = (if k = [] then None else Some (butlast k)) \<and>
        distinct (m_children x) \<and> set (m_children x) = {c. c \<noteq> [] \<and> butlast c = k \<and> entry_at nt c \<noteq> None}"
      using tree_okD [OF t y] by simp
  qed
  with m(1) show "nt_wf (modify n (upd f) nt)" by (simp add: nt_wf_def)
qed

lemma view_modify:
  assumes "nt_wf nt" and "entry_at nt n \<noteq> None"
  shows "view get none (modify n (upd f) nt) = (view get none nt)(n := f (view get none nt n))"
  using assms(2) by (auto simp: view_def modify_upd(2) [OF assms(1)] get_upd fun_eq_iff)

lemma view_modify_other:
  assumes "nt_wf nt" and "\<And>e. g (upd f e) = g e"
  shows "view g z (modify n (upd f) nt) = view g z nt"
  using assms(2) by (auto simp: view_def modify_upd(2) [OF assms(1)] fun_eq_iff split: option.splits)

lemma lpm_view:
  assumes "nt_wf nt" and "\<And>e. sel e \<longleftrightarrow> P (get e)" and "\<not> P none"
  shows "findLongestPrefixMatch nt name sel = Some (lpm (\<lambda>n. P (view get none nt n)) name)"
proof -
  have "selected nt sel = (\<lambda>n. P (view get none nt n))"
    using assms(2,3) by (auto simp: selected_def view_def fun_eq_iff split: option.splits)
  then show ?thesis by (simp add: findLongestPrefixMatch_spec [OF assms(1)])
qed

end

interpretation fib_field: nt_field m_fibEntry m_fibEntry_update None
  by unfold_locales (simp_all add: fresh_entry_def)

interpretation pit_field: nt_field m_pitEntries m_pitEntries_update "[]"
  by unfold_locales (simp_all add: fresh_entry_def)

interpretation meas_field: nt_field m_measurementsEntry m_measurementsEntry_update None
  by unfold_locales (simp_all add: fresh_entry_def)

interpretation sc_field: nt_field m_strategyChoiceEntry m_strategyChoiceEntry_update None
  by unfold_locales (simp_all add: fresh_entry_def)

lemma NameTree_wf:
  assumes "0 < n"
  obtains nt where "NameTree H n = Some nt" and "nt_wf nt" and "entry_at nt = (\<lambda>_. None)" and "hashFunc nt = H"
  using Hashtable_wf [OF options_ok_new [OF assms]] that by (auto simp: NameTree_def nt_wf_def tree_ok_def)

subsection \<open>Properties\<close>

text \<open>C19: the name tree stays a tree: looking up a name on a well-formed tree returns its entry,
  creates exactly the missing prefixes of the name, and changes nothing that is attached to
  any name; erasing an entry if it is empty removes only prefixes of its name, again without
  changing what is attached; both keep the tree well formed. If every other entry was in
  use, then after erasing with ancestors every entry is in use.\<close>

theorem name_tree_invariant:
  assumes "nt_wf nt" and "k \<le> length name" and "k \<le> getMaxDepth"
  shows "(\<exists>nt'. lookup name k nt = Some (nt', take k name) \<and> nt_wf nt' \<and>
      payload (entry_at nt') = payload (entry_at nt) \<and>
      (\<forall>n. entry_at nt' n = None \<longleftrightarrow> (\<forall>j\<le>k. n \<noteq> take j name) \<and> entry_at nt n = None)) \<and>
    (\<forall>n anc. entry_at nt n \<noteq> None \<longrightarrow>
      (\<exists>nt' nErased. eraseIfEmpty n anc nt = Some (nt', nErased) \<and> nt_wf nt' \<and>
        payload (entry_at nt') = payload (entry_at nt) \<and>
        (\<forall>m. entry_at nt' m = None \<longrightarrow> entry_at nt m = None \<or> prefix m n) \<and>
        (anc \<longrightarrow> (\<forall>m. m \<noteq> n \<longrightarrow> in_use (entry_at nt) m) \<longrightarrow> (\<forall>m. in_use (entry_at nt') m))))"
proof (intro conjI allI impI)
  obtain nt' where "lookup name k nt = Some (nt', take k name)" "nt_wf nt'" "hashFunc nt' = hashFunc nt"
    "payload (entry_at nt') = payload (entry_at nt)"
    "\<forall>n. entry_at nt' n = None \<longleftrightarrow> (\<forall>j\<le>k. n \<noteq> take j name) \<and> entry_at nt n = None"
    using lookup_wf [OF assms] .
  then show "\<exists>nt'. lookup name k nt = Some (nt', take k name) \<and> nt_wf nt' \<and>
      payload (entry_at nt') = payload (entry_at nt) \<and>
      (\<forall>n. entry_at nt' n = None \<longleftrightarrow> (\<forall>j\<le>k. n \<noteq> take j name) \<and> entry_at nt n = None)" by blast
next
  fix n anc assume n: "entry_at nt n \<noteq> None"
  obtain nt' j where "eraseIfEmpty n anc nt = Some (nt', j)" "nt_wf nt'" "hashFunc nt' = hashFunc nt"
    "payload (entry_at nt') = payload (entry_at nt)"
    "\<forall>m. entry_at nt' m = None \<longrightarrow> entry_at nt m = None \<or> prefix m n"
    "\<forall>m. entry_at nt m = None \<longrightarrow> entry_at nt' m = None"
    "anc \<longrightarrow> (\<forall>m. m \<noteq> n \<longrightarrow> in_use (entry_at nt) m) \<longrightarrow> (\<forall>m. in_use (entry_at nt') m)"
    using eraseIfEmpty_wf [OF assms(1) n] .
  then show "\<exists>nt' nErased. eraseIfEmpty n anc nt = Some (nt', nErased) \<and> nt_wf nt' \<and>
        payload (entry_at nt') = payload (entry_at nt) \<and>
        (\<forall>m. entry_at nt' m = None \<longrightarrow> entry_at nt m = None \<or> prefix m n) \<and>
        (anc \<longrightarrow> (\<forall>m. m \<noteq> n \<longrightarrow> in_use (entry_at nt) m) \<longrightarrow> (\<forall>m. in_use (entry_at nt') m))" by blast
qed

theorem name_tree_invariant_witness:
  "\<exists>nt nt' :: (unit, unit, unit) name_tree. NameTree (\<lambda>c. 7) 16 = Some nt \<and>
     lookup [Generic ''a'', Generic ''b''] 2 nt = Some (nt', [Generic ''a'', Generic ''b'']) \<and>
     nt_wf nt' \<and> entry_at nt' [Generic ''a''] \<noteq> None"
proof -
  obtain nt :: "(unit, unit, unit) name_tree" where nt: "NameTree (\<lambda>c. 7) 16 = Some nt" "nt_wf nt"
    using NameTree_wf [of 16 "\<lambda>c. 7"] by (metis (no_types) zero_less_numeral)
  have len: "2 \<le> length [Generic ''a'', Generic ''b'']" "2 \<le> getMaxDepth"
    by (simp_all add: getMaxDepth_def FIB_MAX_DEPTH_def)
  obtain nt' :: "(unit, unit, unit) name_tree" where l:
    "lookup [Generic ''a'', Generic ''b''] 2 nt = Some (nt', take 2 [Generic ''a'', Generic ''b''])" "nt_wf nt'"
    and dom: "\<forall>n. entry_at nt' n = None \<longleftrightarrow> (\<forall>j\<le>2. n \<noteq> take j [Generic ''a'', Generic ''b'']) \<and> entry_at nt n = None"
    using name_tree_invariant [OF nt(2) len] by (elim conjE exE)
  have "entry_at nt' (take 1 [Generic ''a'', Generic ''b'']) \<noteq> None"
    unfolding dom [rule_format] by (metis one_le_numeral)
  with nt(1) l show ?thesis by simp
qed

text \<open>C17: the three ways to search for the longest prefix match agree with one reference
  definition: by name through the hashtable, from an entry along the parent pointers, and
  from the entry a PIT entry of that name is attached to. Each returns the longest existing
  and selected prefix of the name, or nothing when there is none.\<close>

theorem longest_prefix_match:
  assumes "nt_wf nt" and "entry_at nt n \<noteq> None" and "prefix n name"
  shows "findLongestPrefixMatch nt name sel = Some (lpm (selected nt sel) name) \<and>
    findLongestPrefixMatch_entry nt n sel = Some (lpm (selected nt sel) n) \<and>
    findLongestPrefixMatch_pit nt name (Some n) sel = Some (lpm (selected nt sel) name)"
  using assms by (simp add: findLongestPrefixMatch_spec findLongestPrefixMatch_entry_def lpm_up_spec
      findLongestPrefixMatch_pit_spec)

theorem longest_prefix_match_witness:
  "\<exists>nt nt' :: (unit, unit, unit) name_tree. NameTree (\<lambda>c. 7) 16 = Some nt \<and>
     lookup [Generic ''a''] 1 nt = Some (nt', [Generic ''a'']) \<and>
     findLongestPrefixMatch nt' [Generic ''a'', Generic ''b''] (\<lambda>e. True) = Some (Some [Generic ''a''])"
proof -
  obtain nt :: "(unit, unit, unit) name_tree" where nt: "NameTree (\<lambda>c. 7) 16 = Some nt" "nt_wf nt"
    "entry_at nt = (\<lambda>_. None)" using NameTree_wf [of 16 "\<lambda>c. 7"] by (metis zero_less_numeral)
  have len: "1 \<le> length [Generic ''a'']" "1 \<le> getMaxDepth" by (simp_all add: getMaxDepth_def FIB_MAX_DEPTH_def)
  obtain nt' where l: "lookup [Generic ''a''] 1 nt = Some (nt', take 1 [Generic ''a''])" "nt_wf nt'"
    and "hashFunc nt' = hashFunc nt" "payload (entry_at nt') = payload (entry_at nt)"
    and dom: "\<forall>n. entry_at nt' n = None \<longleftrightarrow> (\<forall>j\<le>1. n \<noteq> take j [Generic ''a'']) \<and> entry_at nt n = None"
    using lookup_wf [OF nt(2) len] .
  have a: "entry_at nt' [Generic ''a''] \<noteq> None" "entry_at nt' [Generic ''a'', Generic ''b''] = None"
    using dom nt(3) by (auto simp: le_Suc_eq)
  then have "lpm (selected nt' (\<lambda>e. True)) [Generic ''a'', Generic ''b''] = Some [Generic ''a'']"
    by (auto simp: lpm_def selected_def split: option.splits)
  with longest_prefix_match [OF l(2) a(1), of "[Generic ''a'', Generic ''b'']" "\<lambda>e. True"] nt(1) l(1) show ?thesis
    by simp
qed

text \<open>Enumeration is complete and without repetition: enumerating the whole tree visits exactly
  the selected entries, each once; enumerating the matches of a name visits exactly the
  selected prefixes of the name, from the longest to the shortest.\<close>

theorem enumeration_spec:
  assumes "nt_wf nt"
  shows "(\<exists>ns. fullEnumerate nt sel = Some ns \<and> distinct ns \<and> set ns = {n. selected nt sel n}) \<and>
    findAllMatches nt name sel = Some (filter (selected nt sel) (rev (prefixes name)))"
proof
  have h: "ht_wf nt" using assms by (simp add: nt_wf_def)
  let ?ns = "map node_name (filter (\<lambda>x. sel (entry x)) (nodes nt))"
  have d: "distinct (map node_name (nodes nt))" using h by (simp add: ht_wf_def)
  have "distinct ?ns" using d by (simp add: distinct_map_filter)
  moreover have "n \<in> set ?ns \<longleftrightarrow> selected nt sel n" for n
  proof -
    have "selected nt sel n \<longleftrightarrow> (\<exists>e. entry_at nt n = Some e \<and> sel e)"
      by (simp add: selected_def split: option.split)
    then show ?thesis unfolding entry_at_iff [OF d] by auto
  qed
  ultimately show "\<exists>ns. fullEnumerate nt sel = Some ns \<and> distinct ns \<and> set ns = {n. selected nt sel n}"
    using fullEnumerate_spec [OF h] by auto
qed (rule findAllMatches_spec [OF assms])

theorem enumeration_spec_witness:
  "\<exists>nt :: (unit, unit, unit) name_tree. NameTree (\<lambda>c. 7) 16 = Some nt \<and> fullEnumerate nt (\<lambda>e. True) = Some [] \<and>
     findAllMatches nt [Generic ''a''] (\<lambda>e. True) = Some []"
proof -
  obtain nt :: "(unit, unit, unit) name_tree" where nt: "NameTree (\<lambda>c. 7) 16 = Some nt" "nt_wf nt"
    "entry_at nt = (\<lambda>_. None)" using NameTree_wf [of 16 "\<lambda>c. 7"] by (metis zero_less_numeral)
  have sel: "selected nt (\<lambda>e. True) = (\<lambda>n. False)" using nt(3) by (simp add: selected_def fun_eq_iff)
  from enumeration_spec [OF nt(2), of "\<lambda>e. True" "[Generic ''a'']"] nt(1) show ?thesis
    unfolding sel by auto
qed

end
