(* ===== verification/Tables.thy ===== *)
theory Tables
  imports Name_Tree
begin

text \<open>
  The entries of the tables that share the name tree, and the state they make up together:
  \<^verbatim>\<open>daemon/table/fib-entry.{hpp,cpp}\<close>, \<^verbatim>\<open>fib-nexthop.{hpp,cpp}\<close>, \<^verbatim>\<open>pit-entry.{hpp,cpp}\<close>,
  \<^verbatim>\<open>pit-face-record.{hpp,cpp}\<close>, \<^verbatim>\<open>pit-in-record.{hpp,cpp}\<close>, \<^verbatim>\<open>pit-out-record.{hpp,cpp}\<close>,
  \<^verbatim>\<open>measurements-entry.{hpp,cpp}\<close>, \<^verbatim>\<open>strategy-choice-entry.{hpp,cpp}\<close> and
  \<^verbatim>\<open>strategy-info-host.{hpp,cpp}\<close>.

  FIB, measurements and strategy choice entries are owned by one name tree entry and are
  stored in it; a pointer to one is the name of that entry.  PIT entries are shared by
  \<^verbatim>\<open>shared_ptr\<close>, so they live in a heap and keep their back pointer \<open>m_nameTreeEntry\<close>.  Strategy
  instances are objects with a state, referred to by address.  The item counters are
  \<^verbatim>\<open>size_t\<close> and wrap around.  The type parameters are the strategy information attached to
  entries and the state of a strategy instance.
\<close>

subsection \<open>Strategy information\<close>

type_synonym 'i info_host = "(int \<times> 'i) list"

definition getStrategyInfo :: "int \<Rightarrow> 'i info_host \<Rightarrow> 'i option" where
  "getStrategyInfo typeId m_items = map_of m_items typeId"

definition insertStrategyInfo :: "int \<Rightarrow> 'i \<Rightarrow> 'i info_host \<Rightarrow> 'i info_host \<times> 'i \<times> bool" where
  "insertStrategyInfo typeId fresh m_items = (case map_of m_items typeId of
       None \<Rightarrow> (AList.update typeId fresh m_items, fresh, True)
     | Some item \<Rightarrow> (m_items, item, False))"

definition eraseStrategyInfo :: "int \<Rightarrow> 'i info_host \<Rightarrow> 'i info_host \<times> nat" where
  "eraseStrategyInfo typeId m_items =
     (AList.delete typeId m_items, if map_of m_items typeId = None then 0 else 1)"

text \<open>Assignment through the pointer that the two functions above return.\<close>

definition setStrategyInfo :: "int \<Rightarrow> 'i \<Rightarrow> 'i info_host \<Rightarrow> 'i info_host" where
  "setStrategyInfo typeId item m_items = AList.update typeId item m_items"

lemma getStrategyInfo_set [simp]:
  "getStrategyInfo k (setStrategyInfo j x h) = (if k = j then Some x else getStrategyInfo k h)"
  by (simp add: getStrategyInfo_def setStrategyInfo_def update_conv)

lemma getStrategyInfo_insert:
  "insertStrategyInfo k x h = (h', y, new) \<Longrightarrow>
   getStrategyInfo k h' = Some y \<and> (new \<longleftrightarrow> getStrategyInfo k h = None) \<and>
   (j \<noteq> k \<longrightarrow> getStrategyInfo j h' = getStrategyInfo j h)"
  by (auto simp: insertStrategyInfo_def getStrategyInfo_def update_conv split: option.splits)

subsection \<open>FIB entries\<close>

record NextHop =
  nh_face :: face_ref
  nh_endpointId :: nat
  nh_cost :: nat

definition NextHop_new :: "face_ref \<Rightarrow> nat \<Rightarrow> NextHop" where
  "NextHop_new face endpointId = \<lparr>nh_face = face, nh_endpointId = endpointId, nh_cost = 0\<rparr>"

record fib_entry =
  fib_prefix :: name
  m_nextHops :: "NextHop list"

definition fib_Entry :: "name \<Rightarrow> fib_entry" where
  "fib_Entry pfx = \<lparr>fib_prefix = pfx, m_nextHops = []\<rparr>"

definition hasNextHops :: "fib_entry \<Rightarrow> bool" where
  "hasNextHops e \<longleftrightarrow> m_nextHops e \<noteq> []"

definition is_nexthop :: "face_ref \<Rightarrow> nat \<Rightarrow> NextHop \<Rightarrow> bool" where
  "is_nexthop face endpointId nexthop \<longleftrightarrow> nh_face nexthop = face \<and> nh_endpointId nexthop = endpointId"

definition findNextHop :: "face_ref \<Rightarrow> nat \<Rightarrow> fib_entry \<Rightarrow> NextHop option" where
  "findNextHop face endpointId e = List.find (is_nexthop face endpointId) (m_nextHops e)"

definition hasNextHop :: "face_ref \<Rightarrow> nat \<Rightarrow> fib_entry \<Rightarrow> bool" where
  "hasNextHop face endpointId e \<longleftrightarrow> findNextHop face endpointId e \<noteq> None"

text \<open>
  \<^verbatim>\<open>std::sort\<close> by cost.  The language leaves the order of next hops of equal cost open; here it is
  that of a stable sort, which the insertion sort of ranges of at most 16 elements gives.
\<close>

definition sortNextHops :: "fib_entry \<Rightarrow> fib_entry" where
  "sortNextHops e = e\<lparr>m_nextHops := sort_key nh_cost (m_nextHops e)\<rparr>"

definition addOrUpdateNextHop :: "face_ref \<Rightarrow> nat \<Rightarrow> nat \<Rightarrow> fib_entry \<Rightarrow> fib_entry" where
  "addOrUpdateNextHop face endpointId cost e =
     (let hops = (if findNextHop face endpointId e = None
        then m_nextHops e @ [NextHop_new face endpointId] else m_nextHops e)
      in sortNextHops (e\<lparr>m_nextHops :=
        update_first (is_nexthop face endpointId) (nh_cost_update (\<lambda>_. cost)) hops\<rparr>))"

definition entry_removeNextHop :: "face_ref \<Rightarrow> nat \<Rightarrow> fib_entry \<Rightarrow> fib_entry" where
  "entry_removeNextHop face endpointId e =
     e\<lparr>m_nextHops := erase_first (is_nexthop face endpointId) (m_nextHops e)\<rparr>"

definition entry_removeNextHopByFace :: "face_ref \<Rightarrow> fib_entry \<Rightarrow> fib_entry" where
  "entry_removeNextHopByFace face e = e\<lparr>m_nextHops := filter (\<lambda>nexthop. nh_face nexthop \<noteq> face) (m_nextHops e)\<rparr>"

subsection \<open>PIT entries\<close>

text \<open>\<^verbatim>\<open>time::steady_clock::TimePoint::min()\<close>\<close>

definition TIME_MIN :: time where
  "TIME_MIN = - (2 ^ 63)"

record 'i FaceRecord =
  fr_face :: face_ref
  m_lastNonce :: "32 word"
  m_lastRenewed :: time
  m_expiry :: time
  fr_info :: "'i info_host"

record 'i InRecord = "'i FaceRecord" +
  ir_interest :: "interest option"

record 'i OutRecord = "'i FaceRecord" +
  m_incomingNack :: "nack_reason option"

definition InRecord_new :: "face_ref \<Rightarrow> 'i InRecord" where
  "InRecord_new face = \<lparr>fr_face = face, m_lastNonce = 0, m_lastRenewed = TIME_MIN, m_expiry = TIME_MIN,
     fr_info = [], ir_interest = None\<rparr>"

definition OutRecord_new :: "face_ref \<Rightarrow> 'i OutRecord" where
  "OutRecord_new face = \<lparr>fr_face = face, m_lastNonce = 0, m_lastRenewed = TIME_MIN, m_expiry = TIME_MIN,
     fr_info = [], m_incomingNack = None\<rparr>"

definition FaceRecord_update :: "time \<Rightarrow> interest \<Rightarrow> ('i, 'z) FaceRecord_scheme \<Rightarrow> ('i, 'z) FaceRecord_scheme" where
  "FaceRecord_update now interest r =
     (let lifetime = (if getInterestLifetime interest < 0 then DEFAULT_INTEREST_LIFETIME
                      else getInterestLifetime interest)
      in r\<lparr>m_lastNonce := getNonce interest, m_lastRenewed := now, m_expiry := now + ms lifetime\<rparr>)"

definition InRecord_update :: "time \<Rightarrow> interest \<Rightarrow> 'i InRecord \<Rightarrow> 'i InRecord" where
  "InRecord_update now interest r = (FaceRecord_update now interest r)\<lparr>ir_interest := Some interest\<rparr>"

definition setIncomingNack :: "nack \<Rightarrow> 'i OutRecord \<Rightarrow> 'i OutRecord \<times> bool" where
  "setIncomingNack nack r =
     (if getNonce (getInterest nack) \<noteq> m_lastNonce r then (r, False)
      else (r\<lparr>m_incomingNack := Some (getReason nack)\<rparr>, True))"

definition clearIncomingNack :: "'i OutRecord \<Rightarrow> 'i OutRecord" where
  "clearIncomingNack r = r\<lparr>m_incomingNack := None\<rparr>"

record 'i pit_entry =
  expiryTimer :: "time option"
  isSatisfied :: bool
  dataFreshnessPeriod :: int
  m_interest :: interest
  m_inRecords :: "'i InRecord list"
  m_outRecords :: "'i OutRecord list"
  m_nameTreeEntry :: "name option"
  pit_info :: "'i info_host"

abbreviation pit_name :: "'i pit_entry \<Rightarrow> name" where
  "pit_name e \<equiv> getName (m_interest e)"

definition pit_Entry :: "interest \<Rightarrow> 'i pit_entry" where
  "pit_Entry interest = \<lparr>expiryTimer = None, isSatisfied = False, dataFreshnessPeriod = 0, m_interest = interest,
     m_inRecords = [], m_outRecords = [], m_nameTreeEntry = None, pit_info = []\<rparr>"

definition canMatch :: "'i pit_entry \<Rightarrow> interest \<Rightarrow> nat \<Rightarrow> bool option" where
  "canMatch e interest nEqualNameComps = do {
     assert (take nEqualNameComps (pit_name e) = take nEqualNameComps (getName interest));
     Some (drop nEqualNameComps (pit_name e) = drop nEqualNameComps (getName interest) \<and>
           getSelectors (m_interest e) = getSelectors interest)
   }"

definition getInRecord :: "'i pit_entry \<Rightarrow> face_ref \<Rightarrow> 'i InRecord option" where
  "getInRecord e face = List.find (\<lambda>r. fr_face r = face) (m_inRecords e)"

definition insertOrUpdateInRecord :: "time \<Rightarrow> face_ref \<Rightarrow> interest \<Rightarrow> 'i pit_entry \<Rightarrow> 'i pit_entry option" where
  "insertOrUpdateInRecord now face interest e = do {
     ok \<leftarrow> canMatch e interest 0;
     assert ok;
     let rs = (if getInRecord e face = None then InRecord_new face # m_inRecords e else m_inRecords e);
     Some (e\<lparr>m_inRecords := update_first (\<lambda>r. fr_face r = face) (InRecord_update now interest) rs\<rparr>)
   }"

definition deleteInRecord :: "face_ref \<Rightarrow> 'i pit_entry \<Rightarrow> 'i pit_entry" where
  "deleteInRecord face e = e\<lparr>m_inRecords := erase_first (\<lambda>r. fr_face r = face) (m_inRecords e)\<rparr>"

definition clearInRecords :: "'i pit_entry \<Rightarrow> 'i pit_entry" where
  "clearInRecords e = e\<lparr>m_inRecords := []\<rparr>"

definition getOutRecord :: "'i pit_entry \<Rightarrow> face_ref \<Rightarrow> 'i OutRecord option" where
  "getOutRecord e face = List.find (\<lambda>r. fr_face r = face) (m_outRecords e)"

definition insertOrUpdateOutRecord :: "time \<Rightarrow> face_ref \<Rightarrow> interest \<Rightarrow> 'i pit_entry \<Rightarrow> 'i pit_entry option" where
  "insertOrUpdateOutRecord now face interest e = do {
     ok \<leftarrow> canMatch e interest 0;
     assert ok;
     let rs = (if getOutRecord e face = None then OutRecord_new face # m_outRecords e else m_outRecords e);
     Some (e\<lparr>m_outRecords := update_first (\<lambda>r. fr_face r = face) (FaceRecord_update now interest) rs\<rparr>)
   }"

definition deleteOutRecord :: "face_ref \<Rightarrow> 'i pit_entry \<Rightarrow> 'i pit_entry" where
  "deleteOutRecord face e = e\<lparr>m_outRecords := erase_first (\<lambda>r. fr_face r = face) (m_outRecords e)\<rparr>"

subsection \<open>Measurements and strategy choice entries\<close>

record 'i measurements_entry =
  meas_name :: name
  meas_expiry :: time
  meas_cleanup :: "time option"
  meas_info :: "'i info_host"

definition measurements_Entry :: "name \<Rightarrow> 'i measurements_entry" where
  "measurements_Entry name = \<lparr>meas_name = name, meas_expiry = TIME_MIN, meas_cleanup = None, meas_info = []\<rparr>"

type_synonym strategy_ref = nat

record sc_entry =
  sc_prefix :: name
  m_strategy :: "strategy_ref option"

definition strategy_choice_Entry :: "name \<Rightarrow> sc_entry" where
  "strategy_choice_Entry pfx = \<lparr>sc_prefix = pfx, m_strategy = None\<rparr>"

subsection \<open>The state of the tables\<close>

type_synonym 'i nt = "(fib_entry, 'i measurements_entry, sc_entry) name_tree"

record ('i, 'st) tables =
  nameTree :: "'i nt"
  fib_nItems :: "64 word"
  pit_nItems :: "64 word"
  meas_nItems :: "64 word"
  sc_nItems :: "64 word"
  pit_heap :: "pit_ref \<Rightarrow> 'i pit_entry option"
  pit_next :: pit_ref
  strategies :: "strategy_ref \<Rightarrow> (name \<times> 'st) option"
  strategy_next :: strategy_ref

definition tables_new :: "'i nt \<Rightarrow> ('i, 'st) tables" where
  "tables_new nt = \<lparr>nameTree = nt, fib_nItems = 0, pit_nItems = 0, meas_nItems = 0, sc_nItems = 0,
     pit_heap = (\<lambda>_. None), pit_next = 0, strategies = (\<lambda>_. None), strategy_next = 0\<rparr>"

text \<open>Reading and changing the entry a pointer refers to.\<close>

abbreviation nte_at :: "('i, 'st, 'z) tables_scheme \<Rightarrow> name \<Rightarrow> (fib_entry, 'i measurements_entry, sc_entry) nt_entry option" where
  "nte_at t n \<equiv> entry_at (nameTree t) n"

definition modify_nte :: "name \<Rightarrow> ((fib_entry, 'i measurements_entry, sc_entry) nt_entry \<Rightarrow>
    (fib_entry, 'i measurements_entry, sc_entry) nt_entry) \<Rightarrow> ('i, 'st, 'z) tables_scheme \<Rightarrow> ('i, 'st, 'z) tables_scheme" where
  "modify_nte n f t = t\<lparr>nameTree := modify n f (nameTree t)\<rparr>"

definition modify_pit :: "pit_ref \<Rightarrow> ('i pit_entry \<Rightarrow> 'i pit_entry) \<Rightarrow> ('i, 'st, 'z) tables_scheme \<Rightarrow>
    ('i, 'st, 'z) tables_scheme" where
  "modify_pit r f t = t\<lparr>pit_heap := (pit_heap t)(r := map_option f (pit_heap t r))\<rparr>"

subsection \<open>Next hops are unique and sorted\<close>

abbreviation nh_key :: "NextHop \<Rightarrow> face_ref \<times> nat" where
  "nh_key h \<equiv> (nh_face h, nh_endpointId h)"

definition nexthops_ok :: "fib_entry \<Rightarrow> bool" where
  "nexthops_ok e \<longleftrightarrow> distinct (map nh_key (m_nextHops e)) \<and> sorted (map nh_cost (m_nextHops e))"

definition nexthop_cost :: "fib_entry \<Rightarrow> face_ref \<times> nat \<Rightarrow> nat option" where
  "nexthop_cost e = map_of (map (\<lambda>h. (nh_key h, nh_cost h)) (m_nextHops e))"

lemma is_nexthop_key: "is_nexthop f p = (\<lambda>h. nh_key h = (f, p))"
  by (simp add: is_nexthop_def fun_eq_iff)

lemma map_of_same_set:
  assumes "distinct (map fst xs)" and "distinct (map fst ys)" and "set xs = set ys"
  shows "map_of xs = map_of ys"
proof
  fix x
  have *: "map_of xs x = Some y \<longleftrightarrow> map_of ys x = Some y" for y
    unfolding map_of_eq_Some_iff [OF assms(1)] map_of_eq_Some_iff [OF assms(2)] assms(3) ..
  show "map_of xs x = map_of ys x"
  proof (cases "map_of ys x")
    case None
    with * have "map_of xs x \<noteq> Some y" for y by simp
    with None show ?thesis by (cases "map_of xs x") auto
  qed (simp add: *)
qed

lemma map_of_sort_key:
  assumes "distinct (map k xs)"
  shows "map_of (map (\<lambda>h. (k h, v h)) (sort_key c xs)) = map_of (map (\<lambda>h. (k h, v h)) xs)"
proof (rule map_of_same_set)
  have f: "map fst (map (\<lambda>h. (k h, v h)) ys) = map k ys" for ys by (induction ys) auto
  show "distinct (map fst (map (\<lambda>h. (k h, v h)) xs))" unfolding f by (rule assms)
  have "mset (map k (sort_key c xs)) = mset (map k xs)" by simp
  from mset_eq_imp_distinct_iff [OF this] assms
  show "distinct (map fst (map (\<lambda>h. (k h, v h)) (sort_key c xs)))" unfolding f by simp
qed simp

lemma update_first_cost:
  "map nh_key (update_first (is_nexthop f p) (nh_cost_update (\<lambda>_. c)) hs) = map nh_key hs"
  by (rule map_update_first) (simp add: is_nexthop_def)

lemma map_of_update_first_cost:
  "(f, p) \<in> nh_key ` set hs \<Longrightarrow>
   map_of (map (\<lambda>h. (nh_key h, nh_cost h)) (update_first (is_nexthop f p) (nh_cost_update (\<lambda>_. c)) hs)) =
   (map_of (map (\<lambda>h. (nh_key h, nh_cost h)) hs))((f, p) \<mapsto> c)"
  by (induction hs) (auto simp: is_nexthop_def fun_eq_iff)

lemma addOrUpdateNextHop_ok:
  assumes "nexthops_ok e"
  shows "nexthops_ok (addOrUpdateNextHop f p c e)"
    and "nexthop_cost (addOrUpdateNextHop f p c e) = (nexthop_cost e)((f, p) \<mapsto> c)"
    and "fib_prefix (addOrUpdateNextHop f p c e) = fib_prefix e"
proof -
  let ?hs = "if findNextHop f p e = None then m_nextHops e @ [NextHop_new f p] else m_nextHops e"
  let ?us = "update_first (is_nexthop f p) (nh_cost_update (\<lambda>_. c)) ?hs"
  have d0: "distinct (map nh_key (m_nextHops e))" using assms by (simp add: nexthops_ok_def)
  have notin: "findNextHop f p e = None \<longleftrightarrow> (f, p) \<notin> nh_key ` set (m_nextHops e)"
    by (auto simp: findNextHop_def find_eq_None is_nexthop_def)
  have d1: "distinct (map nh_key ?hs)" using d0 notin by (auto simp: NextHop_new_def)
  have key: "map nh_key ?us = map nh_key ?hs" by (rule update_first_cost)
  have d: "distinct (map nh_key ?us)" unfolding key by (rule d1)
  have "mset (map nh_key (sort_key nh_cost ?us)) = mset (map nh_key ?us)" by simp
  from mset_eq_imp_distinct_iff [OF this] d have "distinct (map nh_key (sort_key nh_cost ?us))" by simp
  then show "nexthops_ok (addOrUpdateNextHop f p c e)"
    by (simp add: nexthops_ok_def addOrUpdateNextHop_def sortNextHops_def Let_def)
  have inn: "(f, p) \<in> nh_key ` set ?hs" using notin by (auto simp: NextHop_new_def)
  have app: "(map_of (map (\<lambda>h. (nh_key h, nh_cost h)) ?hs))((f, p) \<mapsto> c) = (nexthop_cost e)((f, p) \<mapsto> c)"
    using notin by (auto simp: nexthop_cost_def NextHop_new_def fun_eq_iff map_add_def split: option.splits)
  have "nexthop_cost (addOrUpdateNextHop f p c e) = map_of (map (\<lambda>h. (nh_key h, nh_cost h)) (sort_key nh_cost ?us))"
    by (simp add: nexthop_cost_def addOrUpdateNextHop_def sortNextHops_def Let_def)
  also have "\<dots> = map_of (map (\<lambda>h. (nh_key h, nh_cost h)) ?us)" by (rule map_of_sort_key [OF d])
  finally show "nexthop_cost (addOrUpdateNextHop f p c e) = (nexthop_cost e)((f, p) \<mapsto> c)"
    unfolding map_of_update_first_cost [OF inn] app .
qed (simp add: addOrUpdateNextHop_def sortNextHops_def Let_def)

lemma removeNextHop_ok:
  assumes "nexthops_ok e"
  shows "nexthops_ok (entry_removeNextHop f p e)" and "nexthops_ok (entry_removeNextHopByFace f e)"
    and "nexthop_cost (entry_removeNextHop f p e) = (nexthop_cost e)((f, p) := None)"
    and "nexthop_cost (entry_removeNextHopByFace f e) = (\<lambda>(g, q). if g = f then None else nexthop_cost e (g, q))"
proof -
  have d: "distinct (map nh_key (m_nextHops e))" and s: "sorted (map nh_cost (m_nextHops e))"
    using assms by (simp_all add: nexthops_ok_def)
  have er: "erase_first (is_nexthop f p) (m_nextHops e) = filter (\<lambda>h. nh_key h \<noteq> (f, p)) (m_nextHops e)"
    unfolding is_nexthop_key by (rule erase_first_key [OF d])
  show "nexthops_ok (entry_removeNextHop f p e)" "nexthops_ok (entry_removeNextHopByFace f e)"
    using d s unfolding nexthops_ok_def entry_removeNextHop_def entry_removeNextHopByFace_def er
    by (simp_all add: distinct_map_filter sorted_filter)
  have fm: "map_of (map (\<lambda>h. (nh_key h, nh_cost h)) (filter (\<lambda>h. P (nh_key h)) hs)) k =
      (if P k then map_of (map (\<lambda>h. (nh_key h, nh_cost h)) hs) k else None)" for P hs k
    by (induction hs) auto
  have c: "m_nextHops (entry_removeNextHop f p e) = filter (\<lambda>h. nh_key h \<noteq> (f, p)) (m_nextHops e)"
    "m_nextHops (entry_removeNextHopByFace f e) = filter (\<lambda>h. fst (nh_key h) \<noteq> f) (m_nextHops e)"
    unfolding entry_removeNextHop_def entry_removeNextHopByFace_def er by simp_all
  show "nexthop_cost (entry_removeNextHop f p e) = (nexthop_cost e)((f, p) := None)"
    by (rule ext) (simp only: nexthop_cost_def c fm [of "\<lambda>k. k \<noteq> (f, p)"] fun_upd_apply split: if_split, simp)
  show "nexthop_cost (entry_removeNextHopByFace f e) = (\<lambda>(g, q). if g = f then None else nexthop_cost e (g, q))"
    by (rule ext) (simp only: nexthop_cost_def c fm [of "\<lambda>k. fst k \<noteq> f"] split: prod.split if_split, auto)
qed

text \<open>The next hops of a FIB entry behave as a map from face and endpoint to cost, listed in
  order of cost: adding or updating a next hop sets exactly its cost, removing one removes
  exactly that one, removing a face removes exactly its next hops, and all three keep the
  list sorted by cost and without duplicates.\<close>

theorem nexthops_refine_map:
  assumes "nexthops_ok e"
  shows "nexthops_ok (addOrUpdateNextHop f p c e) \<and>
    nexthop_cost (addOrUpdateNextHop f p c e) = (nexthop_cost e)((f, p) \<mapsto> c) \<and>
    nexthops_ok (entry_removeNextHop f p e) \<and>
    nexthop_cost (entry_removeNextHop f p e) = (nexthop_cost e)((f, p) := None) \<and>
    nexthops_ok (entry_removeNextHopByFace f e) \<and>
    nexthop_cost (entry_removeNextHopByFace f e) = (\<lambda>(g, q). if g = f then None else nexthop_cost e (g, q))"
  using addOrUpdateNextHop_ok [OF assms] removeNextHop_ok [OF assms] by simp

theorem nexthops_refine_map_witness:
  "nexthops_ok (fib_Entry []) \<and> nexthop_cost (addOrUpdateNextHop 5 0 10 (fib_Entry [])) (5, 0) = Some 10 \<and>
   nexthops_ok (addOrUpdateNextHop 6 0 3 (addOrUpdateNextHop 5 0 10 (fib_Entry [])))"
proof -
  have ok: "nexthops_ok (fib_Entry [])" by (simp add: nexthops_ok_def fib_Entry_def)
  note 1 = nexthops_refine_map [OF ok, of 5 0 10]
  then have "nexthops_ok (addOrUpdateNextHop 5 0 10 (fib_Entry []))" by blast
  with ok 1 nexthops_refine_map [OF this, of 6 0 3] show ?thesis by simp
qed

subsection \<open>One record per face\<close>

definition records_ok :: "'i pit_entry \<Rightarrow> bool" where
  "records_ok e \<longleftrightarrow> distinct (map fr_face (m_inRecords e)) \<and> distinct (map fr_face (m_outRecords e))"

lemma distinct_insert_or_update:
  assumes "distinct (map fr_face rs)" and "fr_face new = face" and "\<And>r. fr_face (f r) = fr_face r"
  shows "distinct (map fr_face (update_first (\<lambda>r. fr_face r = face) f
    (if List.find (\<lambda>r. fr_face r = face) rs = None then new # rs else rs)))"
proof -
  have "map fr_face (update_first (\<lambda>r. fr_face r = face) f xs) = map fr_face xs" for xs
    using assms(3) by (intro map_update_first) simp
  then show ?thesis using assms(1,2) by (auto simp: find_eq_None)
qed

lemma fr_face_update [simp]: "fr_face (FaceRecord_update now i r) = fr_face r"
  by (simp add: FaceRecord_update_def Let_def)

lemma fr_face_in_update [simp]: "fr_face (InRecord_update now i r) = fr_face r"
  by (simp add: InRecord_update_def)

lemma records_ok_ops [wf_intros]:
  "records_ok (pit_Entry interest)"
  "records_ok e \<Longrightarrow> insertOrUpdateInRecord now face interest e = Some e' \<Longrightarrow> records_ok e'"
  "records_ok e \<Longrightarrow> insertOrUpdateOutRecord now face interest e = Some e' \<Longrightarrow> records_ok e'"
  "records_ok e \<Longrightarrow> records_ok (deleteInRecord face e)"
  "records_ok e \<Longrightarrow> records_ok (deleteOutRecord face e)"
  "records_ok e \<Longrightarrow> records_ok (clearInRecords e)"
proof -
  show "records_ok e \<Longrightarrow> insertOrUpdateInRecord now face interest e = Some e' \<Longrightarrow> records_ok e'"
    using distinct_insert_or_update [of "m_inRecords e" "InRecord_new face" face "InRecord_update now interest"]
    by (auto simp: records_ok_def insertOrUpdateInRecord_def getInRecord_def canMatch_def InRecord_new_def
        split: bind_splits)
  show "records_ok e \<Longrightarrow> insertOrUpdateOutRecord now face interest e = Some e' \<Longrightarrow> records_ok e'"
    using distinct_insert_or_update [of "m_outRecords e" "OutRecord_new face" face "FaceRecord_update now interest"]
    by (auto simp: records_ok_def insertOrUpdateOutRecord_def getOutRecord_def canMatch_def OutRecord_new_def
        split: bind_splits)
qed (simp_all add: records_ok_def pit_Entry_def deleteInRecord_def deleteOutRecord_def clearInRecords_def
    distinct_map_erase_first)

lemma getOutRecord_insert:
  assumes "insertOrUpdateOutRecord now face interest e = Some e'"
  shows "\<exists>r. getOutRecord e' face = Some r \<and> m_lastNonce r = getNonce interest \<and> m_lastRenewed r = now"
    and "g \<noteq> face \<Longrightarrow> getOutRecord e' g = getOutRecord e g"
proof -
  let ?rs = "if getOutRecord e face = None then OutRecord_new face # m_outRecords e else m_outRecords e"
  let ?P = "\<lambda>r :: 'a OutRecord. fr_face r = face"
  let ?u = "FaceRecord_update now interest :: 'a OutRecord \<Rightarrow> 'a OutRecord"
  have e': "e' = e\<lparr>m_outRecords := update_first ?P ?u ?rs\<rparr>"
    using assms by (auto simp: insertOrUpdateOutRecord_def canMatch_def split: bind_splits)
  have "List.find ?P ?rs \<noteq> None" by (auto simp: getOutRecord_def OutRecord_new_def)
  then obtain r where "List.find ?P ?rs = Some r" by auto
  moreover have "List.find ?P (update_first ?P ?u ?rs) = map_option ?u (List.find ?P ?rs)"
    by (rule find_update_first_same) simp
  moreover have "getOutRecord e' face = List.find ?P (update_first ?P ?u ?rs)"
    unfolding getOutRecord_def [of e'] by (simp add: e')
  ultimately have "getOutRecord e' face = Some (?u r)" by (simp only: option.map)
  then show "\<exists>r. getOutRecord e' face = Some r \<and> m_lastNonce r = getNonce interest \<and> m_lastRenewed r = now"
    by (auto simp: FaceRecord_update_def Let_def)
  assume g: "g \<noteq> face"
  have "List.find (\<lambda>r. fr_face r = g) (update_first ?P ?u ?rs) = List.find (\<lambda>r. fr_face r = g) ?rs"
    using g by (intro find_update_first_other) auto
  also have "\<dots> = List.find (\<lambda>r. fr_face r = g) (m_outRecords e)" using g by (simp add: OutRecord_new_def)
  finally show "getOutRecord e' g = getOutRecord e g" unfolding getOutRecord_def [of _ g] by (simp add: e')
qed

end
