(* ===== verification/Fib.thy ===== *)
theory Fib
  imports Tables
begin

text \<open>
  \<^verbatim>\<open>daemon/table/fib.{hpp,cpp}\<close>: the forwarding information base, FIB entries attached to the
  name tree.  A reference to a FIB entry is the name it is attached to, or None for the
  empty entry that stands for no match.

  The lemmas: the FIB refines a map from names to FIB entries; longest prefix match returns
  the entry of the longest prefix with a FIB entry; erasing a prefix that has a name tree
  entry but no FIB entry decrements the item counter.
\<close>

type_synonym fib_ref = "name option"

definition nteHasFibEntry :: "('f, 'm, 's) nt_entry \<Rightarrow> bool" where
  "nteHasFibEntry nte \<longleftrightarrow> m_fibEntry nte \<noteq> None"

text \<open>\<^verbatim>\<open>name_tree::Entry::setFibEntry\<close>\<close>

definition setFibEntry :: "name \<Rightarrow> fib_entry option \<Rightarrow> ('i, 'st, 'z) tables_scheme \<Rightarrow> ('i, 'st, 'z) tables_scheme" where
  "setFibEntry n fe t = modify_nte n (m_fibEntry_update (\<lambda>_. fe)) t"

text \<open>The entry a reference stands for.\<close>

definition fib_deref :: "('i, 'st, 'z) tables_scheme \<Rightarrow> fib_ref \<Rightarrow> fib_entry option" where
  "fib_deref t r = (case r of
       None \<Rightarrow> Some (fib_Entry [])
     | Some n \<Rightarrow> Option.bind (nte_at t n) m_fibEntry)"

definition Fib_findLongestPrefixMatch :: "('i, 'st, 'z) tables_scheme \<Rightarrow> name \<Rightarrow> fib_ref option" where
  "Fib_findLongestPrefixMatch t pfx = findLongestPrefixMatch (nameTree t) pfx nteHasFibEntry"

definition Fib_findLongestPrefixMatch_pit :: "('i, 'st, 'z) tables_scheme \<Rightarrow> 'i pit_entry \<Rightarrow> fib_ref option" where
  "Fib_findLongestPrefixMatch_pit t pe =
     findLongestPrefixMatch_pit (nameTree t) (pit_name pe) (m_nameTreeEntry pe) nteHasFibEntry"

definition Fib_findLongestPrefixMatch_measurements :: "('i, 'st, 'z) tables_scheme \<Rightarrow> name \<Rightarrow> fib_ref option" where
  "Fib_findLongestPrefixMatch_measurements t m = findLongestPrefixMatch_entry (nameTree t) m nteHasFibEntry"

definition Fib_findExactMatch :: "('i, 'st, 'z) tables_scheme \<Rightarrow> name \<Rightarrow> name option option" where
  "Fib_findExactMatch t pfx = do {
     nte \<leftarrow> findExactMatch (nameTree t) pfx (length pfx);
     case nte of
       None \<Rightarrow> Some None
     | Some n \<Rightarrow> do { e \<leftarrow> nte_at t n; Some (if m_fibEntry e \<noteq> None then Some n else None) }
   }"

definition Fib_insert :: "name \<Rightarrow> ('i, 'st, 'z) tables_scheme \<Rightarrow> (('i, 'st, 'z) tables_scheme \<times> name \<times> bool) option" where
  "Fib_insert pfx t = do {
     (nt, n) \<leftarrow> lookup pfx (length pfx) (nameTree t);
     let t = t\<lparr>nameTree := nt\<rparr>;
     nte \<leftarrow> nte_at t n;
     if m_fibEntry nte \<noteq> None then Some (t, n, False)
     else do {
       let t = setFibEntry n (Some (fib_Entry pfx)) t;
       Some (t\<lparr>fib_nItems := fib_nItems t + 1\<rparr>, n, True)
     }
   }"

definition Fib_erase_nte :: "name \<Rightarrow> bool \<Rightarrow> ('i, 'st, 'z) tables_scheme \<Rightarrow> ('i, 'st, 'z) tables_scheme option" where
  "Fib_erase_nte n canDeleteNte t = do {
     nte \<leftarrow> nte_at t n;
     let t = setFibEntry n None t;
     t \<leftarrow> (if canDeleteNte
       then do { (nt, _) \<leftarrow> eraseIfEmpty n True (nameTree t); Some (t\<lparr>nameTree := nt\<rparr>) }
       else Some t);
     Some (t\<lparr>fib_nItems := fib_nItems t - 1\<rparr>)
   }"

definition Fib_erase_name :: "name \<Rightarrow> ('i, 'st, 'z) tables_scheme \<Rightarrow> ('i, 'st, 'z) tables_scheme option" where
  "Fib_erase_name pfx t = do {
     nte \<leftarrow> findExactMatch (nameTree t) pfx (length pfx);
     case nte of None \<Rightarrow> Some t | Some n \<Rightarrow> Fib_erase_nte n True t
   }"

definition Fib_erase :: "fib_ref \<Rightarrow> ('i, 'st, 'z) tables_scheme \<Rightarrow> ('i, 'st, 'z) tables_scheme option" where
  "Fib_erase r t = (case r of None \<Rightarrow> Some t | Some n \<Rightarrow> Fib_erase_nte n True t)"

definition Fib_eraseIfEmpty :: "name \<Rightarrow> ('i, 'st, 'z) tables_scheme \<Rightarrow> ('i, 'st, 'z) tables_scheme option" where
  "Fib_eraseIfEmpty n t = do {
     nte \<leftarrow> nte_at t n;
     fe \<leftarrow> m_fibEntry nte;
     if \<not> hasNextHops fe then Fib_erase_nte n False t else Some t
   }"

definition Fib_addOrUpdateNextHop :: "name \<Rightarrow> face_ref \<Rightarrow> nat \<Rightarrow> nat \<Rightarrow> ('i, 'st, 'z) tables_scheme \<Rightarrow>
    ('i, 'st, 'z) tables_scheme option" where
  "Fib_addOrUpdateNextHop n face endpointId cost t = do {
     nte \<leftarrow> nte_at t n;
     fe \<leftarrow> m_fibEntry nte;
     Some (setFibEntry n (Some (addOrUpdateNextHop face endpointId cost fe)) t)
   }"

definition Fib_removeNextHop :: "name \<Rightarrow> face_ref \<Rightarrow> nat \<Rightarrow> ('i, 'st, 'z) tables_scheme \<Rightarrow>
    ('i, 'st, 'z) tables_scheme option" where
  "Fib_removeNextHop n face endpointId t = do {
     nte \<leftarrow> nte_at t n;
     fe \<leftarrow> m_fibEntry nte;
     Fib_eraseIfEmpty n (setFibEntry n (Some (entry_removeNextHop face endpointId fe)) t)
   }"

definition Fib_removeNextHopByFace :: "name \<Rightarrow> face_ref \<Rightarrow> ('i, 'st, 'z) tables_scheme \<Rightarrow>
    ('i, 'st, 'z) tables_scheme option" where
  "Fib_removeNextHopByFace n face t = do {
     nte \<leftarrow> nte_at t n;
     fe \<leftarrow> m_fibEntry nte;
     Fib_eraseIfEmpty n (setFibEntry n (Some (entry_removeNextHopByFace face fe)) t)
   }"

definition Fib_getRange :: "('i, 'st, 'z) tables_scheme \<Rightarrow> name list option" where
  "Fib_getRange t = fullEnumerate (nameTree t) nteHasFibEntry"

subsection \<open>The FIB as a map\<close>

abbreviation fib_view :: "('i, 'st, 'z) tables_scheme \<Rightarrow> name \<Rightarrow> fib_entry option" where
  "fib_view t \<equiv> view m_fibEntry None (nameTree t)"

lemma fib_viewI: "nte_at t n = Some nte \<Longrightarrow> fib_view t n = m_fibEntry nte"
  by (simp add: view_def)

lemma fib_view_exists: "fib_view t n \<noteq> None \<Longrightarrow> nte_at t n \<noteq> None"
  by (auto simp: view_def split: option.splits)

lemma setFibEntry_fields [simp]:
  "fib_nItems (setFibEntry n fe t) = fib_nItems t" "pit_heap (setFibEntry n fe t) = pit_heap t"
  by (simp_all add: setFibEntry_def modify_nte_def)

lemma setFibEntry_wf:
  assumes "nt_wf (nameTree t)" and "nte_at t n \<noteq> None"
  shows "nt_wf (nameTree (setFibEntry n fe t))" and "fib_view (setFibEntry n fe t) = (fib_view t)(n := fe)"
    and "nte_at (setFibEntry n fe t) n \<noteq> None"
  using assms fib_field.modify_upd [OF assms(1)] fib_field.view_modify [OF assms, of "\<lambda>_. fe"]
  by (simp_all add: setFibEntry_def modify_nte_def)

lemma Fib_insert_spec:
  assumes "nt_wf (nameTree t)" and "length pfx \<le> getMaxDepth"
  obtains t' where "Fib_insert pfx t = Some (t', pfx, fib_view t pfx = None)" and "nt_wf (nameTree t')"
    and "fib_view t' = (if fib_view t pfx = None then (fib_view t)(pfx \<mapsto> fib_Entry pfx) else fib_view t)"
    and "fib_nItems t' = (if fib_view t pfx = None then fib_nItems t + 1 else fib_nItems t)"
proof -
  obtain nt where nt: "lookup pfx (length pfx) (nameTree t) = Some (nt, take (length pfx) pfx)" "nt_wf nt"
    "hashFunc nt = hashFunc (nameTree t)" "payload (entry_at nt) = payload (entry_at (nameTree t))"
    "\<forall>n. entry_at nt n = None \<longleftrightarrow> (\<forall>j\<le>length pfx. n \<noteq> take j pfx) \<and> entry_at (nameTree t) n = None"
    using lookup_wf [OF assms(1) order_refl assms(2)] .
  let ?t = "t\<lparr>nameTree := nt\<rparr>"
  have "pfx = take (length pfx) pfx" by simp
  then have ne: "entry_at nt pfx \<noteq> None" using nt(5) by blast
  then obtain nte where nte: "nte_at ?t pfx = Some nte" by auto
  have v: "fib_view ?t = fib_view t" using fib_field.view_payload [OF nt(4)] by simp
  then have fe: "m_fibEntry nte = fib_view t pfx" using fib_viewI [OF nte] by simp
  show ?thesis
  proof (cases "fib_view t pfx")
    case None
    let ?s = "setFibEntry pfx (Some (fib_Entry pfx)) ?t"
    have "Fib_insert pfx t = Some (?s\<lparr>fib_nItems := fib_nItems t + 1\<rparr>, pfx, True)"
      using nt(1) nte fe None by (simp add: Fib_insert_def Let_def)
    moreover have "nt_wf (nameTree ?s)" "fib_view ?s = (fib_view ?t)(pfx \<mapsto> fib_Entry pfx)"
      using setFibEntry_wf [of ?t pfx] nt(2) ne by simp_all
    ultimately show ?thesis using that [of "?s\<lparr>fib_nItems := fib_nItems t + 1\<rparr>"] None v by simp
  next
    case (Some f)
    then have "Fib_insert pfx t = Some (?t, pfx, False)" using nt(1) nte fe by (simp add: Fib_insert_def)
    with that [of ?t] Some v nt(2) show ?thesis by simp
  qed
qed

lemma Fib_erase_nte_spec:
  assumes "nt_wf (nameTree t)" and "nte_at t n \<noteq> None"
  obtains t' where "Fib_erase_nte n canDelete t = Some t'" and "nt_wf (nameTree t')"
    and "fib_view t' = (fib_view t)(n := None)" and "fib_nItems t' = fib_nItems t - 1"
proof -
  obtain nte where nte: "nte_at t n = Some nte" using assms(2) by auto
  let ?s = "setFibEntry n None t"
  note s = setFibEntry_wf [OF assms, of None]
  obtain nt k where nt: "eraseIfEmpty n True (nameTree ?s) = Some (nt, k)" "nt_wf nt"
    "hashFunc nt = hashFunc (nameTree ?s)" "payload (entry_at nt) = payload (entry_at (nameTree ?s))"
    "\<forall>m. entry_at nt m = None \<longrightarrow> entry_at (nameTree ?s) m = None \<or> prefix m n"
    "\<forall>m. entry_at (nameTree ?s) m = None \<longrightarrow> entry_at nt m = None"
    "True \<longrightarrow> (\<forall>m. m \<noteq> n \<longrightarrow> in_use (entry_at (nameTree ?s)) m) \<longrightarrow> (\<forall>m. in_use (entry_at nt) m)"
    using eraseIfEmpty_wf [OF s(1,3), of True] .
  have v: "view m_fibEntry None nt = fib_view ?s" by (rule fib_field.view_payload [OF nt(4)])
  show ?thesis
  proof (cases canDelete)
    case True
    let ?r = "?s\<lparr>nameTree := nt, fib_nItems := fib_nItems t - 1\<rparr>"
    have "Fib_erase_nte n canDelete t = Some ?r" using nte nt(1) True by (simp add: Fib_erase_nte_def Let_def)
    with that [of ?r] nt(2) v s(2) show ?thesis by simp
  next
    case False
    let ?r = "?s\<lparr>fib_nItems := fib_nItems t - 1\<rparr>"
    have "Fib_erase_nte n canDelete t = Some ?r" using nte False by (simp add: Fib_erase_nte_def Let_def)
    with that [of ?r] s show ?thesis by simp
  qed
qed

text \<open>C20: the FIB refines a map from prefixes to FIB entries: inserting a prefix creates an empty
  entry exactly when there is none and reports it, erasing a reference removes exactly that
  entry, exact match finds exactly the entries of the map, and longest prefix match returns
  the longest prefix of the name that has an entry, or the empty entry when none has.\<close>

theorem Fib_refines_map:
  assumes "nt_wf (nameTree t)" and "length pfx \<le> getMaxDepth"
  shows "(\<exists>t'. Fib_insert pfx t = Some (t', pfx, fib_view t pfx = None) \<and> nt_wf (nameTree t') \<and>
      fib_view t' = (if fib_view t pfx = None then (fib_view t)(pfx \<mapsto> fib_Entry pfx) else fib_view t)) \<and>
    (fib_view t pfx \<noteq> None \<longrightarrow>
      (\<exists>t'. Fib_erase (Some pfx) t = Some t' \<and> nt_wf (nameTree t') \<and> fib_view t' = (fib_view t)(pfx := None))) \<and>
    Fib_findExactMatch t pfx = Some (if fib_view t pfx = None then None else Some pfx) \<and>
    Fib_findLongestPrefixMatch t name = Some (lpm (\<lambda>n. fib_view t n \<noteq> None) name)"
proof (intro conjI impI)
  show "\<exists>t'. Fib_insert pfx t = Some (t', pfx, fib_view t pfx = None) \<and> nt_wf (nameTree t') \<and>
      fib_view t' = (if fib_view t pfx = None then (fib_view t)(pfx \<mapsto> fib_Entry pfx) else fib_view t)"
    by (rule Fib_insert_spec [OF assms]) blast
  show "Fib_findExactMatch t pfx = Some (if fib_view t pfx = None then None else Some pfx)"
    using assms(1) by (auto simp: Fib_findExactMatch_def findExactMatch_spec view_def)
  show "Fib_findLongestPrefixMatch t name = Some (lpm (\<lambda>n. fib_view t n \<noteq> None) name)"
    unfolding Fib_findLongestPrefixMatch_def
    by (rule fib_field.lpm_view [OF assms(1)]) (simp_all add: nteHasFibEntry_def)
next
  assume "fib_view t pfx \<noteq> None"
  then have "nte_at t pfx \<noteq> None" by (rule fib_view_exists)
  from Fib_erase_nte_spec [OF assms(1) this, of True]
  show "\<exists>t'. Fib_erase (Some pfx) t = Some t' \<and> nt_wf (nameTree t') \<and> fib_view t' = (fib_view t)(pfx := None)"
    unfolding Fib_erase_def option.case by blast
qed

theorem Fib_refines_map_witness:
  "\<exists>nt t'. NameTree (\<lambda>c. 0) 16 = Some nt \<and>
     Fib_insert [Generic ''a''] (tables_new nt :: (unit, unit) tables) = Some (t', [Generic ''a''], True) \<and>
     fib_view t' [Generic ''a''] = Some (fib_Entry [Generic ''a''])"
proof -
  obtain nt :: "unit nt" where nt: "NameTree (\<lambda>c. 0) 16 = Some nt" "nt_wf nt" "entry_at nt = (\<lambda>_. None)"
    using NameTree_wf [of 16 "\<lambda>c. 0"] by (metis zero_less_numeral)
  let ?t = "tables_new nt :: (unit, unit) tables"
  have "nt_wf (nameTree ?t)" "length [Generic ''a''] \<le> getMaxDepth" "fib_view ?t [Generic ''a''] = None"
    using nt by (simp_all add: tables_new_def getMaxDepth_def FIB_MAX_DEPTH_def view_def)
  with Fib_refines_map [of ?t "[Generic ''a'']" "[]"] nt(1) show ?thesis by auto
qed

text \<open>C39: erasing a prefix that has no FIB entry corrupts the item counter: when the prefix has a
  name tree entry for another reason, \<open>Fib::erase(name)\<close> leaves every FIB entry as it was but
  decrements the counter, which wraps around to 2 ^ 64 - 1 on an empty FIB.\<close>

theorem Fib_erase_name_counter:
  assumes "nt_wf (nameTree t)" and "nte_at t pfx \<noteq> None" and "fib_view t pfx = None"
  shows "\<exists>t'. Fib_erase_name pfx t = Some t' \<and> fib_view t' = fib_view t \<and> fib_nItems t' = fib_nItems t - 1"
proof -
  obtain t' where "Fib_erase_nte pfx True t = Some t'" "nt_wf (nameTree t')"
    "fib_view t' = (fib_view t)(pfx := None)" "fib_nItems t' = fib_nItems t - 1"
    using Fib_erase_nte_spec [OF assms(1,2), of True] .
  moreover have "findExactMatch (nameTree t) pfx (length pfx) = Some (Some pfx)"
    using assms(2) by (simp add: findExactMatch_spec [OF assms(1)])
  ultimately show ?thesis using assms(3) by (auto simp: Fib_erase_name_def fun_eq_iff)
qed

theorem Fib_erase_name_counter_witness:
  "\<exists>nt nt' t'. NameTree (\<lambda>c. 0) 16 = Some nt \<and> lookup [Generic ''a''] 1 nt = Some (nt', [Generic ''a'']) \<and>
     Fib_erase_name [Generic ''a''] (tables_new nt' :: (unit, unit) tables) = Some t' \<and> fib_nItems t' = - 1"
proof -
  obtain nt :: "unit nt" where nt: "NameTree (\<lambda>c. 0) 16 = Some nt" "nt_wf nt" "entry_at nt = (\<lambda>_. None)"
    using NameTree_wf [of 16 "\<lambda>c. 0"] by (metis zero_less_numeral)
  have len: "1 \<le> length [Generic ''a'']" "1 \<le> getMaxDepth" by (simp_all add: getMaxDepth_def FIB_MAX_DEPTH_def)
  obtain nt' where l: "lookup [Generic ''a''] 1 nt = Some (nt', take 1 [Generic ''a''])" "nt_wf nt'"
    "hashFunc nt' = hashFunc nt" "payload (entry_at nt') = payload (entry_at nt)"
    "\<forall>n. entry_at nt' n = None \<longleftrightarrow> (\<forall>j\<le>1. n \<noteq> take j [Generic ''a'']) \<and> entry_at nt n = None"
    using lookup_wf [OF nt(2) len] .
  let ?t = "tables_new nt' :: (unit, unit) tables"
  have a: "nte_at ?t [Generic ''a''] \<noteq> None" using l(5) by (simp add: tables_new_def) (metis le_refl take_Suc_Cons One_nat_def take0)
  have "fib_view ?t = fib_view (tables_new nt :: (unit, unit) tables)"
    using fib_field.view_payload [OF l(4)] by (simp add: tables_new_def)
  then have "fib_view ?t [Generic ''a''] = None" using nt(3) by (simp add: tables_new_def view_def)
  from Fib_erase_name_counter [OF _ a this] l(1,2) nt(1) show ?thesis by (auto simp: tables_new_def)
qed

end
