(* ===== verification/Pit.thy ===== *)
theory Pit
  imports Tables
begin

text \<open>
  \<^verbatim>\<open>daemon/table/pit.{hpp,cpp}\<close>, \<^verbatim>\<open>pit-iterator.{hpp,cpp}\<close> and the PIT part of
  \<^verbatim>\<open>name-tree-entry.cpp\<close>: the pending Interest table.  An entry is attached to the name tree
  entry of its name, without an implicit digest and cut at the depth limit.

  \<^verbatim>\<open>Interest::matchesData\<close> of ndn-cxx is the parameter \<open>matchesData\<close>; what the table relies on is
  the hypothesis \<open>matches_prefix\<close>: a matching Interest's name is a prefix of the full name of
  the Data.

  The lemmas: the attached entries and their back pointers agree, and there is at most one
  attached entry per name and selectors; finding is idempotent; all Data matches are found.
\<close>

definition nteHasPitEntries :: "('f, 'm, 's) nt_entry \<Rightarrow> bool" where
  "nteHasPitEntries nte \<longleftrightarrow> m_pitEntries nte \<noteq> []"

definition insertPitEntry :: "name \<Rightarrow> pit_ref \<Rightarrow> ('i, 'st, 'z) tables_scheme \<Rightarrow> ('i, 'st, 'z) tables_scheme option" where
  "insertPitEntry n r t = do {
     pe \<leftarrow> pit_heap t r;
     assert (m_nameTreeEntry pe = None);
     let t = modify_nte n (m_pitEntries_update (\<lambda>rs. rs @ [r])) t;
     Some (modify_pit r (m_nameTreeEntry_update (\<lambda>_. Some n)) t)
   }"

text \<open>The last element is moved over the erased one.\<close>

definition swap_erase :: "'a \<Rightarrow> 'a list \<Rightarrow> 'a list" where
  "swap_erase x xs = butlast (update_first (\<lambda>y. y = x) (\<lambda>_. last xs) xs)"

definition erasePitEntry :: "name \<Rightarrow> pit_ref \<Rightarrow> ('i, 'st, 'z) tables_scheme \<Rightarrow> ('i, 'st, 'z) tables_scheme option" where
  "erasePitEntry n r t = do {
     pe \<leftarrow> pit_heap t r;
     assert (m_nameTreeEntry pe = Some n);
     nte \<leftarrow> nte_at t n;
     assert (r \<in> set (m_pitEntries nte));
     let t = modify_pit r (m_nameTreeEntry_update (\<lambda>_. None)) t;
     Some (modify_nte n (m_pitEntries_update (swap_erase r)) t)
   }"

definition nteDepth :: "name \<Rightarrow> nat" where
  "nteDepth name = min (length name - (if hasDigest name then 1 else 0)) getMaxDepth"

fun find_match :: "(pit_ref \<Rightarrow> 'i pit_entry option) \<Rightarrow> interest \<Rightarrow> nat \<Rightarrow> pit_ref list \<Rightarrow> pit_ref option option" where
  "find_match heap interest depth [] = Some None"
| "find_match heap interest depth (r # rs) = do {
     pe \<leftarrow> heap r;
     m \<leftarrow> canMatch pe interest depth;
     if m then Some (Some r) else find_match heap interest depth rs
   }"

definition Pit_findOrInsert :: "interest \<Rightarrow> bool \<Rightarrow> ('i, 'st, 'z) tables_scheme \<Rightarrow>
    (('i, 'st, 'z) tables_scheme \<times> pit_ref option \<times> bool) option" where
  "Pit_findOrInsert interest allowInsert t = do {
     let name = getName interest;
     let depth = nteDepth name;
     (nt, nte) \<leftarrow> (if allowInsert
       then map_option (\<lambda>(nt, n). (nt, Some n)) (lookup name depth (nameTree t))
       else map_option (\<lambda>n. (nameTree t, n)) (findExactMatch (nameTree t) name depth));
     case nte of
       None \<Rightarrow> Some (t, None, True)
     | Some n \<Rightarrow> do {
         let t = t\<lparr>nameTree := nt\<rparr>;
         e \<leftarrow> nte_at t n;
         it \<leftarrow> find_match (pit_heap t) interest depth (m_pitEntries e);
         case it of
           Some r \<Rightarrow> Some (t, Some r, False)
         | None \<Rightarrow>
             if \<not> allowInsert then do { assert (\<not> isEmpty e); Some (t, None, True) }
             else do {
               let r = pit_next t;
               let t = t\<lparr>pit_heap := (pit_heap t)(r \<mapsto> pit_Entry interest), pit_next := r + 1\<rparr>;
               t \<leftarrow> insertPitEntry n r t;
               Some (t\<lparr>pit_nItems := pit_nItems t + 1\<rparr>, Some r, True)
             }
       }
   }"

definition Pit_insert :: "interest \<Rightarrow> ('i, 'st, 'z) tables_scheme \<Rightarrow>
    (('i, 'st, 'z) tables_scheme \<times> pit_ref option \<times> bool) option" where
  "Pit_insert interest t = Pit_findOrInsert interest True t"

definition Pit_find :: "interest \<Rightarrow> ('i, 'st, 'z) tables_scheme \<Rightarrow> pit_ref option option" where
  "Pit_find interest t = map_option (fst \<circ> snd) (Pit_findOrInsert interest False t)"

fun matches_in :: "(interest \<Rightarrow> data \<Rightarrow> bool) \<Rightarrow> data \<Rightarrow> (pit_ref \<Rightarrow> 'i pit_entry option) \<Rightarrow> pit_ref list \<Rightarrow>
    pit_ref list option" where
  "matches_in matchesData data heap [] = Some []"
| "matches_in matchesData data heap (r # rs) = do {
     pe \<leftarrow> heap r;
     ms \<leftarrow> matches_in matchesData data heap rs;
     Some (if matchesData (m_interest pe) data then r # ms else ms)
   }"

fun matches_all :: "(interest \<Rightarrow> data \<Rightarrow> bool) \<Rightarrow> data \<Rightarrow> ('i, 'st, 'z) tables_scheme \<Rightarrow> name list \<Rightarrow>
    pit_ref list option" where
  "matches_all matchesData data t [] = Some []"
| "matches_all matchesData data t (n # ns) = do {
     nte \<leftarrow> nte_at t n;
     ms \<leftarrow> matches_in matchesData data (pit_heap t) (m_pitEntries nte);
     rest \<leftarrow> matches_all matchesData data t ns;
     Some (ms @ rest)
   }"

definition findAllDataMatches :: "(interest \<Rightarrow> data \<Rightarrow> bool) \<Rightarrow> data \<Rightarrow> ('i, 'st, 'z) tables_scheme \<Rightarrow>
    pit_ref list option" where
  "findAllDataMatches matchesData data t = do {
     ntMatches \<leftarrow> findAllMatches (nameTree t) (getDataName data) nteHasPitEntries;
     matches_all matchesData data t ntMatches
   }"

definition Pit_erase :: "pit_ref \<Rightarrow> bool \<Rightarrow> ('i, 'st, 'z) tables_scheme \<Rightarrow> ('i, 'st, 'z) tables_scheme option" where
  "Pit_erase r canDeleteNte t = do {
     pe \<leftarrow> pit_heap t r;
     n \<leftarrow> m_nameTreeEntry pe;
     t \<leftarrow> erasePitEntry n r t;
     t \<leftarrow> (if canDeleteNte
       then do { (nt, _) \<leftarrow> eraseIfEmpty n True (nameTree t); Some (t\<lparr>nameTree := nt\<rparr>) }
       else Some t);
     Some (t\<lparr>pit_nItems := pit_nItems t - 1\<rparr>)
   }"

definition deleteInOutRecords :: "pit_ref \<Rightarrow> face_ref \<Rightarrow> ('i, 'st, 'z) tables_scheme \<Rightarrow>
    ('i, 'st, 'z) tables_scheme option" where
  "deleteInOutRecords r face t = do {
     pe \<leftarrow> pit_heap t r;
     Some (modify_pit r (\<lambda>pe. deleteOutRecord face (deleteInRecord face pe)) t)
   }"

text \<open>Iteration: the entries of each name tree entry that has any, in the order of the enumeration.\<close>

fun pit_entries_of :: "('i, 'st, 'z) tables_scheme \<Rightarrow> name list \<Rightarrow> pit_ref list option" where
  "pit_entries_of t [] = Some []"
| "pit_entries_of t (n # ns) = do {
     nte \<leftarrow> nte_at t n;
     assert (m_pitEntries nte \<noteq> []);
     rest \<leftarrow> pit_entries_of t ns;
     Some (m_pitEntries nte @ rest)
   }"

definition Pit_iterate :: "('i, 'st, 'z) tables_scheme \<Rightarrow> pit_ref list option" where
  "Pit_iterate t = do {
     ns \<leftarrow> fullEnumerate (nameTree t) nteHasPitEntries;
     pit_entries_of t ns
   }"

subsection \<open>The invariant\<close>

abbreviation pit_view :: "('i, 'st, 'z) tables_scheme \<Rightarrow> name \<Rightarrow> pit_ref list" where
  "pit_view t \<equiv> view m_pitEntries [] (nameTree t)"

abbreviation pit_key :: "'i pit_entry \<Rightarrow> name \<times> selectors" where
  "pit_key e \<equiv> (getName (m_interest e), getSelectors (m_interest e))"

abbreviation interest_key :: "interest \<Rightarrow> name \<times> selectors" where
  "interest_key i \<equiv> (getName i, getSelectors i)"

definition attached_at :: "(pit_ref \<Rightarrow> 'i pit_entry option) \<Rightarrow> pit_ref \<Rightarrow> name \<Rightarrow> bool" where
  "attached_at heap r n \<longleftrightarrow> (case heap r of None \<Rightarrow> False | Some e \<Rightarrow>
     m_nameTreeEntry e = Some n \<and> n = take (nteDepth (pit_name e)) (pit_name e))"

definition pit_ok :: "('i, 'st, 'z) tables_scheme \<Rightarrow> bool" where
  "pit_ok t \<longleftrightarrow> nt_wf (nameTree t) \<and>
     (\<forall>n. distinct (pit_view t n) \<and> set (pit_view t n) = {r. attached_at (pit_heap t) r n}) \<and>
     (\<forall>r e. pit_heap t r = Some e \<longrightarrow> r < pit_next t \<and>
        (\<forall>n. m_nameTreeEntry e = Some n \<longrightarrow> n = take (nteDepth (pit_name e)) (pit_name e))) \<and>
     (\<forall>r s n d e. attached_at (pit_heap t) r n \<longrightarrow> attached_at (pit_heap t) s n \<longrightarrow>
        pit_heap t r = Some d \<longrightarrow> pit_heap t s = Some e \<longrightarrow> pit_key d = pit_key e \<longrightarrow> r = s)"

lemma pit_okD:
  assumes "pit_ok t"
  shows "nt_wf (nameTree t)" and "distinct (pit_view t n)"
    and "r \<in> set (pit_view t n) \<longleftrightarrow> attached_at (pit_heap t) r n"
    and "pit_heap t r = Some e \<Longrightarrow> r < pit_next t"
    and "pit_heap t r = Some e \<Longrightarrow> m_nameTreeEntry e = Some n \<Longrightarrow> n = take (nteDepth (pit_name e)) (pit_name e)"
    and "attached_at (pit_heap t) r n \<Longrightarrow> attached_at (pit_heap t) s n \<Longrightarrow> pit_heap t r = Some d \<Longrightarrow>
      pit_heap t s = Some e \<Longrightarrow> pit_key d = pit_key e \<Longrightarrow> r = s"
  using assms unfolding pit_ok_def by blast+

lemma nteDepth_le: "nteDepth name \<le> length name" "nteDepth name \<le> getMaxDepth"
  by (simp_all add: nteDepth_def)

lemma attached_name: "attached_at h r n \<Longrightarrow> \<exists>e. h r = Some e \<and> m_nameTreeEntry e = Some n \<and> take (nteDepth (pit_name e)) (pit_name e) = n"
  by (auto simp: attached_at_def split: option.splits)

lemma swap_erase:
  assumes "distinct xs" and "x \<in> set xs"
  shows "set (swap_erase x xs) = set xs - {x}" and "distinct (swap_erase x xs)"
proof -
  obtain ys z where xs: "xs = ys @ [z]" using assms(2) by (cases xs rule: rev_cases) auto
  have upd: "update_first (\<lambda>y. y = x) f (us @ vs) =
      (if x \<in> set us then update_first (\<lambda>y. y = x) f us @ vs else us @ update_first (\<lambda>y. y = x) f vs)" for f us vs
    by (induction us) auto
  have set_upd: "x \<in> set us \<Longrightarrow> distinct us \<Longrightarrow> set (update_first (\<lambda>y. y = x) (\<lambda>_. z) us) = insert z (set us - {x})" for us
    by (induction us) auto
  have dist_upd: "distinct us \<Longrightarrow> z \<notin> set us \<Longrightarrow> distinct (update_first (\<lambda>y. y = x) (\<lambda>_. z) us)" for us
  proof (induction us)
    case (Cons u us)
    then show ?case using set_update_first [of _ "\<lambda>y. y = x" "\<lambda>_. z" us] by auto
  qed simp
  show "set (swap_erase x xs) = set xs - {x}"
    using assms unfolding xs swap_erase_def upd by (auto simp: set_upd)
  show "distinct (swap_erase x xs)"
    using assms unfolding xs swap_erase_def upd by (auto simp: dist_upd)
qed

subsection \<open>The operations keep the invariant\<close>

lemma pit_ok_nt:
  assumes "pit_ok t" and "nt_wf nt" and "payload (entry_at nt) = payload (entry_at (nameTree t))"
  shows "pit_ok (t\<lparr>nameTree := nt\<rparr>)" and "pit_view (t\<lparr>nameTree := nt\<rparr>) = pit_view t"
proof -
  show v: "pit_view (t\<lparr>nameTree := nt\<rparr>) = pit_view t"
    using pit_field.view_payload [OF assms(3)] by simp
  show "pit_ok (t\<lparr>nameTree := nt\<rparr>)"
    unfolding pit_ok_def v using assms(1,2) by (simp add: pit_ok_def)
qed

definition key_is :: "(pit_ref \<Rightarrow> 'i pit_entry option) \<Rightarrow> name \<times> selectors \<Rightarrow> pit_ref \<Rightarrow> bool" where
  "key_is heap k r \<longleftrightarrow> (case heap r of None \<Rightarrow> False | Some e \<Rightarrow> pit_key e = k)"

lemma canMatch_attached:
  assumes "heap r = Some e" and "attached_at heap r (take (nteDepth (getName interest)) (getName interest))"
  shows "canMatch e interest (nteDepth (getName interest)) = Some (pit_key e = interest_key interest)"
proof -
  let ?k = "nteDepth (getName interest)" and ?n = "getName interest"
  have n: "take ?k ?n = take (nteDepth (pit_name e)) (pit_name e)"
    using assms by (simp add: attached_at_def)
  from arg_cong [OF this, of length] have k: "?k = nteDepth (pit_name e)"
    using nteDepth_le(1) [of ?n] nteDepth_le(1) [of "pit_name e"] by simp
  have "pit_name e = ?n \<longleftrightarrow> drop ?k (pit_name e) = drop ?k ?n"
    using n k by (metis append_take_drop_id)
  then show ?thesis using n k by (auto simp: canMatch_def)
qed

lemma find_match_spec:
  assumes "\<forall>r\<in>set rs. attached_at heap r (take (nteDepth (getName interest)) (getName interest))"
  shows "find_match heap interest (nteDepth (getName interest)) rs = Some (List.find (key_is heap (interest_key interest)) rs)"
  using assms
proof (induction rs)
  case (Cons r rs)
  then obtain e where e: "heap r = Some e" using attached_name by fastforce
  then show ?case using Cons canMatch_attached [of heap r e interest] by (simp add: key_is_def)
qed simp

lemma insertPitEntry_ok:
  assumes "pit_ok t" and "nte_at t n \<noteq> None" and "n = take (nteDepth (getName interest)) (getName interest)"
    and "\<not> (\<exists>r. attached_at (pit_heap t) r n \<and> key_is (pit_heap t) (interest_key interest) r)"
  defines "r \<equiv> pit_next t"
  defines "t1 \<equiv> t\<lparr>pit_heap := (pit_heap t)(r \<mapsto> pit_Entry interest), pit_next := r + 1\<rparr>"
  obtains t' where "insertPitEntry n r t1 = Some t'" and "pit_ok t'" and "pit_next t' = r + 1"
    and "pit_heap t' = (pit_heap t)(r \<mapsto> pit_Entry interest\<lparr>m_nameTreeEntry := Some n\<rparr>)"
    and "pit_view t' = (pit_view t)(n := pit_view t n @ [r])"
proof -
  let ?e = "pit_Entry interest\<lparr>m_nameTreeEntry := Some n\<rparr>"
  let ?h = "(pit_heap t)(r \<mapsto> ?e)"
  let ?nt = "modify n (m_pitEntries_update (\<lambda>rs. rs @ [r])) (nameTree t)"
  let ?t = "modify_pit r (m_nameTreeEntry_update (\<lambda>_. Some n)) (modify_nte n (m_pitEntries_update (\<lambda>rs. rs @ [r])) t1)"
  have wf: "nt_wf (nameTree t)" by (rule pit_okD(1) [OF assms(1)])
  have res: "insertPitEntry n r t1 = Some ?t"
    by (simp add: insertPitEntry_def t1_def Let_def pit_Entry_def)
  have f: "nameTree ?t = ?nt" "pit_heap ?t = ?h" "pit_next ?t = r + 1"
    by (simp_all add: modify_pit_def modify_nte_def t1_def fun_eq_iff)
  have v: "pit_view ?t = (pit_view t)(n := pit_view t n @ [r])"
    unfolding f(1) by (rule pit_field.view_modify [OF wf assms(2)])
  have fresh: "pit_heap t r = None"
    using pit_okD(4) [OF assms(1), of r] by (cases "pit_heap t r") (auto simp: r_def)
  have att: "attached_at ?h s m \<longleftrightarrow> (if s = r then m = n else attached_at (pit_heap t) s m)" for s m
    using assms(3) by (auto simp: attached_at_def pit_Entry_def)
  have notr: "\<not> attached_at (pit_heap t) r m" for m using fresh by (simp add: attached_at_def)
  have sv: "s \<in> set (pit_view t m) \<longleftrightarrow> attached_at (pit_heap t) s m" for s m by (rule pit_okD(3) [OF assms(1)])
  have rn: "r \<notin> set (pit_view t m)" for m by (simp add: sv notr)
  have "pit_ok ?t"
    unfolding pit_ok_def
  proof (intro conjI allI)
    show "nt_wf (nameTree ?t)" unfolding f(1) by (rule pit_field.modify_upd(1) [OF wf])
    show "distinct (pit_view ?t m)" for m
      unfolding v using pit_okD(2) [OF assms(1), of m] pit_okD(2) [OF assms(1), of n] rn by simp
    show "set (pit_view ?t m) = {s. attached_at (pit_heap ?t) s m}" for m
      unfolding v f(2) by (rule set_eqI) (simp add: att sv notr)
    show "pit_heap ?t s = Some e \<longrightarrow> s < pit_next ?t \<and>
        (\<forall>m. m_nameTreeEntry e = Some m \<longrightarrow> m = take (nteDepth (pit_name e)) (pit_name e))" for s e
    proof
      assume h: "pit_heap ?t s = Some e"
      show "s < pit_next ?t \<and> (\<forall>m. m_nameTreeEntry e = Some m \<longrightarrow> m = take (nteDepth (pit_name e)) (pit_name e))"
      proof (cases "s = r")
        case True
        then have "e = ?e" using h unfolding f(2) by simp
        then show ?thesis using True assms(3) unfolding f(3) by (simp add: pit_Entry_def)
      next
        case False
        then have "pit_heap t s = Some e" using h unfolding f(2) by simp
        moreover from this have "s < r" unfolding r_def by (rule pit_okD(4) [OF assms(1)])
        ultimately show ?thesis using pit_okD(5) [OF assms(1)] unfolding f(3) by simp
      qed
    qed
    show "attached_at (pit_heap ?t) s m \<longrightarrow> attached_at (pit_heap ?t) s' m \<longrightarrow> pit_heap ?t s = Some d \<longrightarrow>
        pit_heap ?t s' = Some d' \<longrightarrow> pit_key d = pit_key d' \<longrightarrow> s = s'" for s s' m d d'
    proof (intro impI)
      assume a: "attached_at (pit_heap ?t) s m" "attached_at (pit_heap ?t) s' m" "pit_heap ?t s = Some d"
        "pit_heap ?t s' = Some d'" "pit_key d = pit_key d'"
      have new: "\<not> (attached_at (pit_heap t) s n \<and> pit_heap t s = Some d \<and> pit_key d = interest_key interest)" for s d
        using assms(4) by (auto simp: key_is_def)
      consider "s = r" "s' = r" | "s = r" "s' \<noteq> r" | "s \<noteq> r" "s' = r" | "s \<noteq> r" "s' \<noteq> r" by blast
      then show "s = s'"
      proof cases
        case 2
        then have "attached_at (pit_heap t) s' n \<and> pit_heap t s' = Some d' \<and> pit_key d' = interest_key interest"
          using a unfolding f(2) att by (auto simp: pit_Entry_def)
        with new show ?thesis by blast
      next
        case 3
        then have "attached_at (pit_heap t) s n \<and> pit_heap t s = Some d \<and> pit_key d = interest_key interest"
          using a unfolding f(2) att by (auto simp: pit_Entry_def)
        with new show ?thesis by blast
      next
        case 4
        then show ?thesis using a pit_okD(6) [OF assms(1), of s m s' d d'] unfolding f(2) att by simp
      qed simp
    qed
  qed
  then show ?thesis using that [OF res] f v by simp
qed

lemma pit_ok_items [simp]: "pit_ok (t\<lparr>pit_nItems := k\<rparr>) = pit_ok t"
  by (simp add: pit_ok_def)

lemma Pit_insert_wf:
  assumes "pit_ok t"
  defines "n \<equiv> \<lambda>i. take (nteDepth (getName i)) (getName i)"
  obtains t' r e where "Pit_insert interest t = Some (t', Some r,
      \<not> (\<exists>r. attached_at (pit_heap t) r (n interest) \<and> key_is (pit_heap t) (interest_key interest) r))"
    and "pit_ok t'" and "pit_heap t' r = Some e" and "pit_key e = interest_key interest"
    and "attached_at (pit_heap t') r (n interest)"
    and "\<forall>s. s \<noteq> r \<longrightarrow> pit_heap t' s = pit_heap t s"
    and "(\<exists>r. attached_at (pit_heap t) r (n interest) \<and> key_is (pit_heap t) (interest_key interest) r) \<longrightarrow>
      pit_heap t' = pit_heap t"
proof -
  let ?n = "n interest" and ?d = "nteDepth (getName interest)"
  let ?P = "key_is (pit_heap t) (interest_key interest)"
  obtain nt where nt: "lookup (getName interest) ?d (nameTree t) = Some (nt, take ?d (getName interest))" "nt_wf nt"
    "hashFunc nt = hashFunc (nameTree t)" "payload (entry_at nt) = payload (entry_at (nameTree t))"
    "\<forall>m. entry_at nt m = None \<longleftrightarrow> (\<forall>j\<le>?d. m \<noteq> take j (getName interest)) \<and> entry_at (nameTree t) m = None"
    using lookup_wf [OF pit_okD(1) [OF assms(1)] nteDepth_le] .
  let ?t = "t\<lparr>nameTree := nt\<rparr>"
  have nn: "n interest = take ?d (getName interest)" by (simp add: n_def)
  have ok: "pit_ok ?t" "pit_view ?t = pit_view t" using pit_ok_nt [OF assms(1) nt(2,4)] .
  have ne: "entry_at nt ?n \<noteq> None" using nt(5) by (auto simp: nn)
  then obtain nte where nte: "entry_at nt ?n = Some nte" by auto
  have rs: "m_pitEntries nte = pit_view t ?n"
    using fun_cong [OF ok(2), of ?n] nte by (simp add: view_def [of _ _ nt])
  have mem: "r \<in> set (pit_view t ?n) \<longleftrightarrow> attached_at (pit_heap t) r ?n" for r by (rule pit_okD(3) [OF assms(1)])
  have fm: "find_match (pit_heap t) interest ?d (m_pitEntries nte) = Some (List.find ?P (pit_view t ?n))"
    unfolding rs by (rule find_match_spec) (use mem in \<open>simp add: nn\<close>)
  show ?thesis
  proof (cases "List.find ?P (pit_view t ?n)")
    case None
    then have no: "\<not> (\<exists>r. attached_at (pit_heap t) r ?n \<and> ?P r)" using mem by (auto simp: find_eq_None)
    have ne': "nte_at ?t ?n \<noteq> None" using ne by simp
    have no': "\<not> (\<exists>r. attached_at (pit_heap ?t) r ?n \<and> key_is (pit_heap ?t) (interest_key interest) r)" using no by simp
    obtain t' where t': "insertPitEntry ?n (pit_next ?t)
        (?t\<lparr>pit_heap := (pit_heap ?t)(pit_next ?t \<mapsto> pit_Entry interest), pit_next := pit_next ?t + 1\<rparr>) = Some t'"
      "pit_ok t'" "pit_next t' = pit_next ?t + 1"
      "pit_heap t' = (pit_heap ?t)(pit_next ?t \<mapsto> pit_Entry interest\<lparr>m_nameTreeEntry := Some ?n\<rparr>)"
      "pit_view t' = (pit_view ?t)(?n := pit_view ?t ?n @ [pit_next ?t])"
      using insertPitEntry_ok [OF ok(1) ne' nn no'] .
    let ?e = "pit_Entry interest\<lparr>m_nameTreeEntry := Some ?n\<rparr>"
    have "Pit_insert interest t = Some (t'\<lparr>pit_nItems := pit_nItems t' + 1\<rparr>, Some (pit_next t), True)"
      using nt(1) nte fm None t'(1) by (simp add: Pit_insert_def Pit_findOrInsert_def nn Let_def)
    moreover have "attached_at (pit_heap t') (pit_next t) ?n"
      unfolding t'(4) by (simp add: attached_at_def pit_Entry_def nn)
    ultimately show ?thesis
      using that [of "t'\<lparr>pit_nItems := pit_nItems t' + 1\<rparr>" "pit_next t" ?e] no t'(2,4)
      by (simp add: pit_Entry_def)
  next
    case (Some r)
    then have r: "attached_at (pit_heap t) r ?n" "?P r" using find_SomeD [OF Some] mem by auto
    then obtain e where e: "pit_heap t r = Some e" "pit_key e = interest_key interest"
      by (auto simp: key_is_def split: option.splits)
    have "Pit_insert interest t = Some (?t, Some r, False)"
      using nt(1) nte fm Some by (simp add: Pit_insert_def Pit_findOrInsert_def nn)
    moreover have "\<exists>r. attached_at (pit_heap t) r ?n \<and> ?P r" using r by blast
    ultimately show ?thesis using that [of ?t r e] ok(1) e r by simp
  qed
qed

lemma modify_pit_ok:
  assumes "pit_ok t" and "\<And>e. m_interest (f e) = m_interest e" and "\<And>e. m_nameTreeEntry (f e) = m_nameTreeEntry e"
  shows "pit_ok (modify_pit r f t)"
proof -
  let ?h = "pit_heap (modify_pit r f t)"
  have h: "?h s = (if s = r then map_option f (pit_heap t s) else pit_heap t s)" for s
    by (simp add: modify_pit_def)
  have att: "attached_at ?h s n = attached_at (pit_heap t) s n" for s n
    using assms(2,3) by (cases "pit_heap t s") (auto simp: attached_at_def h)
  have orig: "\<exists>d. pit_heap t s = Some d \<and> m_interest d = m_interest e \<and> m_nameTreeEntry d = m_nameTreeEntry e"
    if "?h s = Some e" for s e
    using that assms(2,3) by (cases "pit_heap t s") (auto simp: h split: if_splits)
  have nt: "nameTree (modify_pit r f t) = nameTree t" "pit_next (modify_pit r f t) = pit_next t"
    by (simp_all add: modify_pit_def)
  show ?thesis
    unfolding pit_ok_def att nt
  proof (intro conjI allI impI)
    show "nt_wf (nameTree t)" "distinct (pit_view t n)" "set (pit_view t n) = {r. attached_at (pit_heap t) r n}" for n
      using pit_okD(1,2) [OF assms(1)] pit_okD(3) [OF assms(1)] by auto
    fix s e assume "?h s = Some e"
    from orig [OF this] obtain d where d: "pit_heap t s = Some d" "m_interest d = m_interest e"
      "m_nameTreeEntry d = m_nameTreeEntry e" by blast
    from d(1) show "s < pit_next t" by (rule pit_okD(4) [OF assms(1)])
    fix n assume "m_nameTreeEntry e = Some n"
    with pit_okD(5) [OF assms(1) d(1), of n] d(2,3) show "n = take (nteDepth (pit_name e)) (pit_name e)" by simp
  next
    fix s s' n d e
    assume a: "attached_at (pit_heap t) s n" "attached_at (pit_heap t) s' n" "?h s = Some d" "?h s' = Some e" "pit_key d = pit_key e"
    from orig [OF a(3)] orig [OF a(4)] obtain d' e' where "pit_heap t s = Some d'" "pit_heap t s' = Some e'"
      "m_interest d' = m_interest d" "m_interest e' = m_interest e" by blast
    with pit_okD(6) [OF assms(1) a(1,2), of d' e'] a(5) show "s = s'" by simp
  qed
qed

lemma erasePitEntry_ok:
  assumes "pit_ok t" and "pit_heap t r = Some e" and "m_nameTreeEntry e = Some n"
  obtains t' where "erasePitEntry n r t = Some t'" and "pit_ok t'" and "nte_at t' n \<noteq> None"
    and "pit_heap t' = (pit_heap t)(r \<mapsto> e\<lparr>m_nameTreeEntry := None\<rparr>)" and "pit_nItems t' = pit_nItems t"
    and "pit_next t' = pit_next t"
proof -
  let ?h = "(pit_heap t)(r \<mapsto> e\<lparr>m_nameTreeEntry := None\<rparr>)"
  let ?nt = "modify n (m_pitEntries_update (swap_erase r)) (nameTree t)"
  let ?t = "modify_nte n (m_pitEntries_update (swap_erase r)) (modify_pit r (m_nameTreeEntry_update (\<lambda>_. None)) t)"
  have wf: "nt_wf (nameTree t)" by (rule pit_okD(1) [OF assms(1)])
  have att_r: "attached_at (pit_heap t) r n"
    using assms(2,3) pit_okD(5) [OF assms(1,2,3)] by (simp add: attached_at_def)
  then have rin: "r \<in> set (pit_view t n)" using pit_okD(3) [OF assms(1)] by simp
  then have ne: "nte_at t n \<noteq> None" by (cases "nte_at t n") (auto simp: view_def)
  then obtain nte where nte: "nte_at t n = Some nte" by auto
  have "r \<in> set (m_pitEntries nte)" using rin nte by (simp add: view_def)
  then have res: "erasePitEntry n r t = Some ?t" using assms(2,3) nte by (simp add: erasePitEntry_def)
  have f: "nameTree ?t = ?nt" "pit_heap ?t = ?h" "pit_next ?t = pit_next t" "pit_nItems ?t = pit_nItems t"
    using assms(2) by (simp_all add: modify_pit_def modify_nte_def fun_eq_iff)
  have v: "pit_view ?t = (pit_view t)(n := swap_erase r (pit_view t n))"
    unfolding f(1) by (rule pit_field.view_modify [OF wf ne])
  have sv: "s \<in> set (pit_view t m) \<longleftrightarrow> attached_at (pit_heap t) s m" for s m by (rule pit_okD(3) [OF assms(1)])
  note se = swap_erase [OF pit_okD(2) [OF assms(1)] rin]
  have only: "attached_at (pit_heap t) r m \<Longrightarrow> m = n" for m using assms(2,3) by (auto simp: attached_at_def)
  have att: "attached_at ?h s m \<longleftrightarrow> s \<noteq> r \<and> attached_at (pit_heap t) s m" for s m by (simp add: attached_at_def)
  have "pit_ok ?t"
    unfolding pit_ok_def
  proof (intro conjI allI impI)
    show "nt_wf (nameTree ?t)" unfolding f(1) by (rule pit_field.modify_upd(1) [OF wf])
    show "distinct (pit_view ?t m)" for m unfolding v using se(2) pit_okD(2) [OF assms(1)] by simp
    show "set (pit_view ?t m) = {s. attached_at (pit_heap ?t) s m}" for m
      unfolding v f(2) by (rule set_eqI) (use se(1) only in \<open>auto simp: att sv\<close>)
    fix s x assume h: "pit_heap ?t s = Some x"
    obtain d where d: "pit_heap t s = Some d" "m_interest d = m_interest x" "m_nameTreeEntry x = None \<or> x = d"
      using h assms(2) unfolding f(2) by (cases "s = r") auto
    from d(1) show "s < pit_next ?t" unfolding f(3) by (rule pit_okD(4) [OF assms(1)])
    fix m assume "m_nameTreeEntry x = Some m"
    with d(3) pit_okD(5) [OF assms(1) d(1), of m] show "m = take (nteDepth (pit_name x)) (pit_name x)" by auto
  next
    fix s s' m d d'
    assume a: "attached_at (pit_heap ?t) s m" "attached_at (pit_heap ?t) s' m" "pit_heap ?t s = Some d"
      "pit_heap ?t s' = Some d'" "pit_key d = pit_key d'"
    then show "s = s'" using pit_okD(6) [OF assms(1), of s m s' d d'] unfolding f(2) att by simp
  qed
  moreover have "nte_at ?t n \<noteq> None" unfolding f(1) pit_field.modify_upd(2) [OF wf] using ne by simp
  ultimately show ?thesis using that [OF res] f by simp
qed

lemma Pit_erase_ok:
  assumes "pit_ok t" and "pit_heap t r = Some e" and "m_nameTreeEntry e = Some n"
  obtains t' where "Pit_erase r canDelete t = Some t'" and "pit_ok t'"
    and "pit_heap t' = (pit_heap t)(r \<mapsto> e\<lparr>m_nameTreeEntry := None\<rparr>)" and "pit_nItems t' = pit_nItems t - 1"
proof -
  obtain t1 where t1: "erasePitEntry n r t = Some t1" "pit_ok t1" "nte_at t1 n \<noteq> None"
    "pit_heap t1 = (pit_heap t)(r \<mapsto> e\<lparr>m_nameTreeEntry := None\<rparr>)" "pit_nItems t1 = pit_nItems t"
    "pit_next t1 = pit_next t" using erasePitEntry_ok [OF assms] .
  obtain nt k where nt: "eraseIfEmpty n True (nameTree t1) = Some (nt, k)" "nt_wf nt"
    "hashFunc nt = hashFunc (nameTree t1)" "payload (entry_at nt) = payload (entry_at (nameTree t1))"
    "\<forall>m. entry_at nt m = None \<longrightarrow> entry_at (nameTree t1) m = None \<or> prefix m n"
    "\<forall>m. entry_at (nameTree t1) m = None \<longrightarrow> entry_at nt m = None"
    "True \<longrightarrow> (\<forall>m. m \<noteq> n \<longrightarrow> in_use (entry_at (nameTree t1)) m) \<longrightarrow> (\<forall>m. in_use (entry_at nt) m)"
    using eraseIfEmpty_wf [OF pit_okD(1) [OF t1(2)] t1(3), of True] .
  show ?thesis
  proof (cases canDelete)
    case True
    let ?r = "t1\<lparr>nameTree := nt, pit_nItems := pit_nItems t1 - 1\<rparr>"
    have "Pit_erase r canDelete t = Some ?r" using assms t1(1) nt(1) True by (simp add: Pit_erase_def)
    moreover have "pit_ok ?r" using pit_ok_nt(1) [OF t1(2) nt(2,4)] by (simp add: pit_ok_def)
    ultimately show ?thesis using that [of ?r] t1(4,5) by simp
  next
    case False
    then have "Pit_erase r canDelete t = Some (t1\<lparr>pit_nItems := pit_nItems t1 - 1\<rparr>)"
      using assms t1(1) by (simp add: Pit_erase_def)
    then show ?thesis using that t1 by simp
  qed
qed

subsection \<open>Data matches\<close>

lemma matches_in_spec:
  "\<forall>r\<in>set rs. heap r \<noteq> None \<Longrightarrow>
   matches_in md d heap rs = Some (filter (\<lambda>r. \<exists>e. heap r = Some e \<and> md (m_interest e) d) rs)"
  by (induction rs) auto

lemma matches_all_spec:
  assumes "pit_ok t"
  shows "\<forall>n\<in>set ns. nte_at t n \<noteq> None \<Longrightarrow> \<exists>rs. matches_all md d t ns = Some rs \<and>
    (\<forall>r. r \<in> set rs \<longleftrightarrow> (\<exists>n\<in>set ns. attached_at (pit_heap t) r n \<and> (\<exists>e. pit_heap t r = Some e \<and> md (m_interest e) d)))"
proof (induction ns)
  case (Cons n ns)
  then obtain rs where rs: "matches_all md d t ns = Some rs"
    "\<forall>r. r \<in> set rs \<longleftrightarrow> (\<exists>n\<in>set ns. attached_at (pit_heap t) r n \<and> (\<exists>e. pit_heap t r = Some e \<and> md (m_interest e) d))"
    by auto
  obtain nte where nte: "nte_at t n = Some nte" using Cons.prems by auto
  then have m: "m_pitEntries nte = pit_view t n" by (simp add: view_def)
  have mem: "r \<in> set (pit_view t n) \<longleftrightarrow> attached_at (pit_heap t) r n" for r by (rule pit_okD(3) [OF assms])
  have "\<forall>r\<in>set (pit_view t n). pit_heap t r \<noteq> None" using attached_name by (fastforce simp: mem)
  from matches_in_spec [OF this] nte rs(1) m
  have "matches_all md d t (n # ns) =
      Some (filter (\<lambda>r. \<exists>e. pit_heap t r = Some e \<and> md (m_interest e) d) (pit_view t n) @ rs)" by simp
  then show ?case using rs(2) mem by (intro exI conjI) auto
qed simp

lemma attached_prefix_of_data:
  assumes "prefix (pit_name e) (getFullName d)"
  shows "prefix (take (nteDepth (pit_name e)) (pit_name e)) (getDataName d)"
proof (cases "pit_name e = getFullName d")
  case True
  have "hasDigest (pit_name e)" unfolding True by (simp add: hasDigest_def getFullName_def isImplicitSha256Digest_def)
  then have "nteDepth (pit_name e) \<le> length (getDataName d)" unfolding True by (simp add: nteDepth_def getFullName_def)
  then show ?thesis unfolding True by (simp add: getFullName_def take_is_prefix)
next
  case False
  with assms have "prefix (pit_name e) (getDataName d)" by (auto simp: getFullName_def prefix_snoc)
  then show ?thesis using take_is_prefix prefix_order.trans by blast
qed

subsection \<open>Properties\<close>

lemma has_key_iff:
  assumes "pit_ok t"
  shows "(\<exists>r. attached_at (pit_heap t) r (take (nteDepth (getName interest)) (getName interest)) \<and>
      key_is (pit_heap t) (interest_key interest) r) \<longleftrightarrow>
    (\<exists>s d. pit_heap t s = Some d \<and> m_nameTreeEntry d \<noteq> None \<and> getName (m_interest d) = getName interest \<and>
      getSelectors (m_interest d) = getSelectors interest)" (is "?l \<longleftrightarrow> ?r")
proof
  assume ?l
  then show ?r by (auto simp: attached_at_def key_is_def split: option.splits)
next
  assume ?r
  then obtain s d n where d: "pit_heap t s = Some d" "m_nameTreeEntry d = Some n" "getName (m_interest d) = getName interest"
      "getSelectors (m_interest d) = getSelectors interest" by (elim exE conjE) (metis not_None_eq)
  with pit_okD(5) [OF assms d(1,2)] show ?l
    by (intro exI [of _ s]) (simp add: attached_at_def key_is_def)
qed

text \<open>C4: inserting an Interest into the PIT finds the one attached entry with the same name and
  selectors, or creates it: the returned entry has the Interest's name and selectors and is
  attached, it is reported new exactly when no such entry was attached, no other entry
  changes, the invariant of the table is kept, and inserting again returns the same entry
  and creates nothing.\<close>

theorem Pit_insert_spec:
  assumes "pit_ok t"
  shows "\<exists>t' r e new. Pit_insert interest t = Some (t', Some r, new) \<and> pit_ok t' \<and>
    pit_heap t' r = Some e \<and> getName (m_interest e) = getName interest \<and>
    getSelectors (m_interest e) = getSelectors interest \<and> m_nameTreeEntry e \<noteq> None \<and>
    (new \<longleftrightarrow> \<not> (\<exists>s d. pit_heap t s = Some d \<and> m_nameTreeEntry d \<noteq> None \<and> getName (m_interest d) = getName interest \<and>
        getSelectors (m_interest d) = getSelectors interest)) \<and>
    (\<forall>s. s \<noteq> r \<longrightarrow> pit_heap t' s = pit_heap t s) \<and>
    (\<exists>t''. Pit_insert interest t' = Some (t'', Some r, False) \<and> pit_heap t'' = pit_heap t')"
proof -
  let ?n = "\<lambda>i. take (nteDepth (getName i)) (getName i)"
  let ?ex = "\<lambda>t :: ('a, 'b, 'c) tables_scheme. \<exists>r. attached_at (pit_heap t) r (?n interest) \<and> key_is (pit_heap t) (interest_key interest) r"
  have ex: "?ex t \<longleftrightarrow> (\<exists>s d. pit_heap t s = Some d \<and> m_nameTreeEntry d \<noteq> None \<and> getName (m_interest d) = getName interest \<and>
        getSelectors (m_interest d) = getSelectors interest)" by (rule has_key_iff [OF assms])
  obtain t' r e where 1: "Pit_insert interest t = Some (t', Some r, \<not> ?ex t)" "pit_ok t'" "pit_heap t' r = Some e"
    "pit_key e = interest_key interest" "attached_at (pit_heap t') r (?n interest)"
    "\<forall>s. s \<noteq> r \<longrightarrow> pit_heap t' s = pit_heap t s" "?ex t \<longrightarrow> pit_heap t' = pit_heap t"
    using Pit_insert_wf [OF assms, of interest] .
  obtain t'' r' e' where 2: "Pit_insert interest t' = Some (t'', Some r', \<not> ?ex t')" "pit_ok t''" "pit_heap t'' r' = Some e'"
    "pit_key e' = interest_key interest" "attached_at (pit_heap t'') r' (?n interest)"
    "\<forall>s. s \<noteq> r' \<longrightarrow> pit_heap t'' s = pit_heap t' s" "?ex t' \<longrightarrow> pit_heap t'' = pit_heap t'"
    using Pit_insert_wf [OF 1(2), of interest] .
  have k: "key_is (pit_heap t') (interest_key interest) r" using 1(3,4) by (simp add: key_is_def)
  have ex': "?ex t'" using 1(5) k by (intro exI conjI)
  from mp [OF 2(7) ex'] have h: "pit_heap t'' = pit_heap t'" .
  have e': "pit_heap t' r' = Some e'" "attached_at (pit_heap t') r' (?n interest)" using 2(3,5) h by simp_all
  have "r' = r" using pit_okD(6) [OF 1(2) e'(2) 1(5) e'(1) 1(3)] 1(4) 2(4) by simp
  then have again: "Pit_insert interest t' = Some (t'', Some r, False)" using 2(1) ex' by simp
  have "m_nameTreeEntry e \<noteq> None" using 1(3,5) by (simp add: attached_at_def)
  moreover have "getName (m_interest e) = getName interest" "getSelectors (m_interest e) = getSelectors interest"
    using 1(4) by simp_all
  ultimately show ?thesis
    by (intro exI [of _ t'] exI [of _ r] exI [of _ e] exI [of _ "\<not> ?ex t"] exI [of _ t''] conjI)
       (rule 1 again h ex [THEN arg_cong [where f = Not]] | assumption)+
qed

definition example_interest :: interest where
  "example_interest = \<lparr>getName = [Generic ''a'', Generic ''b''],
     getSelectors = \<lparr>getMustBeFresh = False, getChildSelector = 0, otherSelectors = ''''\<rparr>, getNonce = 1,
     getInterestLifetime = 4000, getForwardingHint = [], getNextHopFaceId = None\<rparr>"

lemma pit_ok_new: "nt_wf nt \<Longrightarrow> entry_at nt = (\<lambda>_. None) \<Longrightarrow> pit_ok (tables_new nt)"
  by (simp add: pit_ok_def tables_new_def view_def attached_at_def)

theorem Pit_insert_spec_witness:
  "\<exists>nt t' r. NameTree (\<lambda>c. 0) 16 = Some nt \<and>
     Pit_insert example_interest (tables_new nt :: (unit, unit) tables) = Some (t', Some r, True) \<and> pit_ok t'"
proof -
  obtain nt :: "unit nt" where nt: "NameTree (\<lambda>c. 0) 16 = Some nt" "nt_wf nt" "entry_at nt = (\<lambda>_. None)"
    using NameTree_wf [of 16 "\<lambda>c. 0"] by (metis zero_less_numeral)
  have "pit_ok (tables_new nt :: (unit, unit) tables)" using nt(2,3) by (rule pit_ok_new)
  from Pit_insert_spec [OF this, of example_interest] nt(1) show ?thesis
    by (auto simp: tables_new_def)
qed

text \<open>C12: all Data matches are found: for any matching predicate under which a matching Interest's
  name is a prefix of the full name of the Data, the PIT returns exactly the attached
  entries whose Interest matches the Data.\<close>

theorem findAllDataMatches_complete:
  assumes "pit_ok t"
    and matches_prefix: "\<And>i. matchesData i data \<Longrightarrow> prefix (getName i) (getFullName data)"
  shows "\<exists>rs. findAllDataMatches matchesData data t = Some rs \<and>
    set rs = {r. \<exists>e. pit_heap t r = Some e \<and> m_nameTreeEntry e \<noteq> None \<and> matchesData (m_interest e) data}"
proof -
  have wf: "nt_wf (nameTree t)" by (rule pit_okD(1) [OF assms(1)])
  let ?sel = "selected (nameTree t) nteHasPitEntries"
  let ?ns = "filter ?sel (rev (prefixes (getDataName data)))"
  have "\<forall>n\<in>set ?ns. nte_at t n \<noteq> None" using selected_exists by auto
  from matches_all_spec [OF assms(1) this, of matchesData data] obtain rs where rs:
    "matches_all matchesData data t ?ns = Some rs"
    "\<forall>r. r \<in> set rs \<longleftrightarrow> (\<exists>n\<in>set ?ns. attached_at (pit_heap t) r n \<and> (\<exists>e. pit_heap t r = Some e \<and> matchesData (m_interest e) data))"
    by blast
  have "r \<in> set rs \<longleftrightarrow> (\<exists>e. pit_heap t r = Some e \<and> m_nameTreeEntry e \<noteq> None \<and> matchesData (m_interest e) data)" for r
  proof
    assume "r \<in> set rs"
    then show "\<exists>e. pit_heap t r = Some e \<and> m_nameTreeEntry e \<noteq> None \<and> matchesData (m_interest e) data"
      using rs(2) attached_name by fastforce
  next
    assume "\<exists>e. pit_heap t r = Some e \<and> m_nameTreeEntry e \<noteq> None \<and> matchesData (m_interest e) data"
    then obtain e n where e: "pit_heap t r = Some e" "m_nameTreeEntry e = Some n" "matchesData (m_interest e) data" by auto
    then have n: "n = take (nteDepth (pit_name e)) (pit_name e)" using pit_okD(5) [OF assms(1)] by blast
    have att: "attached_at (pit_heap t) r n" using e n by (simp add: attached_at_def)
    then have "r \<in> set (pit_view t n)" using pit_okD(3) [OF assms(1)] by simp
    then have "?sel n" by (cases "nte_at t n") (auto simp: view_def selected_def nteHasPitEntries_def)
    moreover have "prefix n (getDataName data)"
      unfolding n using attached_prefix_of_data [OF matches_prefix [OF e(3)]] .
    ultimately have "n \<in> set ?ns" by simp
    with att e show "r \<in> set rs" using rs(2) by blast
  qed
  moreover have "findAllDataMatches matchesData data t = Some rs"
    using rs(1) by (simp add: findAllDataMatches_def findAllMatches_spec [OF wf])
  ultimately show ?thesis by blast
qed

definition example_data :: data where
  "example_data = \<lparr>getDataName = [Generic ''a'', Generic ''b''], getDigest = ''d'', getFreshnessPeriod = 0,
     getCachePolicyNoCache = False, getContent = ''x''\<rparr>"

theorem findAllDataMatches_complete_witness:
  "\<exists>nt t' r rs. NameTree (\<lambda>c. 0) 16 = Some nt \<and>
     Pit_insert example_interest (tables_new nt :: (unit, unit) tables) = Some (t', Some r, True) \<and>
     findAllDataMatches (\<lambda>i d. prefix (getName i) (getFullName d)) example_data t' = Some rs \<and> r \<in> set rs"
proof -
  obtain nt :: "unit nt" where nt: "NameTree (\<lambda>c. 0) 16 = Some nt" "nt_wf nt" "entry_at nt = (\<lambda>_. None)"
    using NameTree_wf [of 16 "\<lambda>c. 0"] by (metis zero_less_numeral)
  let ?t = "tables_new nt :: (unit, unit) tables"
  let ?n = "\<lambda>i. take (nteDepth (getName i)) (getName i)"
  have ok: "pit_ok ?t" using nt(2,3) by (rule pit_ok_new)
  have no: "\<not> (\<exists>r. attached_at (pit_heap ?t) r (?n example_interest) \<and> key_is (pit_heap ?t) (interest_key example_interest) r)"
    by (simp add: tables_new_def key_is_def)
  obtain t' r e where t':
    "Pit_insert example_interest ?t = Some (t', Some r, \<not> (\<exists>r. attached_at (pit_heap ?t) r (?n example_interest) \<and>
       key_is (pit_heap ?t) (interest_key example_interest) r))" "pit_ok t'" "pit_heap t' r = Some e"
    "pit_key e = interest_key example_interest" "attached_at (pit_heap t') r (?n example_interest)"
    "\<forall>s. s \<noteq> r \<longrightarrow> pit_heap t' s = pit_heap ?t s"
    "(\<exists>r. attached_at (pit_heap ?t) r (?n example_interest) \<and>
       key_is (pit_heap ?t) (interest_key example_interest) r) \<longrightarrow> pit_heap t' = pit_heap ?t"
    using Pit_insert_wf [OF ok, of example_interest] .
  have "\<exists>rs. findAllDataMatches (\<lambda>i d. prefix (getName i) (getFullName d)) example_data t' = Some rs \<and>
      set rs = {r. \<exists>e. pit_heap t' r = Some e \<and> m_nameTreeEntry e \<noteq> None \<and>
        prefix (getName (m_interest e)) (getFullName example_data)}"
    by (rule findAllDataMatches_complete [OF t'(2)])
  moreover have "m_nameTreeEntry e \<noteq> None" using t'(3,5) by (auto simp: attached_at_def)
  moreover have "prefix (getName (m_interest e)) (getFullName example_data)"
    using t'(4) by (simp add: example_interest_def example_data_def getFullName_def)
  ultimately show ?thesis using nt(1) t'(1,3) no by auto
qed

end
