(* ===== verification/City_Hash.thy ===== *)
theory City_Hash
  imports Nfd_Prelude
begin

text \<open>
  \<^verbatim>\<open>core/city-hash.{hpp,cpp}\<close>: CityHash, which hashes the components of names in the name tree and
  the (name, nonce) pairs of the dead nonce list.

  The input is a buffer of octets, a pointer is an offset into it (an integer, since the
  code subtracts from pointers), and a load outside the buffer is None.  Words keep their
  width; loads are little-endian.  A loop is a recursive function on the remaining length or
  iteration count, with the variables the loop changes as a tuple.

  The lemmas: no function of the family reads outside the input, whatever its length.
\<close>

unbundle bit_operations_syntax

type_synonym buffer = "8 word list"
type_synonym uint128 = "64 word \<times> 64 word"

text \<open>Octets to words and back, least significant first.\<close>

definition load_le :: "8 word list \<Rightarrow> 'a::len word" where
  "load_le bs = foldr (\<lambda>b acc. push_bit 8 acc OR ucast b) bs 0"

definition store_le :: "nat \<Rightarrow> 'a::len word \<Rightarrow> 8 word list" where
  "store_le n x = map (\<lambda>i. ucast (drop_bit (8 * i) x)) [0..<n]"

definition bswap_32 :: "32 word \<Rightarrow> 32 word" where
  "bswap_32 x = load_le (rev (store_le 4 x))"

definition bswap_64 :: "64 word \<Rightarrow> 64 word" where
  "bswap_64 x = load_le (rev (store_le 8 x))"

definition load_bytes :: "buffer \<Rightarrow> int \<Rightarrow> nat \<Rightarrow> 8 word list option" where
  "load_bytes buf p n =
     (if 0 \<le> p \<and> p + int n \<le> int (length buf) then Some (take n (drop (nat p) buf)) else None)"

definition Fetch64 :: "buffer \<Rightarrow> int \<Rightarrow> 64 word option" where
  "Fetch64 buf p = map_option load_le (load_bytes buf p 8)"

definition Fetch32 :: "buffer \<Rightarrow> int \<Rightarrow> 32 word option" where
  "Fetch32 buf p = map_option load_le (load_bytes buf p 4)"

definition Fetch8 :: "buffer \<Rightarrow> int \<Rightarrow> 8 word option" where
  "Fetch8 buf p = map_option hd (load_bytes buf p 1)"

definition k0 :: "64 word" where "k0 = 0xc3a5c85c97cb3127"
definition k1 :: "64 word" where "k1 = 0xb492b66fbe98f273"
definition k2 :: "64 word" where "k2 = 0x9ae16a3b2f90404f"
definition c1 :: "32 word" where "c1 = 0xcc9e2d51"
definition c2 :: "32 word" where "c2 = 0x1b873593"

subsection \<open>32 bits\<close>

definition fmix :: "32 word \<Rightarrow> 32 word" where
  "fmix h = (let
     h = h XOR drop_bit 16 h;
     h = h * 0x85ebca6b;
     h = h XOR drop_bit 13 h;
     h = h * 0xc2b2ae35
     in h XOR drop_bit 16 h)"

definition Rotate32 :: "32 word \<Rightarrow> nat \<Rightarrow> 32 word" where
  "Rotate32 val shift = (if shift = 0 then val else drop_bit shift val OR push_bit (32 - shift) val)"

definition Mur :: "32 word \<Rightarrow> 32 word \<Rightarrow> 32 word" where
  "Mur a h = (let
     a = a * c1;
     a = Rotate32 a 17;
     a = a * c2;
     h = h XOR a;
     h = Rotate32 h 19
     in h * 5 + 0xe6546b64)"

definition Hash32Len13to24 :: "buffer \<Rightarrow> int \<Rightarrow> nat \<Rightarrow> 32 word option" where
  "Hash32Len13to24 buf s len = do {
     a \<leftarrow> Fetch32 buf (s - 4 + int (len div 2));
     b \<leftarrow> Fetch32 buf (s + 4);
     c \<leftarrow> Fetch32 buf (s + int len - 8);
     d \<leftarrow> Fetch32 buf (s + int (len div 2));
     e \<leftarrow> Fetch32 buf s;
     f \<leftarrow> Fetch32 buf (s + int len - 4);
     let h = of_nat len;
     Some (fmix (Mur f (Mur e (Mur d (Mur c (Mur b (Mur a h)))))))
   }"

text \<open>Each octet is added as a signed character.\<close>

fun hash32_loop :: "buffer \<Rightarrow> int \<Rightarrow> nat list \<Rightarrow> 32 word \<Rightarrow> 32 word \<Rightarrow> (32 word \<times> 32 word) option" where
  "hash32_loop buf s [] b c = Some (b, c)"
| "hash32_loop buf s (i # is) b c = do {
     v \<leftarrow> Fetch8 buf (s + int i);
     let b = b * c1 + scast v;
     let c = c XOR b;
     hash32_loop buf s is b c
   }"

definition Hash32Len0to4 :: "buffer \<Rightarrow> int \<Rightarrow> nat \<Rightarrow> 32 word option" where
  "Hash32Len0to4 buf s len = do {
     (b, c) \<leftarrow> hash32_loop buf s [0..<len] 0 9;
     Some (fmix (Mur b (Mur (of_nat len) c)))
   }"

definition Hash32Len5to12 :: "buffer \<Rightarrow> int \<Rightarrow> nat \<Rightarrow> 32 word option" where
  "Hash32Len5to12 buf s len = do {
     let a = of_nat len;
     let b = of_nat (len * 5);
     let c = 9;
     let d = b;
     x \<leftarrow> Fetch32 buf s;
     let a = a + x;
     y \<leftarrow> Fetch32 buf (s + int len - 4);
     let b = b + y;
     z \<leftarrow> Fetch32 buf (s + int ((len div 2) AND 4));
     let c = c + z;
     Some (fmix (Mur c (Mur b (Mur a d))))
   }"

text \<open>One iteration of the main loop, and the loop; \<open>iters\<close> is the count before the decrement.\<close>

definition city32_step :: "buffer \<Rightarrow> int \<Rightarrow> 32 word \<times> 32 word \<times> 32 word \<Rightarrow>
    (32 word \<times> 32 word \<times> 32 word) option" where
  "city32_step buf s st = (case st of (f, g, h) \<Rightarrow> do {
     x0 \<leftarrow> Fetch32 buf s;
     let a0 = Rotate32 (x0 * c1) 17 * c2;
     a1 \<leftarrow> Fetch32 buf (s + 4);
     x2 \<leftarrow> Fetch32 buf (s + 8);
     let a2 = Rotate32 (x2 * c1) 17 * c2;
     x3 \<leftarrow> Fetch32 buf (s + 12);
     let a3 = Rotate32 (x3 * c1) 17 * c2;
     a4 \<leftarrow> Fetch32 buf (s + 16);
     let h = h XOR a0;
     let h = Rotate32 h 18;
     let h = h * 5 + 0xe6546b64;
     let f = f + a1;
     let f = Rotate32 f 19;
     let f = f * c1;
     let g = g + a2;
     let g = Rotate32 g 18;
     let g = g * 5 + 0xe6546b64;
     let h = h XOR (a3 + a1);
     let h = Rotate32 h 19;
     let h = h * 5 + 0xe6546b64;
     let g = g XOR a4;
     let g = bswap_32 g * 5;
     let h = h + a4 * 5;
     let h = bswap_32 h;
     let f = f + a0;
     Some (g, h, f)
   })"

fun city32_loop :: "buffer \<Rightarrow> int \<Rightarrow> nat \<Rightarrow> 32 word \<times> 32 word \<times> 32 word \<Rightarrow>
    (32 word \<times> 32 word \<times> 32 word) option" where
  "city32_loop buf s 0 st = Some st"
| "city32_loop buf s (Suc iters) st = do {
     st \<leftarrow> city32_step buf s st;
     city32_loop buf (s + 20) iters st
   }"

definition CityHash32 :: "buffer \<Rightarrow> int \<Rightarrow> nat \<Rightarrow> 32 word option" where
  "CityHash32 buf s len =
     (if len \<le> 24 then
        (if len \<le> 12 then (if len \<le> 4 then Hash32Len0to4 buf s len else Hash32Len5to12 buf s len)
         else Hash32Len13to24 buf s len)
      else do {
        let h = of_nat len;
        let g = c1 * of_nat len;
        let f = g;
        x0 \<leftarrow> Fetch32 buf (s + int len - 4);
        let a0 = Rotate32 (x0 * c1) 17 * c2;
        x1 \<leftarrow> Fetch32 buf (s + int len - 8);
        let a1 = Rotate32 (x1 * c1) 17 * c2;
        x2 \<leftarrow> Fetch32 buf (s + int len - 16);
        let a2 = Rotate32 (x2 * c1) 17 * c2;
        x3 \<leftarrow> Fetch32 buf (s + int len - 12);
        let a3 = Rotate32 (x3 * c1) 17 * c2;
        x4 \<leftarrow> Fetch32 buf (s + int len - 20);
        let a4 = Rotate32 (x4 * c1) 17 * c2;
        let h = h XOR a0;
        let h = Rotate32 h 19;
        let h = h * 5 + 0xe6546b64;
        let h = h XOR a2;
        let h = Rotate32 h 19;
        let h = h * 5 + 0xe6546b64;
        let g = g XOR a1;
        let g = Rotate32 g 19;
        let g = g * 5 + 0xe6546b64;
        let g = g XOR a3;
        let g = Rotate32 g 19;
        let g = g * 5 + 0xe6546b64;
        let f = f + a4;
        let f = Rotate32 f 19;
        let f = f * 5 + 0xe6546b64;
        let iters = (len - 1) div 20;
        (f, g, h) \<leftarrow> city32_loop buf s iters (f, g, h);
        let g = Rotate32 g 11 * c1;
        let g = Rotate32 g 17 * c1;
        let f = Rotate32 f 11 * c1;
        let f = Rotate32 f 17 * c1;
        let h = Rotate32 (h + g) 19;
        let h = h * 5 + 0xe6546b64;
        let h = Rotate32 h 17 * c1;
        let h = Rotate32 (h + f) 19;
        let h = h * 5 + 0xe6546b64;
        let h = Rotate32 h 17 * c1;
        Some h
      })"

subsection \<open>64 bits\<close>

definition Rotate :: "64 word \<Rightarrow> nat \<Rightarrow> 64 word" where
  "Rotate val shift = (if shift = 0 then val else drop_bit shift val OR push_bit (64 - shift) val)"

definition ShiftMix :: "64 word \<Rightarrow> 64 word" where
  "ShiftMix val = val XOR drop_bit 47 val"

definition Hash128to64 :: "uint128 \<Rightarrow> 64 word" where
  "Hash128to64 x = (let
     kMul = 0x9ddfea08eb382d69;
     a = (fst x XOR snd x) * kMul;
     a = a XOR drop_bit 47 a;
     b = (snd x XOR a) * kMul;
     b = b XOR drop_bit 47 b
     in b * kMul)"

definition HashLen16 :: "64 word \<Rightarrow> 64 word \<Rightarrow> 64 word" where
  "HashLen16 u v = Hash128to64 (u, v)"

definition HashLen16_mul :: "64 word \<Rightarrow> 64 word \<Rightarrow> 64 word \<Rightarrow> 64 word" where
  "HashLen16_mul u v mul = (let
     a = (u XOR v) * mul;
     a = a XOR drop_bit 47 a;
     b = (v XOR a) * mul;
     b = b XOR drop_bit 47 b
     in b * mul)"

definition HashLen0to16 :: "buffer \<Rightarrow> int \<Rightarrow> nat \<Rightarrow> 64 word option" where
  "HashLen0to16 buf s len =
     (if 8 \<le> len then do {
        let mul = k2 + of_nat len * 2;
        x \<leftarrow> Fetch64 buf s;
        let a = x + k2;
        b \<leftarrow> Fetch64 buf (s + int len - 8);
        let c = Rotate b 37 * mul + a;
        let d = (Rotate a 25 + b) * mul;
        Some (HashLen16_mul c d mul)
      }
      else if 4 \<le> len then do {
        let mul = k2 + of_nat len * 2;
        x \<leftarrow> Fetch32 buf s;
        let a = ucast x;
        y \<leftarrow> Fetch32 buf (s + int len - 4);
        Some (HashLen16_mul (of_nat len + push_bit 3 a) (ucast y) mul)
      }
      else if 0 < len then do {
        a \<leftarrow> Fetch8 buf s;
        b \<leftarrow> Fetch8 buf (s + int (len div 2));
        c \<leftarrow> Fetch8 buf (s + int len - 1);
        let y = (ucast a + push_bit 8 (ucast b) :: 32 word);
        let z = (of_nat len + push_bit 2 (ucast c) :: 32 word);
        Some (ShiftMix (ucast y * k2 XOR ucast z * k0) * k2)
      }
      else Some k2)"

definition HashLen17to32 :: "buffer \<Rightarrow> int \<Rightarrow> nat \<Rightarrow> 64 word option" where
  "HashLen17to32 buf s len = do {
     let mul = k2 + of_nat len * 2;
     x \<leftarrow> Fetch64 buf s;
     let a = x * k1;
     b \<leftarrow> Fetch64 buf (s + 8);
     y \<leftarrow> Fetch64 buf (s + int len - 8);
     let c = y * mul;
     z \<leftarrow> Fetch64 buf (s + int len - 16);
     let d = z * k2;
     Some (HashLen16_mul (Rotate (a + b) 43 + Rotate c 30 + d) (a + Rotate (b + k2) 18 + c) mul)
   }"

definition weakHash :: "64 word \<Rightarrow> 64 word \<Rightarrow> 64 word \<Rightarrow> 64 word \<Rightarrow> 64 word \<Rightarrow> 64 word \<Rightarrow> uint128" where
  "weakHash w x y z a b = (let
     a = a + w;
     b = Rotate (b + a + z) 21;
     c = a;
     a = a + x;
     a = a + y;
     b = b + Rotate a 44
     in (a + z, b + c))"

definition WeakHashLen32WithSeeds :: "buffer \<Rightarrow> int \<Rightarrow> 64 word \<Rightarrow> 64 word \<Rightarrow> uint128 option" where
  "WeakHashLen32WithSeeds buf s a b = do {
     w \<leftarrow> Fetch64 buf s;
     x \<leftarrow> Fetch64 buf (s + 8);
     y \<leftarrow> Fetch64 buf (s + 16);
     z \<leftarrow> Fetch64 buf (s + 24);
     Some (weakHash w x y z a b)
   }"

definition HashLen33to64 :: "buffer \<Rightarrow> int \<Rightarrow> nat \<Rightarrow> 64 word option" where
  "HashLen33to64 buf s len = do {
     let mul = k2 + of_nat len * 2;
     a \<leftarrow> map_option (\<lambda>x. x * k2) (Fetch64 buf s);
     b \<leftarrow> Fetch64 buf (s + 8);
     c \<leftarrow> Fetch64 buf (s + int len - 24);
     d \<leftarrow> Fetch64 buf (s + int len - 32);
     e \<leftarrow> map_option (\<lambda>x. x * k2) (Fetch64 buf (s + 16));
     f \<leftarrow> map_option (\<lambda>x. x * 9) (Fetch64 buf (s + 24));
     g \<leftarrow> Fetch64 buf (s + int len - 8);
     h \<leftarrow> map_option (\<lambda>x. x * mul) (Fetch64 buf (s + int len - 16));
     let u = Rotate (a + g) 43 + (Rotate b 30 + c) * 9;
     let v = ((a + g) XOR d) + f + 1;
     let w = bswap_64 ((u + v) * mul) + h;
     let x = Rotate (e + f) 42 + c;
     let y = (bswap_64 ((v + w) * mul) + g) * mul;
     let z = e + f + c;
     let a = bswap_64 ((x + z) * mul + y) + b;
     let b = ShiftMix ((z + a) * mul + d + h) * mul;
     Some (b + x)
   }"

text \<open>The state of the loops of \<^verbatim>\<open>CityHash64\<close> and \<^verbatim>\<open>CityHash128WithSeed\<close> is (x, y, z, v, w).\<close>

type_synonym city_state = "64 word \<times> 64 word \<times> 64 word \<times> uint128 \<times> uint128"

definition city_step :: "buffer \<Rightarrow> int \<Rightarrow> city_state \<Rightarrow> city_state option" where
  "city_step buf s st = (case st of (x, y, z, v, w) \<Rightarrow> do {
     f8 \<leftarrow> Fetch64 buf (s + 8);
     let x = Rotate (x + y + fst v + f8) 37 * k1;
     f48 \<leftarrow> Fetch64 buf (s + 48);
     let y = Rotate (y + snd v + f48) 42 * k1;
     let x = x XOR snd w;
     f40 \<leftarrow> Fetch64 buf (s + 40);
     let y = y + (fst v + f40);
     let z = Rotate (z + fst w) 33 * k1;
     v \<leftarrow> WeakHashLen32WithSeeds buf s (snd v * k1) (x + fst w);
     f16 \<leftarrow> Fetch64 buf (s + 16);
     w \<leftarrow> WeakHashLen32WithSeeds buf (s + 32) (z + snd w) (y + f16);
     Some (z, y, x, v, w)
   })"

fun city64_loop :: "buffer \<Rightarrow> int \<Rightarrow> nat \<Rightarrow> city_state \<Rightarrow> city_state option" where
  "city64_loop buf s len st = do {
     st \<leftarrow> city_step buf s st;
     if len - 64 \<noteq> 0 then city64_loop buf (s + 64) (len - 64) st else Some st
   }"

declare city64_loop.simps [simp del]

definition CityHash64 :: "buffer \<Rightarrow> int \<Rightarrow> nat \<Rightarrow> 64 word option" where
  "CityHash64 buf s len =
     (if len \<le> 32 then (if len \<le> 16 then HashLen0to16 buf s len else HashLen17to32 buf s len)
      else if len \<le> 64 then HashLen33to64 buf s len
      else do {
        x \<leftarrow> Fetch64 buf (s + int len - 40);
        y1 \<leftarrow> Fetch64 buf (s + int len - 16);
        y2 \<leftarrow> Fetch64 buf (s + int len - 56);
        let y = y1 + y2;
        z1 \<leftarrow> Fetch64 buf (s + int len - 48);
        z2 \<leftarrow> Fetch64 buf (s + int len - 24);
        let z = HashLen16 (z1 + of_nat len) z2;
        v \<leftarrow> WeakHashLen32WithSeeds buf (s + int len - 64) (of_nat len) z;
        w \<leftarrow> WeakHashLen32WithSeeds buf (s + int len - 32) (y + k1) x;
        f0 \<leftarrow> Fetch64 buf s;
        let x = x * k1 + f0;
        let len = (len - 1) div 64 * 64;
        (x, y, z, v, w) \<leftarrow> city64_loop buf s len (x, y, z, v, w);
        Some (HashLen16 (HashLen16 (fst v) (fst w) + ShiftMix y * k1 + z)
                        (HashLen16 (snd v) (snd w) + x))
      })"

definition CityHash64WithSeeds :: "buffer \<Rightarrow> int \<Rightarrow> nat \<Rightarrow> 64 word \<Rightarrow> 64 word \<Rightarrow> 64 word option" where
  "CityHash64WithSeeds buf s len seed0 seed1 =
     map_option (\<lambda>h. HashLen16 (h - seed0) seed1) (CityHash64 buf s len)"

definition CityHash64WithSeed :: "buffer \<Rightarrow> int \<Rightarrow> nat \<Rightarrow> 64 word \<Rightarrow> 64 word option" where
  "CityHash64WithSeed buf s len seed = CityHash64WithSeeds buf s len k2 seed"

subsection \<open>128 bits\<close>

text \<open>The remaining length \<open>l\<close> is a signed long.\<close>

function murmur_loop :: "buffer \<Rightarrow> int \<Rightarrow> int \<Rightarrow> 64 word \<times> 64 word \<times> 64 word \<times> 64 word \<Rightarrow>
    (64 word \<times> 64 word \<times> 64 word \<times> 64 word) option" where
  "murmur_loop buf s l (a, b, c, d) = do {
     x \<leftarrow> Fetch64 buf s;
     let a = a XOR ShiftMix (x * k1) * k1;
     let a = a * k1;
     let b = b XOR a;
     y \<leftarrow> Fetch64 buf (s + 8);
     let c = c XOR ShiftMix (y * k1) * k1;
     let c = c * k1;
     let d = d XOR c;
     if 0 < l - 16 then murmur_loop buf (s + 16) (l - 16) (a, b, c, d) else Some (a, b, c, d)
   }"
  by pat_completeness auto
termination by (relation "measure (\<lambda>(_, _, l, _). nat l)") auto

declare murmur_loop.simps [simp del]

definition CityMurmur :: "buffer \<Rightarrow> int \<Rightarrow> nat \<Rightarrow> uint128 \<Rightarrow> uint128 option" where
  "CityMurmur buf s len seed = do {
     let a = fst seed;
     let b = snd seed;
     let l = int len - 16;
     (a, b, c, d) \<leftarrow>
       (if l \<le> 0 then do {
          let a = ShiftMix (a * k1) * k1;
          h \<leftarrow> HashLen0to16 buf s len;
          let c = b * k1 + h;
          x \<leftarrow> (if 8 \<le> len then Fetch64 buf s else Some c);
          let d = ShiftMix (a + x);
          Some (a, b, c, d)
        }
        else do {
          x \<leftarrow> Fetch64 buf (s + int len - 8);
          let c = HashLen16 (x + k1) a;
          y \<leftarrow> Fetch64 buf (s + int len - 16);
          let d = HashLen16 (b + of_nat len) (c + y);
          let a = a + d;
          murmur_loop buf s l (a, b, c, d)
        });
     let a = HashLen16 a c;
     let b = HashLen16 d b;
     Some (a XOR b, HashLen16 b a)
   }"

fun city128_loop :: "buffer \<Rightarrow> int \<Rightarrow> nat \<Rightarrow> city_state \<Rightarrow> (city_state \<times> int \<times> nat) option" where
  "city128_loop buf s len st = do {
     st \<leftarrow> city_step buf s st;
     let s = s + 64;
     st \<leftarrow> city_step buf s st;
     let s = s + 64;
     if 128 \<le> len - 128 then city128_loop buf s (len - 128) st else Some (st, s, len - 128)
   }"

declare city128_loop.simps [simp del]

function tail_loop :: "buffer \<Rightarrow> int \<Rightarrow> nat \<Rightarrow> nat \<Rightarrow> city_state \<Rightarrow> city_state option" where
  "tail_loop buf s len tail_done (x, y, z, v, w) =
     (if tail_done < len then do {
        let tail_done = tail_done + 32;
        let y = Rotate (x + y) 42 * k0 + snd v;
        f16 \<leftarrow> Fetch64 buf (s + int len - int tail_done + 16);
        let w = (fst w + f16, snd w);
        let x = x * k0 + fst w;
        f0 \<leftarrow> Fetch64 buf (s + int len - int tail_done);
        let z = z + (snd w + f0);
        let w = (fst w, snd w + fst v);
        v \<leftarrow> WeakHashLen32WithSeeds buf (s + int len - int tail_done) (fst v + z) (snd v);
        let v = (fst v * k0, snd v);
        tail_loop buf s len tail_done (x, y, z, v, w)
      }
      else Some (x, y, z, v, w))"
  by pat_completeness auto
termination by (relation "measure (\<lambda>(_, _, len, tail_done, _). len - tail_done)") auto

declare tail_loop.simps [simp del]

definition CityHash128WithSeed :: "buffer \<Rightarrow> int \<Rightarrow> nat \<Rightarrow> uint128 \<Rightarrow> uint128 option" where
  "CityHash128WithSeed buf s len seed =
     (if len < 128 then CityMurmur buf s len seed
      else do {
        let x = fst seed;
        let y = snd seed;
        let z = of_nat len * k1;
        f0 \<leftarrow> Fetch64 buf s;
        let v1 = Rotate (y XOR k1) 49 * k1 + f0;
        f8 \<leftarrow> Fetch64 buf (s + 8);
        let v2 = Rotate v1 42 * k1 + f8;
        let w1 = Rotate (y + z) 35 * k1 + x;
        f88 \<leftarrow> Fetch64 buf (s + 88);
        let w2 = Rotate (x + f88) 53 * k1;
        (st, s, len) \<leftarrow> city128_loop buf s len (x, y, z, (v1, v2), (w1, w2));
        case st of (x, y, z, v, w) \<Rightarrow> do {
          let x = x + Rotate (fst v + z) 49 * k0;
          let y = y * k0 + Rotate (snd w) 37;
          let z = z * k0 + Rotate (fst w) 27;
          let w = (fst w * 9, snd w);
          let v = (fst v * k0, snd v);
          (x, y, z, v, w) \<leftarrow> tail_loop buf s len 0 (x, y, z, v, w);
          let x = HashLen16 x (fst v);
          let y = HashLen16 (y + z) (fst w);
          Some (HashLen16 (x + snd v) (snd w) + y, HashLen16 (x + snd w) (y + snd v))
        }
      })"

definition CityHash128 :: "buffer \<Rightarrow> int \<Rightarrow> nat \<Rightarrow> uint128 option" where
  "CityHash128 buf s len =
     (if 16 \<le> len then do {
        f0 \<leftarrow> Fetch64 buf s;
        f8 \<leftarrow> Fetch64 buf (s + 8);
        CityHash128WithSeed buf (s + 16) (len - 16) (f0, f8 + k0)
      }
      else CityHash128WithSeed buf s len (k0, k1))"

subsection \<open>No load is out of bounds\<close>

text \<open>The rules that follow the structure of a definition down to its loads.\<close>

named_theorems reads

lemma Fetch_defined [reads]:
  "0 \<le> p \<Longrightarrow> p + 8 \<le> int (length buf) \<Longrightarrow> Fetch64 buf p \<noteq> None"
  "0 \<le> p \<Longrightarrow> p + 4 \<le> int (length buf) \<Longrightarrow> Fetch32 buf p \<noteq> None"
  "0 \<le> p \<Longrightarrow> p + 1 \<le> int (length buf) \<Longrightarrow> Fetch8 buf p \<noteq> None"
  by (simp_all add: Fetch64_def Fetch32_def Fetch8_def load_bytes_def)

lemma defined_rules [reads]:
  "m \<noteq> None \<Longrightarrow> (\<And>x. m = Some x \<Longrightarrow> f x \<noteq> None) \<Longrightarrow> Option.bind m f \<noteq> None"
  "(\<And>x. g x \<noteq> None) \<Longrightarrow> (let x = (w :: 'a::len word) in g x) \<noteq> None"
  "(\<And>x. g' x \<noteq> None) \<Longrightarrow> (let x = (u :: uint128) in g' x) \<noteq> None"
  "(\<And>x. x = j \<Longrightarrow> gn x \<noteq> None) \<Longrightarrow> (let x = (j :: nat) in gn x) \<noteq> None"
  "(\<And>x. x = i \<Longrightarrow> gi x \<noteq> None) \<Longrightarrow> (let x = (i :: int) in gi x) \<noteq> None"
  "m \<noteq> None \<Longrightarrow> map_option h m \<noteq> None"
  "Some z \<noteq> None"
  "(\<And>x y. p = (x, y) \<Longrightarrow> k x y \<noteq> None) \<Longrightarrow> (case p of (x, y) \<Rightarrow> k x y) \<noteq> None"
  "(b \<Longrightarrow> m \<noteq> None) \<Longrightarrow> (\<not> b \<Longrightarrow> n \<noteq> None) \<Longrightarrow> (if b then m else n) \<noteq> None"
  by (auto split: prod.splits)

lemma weak_defined [reads]:
  "0 \<le> s \<Longrightarrow> s + 32 \<le> int (length buf) \<Longrightarrow> WeakHashLen32WithSeeds buf s a b \<noteq> None"
  unfolding WeakHashLen32WithSeeds_def by (intro reads; simp)

lemma city_step_defined [reads]:
  "0 \<le> s \<Longrightarrow> s + 64 \<le> int (length buf) \<Longrightarrow> city_step buf s st \<noteq> None"
  unfolding city_step_def by (intro reads; simp)

lemma short_defined [reads]:
  assumes "0 \<le> s" and "s + int len \<le> int (length buf)"
  shows "HashLen0to16 buf s len \<noteq> None"
    and "16 < len \<Longrightarrow> HashLen17to32 buf s len \<noteq> None"
    and "32 < len \<Longrightarrow> HashLen33to64 buf s len \<noteq> None"
    and "4 < len \<Longrightarrow> len \<le> 12 \<Longrightarrow> Hash32Len5to12 buf s len \<noteq> None"
    and "12 < len \<Longrightarrow> Hash32Len13to24 buf s len \<noteq> None"
proof -
  show "HashLen0to16 buf s len \<noteq> None"
    unfolding HashLen0to16_def by (intro reads; use assms in simp)
  show "HashLen17to32 buf s len \<noteq> None" if "16 < len"
    unfolding HashLen17to32_def by (intro reads; use assms that in simp)
  show "HashLen33to64 buf s len \<noteq> None" if "32 < len"
    unfolding HashLen33to64_def by (intro reads; use assms that in simp)
  show "Hash32Len13to24 buf s len \<noteq> None" if "12 < len"
    unfolding Hash32Len13to24_def by (intro reads; use assms that in simp)
  show "Hash32Len5to12 buf s len \<noteq> None" if "4 < len" "len \<le> 12"
  proof -
    have "(len div 2) AND 4 \<le> len - 4"
    proof -
      have "len \<in> {5, 6, 7, 8, 9, 10, 11, 12}" using that by auto
      then show ?thesis by (auto simp: and_nat_unfold)
    qed
    with that show ?thesis
      unfolding Hash32Len5to12_def by (intro reads; use assms in simp)
  qed
qed

lemma hash32_loop_defined [reads]:
  "0 \<le> s \<Longrightarrow> \<forall>i\<in>set is. s + int i < int (length buf) \<Longrightarrow> hash32_loop buf s is b c \<noteq> None"
proof (induction "is" arbitrary: b c)
  case (Cons i "is")
  then show ?case unfolding hash32_loop.simps by (intro reads Cons.IH; simp)
qed simp

lemma city32_step_defined [reads]:
  "0 \<le> s \<Longrightarrow> s + 20 \<le> int (length buf) \<Longrightarrow> city32_step buf s st \<noteq> None"
  unfolding city32_step_def by (intro reads; simp)

lemma city32_loop_defined [reads]:
  "0 \<le> s \<Longrightarrow> s + 20 * int iters \<le> int (length buf) \<Longrightarrow> city32_loop buf s iters st \<noteq> None"
proof (induction iters arbitrary: s st)
  case (Suc iters)
  then show ?case unfolding city32_loop.simps by (intro reads Suc.IH; simp)
qed simp

lemma city64_loop_defined [reads]:
  "0 \<le> s \<Longrightarrow> 64 dvd len \<Longrightarrow> 0 < len \<Longrightarrow> s + int len \<le> int (length buf) \<Longrightarrow> city64_loop buf s len st \<noteq> None"
proof (induction buf s len st rule: city64_loop.induct)
  case (1 buf s len st)
  have len: "64 \<le> len" using 1(3,4) by (auto dest: dvd_imp_le)
  then have "64 dvd (len - 64)" using 1(3) by (simp add: dvd_diff_nat)
  with 1 len show ?case by (subst city64_loop.simps) (intro reads "1.IH"; simp)
qed

lemma murmur_loop_defined [reads]:
  "0 \<le> s \<Longrightarrow> 0 < l \<Longrightarrow> s + l + 16 \<le> int (length buf) \<Longrightarrow> murmur_loop buf s l st \<noteq> None"
proof (induction "nat l" arbitrary: s l st rule: less_induct)
  case less
  obtain a b c d where st: "st = (a, b, c, d)" by (cases st)
  show ?case unfolding st
    by (subst murmur_loop.simps) (intro reads less.hyps; use less.prems in simp)
qed

text \<open>The loop of the long hash leaves the last part, shorter than 128 octets, and ends after it.\<close>

lemma city128_loop_defined:
  "0 \<le> s \<Longrightarrow> 128 \<le> len \<Longrightarrow> s + int len \<le> int (length buf) \<Longrightarrow>
   \<exists>st'. city128_loop buf s len st = Some (st', s + int (len - len mod 128), len mod 128)"
proof (induction buf s len st rule: city128_loop.induct)
  case (1 buf s len st)
  have "city_step buf s st \<noteq> None" using 1(2-4) by (intro reads) simp_all
  then obtain st1 where st1: "city_step buf s st = Some st1" by blast
  have "city_step buf (s + 64) st1 \<noteq> None" using 1(2-4) by (intro reads) simp_all
  then obtain st2 where st2: "city_step buf (s + 64) st1 = Some st2" by blast
  have m: "(len - 128) mod 128 = len mod 128" using 1(3) by (simp add: mod_if)
  show ?case
  proof (cases "128 \<le> len - 128")
    case True
    have "\<exists>st'. city128_loop buf (s + 64 + 64) (len - 128) st2 =
        Some (st', s + 64 + 64 + int (len - 128 - (len - 128) mod 128), (len - 128) mod 128)"
      using True 1(2-4) by (intro "1.IH" [OF st1 refl st2 refl]) simp_all
    moreover have "s + 64 + 64 + int (len - 128 - (len - 128) mod 128) = s + int (len - len mod 128)"
      using 1(3) m by (simp add: le_diff_conv2)
    ultimately show ?thesis using st1 st2 True m by (subst city128_loop.simps) simp
  next
    case False
    then have "len mod 128 = len - 128" using 1(3) by (simp add: mod_if)
    with False show ?thesis using st1 st2 1(3) by (intro exI [of _ st2], subst city128_loop.simps) (simp add: of_nat_diff)
  qed
qed

lemma tail_loop_defined [reads]:
  assumes "128 \<le> s" and "len < 128" and "s + int len \<le> int (length buf)"
  shows "32 dvd tail_done \<Longrightarrow> tail_loop buf s len tail_done st \<noteq> None"
proof (induction "len - tail_done" arbitrary: tail_done st rule: less_induct)
  case less
  obtain x y z v w where st: "st = (x, y, z, v, w)" by (cases st)
  have t: "tail_done + 32 \<le> 128" if "tail_done < len"
    using that assms(2) less.prems by (auto elim!: dvdE)
  have d: "32 dvd tail_done + 32" using less.prems by simp
  show ?case unfolding st
    by (subst tail_loop.simps, intro reads less.hyps) (use assms t d in simp_all)
qed

lemma CityMurmur_defined [reads]:
  "0 \<le> s \<Longrightarrow> s + int len \<le> int (length buf) \<Longrightarrow> CityMurmur buf s len seed \<noteq> None"
  unfolding CityMurmur_def by (intro reads; simp)

lemma CityHash128WithSeed_defined [reads]:
  assumes "0 \<le> s" and "s + int len \<le> int (length buf)"
  shows "CityHash128WithSeed buf s len seed \<noteq> None"
proof -
  have loop: "city128_loop buf s len st \<noteq> None" if "\<not> len < 128" for st
    using city128_loop_defined [of s len buf st] assms that by auto
  have tail: "tail_loop buf s' l' 0 st'' \<noteq> None"
    if "\<not> len < 128" "city128_loop buf s len st = Some p" "p = (st', r)" "r = (s', l')" for st st' st'' p r s' l'
  proof (rule tail_loop_defined)
    have *: "s' = s + int (len - len mod 128)" "l' = len mod 128"
      using city128_loop_defined [of s len buf st] that assms by auto
    have "1 \<le> len div 128" using that(1) by (simp add: div_greater_zero_iff Suc_le_eq)
    then have "128 \<le> len - len mod 128" using div_mult_mod_eq [of len 128] by linarith
    then show "128 \<le> s'" using assms(1) unfolding *(1) by linarith
    show "l' < 128" "s' + int l' \<le> int (length buf)" "32 dvd (0::nat)"
      using assms(2) unfolding * by (simp_all add: of_nat_diff)
  qed
  show ?thesis unfolding CityHash128WithSeed_def
    by (intro defined_rules loop CityMurmur_defined assms Fetch_defined)
      ((erule tail, assumption+) | (use assms in simp))+
qed

text \<open>C25: CityHash reads only its input: for a buffer of any length, each hash function of the family
  terminates and every load it makes is inside the buffer.\<close>

theorem CityHash_reads_in_bounds:
  "CityHash32 buf 0 (length buf) \<noteq> None \<and>
   CityHash64WithSeed buf 0 (length buf) seed \<noteq> None \<and>
   CityHash128 buf 0 (length buf) \<noteq> None"
proof (intro conjI)
  show "CityHash32 buf 0 (length buf) \<noteq> None"
    unfolding CityHash32_def Hash32Len0to4_def by (intro reads; simp)
  show "CityHash64WithSeed buf 0 (length buf) seed \<noteq> None"
    unfolding CityHash64WithSeed_def CityHash64WithSeeds_def CityHash64_def by (intro reads; simp)
  show "CityHash128 buf 0 (length buf) \<noteq> None"
    unfolding CityHash128_def by (intro reads; simp)
qed

end
