(* ===== verification/Dead_Nonce_List.thy ===== *)
theory Dead_Nonce_List
  imports City_Hash "HOL-Library.Multiset"
begin

text \<open>
  \<^verbatim>\<open>daemon/table/dead-nonce-list.{hpp,cpp}\<close>: the nonces of Interests whose PIT entry is gone, kept
  for loop detection in a queue of hashes whose capacity adapts to the arrival rate.

  The queue is a list, its hashtable index is membership in it; the counts of marks are a
  multiset; capacities are scaled in double precision as the code does.  The encoding of a
  name, \<^verbatim>\<open>Name::wireEncode\<close> of ndn-cxx, is the parameter \<open>wireEncode\<close>.  The scheduled events are
  the times at which they fire.

  The lemmas: the capacity stays within its limits under every operation, no assertion
  fails, and a nonce that was added is still found while fewer entries than the minimal
  capacity have been pushed after it.
\<close>

record dead_nonce_list =
  m_lifetime :: time
  m_queue :: "64 word list"
  m_capacity :: nat
  m_actualMarkCounts :: "nat multiset"
  m_markInterval :: time
  m_markEvent :: time
  m_adjustCapacityInterval :: time
  m_adjustCapacityEvent :: time

definition DEFAULT_LIFETIME :: time where "DEFAULT_LIFETIME = ms 6000"
definition MIN_LIFETIME :: time where "MIN_LIFETIME = ms 1"
definition INITIAL_CAPACITY :: nat where "INITIAL_CAPACITY = 2 ^ 7"
definition MIN_CAPACITY :: nat where "MIN_CAPACITY = 2 ^ 3"
definition MAX_CAPACITY :: nat where "MAX_CAPACITY = 2 ^ 24"
definition MARK :: "64 word" where "MARK = 0"
definition EXPECTED_MARK_COUNT :: nat where "EXPECTED_MARK_COUNT = 5"
definition CAPACITY_UP :: rat where "CAPACITY_UP = float64 (12 / 10)"
definition CAPACITY_DOWN :: rat where "CAPACITY_DOWN = float64 (9 / 10)"
definition EVICT_LIMIT :: nat where "EVICT_LIMIT = 2 ^ 6"

text \<open>The constructor throws on a lifetime that is too short.\<close>

definition DeadNonceList :: "time \<Rightarrow> time \<Rightarrow> dead_nonce_list option" where
  "DeadNonceList now lifetime =
     (if lifetime < MIN_LIFETIME then None
      else Some \<lparr>m_lifetime = lifetime, m_queue = replicate EXPECTED_MARK_COUNT MARK,
        m_capacity = INITIAL_CAPACITY, m_actualMarkCounts = {#},
        m_markInterval = lifetime div int EXPECTED_MARK_COUNT,
        m_markEvent = now + lifetime div int EXPECTED_MARK_COUNT,
        m_adjustCapacityInterval = lifetime, m_adjustCapacityEvent = now + lifetime\<rparr>)"

definition countMarks :: "dead_nonce_list \<Rightarrow> nat" where
  "countMarks d = count_list (m_queue d) MARK"

definition dnl_size :: "dead_nonce_list \<Rightarrow> nat" where
  "dnl_size d = length (m_queue d) - countMarks d"

definition makeEntry :: "(name \<Rightarrow> buffer) \<Rightarrow> name \<Rightarrow> 32 word \<Rightarrow> 64 word option" where
  "makeEntry wireEncode name nonce =
     (let nameWire = wireEncode name
      in CityHash64WithSeed nameWire 0 (length nameWire) (ucast nonce))"

definition has :: "(name \<Rightarrow> buffer) \<Rightarrow> name \<Rightarrow> 32 word \<Rightarrow> dead_nonce_list \<Rightarrow> bool option" where
  "has wireEncode name nonce d = do {
     e \<leftarrow> makeEntry wireEncode name nonce;
     Some (e \<in> set (m_queue d))
   }"

definition evictEntries :: "dead_nonce_list \<Rightarrow> dead_nonce_list option" where
  "evictEntries d =
     (let nOverCapacity = int (length (m_queue d)) - int (m_capacity d)
      in if nOverCapacity \<le> 0 then Some d
         else do {
           let d = d\<lparr>m_queue := drop (nat (min nOverCapacity (int EVICT_LIMIT))) (m_queue d)\<rparr>;
           assert (m_capacity d \<le> length (m_queue d));
           Some d
         })"

definition add_nonce :: "(name \<Rightarrow> buffer) \<Rightarrow> name \<Rightarrow> 32 word \<Rightarrow> dead_nonce_list \<Rightarrow> dead_nonce_list option" where
  "add_nonce wireEncode name nonce d = do {
     e \<leftarrow> makeEntry wireEncode name nonce;
     evictEntries (d\<lparr>m_queue := m_queue d @ [e]\<rparr>)
   }"

definition mark :: "time \<Rightarrow> dead_nonce_list \<Rightarrow> dead_nonce_list" where
  "mark now d =
     (let d = d\<lparr>m_queue := m_queue d @ [MARK]\<rparr>;
          nMarks = countMarks d
      in d\<lparr>m_actualMarkCounts := add_mset nMarks (m_actualMarkCounts d), m_markEvent := now + m_markInterval d\<rparr>)"

text \<open>
  \<^verbatim>\<open>equal_range(n).second == begin()\<close>: no count is at most n; \<^verbatim>\<open>equal_range(n).first == end()\<close>: no
  count is at least n.
\<close>

definition adjustCapacity :: "time \<Rightarrow> dead_nonce_list \<Rightarrow> dead_nonce_list option" where
  "adjustCapacity now d = do {
     let cap = float64 (of_nat (m_capacity d));
     let d =
       (if filter_mset (\<lambda>c. c \<le> EXPECTED_MARK_COUNT) (m_actualMarkCounts d) = {#}
        then d\<lparr>m_capacity := max MIN_CAPACITY (to_size (float64 (cap * CAPACITY_DOWN)))\<rparr>
        else if filter_mset (\<lambda>c. EXPECTED_MARK_COUNT \<le> c) (m_actualMarkCounts d) = {#}
        then d\<lparr>m_capacity := min MAX_CAPACITY (to_size (float64 (cap * CAPACITY_UP)))\<rparr>
        else d);
     let d = d\<lparr>m_actualMarkCounts := {#}\<rparr>;
     d \<leftarrow> evictEntries d;
     Some (d\<lparr>m_adjustCapacityEvent := now + m_adjustCapacityInterval d\<rparr>)
   }"

subsection \<open>The capacity stays within its limits\<close>

definition dnl_ok :: "dead_nonce_list \<Rightarrow> bool" where
  "dnl_ok d \<longleftrightarrow> MIN_CAPACITY \<le> m_capacity d \<and> m_capacity d \<le> MAX_CAPACITY"

lemma float64_capacity: "c \<le> MAX_CAPACITY \<Longrightarrow> float64 (of_nat c) = of_nat c"
  by (rule fround_of_nat) (simp_all add: MAX_CAPACITY_def)

lemma scale_capacity:
  assumes "c \<le> MAX_CAPACITY"
  shows "to_size (float64 (float64 (of_nat c) * CAPACITY_DOWN)) \<le> c"
    and "c \<le> to_size (float64 (float64 (of_nat c) * CAPACITY_UP))"
proof -
  have f: "float64 (of_nat c) = of_nat c" by (rule float64_capacity [OF assms])
  have d: "CAPACITY_DOWN \<le> 1" unfolding CAPACITY_DOWN_def
    using fround_between_int(2) [of 0 "9/10" 1 53] by simp
  have u: "1 \<le> CAPACITY_UP" unfolding CAPACITY_UP_def
    using fround_between_int(1) [of 1 "12/10" 2 53] by simp
  have "float64 (of_nat c * CAPACITY_DOWN) \<le> float64 (of_nat c)"
    using d by (intro fround_mono) (simp_all add: mult_left_le)
  then show "to_size (float64 (float64 (of_nat c) * CAPACITY_DOWN)) \<le> c"
    unfolding f by (simp add: to_size_def nat_le_iff floor_le_iff)
  have "float64 (of_nat c) \<le> float64 (of_nat c * CAPACITY_UP)"
    using mult_left_mono [OF u, of "of_nat c"] by (intro fround_mono) simp_all
  then show "c \<le> to_size (float64 (float64 (of_nat c) * CAPACITY_UP))"
    unfolding f by (simp add: to_size_def le_nat_iff le_floor_iff)
qed

lemma evictEntries_spec:
  "evictEntries d = Some (d\<lparr>m_queue := drop (min (length (m_queue d) - m_capacity d) EVICT_LIMIT) (m_queue d)\<rparr>)"
proof (cases "length (m_queue d) \<le> m_capacity d")
  case False
  then have "nat (min (int (length (m_queue d)) - int (m_capacity d)) (int EVICT_LIMIT)) =
      min (length (m_queue d) - m_capacity d) EVICT_LIMIT" by linarith
  with False show ?thesis by (auto simp: evictEntries_def Let_def)
qed (simp add: evictEntries_def)

lemma makeEntry_defined: "\<exists>e. makeEntry wireEncode name nonce = Some e"
proof -
  have "CityHash64WithSeed b 0 (length b) s \<noteq> None" for b s
    unfolding CityHash64WithSeed_def CityHash64WithSeeds_def CityHash64_def by (intro reads; simp)
  then show ?thesis by (simp add: makeEntry_def Let_def)
qed

lemma adjustCapacity_spec:
  assumes "dnl_ok d"
  shows "\<exists>c d'. adjustCapacity now d = Some d' \<and> dnl_ok d' \<and> m_capacity d' = c \<and>
    m_queue d' = drop (min (length (m_queue d) - c) EVICT_LIMIT) (m_queue d)"
proof -
  have c: "MIN_CAPACITY \<le> m_capacity d" "m_capacity d \<le> MAX_CAPACITY" using assms by (simp_all add: dnl_ok_def)
  note s = scale_capacity [OF c(2)]
  have "MIN_CAPACITY \<le> MAX_CAPACITY" by (simp add: MIN_CAPACITY_def MAX_CAPACITY_def)
  with c s show ?thesis
    by (simp add: adjustCapacity_def Let_def evictEntries_spec dnl_ok_def)
qed

subsection \<open>Runs\<close>

datatype dnl_op = Add name "32 word" | Mark time | AdjustCapacity time

definition dnl_step :: "(name \<Rightarrow> buffer) \<Rightarrow> dnl_op \<Rightarrow> dead_nonce_list \<Rightarrow> dead_nonce_list option" where
  "dnl_step wireEncode op d = (case op of
       Add name nonce \<Rightarrow> add_nonce wireEncode name nonce d
     | Mark now \<Rightarrow> Some (mark now d)
     | AdjustCapacity now \<Rightarrow> adjustCapacity now d)"

fun dnl_run :: "(name \<Rightarrow> buffer) \<Rightarrow> dnl_op list \<Rightarrow> dead_nonce_list \<Rightarrow> dead_nonce_list option" where
  "dnl_run wireEncode [] d = Some d"
| "dnl_run wireEncode (op # ops) d = Option.bind (dnl_step wireEncode op d) (dnl_run wireEncode ops)"

text \<open>The number of entries a run pushes at the back of the queue.\<close>

fun pushes :: "dnl_op list \<Rightarrow> nat" where
  "pushes [] = 0"
| "pushes (AdjustCapacity _ # ops) = pushes ops"
| "pushes (_ # ops) = Suc (pushes ops)"

text \<open>Entry \<open>e\<close> has at most \<open>k\<close> entries behind it in the queue.\<close>

definition near_end :: "64 word \<Rightarrow> nat \<Rightarrow> 64 word list \<Rightarrow> bool" where
  "near_end e k q \<longleftrightarrow> (\<exists>p r. q = p @ e # r \<and> length r \<le> k)"

lemma near_end_drop:
  assumes "near_end e k q" and "n \<le> length q - c" and "k < c"
  shows "near_end e k (drop n q)"
proof -
  obtain p r where q: "q = p @ e # r" "length r \<le> k" using assms(1) by (auto simp: near_end_def)
  have "n \<le> length p" using assms(2,3) q by simp
  then show ?thesis unfolding near_end_def using q by (intro exI [of _ "drop n p"] exI [of _ r]) simp
qed

lemma near_end_push: "near_end e k q \<Longrightarrow> near_end e (Suc k) (q @ [x])"
  unfolding near_end_def by (metis append_Cons append_assoc length_append_singleton Suc_le_mono)

lemma near_end_mem: "near_end e k q \<Longrightarrow> e \<in> set q"
  by (auto simp: near_end_def)

lemma step_near_end:
  assumes "dnl_ok d" and "near_end e k (m_queue d)" and "k + pushes [op] < MIN_CAPACITY"
  shows "\<exists>d'. dnl_step wireEncode op d = Some d' \<and> dnl_ok d' \<and> near_end e (k + pushes [op]) (m_queue d')"
proof (cases op)
  case (Add name nonce)
  obtain h where h: "makeEntry wireEncode name nonce = Some h" using makeEntry_defined by blast
  have "Suc k < m_capacity d" using assms(1,3) Add by (simp add: dnl_ok_def)
  then have "near_end e (Suc k) (drop (min (Suc (length (m_queue d)) - m_capacity d) EVICT_LIMIT) (m_queue d @ [h]))"
    using near_end_push [OF assms(2)] by (intro near_end_drop) auto
  with h assms(1) Add show ?thesis by (simp add: dnl_step_def add_nonce_def evictEntries_spec dnl_ok_def)
next
  case (Mark now)
  then show ?thesis using assms near_end_push [OF assms(2)] by (simp add: dnl_step_def mark_def Let_def dnl_ok_def)
next
  case (AdjustCapacity now)
  obtain d' where d': "adjustCapacity now d = Some d'" "dnl_ok d'"
    "m_queue d' = drop (min (length (m_queue d) - m_capacity d') EVICT_LIMIT) (m_queue d)"
    using adjustCapacity_spec [OF assms(1)] by blast
  have "k < m_capacity d'" using assms(3) d'(2) AdjustCapacity by (simp add: dnl_ok_def)
  then have "near_end e k (m_queue d')" unfolding d'(3) using assms(2) by (intro near_end_drop) auto
  with d' AdjustCapacity show ?thesis by (simp add: dnl_step_def)
qed

lemma pushes_Cons: "pushes (op # ops) = pushes [op] + pushes ops"
  by (cases op) simp_all

lemma run_near_end:
  "dnl_ok d \<Longrightarrow> near_end e k (m_queue d) \<Longrightarrow> k + pushes ops < MIN_CAPACITY \<Longrightarrow>
   \<exists>d'. dnl_run wireEncode ops d = Some d' \<and> dnl_ok d' \<and> near_end e (k + pushes ops) (m_queue d')"
proof (induction ops arbitrary: d k)
  case Nil
  then show ?case by simp
next
  case (Cons op ops)
  have p: "pushes (op # ops) = pushes [op] + pushes ops" by (rule pushes_Cons)
  have "k + pushes [op] < MIN_CAPACITY" using Cons.prems(3) p by linarith
  from step_near_end [OF Cons.prems(1,2) this] obtain d1 where
    d1: "dnl_step wireEncode op d = Some d1" "dnl_ok d1" "near_end e (k + pushes [op]) (m_queue d1)" by blast
  have "k + pushes [op] + pushes ops < MIN_CAPACITY" using Cons.prems(3) p by linarith
  from Cons.IH [OF d1(2,3) this] d1(1) show ?case unfolding p by (simp add: add.assoc)
qed

lemma dnl_ok_new: "DeadNonceList now lifetime = Some d \<Longrightarrow> dnl_ok d"
  by (auto simp: DeadNonceList_def dnl_ok_def MIN_CAPACITY_def MAX_CAPACITY_def INITIAL_CAPACITY_def split: if_splits)

lemma dnl_step_ok:
  assumes "dnl_ok d"
  shows "\<exists>d'. dnl_step wireEncode op d = Some d' \<and> dnl_ok d'"
proof (cases op)
  case (Add name nonce)
  obtain h where h: "makeEntry wireEncode name nonce = Some h" using makeEntry_defined by blast
  then show ?thesis using assms Add by (simp add: dnl_step_def add_nonce_def evictEntries_spec dnl_ok_def)
next
  case (Mark now)
  then show ?thesis using assms by (simp add: dnl_step_def mark_def Let_def dnl_ok_def)
next
  case (AdjustCapacity now)
  then show ?thesis using adjustCapacity_spec [OF assms] by (auto simp: dnl_step_def)
qed

lemma dnl_run_ok: "dnl_ok d \<Longrightarrow> \<exists>d'. dnl_run wireEncode ops d = Some d' \<and> dnl_ok d'"
proof (induction ops arbitrary: d)
  case (Cons op ops)
  from dnl_step_ok [OF Cons.prems] obtain d1 where "dnl_step wireEncode op d = Some d1" "dnl_ok d1" by blast
  with Cons.IH [OF this(2)] show ?case by simp
qed simp

lemma dnl_run_append:
  "dnl_run wireEncode (ops @ ops') d = Option.bind (dnl_run wireEncode ops d) (dnl_run wireEncode ops')"
  by (induction ops arbitrary: d) (simp_all split: bind_splits)

lemma add_found:
  assumes "dnl_ok d" and "pushes later < MIN_CAPACITY"
  shows "\<exists>d'. dnl_run wireEncode (Add name nonce # later) d = Some d' \<and> dnl_ok d' \<and> has wireEncode name nonce d' = Some True"
proof -
  obtain e where e: "makeEntry wireEncode name nonce = Some e" using makeEntry_defined by blast
  let ?q = "drop (min (Suc (length (m_queue d)) - m_capacity d) EVICT_LIMIT) (m_queue d @ [e])"
  have "near_end e 0 (m_queue d @ [e])" by (auto simp: near_end_def)
  moreover have "0 < m_capacity d" using assms(1) by (simp add: dnl_ok_def MIN_CAPACITY_def)
  ultimately have n: "near_end e 0 ?q" by (intro near_end_drop) auto
  have "add_nonce wireEncode name nonce d = Some (d\<lparr>m_queue := ?q\<rparr>)"
    using e by (simp add: add_nonce_def evictEntries_spec)
  moreover obtain d' where "dnl_run wireEncode later (d\<lparr>m_queue := ?q\<rparr>) = Some d'" "dnl_ok d'"
      "near_end e (0 + pushes later) (m_queue d')"
    using run_near_end [of "d\<lparr>m_queue := ?q\<rparr>" e 0 later wireEncode] n assms by (auto simp: dnl_ok_def)
  ultimately show ?thesis using e near_end_mem by (auto simp: dnl_step_def has_def)
qed

text \<open>C21: in every run of the dead nonce list from its construction no assertion fails, the capacity
  stays between its minimum and maximum, and a nonce that was added is found as long as
  fewer than the minimal capacity of entries and marks were pushed after it, whatever
  capacity adjustments happen in between.\<close>

theorem added_nonce_is_found:
  assumes "DeadNonceList now lifetime = Some d" and "pushes later < MIN_CAPACITY"
  shows "\<exists>d'. dnl_run wireEncode (ops @ Add name nonce # later) d = Some d' \<and> has wireEncode name nonce d' = Some True \<and>
    MIN_CAPACITY \<le> m_capacity d' \<and> m_capacity d' \<le> MAX_CAPACITY"
proof -
  obtain d1 where d1: "dnl_run wireEncode ops d = Some d1" "dnl_ok d1"
    using dnl_run_ok [OF dnl_ok_new [OF assms(1)]] by blast
  obtain d' where "dnl_run wireEncode (Add name nonce # later) d1 = Some d'" "dnl_ok d'" "has wireEncode name nonce d' = Some True"
    using add_found [OF d1(2) assms(2)] by blast
  then show ?thesis using d1(1) by (auto simp: dnl_run_append dnl_ok_def)
qed

theorem added_nonce_is_found_witness:
  "\<exists>d d'. DeadNonceList 0 DEFAULT_LIFETIME = Some d \<and>
     dnl_run (\<lambda>_. [1, 2]) ([] @ Add [] 7 # [Add [] 8, Mark 3, AdjustCapacity 4]) d = Some d' \<and>
     has (\<lambda>_. [1, 2]) [] 7 d' = Some True"
proof -
  obtain d where d: "DeadNonceList 0 DEFAULT_LIFETIME = Some d"
    by (simp add: DeadNonceList_def DEFAULT_LIFETIME_def MIN_LIFETIME_def)
  have "pushes [Add [] 8, Mark 3, AdjustCapacity 4] < MIN_CAPACITY" by (simp add: MIN_CAPACITY_def)
  from added_nonce_is_found [OF d this, of "\<lambda>_. [1, 2]" "[]" "[]" 7] d show ?thesis by blast
qed

end
