(* ===== verification/Fw_Algorithm.thy ===== *)
theory Fw_Algorithm
  imports Tables
begin

text \<open>
  \<^verbatim>\<open>daemon/fw/algorithm.{hpp,cpp}\<close>, \<^verbatim>\<open>retx-suppression-exponential.{hpp,cpp}\<close>,
  \<^verbatim>\<open>retx-suppression-fixed.{hpp,cpp}\<close>, \<^verbatim>\<open>unsolicited-data-policy.{hpp,cpp}\<close> and
  \<^verbatim>\<open>daemon/table/network-region-table.{hpp,cpp}\<close>: the algorithms that pipelines and strategies share.

  Faces are passed as a reference and a store.  The suppression interval is in microseconds
  and is scaled in single precision, as the code does; it is a strategy information item,
  \<open>strategy_info\<close>.

  The lemmas: scope control, the meaning of the duplicate nonce flags, and the sequence of
  suppression intervals.
\<close>

unbundle bit_operations_syntax

datatype strategy_info = RetxPitInfo (suppressionInterval: int)

subsection \<open>Algorithms\<close>

definition wouldViolateScope :: "face \<Rightarrow> interest \<Rightarrow> face \<Rightarrow> bool" where
  "wouldViolateScope inFace interest outFace =
     (if getScope outFace = FACE_SCOPE_LOCAL then False
      else if prefix LOCALHOST (getName interest) then True
      else if prefix LOCALHOP (getName interest) then getScope inFace \<noteq> FACE_SCOPE_LOCAL
      else False)"

definition canForwardToLegacy :: "time \<Rightarrow> 'i pit_entry \<Rightarrow> face_ref \<Rightarrow> bool" where
  "canForwardToLegacy now pitEntry face =
     (let hasUnexpiredOutRecord = (\<exists>r\<in>set (m_outRecords pitEntry). fr_face r = face \<and> now \<le> m_expiry r)
      in if hasUnexpiredOutRecord then False
         else (let hasUnexpiredOtherInRecord = (\<exists>r\<in>set (m_inRecords pitEntry). fr_face r \<noteq> face \<and> now \<le> m_expiry r)
               in if \<not> hasUnexpiredOtherInRecord then False else True))"

definition DUPLICATE_NONCE_NONE :: "32 word" where "DUPLICATE_NONCE_NONE = 0"
definition DUPLICATE_NONCE_IN_SAME :: "32 word" where "DUPLICATE_NONCE_IN_SAME = 1"
definition DUPLICATE_NONCE_IN_OTHER :: "32 word" where "DUPLICATE_NONCE_IN_OTHER = 2"
definition DUPLICATE_NONCE_OUT_SAME :: "32 word" where "DUPLICATE_NONCE_OUT_SAME = 4"
definition DUPLICATE_NONCE_OUT_OTHER :: "32 word" where "DUPLICATE_NONCE_OUT_OTHER = 8"

fun dnw_in :: "32 word \<Rightarrow> face_ref \<Rightarrow> 'i InRecord list \<Rightarrow> 32 word \<Rightarrow> 32 word" where
  "dnw_in nonce face [] dnw = dnw"
| "dnw_in nonce face (r # rs) dnw = dnw_in nonce face rs
     (if m_lastNonce r = nonce
      then (if fr_face r = face then dnw OR DUPLICATE_NONCE_IN_SAME else dnw OR DUPLICATE_NONCE_IN_OTHER)
      else dnw)"

fun dnw_out :: "32 word \<Rightarrow> face_ref \<Rightarrow> 'i OutRecord list \<Rightarrow> 32 word \<Rightarrow> 32 word" where
  "dnw_out nonce face [] dnw = dnw"
| "dnw_out nonce face (r # rs) dnw = dnw_out nonce face rs
     (if m_lastNonce r = nonce
      then (if fr_face r = face then dnw OR DUPLICATE_NONCE_OUT_SAME else dnw OR DUPLICATE_NONCE_OUT_OTHER)
      else dnw)"

definition findDuplicateNonce :: "'i pit_entry \<Rightarrow> 32 word \<Rightarrow> face_ref \<Rightarrow> 32 word" where
  "findDuplicateNonce pitEntry nonce face =
     (let dnw = DUPLICATE_NONCE_NONE;
          dnw = dnw_in nonce face (m_inRecords pitEntry) dnw
      in dnw_out nonce face (m_outRecords pitEntry) dnw)"

definition hasPendingOutRecords :: "time \<Rightarrow> 'i pit_entry \<Rightarrow> bool" where
  "hasPendingOutRecords now pitEntry =
     (\<exists>r\<in>set (m_outRecords pitEntry). now \<le> m_expiry r \<and> m_incomingNack r = None)"

definition getLastOutgoing :: "'i pit_entry \<Rightarrow> time option" where
  "getLastOutgoing pitEntry = map_option m_lastRenewed (max_element m_lastRenewed (m_outRecords pitEntry))"

subsection \<open>Retransmission suppression\<close>

datatype RetxSuppressionResult = RETX_NEW | RETX_FORWARD | RETX_SUPPRESS

record RetxSuppressionExponential =
  m_initialInterval :: int
  m_multiplier :: rat
  m_maxInterval :: int

definition RetxSuppressionExponential_new :: "int \<Rightarrow> rat \<Rightarrow> int \<Rightarrow> RetxSuppressionExponential option" where
  "RetxSuppressionExponential_new initialInterval multiplier maxInterval = do {
     assert (initialInterval > 0);
     assert (multiplier \<ge> 1);
     assert (maxInterval \<ge> initialInterval);
     Some \<lparr>m_initialInterval = initialInterval, m_multiplier = multiplier, m_maxInterval = maxInterval\<rparr>
   }"

definition DEFAULT_INITIAL_INTERVAL :: int where "DEFAULT_INITIAL_INTERVAL = 1000"
definition DEFAULT_MAX_INTERVAL :: int where "DEFAULT_MAX_INTERVAL = 250000"
definition DEFAULT_MULTIPLIER :: rat where "DEFAULT_MULTIPLIER = 2"

definition RETX_PIT_INFO :: int where "RETX_PIT_INFO = 1020"

abbreviation microseconds :: "int \<Rightarrow> time" where
  "microseconds t \<equiv> t * 1000"

text \<open>\<^verbatim>\<open>min(m_maxInterval, duration_cast<Duration>(interval * m_multiplier))\<close>\<close>

definition next_interval :: "RetxSuppressionExponential \<Rightarrow> int \<Rightarrow> int" where
  "next_interval rs interval = min (m_maxInterval rs) \<lfloor>float32 (float32 (of_int interval) * m_multiplier rs)\<rfloor>"

definition decidePerPitEntry :: "time \<Rightarrow> RetxSuppressionExponential \<Rightarrow> strategy_info pit_entry \<Rightarrow>
    (strategy_info pit_entry \<times> RetxSuppressionResult) option" where
  "decidePerPitEntry now rs pitEntry =
     (if \<not> hasPendingOutRecords now pitEntry then Some (pitEntry, RETX_NEW)
      else do {
        lastOutgoing \<leftarrow> getLastOutgoing pitEntry;
        let sinceLastOutgoing = now - lastOutgoing;
        let (info, item, isNew) = insertStrategyInfo RETX_PIT_INFO (RetxPitInfo (m_initialInterval rs)) (pit_info pitEntry);
        let pitEntry = pitEntry\<lparr>pit_info := info\<rparr>;
        if sinceLastOutgoing < microseconds (suppressionInterval item) then Some (pitEntry, RETX_SUPPRESS)
        else Some (pitEntry\<lparr>pit_info := setStrategyInfo RETX_PIT_INFO
                     (RetxPitInfo (next_interval rs (suppressionInterval item))) info\<rparr>, RETX_FORWARD)
      })"

definition decidePerUpstream :: "time \<Rightarrow> RetxSuppressionExponential \<Rightarrow> strategy_info pit_entry \<Rightarrow> face_ref \<Rightarrow>
    strategy_info pit_entry \<times> RetxSuppressionResult" where
  "decidePerUpstream now rs pitEntry outFace = (case getOutRecord pitEntry outFace of
       None \<Rightarrow> (pitEntry, RETX_NEW)
     | Some outRecord \<Rightarrow>
         (let sinceLastOutgoing = now - m_lastRenewed outRecord;
              (info, item, isNew) = insertStrategyInfo RETX_PIT_INFO (RetxPitInfo (m_initialInterval rs)) (fr_info outRecord);
              pitEntry = pitEntry\<lparr>m_outRecords := update_first (\<lambda>r. fr_face r = outFace) (fr_info_update (\<lambda>_. info)) (m_outRecords pitEntry)\<rparr>
          in if sinceLastOutgoing < microseconds (suppressionInterval item) then (pitEntry, RETX_SUPPRESS)
             else (pitEntry, RETX_FORWARD)))"

definition incrementIntervalForOutRecord :: "RetxSuppressionExponential \<Rightarrow> strategy_info OutRecord \<Rightarrow> strategy_info OutRecord" where
  "incrementIntervalForOutRecord rs outRecord =
     (let (info, item, isNew) = insertStrategyInfo RETX_PIT_INFO (RetxPitInfo (m_initialInterval rs)) (fr_info outRecord)
      in outRecord\<lparr>fr_info := setStrategyInfo RETX_PIT_INFO (RetxPitInfo (next_interval rs (suppressionInterval item))) info\<rparr>)"

definition decidePerPitEntry_fixed :: "time \<Rightarrow> int \<Rightarrow> 'i pit_entry \<Rightarrow> RetxSuppressionResult option" where
  "decidePerPitEntry_fixed now minRetxInterval pitEntry =
     (if \<not> hasPendingOutRecords now pitEntry then Some RETX_NEW
      else do {
        lastOutgoing \<leftarrow> getLastOutgoing pitEntry;
        let sinceLastOutgoing = now - lastOutgoing;
        Some (if sinceLastOutgoing < ms minRetxInterval then RETX_SUPPRESS else RETX_FORWARD)
      })"

subsection \<open>Unsolicited data, producer regions\<close>

datatype UnsolicitedDataDecision = DROP | CACHE

datatype UnsolicitedDataPolicy = DropAll | AdmitLocal | AdmitNetwork | AdmitAll

definition UnsolicitedDataPolicy_create :: "string \<Rightarrow> UnsolicitedDataPolicy option" where
  "UnsolicitedDataPolicy_create policyName =
     map_of [(''drop-all'', DropAll), (''admit-local'', AdmitLocal), (''admit-network'', AdmitNetwork), (''admit-all'', AdmitAll)]
       policyName"

fun decide :: "UnsolicitedDataPolicy \<Rightarrow> face \<Rightarrow> UnsolicitedDataDecision" where
  "decide DropAll inFace = DROP"
| "decide AdmitLocal inFace = (if getScope inFace = FACE_SCOPE_LOCAL then CACHE else DROP)"
| "decide AdmitNetwork inFace = (if getScope inFace = FACE_SCOPE_NON_LOCAL then CACHE else DROP)"
| "decide AdmitAll inFace = CACHE"

definition isInProducerRegion :: "name list \<Rightarrow> name list \<Rightarrow> bool" where
  "isInProducerRegion regionTable forwardingHint =
     (\<exists>regionName\<in>set regionTable. \<exists>delegation\<in>set forwardingHint. prefix delegation regionName)"

subsection \<open>Lemmas\<close>

lemma dnw_in_spec:
  "dnw_in nonce face rs dnw = dnw
     OR (if \<exists>r\<in>set rs. m_lastNonce r = nonce \<and> fr_face r = face then DUPLICATE_NONCE_IN_SAME else 0)
     OR (if \<exists>r\<in>set rs. m_lastNonce r = nonce \<and> fr_face r \<noteq> face then DUPLICATE_NONCE_IN_OTHER else 0)"
  by (induction rs arbitrary: dnw) (auto simp: ac_simps)

lemma dnw_out_spec:
  "dnw_out nonce face rs dnw = dnw
     OR (if \<exists>r\<in>set rs. m_lastNonce r = nonce \<and> fr_face r = face then DUPLICATE_NONCE_OUT_SAME else 0)
     OR (if \<exists>r\<in>set rs. m_lastNonce r = nonce \<and> fr_face r \<noteq> face then DUPLICATE_NONCE_OUT_OTHER else 0)"
  by (induction rs arbitrary: dnw) (auto simp: ac_simps)

lemmas dnw_flags = DUPLICATE_NONCE_NONE_def DUPLICATE_NONCE_IN_SAME_def DUPLICATE_NONCE_IN_OTHER_def
  DUPLICATE_NONCE_OUT_SAME_def DUPLICATE_NONCE_OUT_OTHER_def

lemma findDuplicateNonce_flags:
  "findDuplicateNonce e nonce face =
     (if \<exists>r\<in>set (m_inRecords e). m_lastNonce r = nonce \<and> fr_face r = face then 1 else 0) OR
     (if \<exists>r\<in>set (m_inRecords e). m_lastNonce r = nonce \<and> fr_face r \<noteq> face then 2 else 0) OR
     (if \<exists>r\<in>set (m_outRecords e). m_lastNonce r = nonce \<and> fr_face r = face then 4 else 0) OR
     (if \<exists>r\<in>set (m_outRecords e). m_lastNonce r = nonce \<and> fr_face r \<noteq> face then 8 else 0)"
  unfolding findDuplicateNonce_def dnw_in_spec dnw_out_spec dnw_flags Let_def or.assoc or.left_neutral ..

lemma four_flags:
  fixes a b c d :: bool
  defines "w \<equiv> (if a then 1 else 0) OR (if b then 2 else 0) OR (if c then 4 else 0) OR (if d then (8 :: 32 word) else 0)"
  shows "w = 0 \<longleftrightarrow> \<not> a \<and> \<not> b \<and> \<not> c \<and> \<not> d" and "w AND 1 \<noteq> 0 \<longleftrightarrow> a"
  unfolding w_def by (cases a; cases b; cases c; cases d; simp)+

text \<open>The duplicate nonce flags say where a nonce occurs: they are zero exactly when no in-record
  and no out-record of the entry has the nonce as its last nonce, and the same-face bit is
  set exactly when an in-record of the same face has it.\<close>

theorem findDuplicateNonce_spec:
  "(findDuplicateNonce e nonce face = DUPLICATE_NONCE_NONE \<longleftrightarrow>
     (\<nexists>r. r \<in> set (m_inRecords e) \<and> m_lastNonce r = nonce) \<and> (\<nexists>r. r \<in> set (m_outRecords e) \<and> m_lastNonce r = nonce)) \<and>
   (findDuplicateNonce e nonce face AND DUPLICATE_NONCE_IN_SAME \<noteq> 0 \<longleftrightarrow>
     (\<exists>r. r \<in> set (m_inRecords e) \<and> m_lastNonce r = nonce \<and> fr_face r = face))"
  unfolding findDuplicateNonce_flags dnw_flags four_flags by blast

lemma next_interval_bounds:
  assumes "0 < m_initialInterval rs" "1 \<le> m_multiplier rs" "m_maxInterval rs \<le> 2 ^ 24"
    and "m_initialInterval rs \<le> i" "i \<le> m_maxInterval rs"
  shows "i \<le> next_interval rs i" and "next_interval rs i \<le> m_maxInterval rs"
proof -
  have f: "float32 (of_int i) = of_int i" using assms by (intro fround_of_int) simp_all
  have "(of_int i :: rat) \<le> of_int i * m_multiplier rs" using assms(1,2,4) by (simp add: mult_le_cancel_left1)
  from fround_mono [OF this, of 24] have "of_int i \<le> float32 (of_int i * m_multiplier rs)" unfolding f by simp
  then show "i \<le> next_interval rs i" using assms(5) by (simp add: next_interval_def f le_floor_iff)
  show "next_interval rs i \<le> m_maxInterval rs" by (simp add: next_interval_def)
qed

lemma next_interval_double:
  assumes "m_multiplier rs = 2" "0 < i" "i \<le> m_maxInterval rs" "m_maxInterval rs \<le> 2 ^ 23"
  shows "next_interval rs i = min (m_maxInterval rs) (2 * i)"
proof -
  have "float32 (of_int i) = of_int i" "float32 (of_int (i * 2)) = of_int (i * 2)"
    using assms by (intro fround_of_int; simp)+
  then have "float32 (float32 (of_int i) * m_multiplier rs) = of_int (i * 2)" by (simp add: assms(1))
  then have "\<lfloor>float32 (float32 (of_int i) * m_multiplier rs)\<rfloor> = i * 2" by (simp only: floor_of_int)
  then show ?thesis by (simp add: next_interval_def)
qed

text \<open>The interval after \<open>k\<close> retransmissions that were let through.\<close>

fun interval_after :: "RetxSuppressionExponential \<Rightarrow> nat \<Rightarrow> int" where
  "interval_after rs 0 = m_initialInterval rs"
| "interval_after rs (Suc k) = next_interval rs (interval_after rs k)"

definition pit_interval :: "RetxSuppressionExponential \<Rightarrow> strategy_info pit_entry \<Rightarrow> int" where
  "pit_interval rs e = (case getStrategyInfo RETX_PIT_INFO (pit_info e) of
     None \<Rightarrow> m_initialInterval rs | Some item \<Rightarrow> suppressionInterval item)"

text \<open>C35: exponential suppression: an entry with no pending out-record gives NEW and is unchanged;
  otherwise the retransmission is suppressed exactly when the last one went out less than
  the current interval ago, a suppressed one keeps the interval, and one let through
  replaces it by the next; with multiplier 2 and a maximal interval of at most 2 ^ 23
  microseconds (about eight seconds, so that the products are exact in single precision) the
  interval after k of them is the minimum of the maximal interval and the initial one times 2
  to the power k.\<close>

theorem decidePerPitEntry_spec:
  "(\<not> hasPendingOutRecords now e \<longrightarrow> decidePerPitEntry now rs e = Some (e, RETX_NEW)) \<and>
   (hasPendingOutRecords now e \<longrightarrow> (\<exists>l e'. getLastOutgoing e = Some l \<and>
      (\<forall>r\<in>set (m_outRecords e). m_lastRenewed r \<le> l) \<and>
      decidePerPitEntry now rs e = Some (e', if now - l < microseconds (pit_interval rs e) then RETX_SUPPRESS else RETX_FORWARD) \<and>
      pit_interval rs e' = (if now - l < microseconds (pit_interval rs e) then pit_interval rs e
                            else next_interval rs (pit_interval rs e)))) \<and>
   (RetxSuppressionExponential_new i 2 m = Some rs \<longrightarrow> m \<le> 2 ^ 23 \<longrightarrow> interval_after rs k = min m (i * 2 ^ k))"
proof (intro conjI impI)
  assume "\<not> hasPendingOutRecords now e"
  then show "decidePerPitEntry now rs e = Some (e, RETX_NEW)" by (simp add: decidePerPitEntry_def)
next
  assume p: "hasPendingOutRecords now e"
  then have "m_outRecords e \<noteq> []" by (auto simp: hasPendingOutRecords_def)
  then obtain m where m: "max_element m_lastRenewed (m_outRecords e) = Some m"
    by (cases "max_element m_lastRenewed (m_outRecords e)") auto
  let ?l = "m_lastRenewed m"
  have l: "getLastOutgoing e = Some ?l" "\<forall>r\<in>set (m_outRecords e). m_lastRenewed r \<le> ?l"
    using m max_elementD [OF m] by (simp_all add: getLastOutgoing_def)
  show "\<exists>l e'. getLastOutgoing e = Some l \<and> (\<forall>r\<in>set (m_outRecords e). m_lastRenewed r \<le> l) \<and>
      decidePerPitEntry now rs e = Some (e', if now - l < microseconds (pit_interval rs e) then RETX_SUPPRESS else RETX_FORWARD) \<and>
      pit_interval rs e' = (if now - l < microseconds (pit_interval rs e) then pit_interval rs e
                            else next_interval rs (pit_interval rs e))"
    using p l by (cases "map_of (pit_info e) RETX_PIT_INFO")
      (auto simp: decidePerPitEntry_def insertStrategyInfo_def pit_interval_def getStrategyInfo_def setStrategyInfo_def
        update_conv)
next
  assume a: "RetxSuppressionExponential_new i 2 m = Some rs" "m \<le> 2 ^ 23"
  then have rs: "m_initialInterval rs = i" "m_multiplier rs = 2" "m_maxInterval rs = m" "0 < i" "i \<le> m"
    by (auto simp: RetxSuppressionExponential_new_def)
  show "interval_after rs k = min m (i * 2 ^ k)"
  proof (induction k)
    case 0
    then show ?case using rs by simp
  next
    case (Suc k)
    have "0 < interval_after rs k" "interval_after rs k \<le> m_maxInterval rs" using Suc rs by simp_all
    then have "interval_after rs (Suc k) = min m (2 * interval_after rs k)"
      using next_interval_double rs a(2) by simp
    then show ?case unfolding Suc using rs by (simp add: min_def)
  qed
qed

theorem decidePerPitEntry_spec_witness:
  "RetxSuppressionExponential_new 1000 2 250000 = Some \<lparr>m_initialInterval = 1000, m_multiplier = 2, m_maxInterval = 250000\<rparr> \<and>
   interval_after \<lparr>m_initialInterval = 1000, m_multiplier = 2, m_maxInterval = 250000\<rparr> 3 = 8000"
proof -
  let ?rs = "\<lparr>m_initialInterval = 1000, m_multiplier = 2, m_maxInterval = 250000\<rparr>"
  have n: "RetxSuppressionExponential_new 1000 2 250000 = Some ?rs" by (simp add: RetxSuppressionExponential_new_def)
  with decidePerPitEntry_spec [where i = 1000 and m = 250000 and rs = ?rs and k = 3]
  have "interval_after ?rs 3 = min 250000 (1000 * 2 ^ 3)" by simp
  with n show ?thesis by simp
qed

text \<open>Scope control: an Interest under /localhost is never allowed towards a non-local face, one
  under /localhop only when it came from a local face, and every other Interest, and every
  Interest towards a local face, is allowed.\<close>

theorem wouldViolateScope_spec:
  "wouldViolateScope inFace interest outFace \<longleftrightarrow>
     getScope outFace \<noteq> FACE_SCOPE_LOCAL \<and>
     (take 1 (getName interest) = LOCALHOST \<or>
      take 1 (getName interest) = LOCALHOP \<and> getScope inFace \<noteq> FACE_SCOPE_LOCAL)"
  by (cases "getName interest") (auto simp: wouldViolateScope_def LOCALHOST_def LOCALHOP_def)

end
