(* ===== verification/Name_Order.thy ===== *)
theory Name_Order
  imports Nfd_Prelude "HOL-Library.List_Lexorder" "HOL-Library.Product_Lexorder"
begin

text \<open>
  The canonical order of names, as the ordered containers of the content store and of the
  strategy registry use it.  \<^verbatim>\<open>Component::operator<\<close> of ndn-cxx is a parameter \<open>lt\<close>, a strict total
  order; names are compared component by component, a prefix before its extensions.
  \<^verbatim>\<open>Name::getSuccessor\<close> is a parameter with its documented law.  A concrete order and successor
  show that the hypotheses can hold.
\<close>

type_synonym comp_less = "component \<Rightarrow> component \<Rightarrow> bool"

definition comp_compare :: "comp_less \<Rightarrow> component \<Rightarrow> component \<Rightarrow> int" where
  "comp_compare lt a b = (if a = b then 0 else if lt a b then - 1 else 1)"

fun name_compare :: "comp_less \<Rightarrow> name \<Rightarrow> name \<Rightarrow> int" where
  "name_compare lt [] [] = 0"
| "name_compare lt [] (b # bs) = - 1"
| "name_compare lt (a # as) [] = 1"
| "name_compare lt (a # as) (b # bs) = (if a = b then name_compare lt as bs else comp_compare lt a b)"

subsection \<open>The order is strict and total\<close>

definition strict_order :: "comp_less \<Rightarrow> bool" where
  "strict_order lt \<longleftrightarrow> (\<forall>a. \<not> lt a a) \<and> (\<forall>a b c. lt a b \<longrightarrow> lt b c \<longrightarrow> lt a c) \<and> (\<forall>a b. a \<noteq> b \<longrightarrow> lt a b \<or> lt b a)"

lemma strict_orderD:
  assumes "strict_order lt"
  shows "\<not> lt a a" "lt a b \<Longrightarrow> lt b c \<Longrightarrow> lt a c" "a \<noteq> b \<Longrightarrow> lt a b \<or> lt b a" "lt a b \<Longrightarrow> \<not> lt b a"
  using assms unfolding strict_order_def by blast+

lemma comp_compare_zero [simp]: "comp_compare lt a b = 0 \<longleftrightarrow> a = b"
  by (simp add: comp_compare_def)

lemma comp_compare_pos: "strict_order lt \<Longrightarrow> 0 < comp_compare lt a b \<longleftrightarrow> comp_compare lt b a < 0"
  using strict_orderD(3,4) [of lt a b] by (auto simp: comp_compare_def)

lemma comp_compare_neg: "comp_compare lt a b < 0 \<longleftrightarrow> a \<noteq> b \<and> lt a b"
  by (simp add: comp_compare_def)

lemma name_compare_zero [simp]: "name_compare lt a b = 0 \<longleftrightarrow> a = b"
  by (induction lt a b rule: name_compare.induct) auto

lemma compare_refl [simp]: "comp_compare lt a a = 0" "name_compare lt n n = 0"
  by simp_all

lemma name_compare_pos: "strict_order lt \<Longrightarrow> 0 < name_compare lt a b \<longleftrightarrow> name_compare lt b a < 0"
  by (induction lt a b rule: name_compare.induct) (auto simp: comp_compare_pos)

lemma name_compare_trans:
  "strict_order lt \<Longrightarrow> name_compare lt a b < 0 \<Longrightarrow> name_compare lt b c < 0 \<Longrightarrow> name_compare lt a c < 0"
proof (induction a arbitrary: b c)
  case Nil
  then show ?case by (cases b; cases c) auto
next
  case (Cons x a)
  then obtain y b' where b: "b = y # b'" by (cases b) auto
  then obtain z c' where c: "c = z # c'" using Cons.prems(3) by (cases c) auto
  have xy: "x = y \<or> x \<noteq> y \<and> lt x y" and yz: "y = z \<or> y \<noteq> z \<and> lt y z"
    using Cons.prems(2,3) by (simp_all add: b c comp_compare_neg split: if_splits)
  show ?case
  proof (cases "x = y \<and> y = z")
    case True
    then show ?thesis using Cons.prems Cons.IH [of b' c'] by (simp add: b c)
  next
    case False
    then have "lt x z" using xy yz strict_orderD(2) [OF Cons.prems(1), of x y z] by metis
    moreover have "x \<noteq> z" using calculation strict_orderD(1) [OF Cons.prems(1)] by metis
    ultimately show ?thesis by (simp add: c comp_compare_neg)
  qed
qed

lemma name_compare_prefix: "prefix n m \<Longrightarrow> \<not> name_compare lt m n < 0"
proof (induction n arbitrary: m)
  case Nil
  then show ?case by (cases m) auto
next
  case (Cons a n)
  then show ?case by (cases m) auto
qed

subsection \<open>Successors\<close>

text \<open>
  The documented behaviour of \<^verbatim>\<open>Name::getSuccessor\<close>: in canonical order, the names below the
  successor of a prefix are those below the prefix and those under it; the successor of a
  name without an implicit digest has none.
\<close>

definition successor_law :: "comp_less \<Rightarrow> (name \<Rightarrow> name) \<Rightarrow> bool" where
  "successor_law lt successor \<longleftrightarrow> (\<forall>n m. n \<noteq> [] \<longrightarrow>
     (name_compare lt m (successor n) < 0 \<longleftrightarrow> name_compare lt m n < 0 \<or> prefix n m)) \<and>
     (\<forall>n. n \<noteq> [] \<longrightarrow> \<not> hasDigest n \<longrightarrow> \<not> hasDigest (successor n))"

text \<open>A concrete order of components and its successor, for the witnesses: by type, then by octets.\<close>

definition octet_key :: "component \<Rightarrow> nat \<times> nat list" where
  "octet_key c = (type c, map of_char (value_bytes c))"

definition octet_less :: comp_less where
  "octet_less a b \<longleftrightarrow> octet_key a < octet_key b"

fun octet_successor :: "name \<Rightarrow> name" where
  "octet_successor [] = []"
| "octet_successor [c] = [Component (type c) (value_bytes c @ [CHR 0x00])]"
| "octet_successor (c # d # n) = c # octet_successor (d # n)"

lemma octet_key_inj: "octet_key a = octet_key b \<longleftrightarrow> a = b"
proof
  assume "octet_key a = octet_key b"
  then have "type a = type b" "map (of_char :: char \<Rightarrow> nat) (value_bytes a) = map of_char (value_bytes b)"
    by (simp_all add: octet_key_def)
  moreover have "inj (of_char :: char \<Rightarrow> nat)" by (simp add: inj_on_def)
  ultimately show "a = b" by (metis component.expand map_injective)
qed simp

lemma strict_order_octet: "strict_order octet_less"
  unfolding strict_order_def octet_less_def using octet_key_inj by (metis less_irrefl less_trans neqE)

lemma less_append_zero: "(y :: nat list) < b @ [0] \<longleftrightarrow> y \<le> b"
proof (induction b arbitrary: y)
  case Nil
  then show ?case by (cases y) auto
next
  case (Cons x b)
  then show ?case by (cases y) auto
qed

lemma octet_less_next: "octet_less x (Component (type c) (value_bytes c @ [CHR 0x00])) \<longleftrightarrow> octet_less x c \<or> x = c"
proof -
  have "octet_less x (Component (type c) (value_bytes c @ [CHR 0x00])) \<longleftrightarrow> octet_key x \<le> octet_key c"
    by (simp add: octet_less_def octet_key_def less_append_zero less_eq_prod_def less_prod_def)
  also have "\<dots> \<longleftrightarrow> octet_less x c \<or> x = c" unfolding octet_less_def by (metis le_less octet_key_inj)
  finally show ?thesis .
qed

lemma octet_successor_compare:
  "n \<noteq> [] \<Longrightarrow> name_compare octet_less m (octet_successor n) < 0 \<longleftrightarrow> name_compare octet_less m n < 0 \<or> prefix n m"
proof (induction n arbitrary: m rule: octet_successor.induct)
  case (2 c)
  show ?case
  proof (cases m)
    case (Cons x xs)
    have "x \<noteq> Component (type c) (value_bytes c @ [CHR 0x00])" if "x = c" using that by (cases c) auto
    moreover have "\<not> octet_less (Component (type c) (value_bytes c @ [CHR 0x00])) c"
      by (simp add: octet_less_def octet_key_def less_prod_def not_less less_append_zero [THEN iffD2, THEN less_imp_le])
    ultimately show ?thesis using octet_less_next [of x c] Cons
      by (cases xs) (auto simp: comp_compare_neg)
  qed simp
next
  case (3 c d n)
  then show ?case by (cases m) (auto simp: comp_compare_neg)
qed simp

lemma successor_law_octet: "successor_law octet_less octet_successor"
proof -
  have "\<not> hasDigest (octet_successor n)" if "n \<noteq> []" "\<not> hasDigest n" for n
    using that
  proof (induction n rule: octet_successor.induct)
    case (3 c d n)
    have "octet_successor (d # n) \<noteq> []" by (cases n) simp_all
    with 3 show ?case by (simp add: hasDigest_def)
  qed (simp_all add: hasDigest_def isImplicitSha256Digest_def)
  then show ?thesis unfolding successor_law_def using octet_successor_compare by blast
qed

end
