(* ===== verification/Content_Store.thy ===== *)
theory Content_Store
  imports Name_Order
begin

text \<open>
  \<^verbatim>\<open>daemon/table/cs.{hpp,cpp}\<close>, \<^verbatim>\<open>cs-entry.{hpp,cpp}\<close>, \<^verbatim>\<open>cs-entry-impl.{hpp,cpp}\<close>, \<^verbatim>\<open>cs-policy.{hpp,cpp}\<close>,
  \<^verbatim>\<open>cs-policy-lru.{hpp,cpp}\<close> and \<^verbatim>\<open>cs-policy-priority-fifo.{hpp,cpp}\<close>: the content store and its two
  replacement policies.

  The table, a \<^verbatim>\<open>std::set\<close> of entries, is the list of its elements in order; a table iterator kept
  by a policy is the full name of its entry, and the iterators of a lookup are positions in
  the list.  The virtual functions of a policy are the fields of a record \<open>Policy\<close>, and the
  policy's own members are the field \<open>cs_policy\<close> of the store.

  Code of ndn-cxx is a parameter: \<open>lt\<close> is \<^verbatim>\<open>Component::operator<\<close> (names are compared component by
  component), \<open>successor\<close> is \<^verbatim>\<open>Name::getSuccessor\<close>, \<open>matchesData\<close> is \<^verbatim>\<open>Interest::matchesData\<close>.

  The lemmas: what a policy promises is the locale \<open>cs_policy_spec\<close>, interpreted for both policies;
  under it every operation succeeds and keeps the store in order, in step with its policy
  and within its limit.  A lookup finds a Data exactly when the store has one that
  satisfies the Interest.
\<close>

record cs_entry =
  cs_data :: data
  m_isUnsolicited :: bool
  m_staleTime :: time

type_synonym cs_ref = name

definition updateStaleTime :: "time \<Rightarrow> cs_entry \<Rightarrow> cs_entry" where
  "updateStaleTime now e = e\<lparr>m_staleTime := now + ms (getFreshnessPeriod (cs_data e))\<rparr>"

definition setData :: "time \<Rightarrow> data \<Rightarrow> bool \<Rightarrow> cs_entry \<Rightarrow> cs_entry" where
  "setData now data unsolicited e =
     updateStaleTime now (e\<lparr>cs_data := data, m_isUnsolicited := unsolicited\<rparr>)"

definition EntryImpl :: "time \<Rightarrow> data \<Rightarrow> bool \<Rightarrow> cs_entry" where
  "EntryImpl now data unsolicited =
     setData now data unsolicited \<lparr>cs_data = data, m_isUnsolicited = unsolicited, m_staleTime = 0\<rparr>"

definition isStale :: "time \<Rightarrow> cs_entry \<Rightarrow> bool" where
  "isStale now e \<longleftrightarrow> m_staleTime e < now"

definition canSatisfy :: "(interest \<Rightarrow> data \<Rightarrow> bool) \<Rightarrow> time \<Rightarrow> interest \<Rightarrow> cs_entry \<Rightarrow> bool" where
  "canSatisfy matchesData now interest e =
     (if \<not> matchesData interest (cs_data e) then False
      else if getMustBeFresh (getSelectors interest) \<and> isStale now e then False
      else True)"

definition unsetUnsolicited :: "time \<Rightarrow> cs_entry \<Rightarrow> cs_entry" where
  "unsetUnsolicited now e = setData now (cs_data e) False e"

subsection \<open>The order of the table\<close>

definition compareQueryWithData :: "comp_less \<Rightarrow> name \<Rightarrow> data \<Rightarrow> int" where
  "compareQueryWithData lt queryName data =
     (let queryIsFullName = hasDigest queryName;
          cmp = (if queryIsFullName then name_compare lt (butlast queryName) (getDataName data)
                 else name_compare lt queryName (getDataName data))
      in if cmp \<noteq> 0 then cmp
         else if queryIsFullName then comp_compare lt (last queryName) (last (getFullName data))
         else - 1)"

definition compareDataWithData :: "comp_less \<Rightarrow> data \<Rightarrow> data \<Rightarrow> int" where
  "compareDataWithData lt lhs rhs =
     (let cmp = name_compare lt (getDataName lhs) (getDataName rhs)
      in if cmp \<noteq> 0 then cmp
         else comp_compare lt (last (getFullName lhs)) (last (getFullName rhs)))"

text \<open>\<^verbatim>\<open>EntryImpl::operator<\<close> between a stored entry and a query, and between stored entries.\<close>

definition less_query :: "comp_less \<Rightarrow> name \<Rightarrow> cs_entry \<Rightarrow> bool" where
  "less_query lt queryName e \<longleftrightarrow> compareQueryWithData lt queryName (cs_data e) > 0"

definition less_entry :: "comp_less \<Rightarrow> cs_entry \<Rightarrow> cs_entry \<Rightarrow> bool" where
  "less_entry lt a b \<longleftrightarrow> compareDataWithData lt (cs_data a) (cs_data b) < 0"

abbreviation entry_ref :: "cs_entry \<Rightarrow> cs_ref" where
  "entry_ref e \<equiv> getFullName (cs_data e)"

definition lower_bound :: "comp_less \<Rightarrow> name \<Rightarrow> cs_entry list \<Rightarrow> nat" where
  "lower_bound lt name table = length (takeWhile (less_query lt name) table)"

text \<open>\<^verbatim>\<open>m_table.emplace\<close>: the position of an equivalent entry, or the new table.\<close>

definition emplace :: "comp_less \<Rightarrow> cs_entry \<Rightarrow> cs_entry list \<Rightarrow> cs_entry list \<times> cs_ref \<times> bool" where
  "emplace lt e table =
     (let front = takeWhile (\<lambda>x. less_entry lt x e) table;
          rest = dropWhile (\<lambda>x. less_entry lt x e) table
      in case rest of
           x # _ \<Rightarrow> if less_entry lt e x then (front @ e # rest, entry_ref e, True) else (table, entry_ref x, False)
         | [] \<Rightarrow> (front @ [e], entry_ref e, True))"

definition modify_entry :: "cs_ref \<Rightarrow> (cs_entry \<Rightarrow> cs_entry) \<Rightarrow> cs_entry list \<Rightarrow> cs_entry list" where
  "modify_entry i f table = update_first (\<lambda>e. entry_ref e = i) f table"

definition entry_of :: "cs_ref \<Rightarrow> cs_entry list \<Rightarrow> cs_entry option" where
  "entry_of i table = List.find (\<lambda>e. entry_ref e = i) table"

definition table_erase :: "cs_ref \<Rightarrow> cs_entry list \<Rightarrow> cs_entry list" where
  "table_erase i table = filter (\<lambda>e. entry_ref e \<noteq> i) table"

subsection \<open>The store and its policy\<close>

record 'p cs =
  cs_table :: "cs_entry list"
  cs_policy :: 'p
  m_limit :: nat
  m_shouldAdmit :: bool
  m_shouldServe :: bool

record 'p Policy =
  doAfterInsert :: "time \<Rightarrow> cs_ref \<Rightarrow> 'p cs \<Rightarrow> 'p cs option"
  doAfterRefresh :: "time \<Rightarrow> cs_ref \<Rightarrow> 'p cs \<Rightarrow> 'p cs option"
  doBeforeErase :: "cs_ref \<Rightarrow> 'p cs \<Rightarrow> 'p cs option"
  doBeforeUse :: "cs_ref \<Rightarrow> 'p cs \<Rightarrow> 'p cs option"
  evictAll :: "'p cs \<Rightarrow> 'p cs option"

text \<open>The handler of the signal \<^verbatim>\<open>beforeEvict\<close>.\<close>

definition beforeEvict :: "cs_ref \<Rightarrow> 'p cs \<Rightarrow> 'p cs" where
  "beforeEvict i cs = cs\<lparr>cs_table := table_erase i (cs_table cs)\<rparr>"

definition setLimit :: "'p Policy \<Rightarrow> nat \<Rightarrow> 'p cs \<Rightarrow> 'p cs option" where
  "setLimit vt nMaxEntries cs = evictAll vt (cs\<lparr>m_limit := nMaxEntries\<rparr>)"

definition Cs :: "'p Policy \<Rightarrow> 'p \<Rightarrow> nat \<Rightarrow> 'p cs option" where
  "Cs vt policy nMaxPackets =
     setLimit vt nMaxPackets \<lparr>cs_table = [], cs_policy = policy, m_limit = 0, m_shouldAdmit = True, m_shouldServe = True\<rparr>"

definition setPolicy :: "'q Policy \<Rightarrow> 'q \<Rightarrow> 'p cs \<Rightarrow> 'q cs option" where
  "setPolicy vt policy cs =
     setLimit vt (m_limit cs) \<lparr>cs_table = cs_table cs, cs_policy = policy, m_limit = 0,
       m_shouldAdmit = m_shouldAdmit cs, m_shouldServe = m_shouldServe cs\<rparr>"

definition enableAdmit :: "bool \<Rightarrow> 'p cs \<Rightarrow> 'p cs" where
  "enableAdmit b cs = (if m_shouldAdmit cs = b then cs else cs\<lparr>m_shouldAdmit := b\<rparr>)"

definition enableServe :: "bool \<Rightarrow> 'p cs \<Rightarrow> 'p cs" where
  "enableServe b cs = (if m_shouldServe cs = b then cs else cs\<lparr>m_shouldServe := b\<rparr>)"

definition Cs_insert :: "comp_less \<Rightarrow> 'p Policy \<Rightarrow> time \<Rightarrow> data \<Rightarrow> bool \<Rightarrow> 'p cs \<Rightarrow> 'p cs option" where
  "Cs_insert lt vt now data unsolicited cs =
     (if \<not> m_shouldAdmit cs \<or> m_limit cs = 0 then Some cs
      else if getCachePolicyNoCache data then Some cs
      else do {
        let (table, it, isNewEntry) = emplace lt (EntryImpl now data unsolicited) (cs_table cs);
        let cs = cs\<lparr>cs_table := modify_entry it (updateStaleTime now) table\<rparr>;
        if \<not> isNewEntry then do {
          entry \<leftarrow> entry_of it (cs_table cs);
          let cs = (if m_isUnsolicited entry \<and> \<not> unsolicited
                    then cs\<lparr>cs_table := modify_entry it (unsetUnsolicited now) (cs_table cs)\<rparr> else cs);
          doAfterRefresh vt now it cs
        }
        else doAfterInsert vt now it cs
      })"

text \<open>The range of entries under a prefix, as positions.\<close>

definition range_of :: "comp_less \<Rightarrow> (name \<Rightarrow> name) \<Rightarrow> name \<Rightarrow> cs_entry list \<Rightarrow> nat \<times> nat" where
  "range_of lt successor pfx table =
     (lower_bound lt pfx table,
      if 0 < length pfx then lower_bound lt (successor pfx) table else length table)"

fun erase_refs :: "'p Policy \<Rightarrow> cs_ref list \<Rightarrow> nat \<Rightarrow> 'p cs \<Rightarrow> ('p cs \<times> nat) option" where
  "erase_refs vt [] limit cs = Some (cs, 0)"
| "erase_refs vt (i # is) limit cs =
     (if 0 < limit then do {
        cs \<leftarrow> doBeforeErase vt i cs;
        let cs = cs\<lparr>cs_table := table_erase i (cs_table cs)\<rparr>;
        (cs, nErased) \<leftarrow> erase_refs vt is (limit - 1) cs;
        Some (cs, nErased + 1)
      }
      else Some (cs, 0))"

definition Cs_erase :: "comp_less \<Rightarrow> (name \<Rightarrow> name) \<Rightarrow> 'p Policy \<Rightarrow> name \<Rightarrow> nat \<Rightarrow> 'p cs \<Rightarrow> ('p cs \<times> nat) option" where
  "Cs_erase lt successor vt pfx limit cs =
     (let (first, lst) = range_of lt successor pfx (cs_table cs)
      in erase_refs vt (map entry_ref (drop first (take lst (cs_table cs)))) limit cs)"

text \<open>\<^verbatim>\<open>std::find_if\<close> and \<^verbatim>\<open>find_last_if\<close> on a range of positions: the last position when nothing is found.\<close>

definition findLeftmost :: "(cs_entry \<Rightarrow> bool) \<Rightarrow> cs_entry list \<Rightarrow> nat \<Rightarrow> nat \<Rightarrow> nat" where
  "findLeftmost sat table first lst =
     (case List.find (\<lambda>i. sat (table ! i)) [first..<lst] of None \<Rightarrow> lst | Some i \<Rightarrow> i)"

definition findRightmostAmongExact :: "(cs_entry \<Rightarrow> bool) \<Rightarrow> cs_entry list \<Rightarrow> nat \<Rightarrow> nat \<Rightarrow> nat" where
  "findRightmostAmongExact sat table first lst =
     (case List.find (\<lambda>i. sat (table ! i)) (rev [first..<lst]) of None \<Rightarrow> lst | Some i \<Rightarrow> i)"

text \<open>
  One turn of the loop over sub-namespaces: it returns, goes on to the left, or (None) steps
  back from the beginning of the table.
\<close>

datatype rightmost_turn = Return nat | Continue nat

definition rightmost_body :: "comp_less \<Rightarrow> (cs_entry \<Rightarrow> bool) \<Rightarrow> nat \<Rightarrow> cs_entry list \<Rightarrow> nat \<Rightarrow> nat \<Rightarrow> nat \<Rightarrow>
    rightmost_turn option" where
  "rightmost_body lt sat n table first lst right =
     (if right = first then Some (Return lst)
      else do {
        prev \<leftarrow> (if right = 0 then None else vec_get table (right - 1));
        if length (getDataName (cs_data prev)) = n
        then (let matchExact = findRightmostAmongExact sat table first right
              in Some (Return (if matchExact = right then lst else matchExact)))
        else (let left = lower_bound lt (take (n + 1) (getDataName (cs_data prev))) table;
                  match = findLeftmost sat table left right
              in Some (if match \<noteq> right then Return match else Continue left))
      })"

partial_function (option) rightmost_loop :: "comp_less \<Rightarrow> (cs_entry \<Rightarrow> bool) \<Rightarrow> nat \<Rightarrow> cs_entry list \<Rightarrow> nat \<Rightarrow> nat \<Rightarrow>
    nat \<Rightarrow> nat option" where
  "rightmost_loop lt sat n table first lst right =
     Option.bind (rightmost_body lt sat n table first lst right) (\<lambda>turn.
       case turn of Return match \<Rightarrow> Some match | Continue left \<Rightarrow> rightmost_loop lt sat n table first lst left)"

definition findRightmost :: "comp_less \<Rightarrow> (cs_entry \<Rightarrow> bool) \<Rightarrow> interest \<Rightarrow> cs_entry list \<Rightarrow> nat \<Rightarrow> nat \<Rightarrow> nat option" where
  "findRightmost lt sat interest table first lst =
     rightmost_loop lt sat (length (getName interest)) table first lst lst"

definition Cs_find :: "comp_less \<Rightarrow> (name \<Rightarrow> name) \<Rightarrow> (interest \<Rightarrow> data \<Rightarrow> bool) \<Rightarrow> 'p Policy \<Rightarrow> time \<Rightarrow> interest \<Rightarrow> 'p cs \<Rightarrow>
    ('p cs \<times> data option) option" where
  "Cs_find lt successor matchesData vt now interest cs =
     (if \<not> m_shouldServe cs \<or> m_limit cs = 0 then Some (cs, None)
      else do {
        let sat = canSatisfy matchesData now interest;
        let (first, lst) = range_of lt successor (getName interest) (cs_table cs);
        match \<leftarrow> (if getChildSelector (getSelectors interest) = 1
                  then findRightmost lt sat interest (cs_table cs) first lst
                  else Some (findLeftmost sat (cs_table cs) first lst));
        if match = lst then Some (cs, None)
        else do {
          entry \<leftarrow> vec_get (cs_table cs) match;
          cs \<leftarrow> doBeforeUse vt (entry_ref entry) cs;
          Some (cs, Some (cs_data entry))
        }
      })"

subsection \<open>The LRU policy\<close>

text \<open>The queue of table iterators, without duplicates, least recently used first.\<close>

type_synonym lru = "cs_ref list"

definition insertToQueue :: "cs_ref \<Rightarrow> bool \<Rightarrow> lru cs \<Rightarrow> lru cs option" where
  "insertToQueue i isNewEntry cs = do {
     let isNew = (i \<notin> set (cs_policy cs));
     let queue = (if isNew then cs_policy cs @ [i] else cs_policy cs);
     assert (isNew = isNewEntry);
     Some (cs\<lparr>cs_policy := if \<not> isNewEntry then erase_first (\<lambda>x. x = i) queue @ [i] else queue\<rparr>)
   }"

function lru_evictEntries :: "lru cs \<Rightarrow> lru cs option" where
  "lru_evictEntries cs =
     (if m_limit cs < length (cs_table cs) then
        (case cs_policy cs of
           [] \<Rightarrow> None
         | i # queue \<Rightarrow> lru_evictEntries (beforeEvict i (cs\<lparr>cs_policy := queue\<rparr>)))
      else Some cs)"
  by pat_completeness auto
termination by (relation "measure (\<lambda>cs. length (cs_policy cs))") (auto simp: beforeEvict_def)

declare lru_evictEntries.simps [simp del]

definition lru_doAfterInsert :: "time \<Rightarrow> cs_ref \<Rightarrow> lru cs \<Rightarrow> lru cs option" where
  "lru_doAfterInsert now i cs = Option.bind (insertToQueue i True cs) lru_evictEntries"

definition lru_doAfterRefresh :: "time \<Rightarrow> cs_ref \<Rightarrow> lru cs \<Rightarrow> lru cs option" where
  "lru_doAfterRefresh now i cs = insertToQueue i False cs"

definition lru_doBeforeErase :: "cs_ref \<Rightarrow> lru cs \<Rightarrow> lru cs option" where
  "lru_doBeforeErase i cs = Some (cs\<lparr>cs_policy := removeAll i (cs_policy cs)\<rparr>)"

definition lru_doBeforeUse :: "cs_ref \<Rightarrow> lru cs \<Rightarrow> lru cs option" where
  "lru_doBeforeUse i cs = insertToQueue i False cs"

definition LruPolicy :: "lru Policy" where
  "LruPolicy = \<lparr>doAfterInsert = lru_doAfterInsert, doAfterRefresh = lru_doAfterRefresh,
     doBeforeErase = lru_doBeforeErase, doBeforeUse = lru_doBeforeUse, evictAll = lru_evictEntries\<rparr>"

subsection \<open>The priority FIFO policy\<close>

datatype QueueType = QUEUE_UNSOLICITED | QUEUE_STALE | QUEUE_FIFO

record EntryInfo =
  queueType :: QueueType
  moveStaleEventId :: "time option"

record pfifo =
  m_queues :: "QueueType \<Rightarrow> cs_ref list"
  m_entryInfoMap :: "(cs_ref \<times> EntryInfo) list"

definition pfifo_new :: pfifo where
  "pfifo_new = \<lparr>m_queues = (\<lambda>_. []), m_entryInfoMap = []\<rparr>"

definition attachQueue :: "time \<Rightarrow> cs_ref \<Rightarrow> pfifo cs \<Rightarrow> pfifo cs option" where
  "attachQueue now i cs = do {
     let p = cs_policy cs;
     assert (map_of (m_entryInfoMap p) i = None);
     entry \<leftarrow> entry_of i (cs_table cs);
     let info =
       (if m_isUnsolicited entry then \<lparr>queueType = QUEUE_UNSOLICITED, moveStaleEventId = None\<rparr>
        else if isStale now entry then \<lparr>queueType = QUEUE_STALE, moveStaleEventId = None\<rparr>
        else \<lparr>queueType = QUEUE_FIFO, moveStaleEventId = Some (now + ms (getFreshnessPeriod (cs_data entry)))\<rparr>);
     let q = queueType info;
     Some (cs\<lparr>cs_policy := p\<lparr>m_queues := (m_queues p)(q := m_queues p q @ [i]),
                            m_entryInfoMap := AList.update i info (m_entryInfoMap p)\<rparr>\<rparr>)
   }"

definition detachQueue :: "cs_ref \<Rightarrow> pfifo cs \<Rightarrow> pfifo cs option" where
  "detachQueue i cs = do {
     let p = cs_policy cs;
     info \<leftarrow> map_of (m_entryInfoMap p) i;
     let q = queueType info;
     Some (cs\<lparr>cs_policy := p\<lparr>m_queues := (m_queues p)(q := erase_first (\<lambda>x. x = i) (m_queues p q)),
                            m_entryInfoMap := AList.delete i (m_entryInfoMap p)\<rparr>\<rparr>)
   }"

definition moveToStaleQueue :: "cs_ref \<Rightarrow> pfifo cs \<Rightarrow> pfifo cs option" where
  "moveToStaleQueue i cs = do {
     let p = cs_policy cs;
     info \<leftarrow> map_of (m_entryInfoMap p) i;
     assert (queueType info = QUEUE_FIFO);
     let queues = (m_queues p)(QUEUE_FIFO := erase_first (\<lambda>x. x = i) (m_queues p QUEUE_FIFO));
     let queues = queues(QUEUE_STALE := queues QUEUE_STALE @ [i]);
     Some (cs\<lparr>cs_policy := p\<lparr>m_queues := queues,
       m_entryInfoMap := AList.update i (info\<lparr>queueType := QUEUE_STALE\<rparr>) (m_entryInfoMap p)\<rparr>\<rparr>)
   }"

definition evict_choice :: "pfifo \<Rightarrow> cs_ref option" where
  "evict_choice p =
     (if m_queues p QUEUE_UNSOLICITED \<noteq> [] then Some (hd (m_queues p QUEUE_UNSOLICITED))
      else if m_queues p QUEUE_STALE \<noteq> [] then Some (hd (m_queues p QUEUE_STALE))
      else if m_queues p QUEUE_FIFO \<noteq> [] then Some (hd (m_queues p QUEUE_FIFO))
      else None)"

definition evictOne :: "pfifo cs \<Rightarrow> pfifo cs option" where
  "evictOne cs = do {
     i \<leftarrow> evict_choice (cs_policy cs);
     cs \<leftarrow> detachQueue i cs;
     Some (beforeEvict i cs)
   }"

lemma length_delete_present: "map_of m k \<noteq> None \<Longrightarrow> length (AList.delete k m) < length m"
  by (induction m) (auto simp: AList.delete_eq less_Suc_eq_le intro: le_trans [OF length_filter_le])

lemma evictOne_info: "evictOne cs = Some cs' \<Longrightarrow> length (m_entryInfoMap (cs_policy cs')) < length (m_entryInfoMap (cs_policy cs))"
  by (auto simp: evictOne_def detachQueue_def beforeEvict_def Let_def bind_eq_Some_conv intro!: length_delete_present)

function pfifo_evictEntries :: "pfifo cs \<Rightarrow> pfifo cs option" where
  "pfifo_evictEntries cs =
     (if m_limit cs < length (cs_table cs) then
        (case evictOne cs of None \<Rightarrow> None | Some cs \<Rightarrow> pfifo_evictEntries cs)
      else Some cs)"
  by pat_completeness auto
termination by (relation "measure (\<lambda>cs. length (m_entryInfoMap (cs_policy cs)))") (auto dest: evictOne_info)

declare pfifo_evictEntries.simps [simp del]

definition pfifo_doAfterInsert :: "time \<Rightarrow> cs_ref \<Rightarrow> pfifo cs \<Rightarrow> pfifo cs option" where
  "pfifo_doAfterInsert now i cs = Option.bind (attachQueue now i cs) pfifo_evictEntries"

definition pfifo_doAfterRefresh :: "time \<Rightarrow> cs_ref \<Rightarrow> pfifo cs \<Rightarrow> pfifo cs option" where
  "pfifo_doAfterRefresh now i cs = Option.bind (detachQueue i cs) (attachQueue now i)"

definition pfifo_doBeforeErase :: "cs_ref \<Rightarrow> pfifo cs \<Rightarrow> pfifo cs option" where
  "pfifo_doBeforeErase i cs = detachQueue i cs"

definition pfifo_doBeforeUse :: "cs_ref \<Rightarrow> pfifo cs \<Rightarrow> pfifo cs option" where
  "pfifo_doBeforeUse i cs = do { assert (map_of (m_entryInfoMap (cs_policy cs)) i \<noteq> None); Some cs }"

definition PriorityFifoPolicy :: "pfifo Policy" where
  "PriorityFifoPolicy = \<lparr>doAfterInsert = pfifo_doAfterInsert, doAfterRefresh = pfifo_doAfterRefresh,
     doBeforeErase = pfifo_doBeforeErase, doBeforeUse = pfifo_doBeforeUse, evictAll = pfifo_evictEntries\<rparr>"

subsection \<open>The order is strict and total\<close>

lemma last_getFullName [simp]: "last (getFullName d) = ImplicitDigest (getDigest d)"
  by (simp add: getFullName_def)

lemma getFullName_eq: "getFullName a = getFullName b \<longleftrightarrow> getDataName a = getDataName b \<and> getDigest a = getDigest b"
  by (simp add: getFullName_def)

lemma less_entry_alt:
  "less_entry lt a b \<longleftrightarrow> name_compare lt (getDataName (cs_data a)) (getDataName (cs_data b)) < 0 \<or>
     getDataName (cs_data a) = getDataName (cs_data b) \<and>
     comp_compare lt (ImplicitDigest (getDigest (cs_data a))) (ImplicitDigest (getDigest (cs_data b))) < 0"
  by (auto simp: less_entry_def compareDataWithData_def Let_def)

lemma less_entry_order:
  assumes "strict_order lt"
  shows "less_entry lt a b \<Longrightarrow> less_entry lt b c \<Longrightarrow> less_entry lt a c"
    and "less_entry lt a b \<Longrightarrow> entry_ref a \<noteq> entry_ref b"
    and "entry_ref a \<noteq> entry_ref b \<Longrightarrow> less_entry lt a b \<or> less_entry lt b a"
    and "less_entry lt a b \<Longrightarrow> \<not> less_entry lt b a"
proof -
  note o = strict_orderD [OF assms]
  have zero: "\<not> name_compare lt n n < 0" for n by (simp add: less_le)
  have total: "m \<noteq> n \<Longrightarrow> name_compare lt m n < 0 \<or> name_compare lt n m < 0" for m n
    using name_compare_zero [of lt m n] name_compare_pos [OF assms, of m n] by linarith
  show "less_entry lt a b \<Longrightarrow> less_entry lt b c \<Longrightarrow> less_entry lt a c"
    unfolding less_entry_alt comp_compare_neg
    by (elim disjE conjE) (metis name_compare_trans [OF assms] o(2,4))+
  show neq: "less_entry lt a b \<Longrightarrow> entry_ref a \<noteq> entry_ref b"
    using zero by (auto simp: less_entry_alt getFullName_eq comp_compare_neg)
  show "entry_ref a \<noteq> entry_ref b \<Longrightarrow> less_entry lt a b \<or> less_entry lt b a"
    using total [of "getDataName (cs_data a)" "getDataName (cs_data b)"]
      o(3) [of "ImplicitDigest (getDigest (cs_data a))" "ImplicitDigest (getDigest (cs_data b))"]
    by (auto simp: less_entry_alt getFullName_eq comp_compare_neg)
  have asym: "name_compare lt m n < 0 \<Longrightarrow> \<not> name_compare lt n m < 0" for m n
    using name_compare_pos [OF assms, of m n] by linarith
  show "less_entry lt a b \<Longrightarrow> \<not> less_entry lt b a"
    using asym zero o(4) by (auto simp: less_entry_alt comp_compare_neg)
qed

subsection \<open>Tables in order\<close>

abbreviation in_order :: "comp_less \<Rightarrow> cs_entry list \<Rightarrow> bool" where
  "in_order lt table \<equiv> sorted_wrt (less_entry lt) table"

abbreviation refs :: "cs_entry list \<Rightarrow> cs_ref set" where
  "refs table \<equiv> entry_ref ` set table"

lemma in_order_distinct: "strict_order lt \<Longrightarrow> in_order lt table \<Longrightarrow> distinct (map entry_ref table)"
  by (induction table) (auto dest: less_entry_order(2))

lemma less_entry_cong:
  "entry_ref a = entry_ref a' \<Longrightarrow> entry_ref b = entry_ref b' \<Longrightarrow> less_entry lt a b \<longleftrightarrow> less_entry lt a' b'"
  by (simp add: less_entry_alt getFullName_eq)

lemma modify_entry_map:
  "distinct (map entry_ref table) \<Longrightarrow> modify_entry i f table = map (\<lambda>e. if entry_ref e = i then f e else e) table"
proof (induction table)
  case (Cons e table)
  show ?case
  proof (cases "entry_ref e = i")
    case True
    then have "i \<notin> refs table" using Cons.prems by simp
    then have "\<forall>x\<in>set table. entry_ref x \<noteq> i" by blast
    then have "map (\<lambda>e. if entry_ref e = i then f e else e) table = table" by (intro map_idI) simp
    with True show ?thesis by (simp add: modify_entry_def)
  next
    case False
    with Cons show ?thesis by (simp add: modify_entry_def)
  qed
qed (simp add: modify_entry_def)

lemma map_ref_modify:
  "(\<And>e. entry_ref (f e) = entry_ref e) \<Longrightarrow> map entry_ref (modify_entry i f table) = map entry_ref table"
  unfolding modify_entry_def by (rule map_update_first) simp

lemma entry_ref_update [simp]:
  "entry_ref (updateStaleTime now e) = entry_ref e" "entry_ref (unsetUnsolicited now e) = entry_ref e"
  "entry_ref (EntryImpl now d u) = getFullName d"
  by (simp_all add: updateStaleTime_def unsetUnsolicited_def setData_def EntryImpl_def)

lemma in_order_refs:
  "map entry_ref t = map entry_ref t' \<Longrightarrow> in_order lt t \<longleftrightarrow> in_order lt t'"
proof (induction t arbitrary: t')
  case (Cons e t)
  then obtain e' u where t': "t' = e' # u" "entry_ref e = entry_ref e'" "map entry_ref t = map entry_ref u" by (cases t') auto
  have r: "refs t = refs u" using arg_cong [OF t'(3), of set] by simp
  have "(\<forall>x\<in>set t. less_entry lt e x) \<longleftrightarrow> (\<forall>x\<in>set u. less_entry lt e' x)"
  proof -
    have *: "\<forall>x\<in>set w. less_entry lt a' x" if "refs v = refs w" "entry_ref a = entry_ref a'" "\<forall>x\<in>set v. less_entry lt a x" for v w a a'
    proof
      fix x assume "x \<in> set w"
      then have "entry_ref x \<in> refs v" unfolding that(1) by (rule imageI)
      then obtain y where "y \<in> set v" "entry_ref x = entry_ref y" by (rule imageE)
      then show "less_entry lt a' x" using that(2,3) less_entry_cong [of a a' y x] by auto
    qed
    show ?thesis using * [OF r t'(2)] * [OF r [symmetric] t'(2) [symmetric]] by blast
  qed
  with Cons.IH [OF t'(3)] show ?case by (simp add: t'(1))
qed simp

lemma emplace_spec:
  assumes "strict_order lt" and "in_order lt table"
  shows "entry_ref e \<in> refs table \<Longrightarrow> emplace lt e table = (table, entry_ref e, False)"
    and "entry_ref e \<notin> refs table \<Longrightarrow> \<exists>front rest. table = front @ rest \<and> in_order lt (front @ e # rest) \<and>
      emplace lt e table = (front @ e # rest, entry_ref e, True)"
proof -
  let ?P = "\<lambda>x. less_entry lt x e"
  let ?f = "takeWhile ?P table" and ?r = "dropWhile ?P table"
  note ord = less_entry_order [OF assms(1)]
  have t: "table = ?f @ ?r" by simp
  have s: "in_order lt (?f @ ?r)" using assms(2) by simp
  have f: "\<forall>x\<in>set ?f. less_entry lt x e" by (auto dest: set_takeWhileD)
  have r: "\<forall>x\<in>set ?r. \<not> less_entry lt x e"
  proof (cases ?r)
    case (Cons y r')
    have y: "\<not> less_entry lt y e" using Cons hd_dropWhile [of ?P table] by simp
    have "\<not> less_entry lt x e" if "x \<in> set r'" for x
    proof -
      have "less_entry lt y x" using s that unfolding Cons sorted_wrt_append by simp
      with y ord(1) [of y x e] show ?thesis by blast
    qed
    with y show ?thesis unfolding Cons by simp
  next
    case Nil
    show ?thesis unfolding Nil by simp
  qed
  {
    assume "entry_ref e \<in> refs table"
    then obtain x where x: "x \<in> set table" "entry_ref x = entry_ref e" by (elim imageE) simp
    then have "x \<notin> set ?f" using f ord(2) [of x e] by blast
    moreover have "x \<in> set ?f \<union> set ?r" using x(1) by (simp flip: set_append)
    ultimately have xr: "x \<in> set ?r" by blast
    then obtain y r' where Cons: "?r = y # r'" by (cases ?r) auto
    have "y = x"
    proof (rule ccontr)
      assume "y \<noteq> x"
      then have "less_entry lt y x" using s xr unfolding Cons sorted_wrt_append by simp
      then have "less_entry lt y e" using less_entry_cong [of y y x e] x(2) by simp
      with r Cons show False by simp
    qed
    moreover have "\<not> less_entry lt e x" using ord(2) [of e x] x(2) by auto
    ultimately show "emplace lt e table = (table, entry_ref e, False)"
      using Cons x(2) by (simp add: emplace_def Let_def)
  }
  assume n: "entry_ref e \<notin> refs table"
  have e: "less_entry lt e x" if "x \<in> set ?r" for x
  proof -
    have "x \<in> set table" using that by (metis Un_iff set_append takeWhile_dropWhile_id)
    then have "entry_ref e \<noteq> entry_ref x" using n by blast
    from ord(3) [OF this] r that show ?thesis by blast
  qed
  have "emplace lt e table = (?f @ e # ?r, entry_ref e, True)"
  proof (cases ?r)
    case Nil
    show ?thesis unfolding emplace_def Let_def Nil by simp
  next
    case (Cons y r')
    then have "less_entry lt e y" using e [of y] by simp
    then show ?thesis unfolding emplace_def Let_def Cons by simp
  qed
  moreover have "in_order lt (?f @ e # ?r)"
  proof -
    have s': "in_order lt ?f" "in_order lt ?r" "\<forall>x\<in>set ?f. \<forall>y\<in>set ?r. less_entry lt x y"
      using s unfolding sorted_wrt_append by blast+
    have e': "\<forall>x\<in>set ?r. less_entry lt e x" using e by blast
    show ?thesis unfolding sorted_wrt_append sorted_wrt.simps list.set using s' f e' by blast
  qed
  ultimately show "\<exists>front rest. table = front @ rest \<and> in_order lt (front @ e # rest) \<and>
      emplace lt e table = (front @ e # rest, entry_ref e, True)"
    using t by (intro exI [of _ ?f] exI [of _ ?r] conjI)
qed

subsection \<open>What a policy promises\<close>

text \<open>
  \<open>tracked\<close> are the entries the policy has queued.  After an insertion or an eviction the store
  is what is left of the table, within the limit; the other hooks leave the table alone.
\<close>

abbreviation same_conf :: "'p cs \<Rightarrow> 'p cs \<Rightarrow> bool" where
  "same_conf cs cs' \<equiv> m_limit cs' = m_limit cs \<and> m_shouldAdmit cs' = m_shouldAdmit cs \<and> m_shouldServe cs' = m_shouldServe cs"

locale cs_policy_spec =
  fixes vt :: "'p Policy" and pol_ok :: "'p \<Rightarrow> bool" and tracked :: "'p \<Rightarrow> cs_ref set"
  assumes evict: "pol_ok (cs_policy cs) \<Longrightarrow> distinct (map entry_ref (cs_table cs)) \<Longrightarrow>
      tracked (cs_policy cs) = refs (cs_table cs) \<Longrightarrow>
      \<exists>cs' P. evictAll vt cs = Some cs' \<and> pol_ok (cs_policy cs') \<and> cs_table cs' = filter P (cs_table cs) \<and>
        tracked (cs_policy cs') = refs (cs_table cs') \<and> length (cs_table cs') \<le> m_limit cs' \<and> same_conf cs cs'"
    and after_insert: "pol_ok (cs_policy cs) \<Longrightarrow> distinct (map entry_ref (cs_table cs)) \<Longrightarrow>
      i \<in> refs (cs_table cs) \<Longrightarrow> tracked (cs_policy cs) = refs (cs_table cs) - {i} \<Longrightarrow>
      \<exists>cs' P. doAfterInsert vt now i cs = Some cs' \<and> pol_ok (cs_policy cs') \<and> cs_table cs' = filter P (cs_table cs) \<and>
        tracked (cs_policy cs') = refs (cs_table cs') \<and> length (cs_table cs') \<le> m_limit cs' \<and> same_conf cs cs'"
    and after_refresh: "pol_ok (cs_policy cs) \<Longrightarrow> i \<in> refs (cs_table cs) \<Longrightarrow> tracked (cs_policy cs) = refs (cs_table cs) \<Longrightarrow>
      \<exists>cs'. doAfterRefresh vt now i cs = Some cs' \<and> pol_ok (cs_policy cs') \<and> cs_table cs' = cs_table cs \<and>
        tracked (cs_policy cs') = refs (cs_table cs) \<and> same_conf cs cs'"
    and before_erase: "pol_ok (cs_policy cs) \<Longrightarrow> i \<in> refs (cs_table cs) \<Longrightarrow> tracked (cs_policy cs) = refs (cs_table cs) \<Longrightarrow>
      \<exists>cs'. doBeforeErase vt i cs = Some cs' \<and> pol_ok (cs_policy cs') \<and> cs_table cs' = cs_table cs \<and>
        tracked (cs_policy cs') = refs (cs_table cs) - {i} \<and> same_conf cs cs'"
    and before_use: "pol_ok (cs_policy cs) \<Longrightarrow> i \<in> refs (cs_table cs) \<Longrightarrow> tracked (cs_policy cs) = refs (cs_table cs) \<Longrightarrow>
      \<exists>cs'. doBeforeUse vt i cs = Some cs' \<and> pol_ok (cs_policy cs') \<and> cs_table cs' = cs_table cs \<and>
        tracked (cs_policy cs') = refs (cs_table cs) \<and> same_conf cs cs'"

lemma refs_table_erase [simp]: "refs (table_erase i t) = refs t - {i}"
  by (auto simp: table_erase_def)

lemma distinct_table_erase: "distinct (map entry_ref t) \<Longrightarrow> distinct (map entry_ref (table_erase i t))"
  by (simp add: table_erase_def distinct_map inj_on_def)

lemma filter_table_erase: "filter P (table_erase i t) = filter (\<lambda>e. P e \<and> entry_ref e \<noteq> i) t"
  by (simp add: table_erase_def conj_commute)

lemma lru_evict_spec:
  "distinct (cs_policy cs) \<Longrightarrow> distinct (map entry_ref (cs_table cs)) \<Longrightarrow> set (cs_policy cs) = refs (cs_table cs) \<Longrightarrow>
   \<exists>cs' P. lru_evictEntries cs = Some cs' \<and> distinct (cs_policy cs') \<and> cs_table cs' = filter P (cs_table cs) \<and>
     set (cs_policy cs') = refs (cs_table cs') \<and> length (cs_table cs') \<le> m_limit cs' \<and> same_conf cs cs'"
proof (induction cs rule: lru_evictEntries.induct)
  case (1 cs)
  show ?case
  proof (cases "m_limit cs < length (cs_table cs)")
    case True
    then have "cs_table cs \<noteq> []" by auto
    then have "cs_policy cs \<noteq> []" using "1.prems"(3) by auto
    then obtain i queue where q: "cs_policy cs = i # queue" by (cases "cs_policy cs") auto
    let ?cs = "beforeEvict i (cs\<lparr>cs_policy := queue\<rparr>)"
    have "distinct (cs_policy ?cs)" "distinct (map entry_ref (cs_table ?cs))" "set (cs_policy ?cs) = refs (cs_table ?cs)"
      using "1.prems" q by (auto simp: beforeEvict_def intro: distinct_table_erase)
    from "1.IH" [OF True q this] obtain cs' P where cs': "lru_evictEntries ?cs = Some cs'" "distinct (cs_policy cs')"
      "cs_table cs' = filter P (cs_table ?cs)" "set (cs_policy cs') = refs (cs_table cs')"
      "length (cs_table cs') \<le> m_limit cs'" "same_conf ?cs cs'" by blast
    have "cs_table cs' = filter (\<lambda>e. P e \<and> entry_ref e \<noteq> i) (cs_table cs)"
      using cs'(3) by (simp add: beforeEvict_def filter_table_erase)
    moreover have "lru_evictEntries cs = Some cs'" using True q cs'(1) by (subst lru_evictEntries.simps) simp
    moreover have "same_conf cs cs'" using cs'(6) by (simp add: beforeEvict_def)
    ultimately show ?thesis using cs'(2,4,5) by blast
  next
    case False
    then have "lru_evictEntries cs = Some cs" by (subst lru_evictEntries.simps) simp
    moreover have "cs_table cs = filter (\<lambda>_. True) (cs_table cs)" by simp
    ultimately show ?thesis using "1.prems" False by (metis not_less)
  qed
qed

lemma insertToQueue_old:
  assumes "distinct (cs_policy cs)" and "i \<in> set (cs_policy cs)"
  shows "\<exists>cs'. insertToQueue i False cs = Some cs' \<and> distinct (cs_policy cs') \<and> cs_table cs' = cs_table cs \<and>
    set (cs_policy cs') = set (cs_policy cs) \<and> same_conf cs cs'"
proof -
  have "erase_first (\<lambda>x. x = i) (cs_policy cs) = filter (\<lambda>x. x \<noteq> i) (cs_policy cs)"
    using erase_first_key [of "\<lambda>x. x" "cs_policy cs" i] assms(1) by simp
  with assms show ?thesis by (auto simp: insertToQueue_def)
qed

interpretation lru: cs_policy_spec LruPolicy distinct set
proof unfold_locales
  fix cs :: "lru cs" and i now
  show "distinct (cs_policy cs) \<Longrightarrow> distinct (map entry_ref (cs_table cs)) \<Longrightarrow> set (cs_policy cs) = refs (cs_table cs) \<Longrightarrow>
      \<exists>cs' P. evictAll LruPolicy cs = Some cs' \<and> distinct (cs_policy cs') \<and> cs_table cs' = filter P (cs_table cs) \<and>
        set (cs_policy cs') = refs (cs_table cs') \<and> length (cs_table cs') \<le> m_limit cs' \<and> same_conf cs cs'"
    using lru_evict_spec [of cs] by (simp add: LruPolicy_def)
  show "\<exists>cs' P. doAfterInsert LruPolicy now i cs = Some cs' \<and> distinct (cs_policy cs') \<and> cs_table cs' = filter P (cs_table cs) \<and>
        set (cs_policy cs') = refs (cs_table cs') \<and> length (cs_table cs') \<le> m_limit cs' \<and> same_conf cs cs'"
    if "distinct (cs_policy cs)" "distinct (map entry_ref (cs_table cs))" "i \<in> refs (cs_table cs)"
      "set (cs_policy cs) = refs (cs_table cs) - {i}"
  proof -
    let ?cs = "cs\<lparr>cs_policy := cs_policy cs @ [i]\<rparr>"
    have "insertToQueue i True cs = Some ?cs" using that by (simp add: insertToQueue_def)
    moreover have "set (cs_policy ?cs) = refs (cs_table ?cs)" using that by auto
    ultimately show ?thesis using lru_evict_spec [of ?cs] that by (simp add: LruPolicy_def lru_doAfterInsert_def)
  qed
  show "\<exists>cs'. doAfterRefresh LruPolicy now i cs = Some cs' \<and> distinct (cs_policy cs') \<and> cs_table cs' = cs_table cs \<and>
        set (cs_policy cs') = refs (cs_table cs) \<and> same_conf cs cs'"
    and "\<exists>cs'. doBeforeUse LruPolicy i cs = Some cs' \<and> distinct (cs_policy cs') \<and> cs_table cs' = cs_table cs \<and>
        set (cs_policy cs') = refs (cs_table cs) \<and> same_conf cs cs'"
    if "distinct (cs_policy cs)" "i \<in> refs (cs_table cs)" "set (cs_policy cs) = refs (cs_table cs)"
    using insertToQueue_old [of cs i] that by (simp_all add: LruPolicy_def lru_doAfterRefresh_def lru_doBeforeUse_def)
  show "\<exists>cs'. doBeforeErase LruPolicy i cs = Some cs' \<and> distinct (cs_policy cs') \<and> cs_table cs' = cs_table cs \<and>
        set (cs_policy cs') = refs (cs_table cs) - {i} \<and> same_conf cs cs'"
    if "distinct (cs_policy cs)" "i \<in> refs (cs_table cs)" "set (cs_policy cs) = refs (cs_table cs)"
    using that by (auto simp: LruPolicy_def lru_doBeforeErase_def distinct_removeAll)
qed

text \<open>Every entry with an information record is in exactly the queue the record names.\<close>

definition pfifo_ok :: "pfifo \<Rightarrow> bool" where
  "pfifo_ok p \<longleftrightarrow> (\<forall>q. distinct (m_queues p q) \<and>
     (\<forall>i. i \<in> set (m_queues p q) \<longleftrightarrow> (\<exists>info. map_of (m_entryInfoMap p) i = Some info \<and> queueType info = q)))"

abbreviation pfifo_tracked :: "pfifo \<Rightarrow> cs_ref set" where
  "pfifo_tracked p \<equiv> dom (map_of (m_entryInfoMap p))"

lemma detachQueue_ok:
  assumes "pfifo_ok (cs_policy cs)" and "i \<in> pfifo_tracked (cs_policy cs)"
  shows "\<exists>cs'. detachQueue i cs = Some cs' \<and> pfifo_ok (cs_policy cs') \<and> cs_table cs' = cs_table cs \<and>
    pfifo_tracked (cs_policy cs') = pfifo_tracked (cs_policy cs) - {i} \<and> same_conf cs cs'"
proof -
  let ?p = "cs_policy cs"
  obtain info where info: "map_of (m_entryInfoMap ?p) i = Some info" using assms(2) by auto
  let ?q = "queueType info"
  have d: "distinct (m_queues ?p q)"
    and m: "j \<in> set (m_queues ?p q) \<longleftrightarrow> (\<exists>info. map_of (m_entryInfoMap ?p) j = Some info \<and> queueType info = q)" for q j
    using assms(1) unfolding pfifo_ok_def by simp_all
  have e: "erase_first (\<lambda>x. x = i) (m_queues ?p ?q) = filter (\<lambda>x. x \<noteq> i) (m_queues ?p ?q)"
    using erase_first_key [of "\<lambda>x. x" "m_queues ?p ?q" i] d by simp
  have other: "i \<notin> set (m_queues ?p q)" if "q \<noteq> ?q" for q using m [of i q] info that by simp
  let ?cs = "cs\<lparr>cs_policy := ?p\<lparr>m_queues := (m_queues ?p)(?q := filter (\<lambda>x. x \<noteq> i) (m_queues ?p ?q)),
                            m_entryInfoMap := AList.delete i (m_entryInfoMap ?p)\<rparr>\<rparr>"
  have "detachQueue i cs = Some ?cs" using info e by (simp add: detachQueue_def Let_def)
  moreover have "pfifo_ok (cs_policy ?cs)"
    unfolding pfifo_ok_def
  proof (intro allI conjI)
    fix q j
    show "distinct (m_queues (cs_policy ?cs) q)" using d by simp
    show "j \<in> set (m_queues (cs_policy ?cs) q) \<longleftrightarrow>
        (\<exists>info. map_of (m_entryInfoMap (cs_policy ?cs)) j = Some info \<and> queueType info = q)"
      using other [of q] by (cases "j = i"; cases "q = ?q") (simp_all add: m delete_conv)
  qed
  moreover have "pfifo_tracked (cs_policy ?cs) = pfifo_tracked ?p - {i}" by (simp add: delete_conv')
  ultimately show ?thesis by simp
qed

lemma attachQueue_ok:
  assumes "pfifo_ok (cs_policy cs)" and "i \<notin> pfifo_tracked (cs_policy cs)" and "i \<in> refs (cs_table cs)"
  shows "\<exists>cs'. attachQueue now i cs = Some cs' \<and> pfifo_ok (cs_policy cs') \<and> cs_table cs' = cs_table cs \<and>
    pfifo_tracked (cs_policy cs') = insert i (pfifo_tracked (cs_policy cs)) \<and> same_conf cs cs'"
proof -
  let ?p = "cs_policy cs"
  have none: "map_of (m_entryInfoMap ?p) i = None" using assms(2) by auto
  have "entry_of i (cs_table cs) \<noteq> None" using assms(3) by (auto simp: entry_of_def find_eq_None)
  then obtain e where e: "entry_of i (cs_table cs) = Some e" by blast
  define info where "info = (if m_isUnsolicited e then \<lparr>queueType = QUEUE_UNSOLICITED, moveStaleEventId = None\<rparr>
        else if isStale now e then \<lparr>queueType = QUEUE_STALE, moveStaleEventId = None\<rparr>
        else \<lparr>queueType = QUEUE_FIFO, moveStaleEventId = Some (now + ms (getFreshnessPeriod (cs_data e)))\<rparr>)"
  let ?q = "queueType info"
  have d: "distinct (m_queues ?p q)"
    and m: "j \<in> set (m_queues ?p q) \<longleftrightarrow> (\<exists>info. map_of (m_entryInfoMap ?p) j = Some info \<and> queueType info = q)" for q j
    using assms(1) unfolding pfifo_ok_def by simp_all
  have out: "i \<notin> set (m_queues ?p q)" for q using m [of i q] none by simp
  let ?cs = "cs\<lparr>cs_policy := ?p\<lparr>m_queues := (m_queues ?p)(?q := m_queues ?p ?q @ [i]),
                            m_entryInfoMap := AList.update i info (m_entryInfoMap ?p)\<rparr>\<rparr>"
  have "attachQueue now i cs = Some ?cs" using none e by (simp add: attachQueue_def info_def Let_def)
  moreover have "pfifo_ok (cs_policy ?cs)"
    unfolding pfifo_ok_def
  proof (intro allI conjI)
    fix q j
    show "distinct (m_queues (cs_policy ?cs) q)" using d out by simp
    show "j \<in> set (m_queues (cs_policy ?cs) q) \<longleftrightarrow>
        (\<exists>info. map_of (m_entryInfoMap (cs_policy ?cs)) j = Some info \<and> queueType info = q)"
      using out [of q] by (cases "j = i"; cases "q = ?q") (simp_all add: m update_conv)
  qed
  moreover have "pfifo_tracked (cs_policy ?cs) = insert i (pfifo_tracked ?p)" by (simp add: update_conv')
  ultimately show ?thesis by simp
qed

lemma evict_choice_tracked:
  assumes "pfifo_ok p" and "pfifo_tracked p \<noteq> {}"
  shows "\<exists>i. evict_choice p = Some i \<and> i \<in> pfifo_tracked p"
proof -
  have m: "j \<in> set (m_queues p q) \<longleftrightarrow> (\<exists>info. map_of (m_entryInfoMap p) j = Some info \<and> queueType info = q)" for q j
    using assms(1) unfolding pfifo_ok_def by simp
  have hd: "hd (m_queues p q) \<in> pfifo_tracked p" if "m_queues p q \<noteq> []" for q
    using m [of "hd (m_queues p q)" q] that by auto
  obtain j where "j \<in> pfifo_tracked p" using assms(2) by blast
  then obtain info where "map_of (m_entryInfoMap p) j = Some info" by blast
  then have "j \<in> set (m_queues p (queueType info))" using m by auto
  then have "m_queues p (queueType info) \<noteq> []" by auto
  then show ?thesis using hd by (cases "queueType info") (auto simp: evict_choice_def)
qed

lemma pfifo_evict_spec:
  "pfifo_ok (cs_policy cs) \<Longrightarrow> distinct (map entry_ref (cs_table cs)) \<Longrightarrow> pfifo_tracked (cs_policy cs) = refs (cs_table cs) \<Longrightarrow>
   \<exists>cs' P. pfifo_evictEntries cs = Some cs' \<and> pfifo_ok (cs_policy cs') \<and> cs_table cs' = filter P (cs_table cs) \<and>
     pfifo_tracked (cs_policy cs') = refs (cs_table cs') \<and> length (cs_table cs') \<le> m_limit cs' \<and> same_conf cs cs'"
proof (induction cs rule: pfifo_evictEntries.induct)
  case (1 cs)
  show ?case
  proof (cases "m_limit cs < length (cs_table cs)")
    case True
    then have "cs_table cs \<noteq> []" by auto
    then have "pfifo_tracked (cs_policy cs) \<noteq> {}" unfolding "1.prems"(3) by simp
    from evict_choice_tracked [OF "1.prems"(1) this] obtain i where
      i: "evict_choice (cs_policy cs) = Some i" "i \<in> pfifo_tracked (cs_policy cs)" by blast
    obtain c where c: "detachQueue i cs = Some c" "pfifo_ok (cs_policy c)" "cs_table c = cs_table cs"
      "pfifo_tracked (cs_policy c) = pfifo_tracked (cs_policy cs) - {i}" "same_conf cs c"
      using detachQueue_ok [OF "1.prems"(1) i(2)] by blast
    let ?cs = "beforeEvict i c"
    have eo: "evictOne cs = Some ?cs" using i(1) c(1) by (simp add: evictOne_def)
    have "pfifo_ok (cs_policy ?cs)" "distinct (map entry_ref (cs_table ?cs))" "pfifo_tracked (cs_policy ?cs) = refs (cs_table ?cs)"
      using "1.prems" c by (simp_all add: beforeEvict_def distinct_table_erase)
    from "1.IH" [OF True eo this] obtain cs' P where cs': "pfifo_evictEntries ?cs = Some cs'" "pfifo_ok (cs_policy cs')"
      "cs_table cs' = filter P (cs_table ?cs)" "pfifo_tracked (cs_policy cs') = refs (cs_table cs')"
      "length (cs_table cs') \<le> m_limit cs'" "same_conf ?cs cs'" by blast
    have "cs_table cs' = filter (\<lambda>e. P e \<and> entry_ref e \<noteq> i) (cs_table cs)"
      using cs'(3) c(3) by (simp add: beforeEvict_def filter_table_erase)
    moreover have "pfifo_evictEntries cs = Some cs'" using True eo cs'(1) by (subst pfifo_evictEntries.simps) simp
    moreover have "same_conf cs cs'" using cs'(6) c(5) by (simp add: beforeEvict_def)
    ultimately show ?thesis using cs'(2,4,5) by blast
  next
    case False
    then have "pfifo_evictEntries cs = Some cs" by (subst pfifo_evictEntries.simps) simp
    moreover have "cs_table cs = filter (\<lambda>_. True) (cs_table cs)" by simp
    ultimately show ?thesis using "1.prems" False by (metis not_less)
  qed
qed

interpretation pfifo: cs_policy_spec PriorityFifoPolicy pfifo_ok pfifo_tracked
proof unfold_locales
  fix cs :: "pfifo cs" and i now
  show "pfifo_ok (cs_policy cs) \<Longrightarrow> distinct (map entry_ref (cs_table cs)) \<Longrightarrow> pfifo_tracked (cs_policy cs) = refs (cs_table cs) \<Longrightarrow>
      \<exists>cs' P. evictAll PriorityFifoPolicy cs = Some cs' \<and> pfifo_ok (cs_policy cs') \<and> cs_table cs' = filter P (cs_table cs) \<and>
        pfifo_tracked (cs_policy cs') = refs (cs_table cs') \<and> length (cs_table cs') \<le> m_limit cs' \<and> same_conf cs cs'"
    using pfifo_evict_spec [of cs] by (simp add: PriorityFifoPolicy_def)
  show "\<exists>cs' P. doAfterInsert PriorityFifoPolicy now i cs = Some cs' \<and> pfifo_ok (cs_policy cs') \<and> cs_table cs' = filter P (cs_table cs) \<and>
        pfifo_tracked (cs_policy cs') = refs (cs_table cs') \<and> length (cs_table cs') \<le> m_limit cs' \<and> same_conf cs cs'"
    if "pfifo_ok (cs_policy cs)" "distinct (map entry_ref (cs_table cs))" "i \<in> refs (cs_table cs)"
      "pfifo_tracked (cs_policy cs) = refs (cs_table cs) - {i}"
  proof -
    have "i \<notin> pfifo_tracked (cs_policy cs)" unfolding that(4) by simp
    from attachQueue_ok [OF that(1) this that(3), of now] obtain c where c: "attachQueue now i cs = Some c"
      "pfifo_ok (cs_policy c)" "cs_table c = cs_table cs"
      "pfifo_tracked (cs_policy c) = insert i (pfifo_tracked (cs_policy cs))" "same_conf cs c" by blast
    have "pfifo_tracked (cs_policy c) = refs (cs_table c)" unfolding c(3,4) that(4) using that(3) by blast
    then show ?thesis using pfifo_evict_spec [of c] c that(2) by (simp add: PriorityFifoPolicy_def pfifo_doAfterInsert_def)
  qed
  show "\<exists>cs'. doAfterRefresh PriorityFifoPolicy now i cs = Some cs' \<and> pfifo_ok (cs_policy cs') \<and> cs_table cs' = cs_table cs \<and>
        pfifo_tracked (cs_policy cs') = refs (cs_table cs) \<and> same_conf cs cs'"
    if "pfifo_ok (cs_policy cs)" "i \<in> refs (cs_table cs)" "pfifo_tracked (cs_policy cs) = refs (cs_table cs)"
  proof -
    have "i \<in> pfifo_tracked (cs_policy cs)" unfolding that(3) by (rule that(2))
    from detachQueue_ok [OF that(1) this] obtain c where c: "detachQueue i cs = Some c"
      "pfifo_ok (cs_policy c)" "cs_table c = cs_table cs"
      "pfifo_tracked (cs_policy c) = pfifo_tracked (cs_policy cs) - {i}" "same_conf cs c" by blast
    have "i \<notin> pfifo_tracked (cs_policy c)" "i \<in> refs (cs_table c)" unfolding c(3,4) using that(2) by simp_all
    from attachQueue_ok [OF c(2) this, of now] obtain d where d: "attachQueue now i c = Some d"
      "pfifo_ok (cs_policy d)" "cs_table d = cs_table c"
      "pfifo_tracked (cs_policy d) = insert i (pfifo_tracked (cs_policy c))" "same_conf c d" by blast
    have "pfifo_tracked (cs_policy d) = refs (cs_table cs)" unfolding d(4) c(4) that(3) using that(2) by blast
    then show ?thesis using c d by (simp add: PriorityFifoPolicy_def pfifo_doAfterRefresh_def)
  qed
  show "\<exists>cs'. doBeforeErase PriorityFifoPolicy i cs = Some cs' \<and> pfifo_ok (cs_policy cs') \<and> cs_table cs' = cs_table cs \<and>
        pfifo_tracked (cs_policy cs') = refs (cs_table cs) - {i} \<and> same_conf cs cs'"
    if "pfifo_ok (cs_policy cs)" "i \<in> refs (cs_table cs)" "pfifo_tracked (cs_policy cs) = refs (cs_table cs)"
    using detachQueue_ok [of cs i] that by (simp add: PriorityFifoPolicy_def pfifo_doBeforeErase_def)
  show "\<exists>cs'. doBeforeUse PriorityFifoPolicy i cs = Some cs' \<and> pfifo_ok (cs_policy cs') \<and> cs_table cs' = cs_table cs \<and>
        pfifo_tracked (cs_policy cs') = refs (cs_table cs) \<and> same_conf cs cs'"
    if "pfifo_ok (cs_policy cs)" "i \<in> refs (cs_table cs)" "pfifo_tracked (cs_policy cs) = refs (cs_table cs)"
  proof -
    have "map_of (m_entryInfoMap (cs_policy cs)) i \<noteq> None" using that(2) unfolding that(3) [symmetric] by auto
    then show ?thesis using that by (simp add: PriorityFifoPolicy_def pfifo_doBeforeUse_def)
  qed
qed

subsection \<open>Every operation keeps the store in order\<close>

definition cs_ok :: "comp_less \<Rightarrow> ('p \<Rightarrow> bool) \<Rightarrow> ('p \<Rightarrow> cs_ref set) \<Rightarrow> 'p cs \<Rightarrow> bool" where
  "cs_ok lt pol_ok tracked cs \<longleftrightarrow> in_order lt (cs_table cs) \<and> pol_ok (cs_policy cs) \<and>
     tracked (cs_policy cs) = refs (cs_table cs) \<and> length (cs_table cs) \<le> m_limit cs"

lemma findLeftmost_spec:
  assumes "first \<le> lst"
  shows "findLeftmost sat t first lst = lst \<and> (\<forall>i. first \<le> i \<longrightarrow> i < lst \<longrightarrow> \<not> sat (t ! i)) \<or>
    first \<le> findLeftmost sat t first lst \<and> findLeftmost sat t first lst < lst \<and> sat (t ! findLeftmost sat t first lst) \<and>
    (\<forall>i. first \<le> i \<longrightarrow> i < findLeftmost sat t first lst \<longrightarrow> \<not> sat (t ! i))"
proof (cases "List.find (\<lambda>i. sat (t ! i)) [first..<lst]")
  case None
  then have "findLeftmost sat t first lst = lst" by (simp add: findLeftmost_def)
  moreover have "\<forall>i. first \<le> i \<longrightarrow> i < lst \<longrightarrow> \<not> sat (t ! i)" using None by (simp add: find_eq_None)
  ultimately show ?thesis by blast
next
  case (Some k)
  then have f: "findLeftmost sat t first lst = k" by (simp add: findLeftmost_def)
  obtain j where j: "j < length [first..<lst]" "sat (t ! ([first..<lst] ! j))" "k = [first..<lst] ! j"
    "\<forall>i<j. \<not> sat (t ! ([first..<lst] ! i))" using Some by (auto simp: find_Some_iff)
  then have k: "k = first + j" "k < lst" by simp_all
  have "\<not> sat (t ! i)" if "first \<le> i" "i < k" for i
    using j(4) [rule_format, of "i - first"] that j(1) k by simp
  with j(2,3) k show ?thesis unfolding f by simp
qed

context cs_policy_spec
begin

abbreviation ok :: "comp_less \<Rightarrow> 'p cs \<Rightarrow> bool" where
  "ok lt cs \<equiv> cs_ok lt pol_ok tracked cs"

lemma insert_ok:
  assumes "strict_order lt" and "ok lt cs"
  shows "\<exists>cs'. Cs_insert lt vt now d u cs = Some cs' \<and> ok lt cs'"
proof (cases "\<not> m_shouldAdmit cs \<or> m_limit cs = 0 \<or> getCachePolicyNoCache d")
  case True
  then show ?thesis using assms(2) by (auto simp: Cs_insert_def)
next
  case False
  let ?e = "EntryImpl now d u"
  have cs: "in_order lt (cs_table cs)" "pol_ok (cs_policy cs)" "tracked (cs_policy cs) = refs (cs_table cs)"
    "length (cs_table cs) \<le> m_limit cs" using assms(2) by (simp_all add: cs_ok_def)
  show ?thesis
  proof (cases "getFullName d \<in> refs (cs_table cs)")
    case True
    have em: "emplace lt ?e (cs_table cs) = (cs_table cs, getFullName d, False)"
      using emplace_spec(1) [OF assms(1) cs(1), of ?e] True by simp
    let ?c = "cs\<lparr>cs_table := modify_entry (getFullName d) (updateStaleTime now) (cs_table cs)\<rparr>"
    have m: "map entry_ref (modify_entry i f t) = map entry_ref t" if "\<And>e. entry_ref (f e) = entry_ref e" for i f t
      by (rule map_ref_modify) (rule that)
    have rc: "map entry_ref (cs_table ?c) = map entry_ref (cs_table cs)" by (simp add: m)
    have "entry_of (getFullName d) (cs_table ?c) \<noteq> None"
    proof -
      have "getFullName d \<in> set (map entry_ref (cs_table ?c))" unfolding rc using True by simp
      then show ?thesis by (auto simp: entry_of_def find_eq_None)
    qed
    then obtain x where x: "entry_of (getFullName d) (cs_table ?c) = Some x" by blast
    let ?c' = "if m_isUnsolicited x \<and> \<not> u then
        ?c\<lparr>cs_table := modify_entry (getFullName d) (unsetUnsolicited now) (cs_table ?c)\<rparr> else ?c"
    have rc': "map entry_ref (cs_table ?c') = map entry_ref (cs_table cs)" by (simp add: m)
    have refs': "refs (cs_table ?c') = refs (cs_table cs)" using arg_cong [OF rc', of set] by simp
    have same: "cs_policy ?c' = cs_policy cs" "m_limit ?c' = m_limit cs" by simp_all
    obtain cs' where cs': "doAfterRefresh vt now (getFullName d) ?c' = Some cs'" "pol_ok (cs_policy cs')"
      "cs_table cs' = cs_table ?c'" "tracked (cs_policy cs') = refs (cs_table ?c')" "same_conf ?c' cs'"
      using after_refresh [of ?c' "getFullName d" now] cs(2,3) True unfolding refs' same by blast
    have "Cs_insert lt vt now d u cs = Some cs'"
      using False em x cs'(1) by (simp add: Cs_insert_def Let_def split: if_splits)
    moreover have "in_order lt (cs_table cs')" unfolding cs'(3) using in_order_refs [OF rc'] cs(1) by simp
    moreover have "length (cs_table cs') \<le> m_limit cs'" using cs(4) arg_cong [OF rc', of length] cs'(5) unfolding cs'(3) same by simp
    moreover have "tracked (cs_policy cs') = refs (cs_table cs')" unfolding cs'(3) by (rule cs'(4))
    ultimately show ?thesis using cs'(2) unfolding cs_ok_def by blast
  next
    case new: False
    obtain front rest where em: "cs_table cs = front @ rest" "in_order lt (front @ ?e # rest)"
      "emplace lt ?e (cs_table cs) = (front @ ?e # rest, getFullName d, True)"
      using emplace_spec(2) [OF assms(1) cs(1), of ?e] new by auto
    let ?c = "cs\<lparr>cs_table := modify_entry (getFullName d) (updateStaleTime now) (front @ ?e # rest)\<rparr>"
    have rc: "map entry_ref (cs_table ?c) = map entry_ref (front @ ?e # rest)" by (simp add: map_ref_modify)
    have o: "in_order lt (cs_table ?c)" using in_order_refs [OF rc] em(2) by simp
    have dist: "distinct (map entry_ref (cs_table ?c))" by (rule in_order_distinct [OF assms(1) o])
    have refs: "refs (cs_table ?c) = insert (getFullName d) (refs (cs_table cs))"
      using arg_cong [OF rc, of set] em(1) by auto
    then have "tracked (cs_policy ?c) = refs (cs_table ?c) - {getFullName d}" using cs(3) new by simp
    moreover have "getFullName d \<in> refs (cs_table ?c)" unfolding refs by simp
    ultimately obtain cs' P where cs': "doAfterInsert vt now (getFullName d) ?c = Some cs'" "pol_ok (cs_policy cs')"
      "cs_table cs' = filter P (cs_table ?c)" "tracked (cs_policy cs') = refs (cs_table cs')" "length (cs_table cs') \<le> m_limit cs'"
      using after_insert [of ?c "getFullName d" now] cs(2) dist by auto
    have "Cs_insert lt vt now d u cs = Some cs'" using False em(3) cs'(1) by (simp add: Cs_insert_def)
    moreover have "in_order lt (cs_table cs')" unfolding cs'(3) by (rule sorted_wrt_filter [OF o])
    ultimately show ?thesis using cs'(2,4,5) by (simp add: cs_ok_def)
  qed
qed

lemma setLimit_ok:
  assumes "strict_order lt" and "ok lt cs"
  shows "\<exists>cs'. setLimit vt n cs = Some cs' \<and> ok lt cs'"
proof -
  have cs: "in_order lt (cs_table cs)" "pol_ok (cs_policy cs)" "tracked (cs_policy cs) = refs (cs_table cs)"
    using assms(2) by (simp_all add: cs_ok_def)
  obtain cs' P where "evictAll vt (cs\<lparr>m_limit := n\<rparr>) = Some cs'" "pol_ok (cs_policy cs')" "cs_table cs' = filter P (cs_table cs)"
    "tracked (cs_policy cs') = refs (cs_table cs')" "length (cs_table cs') \<le> m_limit cs'"
    using evict [of "cs\<lparr>m_limit := n\<rparr>"] cs in_order_distinct [OF assms(1) cs(1)] by auto
  then show ?thesis using sorted_wrt_filter [OF cs(1)] by (auto simp: setLimit_def cs_ok_def)
qed

lemma erase_refs_ok:
  "ok lt cs \<Longrightarrow> set is \<subseteq> refs (cs_table cs) \<Longrightarrow> distinct is \<Longrightarrow>
   \<exists>cs'. erase_refs vt is k cs = Some (cs', min k (length is)) \<and> ok lt cs' \<and> refs (cs_table cs') = refs (cs_table cs) - set (take k is)"
proof (induction "is" arbitrary: cs k)
  case Nil
  then show ?case by simp
next
  case (Cons i "is")
  show ?case
  proof (cases "0 < k")
    case True
    have cs: "in_order lt (cs_table cs)" "pol_ok (cs_policy cs)" "tracked (cs_policy cs) = refs (cs_table cs)"
      "length (cs_table cs) \<le> m_limit cs" using Cons.prems(1) by (simp_all add: cs_ok_def)
    obtain c where c: "doBeforeErase vt i cs = Some c" "pol_ok (cs_policy c)" "cs_table c = cs_table cs"
      "tracked (cs_policy c) = refs (cs_table cs) - {i}" "same_conf cs c"
      using before_erase [of cs i] cs(2,3) Cons.prems(2) by auto
    let ?c = "c\<lparr>cs_table := table_erase i (cs_table c)\<rparr>"
    have l: "length (table_erase i (cs_table cs)) \<le> m_limit cs"
      using cs(4) length_filter_le [of _ "cs_table cs"] unfolding table_erase_def by (rule le_trans [rotated])
    have ok': "ok lt ?c" using c cs(1) l by (simp add: cs_ok_def) (simp add: table_erase_def sorted_wrt_filter)
    have "set is \<subseteq> refs (cs_table ?c)" using Cons.prems(2,3) c(3) by auto
    from Cons.IH [OF ok' this, of "k - 1"] Cons.prems(3) obtain cs' where
      cs': "erase_refs vt is (k - 1) ?c = Some (cs', min (k - 1) (length is))" "ok lt cs'"
      "refs (cs_table cs') = refs (cs_table ?c) - set (take (k - 1) is)" by auto
    have "erase_refs vt (i # is) k cs = Some (cs', min k (length (i # is)))"
      using True c(1) cs'(1) by (auto simp: min_def)
    moreover have "refs (cs_table cs') = refs (cs_table cs) - set (take k (i # is))"
      unfolding cs'(3) using c(3) True by (cases k) auto
    ultimately show ?thesis using cs'(2) by blast
  qed (use Cons.prems in simp)
qed

lemma erase_ok:
  assumes "strict_order lt" and "ok lt cs"
  shows "\<exists>cs' n. Cs_erase lt successor vt pfx k cs = Some (cs', n) \<and> ok lt cs'"
proof -
  obtain a b where r: "range_of lt successor pfx (cs_table cs) = (a, b)" by (cases "range_of lt successor pfx (cs_table cs)")
  let ?is = "map entry_ref (drop a (take b (cs_table cs)))"
  have "set ?is \<subseteq> refs (cs_table cs)" using set_drop_subset set_take_subset by fastforce
  moreover have "distinct ?is"
    using in_order_distinct [OF assms(1)] assms(2) by (simp add: cs_ok_def drop_map [symmetric] take_map [symmetric])
  ultimately show ?thesis using erase_refs_ok [OF assms(2), of ?is k] r by (auto simp: Cs_erase_def)
qed

lemma find_leftmost:
  assumes "ok lt cs" and "m_shouldServe cs" and "m_limit cs \<noteq> 0" and "getChildSelector (getSelectors interest) \<noteq> 1"
    and "range_of lt successor (getName interest) (cs_table cs) = (first, lst)"
    and "first \<le> lst" and "lst \<le> length (cs_table cs)"
  shows "\<exists>cs' r. Cs_find lt successor matchesData vt now interest cs = Some (cs', r) \<and> ok lt cs' \<and> cs_table cs' = cs_table cs \<and>
    (case r of None \<Rightarrow> \<forall>i. first \<le> i \<longrightarrow> i < lst \<longrightarrow> \<not> canSatisfy matchesData now interest (cs_table cs ! i)
     | Some d \<Rightarrow> \<exists>i. first \<le> i \<and> i < lst \<and> canSatisfy matchesData now interest (cs_table cs ! i) \<and> d = cs_data (cs_table cs ! i) \<and>
         (\<forall>j. first \<le> j \<longrightarrow> j < i \<longrightarrow> \<not> canSatisfy matchesData now interest (cs_table cs ! j)))"
proof -
  let ?sat = "canSatisfy matchesData now interest" and ?t = "cs_table cs"
  let ?m = "findLeftmost ?sat ?t first lst"
  have cs: "pol_ok (cs_policy cs)" "tracked (cs_policy cs) = refs ?t" using assms(1) by (simp_all add: cs_ok_def)
  from findLeftmost_spec [OF assms(6), of ?sat ?t] consider
    (none) "?m = lst" "\<forall>i. first \<le> i \<longrightarrow> i < lst \<longrightarrow> \<not> ?sat (?t ! i)"
    | (some) "first \<le> ?m" "?m < lst" "?sat (?t ! ?m)" "\<forall>i. first \<le> i \<longrightarrow> i < ?m \<longrightarrow> \<not> ?sat (?t ! i)" by blast
  then show ?thesis
  proof cases
    case none
    then have "Cs_find lt successor matchesData vt now interest cs = Some (cs, None)"
      using assms(2-5) by (simp add: Cs_find_def)
    with none(2) assms(1) show ?thesis by simp
  next
    case some
    let ?e = "?t ! ?m"
    have m: "?m < length ?t" using some(2) assms(7) by simp
    then have "entry_ref ?e \<in> refs ?t" by simp
    then obtain cs' where cs': "doBeforeUse vt (entry_ref ?e) cs = Some cs'" "pol_ok (cs_policy cs')" "cs_table cs' = ?t"
      "tracked (cs_policy cs') = refs ?t" "same_conf cs cs'" using before_use [of cs "entry_ref ?e"] cs by blast
    have "Cs_find lt successor matchesData vt now interest cs = Some (cs', Some (cs_data ?e))"
      using assms(2-5) some(2) m cs'(1) by (simp add: Cs_find_def)
    moreover have "ok lt cs'" using assms(1) cs' by (simp add: cs_ok_def)
    ultimately show ?thesis using some cs'(3) by (intro exI [of _ cs'] exI [of _ "Some (cs_data ?e)"]) auto
  qed
qed

end

subsection \<open>Ranges\<close>

lemma less_query_plain:
  "strict_order lt \<Longrightarrow> \<not> hasDigest q \<Longrightarrow> less_query lt q e \<longleftrightarrow> name_compare lt (getDataName (cs_data e)) q < 0"
  using name_compare_pos [of lt q "getDataName (cs_data e)"]
  by (auto simp: less_query_def compareQueryWithData_def Let_def)

lemma takeWhile_sorted:
  assumes "sorted_wrt R t" and "\<And>a b. R a b \<Longrightarrow> P b \<Longrightarrow> P a" and "i < length t"
  shows "i < length (takeWhile P t) \<longleftrightarrow> P (t ! i)"
proof
  assume "i < length (takeWhile P t)"
  then show "P (t ! i)" using nth_mem set_takeWhileD takeWhile_nth by metis
next
  assume i: "P (t ! i)"
  show "i < length (takeWhile P t)"
  proof (rule ccontr)
    assume n: "\<not> i < length (takeWhile P t)"
    let ?k = "length (takeWhile P t)"
    have k: "?k < length t" using n assms(3) by simp
    then have "\<not> P (t ! ?k)" by (rule nth_length_takeWhile)
    moreover have "?k = i \<or> R (t ! ?k) (t ! i)" using sorted_wrt_nth_less [OF assms(1), of ?k i] n assms(3) by (cases "?k = i") auto
    ultimately show False using i assms(2) by metis
  qed
qed

lemma range_of_spec:
  assumes "strict_order lt" and "successor_law lt successor" and "in_order lt t" and "\<not> hasDigest q"
    and "range_of lt successor q t = (first, lst)"
  shows "first \<le> lst" and "lst \<le> length t"
    and "i < length t \<Longrightarrow> (first \<le> i \<and> i < lst) \<longleftrightarrow> prefix q (getDataName (cs_data (t ! i)))"
proof -
  have down: "less_query lt p a" if "less_entry lt a b" "less_query lt p b" "\<not> hasDigest p" for p a b
  proof -
    have "name_compare lt (getDataName (cs_data b)) p < 0" using that(2) less_query_plain [OF assms(1) that(3)] by simp
    moreover have "name_compare lt (getDataName (cs_data a)) (getDataName (cs_data b)) < 0 \<or> getDataName (cs_data a) = getDataName (cs_data b)"
      using that(1) by (auto simp: less_entry_alt)
    ultimately show ?thesis using name_compare_trans [OF assms(1)] less_query_plain [OF assms(1) that(3)] by metis
  qed
  have pos: "i < lower_bound lt p t \<longleftrightarrow> name_compare lt (getDataName (cs_data (t ! i))) p < 0"
    if "\<not> hasDigest p" "i < length t" for p i
    unfolding lower_bound_def
    using takeWhile_sorted [OF assms(3), of "less_query lt p" i] down that less_query_plain [OF assms(1) that(1)] by metis
  have lb: "lower_bound lt p t \<le> length t" for p by (simp add: lower_bound_def length_takeWhile_le)
  have fl: "first = lower_bound lt q t" "lst = (if 0 < length q then lower_bound lt (successor q) t else length t)"
    using assms(5) by (simp_all add: range_of_def)
  show "lst \<le> length t" unfolding fl(2) using lb by simp
  have sq: "\<not> hasDigest (successor q)" if "q \<noteq> []" using assms(2,4) that by (auto simp: successor_law_def)
  have mem: "(first \<le> i \<and> i < lst) \<longleftrightarrow> prefix q (getDataName (cs_data (t ! i)))" if i: "i < length t" for i
  proof (cases "q = []")
    case True
    have "\<not> i < lower_bound lt q t" using pos [OF assms(4) i] True name_compare_prefix [of "[]"] by simp
    then show ?thesis using i True by (simp add: fl)
  next
    case False
    have "i < lst \<longleftrightarrow> name_compare lt (getDataName (cs_data (t ! i))) (successor q) < 0"
      using pos [OF sq [OF False] i] False by (simp add: fl)
    also have "\<dots> \<longleftrightarrow> name_compare lt (getDataName (cs_data (t ! i))) q < 0 \<or> prefix q (getDataName (cs_data (t ! i)))"
      using assms(2) False by (simp add: successor_law_def)
    finally show ?thesis using pos [OF assms(4) i] name_compare_prefix [of q] unfolding fl(1) by (meson not_less)
  qed
  then show "i < length t \<Longrightarrow> (first \<le> i \<and> i < lst) \<longleftrightarrow> prefix q (getDataName (cs_data (t ! i)))" by blast
  show "first \<le> lst"
  proof (rule ccontr)
    assume n: "\<not> first \<le> lst"
    then have l: "lst < length t" using lb [of q] unfolding fl(1) by simp
    have "q \<noteq> []" using n fl lb [of "[]"] by auto
    have "lst < lower_bound lt q t" using n unfolding fl(1) by simp
    then have "name_compare lt (getDataName (cs_data (t ! lst))) q < 0" using pos [OF assms(4) l] by simp
    then have "name_compare lt (getDataName (cs_data (t ! lst))) (successor q) < 0"
      using assms(2) \<open>q \<noteq> []\<close> by (simp add: successor_law_def)
    then have "lst < lower_bound lt (successor q) t" using pos [OF sq [OF \<open>q \<noteq> []\<close>] l] by simp
    then show False using \<open>q \<noteq> []\<close> by (simp add: fl)
  qed
qed

subsection \<open>Properties\<close>

datatype cs_op = Insert time data bool | Erase name nat | SetLimit nat | EnableAdmit bool | EnableServe bool

definition cs_step :: "comp_less \<Rightarrow> (name \<Rightarrow> name) \<Rightarrow> 'p Policy \<Rightarrow> cs_op \<Rightarrow> 'p cs \<Rightarrow> 'p cs option" where
  "cs_step lt successor vt op cs = (case op of
       Insert now d u \<Rightarrow> Cs_insert lt vt now d u cs
     | Erase pfx k \<Rightarrow> map_option fst (Cs_erase lt successor vt pfx k cs)
     | SetLimit n \<Rightarrow> setLimit vt n cs
     | EnableAdmit b \<Rightarrow> Some (enableAdmit b cs)
     | EnableServe b \<Rightarrow> Some (enableServe b cs))"

fun cs_run :: "comp_less \<Rightarrow> (name \<Rightarrow> name) \<Rightarrow> 'p Policy \<Rightarrow> cs_op list \<Rightarrow> 'p cs \<Rightarrow> 'p cs option" where
  "cs_run lt successor vt [] cs = Some cs"
| "cs_run lt successor vt (op # ops) cs = Option.bind (cs_step lt successor vt op cs) (cs_run lt successor vt ops)"

context cs_policy_spec
begin

lemma step_ok:
  assumes "strict_order lt" and "ok lt cs"
  shows "\<exists>cs'. cs_step lt successor vt op cs = Some cs' \<and> ok lt cs'"
proof (cases op)
  case (Insert now d u)
  then show ?thesis using insert_ok [OF assms, of now d u] by (simp add: cs_step_def)
next
  case (Erase pfx k)
  then show ?thesis using erase_ok [OF assms, of successor pfx k] by (auto simp: cs_step_def)
next
  case (SetLimit n)
  then show ?thesis using setLimit_ok [OF assms, of n] by (simp add: cs_step_def)
qed (use assms(2) in \<open>simp_all add: cs_step_def enableAdmit_def enableServe_def cs_ok_def\<close>)

lemma run_ok: "strict_order lt \<Longrightarrow> ok lt cs \<Longrightarrow> \<exists>cs'. cs_run lt successor vt ops cs = Some cs' \<and> ok lt cs'"
proof (induction ops arbitrary: cs)
  case (Cons op ops)
  from step_ok [OF Cons.prems, of successor op] obtain c where "cs_step lt successor vt op cs = Some c" "ok lt c" by blast
  with Cons.IH [OF Cons.prems(1) this(2)] show ?case by simp
qed simp

lemma new_ok:
  assumes "pol_ok p" and "tracked p = {}"
  shows "\<exists>cs. Cs vt p n = Some cs \<and> ok lt cs"
proof -
  let ?c = "\<lparr>cs_table = [], cs_policy = p, m_limit = n, m_shouldAdmit = True, m_shouldServe = True\<rparr>"
  obtain cs' P where "evictAll vt ?c = Some cs'" "pol_ok (cs_policy cs')" "cs_table cs' = filter P []"
    "tracked (cs_policy cs') = refs (cs_table cs')" using evict [of ?c] assms by auto
  then show ?thesis by (auto simp: Cs_def setLimit_def cs_ok_def)
qed

lemma runs_ok:
  assumes "strict_order lt" and "pol_ok p" and "tracked p = {}"
  shows "\<exists>cs cs'. Cs vt p n = Some cs \<and> cs_run lt successor vt ops cs = Some cs' \<and> ok lt cs'"
  using new_ok [OF assms(2,3), of n lt] run_ok [OF assms(1)] by blast

lemma find_spec:
  assumes "strict_order lt" and "successor_law lt successor" and "ok lt cs" and "m_shouldServe cs" and "m_limit cs \<noteq> 0"
    and "getChildSelector (getSelectors interest) \<noteq> 1" and "\<not> hasDigest (getName interest)"
    and "\<And>e. e \<in> set (cs_table cs) \<Longrightarrow> matchesData interest (cs_data e) \<Longrightarrow> prefix (getName interest) (getDataName (cs_data e))"
  shows "\<exists>cs' r. Cs_find lt successor matchesData vt now interest cs = Some (cs', r) \<and> ok lt cs' \<and>
    r = map_option cs_data (List.find (canSatisfy matchesData now interest) (cs_table cs))"
proof -
  let ?sat = "canSatisfy matchesData now interest" and ?t = "cs_table cs"
  obtain first lst where r: "range_of lt successor (getName interest) ?t = (first, lst)"
    by (cases "range_of lt successor (getName interest) ?t")
  have o: "in_order lt ?t" using assms(3) by (simp add: cs_ok_def)
  note range = range_of_spec [OF assms(1,2) o assms(7) r]
  have inr: "first \<le> i \<and> i < lst" if "i < length ?t" "?sat (?t ! i)" for i
  proof -
    have "matchesData interest (cs_data (?t ! i))" using that(2) by (simp add: canSatisfy_def split: if_splits)
    then have "prefix (getName interest) (getDataName (cs_data (?t ! i)))" using assms(8) nth_mem [OF that(1)] by blast
    then show ?thesis using range(3) [OF that(1)] by blast
  qed
  obtain cs' res where f: "Cs_find lt successor matchesData vt now interest cs = Some (cs', res)" "ok lt cs'"
    "case res of None \<Rightarrow> \<forall>i. first \<le> i \<longrightarrow> i < lst \<longrightarrow> \<not> ?sat (?t ! i)
     | Some d \<Rightarrow> \<exists>i. first \<le> i \<and> i < lst \<and> ?sat (?t ! i) \<and> d = cs_data (?t ! i) \<and>
         (\<forall>j. first \<le> j \<longrightarrow> j < i \<longrightarrow> \<not> ?sat (?t ! j))"
    using find_leftmost [OF assms(3-6) r range(1,2)] by blast
  have "res = map_option cs_data (List.find ?sat ?t)"
  proof (cases res)
    case None
    have "\<not> ?sat x" if "x \<in> set ?t" for x
    proof -
      obtain i where "i < length ?t" "x = ?t ! i" using \<open>x \<in> set ?t\<close> by (metis in_set_conv_nth)
      then show ?thesis using f(3) inr [of i] None by auto
    qed
    then show ?thesis using None by (simp add: find_eq_None)
  next
    case (Some d)
    then obtain i where i: "first \<le> i" "i < lst" "?sat (?t ! i)" "d = cs_data (?t ! i)"
      "\<forall>j. first \<le> j \<longrightarrow> j < i \<longrightarrow> \<not> ?sat (?t ! j)" using f(3) by auto
    have il: "i < length ?t" using i(2) range(2) by simp
    have "\<not> ?sat (?t ! j)" if "j < i" for j using inr [of j] i(5) that il by auto
    then have "List.find ?sat ?t = Some (?t ! i)" using i(3) il by (auto simp: find_Some_iff)
    then show ?thesis using Some i(4) by simp
  qed
  with f(1,2) show ?thesis by blast
qed

end

text \<open>C13: with either replacement policy, in every run of insertions, erasures, limit changes and
  configuration changes from the construction of the content store no assertion fails, and
  at the end the table is strictly sorted by full name, its size is within the limit, and
  the policy has queued exactly the entries of the table.\<close>

theorem content_store_invariant:
  assumes "strict_order lt"
  shows "(\<exists>cs cs'. Cs LruPolicy [] n = Some cs \<and> cs_run lt successor LruPolicy ops cs = Some cs' \<and>
      sorted_wrt (less_entry lt) (cs_table cs') \<and> length (cs_table cs') \<le> m_limit cs' \<and>
      distinct (cs_policy cs') \<and> set (cs_policy cs') = refs (cs_table cs')) \<and>
    (\<exists>cs cs'. Cs PriorityFifoPolicy pfifo_new n = Some cs \<and> cs_run lt successor PriorityFifoPolicy ops cs = Some cs' \<and>
      sorted_wrt (less_entry lt) (cs_table cs') \<and> length (cs_table cs') \<le> m_limit cs' \<and>
      pfifo_ok (cs_policy cs') \<and> pfifo_tracked (cs_policy cs') = refs (cs_table cs'))"
proof -
  have "pfifo_ok pfifo_new" "pfifo_tracked pfifo_new = {}" by (simp_all add: pfifo_ok_def pfifo_new_def)
  from pfifo.runs_ok [OF assms this, of n successor ops] lru.runs_ok [OF assms, of "[]" n successor ops]
  show ?thesis by (simp add: cs_ok_def) blast
qed

definition cs_example_data :: data where
  "cs_example_data = \<lparr>getDataName = [Generic ''a'', Generic ''b''], getDigest = ''d'', getFreshnessPeriod = 0,
     getCachePolicyNoCache = False, getContent = ''x''\<rparr>"

definition cs_example_interest :: interest where
  "cs_example_interest = \<lparr>getName = [Generic ''a''],
     getSelectors = \<lparr>getMustBeFresh = False, getChildSelector = 0, otherSelectors = []\<rparr>, getNonce = 1,
     getInterestLifetime = 4000, getForwardingHint = [], getNextHopFaceId = None\<rparr>"

theorem content_store_invariant_witness:
  "strict_order octet_less \<and>
   (\<exists>cs cs'. Cs LruPolicy [] 2 = Some cs \<and>
      cs_run octet_less octet_successor LruPolicy [Insert 0 cs_example_data False, SetLimit 1] cs = Some cs' \<and>
      length (cs_table cs') \<le> m_limit cs')"
  using content_store_invariant [OF strict_order_octet, of 2 octet_successor "[Insert 0 cs_example_data False, SetLimit 1]"]
    strict_order_octet by blast

text \<open>C14: a lookup in the content store, from a state reached with the LRU policy, for an Interest
  without an implicit digest that does not ask for the rightmost child: when the store
  serves and has room for Data, it returns the first Data in table order that satisfies the
  Interest, and misses only when the table has none, although it searches only the entries
  between the prefix and its successor; when serving is disabled or the limit is zero it
  misses and changes nothing.\<close>

theorem Cs_find_spec:
  assumes "strict_order lt" and "successor_law lt successor"
    and "Cs LruPolicy [] n = Some cs0" and "cs_run lt successor LruPolicy ops cs0 = Some cs"
    and "getChildSelector (getSelectors interest) \<noteq> 1" and "\<not> hasDigest (getName interest)"
    and matches_prefix: "\<And>d. matchesData interest d \<Longrightarrow> prefix (getName interest) (getDataName d)"
  shows "if m_shouldServe cs \<and> m_limit cs \<noteq> 0
    then \<exists>cs'. Cs_find lt successor matchesData LruPolicy now interest cs =
      Some (cs', map_option cs_data (List.find (canSatisfy matchesData now interest) (cs_table cs)))
    else Cs_find lt successor matchesData LruPolicy now interest cs = Some (cs, None)"
proof (cases "m_shouldServe cs \<and> m_limit cs \<noteq> 0")
  case True
  have "cs_ok lt distinct set cs"
    using lru.runs_ok [OF assms(1), of "[]" n successor ops] assms(3,4) by auto
  from lru.find_spec [OF assms(1,2) this _ _ assms(5,6), of matchesData now] matches_prefix True show ?thesis by auto
next
  case False
  then show ?thesis by (auto simp: Cs_find_def)
qed

lemma empty_lru: "Cs LruPolicy [] n = Some \<lparr>cs_table = [], cs_policy = [], m_limit = n, m_shouldAdmit = True, m_shouldServe = True\<rparr>"
  by (simp add: Cs_def setLimit_def LruPolicy_def lru_evictEntries.simps)

lemma example_lru_insert:
  "cs_run octet_less octet_successor LruPolicy [Insert 0 cs_example_data False]
     \<lparr>cs_table = [], cs_policy = [], m_limit = 2, m_shouldAdmit = True, m_shouldServe = True\<rparr> =
   Some \<lparr>cs_table = [EntryImpl 0 cs_example_data False], cs_policy = [getFullName cs_example_data], m_limit = 2,
     m_shouldAdmit = True, m_shouldServe = True\<rparr>"
  by (simp add: cs_step_def Cs_insert_def emplace_def modify_entry_def updateStaleTime_def EntryImpl_def setData_def
      cs_example_data_def LruPolicy_def lru_doAfterInsert_def insertToQueue_def lru_evictEntries.simps)

theorem Cs_find_spec_witness:
  "\<exists>cs0 cs cs'. Cs LruPolicy [] 2 = Some cs0 \<and>
     cs_run octet_less octet_successor LruPolicy [Insert 0 cs_example_data False] cs0 = Some cs \<and>
     Cs_find octet_less octet_successor (\<lambda>i d. prefix (getName i) (getDataName d)) LruPolicy 5 cs_example_interest cs =
       Some (cs', Some cs_example_data)"
proof -
  let ?m = "\<lambda>i d. prefix (getName i) (getDataName d)"
  let ?cs = "\<lparr>cs_table = [EntryImpl 0 cs_example_data False], cs_policy = [getFullName cs_example_data], m_limit = 2,
     m_shouldAdmit = True, m_shouldServe = True\<rparr>"
  have i: "getChildSelector (getSelectors cs_example_interest) \<noteq> 1" "\<not> hasDigest (getName cs_example_interest)"
    by (simp_all add: cs_example_interest_def hasDigest_def isImplicitSha256Digest_def)
  have "\<exists>cs'. Cs_find octet_less octet_successor ?m LruPolicy 5 cs_example_interest ?cs =
    Some (cs', map_option cs_data (List.find (canSatisfy ?m 5 cs_example_interest) (cs_table ?cs)))"
    using Cs_find_spec [OF strict_order_octet successor_law_octet empty_lru example_lru_insert i, of ?m 5] by simp
  moreover have "map_option cs_data (List.find (canSatisfy ?m 5 cs_example_interest) (cs_table ?cs)) = Some cs_example_data"
    by (simp add: canSatisfy_def cs_example_interest_def cs_example_data_def EntryImpl_def setData_def updateStaleTime_def)
  ultimately show ?thesis using empty_lru example_lru_insert by metis
qed

subsection \<open>Rightmost lookup by full name\<close>

lemma own_prefix_not_less:
  assumes "strict_order lt"
  shows "\<not> less_query lt (take k (getDataName (cs_data e))) e"
proof -
  let ?q = "take k (getDataName (cs_data e))"
  have le: "\<not> 0 < name_compare lt q (getDataName (cs_data e))" if "prefix q (getDataName (cs_data e))" for q
    using name_compare_prefix [OF that, of lt] name_compare_pos [OF assms] by simp
  show ?thesis
  proof (cases "hasDigest ?q")
    case False
    then show ?thesis using le [OF take_is_prefix] by (auto simp: less_query_def compareQueryWithData_def Let_def)
  next
    case True
    then have "?q \<noteq> []" by (auto simp: hasDigest_def)
    then have "butlast ?q \<noteq> getDataName (cs_data e)" by (metis length_butlast length_greater_0_conv length_take min.cobounded1 diff_less
          less_numeral_extra(1) not_less)
    moreover have "prefix (butlast ?q) (getDataName (cs_data e))" by (metis prefixeq_butlast prefix_order.trans take_is_prefix)
    ultimately show ?thesis using le True by (auto simp: less_query_def compareQueryWithData_def Let_def)
  qed
qed

lemma lower_bound_length:
  assumes "i < length table" and "\<not> less_query lt q (table ! i)"
  shows "lower_bound lt q table \<le> i"
proof (rule ccontr)
  assume "\<not> lower_bound lt q table \<le> i"
  then have i: "i < length (takeWhile (less_query lt q) table)" by (simp add: lower_bound_def)
  have "table ! i \<in> set (takeWhile (less_query lt q) table)" using nth_mem [OF i] by (simp add: takeWhile_nth [OF i])
  then show False using assms(2) by (metis set_takeWhileD)
qed

text \<open>A turn that finds nothing goes on strictly to the left.\<close>

lemma rightmost_body_continues:
  assumes "strict_order lt" and "right \<noteq> first" and "0 < right" and "right \<le> length table"
    and "\<forall>i<right. \<not> sat (table ! i)" and "length (getDataName (cs_data (table ! (right - 1)))) \<noteq> n"
  shows "rightmost_body lt sat n table first lst right =
      Some (Continue (lower_bound lt (take (n + 1) (getDataName (cs_data (table ! (right - 1))))) table))"
    and "lower_bound lt (take (n + 1) (getDataName (cs_data (table ! (right - 1))))) table < right"
proof -
  let ?left = "lower_bound lt (take (n + 1) (getDataName (cs_data (table ! (right - 1))))) table"
  have get: "vec_get table (right - 1) = Some (table ! (right - 1))" using assms(3,4) by (simp add: vec_get_def)
  have "findLeftmost sat table ?left right = right"
    using assms(5) by (simp add: findLeftmost_def find_None_iff split: option.split) (auto simp: find_Some_iff)
  then show "rightmost_body lt sat n table first lst right = Some (Continue ?left)"
    using assms(2,3,6) get by (simp add: rightmost_body_def Let_def)
  have "right - 1 < length table" using assms(3,4) by simp
  from lower_bound_length [OF this own_prefix_not_less [OF assms(1)]] show "?left < right" using assms(3) by (meson diff_less le_less_trans zero_less_one)
qed

lemma rightmost_body_begin: "0 < first \<Longrightarrow> rightmost_body lt sat n table first lst 0 = None"
  by (simp add: rightmost_body_def)

lemma rightmost_walks_left:
  assumes "strict_order lt" and "first < length table" and "\<forall>i<first. \<not> sat (table ! i)"
    and "\<forall>i<first. length (getDataName (cs_data (table ! i))) \<noteq> n"
  shows "right < first \<Longrightarrow> (\<lambda>r l. rightmost_body lt sat n table first lst r = Some (Continue l))\<^sup>*\<^sup>* right 0 \<and>
    rightmost_loop lt sat n table first lst right = None"
proof (induction right rule: less_induct)
  case (less right)
  show ?case
  proof (cases "right = 0")
    case True
    then show ?thesis using less.prems by (subst rightmost_loop.simps) (simp add: rightmost_body_begin)
  next
    case False
    have a: "right \<noteq> first" "0 < right" "right \<le> length table" "\<forall>i<right. \<not> sat (table ! i)" "length (getDataName (cs_data (table ! (right - 1)))) \<noteq> n"
      using less.prems False assms(2-4) by auto
    note b = rightmost_body_continues(1) [OF assms(1) a, of lst] rightmost_body_continues(2) [OF assms(1) a]
    from less.IH [OF b(2)] b(2) less.prems show ?thesis
      using b(1) by (subst rightmost_loop.simps) (auto intro: converse_rtranclp_into_rtranclp)
  qed
qed

definition cs_sibling_data :: data where
  "cs_sibling_data = cs_example_data\<lparr>getDigest := ''c''\<rparr>"

definition cs_digest_interest :: interest where
  "cs_digest_interest = \<lparr>getName = getFullName cs_example_data,
     getSelectors = \<lparr>getMustBeFresh = True, getChildSelector = 1, otherSelectors = []\<rparr>, getNonce = 1,
     getInterestLifetime = 4000, getForwardingHint = [], getNextHopFaceId = None\<rparr>"

text \<open>C40: a rightmost lookup by full name can leave the table: when an Interest asks, by the full
  name of a stored Data, for the rightmost child, the entry before that Data has the same
  name, no entry up to it satisfies the Interest, and no entry before it has as many name
  components as the Interest, then the loop over sub-namespaces passes the beginning of its
  range, goes on turn by turn to the beginning of the table, and steps back from there.\<close>

theorem findRightmost_leaves_range:
  assumes lt: "strict_order lt" and range: "range_of lt successor (getName interest) table = (first, Suc first)" and pos: "0 < first" "first < length table"
    and full: "getName interest = entry_ref (table ! first)"
    and same: "getDataName (cs_data (table ! (first - 1))) = getDataName (cs_data (table ! first))"
    and none: "\<forall>i\<le>first. \<not> canSatisfy matchesData now interest (table ! i)"
    and names: "\<forall>i<first. length (getDataName (cs_data (table ! i))) \<noteq> length (getName interest)"
  shows "(\<lambda>r l. rightmost_body lt (canSatisfy matchesData now interest) (length (getName interest)) table first (Suc first) r =
      Some (Continue l))\<^sup>*\<^sup>* (Suc first) 0 \<and>
    rightmost_body lt (canSatisfy matchesData now interest) (length (getName interest)) table first (Suc first) 0 = None \<and>
    findRightmost lt (canSatisfy matchesData now interest) interest table
      (fst (range_of lt successor (getName interest) table)) (snd (range_of lt successor (getName interest) table)) = None"
proof -
  let ?sat = "canSatisfy matchesData now interest" and ?n = "length (getName interest)"
  let ?name = "getDataName (cs_data (table ! first))"
  have n: "?n = Suc (length ?name)" by (simp add: full getFullName_def)
  have a: "Suc first \<noteq> first" "0 < Suc first" "Suc first \<le> length table" "\<forall>i<Suc first. \<not> ?sat (table ! i)"
    "length (getDataName (cs_data (table ! (Suc first - 1)))) \<noteq> ?n" using pos none n by (simp_all add: less_Suc_eq_le)
  note b = rightmost_body_continues(1) [OF lt a, of "Suc first"]
  define left where "left = lower_bound lt (take (?n + 1) ?name) table"
  have body: "rightmost_body lt ?sat ?n table first (Suc first) (Suc first) = Some (Continue left)" using b by (simp add: left_def)
  have "left \<le> first - 1"
    unfolding left_def same [symmetric] by (rule lower_bound_length) (use pos own_prefix_not_less [OF lt] in simp_all)
  then have "left < first" using pos by simp
  then have w: "(\<lambda>r l. rightmost_body lt ?sat ?n table first (Suc first) r = Some (Continue l))\<^sup>*\<^sup>* left 0"
    "rightmost_loop lt ?sat ?n table first (Suc first) left = None"
    using rightmost_walks_left [OF lt pos(2) _ names, of ?sat left "Suc first"] none by simp_all
  have "rightmost_loop lt ?sat ?n table first (Suc first) (Suc first) = None" using w(2) by (subst rightmost_loop.simps) (simp add: body)
  then show ?thesis using converse_rtranclp_into_rtranclp [OF body w(1)] rightmost_body_begin [OF pos(1)] by (simp add: range findRightmost_def)
qed

theorem findRightmost_leaves_range_witness:
  "findRightmost octet_less (canSatisfy (\<lambda>i d. prefix (getName i) (getFullName d)) 5 cs_digest_interest) cs_digest_interest
     [EntryImpl 0 cs_sibling_data False, EntryImpl 0 cs_example_data False]
     (fst (range_of octet_less octet_successor (getName cs_digest_interest)
        [EntryImpl 0 cs_sibling_data False, EntryImpl 0 cs_example_data False]))
     (snd (range_of octet_less octet_successor (getName cs_digest_interest)
        [EntryImpl 0 cs_sibling_data False, EntryImpl 0 cs_example_data False])) = None"
proof -
  let ?t = "[EntryImpl 0 cs_sibling_data False, EntryImpl 0 cs_example_data False]"
  let ?m = "\<lambda>i d. prefix (getName i) (getFullName d)"
  note defs = cs_sibling_data_def cs_example_data_def cs_digest_interest_def EntryImpl_def setData_def updateStaleTime_def
    getFullName_def less_query_def compareQueryWithData_def hasDigest_def isImplicitSha256Digest_def comp_compare_def
    octet_less_def octet_key_def
  have r: "range_of octet_less octet_successor (getName cs_digest_interest) ?t = (1, Suc 1)"
    by (simp add: range_of_def lower_bound_def defs)
  have "\<not> canSatisfy ?m 5 cs_digest_interest (?t ! 0)" "\<not> canSatisfy ?m 5 cs_digest_interest (?t ! 1)"
    by (simp_all add: canSatisfy_def isStale_def defs)
  then have none: "\<forall>i\<le>1. \<not> canSatisfy ?m 5 cs_digest_interest (?t ! i)" by (metis le_Suc_eq le_zero_eq One_nat_def)
  have h: "0 < (1 :: nat)" "1 < length ?t" "getName cs_digest_interest = entry_ref (?t ! 1)"
    "getDataName (cs_data (?t ! (1 - 1))) = getDataName (cs_data (?t ! 1))"
    "\<forall>i<1. length (getDataName (cs_data (?t ! i))) \<noteq> length (getName cs_digest_interest)" by (simp_all add: defs)
  from findRightmost_leaves_range [OF strict_order_octet r h(1-4) none h(5)] show ?thesis by simp
qed

end
