(* ===== verification/Measurements.thy ===== *)
theory Measurements
  imports Fib
begin

text \<open>
  \<^verbatim>\<open>daemon/table/measurements.{hpp,cpp}\<close>: the measurements table, where strategies keep information about
  a namespace.  A reference to an entry is the name it is attached to.  Each entry has a scheduled
  clean-up, the time \<open>meas_cleanup\<close>.

  The lemmas: entries are created on demand with the initial lifetime, extending a lifetime
  never shortens it, and the clean-up removes exactly its entry.
\<close>

abbreviation meas_view :: "('i, 'st, 'z) tables_scheme \<Rightarrow> name \<Rightarrow> 'i measurements_entry option" where
  "meas_view t \<equiv> view m_measurementsEntry None (nameTree t)"

definition setMeasurementsEntry :: "name \<Rightarrow> 'i measurements_entry option \<Rightarrow> ('i, 'st, 'z) tables_scheme \<Rightarrow>
    ('i, 'st, 'z) tables_scheme" where
  "setMeasurementsEntry n me t = modify_nte n (m_measurementsEntry_update (\<lambda>_. me)) t"

definition getInitialLifetime :: time where
  "getInitialLifetime = ms 4000"

definition Measurements_get_nte :: "time \<Rightarrow> name \<Rightarrow> ('i, 'st, 'z) tables_scheme \<Rightarrow> ('i, 'st, 'z) tables_scheme option" where
  "Measurements_get_nte now n t = do {
     nte \<leftarrow> nte_at t n;
     if m_measurementsEntry nte \<noteq> None then Some t
     else do {
       let e = measurements_Entry (m_name nte);
       let t = setMeasurementsEntry n (Some e) t;
       let t = t\<lparr>meas_nItems := meas_nItems t + 1\<rparr>;
       let e = e\<lparr>meas_expiry := now + getInitialLifetime, meas_cleanup := Some (now + getInitialLifetime)\<rparr>;
       Some (setMeasurementsEntry n (Some e) t)
     }
   }"

definition Measurements_get :: "time \<Rightarrow> name \<Rightarrow> ('i, 'st, 'z) tables_scheme \<Rightarrow> (('i, 'st, 'z) tables_scheme \<times> name) option" where
  "Measurements_get now name t = do {
     (nt, n) \<leftarrow> lookup name (min (length name) getMaxDepth) (nameTree t);
     t \<leftarrow> Measurements_get_nte now n (t\<lparr>nameTree := nt\<rparr>);
     Some (t, n)
   }"

definition Measurements_get_fib :: "time \<Rightarrow> fib_ref \<Rightarrow> ('i, 'st, 'z) tables_scheme \<Rightarrow> (('i, 'st, 'z) tables_scheme \<times> name) option" where
  "Measurements_get_fib now fibEntry t = do {
     (nt, n) \<leftarrow> lookup_fib fibEntry (nameTree t);
     t \<leftarrow> Measurements_get_nte now n (t\<lparr>nameTree := nt\<rparr>);
     Some (t, n)
   }"

definition Measurements_get_pit :: "time \<Rightarrow> pit_ref \<Rightarrow> ('i, 'st, 'z) tables_scheme \<Rightarrow> (('i, 'st, 'z) tables_scheme \<times> name) option" where
  "Measurements_get_pit now r t = do {
     pe \<leftarrow> pit_heap t r;
     (nt, n) \<leftarrow> lookup_pit r (pit_name pe) (m_nameTreeEntry pe) (nameTree t);
     t \<leftarrow> Measurements_get_nte now n (t\<lparr>nameTree := nt\<rparr>);
     Some (t, n)
   }"

definition Measurements_getParent :: "time \<Rightarrow> name \<Rightarrow> ('i, 'st, 'z) tables_scheme \<Rightarrow>
    (('i, 'st, 'z) tables_scheme \<times> name option) option" where
  "Measurements_getParent now child t =
     (if child = [] then Some (t, None)
      else do {
        nteChild \<leftarrow> nte_at t child;
        p \<leftarrow> m_parent nteChild;
        t \<leftarrow> Measurements_get_nte now p t;
        Some (t, Some p)
      })"

definition meas_pred :: "('i measurements_entry \<Rightarrow> bool) \<Rightarrow> ('f, 'i measurements_entry, 's) nt_entry \<Rightarrow> bool" where
  "meas_pred pred nte \<longleftrightarrow> (case m_measurementsEntry nte of None \<Rightarrow> False | Some e \<Rightarrow> pred e)"

definition Measurements_findLongestPrefixMatch :: "('i, 'st, 'z) tables_scheme \<Rightarrow> name \<Rightarrow> ('i measurements_entry \<Rightarrow> bool) \<Rightarrow>
    name option option" where
  "Measurements_findLongestPrefixMatch t name pred =
     findLongestPrefixMatch (nameTree t) (take getMaxDepth name) (meas_pred pred)"

definition Measurements_findExactMatch :: "('i, 'st, 'z) tables_scheme \<Rightarrow> name \<Rightarrow> name option option" where
  "Measurements_findExactMatch t name = do {
     nte \<leftarrow> findExactMatch (nameTree t) name (length name);
     case nte of
       None \<Rightarrow> Some None
     | Some n \<Rightarrow> do { e \<leftarrow> nte_at t n; Some (if m_measurementsEntry e \<noteq> None then Some n else None) }
   }"

definition extendLifetime :: "time \<Rightarrow> name \<Rightarrow> time \<Rightarrow> ('i, 'st, 'z) tables_scheme \<Rightarrow> ('i, 'st, 'z) tables_scheme option" where
  "extendLifetime now n lifetime t = do {
     nte \<leftarrow> nte_at t n;
     e \<leftarrow> m_measurementsEntry nte;
     let expiry = now + lifetime;
     if meas_expiry e \<ge> expiry then Some t
     else Some (setMeasurementsEntry n (Some (e\<lparr>meas_expiry := expiry, meas_cleanup := Some (now + lifetime)\<rparr>)) t)
   }"

definition Measurements_cleanup :: "name \<Rightarrow> ('i, 'st, 'z) tables_scheme \<Rightarrow> ('i, 'st, 'z) tables_scheme option" where
  "Measurements_cleanup n t = do {
     nte \<leftarrow> nte_at t n;
     e \<leftarrow> m_measurementsEntry nte;
     let t = setMeasurementsEntry n None t;
     (nt, _) \<leftarrow> eraseIfEmpty n True (nameTree t);
     let t = t\<lparr>nameTree := nt\<rparr>;
     Some (t\<lparr>meas_nItems := meas_nItems t - 1\<rparr>)
   }"

subsection \<open>The table as a map\<close>

lemma setMeasurementsEntry_wf:
  assumes "nt_wf (nameTree t)" and "nte_at t n \<noteq> None"
  shows "nt_wf (nameTree (setMeasurementsEntry n me t))"
    and "meas_view (setMeasurementsEntry n me t) = (meas_view t)(n := me)"
    and "nte_at (setMeasurementsEntry n me t) n \<noteq> None"
    and "meas_nItems (setMeasurementsEntry n me t) = meas_nItems t"
  using assms meas_field.modify_upd [OF assms(1)] meas_field.view_modify [OF assms, of "\<lambda>_. me"]
  by (simp_all add: setMeasurementsEntry_def modify_nte_def)

lemma get_nte_spec:
  assumes "nt_wf (nameTree t)" and "nte_at t n \<noteq> None"
  obtains t' where "Measurements_get_nte now n t = Some t'" and "nt_wf (nameTree t')"
    and "meas_view t' = (if meas_view t n = None then (meas_view t)(n \<mapsto>
      \<lparr>meas_name = n, meas_expiry = now + getInitialLifetime, meas_cleanup = Some (now + getInitialLifetime), meas_info = []\<rparr>)
      else meas_view t)"
    and "meas_nItems t' = (if meas_view t n = None then meas_nItems t + 1 else meas_nItems t)"
proof -
  obtain nte where nte: "nte_at t n = Some nte" using assms(2) by blast
  have v: "meas_view t n = m_measurementsEntry nte" using nte by (simp add: view_def)
  have name: "m_name nte = n" using assms(1) nte by (auto simp: nt_wf_def dest: tree_okD)
  show ?thesis
  proof (cases "m_measurementsEntry nte")
    case None
    let ?fresh = "measurements_Entry n :: 'a measurements_entry"
    let ?e = "?fresh\<lparr>meas_expiry := now + getInitialLifetime, meas_cleanup := Some (now + getInitialLifetime)\<rparr>"
    let ?t1 = "setMeasurementsEntry n (Some ?fresh) t"
    let ?t2 = "?t1\<lparr>meas_nItems := meas_nItems ?t1 + 1\<rparr>"
    note w1 = setMeasurementsEntry_wf [OF assms, of "Some ?fresh"]
    have "nt_wf (nameTree ?t2)" "nte_at ?t2 n \<noteq> None" using w1 by simp_all
    note w2 = setMeasurementsEntry_wf [OF this, of "Some ?e"]
    have "Measurements_get_nte now n t = Some (setMeasurementsEntry n (Some ?e) ?t2)"
      using nte None name by (simp add: Measurements_get_nte_def Let_def)
    moreover have "meas_view (setMeasurementsEntry n (Some ?e) ?t2) = (meas_view t)(n \<mapsto> ?e)" using w1 w2 by simp
    moreover have "meas_nItems (setMeasurementsEntry n (Some ?e) ?t2) = meas_nItems t + 1" using w1 w2 by simp
    ultimately show ?thesis using that w2(1) v None by (simp add: measurements_Entry_def)
  next
    case (Some e)
    have "Measurements_get_nte now n t = Some t" using nte Some by (simp add: Measurements_get_nte_def)
    then show ?thesis using that v Some assms(1) by simp
  qed
qed

lemma get_spec:
  fixes name :: name
  assumes "nt_wf (nameTree t)"
  defines "n \<equiv> take getMaxDepth name"
  obtains t' where "Measurements_get now name t = Some (t', n)" and "nt_wf (nameTree t')"
    and "meas_view t' = (if meas_view t n = None then (meas_view t)(n \<mapsto>
      \<lparr>meas_name = n, meas_expiry = now + getInitialLifetime, meas_cleanup = Some (now + getInitialLifetime), meas_info = []\<rparr>)
      else meas_view t)"
    and "meas_nItems t' = (if meas_view t n = None then meas_nItems t + 1 else meas_nItems t)"
proof -
  let ?k = "min (length name) getMaxDepth"
  have k: "take ?k name = n" by (simp add: n_def min_def)
  obtain nt where nt: "lookup name ?k (nameTree t) = Some (nt, take ?k name)" "nt_wf nt"
    "hashFunc nt = hashFunc (nameTree t)" "payload (entry_at nt) = payload (entry_at (nameTree t))"
    "\<forall>n. entry_at nt n = None \<longleftrightarrow> (\<forall>j\<le>?k. n \<noteq> take j name) \<and> entry_at (nameTree t) n = None"
    using lookup_wf [OF assms(1), of ?k name] by (metis min.cobounded1 min.cobounded2)
  let ?t = "t\<lparr>nameTree := nt\<rparr>"
  have "\<not> (\<forall>j\<le>?k. n \<noteq> take j name)" using k by blast
  then have ne: "nte_at ?t n \<noteq> None" using nt(5) by simp
  have v: "meas_view ?t = meas_view t" using meas_field.view_payload [OF nt(4)] by simp
  have wf: "nt_wf (nameTree ?t)" using nt(2) by simp
  obtain t' where t': "Measurements_get_nte now n ?t = Some t'" "nt_wf (nameTree t')"
    "meas_view t' = (if meas_view ?t n = None then (meas_view ?t)(n \<mapsto>
      \<lparr>meas_name = n, meas_expiry = now + getInitialLifetime, meas_cleanup = Some (now + getInitialLifetime), meas_info = []\<rparr>)
      else meas_view ?t)"
    "meas_nItems t' = (if meas_view ?t n = None then meas_nItems ?t + 1 else meas_nItems ?t)"
    using get_nte_spec [OF wf ne] .
  have "Measurements_get now name t = Some (t', n)" using nt(1) t'(1) k by (simp add: Measurements_get_def)
  then show ?thesis using that [OF _ t'(2)] t'(3,4) unfolding v by simp
qed

lemma cleanup_spec:
  assumes "nt_wf (nameTree t)" and "meas_view t n \<noteq> None"
  obtains t' where "Measurements_cleanup n t = Some t'" and "nt_wf (nameTree t')"
    and "meas_view t' = (meas_view t)(n := None)" and "meas_nItems t' = meas_nItems t - 1"
proof -
  have ne: "nte_at t n \<noteq> None" using assms(2) by (auto simp: view_def split: option.splits)
  then obtain nte where nte: "nte_at t n = Some nte" by blast
  then obtain e where e: "m_measurementsEntry nte = Some e" using assms(2) by (auto simp: view_def)
  let ?t = "setMeasurementsEntry n None t"
  note w = setMeasurementsEntry_wf [OF assms(1) ne, of None]
  obtain nt k where nt: "eraseIfEmpty n True (nameTree ?t) = Some (nt, k)" "nt_wf nt" "hashFunc nt = hashFunc (nameTree ?t)"
    "payload (entry_at nt) = payload (entry_at (nameTree ?t))"
    "\<forall>m. entry_at nt m = None \<longrightarrow> entry_at (nameTree ?t) m = None \<or> prefix m n"
    "\<forall>m. entry_at (nameTree ?t) m = None \<longrightarrow> entry_at nt m = None"
    "True \<longrightarrow> (\<forall>m. m \<noteq> n \<longrightarrow> in_use (entry_at (nameTree ?t)) m) \<longrightarrow> (\<forall>m. in_use (entry_at nt) m)"
    using eraseIfEmpty_wf [OF w(1,3), of True] .
  have "view m_measurementsEntry None nt = (meas_view t)(n := None)" using meas_field.view_payload [OF nt(4)] w(2) by simp
  moreover have "Measurements_cleanup n t = Some (?t\<lparr>nameTree := nt, meas_nItems := meas_nItems ?t - 1\<rparr>)"
    using nte e nt(1) by (simp add: Measurements_cleanup_def Let_def)
  ultimately show ?thesis using that nt(2) w(4) by simp
qed

lemma extendLifetime_spec:
  assumes "nt_wf (nameTree t)" and "meas_view t n = Some e" and "meas_cleanup e = Some (meas_expiry e)"
  obtains t' e' where "extendLifetime now n lifetime t = Some t'" and "nt_wf (nameTree t')"
    and "meas_view t' = (meas_view t)(n \<mapsto> e')" and "meas_expiry e' = max (meas_expiry e) (now + lifetime)"
    and "meas_cleanup e' = Some (meas_expiry e')" and "meas_info e' = meas_info e" and "meas_nItems t' = meas_nItems t"
proof -
  have ne: "nte_at t n \<noteq> None" using assms(2) by (auto simp: view_def split: option.splits)
  then obtain nte where nte: "nte_at t n = Some nte" by blast
  then have e: "m_measurementsEntry nte = Some e" using assms(2) by (simp add: view_def)
  show ?thesis
  proof (cases "meas_expiry e \<ge> now + lifetime")
    case True
    then have "extendLifetime now n lifetime t = Some t" using nte e by (simp add: extendLifetime_def Let_def)
    then show ?thesis using that [of t e] assms True by (simp add: fun_upd_idem)
  next
    case False
    let ?e = "e\<lparr>meas_expiry := now + lifetime, meas_cleanup := Some (now + lifetime)\<rparr>"
    have "extendLifetime now n lifetime t = Some (setMeasurementsEntry n (Some ?e) t)"
      using nte e False by (simp add: extendLifetime_def Let_def)
    then show ?thesis using that [of _ ?e] setMeasurementsEntry_wf [OF assms(1) ne, of "Some ?e"] False by simp
  qed
qed

text \<open>C27: the life of a measurements entry: looking up a name without one creates it, cut at the
  depth limit, with the initial lifetime; after an extension its clean-up is scheduled at
  the later of the old time and the requested one; the clean-up then removes this entry and
  no other, and the item counter is back at its old value.\<close>

theorem measurements_lifecycle:
  assumes "nt_wf (nameTree t)" and "meas_view t (take getMaxDepth name) = None"
  shows "\<exists>t1 t2 t3 e. Measurements_get now name t = Some (t1, take getMaxDepth name) \<and>
    extendLifetime later (take getMaxDepth name) lifetime t1 = Some t2 \<and>
    meas_view t2 (take getMaxDepth name) = Some e \<and>
    meas_cleanup e = Some (max (now + getInitialLifetime) (later + lifetime)) \<and>
    Measurements_cleanup (take getMaxDepth name) t2 = Some t3 \<and>
    nt_wf (nameTree t3) \<and> meas_view t3 = meas_view t \<and> meas_nItems t3 = meas_nItems t"
proof -
  let ?n = "take getMaxDepth name"
  let ?e = "\<lparr>meas_name = ?n, meas_expiry = now + getInitialLifetime, meas_cleanup = Some (now + getInitialLifetime), meas_info = []\<rparr>
    :: 'a measurements_entry"
  obtain t1 where t1: "Measurements_get now name t = Some (t1, ?n)" "nt_wf (nameTree t1)"
    "meas_view t1 = (if meas_view t ?n = None then (meas_view t)(?n \<mapsto> ?e) else meas_view t)"
    "meas_nItems t1 = (if meas_view t ?n = None then meas_nItems t + 1 else meas_nItems t)"
    using get_spec [OF assms(1), of now name] .
  have v1: "meas_view t1 = (meas_view t)(?n \<mapsto> ?e)" using t1(3) assms(2) by simp
  have c: "meas_cleanup ?e = Some (meas_expiry ?e)" "meas_view t1 ?n = Some ?e" by (simp, simp only: v1 fun_upd_same)
  obtain t2 e where t2: "extendLifetime later ?n lifetime t1 = Some t2" "nt_wf (nameTree t2)"
    "meas_view t2 = (meas_view t1)(?n \<mapsto> e)" "meas_expiry e = max (meas_expiry ?e) (later + lifetime)"
    "meas_cleanup e = Some (meas_expiry e)" "meas_info e = meas_info ?e" "meas_nItems t2 = meas_nItems t1"
    using extendLifetime_spec [OF t1(2) c(2,1), of later lifetime] .
  have "meas_view t2 ?n \<noteq> None" unfolding t2(3) by simp
  then obtain t3 where t3: "Measurements_cleanup ?n t2 = Some t3" "nt_wf (nameTree t3)"
    "meas_view t3 = (meas_view t2)(?n := None)" "meas_nItems t3 = meas_nItems t2 - 1"
    using cleanup_spec [OF t2(2)] by blast
  have "meas_view t3 = meas_view t" unfolding t3(3) t2(3) v1 using assms(2) by auto
  moreover have "meas_nItems t3 = meas_nItems t" using t3(4) t2(7) t1(4) assms(2) by simp
  moreover have "meas_view t2 ?n = Some e" unfolding t2(3) by simp
  ultimately show ?thesis using t1(1) t2(1,4,5) t3(1,2) by auto
qed

theorem measurements_lifecycle_witness:
  "\<exists>nt t1. NameTree (\<lambda>c. 0) 16 = Some nt \<and>
     Measurements_get 5 [Generic ''a''] (tables_new nt :: (unit, unit) tables) = Some (t1, take getMaxDepth [Generic ''a''])"
proof -
  obtain nt :: "unit nt" where nt: "NameTree (\<lambda>c. 0) 16 = Some nt" "nt_wf nt" "entry_at nt = (\<lambda>_. None)"
    using NameTree_wf [of 16 "\<lambda>c. 0"] by (metis zero_less_numeral)
  have "nt_wf (nameTree (tables_new nt :: (unit, unit) tables))" "meas_view (tables_new nt :: (unit, unit) tables) m = None" for m
    using nt(2,3) by (simp_all add: tables_new_def view_def)
  from measurements_lifecycle [OF this, where now = 5 and name = "[Generic ''a'']"] nt(1) show ?thesis by auto
qed

end
