(* ===== verification/Partial_Enumeration.thy ===== *)
theory Partial_Enumeration
  imports Name_Tree
begin

text \<open>
  The partial enumeration of the name tree (\<^verbatim>\<open>PartialEnumerationImpl\<close> in
  \<^verbatim>\<open>daemon/table/name-tree-iterator.cpp\<close>) visits a subtree in pre-order.  The walk keeps only its current
  entry; \<open>todo\<close> is what a pre-order walk still has to visit from there, and every step of the
  iterator takes the head of it.
\<close>

type_synonym ('f, 'm, 's) sub_pred = "('f, 'm, 's) nt_entry \<Rightarrow> bool \<times> bool"

definition kids :: "('f, 'm, 's) name_tree \<Rightarrow> name \<Rightarrow> name list" where
  "kids nt n = (case entry_at nt n of None \<Rightarrow> [] | Some e \<Rightarrow> m_children e)"

definition want :: "('f, 'm, 's) name_tree \<Rightarrow> ('f, 'm, 's) sub_pred \<Rightarrow> name \<Rightarrow> bool \<times> bool" where
  "want nt pred n = (case entry_at nt n of None \<Rightarrow> (False, False) | Some e \<Rightarrow> pred e)"

fun below :: "('f, 'm, 's) name_tree \<Rightarrow> ('f, 'm, 's) sub_pred \<Rightarrow> nat \<Rightarrow> name \<Rightarrow> bool \<Rightarrow> name list" where
  "below nt pred 0 n w = []"
| "below nt pred (Suc k) n w =
     (if w then concat (map (\<lambda>c. (if fst (want nt pred c) then [c] else []) @ below nt pred k c (snd (want nt pred c))) (kids nt n))
      else [])"

definition sub :: "('f, 'm, 's) name_tree \<Rightarrow> ('f, 'm, 's) sub_pred \<Rightarrow> name \<Rightarrow> bool \<Rightarrow> name list" where
  "sub nt pred n w = below nt pred (getMaxDepth - length n) n w"

definition preorder :: "('f, 'm, 's) name_tree \<Rightarrow> ('f, 'm, 's) sub_pred \<Rightarrow> name \<Rightarrow> name list" where
  "preorder nt pred n = (if fst (want nt pred n) then [n] else []) @ sub nt pred n (snd (want nt pred n))"

definition later_siblings :: "('f, 'm, 's) name_tree \<Rightarrow> name \<Rightarrow> name list" where
  "later_siblings nt n = tl (dropWhile (\<lambda>c. c \<noteq> n) (kids nt (butlast n)))"

fun after :: "('f, 'm, 's) name_tree \<Rightarrow> ('f, 'm, 's) sub_pred \<Rightarrow> name \<Rightarrow> name \<Rightarrow> name list" where
  "after nt pred ref n =
     (if n = ref \<or> n = [] then []
      else concat (map (preorder nt pred) (later_siblings nt n)) @ after nt pred ref (butlast n))"

declare after.simps [simp del]

definition todo :: "('f, 'm, 's) name_tree \<Rightarrow> ('f, 'm, 's) sub_pred \<Rightarrow> name \<Rightarrow> name \<Rightarrow> bool \<Rightarrow> name list" where
  "todo nt pred ref n w = sub nt pred n w @ after nt pred ref n"

lemma kidsD:
  assumes "nt_wf nt" and "c \<in> set (kids nt n)"
  shows "c \<noteq> []" "butlast c = n" "entry_at nt c \<noteq> None" "length c \<le> getMaxDepth"
proof -
  have t: "tree_ok (entry_at nt)" using assms(1) by (simp add: nt_wf_def)
  obtain e where e: "entry_at nt n = Some e" "c \<in> set (m_children e)"
    using assms(2) by (cases "entry_at nt n") (auto simp: kids_def)
  show c: "c \<noteq> []" "butlast c = n" "entry_at nt c \<noteq> None" using tree_okD [OF t e(1)] e(2) by auto
  then show "length c \<le> getMaxDepth" using tree_okD [OF t] by blast
qed

lemma kids_length:
  assumes "nt_wf nt" and "c \<in> set (kids nt n)"
  shows "length c = Suc (length n)"
proof -
  have "length (butlast c) = length n" "0 < length c" using kidsD(1,2) [OF assms] by simp_all
  then show ?thesis unfolding length_butlast by linarith
qed

lemma kids_distinct: "nt_wf nt \<Longrightarrow> distinct (kids nt n)"
  using tree_okD(5) [of "entry_at nt" n] by (cases "entry_at nt n") (auto simp: kids_def nt_wf_def)

lemma sub_unfold:
  assumes "nt_wf nt"
  shows "sub nt pred n w = (if w then concat (map (preorder nt pred) (kids nt n)) else [])"
proof (cases "getMaxDepth - length n")
  case 0
  have "kids nt n = []"
  proof (rule ccontr)
    assume "kids nt n \<noteq> []"
    then obtain c where c: "c \<in> set (kids nt n)" by (cases "kids nt n") auto
    show False using kids_length [OF assms c] kidsD(4) [OF assms c] 0 by simp
  qed
  with 0 show ?thesis by (simp add: sub_def)
next
  case (Suc k)
  have "getMaxDepth - length c = k" if "c \<in> set (kids nt n)" for c
    using kids_length [OF assms that] Suc by simp
  then have "map (\<lambda>c. (if fst (want nt pred c) then [c] else []) @ below nt pred k c (snd (want nt pred c))) (kids nt n) =
      map (preorder nt pred) (kids nt n)" by (simp add: preorder_def sub_def)
  then show ?thesis unfolding sub_def Suc below.simps by (simp only:)
qed

lemma later_of_split: "distinct (xs @ s # ys) \<Longrightarrow> tl (dropWhile (\<lambda>c. c \<noteq> s) (xs @ s # ys)) = ys"
  by (subst dropWhile_append2) auto

lemma later_siblings_split: "nt_wf nt \<Longrightarrow> kids nt (butlast s) = xs @ s # ys \<Longrightarrow> later_siblings nt s = ys"
  using later_of_split [of xs s ys] kids_distinct [of nt "butlast s"] by (simp add: later_siblings_def)

lemma after_child:
  assumes "nt_wf nt" and "kids nt n = xs @ c # ys" and "prefix ref n"
  shows "after nt pred ref c = concat (map (preorder nt pred) ys) @ after nt pred ref n"
proof -
  have c: "c \<noteq> []" "butlast c = n" using kidsD(1,2) [OF assms(1), of c n] assms(2) by simp_all
  have "length c = Suc (length n)" using kids_length [OF assms(1), of c n] assms(2) by simp
  then have "c \<noteq> ref" using prefix_length_le [OF assms(3)] by auto
  then show ?thesis using c later_siblings_split [OF assms(1), of c xs ys] assms(2) by (subst after.simps) simp
qed

lemma sibling_loop_spec:
  assumes "nt_wf nt" and "\<forall>s\<in>set ss. entry_at nt s \<noteq> None"
  shows "(sibling_loop nt pred ss = Some NoMoreSibling \<and> (\<forall>s\<in>set ss. want nt pred s = (False, False))) \<or>
    (\<exists>skip s rest w. ss = skip @ s # rest \<and> (\<forall>x\<in>set skip. want nt pred x = (False, False)) \<and>
      (sibling_loop nt pred ss = Some (VisitSibling s w) \<and> want nt pred s = (True, w) \<or>
       sibling_loop nt pred ss = Some (DescendInto s) \<and> want nt pred s = (False, True)))"
  using assms(2)
proof (induction ss)
  case (Cons s ss)
  then obtain e where e: "entry_at nt s = Some e" by auto
  obtain a b where p: "pred e = (a, b)" by (cases "pred e")
  have w: "want nt pred s = (a, b)" using e p by (simp add: want_def)
  show ?case
  proof (cases "a \<or> b")
    case True
    have "sibling_loop nt pred (s # ss) = Some (if a then VisitSibling s b else DescendInto s)" using e p True by auto
    then show ?thesis using w True by (intro disjI2 exI [of _ "[]"] exI [of _ s] exI [of _ ss] exI [of _ b]) (cases a; simp)
  next
    case False
    then have l: "sibling_loop nt pred (s # ss) = sibling_loop nt pred ss" using e p by simp
    have w': "want nt pred s = (False, False)" using w False by simp
    consider (none) "sibling_loop nt pred ss = Some NoMoreSibling" "\<forall>s\<in>set ss. want nt pred s = (False, False)"
      | (some) skip x rest v where "ss = skip @ x # rest" "\<forall>x\<in>set skip. want nt pred x = (False, False)"
        "sibling_loop nt pred ss = Some (VisitSibling x v) \<and> want nt pred x = (True, v) \<or>
         sibling_loop nt pred ss = Some (DescendInto x) \<and> want nt pred x = (False, True)"
      using Cons.IH Cons.prems by auto
    then show ?thesis
    proof cases
      case none
      then show ?thesis using l w' by simp
    next
      case some
      then show ?thesis unfolding l using w'
        by (intro disjI2 exI [of _ "s # skip"] exI [of _ x] exI [of _ rest] exI [of _ v]) simp
    qed
  qed
qed simp

lemma preorder_skip: "nt_wf nt \<Longrightarrow> want nt pred s = (False, False) \<Longrightarrow> preorder nt pred s = []"
  by (simp add: preorder_def sub_unfold)

lemma concat_skip: "nt_wf nt \<Longrightarrow> \<forall>x\<in>set ss. want nt pred x = (False, False) \<Longrightarrow> concat (map (preorder nt pred) ss) = []"
  by (simp add: preorder_skip)

text \<open>What the iterator returns when \<open>xs\<close> is left to visit.\<close>

definition steps_to :: "('f, 'm, 's) name_tree \<Rightarrow> ('f, 'm, 's) sub_pred \<Rightarrow> name \<Rightarrow> name list \<Rightarrow> Iterator option \<Rightarrow> bool" where
  "steps_to nt pred ref xs r \<longleftrightarrow> (case xs of
       [] \<Rightarrow> r = Some Iterator_end
     | x # ys \<Rightarrow> r = Some \<lparr>m_entry = Some x, m_ref = Some ref, m_state = snd (want nt pred x)\<rparr> \<and>
         entry_at nt x \<noteq> None \<and> prefix ref x \<and> ys = todo nt pred ref x (snd (want nt pred x)))"

abbreviation all_pred :: "('f, 'm, 's) sub_pred" where
  "all_pred \<equiv> \<lambda>_. (True, True)"

lemma want_all: "entry_at nt n \<noteq> None \<Longrightarrow> want nt all_pred n = (True, True)"
  by (auto simp: want_def)

lemma prefix_butlast: "prefix ref n \<Longrightarrow> n \<noteq> ref \<Longrightarrow> prefix ref (butlast n)"
  by (metis append_butlast_last_id prefix_bot.bot_least prefix_order.eq_iff prefix_snoc butlast.simps(1))

lemma prefix_child: "prefix ref n \<Longrightarrow> c \<noteq> [] \<Longrightarrow> butlast c = n \<Longrightarrow> prefix ref c"
  by (metis append_butlast_last_id prefixI prefix_order.trans)

lemma after_sibling:
  assumes "nt_wf nt" and "n \<noteq> ref" and "prefix ref n" and "entry_at nt n \<noteq> None" and "n \<noteq> []"
    and "later_siblings nt n = skip @ s # rest"
  shows "after nt pred ref n = concat (map (preorder nt pred) skip) @ preorder nt pred s @ after nt pred ref s"
    and "butlast s = butlast n" and "s \<noteq> []" and "entry_at nt s \<noteq> None" and "prefix ref s"
proof -
  let ?p = "butlast n"
  have t: "tree_ok (entry_at nt)" using assms(1) by (simp add: nt_wf_def)
  obtain e where e: "entry_at nt n = Some e" using assms(4) by blast
  have pe: "entry_at nt ?p \<noteq> None" by (rule tree_okD(3) [OF t e assms(5)])
  then obtain pe where pe: "entry_at nt ?p = Some pe" by blast
  have "n \<in> set (m_children pe)" using tree_okD(6) [OF t pe] assms(4,5) by blast
  then have "n \<in> set (kids nt ?p)" using pe by (simp add: kids_def)
  then obtain xs ys where k: "kids nt ?p = xs @ n # ys" by (meson split_list)
  have "later_siblings nt n = ys" by (rule later_siblings_split [OF assms(1) k])
  then have ys: "ys = skip @ s # rest" using assms(6) by simp
  have ks: "kids nt ?p = (xs @ n # skip) @ s # rest" using k ys by simp
  then have s: "s \<in> set (kids nt ?p)" by simp
  show "butlast s = ?p" "s \<noteq> []" "entry_at nt s \<noteq> None" using kidsD [OF assms(1) s] by simp_all
  have pp: "prefix ref ?p" by (rule prefix_butlast [OF assms(3,2)])
  then show "prefix ref s" using prefix_child kidsD(1,2) [OF assms(1) s] by blast
  have "after nt pred ref n = concat (map (preorder nt pred) ys) @ after nt pred ref ?p" by (rule after_child [OF assms(1) k pp])
  moreover have "after nt pred ref s = concat (map (preorder nt pred) rest) @ after nt pred ref ?p"
    by (rule after_child [OF assms(1) ks pp])
  ultimately show "after nt pred ref n = concat (map (preorder nt pred) skip) @ preorder nt pred s @ after nt pred ref s"
    unfolding ys by simp
qed

lemma todo_child:
  assumes "nt_wf nt" and "kids nt n = c # cs" and "prefix ref n"
  shows "todo nt pred ref n True = preorder nt pred c @ after nt pred ref c"
  using assms after_child [OF assms(1) _ assms(3), of "[]" c cs pred] by (simp add: todo_def sub_unfold)

lemma partial_loop_spec:
  assumes wf: "nt_wf nt"
  shows "entry_at nt n \<noteq> None \<Longrightarrow> prefix ref n \<Longrightarrow>
    steps_to nt pred ref (todo nt pred ref n w) (partial_loop nt pred ref n w)"
proof (induction "(length (todo nt all_pred ref n w), length n)" arbitrary: n w
    rule: wf_induct_rule [OF wf_lex_prod [OF wf_less wf_less], consumes 0])
  case 1
  note IH = "1.hyps"
  have t: "tree_ok (entry_at nt)" using wf by (simp add: nt_wf_def)
  obtain e where e: "entry_at nt n = Some e" using "1.prems"(1) by blast
  have kids: "kids nt n = m_children e" using e by (simp add: kids_def)
  show ?case
  proof (cases "w \<and> hasChildren e")
    case True
    then obtain c cs where cs: "kids nt n = c # cs" unfolding kids hasChildren_def by (cases "m_children e") auto
    then have ck: "c \<in> set (kids nt n)" by simp
    have c: "entry_at nt c \<noteq> None" "prefix ref c" "length c = Suc (length n)"
      using kidsD [OF wf ck] kids_length [OF wf ck] prefix_child [OF "1.prems"(2)] by auto
    then obtain x where x: "entry_at nt c = Some x" by blast
    have wc: "want nt pred c = pred x" using x by (simp add: want_def)
    have td: "todo nt pred ref n w = preorder nt pred c @ after nt pred ref c" for pred
      using todo_child [OF wf cs "1.prems"(2), of pred] True by simp
    have hd: "hd (m_children e) = c" using cs kids by simp
    have less: "length (todo nt all_pred ref c v) < length (todo nt all_pred ref n w)" for v
      unfolding td using want_all [OF c(1)] by (cases v) (simp_all add: preorder_def todo_def sub_unfold [OF wf])
    have loop: "partial_loop nt pred ref n w =
        (if fst (pred x) then Some \<lparr>m_entry = Some c, m_ref = Some ref, m_state = snd (pred x)\<rparr>
         else partial_loop nt pred ref c (snd (pred x)))"
      using True e x hd by (subst partial_loop.simps) simp
    show ?thesis
    proof (cases "fst (pred x)")
      case True
      then show ?thesis using loop c wc unfolding td by (simp add: steps_to_def preorder_def todo_def)
    next
      case False
      have "steps_to nt pred ref (todo nt pred ref c (snd (pred x))) (partial_loop nt pred ref c (snd (pred x)))"
        using IH less c by simp
      then show ?thesis using loop False wc unfolding td by (simp add: preorder_def todo_def)
    qed
  next
    case noc: False
    have td: "todo nt pred ref n w = after nt pred ref n" for pred
      using noc kids by (auto simp: todo_def sub_unfold [OF wf] hasChildren_def)
    show ?thesis
    proof (cases "n = ref")
      case True
      then have "todo nt pred ref n w = []" unfolding td by (subst after.simps) simp
      moreover have "partial_loop nt pred ref n w = Some Iterator_end" using noc e True by (subst partial_loop.simps) auto
      ultimately show ?thesis by (simp add: steps_to_def)
    next
      case False
      have ne: "n \<noteq> []" using False "1.prems"(2) by auto
      let ?p = "butlast n"
      have pp: "prefix ref ?p" by (rule prefix_butlast [OF "1.prems"(2) False])
      obtain pe where pe: "entry_at nt ?p = Some pe" using tree_okD(3) [OF t e ne] by blast
      have np: "m_parent e = Some ?p" using tree_okD(4) [OF t e] ne by simp
      have nk: "n \<in> set (m_children pe)" using tree_okD(6) [OF t pe] "1.prems"(1) ne by blast
      let ?ss = "later_siblings nt n"
      have ss: "tl (dropWhile (\<lambda>c. c \<noteq> n) (m_children pe)) = ?ss" using pe by (simp add: later_siblings_def kids_def)
      have ex: "\<forall>s\<in>set ?ss. entry_at nt s \<noteq> None"
      proof
        fix s assume "s \<in> set ?ss"
        then have "s \<in> set (kids nt ?p)" unfolding later_siblings_def
          by (metis list.set_sel(2) set_dropWhileD tl_Nil)
        then show "entry_at nt s \<noteq> None" by (rule kidsD(3) [OF wf])
      qed
      have loop: "partial_loop nt pred ref n w = Option.bind (sibling_loop nt pred ?ss) (\<lambda>r. case r of
            VisitSibling s wc \<Rightarrow> Some \<lparr>m_entry = Some s, m_ref = Some ref, m_state = wc\<rparr>
          | DescendInto s \<Rightarrow> partial_loop nt pred ref s True
          | NoMoreSibling \<Rightarrow> partial_loop nt pred ref ?p False)"
        using noc e False np pe nk ss by (subst partial_loop.simps) auto
      have up: "after nt q ref n = concat (map (preorder nt q) ?ss) @ after nt q ref ?p" for q
        using False ne by (subst after.simps) simp
      from sibling_loop_spec [OF wf ex, of pred] consider
        (none) "sibling_loop nt pred ?ss = Some NoMoreSibling" "\<forall>s\<in>set ?ss. want nt pred s = (False, False)"
        | (visit) skip s rest v where "?ss = skip @ s # rest" "\<forall>x\<in>set skip. want nt pred x = (False, False)"
            "sibling_loop nt pred ?ss = Some (VisitSibling s v)" "want nt pred s = (True, v)"
        | (descend) skip s rest where "?ss = skip @ s # rest" "\<forall>x\<in>set skip. want nt pred x = (False, False)"
            "sibling_loop nt pred ?ss = Some (DescendInto s)" "want nt pred s = (False, True)"
        by blast
      then show ?thesis
      proof cases
        case none
        have "todo nt pred ref n w = todo nt pred ref ?p False"
          unfolding td up using concat_skip [OF wf none(2)] by (simp add: todo_def sub_unfold [OF wf])
        moreover have "length (todo nt all_pred ref ?p False) \<le> length (todo nt all_pred ref n w)"
          unfolding td up by (simp add: todo_def sub_unfold [OF wf])
        moreover have "length ?p < length n" using ne by simp
        ultimately show ?thesis using loop none(1) IH [of ?p False] pe pp by (auto simp: le_less)
      next
        case visit
        note a = after_sibling [OF wf False "1.prems"(2,1) ne visit(1)]
        have "todo nt pred ref n w = s # todo nt pred ref s v"
          unfolding td a(1) using concat_skip [OF wf visit(2)] visit(4) by (simp add: preorder_def todo_def)
        then show ?thesis using loop visit(3,4) a(4,5) by (simp add: steps_to_def)
      next
        case descend
        note a = after_sibling [OF wf False "1.prems"(2,1) ne descend(1)]
        have "todo nt pred ref n w = todo nt pred ref s True"
          unfolding td a(1) using concat_skip [OF wf descend(2)] descend(4) by (simp add: preorder_def todo_def)
        moreover have "length (todo nt all_pred ref s True) < length (todo nt all_pred ref n w)"
          unfolding td a(1) using want_all [OF a(4)] by (simp add: preorder_def todo_def)
        ultimately show ?thesis using loop descend(3) IH [of s True] a(4,5) by simp
      qed
    qed
  qed
qed

lemma visit_partial:
  assumes "nt_wf nt"
  shows "steps_to nt pred ref xs (Some i) \<Longrightarrow> visit_from (PartialEnumeration_advance nt pred) i = Some xs"
proof (induction xs arbitrary: i)
  case Nil
  then have "i = Iterator_end" by (simp add: steps_to_def)
  then show ?case by (subst visit_from.simps) (simp add: Iterator_end_def)
next
  case (Cons x xs)
  then have i: "i = \<lparr>m_entry = Some x, m_ref = Some ref, m_state = snd (want nt pred x)\<rparr>" "entry_at nt x \<noteq> None" "prefix ref x"
    "xs = todo nt pred ref x (snd (want nt pred x))" by (simp_all add: steps_to_def)
  have adv: "PartialEnumeration_advance nt pred i = partial_loop nt pred ref x (snd (want nt pred x))"
    by (simp add: PartialEnumeration_advance_def i(1))
  have st: "steps_to nt pred ref xs (PartialEnumeration_advance nt pred i)"
    unfolding adv i(4) by (rule partial_loop_spec [OF assms i(2,3)])
  then obtain j where j: "PartialEnumeration_advance nt pred i = Some j" by (auto simp: steps_to_def split: list.splits)
  have "visit_from (PartialEnumeration_advance nt pred) j = Some xs" using Cons.IH [of j] st j by simp
  then show ?case using j i(1) by (subst visit_from.simps) simp
qed

lemma todo_self: "todo nt pred n n w = sub nt pred n w"
  by (simp add: todo_def after.simps)

lemma partialEnumerate_preorder:
  assumes "nt_wf nt"
  shows "partialEnumerate nt n pred = Some (if entry_at nt n = None then [] else preorder nt pred n)"
proof (cases "entry_at nt n")
  case None
  have "visit_from (PartialEnumeration_advance nt pred) Iterator_end = Some []"
    by (subst visit_from.simps) (simp add: Iterator_end_def)
  then show ?thesis using None
    by (simp add: partialEnumerate_def findExactMatch_spec [OF assms] visit_def PartialEnumeration_advance_def)
next
  case (Some e)
  let ?i = "\<lparr>m_entry = None, m_ref = Some n, m_state = False\<rparr>"
  have w: "want nt pred n = pred e" using Some by (simp add: want_def)
  have adv: "PartialEnumeration_advance nt pred ?i =
      (if fst (pred e) then Some \<lparr>m_entry = Some n, m_ref = Some n, m_state = snd (pred e)\<rparr>
       else partial_loop nt pred n n (snd (pred e)))"
    using Some by (cases "pred e") (simp add: PartialEnumeration_advance_def)
  have "steps_to nt pred n (preorder nt pred n) (PartialEnumeration_advance nt pred ?i)"
  proof (cases "fst (pred e)")
    case True
    then show ?thesis using Some w adv by (simp add: steps_to_def preorder_def todo_self)
  next
    case False
    have "steps_to nt pred n (todo nt pred n n (snd (pred e))) (partial_loop nt pred n n (snd (pred e)))"
      using partial_loop_spec [OF assms] Some by blast
    then show ?thesis using False w adv by (simp add: preorder_def todo_self)
  qed
  moreover from this obtain j where "PartialEnumeration_advance nt pred ?i = Some j"
    by (auto simp: steps_to_def split: list.splits)
  ultimately show ?thesis using visit_partial [OF assms] Some
    by (simp add: partialEnumerate_def findExactMatch_spec [OF assms] visit_def)
qed

text \<open>Which entries a pre-order walk visits.\<close>

definition reaches :: "('f, 'm, 's) name_tree \<Rightarrow> ('f, 'm, 's) sub_pred \<Rightarrow> name \<Rightarrow> name \<Rightarrow> bool" where
  "reaches nt pred n m \<longleftrightarrow> entry_at nt m \<noteq> None \<and> prefix n m \<and>
     (\<forall>j. length n \<le> j \<longrightarrow> j < length m \<longrightarrow> snd (want nt pred (take j m)))"

lemma set_kids:
  assumes "nt_wf nt" and "entry_at nt n \<noteq> None"
  shows "set (kids nt n) = {c. c \<noteq> [] \<and> butlast c = n \<and> entry_at nt c \<noteq> None}"
proof -
  have t: "tree_ok (entry_at nt)" using assms(1) by (simp add: nt_wf_def)
  obtain e where e: "entry_at nt n = Some e" using assms(2) by blast
  show ?thesis using tree_okD(6) [OF t e] e by (simp add: kids_def)
qed

lemma take_of_prefix: "prefix x m \<Longrightarrow> take (length x) m = x"
  by (auto simp: prefix_def)

lemma distinct_concat_disjoint:
  assumes "distinct xs" and "\<And>x. x \<in> set xs \<Longrightarrow> distinct (f x)"
    and "\<And>x y. x \<in> set xs \<Longrightarrow> y \<in> set xs \<Longrightarrow> x \<noteq> y \<Longrightarrow> set (f x) \<inter> set (f y) = {}"
  shows "distinct (concat (map f xs))"
  using assms
proof (induction xs)
  case (Cons x xs)
  have "set (f x) \<inter> set (f y) = {}" if "y \<in> set xs" for y
    using Cons.prems(1,3) that by (metis distinct.simps(2) list.set_intros)
  then show ?case using Cons by auto
qed simp

lemma preorder_reaches:
  assumes wf: "nt_wf nt"
  shows "entry_at nt n \<noteq> None \<Longrightarrow> set (preorder nt pred n) = {m. reaches nt pred n m \<and> fst (want nt pred m)} \<and> distinct (preorder nt pred n)"
proof (induction "getMaxDepth - length n" arbitrary: n rule: less_induct)
  case less
  have t: "tree_ok (entry_at nt)" using wf by (simp add: nt_wf_def)
  have kid: "entry_at nt c \<noteq> None \<and> set (preorder nt pred c) = {m. reaches nt pred c m \<and> fst (want nt pred m)} \<and>
      distinct (preorder nt pred c)" if c: "c \<in> set (kids nt n)" for c
    using less.hyps [of c] kids_length [OF wf c] kidsD(3,4) [OF wf c] by auto
  have split: "reaches nt pred n m \<longleftrightarrow> m = n \<or> snd (want nt pred n) \<and> (\<exists>c\<in>set (kids nt n). reaches nt pred c m)" for m
  proof
    assume r: "reaches nt pred n m"
    show "m = n \<or> snd (want nt pred n) \<and> (\<exists>c\<in>set (kids nt n). reaches nt pred c m)"
    proof (cases "m = n")
      case False
      have p: "prefix n m" "take (length n) m = n" using r by (auto simp: reaches_def prefix_def)
      have l: "length n < length m"
      proof -
        obtain zs where zs: "m = n @ zs" using p(1) by (auto simp: prefix_def)
        then show ?thesis using False by (cases zs) simp_all
      qed
      let ?c = "take (Suc (length n)) m"
      have "entry_at nt ?c \<noteq> None" using tree_ok_prefix [OF t] r by (auto simp: reaches_def)
      moreover have "butlast ?c = n" using p(2) l by (simp add: butlast_take)
      moreover have "?c \<noteq> []" using l by auto
      ultimately have "?c \<in> set (kids nt n)" using set_kids [OF wf less.prems] by simp
      moreover have "reaches nt pred ?c m" using r l by (auto simp: reaches_def take_is_prefix)
      moreover have "snd (want nt pred n)"
        using r l p(2) unfolding reaches_def by auto
      ultimately show ?thesis by blast
    qed simp
  next
    assume "m = n \<or> snd (want nt pred n) \<and> (\<exists>c\<in>set (kids nt n). reaches nt pred c m)"
    then show "reaches nt pred n m"
    proof
      assume "m = n"
      then show ?thesis using less.prems by (simp add: reaches_def)
    next
      assume "snd (want nt pred n) \<and> (\<exists>c\<in>set (kids nt n). reaches nt pred c m)"
      then obtain c where c: "snd (want nt pred n)" "c \<in> set (kids nt n)" "reaches nt pred c m" by blast
      have lc: "length c = Suc (length n)" by (rule kids_length [OF wf c(2)])
      have pc: "prefix n c"
        using prefix_child [OF prefix_order.refl kidsD(1,2) [OF wf c(2)]] .
      have pm: "prefix c m" using c(3) by (simp add: reaches_def)
      have "take (length n) m = n" using prefix_order.trans [OF pc pm] by (auto simp: prefix_def)
      then have "snd (want nt pred (take j m))" if "length n \<le> j" "j < length m" for j
        using c(1,3) lc that unfolding reaches_def by (cases "j = length n") auto
      then show ?thesis using c(3) prefix_order.trans [OF pc pm] by (auto simp: reaches_def)
    qed
  qed
  have sub: "sub nt pred n (snd (want nt pred n)) =
      (if snd (want nt pred n) then concat (map (preorder nt pred) (kids nt n)) else [])" by (rule sub_unfold [OF wf])
  have setsub: "set (sub nt pred n (snd (want nt pred n))) =
      {m. snd (want nt pred n) \<and> (\<exists>c\<in>set (kids nt n). reaches nt pred c m) \<and> fst (want nt pred m)}"
    unfolding sub using kid by auto
  have notn: "\<not> reaches nt pred c n" if "c \<in> set (kids nt n)" for c
    using kids_length [OF wf that] by (auto simp: reaches_def dest: prefix_length_le)
  have "set (preorder nt pred n) = {m. reaches nt pred n m \<and> fst (want nt pred m)}"
    unfolding preorder_def set_append setsub split by (auto split: if_splits)
  moreover have "distinct (sub nt pred n (snd (want nt pred n)))"
  proof -
    have "distinct (concat (map (preorder nt pred) (kids nt n)))"
    proof (rule distinct_concat_disjoint)
      show "distinct (kids nt n)" by (rule kids_distinct [OF wf])
      show "distinct (preorder nt pred c)" if "c \<in> set (kids nt n)" for c using kid [OF that] by blast
      show "set (preorder nt pred c) \<inter> set (preorder nt pred d) = {}"
        if "c \<in> set (kids nt n)" "d \<in> set (kids nt n)" "c \<noteq> d" for c d
      proof -
        have len: "length c = length d" using kids_length [OF wf that(1)] kids_length [OF wf that(2)] by simp
        have "\<not> (prefix c m \<and> prefix d m)" for m
        proof
          assume "prefix c m \<and> prefix d m"
          then have "take (length c) m = c" "take (length d) m = d" by (simp_all add: take_of_prefix)
          then show False using len that(3) by simp
        qed
        then show ?thesis using kid [OF that(1)] kid [OF that(2)] by (auto simp: reaches_def)
      qed
    qed
    then show ?thesis unfolding sub by simp
  qed
  moreover have "n \<notin> set (sub nt pred n (snd (want nt pred n)))" unfolding setsub using notn by blast
  ultimately show ?case unfolding preorder_def by auto
qed

lemma partialEnumerate_set:
  assumes "nt_wf nt"
  shows "\<exists>ns. partialEnumerate nt n pred = Some ns \<and> distinct ns \<and>
    set ns = {m. entry_at nt n \<noteq> None \<and> entry_at nt m \<noteq> None \<and> prefix n m \<and> fst (want nt pred m) \<and>
      (\<forall>j. length n \<le> j \<longrightarrow> j < length m \<longrightarrow> snd (want nt pred (take j m)))}"
  using partialEnumerate_preorder [OF assms, of n pred] preorder_reaches [OF assms, of n pred]
  by (cases "entry_at nt n") (auto simp: reaches_def)

text \<open>C24: partial enumeration ends, is complete and stays in its subtree: the walk
  returns after visiting, each exactly once, the
  entries under the given name that the predicate selects and whose ancestors, from the
  given name on, all let their children be visited; without an entry of that name it visits
  nothing.\<close>

theorem partial_enumeration_spec:
  assumes "nt_wf nt"
  shows "\<exists>ns. partialEnumerate nt n pred = Some ns \<and> distinct ns \<and>
    set ns = {m. entry_at nt n \<noteq> None \<and> entry_at nt m \<noteq> None \<and> prefix n m \<and> fst (want nt pred m) \<and>
      (\<forall>j. length n \<le> j \<longrightarrow> j < length m \<longrightarrow> snd (want nt pred (take j m)))}"
  by (rule partialEnumerate_set [OF assms])

theorem partial_enumeration_spec_witness:
  "\<exists>nt nt' ns. NameTree (\<lambda>c. 0) 16 = Some (nt :: (unit, unit, unit) name_tree) \<and>
     lookup [Generic ''a'', Generic ''b''] 2 nt = Some (nt', [Generic ''a'', Generic ''b'']) \<and>
     partialEnumerate nt' [Generic ''a''] (\<lambda>_. (True, True)) = Some ns \<and> [Generic ''a'', Generic ''b''] \<in> set ns"
proof -
  let ?n = "[Generic ''a'', Generic ''b'']"
  obtain nt :: "(unit, unit, unit) name_tree" where nt: "NameTree (\<lambda>c. 0) 16 = Some nt" "nt_wf nt" "entry_at nt = (\<lambda>_. None)"
    using NameTree_wf [of 16 "\<lambda>c. 0"] by (metis zero_less_numeral)
  have len: "2 \<le> length ?n" "2 \<le> getMaxDepth" by (simp_all add: getMaxDepth_def FIB_MAX_DEPTH_def)
  obtain nt' where nt': "lookup ?n 2 nt = Some (nt', take 2 ?n)" "nt_wf nt'" "hashFunc nt' = hashFunc nt"
    "payload (entry_at nt') = payload (entry_at nt)"
    "\<forall>n. entry_at nt' n = None \<longleftrightarrow> (\<forall>j\<le>2. n \<noteq> take j ?n) \<and> entry_at nt n = None"
    using lookup_wf [OF nt(2) len] .
  have ex: "entry_at nt' (take j ?n) \<noteq> None" if "j \<le> 2" for j using nt'(5) that by blast
  have a: "entry_at nt' [Generic ''a''] \<noteq> None" "entry_at nt' ?n \<noteq> None" using ex [of 1] ex [of 2] by simp_all
  have w: "want nt' (\<lambda>_. (True, True)) (take j ?n) = (True, True)" if "j \<le> 2" for j
    using want_all [OF ex [OF that]] .
  obtain ns where ns: "partialEnumerate nt' [Generic ''a''] (\<lambda>_. (True, True)) = Some ns"
    "set ns = {m. entry_at nt' [Generic ''a''] \<noteq> None \<and> entry_at nt' m \<noteq> None \<and> prefix [Generic ''a''] m \<and>
      fst (want nt' (\<lambda>_. (True, True)) m) \<and>
      (\<forall>j. length [Generic ''a''] \<le> j \<longrightarrow> j < length m \<longrightarrow> snd (want nt' (\<lambda>_. (True, True)) (take j m)))}"
    using partial_enumeration_spec [OF nt'(2), of "[Generic ''a'']" "\<lambda>_. (True, True)"] by blast
  have "?n \<in> set ns" unfolding ns(2) using a w [of 2] w [of 1] by (auto simp: less_Suc_eq)
  then show ?thesis using nt(1) nt'(1) ns(1) by auto
qed

end
