(* ===== verification/Strategy_Registry.thy ===== *)
theory Strategy_Registry
  imports Name_Order
begin

text \<open>
  The registry of strategy programs, \<^verbatim>\<open>daemon/fw/strategy.{hpp,cpp}\<close>: an ordered map from versioned
  strategy names to functions that create an instance.  An instance name may leave the
  version out and may have parameters after it.  The version of a component
  (\<^verbatim>\<open>Component::isVersion\<close>, \<^verbatim>\<open>toVersion\<close> of ndn-cxx) is the parameter \<open>versionOf\<close>.  An iterator is an index
  into the map, and the length of the map is its end.

  The lemmas: finding a versioned name gives the exact or next higher version, finding an
  unversioned name the highest; an instance name made from a strategy name parses back to it.
\<close>

text \<open>Creating an instance yields its name and state, or the message of an \<^verbatim>\<open>invalid_argument\<close> exception.\<close>

type_synonym 'st CreateFunc = "name \<Rightarrow> string + name \<times> 'st"
type_synonym 'st Registry = "(name \<times> 'st CreateFunc) list"

record ParsedInstanceName =
  strategyName :: name
  version :: "nat option"
  parameters :: name

fun parse_loop :: "(component \<Rightarrow> nat option) \<Rightarrow> name \<Rightarrow> nat \<Rightarrow> ParsedInstanceName" where
  "parse_loop versionOf input 0 = \<lparr>strategyName = input, version = None, parameters = []\<rparr>"
| "parse_loop versionOf input (Suc i) = (case versionOf (input ! Suc i) of
       Some v \<Rightarrow> \<lparr>strategyName = take (Suc (Suc i)) input, version = Some v, parameters = drop (Suc (Suc i)) input\<rparr>
     | None \<Rightarrow> parse_loop versionOf input i)"

definition parseInstanceName :: "(component \<Rightarrow> nat option) \<Rightarrow> name \<Rightarrow> ParsedInstanceName" where
  "parseInstanceName versionOf input = parse_loop versionOf input (length input - 1)"

definition makeInstanceName :: "(component \<Rightarrow> nat option) \<Rightarrow> name \<Rightarrow> name \<Rightarrow> name option" where
  "makeInstanceName versionOf input sname = do {
     assert (sname \<noteq> []);
     assert (versionOf (last sname) \<noteq> None);
     let hasVersion = list_ex (\<lambda>c. versionOf c \<noteq> None) (rev input);
     Some (if hasVersion then input else input @ [last sname])
   }"

definition registry_lower_bound :: "comp_less \<Rightarrow> name \<Rightarrow> 'st Registry \<Rightarrow> nat" where
  "registry_lower_bound lt key registry = length (takeWhile (\<lambda>item. name_compare lt (fst item) key < 0) registry)"

definition registerType :: "comp_less \<Rightarrow> (component \<Rightarrow> nat option) \<Rightarrow> name \<Rightarrow> 'st CreateFunc \<Rightarrow> 'st Registry \<Rightarrow>
    'st Registry option" where
  "registerType lt versionOf sname create registry = do {
     assert (1 < length sname);
     assert (versionOf (last sname) \<noteq> None);
     assert (sname \<notin> fst ` set registry);
     let i = registry_lower_bound lt sname registry;
     Some (take i registry @ (sname, create) # drop i registry)
   }"

definition Strategy_find :: "comp_less \<Rightarrow> (name \<Rightarrow> name) \<Rightarrow> (component \<Rightarrow> nat option) \<Rightarrow> 'st Registry \<Rightarrow> name \<Rightarrow> nat" where
  "Strategy_find lt successor versionOf registry instanceName =
     (let parsed = parseInstanceName versionOf instanceName;
          sname = strategyName parsed;
          end = length registry
      in if version parsed \<noteq> None then
           (let found = registry_lower_bound lt sname registry
            in if found \<noteq> end \<and> prefix (butlast sname) (fst (registry ! found)) then found else end)
         else if sname \<noteq> [] then
           (let found = registry_lower_bound lt (successor sname) registry
            in if found \<noteq> 0 \<and> prefix sname (fst (registry ! (found - 1))) then found - 1 else end)
         else end)"

definition canCreate :: "comp_less \<Rightarrow> (name \<Rightarrow> name) \<Rightarrow> (component \<Rightarrow> nat option) \<Rightarrow> 'st Registry \<Rightarrow> name \<Rightarrow> bool" where
  "canCreate lt successor versionOf registry instanceName \<longleftrightarrow>
     Strategy_find lt successor versionOf registry instanceName \<noteq> length registry"

text \<open>A null pointer is \<open>Inr None\<close>; an exception of the constructor is \<open>Inl\<close>.\<close>

definition Strategy_create :: "comp_less \<Rightarrow> (name \<Rightarrow> name) \<Rightarrow> (component \<Rightarrow> nat option) \<Rightarrow> 'st Registry \<Rightarrow> name \<Rightarrow>
    (string + (name \<times> 'st) option) option" where
  "Strategy_create lt successor versionOf registry instanceName =
     (let found = Strategy_find lt successor versionOf registry instanceName
      in if found = length registry then Some (Inr None)
         else (case snd (registry ! found) instanceName of
             Inl what \<Rightarrow> Some (Inl what)
           | Inr inst \<Rightarrow> do { assert (fst inst \<noteq> []); Some (Inr (Some inst)) }))"

definition areSameType :: "comp_less \<Rightarrow> (name \<Rightarrow> name) \<Rightarrow> (component \<Rightarrow> nat option) \<Rightarrow> 'st Registry \<Rightarrow> name \<Rightarrow> name \<Rightarrow> bool" where
  "areSameType lt successor versionOf registry a b \<longleftrightarrow>
     Strategy_find lt successor versionOf registry a = Strategy_find lt successor versionOf registry b"

definition listRegistered :: "'st Registry \<Rightarrow> name set" where
  "listRegistered registry = set (map fst registry)"

subsection \<open>Parsing instance names\<close>

lemma parse_loop_None:
  "i < length input \<or> i = 0 \<Longrightarrow> version (parse_loop versionOf input i) = None \<Longrightarrow>
   strategyName (parse_loop versionOf input i) = input \<and> (\<forall>j. 0 < j \<longrightarrow> j \<le> i \<longrightarrow> versionOf (input ! j) = None)"
  by (induction versionOf input i rule: parse_loop.induct) (auto split: option.splits simp: le_Suc_eq)

lemma parse_loop_Some:
  "i < length input \<or> i = 0 \<Longrightarrow> version (parse_loop versionOf input i) = Some v \<Longrightarrow>
   \<exists>k. 0 < k \<and> k \<le> i \<and> versionOf (input ! k) = Some v \<and> strategyName (parse_loop versionOf input i) = take (Suc k) input \<and>
     parameters (parse_loop versionOf input i) = drop (Suc k) input \<and> (\<forall>j. k < j \<longrightarrow> j \<le> i \<longrightarrow> versionOf (input ! j) = None)"
proof (induction versionOf input i rule: parse_loop.induct)
  case (2 versionOf input i)
  show ?case
  proof (cases "versionOf (input ! Suc i)")
    case None
    then obtain k where "0 < k" "k \<le> i" "versionOf (input ! k) = Some v"
      "strategyName (parse_loop versionOf input i) = take (Suc k) input"
      "parameters (parse_loop versionOf input i) = drop (Suc k) input" "\<forall>j. k < j \<longrightarrow> j \<le> i \<longrightarrow> versionOf (input ! j) = None"
      using 2 by auto
    then show ?thesis using None by (intro exI [of _ k]) (auto simp: le_Suc_eq)
  next
    case (Some w)
    then show ?thesis using "2.prems" by (intro exI [of _ "Suc i"]) simp
  qed
qed simp

lemma parse_start: "length xs - 1 < length xs \<or> length xs - 1 = 0"
  by (cases xs) simp_all

lemma parse_versioned:
  assumes "version (parseInstanceName versionOf input) = Some v"
  shows "1 < length (strategyName (parseInstanceName versionOf input))"
    and "versionOf (last (strategyName (parseInstanceName versionOf input))) = Some v"
    and "input = strategyName (parseInstanceName versionOf input) @ parameters (parseInstanceName versionOf input)"
proof -
  obtain k where k: "0 < k" "k \<le> length input - 1" "versionOf (input ! k) = Some v"
    "strategyName (parseInstanceName versionOf input) = take (Suc k) input"
    "parameters (parseInstanceName versionOf input) = drop (Suc k) input"
    using parse_loop_Some [OF parse_start assms [unfolded parseInstanceName_def]] unfolding parseInstanceName_def by blast
  then have l: "k < length input" by simp
  show "1 < length (strategyName (parseInstanceName versionOf input))" unfolding k(4) using k(1) l by simp
  show "versionOf (last (strategyName (parseInstanceName versionOf input))) = Some v"
    unfolding k(4) using k(3) l by (simp add: take_Suc_conv_app_nth)
  show "input = strategyName (parseInstanceName versionOf input) @ parameters (parseInstanceName versionOf input)"
    unfolding k(4,5) by simp
qed

subsection \<open>The order of the registry\<close>

abbreviation registry_ok :: "comp_less \<Rightarrow> 'st Registry \<Rightarrow> bool" where
  "registry_ok lt registry \<equiv> sorted_wrt (\<lambda>a b. name_compare lt (fst a) (fst b) < 0) registry"

lemma lower_bound_nth:
  assumes "strict_order lt" and "registry_ok lt registry" and "i < length registry"
  shows "name_compare lt (fst (registry ! i)) key < 0 \<longleftrightarrow> i < registry_lower_bound lt key registry"
  using assms(2,3)
proof (induction registry arbitrary: i)
  case (Cons x xs)
  show ?case
  proof (cases "name_compare lt (fst x) key < 0")
    case True
    then show ?thesis using Cons by (cases i) (auto simp: registry_lower_bound_def)
  next
    case False
    have "\<not> name_compare lt (fst ((x # xs) ! i)) key < 0"
    proof (cases i)
      case (Suc j)
      then have "name_compare lt (fst x) (fst (xs ! j)) < 0" using Cons.prems by simp
      then show ?thesis using False name_compare_trans [OF assms(1)] Suc by auto
    qed (use False in simp)
    then show ?thesis using False by (simp add: registry_lower_bound_def)
  qed
qed simp

lemma lower_bound_le: "registry_lower_bound lt key registry \<le> length registry"
  by (simp add: registry_lower_bound_def length_takeWhile_le)

lemma registry_nth_less:
  assumes "strict_order lt" and "registry_ok lt registry" and "i < length registry" and "j < length registry"
  shows "name_compare lt (fst (registry ! i)) (fst (registry ! j)) < 0 \<longleftrightarrow> i < j"
proof -
  have up: "name_compare lt (fst (registry ! a)) (fst (registry ! b)) < 0" if "a < b" "b < length registry" for a b
    using sorted_wrt_nth_less [OF assms(2) that] .
  show ?thesis
  proof (cases "i < j")
    case False
    have "\<not> name_compare lt (fst (registry ! i)) (fst (registry ! j)) < 0"
    proof (cases "i = j")
      case ne: False
      then have "j < i" using False by simp
      from up [OF this assms(3)] have "0 < name_compare lt (fst (registry ! i)) (fst (registry ! j))"
        using name_compare_pos [OF assms(1)] by blast
      then show ?thesis by simp
    qed simp
    then show ?thesis using False by simp
  qed (use up assms in simp)
qed

lemma not_less_name: "strict_order lt \<Longrightarrow> \<not> name_compare lt b m < 0 \<Longrightarrow> m = b \<or> name_compare lt m b < 0"
  using name_compare_pos [of lt b m] name_compare_zero [of lt b m] by (cases "name_compare lt b m = 0") auto

text \<open>The names under a prefix are an interval of the order.\<close>

lemma prefix_interval:
  assumes "strict_order lt" and "successor_law lt successor" and "p \<noteq> []" and "prefix p a" and "prefix p b"
    and "\<not> name_compare lt m a < 0" and "\<not> name_compare lt b m < 0"
  shows "prefix p m"
proof -
  have law: "name_compare lt m (successor p) < 0 \<longleftrightarrow> name_compare lt m p < 0 \<or> prefix p m" for m
    using assms(2,3) unfolding successor_law_def by blast
  have b: "name_compare lt b (successor p) < 0" unfolding law using assms(5) by simp
  have "m = b \<or> name_compare lt m b < 0" by (rule not_less_name [OF assms(1,7)])
  then have "name_compare lt m (successor p) < 0" using b name_compare_trans [OF assms(1)] by blast
  then have "name_compare lt m p < 0 \<or> prefix p m" unfolding law .
  moreover have "\<not> name_compare lt m p < 0"
  proof
    assume l: "name_compare lt m p < 0"
    have "\<not> name_compare lt a p < 0" by (rule name_compare_prefix [OF assms(4)])
    then have "p = a \<or> name_compare lt p a < 0" by (rule not_less_name [OF assms(1)])
    then have "name_compare lt m a < 0" using l name_compare_trans [OF assms(1)] by blast
    then show False using assms(6) by simp
  qed
  ultimately show ?thesis by blast
qed

lemma find_versioned:
  assumes "strict_order lt" and "successor_law lt successor" and "registry_ok lt registry"
    and "version (parseInstanceName versionOf name) = Some v"
  defines "s \<equiv> strategyName (parseInstanceName versionOf name)"
  defines "i \<equiv> Strategy_find lt successor versionOf registry name"
  shows "i < length registry \<and> prefix (butlast s) (fst (registry ! i)) \<and> \<not> name_compare lt (fst (registry ! i)) s < 0 \<and>
      (\<forall>j<i. name_compare lt (fst (registry ! j)) s < 0) \<or>
    i = length registry \<and> (\<forall>j<length registry. \<not> (prefix (butlast s) (fst (registry ! j)) \<and>
      \<not> name_compare lt (fst (registry ! j)) s < 0))"
proof -
  let ?f = "registry_lower_bound lt s registry"
  have i: "i = (if ?f \<noteq> length registry \<and> prefix (butlast s) (fst (registry ! ?f)) then ?f else length registry)"
    using assms(4) by (simp add: i_def Strategy_find_def Let_def s_def)
  have le: "?f \<le> length registry" by (rule lower_bound_le)
  note nth = lower_bound_nth [OF assms(1,3), of _ s]
  have p: "butlast s \<noteq> []" using parse_versioned(1) [OF assms(4)] unfolding s_def [symmetric] by (cases s) auto
  have ps: "prefix (butlast s) s" by (metis append_butlast_last_id butlast.simps(1) prefixI prefix_order.refl)
  show ?thesis
  proof (cases "?f \<noteq> length registry \<and> prefix (butlast s) (fst (registry ! ?f))")
    case True
    then have l: "?f < length registry" using le by simp
    have "\<not> name_compare lt (fst (registry ! ?f)) s < 0" using nth [OF l] by simp
    moreover have "name_compare lt (fst (registry ! j)) s < 0" if "j < ?f" for j using nth [of j] that l by simp
    ultimately show ?thesis using i True l by simp
  next
    case False
    have "\<not> (prefix (butlast s) (fst (registry ! j)) \<and> \<not> name_compare lt (fst (registry ! j)) s < 0)" if j: "j < length registry" for j
    proof
      assume a: "prefix (butlast s) (fst (registry ! j)) \<and> \<not> name_compare lt (fst (registry ! j)) s < 0"
      then have fj: "?f \<le> j" using nth [OF j] by simp
      then have l: "?f < length registry" using j by simp
      have "\<not> name_compare lt (fst (registry ! ?f)) s < 0" using nth [OF l] by simp
      moreover have "\<not> name_compare lt (fst (registry ! j)) (fst (registry ! ?f)) < 0"
        using registry_nth_less [OF assms(1,3) j l] fj by simp
      ultimately have "prefix (butlast s) (fst (registry ! ?f))"
        using prefix_interval [OF assms(1,2) p ps conjunct1 [OF a]] by blast
      then show False using False l by simp
    qed
    then show ?thesis using i False by simp
  qed
qed

lemma find_unversioned:
  assumes "strict_order lt" and "successor_law lt successor" and "registry_ok lt registry"
    and "version (parseInstanceName versionOf name) = None" and "name \<noteq> []"
  defines "i \<equiv> Strategy_find lt successor versionOf registry name"
  shows "i < length registry \<and> prefix name (fst (registry ! i)) \<and>
      (\<forall>j<length registry. prefix name (fst (registry ! j)) \<longrightarrow> j \<le> i) \<or>
    i = length registry \<and> (\<forall>j<length registry. \<not> prefix name (fst (registry ! j)))"
proof -
  let ?f = "registry_lower_bound lt (successor name) registry"
  have s: "strategyName (parseInstanceName versionOf name) = name"
    using parse_loop_None [OF parse_start assms(4) [unfolded parseInstanceName_def]] unfolding parseInstanceName_def by blast
  have i: "i = (if ?f \<noteq> 0 \<and> prefix name (fst (registry ! (?f - 1))) then ?f - 1 else length registry)"
    using assms(4,5) by (simp add: i_def Strategy_find_def Let_def s)
  have le: "?f \<le> length registry" by (rule lower_bound_le)
  have law: "name_compare lt m (successor name) < 0 \<longleftrightarrow> name_compare lt m name < 0 \<or> prefix name m" for m
    using assms(2,5) unfolding successor_law_def by blast
  have nth: "name_compare lt (fst (registry ! j)) name < 0 \<or> prefix name (fst (registry ! j)) \<longleftrightarrow> j < ?f" if "j < length registry" for j
    using lower_bound_nth [OF assms(1,3) that, of "successor name"] unfolding law .
  show ?thesis
  proof (cases "?f \<noteq> 0 \<and> prefix name (fst (registry ! (?f - 1)))")
    case True
    have "j \<le> ?f - 1" if "j < length registry" "prefix name (fst (registry ! j))" for j
      using nth [OF that(1)] that(2) by simp
    then show ?thesis using i True le by auto
  next
    case False
    then have e: "i = length registry" using i by auto
    have "\<not> prefix name (fst (registry ! j))" if j: "j < length registry" for j
    proof
      assume p: "prefix name (fst (registry ! j))"
      then have jf: "j < ?f" using nth [OF j] by simp
      then have l: "?f - 1 < length registry" using le by simp
      have np: "\<not> prefix name (fst (registry ! (?f - 1)))" using False jf by simp
      then have "name_compare lt (fst (registry ! (?f - 1))) name < 0" using nth [OF l] jf by simp
      moreover have "j < ?f - 1" using p np jf by (cases "j = ?f - 1") auto
      then have "name_compare lt (fst (registry ! j)) (fst (registry ! (?f - 1))) < 0"
        using registry_nth_less [OF assms(1,3) j l] by simp
      ultimately have "name_compare lt (fst (registry ! j)) name < 0" using name_compare_trans [OF assms(1)] by blast
      then show False using name_compare_prefix [OF p] by simp
    qed
    then show ?thesis using e by simp
  qed
qed

text \<open>C26: looking up a strategy program: for an instance name with a version the result is the
  first registered name, in canonical order, that is not below the strategy name, if it is
  the same program, that is, the exact or next higher version, and the end when no such name
  is registered; for an instance name without a version it is the last registered name under
  it, the highest version, and the end when there is none.\<close>

theorem Strategy_find_spec:
  fixes versionOf :: "component \<Rightarrow> nat option"
  assumes "strict_order lt" and "successor_law lt successor" and "registry_ok lt registry" and "name \<noteq> []"
  defines "i \<equiv> Strategy_find lt successor versionOf registry name"
    and "s \<equiv> strategyName (parseInstanceName versionOf name)"
  shows "(case version (parseInstanceName versionOf name) of
      Some v \<Rightarrow> i < length registry \<and> prefix (butlast s) (fst (registry ! i)) \<and>
          \<not> name_compare lt (fst (registry ! i)) s < 0 \<and> (\<forall>j<i. name_compare lt (fst (registry ! j)) s < 0) \<or>
        i = length registry \<and>
          (\<forall>j<length registry. \<not> (prefix (butlast s) (fst (registry ! j)) \<and> \<not> name_compare lt (fst (registry ! j)) s < 0))
    | None \<Rightarrow> i < length registry \<and> prefix name (fst (registry ! i)) \<and>
          (\<forall>j<length registry. prefix name (fst (registry ! j)) \<longrightarrow> j \<le> i) \<or>
        i = length registry \<and> (\<forall>j<length registry. \<not> prefix name (fst (registry ! j))))"
  using find_versioned [OF assms(1-3)] find_unversioned [OF assms(1-3) _ assms(4)] unfolding i_def s_def
  by (cases "version (parseInstanceName versionOf name)") auto

abbreviation example_version :: "component \<Rightarrow> nat option" where
  "example_version c \<equiv> (if type c = 35 then Some (length (value_bytes c)) else None)"

definition example_registry :: "nat Registry" where
  "example_registry = [([Generic ''s'', Component 35 ''1''], \<lambda>n. Inr (n, 1)), ([Generic ''s'', Component 35 ''11''], \<lambda>n. Inr (n, 2))]"

lemma example_registry_ok: "registry_ok octet_less example_registry"
  by (simp add: example_registry_def comp_compare_def octet_less_def octet_key_def)

theorem Strategy_find_spec_witness:
  "prefix [Generic ''s''] (fst (example_registry ! Strategy_find octet_less octet_successor example_version example_registry [Generic ''s'']))
   \<and> Strategy_find octet_less octet_successor example_version example_registry [Generic ''s''] = 1"
proof -
  have v: "version (parseInstanceName example_version [Generic ''s'']) = None" by (simp add: parseInstanceName_def)
  note f = Strategy_find_spec [OF strict_order_octet successor_law_octet example_registry_ok,
      of "[Generic ''s'']" example_version, unfolded v option.case]
  have p: "1 < length example_registry" "prefix [Generic ''s''] (fst (example_registry ! 1))" "length example_registry = 2"
    by (simp_all add: example_registry_def)
  then show ?thesis using f by (auto simp: less_2_cases_iff)
qed

text \<open>Instance names round-trip: a strategy name followed by parameters that hold no version
  parses into exactly these parts; and completing a name without a version by the version of
  a strategy name gives an instance name that parses back into the name and that version,
  while a name that has a version already is kept.\<close>

theorem instance_name_roundtrip:
  assumes "versionOf c = Some v" and "\<forall>d\<in>set params. versionOf d = None" and "sname \<noteq> []"
  shows "parseInstanceName versionOf (sname @ c # params) =
      \<lparr>strategyName = sname @ [c], version = Some v, parameters = params\<rparr> \<and>
    makeInstanceName versionOf (sname @ c # params) (other @ [c]) = Some (sname @ c # params) \<and>
    ((\<forall>d\<in>set sname. versionOf d = None) \<longrightarrow>
      makeInstanceName versionOf sname (other @ [c]) = Some (sname @ [c]) \<and>
      parseInstanceName versionOf (sname @ [c]) = \<lparr>strategyName = sname @ [c], version = Some v, parameters = []\<rparr>)"
proof -
  have loop: "parse_loop versionOf (sname @ c # ps) (length sname + k) =
      \<lparr>strategyName = sname @ [c], version = Some v, parameters = ps\<rparr>"
    if "\<forall>d\<in>set ps. versionOf d = None" "k \<le> length ps" for ps k
    using that(2)
  proof (induction k)
    case 0
    obtain m where m: "length sname = Suc m" using assms(3) by (cases sname) auto
    have n: "(sname @ c # ps) ! Suc m = c" "take (Suc (Suc m)) (sname @ c # ps) = sname @ [c]" "drop (Suc (Suc m)) (sname @ c # ps) = ps"
      unfolding m [symmetric] by simp_all
    show ?case using assms(1) unfolding add_0_right m parse_loop.simps n by simp
  next
    case (Suc k)
    have "(sname @ c # ps) ! (Suc (length sname + k)) = ps ! k" by (simp add: nth_append)
    then show ?case using Suc that(1) by simp
  qed
  have parse: "parseInstanceName versionOf (sname @ c # ps) = \<lparr>strategyName = sname @ [c], version = Some v, parameters = ps\<rparr>"
    if "\<forall>d\<in>set ps. versionOf d = None" for ps
    using loop [OF that order_refl] by (simp add: parseInstanceName_def)
  show ?thesis using parse [OF assms(2)] parse [of "[]"] assms(1,2) by (simp add: makeInstanceName_def list_ex_iff)
qed

theorem instance_name_roundtrip_witness:
  "parseInstanceName example_version [Generic ''s'', Component 35 ''1'', Generic ''p''] =
     \<lparr>strategyName = [Generic ''s'', Component 35 ''1''], version = Some 1, parameters = [Generic ''p'']\<rparr> \<and>
   makeInstanceName example_version [Generic ''s''] [Generic ''t'', Component 35 ''1''] = Some [Generic ''s'', Component 35 ''1'']"
  using instance_name_roundtrip [of example_version "Component 35 ''1''" 1 "[Generic ''p'']" "[Generic ''s'']" "[Generic ''t'']"] by simp

end
