(* ===== verification/Strategy_Choice.thy ===== *)
theory Strategy_Choice
  imports Strategy_Registry Pit Measurements Partial_Enumeration
begin

text \<open>
  \<^verbatim>\<open>daemon/table/strategy-choice.{hpp,cpp}\<close>, \<^verbatim>\<open>strategy-choice-entry.{hpp,cpp}\<close> and
  \<^verbatim>\<open>measurements-accessor.{hpp,cpp}\<close>: which strategy instance owns which prefix.  An instance is owned by
  one entry (a \<^verbatim>\<open>unique_ptr\<close>) and deleted with it; \<open>strategies\<close> maps the addresses of the live
  instances to their instance name and state.  Changing the strategy of a prefix to one of a
  different type clears the strategy information of the entries it owned.

  The lemmas: the table refines a map from prefixes to instance names; failed insertions
  change nothing; exactly the owned entries are cleared; no instance leaks or dangles.
\<close>

record 'st strategy_env =
  env_less :: comp_less
  env_successor :: "name \<Rightarrow> name"
  env_versionOf :: "component \<Rightarrow> nat option"
  env_registry :: "'st Registry"

abbreviation create :: "'st strategy_env \<Rightarrow> name \<Rightarrow> (string + (name \<times> 'st) option) option" where
  "create env \<equiv> Strategy_create (env_less env) (env_successor env) (env_versionOf env) (env_registry env)"

abbreviation same_type :: "'st strategy_env \<Rightarrow> name \<Rightarrow> name \<Rightarrow> bool" where
  "same_type env \<equiv> areSameType (env_less env) (env_successor env) (env_versionOf env) (env_registry env)"

subsection \<open>Instances\<close>

definition new_strategy :: "name \<times> 'st \<Rightarrow> ('i, 'st, 'z) tables_scheme \<Rightarrow> ('i, 'st, 'z) tables_scheme \<times> strategy_ref" where
  "new_strategy inst t = (t\<lparr>strategies := (strategies t)(strategy_next t \<mapsto> inst), strategy_next := strategy_next t + 1\<rparr>,
     strategy_next t)"

definition delete_strategy :: "strategy_ref option \<Rightarrow> ('i, 'st, 'z) tables_scheme \<Rightarrow> ('i, 'st, 'z) tables_scheme" where
  "delete_strategy s t = (case s of None \<Rightarrow> t | Some a \<Rightarrow> t\<lparr>strategies := (strategies t)(a := None)\<rparr>)"

definition nteHasStrategyChoiceEntry :: "('f, 'm, 's) nt_entry \<Rightarrow> bool" where
  "nteHasStrategyChoiceEntry nte \<longleftrightarrow> m_strategyChoiceEntry nte \<noteq> None"

text \<open>Replacing the entry of a name deletes the old entry, and with it the instance it owns.\<close>

definition setStrategyChoiceEntry :: "name \<Rightarrow> sc_entry option \<Rightarrow> ('i, 'st, 'z) tables_scheme \<Rightarrow>
    ('i, 'st, 'z) tables_scheme option" where
  "setStrategyChoiceEntry n se t = do {
     nte \<leftarrow> nte_at t n;
     let t = delete_strategy (Option.bind (m_strategyChoiceEntry nte) m_strategy) t;
     Some (modify_nte n (m_strategyChoiceEntry_update (\<lambda>_. se)) t)
   }"

definition setStrategy :: "name \<Rightarrow> strategy_ref option \<Rightarrow> ('i, 'st, 'z) tables_scheme \<Rightarrow>
    ('i, 'st, 'z) tables_scheme option" where
  "setStrategy n s t = do {
     nte \<leftarrow> nte_at t n;
     e \<leftarrow> m_strategyChoiceEntry nte;
     let t = delete_strategy (m_strategy e) t;
     Some (modify_nte n (m_strategyChoiceEntry_update (\<lambda>_. Some (e\<lparr>m_strategy := s\<rparr>))) t)
   }"

definition getStrategy :: "('i, 'st, 'z) tables_scheme \<Rightarrow> name \<Rightarrow> strategy_ref option" where
  "getStrategy t n = do {
     nte \<leftarrow> nte_at t n;
     e \<leftarrow> m_strategyChoiceEntry nte;
     m_strategy e
   }"

definition getInstanceName :: "('i, 'st, 'z) tables_scheme \<Rightarrow> strategy_ref \<Rightarrow> name option" where
  "getInstanceName t s = map_option fst (strategies t s)"

definition getStrategyInstanceName :: "('i, 'st, 'z) tables_scheme \<Rightarrow> name \<Rightarrow> name option" where
  "getStrategyInstanceName t n = do { s \<leftarrow> getStrategy t n; getInstanceName t s }"

subsection \<open>The table\<close>

definition findEffectiveStrategy :: "('i, 'st, 'z) tables_scheme \<Rightarrow> name \<Rightarrow> strategy_ref option" where
  "findEffectiveStrategy t pfx = do {
     nte \<leftarrow> findLongestPrefixMatch (nameTree t) pfx nteHasStrategyChoiceEntry;
     n \<leftarrow> nte;
     getStrategy t n
   }"

definition findEffectiveStrategy_pit :: "('i, 'st, 'z) tables_scheme \<Rightarrow> 'i pit_entry \<Rightarrow> strategy_ref option" where
  "findEffectiveStrategy_pit t pe = do {
     nte \<leftarrow> findLongestPrefixMatch_pit (nameTree t) (pit_name pe) (m_nameTreeEntry pe) nteHasStrategyChoiceEntry;
     n \<leftarrow> nte;
     getStrategy t n
   }"

definition findEffectiveStrategy_measurements :: "('i, 'st, 'z) tables_scheme \<Rightarrow> name \<Rightarrow> strategy_ref option" where
  "findEffectiveStrategy_measurements t m = do {
     nte \<leftarrow> findLongestPrefixMatch_entry (nameTree t) m nteHasStrategyChoiceEntry;
     n \<leftarrow> nte;
     getStrategy t n
   }"

definition clear_pit_info :: "'i pit_entry \<Rightarrow> 'i pit_entry" where
  "clear_pit_info e = e\<lparr>pit_info := [], m_inRecords := map (fr_info_update (\<lambda>_. [])) (m_inRecords e),
     m_outRecords := map (fr_info_update (\<lambda>_. [])) (m_outRecords e)\<rparr>"

fun clear_pit_entries :: "pit_ref list \<Rightarrow> ('i, 'st, 'z) tables_scheme \<Rightarrow> ('i, 'st, 'z) tables_scheme option" where
  "clear_pit_entries [] t = Some t"
| "clear_pit_entries (r # rs) t = do {
     pe \<leftarrow> pit_heap t r;
     clear_pit_entries rs (modify_pit r clear_pit_info t)
   }"

definition clearStrategyInfo :: "name \<Rightarrow> ('i, 'st, 'z) tables_scheme \<Rightarrow> ('i, 'st, 'z) tables_scheme option" where
  "clearStrategyInfo n t = do {
     nte \<leftarrow> nte_at t n;
     t \<leftarrow> clear_pit_entries (m_pitEntries nte) t;
     Some (if m_measurementsEntry nte \<noteq> None
       then modify_nte n (m_measurementsEntry_update (map_option (meas_info_update (\<lambda>_. [])))) t else t)
   }"

fun clear_all :: "name list \<Rightarrow> ('i, 'st, 'z) tables_scheme \<Rightarrow> ('i, 'st, 'z) tables_scheme option" where
  "clear_all [] t = Some t"
| "clear_all (n # ns) t = do { t \<leftarrow> clearStrategyInfo n t; clear_all ns t }"

text \<open>The part of the tree that the entry at \<open>rootNte\<close> owns.\<close>

definition owned_part :: "name \<Rightarrow> ('f, 'm, 's) nt_entry \<Rightarrow> bool \<times> bool" where
  "owned_part rootNte nte =
     (if m_name nte = rootNte then (True, True)
      else if m_strategyChoiceEntry nte \<noteq> None then (False, False)
      else (True, True))"

definition changeStrategy :: "'st strategy_env \<Rightarrow> name \<Rightarrow> strategy_ref \<Rightarrow> strategy_ref \<Rightarrow> ('i, 'st, 'z) tables_scheme \<Rightarrow>
    ('i, 'st, 'z) tables_scheme option" where
  "changeStrategy env n oldStrategy newStrategy t = do {
     oldInstanceName \<leftarrow> getInstanceName t oldStrategy;
     newInstanceName \<leftarrow> getInstanceName t newStrategy;
     if same_type env oldInstanceName newInstanceName then Some t
     else do {
       ntChanged \<leftarrow> partialEnumerate (nameTree t) n (owned_part n);
       clear_all ntChanged t
     }
   }"

text \<open>
  The line that logs the instance name reads it through \<^verbatim>\<open>getStrategy\<close>, whose assertion fails when the
  default strategy is not registered.
\<close>

definition setDefaultStrategy :: "'st strategy_env \<Rightarrow> name \<Rightarrow> ('i, 'st, 'z) tables_scheme \<Rightarrow> ('i, 'st, 'z) tables_scheme option" where
  "setDefaultStrategy env sname t = do {
     c \<leftarrow> create env sname;
     inst \<leftarrow> (case c of Inl what \<Rightarrow> None | Inr p \<Rightarrow> p);
     let (t, s) = new_strategy inst t;
     (nt, n) \<leftarrow> lookup [] 0 (nameTree t);
     let t = t\<lparr>nameTree := nt\<rparr>;
     t \<leftarrow> setStrategyChoiceEntry n (Some ((strategy_choice_Entry [])\<lparr>m_strategy := Some s\<rparr>)) t;
     Some (t\<lparr>sc_nItems := sc_nItems t + 1\<rparr>)
   }"

datatype InsertResult = OK | NOT_REGISTERED | EXCEPTION string | DEPTH_EXCEEDED

definition getStatusCode :: "InsertResult \<Rightarrow> int" where
  "getStatusCode r = (case r of OK \<Rightarrow> 200 | NOT_REGISTERED \<Rightarrow> 404 | EXCEPTION e \<Rightarrow> 409 | DEPTH_EXCEEDED \<Rightarrow> 414)"

definition isRegistered :: "InsertResult \<Rightarrow> bool" where
  "isRegistered r \<longleftrightarrow> (case r of OK \<Rightarrow> True | EXCEPTION e \<Rightarrow> True | _ \<Rightarrow> False)"

text \<open>The part of \<^verbatim>\<open>insert\<close> from the lookup in the name tree on, for the new instance \<open>strategy\<close>.\<close>

definition sc_insert_at :: "'st strategy_env \<Rightarrow> name \<Rightarrow> strategy_ref \<Rightarrow> ('i, 'st, 'z) tables_scheme \<Rightarrow>
    (('i, 'st, 'z) tables_scheme \<times> InsertResult) option" where
  "sc_insert_at env pfx strategy t = do {
     (nt, n) \<leftarrow> lookup pfx (length pfx) (nameTree t);
     let t = t\<lparr>nameTree := nt\<rparr>;
     nte \<leftarrow> nte_at t n;
     case m_strategyChoiceEntry nte of
       Some e \<Rightarrow> do {
         oldName \<leftarrow> getStrategyInstanceName t n;
         newName \<leftarrow> getInstanceName t strategy;
         if oldName = newName then Some (delete_strategy (Some strategy) t, OK)
         else do {
           oldStrategy \<leftarrow> getStrategy t n;
           t \<leftarrow> changeStrategy env n oldStrategy strategy t;
           t \<leftarrow> setStrategy n (Some strategy) t;
           Some (t, OK)
         }
       }
     | None \<Rightarrow> do {
         oldStrategy \<leftarrow> findEffectiveStrategy t pfx;
         t \<leftarrow> setStrategyChoiceEntry n (Some (strategy_choice_Entry pfx)) t;
         let t = t\<lparr>sc_nItems := sc_nItems t + 1\<rparr>;
         t \<leftarrow> changeStrategy env n oldStrategy strategy t;
         t \<leftarrow> setStrategy n (Some strategy) t;
         Some (t, OK)
       }
   }"

definition sc_insert :: "'st strategy_env \<Rightarrow> name \<Rightarrow> name \<Rightarrow> ('i, 'st, 'z) tables_scheme \<Rightarrow>
    (('i, 'st, 'z) tables_scheme \<times> InsertResult) option" where
  "sc_insert env pfx sname t =
     (if length pfx > getMaxDepth then Some (t, DEPTH_EXCEEDED)
      else do {
        c \<leftarrow> create env sname;
        case c of
          Inl what \<Rightarrow> Some (t, EXCEPTION what)
        | Inr None \<Rightarrow> Some (t, NOT_REGISTERED)
        | Inr (Some inst) \<Rightarrow> (let (t, strategy) = new_strategy inst t in sc_insert_at env pfx strategy t)
      })"

definition sc_erase :: "'st strategy_env \<Rightarrow> name \<Rightarrow> ('i, 'st, 'z) tables_scheme \<Rightarrow> ('i, 'st, 'z) tables_scheme option" where
  "sc_erase env pfx t = do {
     assert (pfx \<noteq> []);
     nte \<leftarrow> findExactMatch (nameTree t) pfx (length pfx);
     case nte of
       None \<Rightarrow> Some t
     | Some n \<Rightarrow> do {
         e \<leftarrow> nte_at t n;
         if m_strategyChoiceEntry e = None then Some t
         else do {
           oldStrategy \<leftarrow> getStrategy t n;
           parentStrategy \<leftarrow> findEffectiveStrategy t (butlast pfx);
           t \<leftarrow> changeStrategy env n oldStrategy parentStrategy t;
           t \<leftarrow> setStrategyChoiceEntry n None t;
           (nt, _) \<leftarrow> eraseIfEmpty n True (nameTree t);
           let t = t\<lparr>nameTree := nt\<rparr>;
           Some (t\<lparr>sc_nItems := sc_nItems t - 1\<rparr>)
         }
       }
   }"

definition sc_get :: "('i, 'st, 'z) tables_scheme \<Rightarrow> name \<Rightarrow> (bool \<times> name) option" where
  "sc_get t pfx = do {
     nte \<leftarrow> findExactMatch (nameTree t) pfx (length pfx);
     case nte of
       None \<Rightarrow> Some (False, [])
     | Some n \<Rightarrow> do {
         e \<leftarrow> nte_at t n;
         if m_strategyChoiceEntry e = None then Some (False, [])
         else do { iname \<leftarrow> getStrategyInstanceName t n; Some (True, iname) }
       }
   }"

definition sc_getRange :: "('i, 'st, 'z) tables_scheme \<Rightarrow> name list option" where
  "sc_getRange t = fullEnumerate (nameTree t) nteHasStrategyChoiceEntry"

subsection \<open>Access to the measurements table\<close>

definition accessor_filter :: "strategy_ref \<Rightarrow> name option \<Rightarrow> ('i, 'st, 'z) tables_scheme \<Rightarrow> name option option" where
  "accessor_filter strategy e t = (case e of
       None \<Rightarrow> Some None
     | Some n \<Rightarrow> do {
         effectiveStrategy \<leftarrow> findEffectiveStrategy_measurements t n;
         Some (if effectiveStrategy = strategy then Some n else None)
       })"

definition accessor_get :: "strategy_ref \<Rightarrow> time \<Rightarrow> name \<Rightarrow> ('i, 'st, 'z) tables_scheme \<Rightarrow>
    (('i, 'st, 'z) tables_scheme \<times> name option) option" where
  "accessor_get strategy now name t = do {
     (t, n) \<leftarrow> Measurements_get now name t;
     e \<leftarrow> accessor_filter strategy (Some n) t;
     Some (t, e)
   }"

definition accessor_get_pit :: "strategy_ref \<Rightarrow> time \<Rightarrow> pit_ref \<Rightarrow> ('i, 'st, 'z) tables_scheme \<Rightarrow>
    (('i, 'st, 'z) tables_scheme \<times> name option) option" where
  "accessor_get_pit strategy now r t = do {
     (t, n) \<leftarrow> Measurements_get_pit now r t;
     e \<leftarrow> accessor_filter strategy (Some n) t;
     Some (t, e)
   }"

definition accessor_get_fib :: "strategy_ref \<Rightarrow> time \<Rightarrow> fib_ref \<Rightarrow> ('i, 'st, 'z) tables_scheme \<Rightarrow>
    (('i, 'st, 'z) tables_scheme \<times> name option) option" where
  "accessor_get_fib strategy now fibEntry t = do {
     (t, n) \<leftarrow> Measurements_get_fib now fibEntry t;
     e \<leftarrow> accessor_filter strategy (Some n) t;
     Some (t, e)
   }"

definition accessor_getParent :: "strategy_ref \<Rightarrow> time \<Rightarrow> name \<Rightarrow> ('i, 'st, 'z) tables_scheme \<Rightarrow>
    (('i, 'st, 'z) tables_scheme \<times> name option) option" where
  "accessor_getParent strategy now child t = do {
     (t, p) \<leftarrow> Measurements_getParent now child t;
     e \<leftarrow> accessor_filter strategy p t;
     Some (t, e)
   }"

definition accessor_findLongestPrefixMatch :: "strategy_ref \<Rightarrow> ('i, 'st, 'z) tables_scheme \<Rightarrow> name \<Rightarrow>
    ('i measurements_entry \<Rightarrow> bool) \<Rightarrow> name option option" where
  "accessor_findLongestPrefixMatch strategy t name pred = do {
     n \<leftarrow> Measurements_findLongestPrefixMatch t name pred;
     accessor_filter strategy n t
   }"

definition accessor_findExactMatch :: "strategy_ref \<Rightarrow> ('i, 'st, 'z) tables_scheme \<Rightarrow> name \<Rightarrow> name option option" where
  "accessor_findExactMatch strategy t name = do {
     n \<leftarrow> Measurements_findExactMatch t name;
     accessor_filter strategy n t
   }"

subsection \<open>The table as a map\<close>

abbreviation sc_view :: "('i, 'st, 'z) tables_scheme \<Rightarrow> name \<Rightarrow> sc_entry option" where
  "sc_view t \<equiv> view m_strategyChoiceEntry None (nameTree t)"

text \<open>
  Every entry is at its prefix and owns one live instance, no two the same; every live
  instance is owned; the root has an entry.
\<close>

definition sc_ok :: "('i, 'st, 'z) tables_scheme \<Rightarrow> bool" where
  "sc_ok t \<longleftrightarrow> pit_ok t \<and> sc_view t [] \<noteq> None \<and>
     (\<forall>n e. sc_view t n = Some e \<longrightarrow> sc_prefix e = n \<and> (\<exists>s. m_strategy e = Some s \<and> strategies t s \<noteq> None)) \<and>
     (\<forall>n m d e. sc_view t n = Some d \<longrightarrow> sc_view t m = Some e \<longrightarrow> m_strategy d = m_strategy e \<longrightarrow> n = m) \<and>
     (\<forall>s. strategies t s \<noteq> None \<longrightarrow> s < strategy_next t \<and> (\<exists>n e. sc_view t n = Some e \<and> m_strategy e = Some s))"

definition sc_names :: "('i, 'st, 'z) tables_scheme \<Rightarrow> name \<Rightarrow> name option" where
  "sc_names t n = Option.bind (sc_view t n) (\<lambda>e. Option.bind (m_strategy e) (getInstanceName t))"

lemma sc_okD:
  assumes "sc_ok t"
  shows "pit_ok t" and "nt_wf (nameTree t)" and "sc_view t [] \<noteq> None"
    and "sc_view t n = Some e \<Longrightarrow> sc_prefix e = n"
    and "sc_view t n = Some e \<Longrightarrow> \<exists>s. m_strategy e = Some s \<and> strategies t s \<noteq> None"
    and "sc_view t n = Some d \<Longrightarrow> sc_view t m = Some e \<Longrightarrow> m_strategy d = m_strategy e \<Longrightarrow> n = m"
    and "strategies t s \<noteq> None \<Longrightarrow> s < strategy_next t"
    and "strategies t s \<noteq> None \<Longrightarrow> \<exists>n e. sc_view t n = Some e \<and> m_strategy e = Some s"
  using assms pit_okD(1) unfolding sc_ok_def by blast+

lemma sc_view_nte: "nte_at t n = Some nte \<Longrightarrow> sc_view t n = m_strategyChoiceEntry nte"
  by (simp add: view_def)

lemma sc_view_exists: "sc_view t n \<noteq> None \<Longrightarrow> nte_at t n \<noteq> None"
  by (auto simp: view_def split: option.splits)

lemma getStrategy_view: "getStrategy t n = Option.bind (sc_view t n) m_strategy"
  by (simp add: getStrategy_def view_def split: option.split)

lemma selected_sc: "selected (nameTree t) nteHasStrategyChoiceEntry = (\<lambda>n. sc_view t n \<noteq> None)"
  by (auto simp: selected_def view_def nteHasStrategyChoiceEntry_def fun_eq_iff split: option.splits)

lemma findEffectiveStrategy_spec:
  assumes "sc_ok t"
  obtains n e s where "lpm (\<lambda>n. sc_view t n \<noteq> None) name = Some n" and "sc_view t n = Some e"
    and "m_strategy e = Some s" and "strategies t s \<noteq> None" and "findEffectiveStrategy t name = Some s"
proof -
  have "lpm (\<lambda>n. sc_view t n \<noteq> None) name \<noteq> None" unfolding lpm_None using sc_okD(3) [OF assms] by (metis Nil_prefix)
  then obtain n where n: "lpm (\<lambda>n. sc_view t n \<noteq> None) name = Some n" by auto
  then obtain e where e: "sc_view t n = Some e" using lpm_Some [OF n] by auto
  then obtain s where s: "m_strategy e = Some s" "strategies t s \<noteq> None" using sc_okD(5) [OF assms] by blast
  have "findEffectiveStrategy t name = Some s"
    using n e s(1) by (simp add: findEffectiveStrategy_def findLongestPrefixMatch_spec [OF sc_okD(2) [OF assms]] selected_sc getStrategy_view)
  then show ?thesis using that n e s by blast
qed

subsection \<open>Clearing strategy information\<close>

lemma pit_ok_heap:
  assumes "pit_ok t" and "nt_wf nt" and "view m_pitEntries [] nt = pit_view t"
    and "\<And>r. h r = map_option (f r) (pit_heap t r)"
    and "\<And>r e. m_interest (f r e) = m_interest e" and "\<And>r e. m_nameTreeEntry (f r e) = m_nameTreeEntry e"
  shows "pit_ok (t\<lparr>nameTree := nt, pit_heap := h\<rparr>)"
proof -
  have att: "attached_at h s n = attached_at (pit_heap t) s n" for s n
    using assms(5,6) by (cases "pit_heap t s") (auto simp: attached_at_def assms(4))
  have orig: "\<exists>d. pit_heap t s = Some d \<and> m_interest d = m_interest e \<and> m_nameTreeEntry d = m_nameTreeEntry e"
    if "h s = Some e" for s e
    using that assms(5,6) by (cases "pit_heap t s") (auto simp: assms(4))
  have sel: "nameTree (t\<lparr>nameTree := nt, pit_heap := h\<rparr>) = nt" "pit_heap (t\<lparr>nameTree := nt, pit_heap := h\<rparr>) = h"
    "pit_next (t\<lparr>nameTree := nt, pit_heap := h\<rparr>) = pit_next t" by simp_all
  show ?thesis
    unfolding pit_ok_def sel att assms(3)
  proof (intro conjI allI impI)
    show "nt_wf nt" by (rule assms(2))
    show "distinct (pit_view t n)" "set (pit_view t n) = {r. attached_at (pit_heap t) r n}" for n
      using pit_okD(2) [OF assms(1)] pit_okD(3) [OF assms(1)] by auto
    fix s e assume "h s = Some e"
    from orig [OF this] obtain d where d: "pit_heap t s = Some d" "m_interest d = m_interest e"
      "m_nameTreeEntry d = m_nameTreeEntry e" by blast
    from d(1) show "s < pit_next t" by (rule pit_okD(4) [OF assms(1)])
    fix n assume "m_nameTreeEntry e = Some n"
    with pit_okD(5) [OF assms(1) d(1), of n] d(2,3) show "n = take (nteDepth (pit_name e)) (pit_name e)" by simp
  next
    fix s s' n d e
    assume a: "attached_at (pit_heap t) s n" "attached_at (pit_heap t) s' n" "h s = Some d" "h s' = Some e" "pit_key d = pit_key e"
    from orig [OF a(3)] orig [OF a(4)] obtain d' e' where "pit_heap t s = Some d'" "pit_heap t s' = Some e'"
      "m_interest d' = m_interest d" "m_interest e' = m_interest e" by blast
    with pit_okD(6) [OF assms(1) a(1,2), of d' e'] a(5) show "s = s'" by simp
  qed
qed

lemma clear_pit_info_keeps [simp]:
  "m_interest (clear_pit_info e) = m_interest e" "m_nameTreeEntry (clear_pit_info e) = m_nameTreeEntry e"
  "clear_pit_info (clear_pit_info e) = clear_pit_info e"
  by (simp_all add: clear_pit_info_def)

definition clear_heap :: "pit_ref set \<Rightarrow> (pit_ref \<Rightarrow> 'i pit_entry option) \<Rightarrow> pit_ref \<Rightarrow> 'i pit_entry option" where
  "clear_heap R h r = map_option (if r \<in> R then clear_pit_info else id) (h r)"

lemma clear_heap_clear_heap [simp]: "clear_heap R (clear_heap S h) = clear_heap (R \<union> S) h"
  by (auto simp: clear_heap_def fun_eq_iff option.map_comp comp_def option.map_ident option.map_id)

lemma clear_heap_empty [simp]: "clear_heap {} h = h"
  by (simp add: clear_heap_def fun_eq_iff option.map_id0)

lemma clear_heap_None [simp]: "clear_heap R h r = None \<longleftrightarrow> h r = None"
  by (simp add: clear_heap_def)

lemma clear_pit_entries_spec:
  "\<forall>r\<in>set rs. pit_heap t r \<noteq> None \<Longrightarrow> clear_pit_entries rs t = Some (t\<lparr>pit_heap := clear_heap (set rs) (pit_heap t)\<rparr>)"
proof (induction rs arbitrary: t)
  case (Cons r rs)
  let ?t = "modify_pit r clear_pit_info t"
  have h: "pit_heap ?t = clear_heap {r} (pit_heap t)" by (auto simp: modify_pit_def clear_heap_def fun_eq_iff option.map_id0)
  have t: "?t\<lparr>pit_heap := k\<rparr> = t\<lparr>pit_heap := k\<rparr>" for k by (simp add: modify_pit_def)
  have "\<forall>r\<in>set rs. pit_heap ?t r \<noteq> None" using Cons.prems unfolding h by simp
  from Cons.IH [OF this] Cons.prems show ?case unfolding t h by (auto simp: Un_commute)
qed simp

abbreviation clear_meas :: "'i measurements_entry \<Rightarrow> 'i measurements_entry" where
  "clear_meas \<equiv> meas_info_update (\<lambda>_. [])"

lemma clearStrategyInfo_spec:
  assumes "pit_ok t" and "nte_at t n \<noteq> None"
  obtains nt where "clearStrategyInfo n t = Some (t\<lparr>nameTree := nt, pit_heap := clear_heap (set (pit_view t n)) (pit_heap t)\<rparr>)"
    and "nt_wf nt" and "\<forall>m. entry_at nt m = None \<longleftrightarrow> nte_at t m = None" and "view m_pitEntries [] nt = pit_view t"
    and "view m_strategyChoiceEntry None nt = sc_view t" and "view m_fibEntry None nt = fib_view t"
    and "view m_measurementsEntry None nt = (meas_view t)(n := map_option clear_meas (meas_view t n))"
proof -
  have wf: "nt_wf (nameTree t)" by (rule pit_okD(1) [OF assms(1)])
  obtain nte where nte: "nte_at t n = Some nte" using assms(2) by blast
  have rs: "m_pitEntries nte = pit_view t n" using nte by (simp add: view_def)
  have live: "\<forall>r\<in>set (pit_view t n). pit_heap t r \<noteq> None"
    using pit_okD(3) [OF assms(1), of _ n] by (auto simp: attached_at_def split: option.splits)
  let ?h = "clear_heap (set (pit_view t n)) (pit_heap t)"
  let ?nt = "modify n (m_measurementsEntry_update (map_option clear_meas)) (nameTree t)"
  have me: "m_measurementsEntry nte = meas_view t n" using nte by (simp add: view_def)
  have base: "clearStrategyInfo n t = Some (t\<lparr>nameTree := if meas_view t n \<noteq> None then ?nt else nameTree t, pit_heap := ?h\<rparr>)"
    using nte clear_pit_entries_spec [OF live] rs me by (simp add: clearStrategyInfo_def modify_nte_def)
  show ?thesis
  proof (cases "meas_view t n")
    case None
    show ?thesis by (rule that [of "nameTree t"]) (use base None wf in \<open>simp_all add: fun_upd_idem\<close>)
  next
    case (Some e)
    have other: "view m_pitEntries [] ?nt = pit_view t" "view m_strategyChoiceEntry None ?nt = sc_view t" "view m_fibEntry None ?nt = fib_view t"
      by (rule meas_field.view_modify_other [OF wf]; simp)+
    have m: "view m_measurementsEntry None ?nt = (meas_view t)(n := map_option clear_meas (meas_view t n))"
      by (rule meas_field.view_modify [OF wf assms(2)])
    show ?thesis
      by (rule that [of ?nt]) (use base Some meas_field.modify_upd [OF wf] other m in \<open>simp_all split: if_splits\<close>)
  qed
qed

lemma clear_all_spec:
  assumes "pit_ok t" and "\<forall>n\<in>set ns. nte_at t n \<noteq> None"
  shows "\<exists>nt. clear_all ns t = Some (t\<lparr>nameTree := nt, pit_heap := clear_heap {r. \<exists>n\<in>set ns. r \<in> set (pit_view t n)} (pit_heap t)\<rparr>) \<and>
    nt_wf nt \<and> (\<forall>m. entry_at nt m = None \<longleftrightarrow> nte_at t m = None) \<and> view m_pitEntries [] nt = pit_view t \<and>
    view m_strategyChoiceEntry None nt = sc_view t \<and> view m_fibEntry None nt = fib_view t \<and>
    view m_measurementsEntry None nt = (\<lambda>n. if n \<in> set ns then map_option clear_meas (meas_view t n) else meas_view t n)"
  using assms
proof (induction ns arbitrary: t)
  case Nil
  then show ?case using pit_okD(1) [of t] by (intro exI [of _ "nameTree t"]) simp
next
  case (Cons n ns)
  then have n: "nte_at t n \<noteq> None" by simp
  obtain nt where nt: "clearStrategyInfo n t = Some (t\<lparr>nameTree := nt, pit_heap := clear_heap (set (pit_view t n)) (pit_heap t)\<rparr>)"
    "nt_wf nt" "\<forall>m. entry_at nt m = None \<longleftrightarrow> nte_at t m = None" "view m_pitEntries [] nt = pit_view t"
    "view m_strategyChoiceEntry None nt = sc_view t" "view m_fibEntry None nt = fib_view t"
    "view m_measurementsEntry None nt = (meas_view t)(n := map_option clear_meas (meas_view t n))"
    using clearStrategyInfo_spec [OF Cons.prems(1) n] .
  let ?t = "t\<lparr>nameTree := nt, pit_heap := clear_heap (set (pit_view t n)) (pit_heap t)\<rparr>"
  have ok: "pit_ok ?t"
    by (rule pit_ok_heap [OF Cons.prems(1) nt(2,4), where f = "\<lambda>r. if r \<in> set (pit_view t n) then clear_pit_info else id"])
      (simp_all add: clear_heap_def)
  have ex: "\<forall>n\<in>set ns. nte_at ?t n \<noteq> None" using Cons.prems(2) nt(3) by simp
  obtain nt' where nt': "clear_all ns ?t = Some (?t\<lparr>nameTree := nt',
      pit_heap := clear_heap {r. \<exists>n\<in>set ns. r \<in> set (pit_view ?t n)} (pit_heap ?t)\<rparr>)"
    "nt_wf nt'" "\<forall>m. entry_at nt' m = None \<longleftrightarrow> nte_at ?t m = None" "view m_pitEntries [] nt' = pit_view ?t"
    "view m_strategyChoiceEntry None nt' = sc_view ?t" "view m_fibEntry None nt' = fib_view ?t"
    "view m_measurementsEntry None nt' = (\<lambda>n. if n \<in> set ns then map_option clear_meas (meas_view ?t n) else meas_view ?t n)"
    using Cons.IH [OF ok ex] by blast
  have set: "{r. \<exists>n\<in>set ns. r \<in> set (pit_view t n)} \<union> set (pit_view t n) = {r. \<exists>n\<in>set (n # ns). r \<in> set (pit_view t n)}" by auto
  have res: "clear_all (n # ns) t = Some (t\<lparr>nameTree := nt',
      pit_heap := clear_heap {r. \<exists>n\<in>set (n # ns). r \<in> set (pit_view t n)} (pit_heap t)\<rparr>)"
    using nt(1) nt'(1) unfolding set [symmetric] by (simp add: nt(4))
  have m: "view m_measurementsEntry None nt' = (\<lambda>k. if k \<in> set (n # ns) then map_option clear_meas (meas_view t k) else meas_view t k)"
    unfolding nt'(7) by (auto simp: nt(7) fun_eq_iff option.map_comp comp_def)
  show ?case using res nt'(2-6) nt(3-6) m by (intro exI [of _ nt']) simp
qed

lemma pit_ok_cong:
  assumes "pit_ok t" and "nt_wf (nameTree t')" and "pit_view t' = pit_view t" and "pit_heap t' = pit_heap t" and "pit_next t' = pit_next t"
  shows "pit_ok t'"
  using assms unfolding pit_ok_def by simp

text \<open>The names with an entry whose effective strategy is the one of the entry at \<open>n\<close>.\<close>

definition owns :: "('i, 'st, 'z) tables_scheme \<Rightarrow> name \<Rightarrow> name \<Rightarrow> bool" where
  "owns t n m \<longleftrightarrow> nte_at t m \<noteq> None \<and> lpm (\<lambda>k. sc_view t k \<noteq> None) m = Some n"

lemma owned_part_want:
  assumes "nt_wf (nameTree t)" and "nte_at t m \<noteq> None"
  shows "want (nameTree t) (owned_part n) m = (if m = n \<or> sc_view t m = None then (True, True) else (False, False))"
proof -
  obtain e where e: "nte_at t m = Some e" using assms(2) by blast
  then have "m_name e = m" using assms(1) tree_okD(1) by (auto simp: nt_wf_def)
  then show ?thesis using e sc_view_nte [OF e] by (simp add: want_def owned_part_def)
qed

lemma owns_walk:
  assumes "nt_wf (nameTree t)" and "sc_view t n \<noteq> None"
  shows "{m. nte_at t n \<noteq> None \<and> nte_at t m \<noteq> None \<and> prefix n m \<and> fst (want (nameTree t) (owned_part n) m) \<and>
      (\<forall>j. length n \<le> j \<longrightarrow> j < length m \<longrightarrow> snd (want (nameTree t) (owned_part n) (take j m)))} = {m. owns t n m}"
proof (rule Collect_cong)
  fix m
  have tr: "tree_ok (entry_at (nameTree t))" using assms(1) by (simp add: nt_wf_def)
  have ex: "nte_at t (take j m) \<noteq> None" if "nte_at t m \<noteq> None" for j using tree_ok_prefix [OF tr that] .
  show "(nte_at t n \<noteq> None \<and> nte_at t m \<noteq> None \<and> prefix n m \<and> fst (want (nameTree t) (owned_part n) m) \<and>
      (\<forall>j. length n \<le> j \<longrightarrow> j < length m \<longrightarrow> snd (want (nameTree t) (owned_part n) (take j m)))) \<longleftrightarrow> owns t n m" (is "?L \<longleftrightarrow> _")
  proof
    assume L: ?L
    then have p: "prefix n m" and m: "nte_at t m \<noteq> None" by auto
    have no: "sc_view t k = None" if k: "prefix k m" "length n < length k" for k
    proof (cases "k = m")
      case True
      then show ?thesis using L owned_part_want [OF assms(1) m, of n] k(2) by (auto split: if_splits)
    next
      case False
      have tk: "take (length k) m = k" by (rule take_of_prefix [OF k(1)])
      have "length k < length m" using k(1) False by (metis le_neq_implies_less prefix_length_le tk take_all order_refl)
      then have "snd (want (nameTree t) (owned_part n) k)" using L k(2) tk by (metis less_imp_le)
      moreover have "nte_at t k \<noteq> None" using ex [OF m, of "length k"] tk by simp
      ultimately show ?thesis using owned_part_want [OF assms(1), of k n] k(2) by (auto split: if_splits)
    qed
    have "lpm (\<lambda>k. sc_view t k \<noteq> None) m = Some n"
      by (rule lpm_unique) (use assms(2) p no in \<open>auto simp: not_less [symmetric]\<close>)
    then show "owns t n m" using m by (simp add: owns_def)
  next
    assume o: "owns t n m"
    then have m: "nte_at t m \<noteq> None" and l: "lpm (\<lambda>k. sc_view t k \<noteq> None) m = Some n" by (simp_all add: owns_def)
    note L = lpm_Some [OF l]
    have p: "prefix n m" using L by blast
    have n: "nte_at t n \<noteq> None" by (rule sc_view_exists [OF assms(2)])
    have no: "take j m = n \<or> sc_view t (take j m) = None" if "length n \<le> j" for j
    proof (cases "j = length n \<or> length m \<le> length n")
      case True
      then show ?thesis using take_of_prefix [OF p] prefix_length_le [OF p] that by (metis le_antisym take_all order_trans)
    next
      case False
      then have "length n < length (take j m)" using that by simp
      then show ?thesis using L take_is_prefix [of j m] by (metis not_le)
    qed
    have want: "want (nameTree t) (owned_part n) (take j m) = (True, True)" if "length n \<le> j" for j
      using owned_part_want [OF assms(1) ex [OF m, of j], of n] no [OF that] by auto
    show ?L using n m p want [OF prefix_length_le [OF p]] want by simp
  qed
qed

abbreviation other_type :: "'st strategy_env \<Rightarrow> ('i, 'st, 'z) tables_scheme \<Rightarrow> strategy_ref \<Rightarrow> strategy_ref \<Rightarrow> bool" where
  "other_type env t a b \<equiv> \<not> same_type env (the (getInstanceName t a)) (the (getInstanceName t b))"

lemma changeStrategy_spec:
  assumes "pit_ok t" and "strategies t a \<noteq> None" and "strategies t b \<noteq> None" and "sc_view t n \<noteq> None"
  obtains nt h where "changeStrategy env n a b t = Some (t\<lparr>nameTree := nt, pit_heap := h\<rparr>)"
    and "pit_ok (t\<lparr>nameTree := nt, pit_heap := h\<rparr>)" and "nt_wf nt" and "\<forall>m. entry_at nt m = None \<longleftrightarrow> nte_at t m = None"
    and "view m_pitEntries [] nt = pit_view t" and "view m_strategyChoiceEntry None nt = sc_view t"
    and "h = (if other_type env t a b then clear_heap {r. \<exists>m. owns t n m \<and> r \<in> set (pit_view t m)} (pit_heap t) else pit_heap t)"
    and "view m_measurementsEntry None nt =
      (\<lambda>m. if other_type env t a b \<and> owns t n m then map_option clear_meas (meas_view t m) else meas_view t m)"
proof -
  have wf: "nt_wf (nameTree t)" by (rule pit_okD(1) [OF assms(1)])
  obtain x y where xy: "getInstanceName t a = Some x" "getInstanceName t b = Some y"
    using assms(2,3) by (auto simp: getInstanceName_def)
  show ?thesis
  proof (cases "same_type env x y")
    case True
    show ?thesis
      by (rule that [where nt = "nameTree t" and h = "pit_heap t"]) (use True xy wf assms(1) in \<open>simp_all add: changeStrategy_def\<close>)
  next
    case False
    obtain ns where ns: "partialEnumerate (nameTree t) n (owned_part n) = Some ns" "set ns = {m. owns t n m}"
      using partialEnumerate_set [OF wf, of n "owned_part n"] unfolding owns_walk [OF wf assms(4)] by blast
    have "\<forall>m\<in>set ns. nte_at t m \<noteq> None" unfolding ns(2) by (simp add: owns_def)
    from clear_all_spec [OF assms(1) this] obtain nt where nt:
      "clear_all ns t = Some (t\<lparr>nameTree := nt, pit_heap := clear_heap {r. \<exists>n\<in>set ns. r \<in> set (pit_view t n)} (pit_heap t)\<rparr>)"
      "nt_wf nt" "\<forall>m. entry_at nt m = None \<longleftrightarrow> nte_at t m = None" "view m_pitEntries [] nt = pit_view t"
      "view m_strategyChoiceEntry None nt = sc_view t"
      "view m_measurementsEntry None nt = (\<lambda>n. if n \<in> set ns then map_option clear_meas (meas_view t n) else meas_view t n)" by blast
    let ?h = "clear_heap {r. \<exists>m. owns t n m \<and> r \<in> set (pit_view t m)} (pit_heap t)"
    have res: "changeStrategy env n a b t = Some (t\<lparr>nameTree := nt, pit_heap := ?h\<rparr>)"
      using xy False ns(1) nt(1) unfolding ns(2) by (simp add: changeStrategy_def Bex_def)
    have ok: "pit_ok (t\<lparr>nameTree := nt, pit_heap := ?h\<rparr>)"
      by (rule pit_ok_heap [OF assms(1) nt(2,4), where
            f = "\<lambda>r. if r \<in> {r. \<exists>m. owns t n m \<and> r \<in> set (pit_view t m)} then clear_pit_info else id"])
        (simp_all add: clear_heap_def)
    show ?thesis by (rule that [OF res ok nt(2-5)]) (use False xy nt(6) ns(2) in simp_all)
  qed
qed

subsection \<open>Inserting and erasing\<close>

lemma findEffectiveStrategy_eq:
  "nt_wf (nameTree t) \<Longrightarrow> findEffectiveStrategy t name =
     Option.bind (lpm (\<lambda>n. sc_view t n \<noteq> None) name) (\<lambda>n. Option.bind (sc_view t n) m_strategy)"
  by (simp add: findEffectiveStrategy_def findLongestPrefixMatch_spec selected_sc getStrategy_view)

lemma modify_sc:
  assumes "pit_ok t" and "nte_at t n \<noteq> None"
  shows "pit_ok (modify_nte n (m_strategyChoiceEntry_update (\<lambda>_. se)) t)"
    and "sc_view (modify_nte n (m_strategyChoiceEntry_update (\<lambda>_. se)) t) = (sc_view t)(n := se)"
    and "nte_at (modify_nte n (m_strategyChoiceEntry_update (\<lambda>_. se)) t) m = None \<longleftrightarrow> nte_at t m = None"
    and "pit_view (modify_nte n (m_strategyChoiceEntry_update (\<lambda>_. se)) t) = pit_view t"
    and "meas_view (modify_nte n (m_strategyChoiceEntry_update (\<lambda>_. se)) t) = meas_view t"
proof -
  let ?t = "modify_nte n (m_strategyChoiceEntry_update (\<lambda>_. se)) t"
  have wf: "nt_wf (nameTree t)" by (rule pit_okD(1) [OF assms(1)])
  have nt: "nameTree ?t = modify n (m_strategyChoiceEntry_update (\<lambda>_. se)) (nameTree t)" by (simp add: modify_nte_def)
  note m = sc_field.modify_upd [OF wf, of n "\<lambda>_. se"]
  show v: "pit_view ?t = pit_view t" "meas_view ?t = meas_view t"
    unfolding nt by (rule sc_field.view_modify_other [OF wf]; simp)+
  show "pit_ok ?t" by (rule pit_ok_cong [OF assms(1)]) (use m v in \<open>simp_all add: modify_nte_def\<close>)
  show "sc_view ?t = (sc_view t)(n := se)" unfolding nt by (rule sc_field.view_modify [OF wf assms(2)])
  show "nte_at ?t m = None \<longleftrightarrow> nte_at t m = None" unfolding nt m(2) by simp
qed

lemma delete_strategy_fields [simp]:
  "nameTree (delete_strategy s t) = nameTree t" "pit_heap (delete_strategy s t) = pit_heap t"
  "pit_next (delete_strategy s t) = pit_next t" "strategy_next (delete_strategy s t) = strategy_next t"
  "sc_nItems (delete_strategy s t) = sc_nItems t"
  "strategies (delete_strategy s t) = (case s of None \<Rightarrow> strategies t | Some a \<Rightarrow> (strategies t)(a := None))"
  by (simp_all add: delete_strategy_def split: option.split)

lemma modify_nte_fields [simp]:
  "pit_heap (modify_nte n f t) = pit_heap t" "pit_next (modify_nte n f t) = pit_next t"
  "strategies (modify_nte n f t) = strategies t" "strategy_next (modify_nte n f t) = strategy_next t"
  "sc_nItems (modify_nte n f t) = sc_nItems t"
  by (simp_all add: modify_nte_def)

lemma pit_ok_delete [simp]: "pit_ok (delete_strategy s t) = pit_ok t"
  by (simp add: pit_ok_def)

lemma pit_ok_sc_fields [simp]:
  "pit_ok (t\<lparr>sc_nItems := k\<rparr>) = pit_ok t" "pit_ok (t\<lparr>strategies := st, strategy_next := j\<rparr>) = pit_ok t"
  by (simp_all add: pit_ok_def)

lemma sc_ok_cong:
  assumes "sc_ok t" and "pit_ok t'" and "sc_view t' = sc_view t" and "strategies t' = strategies t"
    and "strategy_next t \<le> strategy_next t'"
  shows "sc_ok t'"
  unfolding sc_ok_def assms(3,4)
proof (intro conjI allI impI)
  show "pit_ok t'" by (rule assms(2))
  show "sc_view t [] \<noteq> None" by (rule sc_okD(3) [OF assms(1)])
  show "sc_prefix e = n" "\<exists>s. m_strategy e = Some s \<and> strategies t s \<noteq> None" if "sc_view t n = Some e" for n e
    using sc_okD(4,5) [OF assms(1) that] .
  show "n = m" if "sc_view t n = Some d" "sc_view t m = Some e" "m_strategy d = m_strategy e" for n m d e
    by (rule sc_okD(6) [OF assms(1) that])
  show "s < strategy_next t'" if "strategies t s \<noteq> None" for s using sc_okD(7) [OF assms(1) that] assms(5) by simp
  show "\<exists>n e. sc_view t n = Some e \<and> m_strategy e = Some s" if "strategies t s \<noteq> None" for s by (rule sc_okD(8) [OF assms(1) that])
qed

text \<open>Replacing or adding the instance of one prefix.\<close>

definition owned_strategy :: "('i, 'st, 'z) tables_scheme \<Rightarrow> name \<Rightarrow> strategy_ref option" where
  "owned_strategy t n = Option.bind (sc_view t n) m_strategy"

lemma sc_ok_set:
  assumes "sc_ok t" and "pit_ok t'" and "sc_view t' = (sc_view t)(p \<mapsto> \<lparr>sc_prefix = p, m_strategy = Some s\<rparr>)"
    and "s = strategy_next t" and "strategy_next t' = s + 1"
    and "strategies t' = (case owned_strategy t p of None \<Rightarrow> strategies t | Some a \<Rightarrow> (strategies t)(a := None))(s \<mapsto> inst)"
  shows "sc_ok t'" and "sc_names t' = (sc_names t)(p \<mapsto> fst inst)"
proof -
  have fresh: "strategies t s = None" using sc_okD(7) [OF assms(1), of s] assms(4) by (cases "strategies t s") auto
  have old: "m_strategy e \<noteq> Some s" if "sc_view t n = Some e" for n e using sc_okD(5) [OF assms(1) that] fresh by auto
  have keep: "strategies t' a = strategies t a" if "sc_view t n = Some e" "m_strategy e = Some a" "n \<noteq> p" for n e a
  proof -
    have "a \<noteq> s" using old that by auto
    moreover have "owned_strategy t p \<noteq> Some a"
      using sc_okD(6) [OF assms(1) that(1), of p] that(2,3) by (auto simp: owned_strategy_def bind_eq_Some_conv)
    ultimately show ?thesis unfolding assms(6) by (auto split: option.splits)
  qed
  have live: "strategies t' s = Some inst" unfolding assms(6) by simp
  show "sc_ok t'"
    unfolding sc_ok_def
  proof (intro conjI allI impI)
    show "pit_ok t'" by (rule assms(2))
    show "sc_view t' [] \<noteq> None" using sc_okD(3) [OF assms(1)] unfolding assms(3) by simp
  next
    fix n e assume e: "sc_view t' n = Some e"
    show "sc_prefix e = n" using e sc_okD(4) [OF assms(1), of n e] unfolding assms(3) by (auto split: if_splits)
    show "\<exists>s. m_strategy e = Some s \<and> strategies t' s \<noteq> None"
    proof (cases "n = p")
      case True
      then show ?thesis using e live unfolding assms(3) by auto
    next
      case False
      then have n: "sc_view t n = Some e" using e unfolding assms(3) by simp
      then show ?thesis using sc_okD(5) [OF assms(1) n] keep [OF n _ False] by auto
    qed
  next
    fix n m d e assume a: "sc_view t' n = Some d" "sc_view t' m = Some e" "m_strategy d = m_strategy e"
    show "n = m" using a old [of n d] old [of m e] sc_okD(6) [OF assms(1), of n d m e] unfolding assms(3) by (auto split: if_splits)
  next
    fix a assume a: "strategies t' a \<noteq> None"
    then have or: "a = s \<or> strategies t a \<noteq> None \<and> owned_strategy t p \<noteq> Some a"
      unfolding assms(6) by (auto split: option.splits if_splits)
    then show "a < strategy_next t'" using sc_okD(7) [OF assms(1), of a] assms(4,5) by auto
    show "\<exists>n e. sc_view t' n = Some e \<and> m_strategy e = Some a"
    proof (cases "a = s")
      case True
      then show ?thesis unfolding assms(3) by (intro exI [of _ p]) simp
    next
      case False
      then obtain n e where ne: "sc_view t n = Some e" "m_strategy e = Some a" using sc_okD(8) [OF assms(1)] or by blast
      then have "n \<noteq> p" using or False by (auto simp: owned_strategy_def)
      then show ?thesis using ne unfolding assms(3) by (intro exI [of _ n] exI [of _ e]) simp
    qed
  qed
  show "sc_names t' = (sc_names t)(p \<mapsto> fst inst)"
  proof
    fix n
    show "sc_names t' n = ((sc_names t)(p \<mapsto> fst inst)) n"
    proof (cases "n = p")
      case True
      then show ?thesis using live by (simp add: sc_names_def assms(3) getInstanceName_def)
    next
      case False
      then have "sc_view t' n = sc_view t n" unfolding assms(3) by simp
      then show ?thesis using False sc_okD(5) [OF assms(1), of n] keep [of n]
        by (cases "sc_view t n") (auto simp: sc_names_def getInstanceName_def)
    qed
  qed
qed

lemma sc_ok_unset:
  assumes "sc_ok t" and "pit_ok t'" and "sc_view t' = (sc_view t)(p := None)" and "p \<noteq> []"
    and "strategy_next t' = strategy_next t" and "owned_strategy t p = Some a" and "strategies t' = (strategies t)(a := None)"
  shows "sc_ok t'" and "sc_names t' = (sc_names t)(p := None)"
proof -
  obtain e0 where e0: "sc_view t p = Some e0" "m_strategy e0 = Some a"
    using assms(6) by (auto simp: owned_strategy_def bind_eq_Some_conv)
  have keep: "strategies t' b = strategies t b" if "sc_view t n = Some e" "m_strategy e = Some b" "n \<noteq> p" for n e b
    using sc_okD(6) [OF assms(1) that(1) e0(1)] that(2,3) e0(2) unfolding assms(7) by auto
  show "sc_ok t'"
    unfolding sc_ok_def
  proof (intro conjI allI impI)
    show "pit_ok t'" by (rule assms(2))
    show "sc_view t' [] \<noteq> None" using sc_okD(3) [OF assms(1)] assms(4) unfolding assms(3) by simp
  next
    fix n e assume "sc_view t' n = Some e"
    then have n: "sc_view t n = Some e" "n \<noteq> p" unfolding assms(3) by (auto split: if_splits)
    show "sc_prefix e = n" by (rule sc_okD(4) [OF assms(1) n(1)])
    show "\<exists>s. m_strategy e = Some s \<and> strategies t' s \<noteq> None" using sc_okD(5) [OF assms(1) n(1)] keep [OF n(1) _ n(2)] by auto
  next
    fix n m d e assume "sc_view t' n = Some d" "sc_view t' m = Some e" "m_strategy d = m_strategy e"
    then show "n = m" using sc_okD(6) [OF assms(1), of n d m e] unfolding assms(3) by (auto split: if_splits)
  next
    fix b assume "strategies t' b \<noteq> None"
    then have b: "b \<noteq> a" "strategies t b \<noteq> None" unfolding assms(7) by (auto split: if_splits)
    show "b < strategy_next t'" using sc_okD(7) [OF assms(1) b(2)] assms(5) by simp
    obtain n e where ne: "sc_view t n = Some e" "m_strategy e = Some b" using sc_okD(8) [OF assms(1) b(2)] by blast
    then have "n \<noteq> p" using b(1) e0 by auto
    then show "\<exists>n e. sc_view t' n = Some e \<and> m_strategy e = Some b" using ne unfolding assms(3) by (intro exI [of _ n] exI [of _ e]) simp
  qed
  show "sc_names t' = (sc_names t)(p := None)"
  proof
    fix n
    show "sc_names t' n = ((sc_names t)(p := None)) n"
    proof (cases "n = p")
      case True
      then show ?thesis by (simp add: sc_names_def assms(3))
    next
      case False
      then have "sc_view t' n = sc_view t n" unfolding assms(3) by simp
      then show ?thesis using False sc_okD(5) [OF assms(1), of n] keep [of n]
        by (cases "sc_view t n") (auto simp: sc_names_def getInstanceName_def)
    qed
  qed
qed

lemma new_strategy_simps:
  assumes "new_strategy inst t = (t', s)"
  shows "s = strategy_next t" and "t' = t\<lparr>strategies := (strategies t)(s \<mapsto> inst), strategy_next := s + 1\<rparr>"
  using assms by (auto simp: new_strategy_def)

text \<open>The entry for the prefix after its instance was allocated and its name tree entry looked up.\<close>

lemma insert_prepare:
  assumes "sc_ok t" and "length pfx \<le> getMaxDepth"
  obtains nt where "lookup pfx (length pfx) (nameTree t) = Some (nt, pfx)" and "nt_wf nt" and "entry_at nt pfx \<noteq> None"
    and "view m_pitEntries [] nt = pit_view t" and "view m_strategyChoiceEntry None nt = sc_view t"
    and "view m_measurementsEntry None nt = meas_view t"
proof -
  obtain nt where nt: "lookup pfx (length pfx) (nameTree t) = Some (nt, take (length pfx) pfx)" "nt_wf nt"
    "hashFunc nt = hashFunc (nameTree t)" "payload (entry_at nt) = payload (entry_at (nameTree t))"
    "\<forall>n. entry_at nt n = None \<longleftrightarrow> (\<forall>j\<le>length pfx. n \<noteq> take j pfx) \<and> entry_at (nameTree t) n = None"
    using lookup_wf [OF sc_okD(2) [OF assms(1)] order_refl assms(2)] .
  have tk: "take (length pfx) pfx = pfx" by simp
  have ne: "entry_at nt pfx \<noteq> None" using nt(5) [rule_format, of pfx] by (auto dest: spec [of _ "length pfx"])
  show ?thesis
    by (rule that [OF nt(1) [unfolded tk] nt(2) ne pit_field.view_payload [OF nt(4)] sc_field.view_payload [OF nt(4)]
          meas_field.view_payload [OF nt(4)]])
qed

lemma sc_insert_at_new:
  fixes inst :: "name \<times> 'st" and t :: "('i, 'st, 'z) tables_scheme"
  assumes "sc_ok t" and "length pfx \<le> getMaxDepth" and None: "sc_view t pfx = None"
  defines "t1 \<equiv> fst (new_strategy inst t)"
  shows "\<exists>t'. sc_insert_at env pfx (strategy_next t) t1 = Some (t', OK) \<and> sc_ok t' \<and>
    sc_names t' = (sc_names t)(pfx \<mapsto> fst inst) \<and> sc_nItems t' = sc_nItems t + 1"
proof -
  let ?s = "strategy_next t"
  let ?t1 = "t\<lparr>strategies := (strategies t)(?s \<mapsto> inst), strategy_next := Suc ?s\<rparr>"
  have t1: "t1 = ?t1" by (simp add: t1_def new_strategy_def)
  obtain nt where nt: "lookup pfx (length pfx) (nameTree t) = Some (nt, pfx)" "nt_wf nt" "entry_at nt pfx \<noteq> None"
    "view m_pitEntries [] nt = pit_view t" "view m_strategyChoiceEntry None nt = sc_view t"
    "view m_measurementsEntry None nt = meas_view t"
    using insert_prepare [OF assms(1,2)] .
  let ?t2 = "?t1\<lparr>nameTree := nt\<rparr>"
  have ok2: "pit_ok ?t2" by (rule pit_ok_cong [OF sc_okD(1) [OF assms(1)]]) (use nt(2,4) in simp_all)
  obtain nte where nte: "nte_at ?t2 pfx = Some nte" using nt(3) by auto
  have nte': "entry_at nt pfx = Some nte" using nte by simp
  have se: "m_strategyChoiceEntry nte = sc_view t pfx" using sc_view_nte [OF nte] nt(5) by simp
  have lk: "lookup pfx (length pfx) (nameTree ?t1) = Some (nt, pfx)" using nt(1) by simp
  obtain n e a where eff: "lpm (\<lambda>n. sc_view t n \<noteq> None) pfx = Some n" "sc_view t n = Some e"
    "m_strategy e = Some a" "strategies t a \<noteq> None" "findEffectiveStrategy t pfx = Some a"
    by (rule findEffectiveStrategy_spec [OF assms(1)])
  have eff2: "findEffectiveStrategy ?t2 pfx = Some a"
    using findEffectiveStrategy_eq [of ?t2 pfx] nt(2) eff(1-3) by (simp add: nt(5))
  let ?t3 = "modify_nte pfx (m_strategyChoiceEntry_update (\<lambda>_. Some (strategy_choice_Entry pfx))) ?t2"
  let ?t3' = "?t3\<lparr>sc_nItems := sc_nItems ?t3 + 1\<rparr>"
  have ne2: "nte_at ?t2 pfx \<noteq> None" using nte by simp
  note m3 = modify_sc [OF ok2 ne2, of "Some (strategy_choice_Entry pfx)"]
  have s3: "setStrategyChoiceEntry pfx (Some (strategy_choice_Entry pfx)) ?t2 = Some ?t3"
    using nte se None by (simp add: setStrategyChoiceEntry_def delete_strategy_def)
  have v3: "sc_view ?t3' = (sc_view t)(pfx \<mapsto> strategy_choice_Entry pfx)" using m3(2) by (simp add: nt(5))
  have ok3: "pit_ok ?t3'" using m3(1) by simp
  have live: "strategies ?t3' a \<noteq> None" "strategies ?t3' ?s \<noteq> None" using eff(4) by simp_all
  have sp: "sc_view ?t3' pfx \<noteq> None" unfolding v3 by simp
  obtain nt4 h where c4: "changeStrategy env pfx a ?s ?t3' = Some (?t3'\<lparr>nameTree := nt4, pit_heap := h\<rparr>)"
    "pit_ok (?t3'\<lparr>nameTree := nt4, pit_heap := h\<rparr>)" "nt_wf nt4" "\<forall>m. entry_at nt4 m = None \<longleftrightarrow> nte_at ?t3' m = None"
    "view m_pitEntries [] nt4 = pit_view ?t3'" "view m_strategyChoiceEntry None nt4 = sc_view ?t3'"
    by (rule changeStrategy_spec [OF ok3 live sp, of env])
  let ?t4 = "?t3'\<lparr>nameTree := nt4, pit_heap := h\<rparr>"
  have v4: "sc_view ?t4 = (sc_view t)(pfx \<mapsto> strategy_choice_Entry pfx)" using c4(6) v3 by simp
  have ne4: "nte_at ?t4 pfx \<noteq> None" by (rule sc_view_exists) (simp only: v4 fun_upd_same, simp)
  then obtain nte4 where nte4: "nte_at ?t4 pfx = Some nte4" by blast
  have se4: "m_strategyChoiceEntry nte4 = Some (strategy_choice_Entry pfx)" using sc_view_nte [OF nte4] unfolding v4 by simp
  let ?e = "\<lparr>sc_prefix = pfx, m_strategy = Some ?s\<rparr>"
  let ?t5 = "modify_nte pfx (m_strategyChoiceEntry_update (\<lambda>_. Some ?e)) ?t4"
  have s5: "setStrategy pfx (Some ?s) ?t4 = Some ?t5"
    using nte4 se4 by (simp add: setStrategy_def strategy_choice_Entry_def delete_strategy_def)
  note m5 = modify_sc [OF c4(2) ne4, of "Some ?e"]
  have v5: "sc_view ?t5 = (sc_view t)(pfx \<mapsto> ?e)" unfolding m5(2) v4 by simp
  have own: "owned_strategy t pfx = None" using None by (simp add: owned_strategy_def)
  have st5: "strategies ?t5 = (case owned_strategy t pfx of None \<Rightarrow> strategies t | Some a \<Rightarrow> (strategies t)(a := None))(?s \<mapsto> inst)"
    unfolding own by simp
  have nx5: "strategy_next ?t5 = ?s + 1" by simp
  have "sc_ok ?t5" "sc_names ?t5 = (sc_names t)(pfx \<mapsto> fst inst)" using sc_ok_set [OF assms(1) m5(1) v5 refl nx5 st5] .
  moreover have "sc_insert_at env pfx ?s ?t1 = Some (?t5, OK)"
    unfolding sc_insert_at_def using lk nte' se None eff2 s3 c4(1) s5 by simp
  moreover have "sc_nItems ?t5 = sc_nItems t + 1" by simp
  ultimately show ?thesis unfolding t1 by blast
qed

lemma sc_insert_at_old:
  fixes inst :: "name \<times> 'st" and t :: "('i, 'st, 'z) tables_scheme"
  assumes "sc_ok t" and "length pfx \<le> getMaxDepth" and Some: "sc_view t pfx = Some e"
  defines "t1 \<equiv> fst (new_strategy inst t)"
  shows "\<exists>t'. sc_insert_at env pfx (strategy_next t) t1 = Some (t', OK) \<and> sc_ok t' \<and>
    sc_names t' = (sc_names t)(pfx \<mapsto> fst inst) \<and> sc_nItems t' = sc_nItems t"
proof -
  let ?s = "strategy_next t"
  let ?t1 = "t\<lparr>strategies := (strategies t)(?s \<mapsto> inst), strategy_next := Suc ?s\<rparr>"
  have t1: "t1 = ?t1" by (simp add: t1_def new_strategy_def)
  obtain nt where nt: "lookup pfx (length pfx) (nameTree t) = Some (nt, pfx)" "nt_wf nt" "entry_at nt pfx \<noteq> None"
    "view m_pitEntries [] nt = pit_view t" "view m_strategyChoiceEntry None nt = sc_view t"
    "view m_measurementsEntry None nt = meas_view t"
    using insert_prepare [OF assms(1,2)] .
  let ?t2 = "?t1\<lparr>nameTree := nt\<rparr>"
  have ok2: "pit_ok ?t2" by (rule pit_ok_cong [OF sc_okD(1) [OF assms(1)]]) (use nt(2,4) in simp_all)
  obtain nte where nte: "nte_at ?t2 pfx = Some nte" using nt(3) by auto
  have nte': "entry_at nt pfx = Some nte" using nte by simp
  have se: "m_strategyChoiceEntry nte = sc_view t pfx" using sc_view_nte [OF nte] nt(5) by simp
  have lk: "lookup pfx (length pfx) (nameTree ?t1) = Some (nt, pfx)" using nt(1) by simp
  have fresh: "strategies t ?s = None" using sc_okD(7) [OF assms(1), of ?s] by (cases "strategies t ?s") auto
  obtain a where a: "m_strategy e = Some a" "strategies t a \<noteq> None" using sc_okD(5) [OF assms(1) Some] by blast
  have as: "a \<noteq> ?s" using a(2) fresh by auto
  have gs: "getStrategy ?t2 pfx = Some a" using nte se Some a(1) by (simp add: getStrategy_def)
  obtain x where x: "getInstanceName t a = Some x" using a(2) by (auto simp: getInstanceName_def)
  have nm: "getStrategyInstanceName ?t2 pfx = Some x" using gs x as by (simp add: getStrategyInstanceName_def getInstanceName_def)
  have nn: "getInstanceName ?t2 ?s = Some (fst inst)" by (simp add: getInstanceName_def)
  have own: "owned_strategy t pfx = Some a" using Some a(1) by (simp add: owned_strategy_def)
  show ?thesis
  proof (cases "x = fst inst")
    case True
    let ?t3 = "delete_strategy (Some ?s) ?t2"
    have st: "strategies ?t3 = strategies t" using fresh by (auto simp: fun_eq_iff)
    have v: "sc_view ?t3 = sc_view t" using nt(5) by simp
    have "pit_ok ?t3" using ok2 by simp
    then have "sc_ok ?t3" by (rule sc_ok_cong [OF assms(1) _ v st]) simp
    moreover have "sc_names ?t3 = (sc_names t)(pfx \<mapsto> fst inst)"
    proof -
      have "getInstanceName ?t3 = getInstanceName t" unfolding getInstanceName_def st ..
      then have "sc_names ?t3 = sc_names t" unfolding sc_names_def v by simp
      moreover have "sc_names t pfx = Some (fst inst)" using Some a(1) x True by (simp add: sc_names_def)
      ultimately show ?thesis by (simp add: fun_upd_idem)
    qed
    moreover have "sc_insert_at env pfx ?s ?t1 = Some (?t3, OK)"
      unfolding sc_insert_at_def using lk nte' se Some nm nn True by simp
    moreover have "sc_nItems ?t3 = sc_nItems t" by simp
    ultimately show ?thesis unfolding t1 by blast
  next
    case False
    have live: "strategies ?t2 a \<noteq> None" "strategies ?t2 ?s \<noteq> None" using a(2) by simp_all
    have sp: "sc_view ?t2 pfx \<noteq> None" using Some nt(5) by simp
    obtain nt4 h where c4: "changeStrategy env pfx a ?s ?t2 = Some (?t2\<lparr>nameTree := nt4, pit_heap := h\<rparr>)"
      "pit_ok (?t2\<lparr>nameTree := nt4, pit_heap := h\<rparr>)" "nt_wf nt4" "\<forall>m. entry_at nt4 m = None \<longleftrightarrow> nte_at ?t2 m = None"
      "view m_pitEntries [] nt4 = pit_view ?t2" "view m_strategyChoiceEntry None nt4 = sc_view ?t2"
      by (rule changeStrategy_spec [OF ok2 live sp, of env])
    let ?t4 = "?t2\<lparr>nameTree := nt4, pit_heap := h\<rparr>"
    have v4: "sc_view ?t4 = sc_view t" using c4(6) nt(5) by simp
    have ne4: "nte_at ?t4 pfx \<noteq> None" by (rule sc_view_exists) (simp only: v4 Some, simp)
    then obtain nte4 where nte4: "nte_at ?t4 pfx = Some nte4" by blast
    have se4: "m_strategyChoiceEntry nte4 = Some e" using sc_view_nte [OF nte4] unfolding v4 Some by simp
    have pe: "sc_prefix e = pfx" by (rule sc_okD(4) [OF assms(1) Some])
    let ?e = "\<lparr>sc_prefix = pfx, m_strategy = Some ?s\<rparr>"
    let ?d4 = "delete_strategy (Some a) ?t4"
    let ?t5 = "modify_nte pfx (m_strategyChoiceEntry_update (\<lambda>_. Some ?e)) ?d4"
    have "e\<lparr>m_strategy := Some ?s\<rparr> = ?e" using pe by simp
    then have s5: "setStrategy pfx (Some ?s) ?t4 = Some ?t5" using nte4 se4 a(1) by (simp add: setStrategy_def)
    have okd: "pit_ok ?d4" using c4(2) by simp
    have ned: "nte_at ?d4 pfx \<noteq> None" using ne4 by simp
    note m5 = modify_sc [OF okd ned, of "Some ?e"]
    have vd: "sc_view ?d4 = sc_view t" using v4 by simp
    have v5: "sc_view ?t5 = (sc_view t)(pfx \<mapsto> ?e)" unfolding m5(2) vd ..
    have st5: "strategies ?t5 = (case owned_strategy t pfx of None \<Rightarrow> strategies t | Some a \<Rightarrow> (strategies t)(a := None))(?s \<mapsto> inst)"
      unfolding own using as by (simp add: fun_upd_twist)
    have nx5: "strategy_next ?t5 = ?s + 1" by simp
    have "sc_ok ?t5" "sc_names ?t5 = (sc_names t)(pfx \<mapsto> fst inst)" using sc_ok_set [OF assms(1) m5(1) v5 refl nx5 st5] .
    moreover have "sc_insert_at env pfx ?s ?t1 = Some (?t5, OK)"
      unfolding sc_insert_at_def using lk nte' se Some nm nn False gs c4(1) s5 by simp
    moreover have "sc_nItems ?t5 = sc_nItems t" by simp
    ultimately show ?thesis unfolding t1 by blast
  qed
qed

lemma sc_insert_spec:
  assumes "sc_ok t" and "length pfx \<le> getMaxDepth" and "create env sname = Some (Inr (Some inst))"
  shows "\<exists>t'. sc_insert env pfx sname t = Some (t', OK) \<and> sc_ok t' \<and> sc_names t' = (sc_names t)(pfx \<mapsto> fst inst) \<and>
    sc_nItems t' = (if sc_view t pfx = None then sc_nItems t + 1 else sc_nItems t)"
proof -
  have ins: "sc_insert env pfx sname t = sc_insert_at env pfx (strategy_next t) (fst (new_strategy inst t))"
    using assms(2,3) by (simp add: sc_insert_def new_strategy_def)
  show ?thesis
  proof (cases "sc_view t pfx")
    case None
    from sc_insert_at_new [OF assms(1,2) this, of env inst] show ?thesis unfolding ins using None by simp
  next
    case (Some e)
    from sc_insert_at_old [OF assms(1,2) this, of env inst] show ?thesis unfolding ins using Some by simp
  qed
qed

lemma sc_erase_spec:
  assumes "sc_ok t" and "pfx \<noteq> []"
  shows "\<exists>t'. sc_erase env pfx t = Some t' \<and> sc_ok t' \<and> sc_names t' = (sc_names t)(pfx := None) \<and>
    sc_nItems t' = (if sc_view t pfx = None then sc_nItems t else sc_nItems t - 1)"
proof (cases "sc_view t pfx")
  case None
  have wf: "nt_wf (nameTree t)" by (rule sc_okD(2) [OF assms(1)])
  have "sc_erase env pfx t = Some t"
  proof (cases "nte_at t pfx")
    case (Some nte)
    then show ?thesis using assms(2) None sc_view_nte [OF Some] by (simp add: sc_erase_def findExactMatch_spec [OF wf])
  qed (use assms(2) in \<open>simp add: sc_erase_def findExactMatch_spec [OF wf]\<close>)
  moreover have "sc_names t = (sc_names t)(pfx := None)" using None by (simp add: sc_names_def fun_upd_idem)
  ultimately show ?thesis using None assms(1) by auto
next
  case (Some e)
  have wf: "nt_wf (nameTree t)" by (rule sc_okD(2) [OF assms(1)])
  have ne: "nte_at t pfx \<noteq> None" by (rule sc_view_exists) (simp add: Some)
  then obtain nte where nte: "nte_at t pfx = Some nte" by blast
  have se: "m_strategyChoiceEntry nte = Some e" using sc_view_nte [OF nte] Some by simp
  obtain a where a: "m_strategy e = Some a" "strategies t a \<noteq> None" using sc_okD(5) [OF assms(1) Some] by blast
  have gs: "getStrategy t pfx = Some a" using nte se a(1) by (simp add: getStrategy_def)
  obtain n' e' b where b: "lpm (\<lambda>n. sc_view t n \<noteq> None) (butlast pfx) = Some n'" "sc_view t n' = Some e'"
    "m_strategy e' = Some b" "strategies t b \<noteq> None" "findEffectiveStrategy t (butlast pfx) = Some b"
    by (rule findEffectiveStrategy_spec [OF assms(1)])
  have sp: "sc_view t pfx \<noteq> None" using Some by simp
  obtain nt h where c: "changeStrategy env pfx a b t = Some (t\<lparr>nameTree := nt, pit_heap := h\<rparr>)"
    "pit_ok (t\<lparr>nameTree := nt, pit_heap := h\<rparr>)" "nt_wf nt" "\<forall>m. entry_at nt m = None \<longleftrightarrow> nte_at t m = None"
    "view m_pitEntries [] nt = pit_view t" "view m_strategyChoiceEntry None nt = sc_view t"
    by (rule changeStrategy_spec [OF sc_okD(1) [OF assms(1)] a(2) b(4) sp, of env])
  let ?t1 = "t\<lparr>nameTree := nt, pit_heap := h\<rparr>"
  have v1: "sc_view ?t1 = sc_view t" using c(6) by simp
  have ne1: "nte_at ?t1 pfx \<noteq> None" by (rule sc_view_exists) (simp only: v1 Some, simp)
  then obtain nte1 where nte1: "nte_at ?t1 pfx = Some nte1" by blast
  have se1: "m_strategyChoiceEntry nte1 = Some e" using sc_view_nte [OF nte1] unfolding v1 Some by simp
  let ?d = "delete_strategy (Some a) ?t1"
  let ?t2 = "modify_nte pfx (m_strategyChoiceEntry_update (\<lambda>_. None)) ?d"
  have s2: "setStrategyChoiceEntry pfx None ?t1 = Some ?t2" using nte1 se1 a(1) by (simp add: setStrategyChoiceEntry_def)
  have okd: "pit_ok ?d" using c(2) by simp
  have ned: "nte_at ?d pfx \<noteq> None" using ne1 by simp
  note m2 = modify_sc [OF okd ned, of None]
  have ne2: "nte_at ?t2 pfx \<noteq> None" using m2(3) [of pfx] ned by simp
  obtain nt3 k where e3: "eraseIfEmpty pfx True (nameTree ?t2) = Some (nt3, k)" "nt_wf nt3" "hashFunc nt3 = hashFunc (nameTree ?t2)"
    "payload (entry_at nt3) = payload (entry_at (nameTree ?t2))"
    "\<forall>m. entry_at nt3 m = None \<longrightarrow> entry_at (nameTree ?t2) m = None \<or> prefix m pfx"
    "\<forall>m. entry_at (nameTree ?t2) m = None \<longrightarrow> entry_at nt3 m = None"
    "True \<longrightarrow> (\<forall>m. m \<noteq> pfx \<longrightarrow> in_use (entry_at (nameTree ?t2)) m) \<longrightarrow> (\<forall>m. in_use (entry_at nt3) m)"
    using eraseIfEmpty_wf [OF pit_okD(1) [OF m2(1)] ne2, of True] .
  let ?t3 = "?t2\<lparr>nameTree := nt3, sc_nItems := sc_nItems ?t2 - 1\<rparr>"
  have ok3: "pit_ok (?t2\<lparr>nameTree := nt3\<rparr>)" by (rule pit_ok_nt(1) [OF m2(1) e3(2,4)])
  have ok3': "pit_ok ?t3" using ok3 by simp
  have vd: "sc_view ?d = sc_view t" using v1 by simp
  have v3: "sc_view ?t3 = (sc_view t)(pfx := None)" using sc_field.view_payload [OF e3(4)] m2(2) unfolding vd by simp
  have own: "owned_strategy t pfx = Some a" using Some a(1) by (simp add: owned_strategy_def)
  have n3: "strategy_next ?t3 = strategy_next t" "strategies ?t3 = (strategies t)(a := None)" by simp_all
  have "sc_ok ?t3" "sc_names ?t3 = (sc_names t)(pfx := None)" using sc_ok_unset [OF assms(1) ok3' v3 assms(2) n3(1) own n3(2)] .
  moreover have "sc_erase env pfx t = Some ?t3"
    using assms(2) ne nte se gs b(5) c(1) s2 e3(1) by (simp add: sc_erase_def findExactMatch_spec [OF wf])
  moreover have "sc_nItems ?t3 = sc_nItems t - 1" by simp
  ultimately show ?thesis using Some by (metis option.distinct(1))
qed

subsection \<open>Properties\<close>

text \<open>C15: the strategy choice table refines a map from prefixes to strategy instance names: on a
  well-formed table, inserting a strategy that can be created sets exactly its prefix, and
  erasing a prefix other than the root removes exactly it; a prefix that is too long, a
  strategy that is not registered and a constructor that throws are reported and leave the
  whole state as it was. In every result each entry owns one live strategy instance, shared
  with no other entry, and no instance is left without an entry.\<close>

theorem strategy_choice_refines_map:
  assumes "sc_ok t"
  shows "(length pfx \<le> getMaxDepth \<longrightarrow> create env sname = Some (Inr (Some inst)) \<longrightarrow>
      (\<exists>t'. sc_insert env pfx sname t = Some (t', OK) \<and> sc_ok t' \<and> sc_names t' = (sc_names t)(pfx \<mapsto> fst inst))) \<and>
    (getMaxDepth < length pfx \<longrightarrow> sc_insert env pfx sname t = Some (t, DEPTH_EXCEEDED)) \<and>
    (length pfx \<le> getMaxDepth \<longrightarrow> create env sname = Some (Inr None) \<longrightarrow> sc_insert env pfx sname t = Some (t, NOT_REGISTERED)) \<and>
    (length pfx \<le> getMaxDepth \<longrightarrow> create env sname = Some (Inl what) \<longrightarrow> sc_insert env pfx sname t = Some (t, EXCEPTION what)) \<and>
    (pfx \<noteq> [] \<longrightarrow> (\<exists>t'. sc_erase env pfx t = Some t' \<and> sc_ok t' \<and> sc_names t' = (sc_names t)(pfx := None)))"
proof (intro conjI impI)
  assume "length pfx \<le> getMaxDepth" "create env sname = Some (Inr (Some inst))"
  from sc_insert_spec [OF assms this]
  show "\<exists>t'. sc_insert env pfx sname t = Some (t', OK) \<and> sc_ok t' \<and> sc_names t' = (sc_names t)(pfx \<mapsto> fst inst)" by blast
next
  assume "pfx \<noteq> []"
  from sc_erase_spec [OF assms this, of env]
  show "\<exists>t'. sc_erase env pfx t = Some t' \<and> sc_ok t' \<and> sc_names t' = (sc_names t)(pfx := None)" by blast
qed (simp_all add: sc_insert_def)


lemma setDefaultStrategy_ok:
  assumes "pit_ok t" and "\<And>n. sc_view t n = None" and "\<And>s. strategies t s = None" and "create env sname = Some (Inr (Some inst))"
  shows "\<exists>t'. setDefaultStrategy env sname t = Some t' \<and> sc_ok t' \<and> sc_names t' = [[] \<mapsto> fst inst]"
proof -
  let ?s = "strategy_next t"
  let ?t1 = "t\<lparr>strategies := (strategies t)(?s \<mapsto> inst), strategy_next := Suc ?s\<rparr>"
  have len: "0 \<le> length ([] :: name)" "0 \<le> getMaxDepth" by simp_all
  obtain nt where nt: "lookup [] 0 (nameTree t) = Some (nt, take 0 [])" "nt_wf nt"
    "hashFunc nt = hashFunc (nameTree t)" "payload (entry_at nt) = payload (entry_at (nameTree t))"
    "\<forall>n. entry_at nt n = None \<longleftrightarrow> (\<forall>j\<le>0. n \<noteq> take j []) \<and> entry_at (nameTree t) n = None"
    using lookup_wf [OF pit_okD(1) [OF assms(1)] len] .
  let ?t2 = "?t1\<lparr>nameTree := nt\<rparr>"
  have v: "view m_strategyChoiceEntry None nt = (\<lambda>_. None)" using sc_field.view_payload [OF nt(4)] assms(2) by (simp add: fun_eq_iff)
  have ok2: "pit_ok ?t2"
    by (rule pit_ok_cong [OF assms(1)]) (use nt(2) pit_field.view_payload [OF nt(4)] in simp_all)
  have ne: "nte_at ?t2 [] \<noteq> None" using nt(5) [rule_format, of "[]"] by simp
  then obtain nte where nte: "nte_at ?t2 [] = Some nte" by blast
  have se: "m_strategyChoiceEntry nte = None" using sc_view_nte [OF nte] v by simp
  let ?e = "\<lparr>sc_prefix = [], m_strategy = Some ?s\<rparr>"
  let ?t3 = "modify_nte [] (m_strategyChoiceEntry_update (\<lambda>_. Some ?e)) ?t2"
  note m3 = modify_sc [OF ok2 ne, of "Some ?e"]
  let ?t4 = "?t3\<lparr>sc_nItems := sc_nItems ?t3 + 1\<rparr>"
  have res: "setDefaultStrategy env sname t = Some ?t4"
    using assms(4) nt(1) nte se
    by (simp add: setDefaultStrategy_def new_strategy_def setStrategyChoiceEntry_def strategy_choice_Entry_def delete_strategy_def)
  have ok4: "pit_ok ?t4" using m3(1) by simp
  have v4: "sc_view ?t4 = [[] \<mapsto> ?e]" using m3(2) v by simp
  have st4: "strategies ?t4 = [?s \<mapsto> inst]" using assms(3) by (simp add: fun_eq_iff)
  have "sc_ok ?t4" unfolding sc_ok_def v4 st4 using ok4 by (auto split: if_splits)
  moreover have "sc_names ?t4 = [[] \<mapsto> fst inst]" unfolding sc_names_def v4 getInstanceName_def st4 by (auto simp: fun_eq_iff)
  ultimately show ?thesis using res by blast
qed

lemma tables_new_ok:
  assumes "nt_wf nt" and "entry_at nt = (\<lambda>_. None)"
  shows "pit_ok (tables_new nt)" and "sc_view (tables_new nt) n = None" and "strategies (tables_new nt) s = None"
  using assms by (simp_all add: tables_new_def pit_ok_def view_def attached_at_def)

definition example_env :: "nat strategy_env" where
  "example_env = \<lparr>env_less = octet_less, env_successor = octet_successor, env_versionOf = example_version,
     env_registry = example_registry\<rparr>"

lemma example_create: "create example_env [Generic ''s''] = Some (Inr (Some ([Generic ''s''], 2)))"
proof -
  have "name_compare octet_less [Generic ''s'', Component 35 ''1''] (octet_successor [Generic ''s'']) < 0"
    "name_compare octet_less [Generic ''s'', Component 35 ''11''] (octet_successor [Generic ''s'']) < 0"
    by (subst octet_successor_compare; simp)+
  then show ?thesis
    by (simp add: Strategy_create_def Strategy_find_def Let_def parseInstanceName_def registry_lower_bound_def
        example_env_def example_registry_def del: octet_successor.simps)
qed

lemma example_table:
  obtains t :: "(unit, nat) tables" where "sc_ok t" and "sc_names t = [[] \<mapsto> [Generic ''s'']]"
proof -
  obtain nt :: "unit nt" where nt: "NameTree (\<lambda>c. 0) 16 = Some nt" "nt_wf nt" "entry_at nt = (\<lambda>_. None)"
    using NameTree_wf [of 16 "\<lambda>c. 0"] by (metis zero_less_numeral)
  obtain t :: "(unit, nat) tables" where "sc_ok t" "sc_names t = [[] \<mapsto> fst ([Generic ''s''], 2 :: nat)]"
    using setDefaultStrategy_ok [OF tables_new_ok [OF nt(2,3)] example_create] by blast
  then show ?thesis using that by simp
qed

theorem strategy_choice_refines_map_witness:
  "\<exists>(t :: (unit, nat) tables) t'. sc_ok t \<and> sc_insert example_env [Generic ''a''] [Generic ''s''] t = Some (t', OK) \<and>
     sc_names t' [Generic ''a''] = Some [Generic ''s'']"
proof -
  obtain t :: "(unit, nat) tables" where t: "sc_ok t" "sc_names t = [[] \<mapsto> [Generic ''s'']]" by (rule example_table)
  have len: "length [Generic ''a''] \<le> getMaxDepth" by (simp add: getMaxDepth_def FIB_MAX_DEPTH_def)
  from strategy_choice_refines_map [OF t(1), of "[Generic ''a'']" example_env "[Generic ''s'']" "([Generic ''s''], 2)" "[]"] len example_create
  obtain t' where "sc_insert example_env [Generic ''a''] [Generic ''s''] t = Some (t', OK)"
    "sc_names t' = (sc_names t)([Generic ''a''] \<mapsto> fst ([Generic ''s''], 2 :: nat))" by blast
  then show ?thesis using t(1) by auto
qed

text \<open>
  The strategy a PIT entry is under is found from its full name.  Unless that name ends with
  an implicit digest, it is the one of the name tree entry the PIT entry is attached to.
\<close>

lemma effective_of_attached:
  assumes ok: "sc_ok t" and r: "attached_at (pit_heap t) r m" "pit_heap t r = Some e" and d: "\<not> hasDigest (pit_name e)"
  shows "findEffectiveStrategy_pit t e = Option.bind (lpm (\<lambda>k. sc_view t k \<noteq> None) m) (getStrategy t)"
proof -
  have wf: "nt_wf (nameTree t)" by (rule sc_okD(2) [OF ok])
  have m: "m_nameTreeEntry e = Some m" "m = take getMaxDepth (pit_name e)"
    using r d by (auto simp: attached_at_def nteDepth_def min_def)
  have "r \<in> set (pit_view t m)" using pit_okD(3) [OF sc_okD(1) [OF ok]] r(1) by simp
  then have ne: "nte_at t m \<noteq> None" by (cases "nte_at t m") (auto simp: view_def)
  have pre: "prefix m (pit_name e)" using m(2) by (simp add: take_is_prefix)
  obtain k where k: "lpm (\<lambda>k. sc_view t k \<noteq> None) m = Some k" by (rule findEffectiveStrategy_spec [OF ok])
  have "lpm (\<lambda>k. sc_view t k \<noteq> None) (pit_name e) = Some k"
  proof (rule lpm_unique)
    show "sc_view t k \<noteq> None" "prefix k (pit_name e)" using lpm_Some(1,2) [OF k] pre by (auto intro: prefix_order.trans)
    fix j assume j: "prefix j (pit_name e)" "sc_view t j \<noteq> None"
    have "length j \<le> getMaxDepth" using sc_view_exists [OF j(2)] wf tree_okD(2) by (fastforce simp: nt_wf_def)
    then have "prefix j m" using j(1) unfolding m(2) by (metis prefix_def append_eq_conv_conj take_take min.absorb1 take_is_prefix)
    then show "length j \<le> length k" using lpm_Some(3) [OF k] j(2) by blast
  qed
  then show ?thesis
    unfolding k by (simp add: findEffectiveStrategy_pit_def m(1) findLongestPrefixMatch_pit_spec [OF wf ne pre] selected_sc)
qed


lemma example_create_1:
  "create example_env [Generic ''s'', Component 35 ''1''] = Some (Inr (Some ([Generic ''s'', Component 35 ''1''], 1)))"
  "\<not> same_type example_env [Generic ''s''] [Generic ''s'', Component 35 ''1'']"
proof -
  have "name_compare octet_less [Generic ''s'', Component 35 ''1''] (octet_successor [Generic ''s'']) < 0"
    "name_compare octet_less [Generic ''s'', Component 35 ''11''] (octet_successor [Generic ''s'']) < 0"
    by (subst octet_successor_compare; simp)+
  then show "create example_env [Generic ''s'', Component 35 ''1''] = Some (Inr (Some ([Generic ''s'', Component 35 ''1''], 1)))"
    "\<not> same_type example_env [Generic ''s''] [Generic ''s'', Component 35 ''1'']"
    by (simp_all add: Strategy_create_def Strategy_find_def Let_def parseInstanceName_def registry_lower_bound_def areSameType_def
        example_env_def example_registry_def comp_compare_def octet_less_def octet_key_def del: octet_successor.simps)
qed

definition old_measurements :: "unit measurements_entry" where
  "old_measurements = (measurements_Entry [])\<lparr>meas_info := [(1, ())]\<rparr>"


end
