(* ===== verification/Forwarder_State.thy ===== *)
theory Forwarder_State
  imports Strategy_Choice Fw_Algorithm Dead_Nonce_List Content_Store
begin

text \<open>
  The state of the forwarder (\<^verbatim>\<open>daemon/fw/forwarder.{hpp,cpp}\<close>), the face table
  (\<^verbatim>\<open>daemon/fw/face-table.{hpp,cpp}\<close>), the clean-up of the tables when a face is removed
  (\<^verbatim>\<open>daemon/table/cleanup.cpp\<close>), and the pipelines that strategies call as actions.

  The state extends the shared tables.  Faces are objects in a store; a closed face keeps its
  object with the invalid id.  Packets handed to faces are appended to the trace \<open>sent\<close>.  Time does
  not advance within a pipeline: the clock is that of the event being processed.  Tags other
  than the next hop face id and the signals to observers of the simulation are not modelled.
  Parameters of the pipelines are collected in \<open>fw_env\<close>: code of ndn-cxx, the replacement policy,
  and the content store of ndnSIM, which may be used in place of the daemon's.

  The lemmas: the face table keeps ids and faces in one-to-one correspondence; outgoing
  pipelines send nothing that violates the /localhost scope.
\<close>

subsection \<open>State\<close>

datatype strategy =
    BestRouteStrategy
  | BestRouteStrategy2 (m_retxSuppression: RetxSuppressionExponential)
  | MulticastStrategy (m_retxSuppression: RetxSuppressionExponential)

datatype sent_packet =
    SentInterest (sent_face: face_ref) interest
  | SentData (sent_face: face_ref) data
  | SentNack (sent_face: face_ref) nack

record ForwarderCounters =
  nInInterests :: "64 word"
  nOutInterests :: "64 word"
  nInData :: "64 word"
  nOutData :: "64 word"
  nInNacks :: "64 word"
  nOutNacks :: "64 word"
  nSatisfiedInterests :: "64 word"
  nUnsatisfiedInterests :: "64 word"
  nCsHits :: "64 word"
  nCsMisses :: "64 word"

record ('p, 'x) forwarder = "(strategy_info, strategy) tables" +
  m_counters :: ForwarderCounters
  faces :: "face_ref \<Rightarrow> face option"
  m_faces :: "(nat \<times> face_ref) list"
  m_lastFaceId :: nat
  m_unsolicitedDataPolicy :: UnsolicitedDataPolicy
  m_cs :: "'p cs"
  m_deadNonceList :: dead_nonce_list
  m_networkRegionTable :: "name list"
  m_csFace :: face_ref
  m_csFromNdnSim :: "'x option"
  sent :: "sent_packet list"

record ('p, 'x) fw_env =
  fe_less :: comp_less
  fe_successor :: "name \<Rightarrow> name"
  fe_matchesData :: "interest \<Rightarrow> data \<Rightarrow> bool"
  fe_wireEncode :: "name \<Rightarrow> buffer"
  fe_isLessSevere :: "nack_reason \<Rightarrow> nack_reason \<Rightarrow> bool"
  fe_policy :: "'p Policy"
  fe_Lookup :: "interest \<Rightarrow> 'x \<Rightarrow> 'x \<times> data option"
  fe_Add :: "data \<Rightarrow> 'x \<Rightarrow> 'x"

definition bump :: "(ForwarderCounters \<Rightarrow> ForwarderCounters) \<Rightarrow> ('p, 'x) forwarder \<Rightarrow> ('p, 'x) forwarder" where
  "bump u f = f\<lparr>m_counters := u (m_counters f)\<rparr>"

definition send :: "sent_packet \<Rightarrow> ('p, 'x) forwarder \<Rightarrow> ('p, 'x) forwarder" where
  "send p f = f\<lparr>sent := sent f @ [p]\<rparr>"

text \<open>A change of a PIT entry through its pointer; it may fail.\<close>

definition change_pit :: "pit_ref \<Rightarrow> (strategy_info pit_entry \<Rightarrow> strategy_info pit_entry option) \<Rightarrow> ('p, 'x) forwarder \<Rightarrow>
    ('p, 'x) forwarder option" where
  "change_pit r g f = do {
     pe \<leftarrow> pit_heap f r;
     pe' \<leftarrow> g pe;
     Some (f\<lparr>pit_heap := (pit_heap f)(r \<mapsto> pe')\<rparr>)
   }"

subsection \<open>Face table\<close>

definition FaceTable_get :: "nat \<Rightarrow> ('p, 'x) forwarder \<Rightarrow> face_ref option" where
  "FaceTable_get faceId f = map_of (m_faces f) faceId"

definition FaceTable_size :: "('p, 'x) forwarder \<Rightarrow> nat" where
  "FaceTable_size f = length (m_faces f)"

definition setId :: "face_ref \<Rightarrow> nat \<Rightarrow> ('p, 'x) forwarder \<Rightarrow> ('p, 'x) forwarder" where
  "setId face faceId f = f\<lparr>faces := (faces f)(face := map_option (getId_update (\<lambda>_. faceId)) (faces f face))\<rparr>"

definition FaceTable_addImpl :: "face_ref \<Rightarrow> nat \<Rightarrow> ('p, 'x) forwarder \<Rightarrow> ('p, 'x) forwarder option" where
  "FaceTable_addImpl face faceId f = do {
     let f = setId face faceId f;
     assert (map_of (m_faces f) faceId = None);
     Some (f\<lparr>m_faces := AList.update faceId face (m_faces f)\<rparr>)
   }"

definition FaceTable_add :: "face_ref \<Rightarrow> ('p, 'x) forwarder \<Rightarrow> ('p, 'x) forwarder option" where
  "FaceTable_add face f = do {
     fc \<leftarrow> faces f face;
     if getId fc \<noteq> INVALID_FACEID \<and> map_of (m_faces f) (getId fc) \<noteq> None then Some f
     else do {
       let faceId = (m_lastFaceId f + 1) mod 2 ^ 64;
       let f = f\<lparr>m_lastFaceId := faceId\<rparr>;
       assert (faceId > FACEID_RESERVED_MAX);
       FaceTable_addImpl face faceId f
     }
   }"

definition FaceTable_addReserved :: "face_ref \<Rightarrow> nat \<Rightarrow> ('p, 'x) forwarder \<Rightarrow> ('p, 'x) forwarder option" where
  "FaceTable_addReserved face faceId f = do {
     fc \<leftarrow> faces f face;
     assert (getId fc = INVALID_FACEID);
     assert (faceId \<le> FACEID_RESERVED_MAX);
     FaceTable_addImpl face faceId f
   }"

subsection \<open>Clean-up on face removal\<close>

fun delete_in_out_records :: "face_ref \<Rightarrow> pit_ref list \<Rightarrow> ('i, 'st, 'z) tables_scheme \<Rightarrow> ('i, 'st, 'z) tables_scheme option" where
  "delete_in_out_records face [] t = Some t"
| "delete_in_out_records face (r # rs) t = do {
     t \<leftarrow> deleteInOutRecords r face t;
     delete_in_out_records face rs t
   }"

fun cleanup_visit :: "face_ref \<Rightarrow> name list \<Rightarrow> ('i, 'st, 'z) tables_scheme \<Rightarrow>
    (('i, 'st, 'z) tables_scheme \<times> name list) option" where
  "cleanup_visit face [] t = Some (t, [])"
| "cleanup_visit face (n # ns) t = do {
     nte \<leftarrow> nte_at t n;
     t \<leftarrow> (if m_fibEntry nte \<noteq> None then Fib_removeNextHopByFace n face t else Some t);
     t \<leftarrow> delete_in_out_records face (m_pitEntries nte) t;
     nte \<leftarrow> nte_at t n;
     (t, maybeEmptyNtes) \<leftarrow> cleanup_visit face ns t;
     Some (t, if \<not> hasTableEntries nte then n # maybeEmptyNtes else maybeEmptyNtes)
   }"

fun erase_ntes :: "name list \<Rightarrow> ('i, 'st, 'z) tables_scheme \<Rightarrow> ('i, 'st, 'z) tables_scheme option" where
  "erase_ntes [] t = Some t"
| "erase_ntes (n # ns) t = do {
     (nt, _) \<leftarrow> eraseIfEmpty n False (nameTree t);
     erase_ntes ns (t\<lparr>nameTree := nt\<rparr>)
   }"

text \<open>The multimap orders by name length, equal keys in the order of insertion; it is read backwards.\<close>

definition cleanupOnFaceRemoval :: "face_ref \<Rightarrow> ('i, 'st, 'z) tables_scheme \<Rightarrow> ('i, 'st, 'z) tables_scheme option" where
  "cleanupOnFaceRemoval face t = do {
     ns \<leftarrow> fullEnumerate (nameTree t) (\<lambda>_. True);
     (t, maybeEmptyNtes) \<leftarrow> cleanup_visit face ns t;
     t \<leftarrow> erase_ntes (rev (sort_key length maybeEmptyNtes)) t;
     empties \<leftarrow> fullEnumerate (nameTree t) isEmpty;
     assert (empties = []);
     Some t
   }"

definition FaceTable_remove :: "nat \<Rightarrow> ('p, 'x) forwarder \<Rightarrow> ('p, 'x) forwarder option" where
  "FaceTable_remove faceId f = do {
     face \<leftarrow> map_of (m_faces f) faceId;
     f \<leftarrow> cleanupOnFaceRemoval face f;
     Some (setId face INVALID_FACEID (f\<lparr>m_faces := AList.delete faceId (m_faces f)\<rparr>))
   }"

subsection \<open>Outgoing pipelines\<close>

definition setExpiryTimer :: "time \<Rightarrow> pit_ref \<Rightarrow> int \<Rightarrow> ('p, 'x) forwarder \<Rightarrow> ('p, 'x) forwarder option" where
  "setExpiryTimer now r duration f = do {
     assert (duration \<ge> 0);
     change_pit r (\<lambda>pe. Some (pe\<lparr>expiryTimer := Some (now + ms duration)\<rparr>)) f
   }"

definition onOutgoingInterest :: "time \<Rightarrow> pit_ref \<Rightarrow> face_ref \<Rightarrow> interest \<Rightarrow> ('p, 'x) forwarder \<Rightarrow> ('p, 'x) forwarder option" where
  "onOutgoingInterest now r outFace interest f = do {
     f \<leftarrow> change_pit r (insertOrUpdateOutRecord now outFace interest) f;
     let f = send (SentInterest outFace interest) f;
     Some (bump (nOutInterests_update (\<lambda>c. c + 1)) f)
   }"

definition onOutgoingData :: "data \<Rightarrow> face_ref \<Rightarrow> ('p, 'x) forwarder \<Rightarrow> ('p, 'x) forwarder option" where
  "onOutgoingData data outFace f = do {
     fc \<leftarrow> faces f outFace;
     if getId fc = INVALID_FACEID then Some f
     else do {
       let isViolatingLocalhost = (getScope fc = FACE_SCOPE_NON_LOCAL \<and> prefix LOCALHOST (getDataName data));
       if isViolatingLocalhost then Some f
       else Some (bump (nOutData_update (\<lambda>c. c + 1)) (send (SentData outFace data) f))
     }
   }"

definition onOutgoingNack :: "pit_ref \<Rightarrow> face_ref \<Rightarrow> nack_reason \<Rightarrow> ('p, 'x) forwarder \<Rightarrow> ('p, 'x) forwarder option" where
  "onOutgoingNack r outFace reason f = do {
     fc \<leftarrow> faces f outFace;
     if getId fc = INVALID_FACEID then Some f
     else do {
       pe \<leftarrow> pit_heap f r;
       case getInRecord pe outFace of
         None \<Rightarrow> Some f
       | Some inRecord \<Rightarrow>
           if getLinkType fc \<noteq> LINK_TYPE_POINT_TO_POINT then Some f
           else do {
             i \<leftarrow> ir_interest inRecord;
             let nackPkt = \<lparr>getInterest = i, getReason = reason\<rparr>;
             f \<leftarrow> change_pit r (\<lambda>pe. Some (deleteInRecord outFace pe)) f;
             let f = send (SentNack outFace nackPkt) f;
             Some (bump (nOutNacks_update (\<lambda>c. c + 1)) f)
           }
     }
   }"

fun add_nonces :: "(name \<Rightarrow> buffer) \<Rightarrow> name \<Rightarrow> 32 word list \<Rightarrow> dead_nonce_list \<Rightarrow> dead_nonce_list option" where
  "add_nonces wireEncode name [] d = Some d"
| "add_nonces wireEncode name (nonce # nonces) d = do {
     d \<leftarrow> add_nonce wireEncode name nonce d;
     add_nonces wireEncode name nonces d
   }"

definition insertDeadNonceList :: "('p, 'x) fw_env \<Rightarrow> pit_ref \<Rightarrow> face_ref option \<Rightarrow> ('p, 'x) forwarder \<Rightarrow>
    ('p, 'x) forwarder option" where
  "insertDeadNonceList env r upstream f = do {
     pe \<leftarrow> pit_heap f r;
     needDnl \<leftarrow> (if isSatisfied pe
       then do {
         assert (dataFreshnessPeriod pe \<ge> 0);
         Some (getMustBeFresh (getSelectors (m_interest pe)) \<and> ms (dataFreshnessPeriod pe) < m_lifetime (m_deadNonceList f))
       }
       else Some True);
     if \<not> needDnl then Some f
     else do {
       let outRecords = (case upstream of
           None \<Rightarrow> m_outRecords pe
         | Some face \<Rightarrow> (case getOutRecord pe face of None \<Rightarrow> [] | Some outRecord \<Rightarrow> [outRecord]));
       d \<leftarrow> add_nonces (fe_wireEncode env) (pit_name pe) (map m_lastNonce outRecords) (m_deadNonceList f);
       Some (f\<lparr>m_deadNonceList := d\<rparr>)
     }
   }"

definition onInterestFinalize :: "('p, 'x) fw_env \<Rightarrow> pit_ref \<Rightarrow> ('p, 'x) forwarder \<Rightarrow> ('p, 'x) forwarder option" where
  "onInterestFinalize env r f = do {
     f \<leftarrow> insertDeadNonceList env r None f;
     pe \<leftarrow> pit_heap f r;
     let f = (if isSatisfied pe then bump (nSatisfiedInterests_update (\<lambda>c. c + 1)) f
              else bump (nUnsatisfiedInterests_update (\<lambda>c. c + 1)) f);
     f \<leftarrow> change_pit r (\<lambda>pe. Some (pe\<lparr>expiryTimer := None\<rparr>)) f;
     Pit_erase r True f
   }"

subsection \<open>The face table\<close>

text \<open>Every id in the table is the id of its face, so ids and faces correspond one to one.\<close>

definition face_table_ok :: "('p, 'x) forwarder \<Rightarrow> bool" where
  "face_table_ok f \<longleftrightarrow> distinct (map fst (m_faces f)) \<and> map_of (m_faces f) INVALID_FACEID = None \<and>
     (\<forall>faceId face. map_of (m_faces f) faceId = Some face \<longrightarrow>
        (\<exists>fc. faces f face = Some fc \<and> getId fc = faceId)) \<and>
     (\<forall>face fc. faces f face = Some fc \<longrightarrow> getId fc \<noteq> INVALID_FACEID \<longrightarrow> map_of (m_faces f) (getId fc) = Some face) \<and>
     (\<forall>faceId face. map_of (m_faces f) faceId = Some face \<longrightarrow> faceId \<le> max FACEID_RESERVED_MAX (m_lastFaceId f))"

lemma face_table_okD:
  assumes "face_table_ok f"
  shows "map_of (m_faces f) INVALID_FACEID = None"
    and "map_of (m_faces f) faceId = Some face \<Longrightarrow> \<exists>fc. faces f face = Some fc \<and> getId fc = faceId"
    and "faces f face = Some fc \<Longrightarrow> getId fc \<noteq> INVALID_FACEID \<Longrightarrow> map_of (m_faces f) (getId fc) = Some face"
    and "map_of (m_faces f) faceId = Some face \<Longrightarrow> faceId \<le> max FACEID_RESERVED_MAX (m_lastFaceId f)"
  using assms unfolding face_table_ok_def by blast+

lemma face_table_ok_last:
  assumes "face_table_ok f" and "m_lastFaceId f \<le> j"
  shows "face_table_ok (f\<lparr>m_lastFaceId := j\<rparr>)"
proof -
  have "i \<le> max FACEID_RESERVED_MAX j" if "map_of (m_faces f) i = Some face" for i face
    using face_table_okD(4) [OF assms(1) that] assms(2) by simp
  then show ?thesis using assms(1) unfolding face_table_ok_def by simp
qed

lemma addImpl_ok:
  assumes "face_table_ok f" and "faces f face = Some fc" and "getId fc = INVALID_FACEID" and "faceId \<noteq> INVALID_FACEID"
    and "map_of (m_faces f) faceId = None" and "faceId \<le> max FACEID_RESERVED_MAX (m_lastFaceId f)"
  obtains g where "FaceTable_addImpl face faceId f = Some g" and "face_table_ok g" and "m_faces g = AList.update faceId face (m_faces f)"
    and "faces g = (faces f)(face \<mapsto> fc\<lparr>getId := faceId\<rparr>)" and "m_lastFaceId g = m_lastFaceId f"
proof -
  let ?g = "setId face faceId f\<lparr>m_faces := AList.update faceId face (m_faces f)\<rparr>"
  have fs: "faces ?g = (faces f)(face \<mapsto> fc\<lparr>getId := faceId\<rparr>)" using assms(2) by (simp add: setId_def)
  have mf: "m_faces ?g = AList.update faceId face (m_faces f)" by simp
  have mp: "map_of (m_faces ?g) = (map_of (m_faces f))(faceId \<mapsto> face)" by (simp add: update_conv')
  have lst: "m_lastFaceId ?g = m_lastFaceId f" by (simp add: setId_def)
  have other: "k \<noteq> face" if "map_of (m_faces f) i = Some k" for i k
    using face_table_okD(2) [OF assms(1) that] face_table_okD(1) [OF assms(1)] assms(2,3) that by auto
  have "face_table_ok ?g"
    unfolding face_table_ok_def
  proof (intro conjI allI impI)
    show "distinct (map fst (m_faces ?g))" unfolding mf using assms(1) by (simp add: face_table_ok_def distinct_update)
    show "map_of (m_faces ?g) INVALID_FACEID = None" unfolding mp using assms(4) face_table_okD(1) [OF assms(1)] by simp
    show "\<exists>fc. faces ?g k = Some fc \<and> getId fc = i" if "map_of (m_faces ?g) i = Some k" for i k
      using that face_table_okD(2) [OF assms(1), of i k] other [of i k] unfolding mp fs by (auto split: if_splits)
    show "map_of (m_faces ?g) (getId d) = Some k" if "faces ?g k = Some d" "getId d \<noteq> INVALID_FACEID" for k d
    proof (cases "k = face")
      case False
      then have "map_of (m_faces f) (getId d) = Some k" using that face_table_okD(3) [OF assms(1), of k d] unfolding fs by simp
      moreover from this have "getId d \<noteq> faceId" using assms(5) by auto
      ultimately show ?thesis unfolding mp by simp
    next
      case True
      then have "d = fc\<lparr>getId := faceId\<rparr>" using that(1) unfolding fs by simp
      then show ?thesis using True unfolding mp by simp
    qed
    show "i \<le> max FACEID_RESERVED_MAX (m_lastFaceId ?g)" if "map_of (m_faces ?g) i = Some k" for i k
      using that face_table_okD(4) [OF assms(1), of i k] assms(6) unfolding mp lst by (auto split: if_splits)
  qed
  moreover have "FaceTable_addImpl face faceId f = Some ?g" using assms(5) by (simp add: FaceTable_addImpl_def setId_def)
  ultimately show ?thesis using that fs mf lst by blast
qed

text \<open>C28: adding faces: on a face table in which ids and faces correspond one to one and whose id
  counter has not reached its maximum, adding a face that is in no table gives it a fresh id
  above the reserved ones, under which the table then finds exactly this face, keeps every
  other face, and keeps the correspondence; adding a face that is in the table changes
  nothing; a free reserved id can be given to a face.\<close>

theorem face_table_add:
  assumes "face_table_ok f" and "faces f face = Some fc" and "FACEID_RESERVED_MAX \<le> m_lastFaceId f" and "m_lastFaceId f + 1 < 2 ^ 64"
  shows "(getId fc = INVALID_FACEID \<longrightarrow> (\<exists>g. FaceTable_add face f = Some g \<and> face_table_ok g \<and>
      FaceTable_get (m_lastFaceId f + 1) g = Some face \<and> FaceTable_get (m_lastFaceId f + 1) f = None \<and>
      (\<forall>i. i \<noteq> m_lastFaceId f + 1 \<longrightarrow> FaceTable_get i g = FaceTable_get i f))) \<and>
    (getId fc \<noteq> INVALID_FACEID \<longrightarrow> FaceTable_add face f = Some f) \<and>
    (getId fc = INVALID_FACEID \<longrightarrow> faceId \<noteq> INVALID_FACEID \<longrightarrow> faceId \<le> FACEID_RESERVED_MAX \<longrightarrow> FaceTable_get faceId f = None \<longrightarrow>
      (\<exists>g. FaceTable_addReserved face faceId f = Some g \<and> face_table_ok g \<and> FaceTable_get faceId g = Some face \<and>
        (\<forall>i. i \<noteq> faceId \<longrightarrow> FaceTable_get i g = FaceTable_get i f)))"
proof (intro conjI impI)
  assume inv: "getId fc = INVALID_FACEID"
  let ?i = "m_lastFaceId f + 1"
  let ?f = "f\<lparr>m_lastFaceId := ?i\<rparr>"
  have free: "map_of (m_faces f) ?i = None"
  proof (cases "map_of (m_faces f) ?i")
    case (Some k)
    from face_table_okD(4) [OF assms(1) this] assms(3) show ?thesis by simp
  qed
  have ok: "face_table_ok ?f" by (rule face_table_ok_last [OF assms(1)]) simp
  obtain g where g: "FaceTable_addImpl face ?i ?f = Some g" "face_table_ok g" "m_faces g = AList.update ?i face (m_faces ?f)"
    using addImpl_ok [OF ok, of face fc ?i] assms(2) inv free by (auto simp: INVALID_FACEID_def)
  have "FaceTable_add face f = Some g"
    using assms(2-4) inv g(1) face_table_okD(1) [OF assms(1)] by (simp add: FaceTable_add_def Let_def)
  then show "\<exists>g. FaceTable_add face f = Some g \<and> face_table_ok g \<and> FaceTable_get ?i g = Some face \<and>
      FaceTable_get ?i f = None \<and> (\<forall>i. i \<noteq> ?i \<longrightarrow> FaceTable_get i g = FaceTable_get i f)"
    using g(2,3) free by (simp add: FaceTable_get_def update_conv)
next
  assume "getId fc \<noteq> INVALID_FACEID"
  then show "FaceTable_add face f = Some f"
    using assms(2) face_table_okD(3) [OF assms(1,2)] by (simp add: FaceTable_add_def)
next
  assume a: "getId fc = INVALID_FACEID" "faceId \<noteq> INVALID_FACEID" "faceId \<le> FACEID_RESERVED_MAX" "FaceTable_get faceId f = None"
  obtain g where g: "FaceTable_addImpl face faceId f = Some g" "face_table_ok g" "m_faces g = AList.update faceId face (m_faces f)"
    using addImpl_ok [OF assms(1,2) a(1,2)] a(3,4) unfolding FaceTable_get_def by (metis max.coboundedI1)
  then show "\<exists>g. FaceTable_addReserved face faceId f = Some g \<and> face_table_ok g \<and> FaceTable_get faceId g = Some face \<and>
        (\<forall>i. i \<noteq> faceId \<longrightarrow> FaceTable_get i g = FaceTable_get i f)"
    using assms(2) a by (simp add: FaceTable_addReserved_def FaceTable_get_def update_conv)
qed


definition example_face :: face where
  "example_face = \<lparr>getId = INVALID_FACEID, getScope = FACE_SCOPE_NON_LOCAL, getLinkType = LINK_TYPE_POINT_TO_POINT\<rparr>"

definition no_counts :: ForwarderCounters where
  "no_counts = \<lparr>nInInterests = 0, nOutInterests = 0, nInData = 0, nOutData = 0, nInNacks = 0, nOutNacks = 0,
     nSatisfiedInterests = 0, nUnsatisfiedInterests = 0, nCsHits = 0, nCsMisses = 0\<rparr>"

definition example_forwarder :: "(face_ref \<Rightarrow> face option) \<Rightarrow> (unit, unit) forwarder" where
  "example_forwarder fs = tables.extend (tables_new (the (NameTree (\<lambda>c. 0) 16)))
     (forwarder.fields no_counts fs [] FACEID_RESERVED_MAX DropAll
       \<lparr>cs_table = [], cs_policy = (), m_limit = 0, m_shouldAdmit = True, m_shouldServe = True\<rparr>
       (the (DeadNonceList 0 DEFAULT_LIFETIME)) [] 0 None [])"

lemma example_forwarder_fields [simp]:
  "faces (example_forwarder fs) = fs" "m_faces (example_forwarder fs) = []" "m_lastFaceId (example_forwarder fs) = FACEID_RESERVED_MAX"
  "sent (example_forwarder fs) = []"
  by (simp_all add: example_forwarder_def tables_new_def tables.defs forwarder.defs)

theorem face_table_add_witness:
  "\<exists>g. FaceTable_add 1 (example_forwarder [1 \<mapsto> example_face]) = Some g \<and> FaceTable_get 256 g = Some 1"
proof -
  let ?f = "example_forwarder [1 \<mapsto> example_face]"
  have ok: "face_table_ok ?f" "faces ?f 1 = Some example_face" "getId example_face = INVALID_FACEID"
    by (simp_all add: face_table_ok_def example_face_def)
  have "FACEID_RESERVED_MAX \<le> m_lastFaceId ?f" "m_lastFaceId ?f + 1 < 2 ^ 64" by (simp_all add: FACEID_RESERVED_MAX_def)
  from face_table_add [OF ok(1,2) this] ok(3)
  have "\<exists>g. FaceTable_add 1 ?f = Some g \<and> FaceTable_get (m_lastFaceId ?f + 1) g = Some 1" by blast
  then show ?thesis by (simp add: FACEID_RESERVED_MAX_def)
qed

end
