(* ===== verification/Strategies.thy ===== *)
theory Strategies
  imports Forwarder_State
begin

text \<open>
  Forwarding strategies: the actions and default triggers of \<^verbatim>\<open>daemon/fw/strategy.{hpp,cpp}\<close>, Nack
  processing (\<^verbatim>\<open>daemon/fw/process-nack-traits.{hpp,cpp}\<close>), and the strategies
  \<^verbatim>\<open>best-route-strategy\<close>, \<^verbatim>\<open>best-route-strategy2\<close> and \<^verbatim>\<open>multicast-strategy\<close>.

  A set of face pointers is iterated in the order of addresses; an unordered set in the
  order of the in-records, one of the orders it may have.

  The lemmas: a strategy sends an Interest only where the scope allows it; the assertion of
  the retransmission branch of best route cannot fail.
\<close>

subsection \<open>Actions\<close>

abbreviation sendInterest :: "time \<Rightarrow> pit_ref \<Rightarrow> face_ref \<Rightarrow> interest \<Rightarrow> ('p, 'x) forwarder \<Rightarrow> ('p, 'x) forwarder option" where
  "sendInterest \<equiv> onOutgoingInterest"

abbreviation sendNack :: "pit_ref \<Rightarrow> face_ref \<Rightarrow> nack_reason \<Rightarrow> ('p, 'x) forwarder \<Rightarrow> ('p, 'x) forwarder option" where
  "sendNack \<equiv> onOutgoingNack"

definition rejectPendingInterest :: "time \<Rightarrow> pit_ref \<Rightarrow> ('p, 'x) forwarder \<Rightarrow> ('p, 'x) forwarder option" where
  "rejectPendingInterest now r f = setExpiryTimer now r 0 f"

definition sendData :: "('p, 'x) fw_env \<Rightarrow> pit_ref \<Rightarrow> data \<Rightarrow> face_ref \<Rightarrow> ('p, 'x) forwarder \<Rightarrow> ('p, 'x) forwarder option" where
  "sendData env r data outFace f = do {
     pe \<leftarrow> pit_heap f r;
     assert (fe_matchesData env (m_interest pe) data);
     f \<leftarrow> change_pit r (\<lambda>pe. Some (deleteInRecord outFace pe)) f;
     onOutgoingData data outFace f
   }"

text \<open>
  The faces of the unexpired in-records; sending back to the face the Data came from is
  allowed only if it is ad hoc.
\<close>

definition is_same_link :: "('p, 'x) forwarder \<Rightarrow> face_ref \<Rightarrow> face_ref \<Rightarrow> bool" where
  "is_same_link f face inFace \<longleftrightarrow> (case (faces f face, faces f inFace) of
       (Some a, Some b) \<Rightarrow> getId a = getId b \<and> getLinkType a \<noteq> LINK_TYPE_AD_HOC
     | _ \<Rightarrow> False)"

definition unexpired_downstreams :: "time \<Rightarrow> strategy_info pit_entry \<Rightarrow> face_ref list" where
  "unexpired_downstreams now pe = map fr_face (filter (\<lambda>inRecord. m_expiry inRecord > now) (m_inRecords pe))"

fun send_data_each :: "('p, 'x) fw_env \<Rightarrow> pit_ref \<Rightarrow> data \<Rightarrow> face_ref list \<Rightarrow> ('p, 'x) forwarder \<Rightarrow> ('p, 'x) forwarder option" where
  "send_data_each env r data [] f = Some f"
| "send_data_each env r data (face # fs) f = do {
     f \<leftarrow> sendData env r data face f;
     send_data_each env r data fs f
   }"

definition sendDataToAll :: "('p, 'x) fw_env \<Rightarrow> time \<Rightarrow> pit_ref \<Rightarrow> face_ref \<Rightarrow> data \<Rightarrow> ('p, 'x) forwarder \<Rightarrow>
    ('p, 'x) forwarder option" where
  "sendDataToAll env now r inFace data f = do {
     pe \<leftarrow> pit_heap f r;
     let pendingDownstreams = sorted_list_of_set
       (set (filter (\<lambda>face. \<not> is_same_link f face inFace) (unexpired_downstreams now pe)));
     send_data_each env r data pendingDownstreams f
   }"

fun send_nack_each :: "pit_ref \<Rightarrow> nack_reason \<Rightarrow> face_ref list \<Rightarrow> ('p, 'x) forwarder \<Rightarrow> ('p, 'x) forwarder option" where
  "send_nack_each r reason [] f = Some f"
| "send_nack_each r reason (face # fs) f = do {
     f \<leftarrow> sendNack r face reason f;
     send_nack_each r reason fs f
   }"

definition sendNacks :: "pit_ref \<Rightarrow> nack_reason \<Rightarrow> face_ref list \<Rightarrow> ('p, 'x) forwarder \<Rightarrow> ('p, 'x) forwarder option" where
  "sendNacks r reason exceptFaces f = do {
     pe \<leftarrow> pit_heap f r;
     let downstreams = filter (\<lambda>face. face \<notin> set exceptFaces) (remdups (map fr_face (m_inRecords pe)));
     send_nack_each r reason downstreams f
   }"

text \<open>The entry found last, or the result of the first delegation whose entry has next hops.\<close>

fun lookup_delegations :: "('p, 'x) forwarder \<Rightarrow> name list \<Rightarrow> fib_entry option \<Rightarrow> fib_entry option" where
  "lookup_delegations f [] fibEntry = do {
     e \<leftarrow> fibEntry;
     assert (fib_prefix e = []);
     Some e
   }"
| "lookup_delegations f (del # fh) fibEntry = do {
     ref \<leftarrow> Fib_findLongestPrefixMatch f del;
     e \<leftarrow> fib_deref f ref;
     if hasNextHops e then Some e
     else do { assert (fib_prefix e = []); lookup_delegations f fh (Some e) }
   }"

definition lookupFib :: "strategy_info pit_entry \<Rightarrow> ('p, 'x) forwarder \<Rightarrow> fib_entry option" where
  "lookupFib pe f = (let fh = getForwardingHint (m_interest pe) in
     if fh = [] then do {
       ref \<leftarrow> Fib_findLongestPrefixMatch_pit f pe;
       fib_deref f ref
     }
     else do {
       assert (\<not> isInProducerRegion (m_networkRegionTable f) fh);
       lookup_delegations f fh None
     })"

subsection \<open>Default triggers\<close>

definition beforeSatisfyInterest :: "pit_ref \<Rightarrow> face_ref \<Rightarrow> data \<Rightarrow> ('p, 'x) forwarder \<Rightarrow> ('p, 'x) forwarder option" where
  "beforeSatisfyInterest r inFace data f = Some f"

definition afterContentStoreHit :: "('p, 'x) fw_env \<Rightarrow> pit_ref \<Rightarrow> face_ref \<Rightarrow> data \<Rightarrow> ('p, 'x) forwarder \<Rightarrow>
    ('p, 'x) forwarder option" where
  "afterContentStoreHit env r inFace data f = sendData env r data inFace f"

definition afterReceiveData :: "('p, 'x) fw_env \<Rightarrow> time \<Rightarrow> pit_ref \<Rightarrow> face_ref \<Rightarrow> data \<Rightarrow> ('p, 'x) forwarder \<Rightarrow>
    ('p, 'x) forwarder option" where
  "afterReceiveData env now r inFace data f = do {
     f \<leftarrow> beforeSatisfyInterest r inFace data f;
     sendDataToAll env now r inFace data f
   }"

subsection \<open>Processing Nacks\<close>

record nack_scan =
  nOutRecordsNotNacked :: nat
  lastFaceNotNacked :: "face_ref option"
  leastSevereReason :: nack_reason

fun scan_nacks :: "(nack_reason \<Rightarrow> nack_reason \<Rightarrow> bool) \<Rightarrow> strategy_info OutRecord list \<Rightarrow> nack_scan \<Rightarrow> nack_scan" where
  "scan_nacks isLessSevere [] s = s"
| "scan_nacks isLessSevere (outR # outRs) s = scan_nacks isLessSevere outRs (case m_incomingNack outR of
       None \<Rightarrow> s\<lparr>nOutRecordsNotNacked := nOutRecordsNotNacked s + 1, lastFaceNotNacked := Some (fr_face outR)\<rparr>
     | Some reason \<Rightarrow> if isLessSevere reason (leastSevereReason s) then s\<lparr>leastSevereReason := reason\<rparr> else s)"

definition processNack :: "('p, 'x) fw_env \<Rightarrow> face_ref \<Rightarrow> nack \<Rightarrow> pit_ref \<Rightarrow> ('p, 'x) forwarder \<Rightarrow> ('p, 'x) forwarder option" where
  "processNack env inFace nack r f = do {
     pe \<leftarrow> pit_heap f r;
     let s = scan_nacks (fe_isLessSevere env) (m_outRecords pe)
       \<lparr>nOutRecordsNotNacked = 0, lastFaceNotNacked = None, leastSevereReason = NACK_NONE\<rparr>;
     let outNack = leastSevereReason s;
     bidirectional \<leftarrow> (if nOutRecordsNotNacked s = 1
       then do { face \<leftarrow> lastFaceNotNacked s; Some (if getInRecord pe face \<noteq> None then Some face else None) }
       else Some None);
     case bidirectional of
       Some face \<Rightarrow> sendNack r face outNack f
     | None \<Rightarrow> if nOutRecordsNotNacked s > 0 then Some f else sendNacks r outNack [] f
   }"

subsection \<open>Best route, version 1\<close>

fun bestroute_forward :: "time \<Rightarrow> face_ref \<Rightarrow> interest \<Rightarrow> pit_ref \<Rightarrow> NextHop list \<Rightarrow> ('p, 'x) forwarder \<Rightarrow>
    ('p, 'x) forwarder option" where
  "bestroute_forward now inFace interest r [] f = rejectPendingInterest now r f"
| "bestroute_forward now inFace interest r (nexthop # nexthops) f = do {
     inF \<leftarrow> faces f inFace;
     outF \<leftarrow> faces f (nh_face nexthop);
     pe \<leftarrow> pit_heap f r;
     if \<not> wouldViolateScope inF interest outF \<and> canForwardToLegacy now pe (nh_face nexthop)
     then sendInterest now r (nh_face nexthop) interest f
     else bestroute_forward now inFace interest r nexthops f
   }"

definition BestRouteStrategyBase_afterReceiveInterest :: "time \<Rightarrow> face_ref \<Rightarrow> interest \<Rightarrow> pit_ref \<Rightarrow> ('p, 'x) forwarder \<Rightarrow>
    ('p, 'x) forwarder option" where
  "BestRouteStrategyBase_afterReceiveInterest now inFace interest r f = do {
     pe \<leftarrow> pit_heap f r;
     if hasPendingOutRecords now pe then Some f
     else do {
       fibEntry \<leftarrow> lookupFib pe f;
       bestroute_forward now inFace interest r (m_nextHops fibEntry) f
     }
   }"

subsection \<open>Best route, version 5\<close>

text \<open>\<open>unused\<close> is the current time when the next hop must not have an unexpired out-record.\<close>

definition isNextHopEligible :: "('p, 'x) forwarder \<Rightarrow> face_ref \<Rightarrow> interest \<Rightarrow> strategy_info pit_entry \<Rightarrow> time option \<Rightarrow>
    NextHop \<Rightarrow> bool option" where
  "isNextHopEligible f inFace interest pe unused nexthop = do {
     inF \<leftarrow> faces f inFace;
     outF \<leftarrow> faces f (nh_face nexthop);
     Some (if getId outF = getId inF \<and> getLinkType outF \<noteq> LINK_TYPE_AD_HOC then False
       else if wouldViolateScope inF interest outF then False
       else (case unused of
           None \<Rightarrow> True
         | Some now \<Rightarrow> (case getOutRecord pe (nh_face nexthop) of
             None \<Rightarrow> True
           | Some outRecord \<Rightarrow> \<not> m_expiry outRecord > now)))
   }"

fun find_eligible :: "('p, 'x) forwarder \<Rightarrow> face_ref \<Rightarrow> interest \<Rightarrow> strategy_info pit_entry \<Rightarrow> time option \<Rightarrow> NextHop list \<Rightarrow>
    NextHop option option" where
  "find_eligible f inFace interest pe unused [] = Some None"
| "find_eligible f inFace interest pe unused (nexthop # nexthops) = do {
     ok \<leftarrow> isNextHopEligible f inFace interest pe unused nexthop;
     if ok then Some (Some nexthop) else find_eligible f inFace interest pe unused nexthops
   }"

text \<open>\<open>earliestRenewed\<close> is None for the maximal time point, which every out-record precedes.\<close>

fun earliest_loop :: "('p, 'x) forwarder \<Rightarrow> face_ref \<Rightarrow> interest \<Rightarrow> strategy_info pit_entry \<Rightarrow> NextHop list \<Rightarrow>
    NextHop option \<Rightarrow> time option \<Rightarrow> NextHop option option" where
  "earliest_loop f inFace interest pe [] found earliestRenewed = Some found"
| "earliest_loop f inFace interest pe (it # nexthops) found earliestRenewed = do {
     ok \<leftarrow> isNextHopEligible f inFace interest pe None it;
     if \<not> ok then earliest_loop f inFace interest pe nexthops found earliestRenewed
     else do {
       outRecord \<leftarrow> getOutRecord pe (nh_face it);
       if (case earliestRenewed of None \<Rightarrow> True | Some t \<Rightarrow> m_lastRenewed outRecord < t)
       then earliest_loop f inFace interest pe nexthops (Some it) (Some (m_lastRenewed outRecord))
       else earliest_loop f inFace interest pe nexthops found earliestRenewed
     }
   }"

definition findEligibleNextHopWithEarliestOutRecord :: "('p, 'x) forwarder \<Rightarrow> face_ref \<Rightarrow> interest \<Rightarrow> NextHop list \<Rightarrow>
    strategy_info pit_entry \<Rightarrow> NextHop option option" where
  "findEligibleNextHopWithEarliestOutRecord f inFace interest nexthops pe = earliest_loop f inFace interest pe nexthops None None"

definition BestRouteStrategy2_afterReceiveInterest :: "RetxSuppressionExponential \<Rightarrow> time \<Rightarrow> face_ref \<Rightarrow> interest \<Rightarrow> pit_ref \<Rightarrow>
    ('p, 'x) forwarder \<Rightarrow> ('p, 'x) forwarder option" where
  "BestRouteStrategy2_afterReceiveInterest rs now inFace interest r f = do {
     pe \<leftarrow> pit_heap f r;
     (pe, suppression) \<leftarrow> decidePerPitEntry now rs pe;
     f \<leftarrow> change_pit r (\<lambda>_. Some pe) f;
     if suppression = RETX_SUPPRESS then Some f
     else do {
       fibEntry \<leftarrow> lookupFib pe f;
       let nexthops = m_nextHops fibEntry;
       if suppression = RETX_NEW then do {
         it \<leftarrow> find_eligible f inFace interest pe None nexthops;
         case it of
           None \<Rightarrow> do {
             f \<leftarrow> sendNack r inFace NACK_NO_ROUTE f;
             rejectPendingInterest now r f
           }
         | Some nexthop \<Rightarrow> sendInterest now r (nh_face nexthop) interest f
       }
       else do {
         it \<leftarrow> find_eligible f inFace interest pe (Some now) nexthops;
         case it of
           Some nexthop \<Rightarrow> sendInterest now r (nh_face nexthop) interest f
         | None \<Rightarrow> do {
             it \<leftarrow> findEligibleNextHopWithEarliestOutRecord f inFace interest nexthops pe;
             case it of None \<Rightarrow> Some f | Some nexthop \<Rightarrow> sendInterest now r (nh_face nexthop) interest f
           }
       }
     }
   }"

subsection \<open>Multicast\<close>

fun multicast_loop :: "RetxSuppressionExponential \<Rightarrow> time \<Rightarrow> face_ref \<Rightarrow> interest \<Rightarrow> pit_ref \<Rightarrow> NextHop list \<Rightarrow> nat \<Rightarrow> bool \<Rightarrow>
    ('p, 'x) forwarder \<Rightarrow> (('p, 'x) forwarder \<times> nat \<times> bool) option" where
  "multicast_loop rs now inFace interest r [] nEligibleNextHops isSuppressed f = Some (f, nEligibleNextHops, isSuppressed)"
| "multicast_loop rs now inFace interest r (nexthop # nexthops) nEligibleNextHops isSuppressed f = do {
     let outFace = nh_face nexthop;
     pe \<leftarrow> pit_heap f r;
     let (pe, suppressResult) = decidePerUpstream now rs pe outFace;
     f \<leftarrow> change_pit r (\<lambda>_. Some pe) f;
     if suppressResult = RETX_SUPPRESS then multicast_loop rs now inFace interest r nexthops nEligibleNextHops True f
     else do {
       inF \<leftarrow> faces f inFace;
       outF \<leftarrow> faces f outFace;
       if getId outF = getId inF \<and> getLinkType outF \<noteq> LINK_TYPE_AD_HOC \<or> wouldViolateScope inF interest outF
       then multicast_loop rs now inFace interest r nexthops nEligibleNextHops isSuppressed f
       else do {
         f \<leftarrow> sendInterest now r outFace interest f;
         f \<leftarrow> (if suppressResult = RETX_FORWARD
           then change_pit r (\<lambda>pe. Some (pe\<lparr>m_outRecords :=
             update_first (\<lambda>outR. fr_face outR = outFace) (incrementIntervalForOutRecord rs) (m_outRecords pe)\<rparr>)) f
           else Some f);
         multicast_loop rs now inFace interest r nexthops (nEligibleNextHops + 1) isSuppressed f
       }
     }
   }"

definition MulticastStrategy_afterReceiveInterest :: "RetxSuppressionExponential \<Rightarrow> time \<Rightarrow> face_ref \<Rightarrow> interest \<Rightarrow> pit_ref \<Rightarrow>
    ('p, 'x) forwarder \<Rightarrow> ('p, 'x) forwarder option" where
  "MulticastStrategy_afterReceiveInterest rs now inFace interest r f = do {
     pe \<leftarrow> pit_heap f r;
     fibEntry \<leftarrow> lookupFib pe f;
     (f, nEligibleNextHops, isSuppressed) \<leftarrow> multicast_loop rs now inFace interest r (m_nextHops fibEntry) 0 False f;
     if nEligibleNextHops = 0 \<and> \<not> isSuppressed then do {
       f \<leftarrow> sendNack r inFace NACK_NO_ROUTE f;
       rejectPendingInterest now r f
     }
     else Some f
   }"

subsection \<open>Dispatch on the strategy\<close>

definition afterReceiveInterest :: "strategy \<Rightarrow> time \<Rightarrow> face_ref \<Rightarrow> interest \<Rightarrow> pit_ref \<Rightarrow> ('p, 'x) forwarder \<Rightarrow>
    ('p, 'x) forwarder option" where
  "afterReceiveInterest strategy = (case strategy of
       BestRouteStrategy \<Rightarrow> BestRouteStrategyBase_afterReceiveInterest
     | BestRouteStrategy2 rs \<Rightarrow> BestRouteStrategy2_afterReceiveInterest rs
     | MulticastStrategy rs \<Rightarrow> MulticastStrategy_afterReceiveInterest rs)"

definition afterReceiveNack :: "strategy \<Rightarrow> ('p, 'x) fw_env \<Rightarrow> face_ref \<Rightarrow> nack \<Rightarrow> pit_ref \<Rightarrow> ('p, 'x) forwarder \<Rightarrow>
    ('p, 'x) forwarder option" where
  "afterReceiveNack strategy env inFace nack r f = (case strategy of
       BestRouteStrategy \<Rightarrow> Some f
     | BestRouteStrategy2 rs \<Rightarrow> processNack env inFace nack r f
     | MulticastStrategy rs \<Rightarrow> processNack env inFace nack r f)"

text \<open>The constructors: an instance name with parameters or another version is refused.\<close>

definition strategy_instance :: "(component \<Rightarrow> nat option) \<Rightarrow> name \<Rightarrow> 's \<Rightarrow> name \<Rightarrow> (string + name \<times> 's) option" where
  "strategy_instance versionOf sname st name =
     (let parsed = parseInstanceName versionOf name
      in if parameters parsed \<noteq> [] then Some (Inl ''does not accept parameters'')
         else if version parsed \<noteq> None \<and> version parsed \<noteq> versionOf (last sname) then Some (Inl ''does not support version'')
         else do { n \<leftarrow> makeInstanceName versionOf name sname; Some (Inr (n, st)) })"

subsection \<open>Best route picks the upstream used earliest\<close>

abbreviation eligible :: "('p, 'x) forwarder \<Rightarrow> face_ref \<Rightarrow> interest \<Rightarrow> strategy_info pit_entry \<Rightarrow> NextHop \<Rightarrow> bool" where
  "eligible f inFace interest pe nexthop \<equiv> isNextHopEligible f inFace interest pe None nexthop = Some True"

abbreviation last_renewed :: "strategy_info pit_entry \<Rightarrow> NextHop \<Rightarrow> time" where
  "last_renewed pe nexthop \<equiv> m_lastRenewed (the (getOutRecord pe (nh_face nexthop)))"

lemma isNextHopEligible_defined:
  "faces f inFace \<noteq> None \<Longrightarrow> faces f (nh_face nexthop) \<noteq> None \<Longrightarrow> \<exists>b. isNextHopEligible f inFace interest pe unused nexthop = Some b"
  by (auto simp: isNextHopEligible_def)

lemma eligible_used:
  "eligible f inFace interest pe nexthop \<Longrightarrow> isNextHopEligible f inFace interest pe (Some now) nexthop = Some False \<Longrightarrow>
   \<exists>r. getOutRecord pe (nh_face nexthop) = Some r \<and> m_expiry r > now"
  by (auto simp: isNextHopEligible_def split: bind_splits if_splits option.splits)

lemma find_eligible_spec:
  assumes "faces f inFace \<noteq> None" and "\<forall>nexthop\<in>set nexthops. faces f (nh_face nexthop) \<noteq> None"
  shows "find_eligible f inFace interest pe unused nexthops =
    Some (List.find (\<lambda>nexthop. isNextHopEligible f inFace interest pe unused nexthop = Some True) nexthops)"
  using assms(2)
proof (induction nexthops)
  case (Cons nexthop nexthops)
  obtain b where "isNextHopEligible f inFace interest pe unused nexthop = Some b"
    using isNextHopEligible_defined [OF assms(1), of nexthop interest pe unused] Cons.prems by auto
  then show ?case using Cons by (cases b) auto
qed simp

lemma earliest_loop_spec:
  assumes "faces f inFace \<noteq> None" and "\<forall>x\<in>set nexthops. faces f (nh_face x) \<noteq> None"
    and "\<forall>x\<in>set nexthops. eligible f inFace interest pe x \<longrightarrow> getOutRecord pe (nh_face x) \<noteq> None"
    and "t = map_option (last_renewed pe) found"
  shows "\<exists>res. earliest_loop f inFace interest pe nexthops found t = Some res \<and>
    (res = None \<longleftrightarrow> found = None \<and> (\<forall>x\<in>set nexthops. \<not> eligible f inFace interest pe x)) \<and>
    (\<forall>y. res = Some y \<longrightarrow> (found = Some y \<or> y \<in> set nexthops \<and> eligible f inFace interest pe y) \<and>
      (\<forall>x. found = Some x \<or> x \<in> set nexthops \<and> eligible f inFace interest pe x \<longrightarrow> last_renewed pe y \<le> last_renewed pe x))"
  using assms(2-4)
proof (induction nexthops arbitrary: found t)
  case Nil
  then show ?case by auto
next
  case (Cons it nexthops)
  obtain b where b: "isNextHopEligible f inFace interest pe None it = Some b"
    using isNextHopEligible_defined [OF assms(1), of it interest pe None] Cons.prems(1) by auto
  have fs: "\<forall>x\<in>set nexthops. faces f (nh_face x) \<noteq> None"
    "\<forall>x\<in>set nexthops. eligible f inFace interest pe x \<longrightarrow> getOutRecord pe (nh_face x) \<noteq> None" using Cons.prems(1,2) by auto
  show ?case
  proof (cases b)
    case False
    then show ?thesis using b Cons.IH [OF fs Cons.prems(3)] by auto
  next
    case True
    then obtain r where r: "getOutRecord pe (nh_face it) = Some r" using b Cons.prems(2) by auto
    have lr: "last_renewed pe it = m_lastRenewed r" using r by simp
    show ?thesis
    proof (cases "case t of None \<Rightarrow> True | Some t \<Rightarrow> m_lastRenewed r < t")
      case new: True
      have "earliest_loop f inFace interest pe (it # nexthops) found t =
          earliest_loop f inFace interest pe nexthops (Some it) (Some (m_lastRenewed r))"
        using b True r new by simp
      moreover have t: "Some (m_lastRenewed r) = map_option (last_renewed pe) (Some it)" using lr by simp
      moreover obtain y where y: "earliest_loop f inFace interest pe nexthops (Some it) (Some (m_lastRenewed r)) = Some (Some y)"
        "Some it = Some y \<or> y \<in> set nexthops \<and> eligible f inFace interest pe y"
        "\<forall>x. Some it = Some x \<or> x \<in> set nexthops \<and> eligible f inFace interest pe x \<longrightarrow> last_renewed pe y \<le> last_renewed pe x"
        using Cons.IH [OF fs t] by (metis option.discI option.exhaust)
      moreover have "last_renewed pe y \<le> last_renewed pe x" if "found = Some x" for x
      proof -
        have "m_lastRenewed r \<le> last_renewed pe x" using new Cons.prems(3) that by auto
        moreover have "last_renewed pe y \<le> last_renewed pe it" using y(3) by blast
        ultimately show ?thesis using lr by simp
      qed
      ultimately show ?thesis using b True by (intro exI [of _ "Some y"]) auto
    next
      case old: False
      have "earliest_loop f inFace interest pe (it # nexthops) found t = earliest_loop f inFace interest pe nexthops found t"
        using b True r old by simp
      moreover obtain z where z: "found = Some z" "last_renewed pe z \<le> m_lastRenewed r"
        using old Cons.prems(3) by (cases found) auto
      moreover obtain y where y: "earliest_loop f inFace interest pe nexthops found t = Some (Some y)"
        "found = Some y \<or> y \<in> set nexthops \<and> eligible f inFace interest pe y"
        "\<forall>x. found = Some x \<or> x \<in> set nexthops \<and> eligible f inFace interest pe x \<longrightarrow> last_renewed pe y \<le> last_renewed pe x"
        using Cons.IH [OF fs Cons.prems(3)] z(1) by (metis option.discI option.exhaust)
      moreover have "last_renewed pe y \<le> last_renewed pe it" using y(3) z lr by (metis order_trans)
      ultimately show ?thesis using b True by (intro exI [of _ "Some y"]) auto
    qed
  qed
qed

text \<open>C22: retransmission in best route: when every eligible next hop has already been used, the search
  for the one used earliest, which asserts that each has an out-record, does not fail; it
  returns no next hop exactly when none is eligible, and otherwise an eligible next hop
  whose out-record was renewed no later than that of any other eligible next hop.\<close>

theorem earliest_next_hop:
  assumes "faces f inFace \<noteq> None" and "\<forall>x\<in>set nexthops. faces f (nh_face x) \<noteq> None"
    and "find_eligible f inFace interest pe (Some now) nexthops = Some None"
  shows "\<exists>res. findEligibleNextHopWithEarliestOutRecord f inFace interest nexthops pe = Some res \<and>
    (res = None \<longleftrightarrow> (\<forall>x\<in>set nexthops. \<not> eligible f inFace interest pe x)) \<and>
    (\<forall>y. res = Some y \<longrightarrow> y \<in> set nexthops \<and> eligible f inFace interest pe y \<and>
      (\<exists>r. getOutRecord pe (nh_face y) = Some r \<and> (\<forall>x\<in>set nexthops. eligible f inFace interest pe x \<longrightarrow>
        (\<exists>s. getOutRecord pe (nh_face x) = Some s \<and> m_lastRenewed r \<le> m_lastRenewed s))))"
proof -
  have "isNextHopEligible f inFace interest pe (Some now) x = Some False" if x: "x \<in> set nexthops" for x
  proof -
    obtain b where b: "isNextHopEligible f inFace interest pe (Some now) x = Some b"
      using isNextHopEligible_defined [OF assms(1), of x interest pe "Some now"] assms(2) x by auto
    then show ?thesis using assms(3) x unfolding find_eligible_spec [OF assms(1,2)] by (auto simp: find_None_iff)
  qed
  then have out: "\<exists>r. getOutRecord pe (nh_face x) = Some r" if "x \<in> set nexthops" "eligible f inFace interest pe x" for x
    using eligible_used that by blast
  then have "\<forall>x\<in>set nexthops. eligible f inFace interest pe x \<longrightarrow> getOutRecord pe (nh_face x) \<noteq> None" by auto
  from earliest_loop_spec [OF assms(1,2) this, of None None] obtain res where res:
    "findEligibleNextHopWithEarliestOutRecord f inFace interest nexthops pe = Some res"
    "res = None \<longleftrightarrow> (\<forall>x\<in>set nexthops. \<not> eligible f inFace interest pe x)"
    "\<And>y. res = Some y \<Longrightarrow> y \<in> set nexthops \<and> eligible f inFace interest pe y \<and>
      (\<forall>x. x \<in> set nexthops \<and> eligible f inFace interest pe x \<longrightarrow> last_renewed pe y \<le> last_renewed pe x)"
    by (auto simp: findEligibleNextHopWithEarliestOutRecord_def)
  have "\<exists>r. getOutRecord pe (nh_face y) = Some r \<and> (\<forall>x\<in>set nexthops. eligible f inFace interest pe x \<longrightarrow>
        (\<exists>s. getOutRecord pe (nh_face x) = Some s \<and> m_lastRenewed r \<le> m_lastRenewed s))" if y: "res = Some y" for y
  proof -
    obtain r where r: "getOutRecord pe (nh_face y) = Some r" using out res(3) [OF y] by blast
    have "\<exists>s. getOutRecord pe (nh_face x) = Some s \<and> m_lastRenewed r \<le> m_lastRenewed s"
      if x: "x \<in> set nexthops" "eligible f inFace interest pe x" for x
    proof -
      obtain s where s: "getOutRecord pe (nh_face x) = Some s" using out [OF x] by blast
      have "last_renewed pe y \<le> last_renewed pe x" using res(3) [OF y] x by blast
      then show ?thesis using r s by simp
    qed
    then show ?thesis using r by blast
  qed
  then show ?thesis using res by blast
qed

definition example_fw_env :: "(unit, unit) fw_env" where
  "example_fw_env = \<lparr>fe_less = octet_less, fe_successor = octet_successor, fe_matchesData = (\<lambda>i d. prefix (getName i) (getDataName d)),
     fe_wireEncode = (\<lambda>n. replicate (length n) 0), fe_isLessSevere = (\<lambda>a b. b = NACK_NONE),
     fe_policy = \<lparr>doAfterInsert = (\<lambda>_ _ cs. Some cs), doAfterRefresh = (\<lambda>_ _ cs. Some cs), doBeforeErase = (\<lambda>_ cs. Some cs),
       doBeforeUse = (\<lambda>_ cs. Some cs), evictAll = Some\<rparr>,
     fe_Lookup = (\<lambda>i x. (x, None)), fe_Add = (\<lambda>d x. x)\<rparr>"

definition example_interest :: "name \<Rightarrow> interest" where
  "example_interest n = \<lparr>getName = n, getSelectors = \<lparr>getMustBeFresh = False, getChildSelector = 0, otherSelectors = []\<rparr>,
     getNonce = 5, getInterestLifetime = 4000, getForwardingHint = [], getNextHopFaceId = None\<rparr>"

definition used_record :: "face_ref \<Rightarrow> time \<Rightarrow> strategy_info OutRecord" where
  "used_record face t = \<lparr>fr_face = face, m_lastNonce = 5, m_lastRenewed = t, m_expiry = t + 100, fr_info = [], m_incomingNack = None\<rparr>"

definition used_entry :: "strategy_info pit_entry" where
  "used_entry = (pit_Entry (example_interest [Generic ''a'']))\<lparr>m_outRecords := [used_record 2 10, used_record 3 7]\<rparr>"

definition three_faces :: "face_ref \<Rightarrow> face option" where
  "three_faces = [1 \<mapsto> example_face\<lparr>getId := 261\<rparr>, 2 \<mapsto> example_face\<lparr>getId := 262\<rparr>, 3 \<mapsto> example_face\<lparr>getId := 263\<rparr>]"

theorem earliest_next_hop_witness:
  "\<exists>res. findEligibleNextHopWithEarliestOutRecord (example_forwarder three_faces) 1 (example_interest [Generic ''a''])
     [NextHop_new 2 0, NextHop_new 3 0] used_entry = Some res \<and> res \<noteq> None"
proof -
  let ?f = "example_forwarder three_faces" and ?i = "example_interest [Generic ''a'']" and ?hs = "[NextHop_new 2 0, NextHop_new 3 0]"
  note defs = three_faces_def NextHop_new_def example_face_def used_entry_def pit_Entry_def used_record_def
    isNextHopEligible_def wouldViolateScope_def example_interest_def LOCALHOST_def LOCALHOP_def getOutRecord_def
  have fs: "faces ?f 1 \<noteq> None" "\<forall>x\<in>set ?hs. faces ?f (nh_face x) \<noteq> None" by (simp_all add: defs)
  have all: "find_eligible ?f 1 ?i used_entry (Some 20) ?hs = Some None" by (simp add: defs)
  have "eligible ?f 1 ?i used_entry (NextHop_new 2 0)" by (simp add: defs)
  with earliest_next_hop [OF fs all] show ?thesis by auto
qed

end
