(* ===== verification/Forwarder.thy ===== *)
theory Forwarder
  imports Strategies
begin

text \<open>
  The forwarding pipelines of \<^verbatim>\<open>daemon/fw/forwarder.{hpp,cpp}\<close> from a packet's arrival on: incoming
  Interest, Interest loop, content store hit and miss, incoming Data, unsolicited Data and incoming
  Nack, each dispatching to the effective strategy of the PIT entry.

  The lemmas: no pipeline sends a packet that violates the /localhost scope, whatever the
  state; a looping Interest is not forwarded and leaves the tables alone.
\<close>

subsection \<open>Pipelines\<close>

definition dispatchToStrategy :: "pit_ref \<Rightarrow> (strategy \<Rightarrow> ('p, 'x) forwarder \<Rightarrow> ('p, 'x) forwarder option) \<Rightarrow> ('p, 'x) forwarder \<Rightarrow>
    ('p, 'x) forwarder option" where
  "dispatchToStrategy r trigger f = do {
     pe \<leftarrow> pit_heap f r;
     s \<leftarrow> findEffectiveStrategy_pit f pe;
     (_, st) \<leftarrow> strategies f s;
     trigger st f
   }"

definition onInterestLoop :: "face_ref \<Rightarrow> interest \<Rightarrow> ('p, 'x) forwarder \<Rightarrow> ('p, 'x) forwarder option" where
  "onInterestLoop inFace interest f = do {
     inF \<leftarrow> faces f inFace;
     if getLinkType inF \<noteq> LINK_TYPE_POINT_TO_POINT then Some f
     else Some (send (SentNack inFace \<lparr>getInterest = interest, getReason = NACK_DUPLICATE\<rparr>) f)
   }"

text \<open>\<^verbatim>\<open>duration_cast\<close> truncates towards zero.\<close>

definition to_ms :: "time \<Rightarrow> int" where
  "to_ms t = (if t \<ge> 0 then t div 1000000 else - (- t div 1000000))"

definition onContentStoreMiss :: "time \<Rightarrow> face_ref \<Rightarrow> pit_ref \<Rightarrow> interest \<Rightarrow> ('p, 'x) forwarder \<Rightarrow> ('p, 'x) forwarder option" where
  "onContentStoreMiss now inFace r interest f = do {
     let f = bump (nCsMisses_update (\<lambda>c. c + 1)) f;
     f \<leftarrow> change_pit r (insertOrUpdateInRecord now inFace interest) f;
     pe \<leftarrow> pit_heap f r;
     lastExpiring \<leftarrow> max_element m_expiry (m_inRecords pe);
     let lastExpiryFromNow = m_expiry lastExpiring - now;
     f \<leftarrow> setExpiryTimer now r (to_ms lastExpiryFromNow) f;
     case getNextHopFaceId interest of
       Some faceId \<Rightarrow> (case FaceTable_get faceId f of
           Some nextHopFace \<Rightarrow> onOutgoingInterest now r nextHopFace interest f
         | None \<Rightarrow> Some f)
     | None \<Rightarrow> dispatchToStrategy r (\<lambda>st. afterReceiveInterest st now inFace interest r) f
   }"

definition onContentStoreHit :: "('p, 'x) fw_env \<Rightarrow> time \<Rightarrow> face_ref \<Rightarrow> pit_ref \<Rightarrow> data \<Rightarrow> ('p, 'x) forwarder \<Rightarrow>
    ('p, 'x) forwarder option" where
  "onContentStoreHit env now inFace r data f = do {
     let f = bump (nCsHits_update (\<lambda>c. c + 1)) f;
     f \<leftarrow> change_pit r (\<lambda>pe. Some (pe\<lparr>isSatisfied := True, dataFreshnessPeriod := getFreshnessPeriod data\<rparr>)) f;
     f \<leftarrow> setExpiryTimer now r 0 f;
     f \<leftarrow> dispatchToStrategy r (\<lambda>st. beforeSatisfyInterest r (m_csFace f) data) f;
     dispatchToStrategy r (\<lambda>st. afterContentStoreHit env r inFace data) f
   }"

definition cs_lookup :: "('p, 'x) fw_env \<Rightarrow> time \<Rightarrow> interest \<Rightarrow> ('p, 'x) forwarder \<Rightarrow> (('p, 'x) forwarder \<times> data option) option" where
  "cs_lookup env now interest f = (case m_csFromNdnSim f of
       None \<Rightarrow> do {
         (cs, match) \<leftarrow> Cs_find (fe_less env) (fe_successor env) (fe_matchesData env) (fe_policy env) now interest (m_cs f);
         Some (f\<lparr>m_cs := cs\<rparr>, match)
       }
     | Some x \<Rightarrow> (let (x, match) = fe_Lookup env interest x in Some (f\<lparr>m_csFromNdnSim := Some x\<rparr>, match)))"

definition cs_store :: "('p, 'x) fw_env \<Rightarrow> time \<Rightarrow> data \<Rightarrow> bool \<Rightarrow> ('p, 'x) forwarder \<Rightarrow> ('p, 'x) forwarder option" where
  "cs_store env now data unsolicited f = (case m_csFromNdnSim f of
       None \<Rightarrow> do {
         cs \<leftarrow> Cs_insert (fe_less env) (fe_policy env) now data unsolicited (m_cs f);
         Some (f\<lparr>m_cs := cs\<rparr>)
       }
     | Some x \<Rightarrow> Some (f\<lparr>m_csFromNdnSim := Some (fe_Add env data x)\<rparr>))"

text \<open>A duplicate nonce on the face it came from before is not a loop on a point-to-point link.\<close>

definition hasDuplicateNonceInPit :: "strategy_info pit_entry \<Rightarrow> interest \<Rightarrow> face_ref \<Rightarrow> face \<Rightarrow> bool" where
  "hasDuplicateNonceInPit pe interest inFace inF =
     (let dnw = findDuplicateNonce pe (getNonce interest) inFace;
          dup = (dnw \<noteq> DUPLICATE_NONCE_NONE)
      in if getLinkType inF = LINK_TYPE_POINT_TO_POINT then dup \<and> \<not> (dnw AND DUPLICATE_NONCE_IN_SAME \<noteq> 0) else dup)"

definition onIncomingInterest :: "('p, 'x) fw_env \<Rightarrow> time \<Rightarrow> face_ref \<Rightarrow> interest \<Rightarrow> ('p, 'x) forwarder \<Rightarrow>
    ('p, 'x) forwarder option" where
  "onIncomingInterest env now inFace interest f = do {
     inF \<leftarrow> faces f inFace;
     let f = bump (nInInterests_update (\<lambda>c. c + 1)) f;
     let isViolatingLocalhost = (getScope inF = FACE_SCOPE_NON_LOCAL \<and> prefix LOCALHOST (getName interest));
     if isViolatingLocalhost then Some f
     else do {
       hasDuplicateNonceInDnl \<leftarrow> has (fe_wireEncode env) (getName interest) (getNonce interest) (m_deadNonceList f);
       if hasDuplicateNonceInDnl then onInterestLoop inFace interest f
       else do {
         let interest = (if getForwardingHint interest \<noteq> [] \<and>
             isInProducerRegion (m_networkRegionTable f) (getForwardingHint interest)
           then interest\<lparr>getForwardingHint := []\<rparr> else interest);
         (f, entry, isNew) \<leftarrow> Pit_insert interest f;
         r \<leftarrow> entry;
         pe \<leftarrow> pit_heap f r;
         if hasDuplicateNonceInPit pe interest inFace inF then onInterestLoop inFace interest f
         else if m_inRecords pe = [] then do {
           (f, match) \<leftarrow> cs_lookup env now interest f;
           case match of
             Some data \<Rightarrow> onContentStoreHit env now inFace r data f
           | None \<Rightarrow> onContentStoreMiss now inFace r interest f
         }
         else onContentStoreMiss now inFace r interest f
       }
     }
   }"

definition onDataUnsolicited :: "('p, 'x) fw_env \<Rightarrow> time \<Rightarrow> face_ref \<Rightarrow> data \<Rightarrow> ('p, 'x) forwarder \<Rightarrow> ('p, 'x) forwarder option" where
  "onDataUnsolicited env now inFace data f = do {
     inF \<leftarrow> faces f inFace;
     let decision = decide (m_unsolicitedDataPolicy f) inF;
     if decision = CACHE then cs_store env now data True f else Some f
   }"

text \<open>The last steps for a satisfied entry, the same in both branches of incoming Data.\<close>

definition mark_satisfied :: "('p, 'x) fw_env \<Rightarrow> face_ref \<Rightarrow> data \<Rightarrow> pit_ref \<Rightarrow> ('p, 'x) forwarder \<Rightarrow> ('p, 'x) forwarder option" where
  "mark_satisfied env inFace data r f = do {
     f \<leftarrow> change_pit r (\<lambda>pe. Some (pe\<lparr>isSatisfied := True, dataFreshnessPeriod := getFreshnessPeriod data\<rparr>)) f;
     insertDeadNonceList env r (Some inFace) f
   }"

definition satisfy_one :: "('p, 'x) fw_env \<Rightarrow> time \<Rightarrow> face_ref \<Rightarrow> data \<Rightarrow> pit_ref \<Rightarrow> ('p, 'x) forwarder \<Rightarrow> ('p, 'x) forwarder option" where
  "satisfy_one env now inFace data r f = do {
     f \<leftarrow> setExpiryTimer now r 0 f;
     f \<leftarrow> dispatchToStrategy r (\<lambda>st. afterReceiveData env now r inFace data) f;
     f \<leftarrow> mark_satisfied env inFace data r f;
     change_pit r (\<lambda>pe. Some (deleteOutRecord inFace pe)) f
   }"

fun satisfy_all :: "('p, 'x) fw_env \<Rightarrow> time \<Rightarrow> face_ref \<Rightarrow> data \<Rightarrow> pit_ref list \<Rightarrow> face_ref set \<Rightarrow> ('p, 'x) forwarder \<Rightarrow>
    (('p, 'x) forwarder \<times> face_ref set) option" where
  "satisfy_all env now inFace data [] pendingDownstreams f = Some (f, pendingDownstreams)"
| "satisfy_all env now inFace data (r # rs) pendingDownstreams f = do {
     pe \<leftarrow> pit_heap f r;
     let pendingDownstreams = pendingDownstreams \<union> set (unexpired_downstreams now pe);
     f \<leftarrow> setExpiryTimer now r 0 f;
     f \<leftarrow> dispatchToStrategy r (\<lambda>st. beforeSatisfyInterest r inFace data) f;
     f \<leftarrow> mark_satisfied env inFace data r f;
     f \<leftarrow> change_pit r (\<lambda>pe. Some (deleteOutRecord inFace (clearInRecords pe))) f;
     satisfy_all env now inFace data rs pendingDownstreams f
   }"

fun send_to_downstreams :: "data \<Rightarrow> face_ref \<Rightarrow> face_ref list \<Rightarrow> ('p, 'x) forwarder \<Rightarrow> ('p, 'x) forwarder option" where
  "send_to_downstreams data inFace [] f = Some f"
| "send_to_downstreams data inFace (face # fs) f = do {
     f \<leftarrow> (if is_same_link f face inFace then Some f else onOutgoingData data face f);
     send_to_downstreams data inFace fs f
   }"

definition onIncomingData :: "('p, 'x) fw_env \<Rightarrow> time \<Rightarrow> face_ref \<Rightarrow> data \<Rightarrow> ('p, 'x) forwarder \<Rightarrow> ('p, 'x) forwarder option" where
  "onIncomingData env now inFace data f = do {
     inF \<leftarrow> faces f inFace;
     let f = bump (nInData_update (\<lambda>c. c + 1)) f;
     let isViolatingLocalhost = (getScope inF = FACE_SCOPE_NON_LOCAL \<and> prefix LOCALHOST (getDataName data));
     if isViolatingLocalhost then Some f
     else do {
       pitMatches \<leftarrow> findAllDataMatches (fe_matchesData env) data f;
       case pitMatches of
         [] \<Rightarrow> onDataUnsolicited env now inFace data f
       | [r] \<Rightarrow> do {
           f \<leftarrow> cs_store env now data False f;
           satisfy_one env now inFace data r f
         }
       | _ \<Rightarrow> do {
           f \<leftarrow> cs_store env now data False f;
           (f, pendingDownstreams) \<leftarrow> satisfy_all env now inFace data pitMatches {} f;
           send_to_downstreams data inFace (sorted_list_of_set pendingDownstreams) f
         }
     }
   }"

definition onIncomingNack :: "('p, 'x) fw_env \<Rightarrow> time \<Rightarrow> face_ref \<Rightarrow> nack \<Rightarrow> ('p, 'x) forwarder \<Rightarrow> ('p, 'x) forwarder option" where
  "onIncomingNack env now inFace nack f = do {
     inF \<leftarrow> faces f inFace;
     let f = bump (nInNacks_update (\<lambda>c. c + 1)) f;
     if getLinkType inF \<noteq> LINK_TYPE_POINT_TO_POINT then Some f
     else do {
       found \<leftarrow> Pit_find (getInterest nack) f;
       case found of
         None \<Rightarrow> Some f
       | Some r \<Rightarrow> do {
           pe \<leftarrow> pit_heap f r;
           case getOutRecord pe inFace of
             None \<Rightarrow> Some f
           | Some outRecord \<Rightarrow>
               if getNonce (getInterest nack) \<noteq> m_lastNonce outRecord then Some f
               else do {
                 f \<leftarrow> change_pit r (\<lambda>pe. Some (pe\<lparr>m_outRecords :=
                   update_first (\<lambda>outR. fr_face outR = inFace) (\<lambda>outR. fst (setIncomingNack nack outR)) (m_outRecords pe)\<rparr>)) f;
                 pe \<leftarrow> pit_heap f r;
                 f \<leftarrow> (if \<not> hasPendingOutRecords now pe then setExpiryTimer now r 0 f else Some f);
                 dispatchToStrategy r (\<lambda>st. afterReceiveNack st env inFace nack r) f
               }
         }
     }
   }"

definition onDroppedInterest :: "face_ref \<Rightarrow> interest \<Rightarrow> ('p, 'x) forwarder \<Rightarrow> ('p, 'x) forwarder option" where
  "onDroppedInterest outFace interest f = do {
     s \<leftarrow> findEffectiveStrategy f (getName interest);
     Some f
   }"

subsection \<open>Events\<close>

text \<open>What can happen to the forwarder: packets arrive, and timers of PIT entries fire.\<close>

datatype event =
    ReceiveInterest face_ref interest
  | ReceiveData face_ref data
  | ReceiveNack face_ref nack
  | TimerExpires pit_ref

definition handle :: "('p, 'x) fw_env \<Rightarrow> time \<Rightarrow> event \<Rightarrow> ('p, 'x) forwarder \<Rightarrow> ('p, 'x) forwarder option" where
  "handle env now ev = (case ev of
       ReceiveInterest face interest \<Rightarrow> onIncomingInterest env now face interest
     | ReceiveData face data \<Rightarrow> onIncomingData env now face data
     | ReceiveNack face nack \<Rightarrow> onIncomingNack env now face nack
     | TimerExpires r \<Rightarrow> onInterestFinalize env r)"

subsection \<open>What the pipelines send\<close>

text \<open>
  Data under /localhost goes to no non-local face; an Interest under /localhost neither,
  unless the application chose the next hop face itself; a Nack only on a point-to-point link.
\<close>

definition scope_ok :: "(face_ref \<Rightarrow> face option) \<Rightarrow> sent_packet \<Rightarrow> bool" where
  "scope_ok fs p \<longleftrightarrow> (case fs (sent_face p) of
       None \<Rightarrow> False
     | Some fc \<Rightarrow> (case p of
         SentInterest _ i \<Rightarrow> getScope fc = FACE_SCOPE_NON_LOCAL \<and> prefix LOCALHOST (getName i) \<longrightarrow> getNextHopFaceId i \<noteq> None
       | SentData _ d \<Rightarrow> \<not> (getScope fc = FACE_SCOPE_NON_LOCAL \<and> prefix LOCALHOST (getDataName d))
       | SentNack _ n \<Rightarrow> getLinkType fc = LINK_TYPE_POINT_TO_POINT))"

definition extends :: "('p, 'x) forwarder \<Rightarrow> ('p, 'x) forwarder \<Rightarrow> bool" where
  "extends f g \<longleftrightarrow> faces g = faces f \<and> m_faces g = m_faces f \<and>
     (\<exists>xs. sent g = sent f @ xs \<and> (\<forall>x\<in>set xs. scope_ok (faces f) x))"

definition keeps :: "('p, 'x) forwarder \<Rightarrow> ('p, 'x) forwarder option \<Rightarrow> bool" where
  "keeps f m \<longleftrightarrow> (\<forall>g. m = Some g \<longrightarrow> extends f g)"

named_theorems keeps_intros

lemma extends_refl [simp]: "extends f f"
  by (simp add: extends_def)

lemma keeps_None [keeps_intros]: "keeps f None"
  by (simp add: keeps_def)

lemma keeps_Some [keeps_intros]: "extends f g \<Longrightarrow> keeps f (Some g)"
  by (simp add: keeps_def)

lemma keeps_bind [keeps_intros]: "keeps f m \<Longrightarrow> (\<And>g. extends f g \<Longrightarrow> keeps f (k g)) \<Longrightarrow> keeps f (Option.bind m k)"
  by (cases m) (simp_all add: keeps_def)

lemma keeps_bind_other: "(\<And>a. m = Some a \<Longrightarrow> keeps f (k a)) \<Longrightarrow> keeps f (Option.bind m k)"
  by (cases m) (simp_all add: keeps_def)

lemma keeps_if [keeps_intros]: "(b \<Longrightarrow> keeps f m) \<Longrightarrow> (\<not> b \<Longrightarrow> keeps f k) \<Longrightarrow> keeps f (if b then m else k)"
  by simp

lemma extends_fields [simp]:
  "extends f (g\<lparr>pit_heap := h\<rparr>) = extends f g" "extends f (g\<lparr>nameTree := nt\<rparr>) = extends f g"
  "extends f (g\<lparr>pit_nItems := k\<rparr>) = extends f g" "extends f (g\<lparr>pit_heap := h, pit_next := j\<rparr>) = extends f g"
  "extends f (g\<lparr>m_deadNonceList := d\<rparr>) = extends f g" "extends f (g\<lparr>m_cs := cs\<rparr>) = extends f g"
  "extends f (g\<lparr>m_csFromNdnSim := x\<rparr>) = extends f g" "extends f (bump u g) = extends f g"
  by (simp_all add: extends_def bump_def)

lemma extends_send:
  assumes "extends f g" and "scope_ok (faces g) p"
  shows "extends f (send p g)"
proof -
  obtain xs where "sent g = sent f @ xs" "\<forall>x\<in>set xs. scope_ok (faces f) x" "faces g = faces f" "m_faces g = m_faces f"
    using assms(1) by (auto simp: extends_def)
  then show ?thesis using assms(2) by (auto simp: extends_def send_def intro!: exI [of _ "xs @ [p]"])
qed

lemma change_pit_keeps [keeps_intros]: "extends f g \<Longrightarrow> keeps f (change_pit r u g)"
  by (auto simp: change_pit_def keeps_def split: bind_splits)

lemma change_pit_faces: "change_pit r u f = Some g \<Longrightarrow> faces g = faces f"
  by (auto simp: change_pit_def split: bind_splits)

lemma setExpiryTimer_keeps [keeps_intros]: "extends f g \<Longrightarrow> keeps f (setExpiryTimer now r d g)"
  unfolding setExpiryTimer_def by (rule keeps_bind_other) (rule keeps_intros)

lemma rejectPendingInterest_keeps [keeps_intros]: "extends f g \<Longrightarrow> keeps f (rejectPendingInterest now r g)"
  unfolding rejectPendingInterest_def by (rule keeps_intros)

lemma onOutgoingInterest_keeps:
  assumes "extends f g" and "scope_ok (faces g) (SentInterest outFace interest)"
  shows "keeps f (onOutgoingInterest now r outFace interest g)"
proof -
  have "extends f (bump (nOutInterests_update (\<lambda>c. c + 1)) (send (SentInterest outFace interest) h))"
    if h: "change_pit r (insertOrUpdateOutRecord now outFace interest) g = Some h" for h
  proof -
    have "extends f h" using change_pit_keeps [OF assms(1)] h by (simp add: keeps_def)
    moreover have "faces h = faces g" by (rule change_pit_faces [OF h])
    ultimately show ?thesis using extends_send [of f h "SentInterest outFace interest"] assms(2) by simp
  qed
  then show ?thesis unfolding onOutgoingInterest_def by (auto simp: keeps_def split: bind_splits)
qed

lemma onOutgoingData_keeps [keeps_intros]: "extends f g \<Longrightarrow> keeps f (onOutgoingData data outFace g)"
  unfolding onOutgoingData_def
  by (auto simp: keeps_def scope_ok_def Let_def intro!: extends_send split: bind_splits if_splits)

lemma onOutgoingNack_keeps [keeps_intros]:
  assumes "extends f g"
  shows "keeps f (onOutgoingNack r outFace reason g)"
proof -
  have "extends f (send (SentNack outFace n) h)"
    if "faces g outFace = Some fc" "getLinkType fc = LINK_TYPE_POINT_TO_POINT" "change_pit r u g = Some h" for fc n u h
  proof -
    have "extends f h" using change_pit_keeps [OF assms] that(3) by (simp add: keeps_def)
    then show ?thesis using change_pit_faces [OF that(3)] that(1,2) by (intro extends_send) (simp_all add: scope_ok_def)
  qed
  then show ?thesis using assms unfolding onOutgoingNack_def
    by (auto simp: keeps_def Let_def split: bind_splits if_splits option.splits)
qed

lemma sendData_keeps [keeps_intros]: "extends f g \<Longrightarrow> keeps f (sendData env r data outFace g)"
  unfolding sendData_def by (intro keeps_bind_other keeps_bind keeps_intros)

lemma send_data_each_keeps [keeps_intros]: "extends f g \<Longrightarrow> keeps f (send_data_each env r data fs g)"
proof (induction fs arbitrary: g)
  case (Cons face fs)
  then show ?case by (auto intro!: keeps_bind sendData_keeps)
qed (simp add: keeps_intros)

lemma sendDataToAll_keeps [keeps_intros]: "extends f g \<Longrightarrow> keeps f (sendDataToAll env now r inFace data g)"
  unfolding sendDataToAll_def Let_def by (intro keeps_bind_other keeps_intros)

lemma send_nack_each_keeps [keeps_intros]: "extends f g \<Longrightarrow> keeps f (send_nack_each r reason fs g)"
proof (induction fs arbitrary: g)
  case (Cons face fs)
  then show ?case by (auto intro!: keeps_bind onOutgoingNack_keeps)
qed (simp add: keeps_intros)

lemma sendNacks_keeps [keeps_intros]: "extends f g \<Longrightarrow> keeps f (sendNacks r reason ex g)"
  unfolding sendNacks_def Let_def by (intro keeps_bind_other keeps_intros)

lemma processNack_keeps [keeps_intros]: "extends f g \<Longrightarrow> keeps f (processNack env inFace nack r g)"
  unfolding processNack_def Let_def
  by (intro keeps_bind_other) (auto intro!: keeps_intros split: option.split)

text \<open>A next hop that does not violate the scope may be sent to.\<close>

lemma scope_ok_interest:
  "faces g outFace = Some outF \<Longrightarrow> \<not> wouldViolateScope inF interest outF \<Longrightarrow> scope_ok (faces g) (SentInterest outFace interest)"
  by (auto simp: scope_ok_def wouldViolateScope_def split: if_splits)

lemma bestroute_forward_keeps [keeps_intros]:
  "extends f g \<Longrightarrow> keeps f (bestroute_forward now inFace interest r nexthops g)"
proof (induction nexthops)
  case (Cons nexthop nexthops)
  then show ?case
    by (auto intro!: keeps_bind_other keeps_if onOutgoingInterest_keeps intro: scope_ok_interest)
qed (simp add: keeps_intros)

lemma eligible_scope:
  "isNextHopEligible g inFace interest pe unused nexthop = Some True \<Longrightarrow> scope_ok (faces g) (SentInterest (nh_face nexthop) interest)"
  by (auto simp: isNextHopEligible_def intro: scope_ok_interest split: bind_splits if_splits)

lemma find_eligible_SomeD:
  "find_eligible g inFace interest pe unused nexthops = Some (Some nexthop) \<Longrightarrow>
   nexthop \<in> set nexthops \<and> isNextHopEligible g inFace interest pe unused nexthop = Some True"
  by (induction nexthops) (auto split: bind_splits if_splits)

lemma earliest_loop_SomeD:
  "earliest_loop g inFace interest pe nexthops found t = Some (Some nexthop) \<Longrightarrow>
   found = Some nexthop \<or> nexthop \<in> set nexthops \<and> isNextHopEligible g inFace interest pe None nexthop = Some True"
proof (induction nexthops arbitrary: found t)
  case (Cons it nexthops)
  then show ?case by (auto split: bind_splits if_splits option.splits)
qed simp

lemma change_pit_extends: "extends f g \<Longrightarrow> change_pit r u g = Some h \<Longrightarrow> extends f h"
  using change_pit_keeps [of f g r u] by (simp add: keeps_def)

lemma BestRoute2_keeps [keeps_intros]:
  assumes "extends f g"
  shows "keeps f (BestRouteStrategy2_afterReceiveInterest rs now inFace interest r g)"
proof -
  have snd: "keeps f (onOutgoingInterest now r (nh_face nexthop) interest h)"
    if "extends f h" "find_eligible h inFace interest pe u hs = Some (Some nexthop) \<or>
      findEligibleNextHopWithEarliestOutRecord h inFace interest hs pe = Some (Some nexthop)" for h pe u hs nexthop
    using that find_eligible_SomeD [of h inFace interest pe u hs nexthop] earliest_loop_SomeD [of h inFace interest pe hs None None nexthop]
    by (intro onOutgoingInterest_keeps) (auto simp: findEligibleNextHopWithEarliestOutRecord_def intro: eligible_scope)
  have nack: "keeps f (Option.bind (onOutgoingNack r inFace NACK_NO_ROUTE h) (rejectPendingInterest now r))"
    if "extends f h" for h using that by (intro keeps_bind keeps_intros)
  show ?thesis
    unfolding BestRouteStrategy2_afterReceiveInterest_def Let_def
    by (intro keeps_bind_other) (auto intro!: keeps_bind_other keeps_if keeps_Some snd nack
        dest!: change_pit_extends [OF assms] split: option.split)
qed

lemma multicast_loop_extends:
  "extends f g \<Longrightarrow> multicast_loop rs now inFace interest r nexthops k b g = Some (h, k', b') \<Longrightarrow> extends f h"
proof (induction nexthops arbitrary: g k b)
  case (Cons nexthop nexthops)
  let ?out = "nh_face nexthop"
  obtain pe where pe: "pit_heap g r = Some pe" using Cons.prems(2) by (auto simp: Let_def split: bind_splits)
  obtain pe' res where d: "decidePerUpstream now rs pe ?out = (pe', res)" by (cases "decidePerUpstream now rs pe ?out")
  obtain g1 where g1: "change_pit r (\<lambda>_. Some pe') g = Some g1" using Cons.prems(2) pe d by (auto simp: Let_def split: bind_splits)
  have e1: "extends f g1" by (rule change_pit_extends [OF Cons.prems(1) g1])
  show ?case
  proof (cases "res = RETX_SUPPRESS")
    case True
    then show ?thesis using Cons.IH [OF e1] Cons.prems(2) pe d g1 by simp
  next
    case ns: False
    then obtain inF outF where io: "faces g1 inFace = Some inF" "faces g1 ?out = Some outF"
      using Cons.prems(2) pe d g1 by (auto simp: Let_def split: bind_splits)
    show ?thesis
    proof (cases "getId outF = getId inF \<and> getLinkType outF \<noteq> LINK_TYPE_AD_HOC \<or> wouldViolateScope inF interest outF")
      case True
      then show ?thesis using Cons.IH [OF e1] Cons.prems(2) pe d g1 ns io by simp
    next
      case False
      have rest: "Option.bind (onOutgoingInterest now r ?out interest g1) (\<lambda>f.
          Option.bind (if res = RETX_FORWARD
            then change_pit r (\<lambda>pe. Some (pe\<lparr>m_outRecords :=
              update_first (\<lambda>outR. fr_face outR = ?out) (incrementIntervalForOutRecord rs) (m_outRecords pe)\<rparr>)) f
            else Some f) (multicast_loop rs now inFace interest r nexthops (k + 1) b)) = Some (h, k', b')"
        using Cons.prems(2) pe d g1 ns io False by (simp add: Let_def)
      then obtain g2 g3 where g2: "onOutgoingInterest now r ?out interest g1 = Some g2"
        and g3: "(if res = RETX_FORWARD
            then change_pit r (\<lambda>pe. Some (pe\<lparr>m_outRecords :=
              update_first (\<lambda>outR. fr_face outR = ?out) (incrementIntervalForOutRecord rs) (m_outRecords pe)\<rparr>)) g2
            else Some g2) = Some g3" and lp: "multicast_loop rs now inFace interest r nexthops (k + 1) b g3 = Some (h, k', b')"
        by (auto simp: bind_eq_Some_conv)
      have "scope_ok (faces g1) (SentInterest ?out interest)" using scope_ok_interest [OF io(2)] False by blast
      then have "extends f g2" using onOutgoingInterest_keeps [OF e1] g2 by (simp add: keeps_def)
      then have "extends f g3" using g3 change_pit_extends by (auto split: if_splits)
      then show ?thesis by (rule Cons.IH [OF _ lp])
    qed
  qed
qed simp

lemma Multicast_keeps [keeps_intros]:
  assumes "extends f g"
  shows "keeps f (MulticastStrategy_afterReceiveInterest rs now inFace interest r g)"
  unfolding MulticastStrategy_afterReceiveInterest_def
  by (intro keeps_bind_other) (auto dest: multicast_loop_extends [OF assms] intro!: keeps_bind keeps_intros)

lemma BestRoute_keeps [keeps_intros]:
  "extends f g \<Longrightarrow> keeps f (BestRouteStrategyBase_afterReceiveInterest now inFace interest r g)"
  unfolding BestRouteStrategyBase_afterReceiveInterest_def by (intro keeps_bind_other keeps_intros)

lemma triggers_keep [keeps_intros]:
  assumes "extends f g"
  shows "keeps f (afterReceiveInterest st now inFace interest r g)" and "keeps f (afterReceiveNack st env inFace nack r g)"
    and "keeps f (beforeSatisfyInterest r face data g)" and "keeps f (afterContentStoreHit env r face data g)"
    and "keeps f (afterReceiveData env now r face data g)"
proof -
  show "keeps f (afterReceiveInterest st now inFace interest r g)"
    using assms unfolding afterReceiveInterest_def by (cases st) (simp_all add: keeps_intros)
  show "keeps f (afterReceiveNack st env inFace nack r g)"
    using assms unfolding afterReceiveNack_def by (cases st) (simp_all add: keeps_intros)
  show "keeps f (beforeSatisfyInterest r face data g)" "keeps f (afterContentStoreHit env r face data g)"
    "keeps f (afterReceiveData env now r face data g)"
    using assms unfolding beforeSatisfyInterest_def afterContentStoreHit_def afterReceiveData_def by (simp_all add: keeps_intros)
qed


lemma dispatch_keeps [keeps_intros]: "(\<And>st. keeps f (trigger st g)) \<Longrightarrow> keeps f (dispatchToStrategy r trigger g)"
  unfolding dispatchToStrategy_def by (intro keeps_bind_other) (auto split: prod.split)

lemma onInterestLoop_keeps [keeps_intros]:
  assumes "extends f g"
  shows "keeps f (onInterestLoop inFace interest g)"
proof -
  have "extends f (send (SentNack inFace n) g)" if "faces g inFace = Some fc" "getLinkType fc = LINK_TYPE_POINT_TO_POINT" for fc n
    by (rule extends_send [OF assms]) (simp add: scope_ok_def that)
  then show ?thesis using assms unfolding onInterestLoop_def by (auto simp: keeps_def split: bind_splits if_splits)
qed

text \<open>A face found by its id exists.\<close>

definition ids_ok :: "('p, 'x) forwarder \<Rightarrow> bool" where
  "ids_ok f \<longleftrightarrow> (\<forall>i face. FaceTable_get i f = Some face \<longrightarrow> faces f face \<noteq> None)"

lemma ids_ok_extends: "ids_ok f \<Longrightarrow> extends f g \<Longrightarrow> ids_ok g"
  by (simp add: ids_ok_def extends_def FaceTable_get_def)

lemma face_table_ids_ok: "face_table_ok f \<Longrightarrow> ids_ok f"
  using face_table_okD(2) [of f] by (fastforce simp: ids_ok_def FaceTable_get_def)

lemma onContentStoreMiss_keeps [keeps_intros]:
  assumes "ids_ok f" and "extends f g"
  shows "keeps f (onContentStoreMiss now inFace r interest g)"
proof -
  have hop: "keeps f (onOutgoingInterest now r face interest h)"
    if "extends f h" "FaceTable_get i h = Some face" "getNextHopFaceId interest \<noteq> None" for h i face
    using that ids_ok_extends [OF assms(1) that(1)]
    by (intro onOutgoingInterest_keeps) (auto simp: scope_ok_def ids_ok_def split: option.split)
  have rest: "keeps f (case getNextHopFaceId interest of
        Some faceId \<Rightarrow> (case FaceTable_get faceId h of
            Some nextHopFace \<Rightarrow> onOutgoingInterest now r nextHopFace interest h
          | None \<Rightarrow> Some h)
      | None \<Rightarrow> dispatchToStrategy r (\<lambda>st. afterReceiveInterest st now inFace interest r) h)" if h: "extends f h" for h
    using h hop [OF h] triggers_keep [OF h]
    by (auto intro!: keeps_intros split: option.split)
  show ?thesis
    unfolding onContentStoreMiss_def Let_def
    by (intro keeps_bind change_pit_keeps keeps_bind_other setExpiryTimer_keeps rest) (use assms in simp_all)
qed

lemma onContentStoreHit_keeps [keeps_intros]:
  "extends f g \<Longrightarrow> keeps f (onContentStoreHit env now inFace r data g)"
  unfolding onContentStoreHit_def Let_def
  by (intro keeps_bind change_pit_keeps setExpiryTimer_keeps dispatch_keeps triggers_keep) simp_all

lemma cs_lookup_extends: "extends f g \<Longrightarrow> cs_lookup env now interest g = Some (h, match) \<Longrightarrow> extends f h"
  by (auto simp: cs_lookup_def split: option.splits bind_splits prod.splits)

lemma cs_store_keeps [keeps_intros]: "extends f g \<Longrightarrow> keeps f (cs_store env now data u g)"
  by (auto simp: cs_store_def keeps_def split: option.splits bind_splits)

lemma Pit_insert_extends: "extends f g \<Longrightarrow> Pit_insert interest g = Some (h, r, b) \<Longrightarrow> extends f h"
  unfolding Pit_insert_def Pit_findOrInsert_def
  by (auto simp: Let_def insertPitEntry_def modify_nte_def modify_pit_def extends_def
      split: option.splits bind_splits if_splits prod.splits)

lemma onIncomingInterest_keeps [keeps_intros]:
  assumes "ids_ok f" and "extends f g"
  shows "keeps f (onIncomingInterest env now inFace interest g)"
proof -
  have b: "extends f (bump (nInInterests_update (\<lambda>c. c + 1)) g)" using assms(2) by simp
  have cont: "keeps f (Option.bind (cs_lookup env now i h) (\<lambda>(f, match). case match of
      Some data \<Rightarrow> onContentStoreHit env now inFace r data f | None \<Rightarrow> onContentStoreMiss now inFace r i f))"
    if "extends f h" for h i r
    by (intro keeps_bind_other) (auto dest!: cs_lookup_extends [OF that] intro!: onContentStoreHit_keeps
        onContentStoreMiss_keeps [OF assms(1)] split: option.split)
  show ?thesis
    unfolding onIncomingInterest_def Let_def
    by (intro keeps_bind_other keeps_if) (auto dest!: Pit_insert_extends [OF b] intro!: keeps_bind_other keeps_if keeps_Some
        onInterestLoop_keeps cont onContentStoreMiss_keeps [OF assms(1)] simp: assms(2))
qed

lemma insertDeadNonceList_keeps [keeps_intros]: "extends f g \<Longrightarrow> keeps f (insertDeadNonceList env r u g)"
  unfolding insertDeadNonceList_def Let_def by (intro keeps_bind_other keeps_if keeps_Some) simp_all

lemma satisfy_keeps [keeps_intros]:
  assumes "extends f g"
  shows "keeps f (mark_satisfied env inFace data r g)" and "keeps f (satisfy_one env now inFace data r g)"
proof -
  have m: "keeps f (mark_satisfied env inFace data r g)" if "extends f g" for g
    using that unfolding mark_satisfied_def by (intro keeps_bind change_pit_keeps insertDeadNonceList_keeps)
  then show "keeps f (mark_satisfied env inFace data r g)" using assms .
  show "keeps f (satisfy_one env now inFace data r g)"
    using assms unfolding satisfy_one_def
    by (intro keeps_bind change_pit_keeps setExpiryTimer_keeps dispatch_keeps triggers_keep m)
qed

lemma satisfy_all_extends:
  "extends f g \<Longrightarrow> satisfy_all env now inFace data rs ds g = Some (h, ds') \<Longrightarrow> extends f h"
proof (induction rs arbitrary: g ds)
  case (Cons r rs)
  let ?step = "Option.bind (setExpiryTimer now r 0 g) (\<lambda>f. Option.bind (dispatchToStrategy r (\<lambda>st. beforeSatisfyInterest r inFace data) f)
    (\<lambda>f. Option.bind (mark_satisfied env inFace data r f) (change_pit r (\<lambda>pe. Some (deleteOutRecord inFace (clearInRecords pe))))))"
  have "keeps f ?step"
    using Cons.prems(1) by (intro keeps_bind change_pit_keeps setExpiryTimer_keeps dispatch_keeps triggers_keep satisfy_keeps)
  moreover obtain g' where "?step = Some g'" "\<exists>ds. satisfy_all env now inFace data rs ds g' = Some (h, ds')"
    using Cons.prems(2) by (auto simp: Let_def bind_eq_Some_conv)
  ultimately show ?case using Cons.IH by (auto simp: keeps_def)
qed simp

lemma send_to_downstreams_keeps [keeps_intros]: "extends f g \<Longrightarrow> keeps f (send_to_downstreams data inFace fs g)"
proof (induction fs arbitrary: g)
  case (Cons face fs)
  then show ?case by (auto intro!: keeps_bind onOutgoingData_keeps keeps_Some)
qed (simp add: keeps_intros)

lemma onIncomingData_keeps [keeps_intros]:
  assumes "extends f g"
  shows "keeps f (onIncomingData env now inFace data g)"
proof -
  have unsol: "keeps f (onDataUnsolicited env now inFace data h)" if "extends f h" for h
    using that unfolding onDataUnsolicited_def Let_def by (intro keeps_bind_other keeps_if cs_store_keeps keeps_Some)
  have many: "keeps f (Option.bind (satisfy_all env now inFace data rs {} h) (\<lambda>(f, ds).
      send_to_downstreams data inFace (sorted_list_of_set ds) f))" if "extends f h" for h rs
    by (intro keeps_bind_other) (auto dest!: satisfy_all_extends [OF that] intro: send_to_downstreams_keeps)
  show ?thesis
    unfolding onIncomingData_def Let_def
    by (intro keeps_bind_other keeps_if keeps_Some)
      (auto simp: assms intro!: unsol keeps_bind cs_store_keeps satisfy_keeps many split: list.split
        simp del: satisfy_all.simps)
qed

lemma onIncomingNack_keeps [keeps_intros]:
  assumes "extends f g"
  shows "keeps f (onIncomingNack env now inFace nack g)"
proof -
  have ok: "keeps f (Option.bind (change_pit r u h) (\<lambda>f. Option.bind (pit_heap f r) (\<lambda>pe.
      Option.bind (if \<not> hasPendingOutRecords now pe then setExpiryTimer now r 0 f else Some f)
        (dispatchToStrategy r (\<lambda>st. afterReceiveNack st env inFace nack r)))))" if "extends f h" for h r u
    using that by (intro keeps_bind change_pit_keeps keeps_if setExpiryTimer_keeps keeps_Some dispatch_keeps triggers_keep keeps_bind_other)
  show ?thesis
    unfolding onIncomingNack_def Let_def
    by (intro keeps_bind_other keeps_if keeps_Some)
      (auto simp: assms intro!: ok keeps_bind_other [where m = "pit_heap _ _"] keeps_if keeps_Some split: option.split)
qed

lemma Pit_erase_keeps [keeps_intros]: "extends f g \<Longrightarrow> keeps f (Pit_erase r b g)"
  unfolding Pit_erase_def erasePitEntry_def
  by (auto simp: keeps_def Let_def modify_nte_def modify_pit_def extends_def
      split: option.splits bind_splits if_splits prod.splits)

lemma onInterestFinalize_keeps [keeps_intros]: "extends f g \<Longrightarrow> keeps f (onInterestFinalize env r g)"
  unfolding onInterestFinalize_def Let_def
  by (intro keeps_bind insertDeadNonceList_keeps change_pit_keeps Pit_erase_keeps keeps_bind_other) simp_all

lemma handle_keeps: "ids_ok f \<Longrightarrow> extends f g \<Longrightarrow> keeps f (handle env now ev g)"
  unfolding handle_def by (cases ev) (simp_all add: keeps_intros)

fun fw_run :: "('p, 'x) fw_env \<Rightarrow> (time \<times> event) list \<Rightarrow> ('p, 'x) forwarder \<Rightarrow> ('p, 'x) forwarder option" where
  "fw_run env [] f = Some f"
| "fw_run env ((now, ev) # evs) f = Option.bind (handle env now ev f) (fw_run env evs)"

lemma fw_run_extends: "ids_ok f \<Longrightarrow> extends f g \<Longrightarrow> fw_run env evs g = Some h \<Longrightarrow> extends f h"
proof (induction evs arbitrary: g)
  case (Cons e evs)
  obtain now ev where e: "e = (now, ev)" by (cases e)
  obtain g' where g': "handle env now ev g = Some g'" "fw_run env evs g' = Some h" using Cons.prems(3) e by (auto simp: bind_eq_Some_conv)
  have "extends f g'" using handle_keeps [OF Cons.prems(1,2)] g'(1) by (simp add: keeps_def)
  then show ?case by (rule Cons.IH [OF Cons.prems(1) _ g'(2)])
qed simp

lemma scope_okD:
  "scope_ok fs x \<Longrightarrow> \<exists>fc. fs (sent_face x) = Some fc \<and> (case x of
     SentInterest _ i \<Rightarrow> getScope fc = FACE_SCOPE_NON_LOCAL \<longrightarrow> prefix LOCALHOST (getName i) \<longrightarrow> getNextHopFaceId i \<noteq> None
   | SentData _ d \<Rightarrow> \<not> (getScope fc = FACE_SCOPE_NON_LOCAL \<and> prefix LOCALHOST (getDataName d))
   | SentNack _ n \<Rightarrow> getLinkType fc = LINK_TYPE_POINT_TO_POINT)"
  by (cases x; cases "fs (sent_face x)") (auto simp: scope_ok_def)

text \<open>C1: scope control: whatever sequence of packets and timers the forwarder processes, from a state
  in which every registered face exists, and whichever of the modelled strategies is in
  effect (best route, in its versions 1 and 5, and multicast), every packet it hands to a
  face respects the scope: no Data under /localhost and no Interest under
  /localhost goes to a non-local face, except an Interest whose next hop the application
  chose; and Nacks go only to point-to-point faces. An Interest or Data packet under
  /localhost that arrives from a non-local face is dropped with only its counter changed.\<close>

theorem scope_is_respected:
  assumes "face_table_ok f"
  shows "(fw_run env evs f = Some g \<longrightarrow>
      (\<exists>xs. sent g = sent f @ xs \<and> (\<forall>x\<in>set xs. \<exists>fc. faces f (sent_face x) = Some fc \<and> (case x of
         SentInterest _ i \<Rightarrow> getScope fc = FACE_SCOPE_NON_LOCAL \<longrightarrow> prefix LOCALHOST (getName i) \<longrightarrow> getNextHopFaceId i \<noteq> None
       | SentData _ d \<Rightarrow> \<not> (getScope fc = FACE_SCOPE_NON_LOCAL \<and> prefix LOCALHOST (getDataName d))
       | SentNack _ n \<Rightarrow> getLinkType fc = LINK_TYPE_POINT_TO_POINT)))) \<and>
    (faces f inFace = Some inF \<longrightarrow> getScope inF = FACE_SCOPE_NON_LOCAL \<longrightarrow>
      (prefix LOCALHOST (getName interest) \<longrightarrow>
        onIncomingInterest env now inFace interest f = Some (bump (nInInterests_update (\<lambda>c. c + 1)) f)) \<and>
      (prefix LOCALHOST (getDataName data) \<longrightarrow>
        onIncomingData env now inFace data f = Some (bump (nInData_update (\<lambda>c. c + 1)) f)))"
proof (intro conjI impI)
  assume r: "fw_run env evs f = Some g"
  have "extends f g" by (rule fw_run_extends [OF face_table_ids_ok [OF assms] extends_refl r])
  then obtain xs where "sent g = sent f @ xs" "\<forall>x\<in>set xs. scope_ok (faces f) x" by (auto simp: extends_def)
  then show "\<exists>xs. sent g = sent f @ xs \<and> (\<forall>x\<in>set xs. \<exists>fc. faces f (sent_face x) = Some fc \<and> (case x of
         SentInterest _ i \<Rightarrow> getScope fc = FACE_SCOPE_NON_LOCAL \<longrightarrow> prefix LOCALHOST (getName i) \<longrightarrow> getNextHopFaceId i \<noteq> None
       | SentData _ d \<Rightarrow> \<not> (getScope fc = FACE_SCOPE_NON_LOCAL \<and> prefix LOCALHOST (getDataName d))
       | SentNack _ n \<Rightarrow> getLinkType fc = LINK_TYPE_POINT_TO_POINT))"
    using scope_okD by (intro exI [of _ xs]) blast
qed (simp_all add: onIncomingInterest_def onIncomingData_def)

theorem scope_is_respected_witness:
  "onIncomingInterest example_fw_env 0 1 (example_interest LOCALHOST) (example_forwarder [1 \<mapsto> example_face]) =
     Some (bump (nInInterests_update (\<lambda>c. c + 1)) (example_forwarder [1 \<mapsto> example_face]))"
proof -
  have ok: "face_table_ok (example_forwarder [1 \<mapsto> example_face])"
    by (simp add: face_table_ok_def example_face_def)
  have "faces (example_forwarder [1 \<mapsto> example_face]) 1 = Some example_face" "getScope example_face = FACE_SCOPE_NON_LOCAL"
    "prefix LOCALHOST (getName (example_interest LOCALHOST))"
    by (simp_all add: example_face_def example_interest_def)
  with scope_is_respected [OF ok] show ?thesis by blast
qed


subsection \<open>Loops\<close>

lemma add_nonces_run: "add_nonces wireEncode name ns d = dnl_run wireEncode (map (Add name) ns) d"
proof (induction ns arbitrary: d)
  case (Cons n ns)
  have "add_nonces wireEncode name ns = dnl_run wireEncode (map (Add name) ns)" using Cons.IH by (rule ext)
  then show ?case by (simp add: dnl_step_def)
qed simp

lemma pushes_adds: "pushes (map (Add name) ns) = length ns"
  by (induction ns) simp_all

lemma add_nonces_has:
  assumes "dnl_ok d" and "nonce \<in> set ns" and "length ns \<le> MIN_CAPACITY"
  shows "\<exists>d'. add_nonces wireEncode name ns d = Some d' \<and> dnl_ok d' \<and> has wireEncode name nonce d' = Some True"
proof -
  obtain ys zs where ns: "ns = ys @ nonce # zs" using assms(2) by (meson split_list)
  obtain d1 where d1: "dnl_run wireEncode (map (Add name) ys) d = Some d1" "dnl_ok d1" using dnl_run_ok [OF assms(1)] by blast
  have "pushes (map (Add name) zs) < MIN_CAPACITY" using assms(3) by (simp add: pushes_adds ns)
  from add_found [OF d1(2) this, of wireEncode name nonce] d1(1) show ?thesis
    by (simp add: add_nonces_run ns dnl_run_append)
qed

text \<open>The outcome of an Interest that is found to loop.\<close>

definition loop_outcome :: "face_ref \<Rightarrow> interest \<Rightarrow> face \<Rightarrow> ('p, 'x) forwarder \<Rightarrow> ('p, 'x) forwarder" where
  "loop_outcome inFace interest inF f =
     (if getLinkType inF = LINK_TYPE_POINT_TO_POINT
      then send (SentNack inFace \<lparr>getInterest = interest, getReason = NACK_DUPLICATE\<rparr>) f else f)"

lemma onIncomingInterest_dead_nonce:
  assumes "faces f inFace = Some inF" and "\<not> (getScope inF = FACE_SCOPE_NON_LOCAL \<and> prefix LOCALHOST (getName interest))"
    and "has (fe_wireEncode env) (getName interest) (getNonce interest) (m_deadNonceList f) = Some True"
  shows "onIncomingInterest env now inFace interest f =
    Some (loop_outcome inFace interest inF (bump (nInInterests_update (\<lambda>c. c + 1)) f))"
  using assms by (auto simp: onIncomingInterest_def onInterestLoop_def loop_outcome_def Let_def bump_def send_def)

lemma Pit_erase_fields:
  "Pit_erase r b f = Some g \<Longrightarrow> m_deadNonceList g = m_deadNonceList f \<and> faces g = faces f \<and> sent g = sent f \<and> m_counters g = m_counters f"
  unfolding Pit_erase_def erasePitEntry_def
  by (auto simp: Let_def modify_nte_def modify_pit_def split: option.splits bind_splits if_splits prod.splits)

lemma finalize_adds_nonces:
  assumes "pit_ok f" and "dnl_ok (m_deadNonceList f)" and "pit_heap f r = Some pe" and "m_nameTreeEntry pe \<noteq> None"
    and "\<not> isSatisfied pe" and "length (m_outRecords pe) \<le> MIN_CAPACITY"
  shows "\<exists>g. onInterestFinalize env r f = Some g \<and> pit_ok g \<and> faces g = faces f \<and> sent g = sent f \<and> dnl_ok (m_deadNonceList g) \<and>
    (\<forall>outR\<in>set (m_outRecords pe). has (fe_wireEncode env) (pit_name pe) (m_lastNonce outR) (m_deadNonceList g) = Some True)"
proof -
  let ?ns = "map m_lastNonce (m_outRecords pe)"
  obtain d where d: "add_nonces (fe_wireEncode env) (pit_name pe) ?ns (m_deadNonceList f) = Some d" "dnl_ok d"
    using dnl_run_ok [OF assms(2)] unfolding add_nonces_run by blast
  have found: "has (fe_wireEncode env) (pit_name pe) n d = Some True" if "n \<in> set ?ns" for n
    using add_nonces_has [OF assms(2) that, of "fe_wireEncode env" "pit_name pe"] assms(6) d(1) by simp
  let ?f1 = "f\<lparr>m_deadNonceList := d\<rparr>"
  let ?f2 = "bump (nUnsatisfiedInterests_update (\<lambda>c. c + 1)) ?f1"
  let ?f3 = "?f2\<lparr>pit_heap := (pit_heap ?f2)(r \<mapsto> pe\<lparr>expiryTimer := None\<rparr>)\<rparr>"
  have ins: "insertDeadNonceList env r None f = Some ?f1"
    using assms(3,5) d(1) by (simp add: insertDeadNonceList_def Let_def)
  have f3: "?f3 = modify_pit r (expiryTimer_update (\<lambda>_. None)) ?f2" using assms(3) by (simp add: modify_pit_def bump_def)
  have ok2: "pit_ok ?f2" using assms(1) by (simp add: pit_ok_def bump_def)
  have ok3: "pit_ok ?f3" unfolding f3 by (rule modify_pit_ok [OF ok2]) simp_all
  obtain n where n: "m_nameTreeEntry pe = Some n" using assms(4) by blast
  have "pit_heap ?f3 r = Some (pe\<lparr>expiryTimer := None\<rparr>)" "m_nameTreeEntry (pe\<lparr>expiryTimer := None\<rparr>) = Some n" using n by simp_all
  then obtain g where g: "Pit_erase r True ?f3 = Some g" "pit_ok g" using Pit_erase_ok [OF ok3] by metis
  have "onInterestFinalize env r f = Some g"
    using ins assms(3,5) g(1) by (simp add: onInterestFinalize_def Let_def change_pit_def bump_def)
  moreover have "m_deadNonceList g = d" "faces g = faces f" "sent g = sent f"
    using Pit_erase_fields [OF g(1)] by (simp_all add: bump_def)
  ultimately show ?thesis using g(2) d(2) found by auto
qed


lemma Pit_insert_fields:
  "Pit_insert interest f = Some (g, r, b) \<Longrightarrow> m_deadNonceList g = m_deadNonceList f \<and> faces g = faces f \<and> sent g = sent f \<and>
     m_cs g = m_cs f \<and> m_networkRegionTable g = m_networkRegionTable f"
  unfolding Pit_insert_def Pit_findOrInsert_def
  by (auto simp: Let_def insertPitEntry_def modify_nte_def modify_pit_def
      split: option.splits bind_splits if_splits prod.splits)

lemma loop_in_pit:
  assumes "pit_ok f" and "pit_heap f r = Some pe" and "m_nameTreeEntry pe \<noteq> None" and "interest_key interest = pit_key pe"
    and "getForwardingHint interest = []" and "outR \<in> set (m_outRecords pe)" and "m_lastNonce outR = getNonce interest"
    and "faces f inFace = Some inF" and "\<not> (getScope inF = FACE_SCOPE_NON_LOCAL \<and> prefix LOCALHOST (getName interest))"
    and "\<forall>inR\<in>set (m_inRecords pe). fr_face inR = inFace \<longrightarrow> m_lastNonce inR \<noteq> getNonce interest"
  shows "\<exists>g. onIncomingInterest env now inFace interest f = Some g \<and> pit_heap g = pit_heap f \<and> m_cs g = m_cs f \<and>
    sent g = sent (loop_outcome inFace interest inF f)"
proof -
  let ?f = "bump (nInInterests_update (\<lambda>c. c + 1)) f"
  have ok: "pit_ok ?f" and heap: "pit_heap ?f = pit_heap f" and fs: "faces ?f = faces f" "sent ?f = sent f" "m_cs ?f = m_cs f"
    "m_deadNonceList ?f = m_deadNonceList f"
    using assms(1) by (simp_all add: bump_def pit_ok_def)
  obtain e where e: "makeEntry (fe_wireEncode env) (getName interest) (getNonce interest) = Some e" using makeEntry_defined by blast
  show ?thesis
  proof (cases "e \<in> set (m_queue (m_deadNonceList f))")
    case True
    then have "has (fe_wireEncode env) (getName interest) (getNonce interest) (m_deadNonceList f) = Some True" using e by (simp add: has_def)
    from onIncomingInterest_dead_nonce [OF assms(8,9) this, of now] show ?thesis by (auto simp: loop_outcome_def send_def bump_def)
  next
    case False
    then have nd: "has (fe_wireEncode env) (getName interest) (getNonce interest) (m_deadNonceList ?f) = Some False"
      using e fs(4) by (simp add: has_def)
    let ?n = "take (nteDepth (getName interest)) (getName interest)"
    obtain m where m: "m_nameTreeEntry pe = Some m" using assms(3) by blast
    have att: "attached_at (pit_heap f) r ?n" using m pit_okD(5) [OF assms(1,2) m] assms(2,4) by (simp add: attached_at_def)
    have key: "key_is (pit_heap f) (interest_key interest) r" using assms(2,4) by (simp add: key_is_def)
    obtain g r' d where g: "Pit_insert interest ?f = Some (g, Some r',
        \<not> (\<exists>r. attached_at (pit_heap ?f) r ?n \<and> key_is (pit_heap ?f) (interest_key interest) r))"
      "pit_ok g" "pit_heap g r' = Some d" "pit_key d = interest_key interest" "attached_at (pit_heap g) r' ?n"
      "\<forall>s. s \<noteq> r' \<longrightarrow> pit_heap g s = pit_heap ?f s"
      "(\<exists>r. attached_at (pit_heap ?f) r ?n \<and> key_is (pit_heap ?f) (interest_key interest) r) \<longrightarrow> pit_heap g = pit_heap ?f"
      by (rule Pit_insert_wf [OF ok])
    have gh: "pit_heap g = pit_heap f" using g(7) att key unfolding heap by blast
    have "r' = r" using pit_okD(6) [OF assms(1) g(5) [unfolded gh] att g(3) [unfolded gh] assms(2)] g(4) assms(4) by simp
    then have pe: "pit_heap g r' = Some pe" using gh assms(2) by simp
    have "findDuplicateNonce pe (getNonce interest) inFace \<noteq> 0 \<and> \<not> (findDuplicateNonce pe (getNonce interest) inFace AND 1 \<noteq> 0)"
      unfolding findDuplicateNonce_flags four_flags using assms(6,7,10) by auto
    then have dup: "hasDuplicateNonceInPit pe interest inFace inF"
      by (simp add: hasDuplicateNonceInPit_def Let_def DUPLICATE_NONCE_NONE_def DUPLICATE_NONCE_IN_SAME_def)
    note gf = Pit_insert_fields [OF g(1)]
    have lp: "onInterestLoop inFace interest g = Some (loop_outcome inFace interest inF g)"
      using gf fs(1) assms(8) by (simp add: onInterestLoop_def loop_outcome_def)
    have "onIncomingInterest env now inFace interest f = Some (loop_outcome inFace interest inF g)"
      using assms(5,8,9) nd g(1) pe dup lp unfolding onIncomingInterest_def Let_def by auto
    then show ?thesis using gf gh fs by (auto simp: loop_outcome_def send_def)
  qed
qed

text \<open>C2: looping Interests are detected and not forwarded: an Interest without forwarding hint that comes
  back with the nonce with which it was sent out is answered by at most a Nack with reason
  duplicate, on a point-to-point link, and forwarded nowhere, both while its PIT entry is
  pending, unless the face it comes from sent that nonce itself, and after the unsatisfied
  entry, with no more out-records than the least capacity of the dead nonce list, has
  expired and only that list remembers the nonce.\<close>

theorem loops_are_detected:
  assumes "pit_ok f" and "dnl_ok (m_deadNonceList f)" and "pit_heap f r = Some pe" and "m_nameTreeEntry pe \<noteq> None"
    and "interest_key interest = pit_key pe" and "getForwardingHint interest = []"
    and "outR \<in> set (m_outRecords pe)" and "m_lastNonce outR = getNonce interest"
    and "faces f inFace = Some inF" and "\<not> (getScope inF = FACE_SCOPE_NON_LOCAL \<and> prefix LOCALHOST (getName interest))"
  defines "answer \<equiv> if getLinkType inF = LINK_TYPE_POINT_TO_POINT
    then [SentNack inFace \<lparr>getInterest = interest, getReason = NACK_DUPLICATE\<rparr>] else []"
  shows "((\<forall>inR\<in>set (m_inRecords pe). fr_face inR = inFace \<longrightarrow> m_lastNonce inR \<noteq> getNonce interest) \<longrightarrow>
      (\<exists>g. onIncomingInterest env now inFace interest f = Some g \<and> pit_heap g = pit_heap f \<and> m_cs g = m_cs f \<and> sent g = sent f @ answer)) \<and>
    (\<not> isSatisfied pe \<longrightarrow> length (m_outRecords pe) \<le> MIN_CAPACITY \<longrightarrow>
      (\<exists>g h. onInterestFinalize env r f = Some g \<and> onIncomingInterest env now inFace interest g = Some h \<and>
        pit_heap h = pit_heap g \<and> m_cs h = m_cs g \<and> sent h = sent f @ answer))"
proof (intro conjI impI)
  assume "\<forall>inR\<in>set (m_inRecords pe). fr_face inR = inFace \<longrightarrow> m_lastNonce inR \<noteq> getNonce interest"
  from loop_in_pit [OF assms(1,3-10) this, of env now]
  show "\<exists>g. onIncomingInterest env now inFace interest f = Some g \<and> pit_heap g = pit_heap f \<and> m_cs g = m_cs f \<and> sent g = sent f @ answer"
    by (auto simp: answer_def loop_outcome_def send_def)
next
  assume "\<not> isSatisfied pe" "length (m_outRecords pe) \<le> MIN_CAPACITY"
  from finalize_adds_nonces [OF assms(1-4) this, of env] obtain g where g: "onInterestFinalize env r f = Some g" "faces g = faces f"
    "sent g = sent f" "has (fe_wireEncode env) (pit_name pe) (m_lastNonce outR) (m_deadNonceList g) = Some True"
    using assms(7) by blast
  have "has (fe_wireEncode env) (getName interest) (getNonce interest) (m_deadNonceList g) = Some True" using g(4) assms(5,8) by simp
  from onIncomingInterest_dead_nonce [OF _ assms(10) this, of inFace now] assms(9) g(1-3)
  show "\<exists>g h. onInterestFinalize env r f = Some g \<and> onIncomingInterest env now inFace interest g = Some h \<and>
        pit_heap h = pit_heap g \<and> m_cs h = m_cs g \<and> sent h = sent f @ answer"
    by (auto simp: answer_def loop_outcome_def send_def bump_def)
qed


definition pending_entry :: "strategy_info pit_entry \<Rightarrow> strategy_info pit_entry" where
  "pending_entry pe = pe\<lparr>m_outRecords := [used_record 2 10], m_inRecords := [], isSatisfied := False\<rparr>"

theorem loops_are_detected_witness:
  "\<exists>(f :: (unit, unit) forwarder) r pe g. pit_heap f r = Some pe \<and> m_lastNonce (used_record 2 10) = getNonce (example_interest [Generic ''a'']) \<and>
     onIncomingInterest example_fw_env 20 1 (example_interest [Generic ''a'']) f = Some g \<and>
     sent g = sent f @ [SentNack 1 \<lparr>getInterest = example_interest [Generic ''a''], getReason = NACK_DUPLICATE\<rparr>]"
proof -
  let ?i = "example_interest [Generic ''a'']"
  let ?f0 = "example_forwarder three_faces"
  obtain nt :: "strategy_info nt" where nt: "NameTree (\<lambda>c. 0) 16 = Some nt" "nt_wf nt" "entry_at nt = (\<lambda>_. None)"
    using NameTree_wf [of 16 "\<lambda>c. 0"] by (metis zero_less_numeral)
  have f0: "nameTree ?f0 = nt" "pit_heap ?f0 = (\<lambda>_. None)" "pit_next ?f0 = 0"
    "m_deadNonceList ?f0 = the (DeadNonceList 0 DEFAULT_LIFETIME)"
    using nt(1) by (simp_all add: example_forwarder_def tables_new_def tables.defs forwarder.defs)
  have ok0: "pit_ok ?f0" using nt(2,3) by (simp add: pit_ok_def f0 view_def attached_at_def)
  obtain f1 r e where f1: "Pit_insert ?i ?f0 = Some (f1, Some r, True)" "pit_ok f1" "pit_heap f1 r = Some e" "pit_key e = interest_key ?i"
    "attached_at (pit_heap f1) r (take (nteDepth (getName ?i)) (getName ?i))"
    by (rule Pit_insert_wf [OF ok0, of ?i]) (auto simp: f0 attached_at_def)
  note ff = Pit_insert_fields [OF f1(1)]
  let ?f = "modify_pit r pending_entry f1"
  have ok: "pit_ok ?f" by (rule modify_pit_ok [OF f1(2)]) (simp_all add: pending_entry_def)
  have dnl: "dnl_ok (m_deadNonceList ?f)"
  proof -
    obtain d where "DeadNonceList 0 DEFAULT_LIFETIME = Some d" by (simp add: DeadNonceList_def DEFAULT_LIFETIME_def MIN_LIFETIME_def)
    then show ?thesis using dnl_ok_new ff f0(4) by (simp add: modify_pit_def)
  qed
  have pe: "pit_heap ?f r = Some (pending_entry e)" using f1(3) by (simp add: modify_pit_def)
  have att: "m_nameTreeEntry (pending_entry e) \<noteq> None" using f1(3,5) by (simp add: attached_at_def pending_entry_def)
  have key: "interest_key ?i = pit_key (pending_entry e)" using f1(4) by (simp add: pending_entry_def)
  have rec: "used_record 2 10 \<in> set (m_outRecords (pending_entry e))" "m_lastNonce (used_record 2 10) = getNonce ?i"
    "getForwardingHint ?i = []" by (simp_all add: pending_entry_def used_record_def example_interest_def)
  have face: "faces ?f 1 = Some (example_face\<lparr>getId := 261\<rparr>)" using ff by (simp add: modify_pit_def three_faces_def)
  have ns: "\<not> (getScope (example_face\<lparr>getId := 261\<rparr>) = FACE_SCOPE_NON_LOCAL \<and> prefix LOCALHOST (getName ?i))"
    by (simp add: example_interest_def LOCALHOST_def)
  have "\<forall>inR\<in>set (m_inRecords (pending_entry e)). fr_face inR = 1 \<longrightarrow> m_lastNonce inR \<noteq> getNonce ?i" by (simp add: pending_entry_def)
  with loops_are_detected [OF ok dnl pe att key rec(3,1,2) face ns, of example_fw_env 20] pe rec(2)
  show ?thesis by (auto simp: example_face_def)
qed

end
