(* ===== verification/Qos_Strategy.thy ===== *)
theory Qos_Strategy
  imports Strategies Priority_Tx_Queue Token_Bucket
begin

text \<open>
  \<^verbatim>\<open>daemon/fw/qos-strategy.{hpp,cpp}\<close>: the strategy that classifies packets by the second component
  of their name, queues them per face and priority, and drains the queues as tokens allow.

  The record \<open>qos\<close> holds the members of the strategy, the forwarder it belongs to and the token
  buckets, addressed by numbers.  Parameters, in \<open>qos_env\<close>: the URI of a name, the size of a
  block, the length of the queue of a face's device (None when the transport is not a
  device of the simulator), the order in which a hash table is iterated, and the
  token driver of the application with its operations.  The argument \<open>t\<close> is the simulator's
  time in milliseconds.  A hash table with default values is an association list.
\<close>

subsection \<open>State\<close>

record FaceStats =
  absLossRate :: "(nat \<times> rat) list"
  relaLossRate :: "(nat \<times> rat) list"
  latency :: rat
  latencyVariance :: rat
  bootstrapped :: bool
  totalPacketsSent :: "32 word"

definition FaceStats_new :: FaceStats where
  "FaceStats_new = \<lparr>absLossRate = [], relaLossRate = [], latency = 0, latencyVariance = 0, bootstrapped = False, totalPacketsSent = 0\<rparr>"

record ('p, 'x, 'd) qos =
  fwd :: "('p, 'x) forwarder"
  driver :: 'd
  token_buckets :: "nat \<Rightarrow> token_bucket option"
  m_tx_queue :: "(nat \<times> NdnPriorityTxQueue) list"
  qs_retxSuppression :: RetxSuppressionExponential
  m_successReqs :: "rat list"
  m_senders :: "nat list"
  senders_connected :: bool
  m_faceStats :: "(string \<times> FaceStats) list"
  driverConnected :: bool
  rejectedInterests :: "name list"

record ('p, 'x, 'd) qos_env =
  qe_fw :: "('p, 'x) fw_env"
  qe_toUri :: "name \<Rightarrow> string"
  qe_block_size :: "block \<Rightarrow> nat"
  qe_GetNPackets :: "('p, 'x) forwarder \<Rightarrow> face_ref \<Rightarrow> nat option"
  qe_order :: "nat list \<Rightarrow> nat list"
  qe_isSet :: "'d \<Rightarrow> bool"
  qe_setSize :: "nat \<Rightarrow> 'd \<Rightarrow> 'd"
  qe_addTokenBucket :: "nat \<Rightarrow> 'd \<Rightarrow> 'd"
  qe_getSize :: "'d \<Rightarrow> nat"
  qe_getBucket :: "'d \<Rightarrow> nat \<Rightarrow> nat"

definition QOS_RETX_SUPPRESSION_INITIAL :: int where
  "QOS_RETX_SUPPRESSION_INITIAL = 10"

definition QOS_RETX_SUPPRESSION_MAX :: int where
  "QOS_RETX_SUPPRESSION_MAX = 250"

definition QOS_STRATEGY_NAME :: name where
  "QOS_STRATEGY_NAME = [Generic ''localhost'', Generic ''nfd'', Generic ''strategy'', Generic ''qos'', Generic [CHR 0xFD, CHR 0x03]]"

text \<open>
  The constructor, with the instance name it sets; \<open>sender1\<close> to \<open>sender3\<close> are the addresses of the
  three bucket members and \<open>tbs\<close> is the memory they are in.
\<close>

definition QosStrategy :: "(component \<Rightarrow> nat option) \<Rightarrow> name \<Rightarrow> ('p, 'x) forwarder \<Rightarrow> 'd \<Rightarrow> (nat \<Rightarrow> token_bucket option) \<Rightarrow> nat \<Rightarrow> nat \<Rightarrow> nat \<Rightarrow>
    (string + name \<times> ('p, 'x, 'd) qos) option" where
  "QosStrategy versionOf name f d tbs sender1 sender2 sender3 = do {
     rs \<leftarrow> RetxSuppressionExponential_new (ms QOS_RETX_SUPPRESSION_INITIAL) DEFAULT_MULTIPLIER (ms QOS_RETX_SUPPRESSION_MAX);
     strategy_instance versionOf QOS_STRATEGY_NAME
       \<lparr>fwd = f, driver = d,
        token_buckets = tbs(sender1 \<mapsto> TokenBucket, sender2 \<mapsto> TokenBucket, sender3 \<mapsto> TokenBucket),
        m_tx_queue = [], qs_retxSuppression = rs, m_successReqs = [1, 1, float64 (2 / 5)],
        m_senders = [sender1, sender2, sender3], senders_connected = False, m_faceStats = [], driverConnected = False,
        rejectedInterests = []\<rparr> name
   }"

definition on_fwd :: "(('p, 'x) forwarder \<Rightarrow> ('p, 'x) forwarder option) \<Rightarrow> ('p, 'x, 'd) qos \<Rightarrow> ('p, 'x, 'd) qos option" where
  "on_fwd g s = map_option (\<lambda>f. s\<lparr>fwd := f\<rparr>) (g (fwd s))"

text \<open>Identifiers of faces are cut to 32 bits where the strategy uses them as keys.\<close>

definition face_key :: "face \<Rightarrow> nat" where
  "face_key fc = getId fc mod 2 ^ 32"

text \<open>The statistics of a prefix; a subscript creates what it does not find.\<close>

definition stats_at :: "('p, 'x, 'd) qos \<Rightarrow> string \<Rightarrow> FaceStats" where
  "stats_at s namePrefix = (case map_of (m_faceStats s) namePrefix of None \<Rightarrow> FaceStats_new | Some st \<Rightarrow> st)"

definition set_stats :: "string \<Rightarrow> FaceStats \<Rightarrow> ('p, 'x, 'd) qos \<Rightarrow> ('p, 'x, 'd) qos" where
  "set_stats namePrefix st s = s\<lparr>m_faceStats := AList.update namePrefix st (m_faceStats s)\<rparr>"

definition getSubName :: "nat \<Rightarrow> nat \<Rightarrow> name \<Rightarrow> name" where
  "getSubName iStart nComponents name = take nComponents (drop iStart name)"

definition wasRejected :: "name \<Rightarrow> ('p, 'x, 'd) qos \<Rightarrow> ('p, 'x, 'd) qos \<times> bool" where
  "wasRejected interest s = (if interest \<in> set (rejectedInterests s)
     then (s\<lparr>rejectedInterests := remove1 interest (rejectedInterests s)\<rparr>, True) else (s, False))"

definition UNCLASSIFIED :: nat where
  "UNCLASSIFIED = 715"

definition getPrType :: "('p, 'x, 'd) qos_env \<Rightarrow> name \<Rightarrow> nat" where
  "getPrType env pkt =
     (if qe_toUri env (getSubName 1 1 pkt) = ''/typeI'' then 0
      else if qe_toUri env (getSubName 1 1 pkt) = ''/typeII'' then 1
      else if qe_toUri env (getSubName 1 1 pkt) = ''/typeIII'' then 2
      else UNCLASSIFIED)"

subsection \<open>Draining the queues\<close>

definition setUp :: "('p, 'x, 'd) qos_env \<Rightarrow> ('p, 'x, 'd) qos \<Rightarrow> ('p, 'x, 'd) qos" where
  "setUp env s = (if \<not> qe_isSet env (driver s)
     then s\<lparr>driver := fold (qe_addTokenBucket env) (m_senders s) (qe_setSize env 3 (driver s)), senders_connected := True\<rparr>
     else s)"

definition prioritySendInterest :: "time \<Rightarrow> pit_ref \<Rightarrow> interest \<Rightarrow> face_ref \<Rightarrow> ('p, 'x, 'd) qos \<Rightarrow> ('p, 'x, 'd) qos option" where
  "prioritySendInterest now r interest outFace s = on_fwd (sendInterest now r outFace interest) s"

definition prioritySendData :: "('p, 'x, 'd) qos_env \<Rightarrow> pit_ref \<Rightarrow> data \<Rightarrow> face_ref \<Rightarrow> ('p, 'x, 'd) qos \<Rightarrow> ('p, 'x, 'd) qos option" where
  "prioritySendData env r data outFace s = on_fwd (sendData (qe_fw env) r data outFace) s"

definition prioritySendNack :: "('p, 'x, 'd) qos_env \<Rightarrow> pit_ref \<Rightarrow> face_ref \<Rightarrow> nack \<Rightarrow> ('p, 'x, 'd) qos \<Rightarrow> ('p, 'x, 'd) qos option" where
  "prioritySendNack env r inFace nack s = on_fwd (processNack (qe_fw env) inFace nack r) s"

text \<open>The switch on the type of a dequeued item; a block of the wrong kind cannot be decoded.\<close>

definition send_item :: "('p, 'x, 'd) qos_env \<Rightarrow> time \<Rightarrow> QueueItem \<Rightarrow> ('p, 'x, 'd) qos \<Rightarrow> ('p, 'x, 'd) qos option" where
  "send_item env now item s = (case packetType item of
       INTEREST \<Rightarrow> (case wireEncode item of
           InterestBlock interest \<Rightarrow> do {
             r \<leftarrow> pitEntry item;
             outFace \<leftarrow> outface item;
             prioritySendInterest now r interest outFace s
           }
         | _ \<Rightarrow> None)
     | DATA \<Rightarrow> (case wireEncode item of
           DataBlock data \<Rightarrow> do {
             r \<leftarrow> pitEntry item;
             outFace \<leftarrow> outface item;
             prioritySendData env r data outFace s
           }
         | _ \<Rightarrow> None)
     | NACK \<Rightarrow> (case wireEncode item of
           InterestBlock interest \<Rightarrow> do {
             r \<leftarrow> pitEntry item;
             inFace \<leftarrow> inface item;
             prioritySendNack env r inFace \<lparr>getInterest = interest, getReason = NACK_NONE\<rparr> s
           }
         | _ \<Rightarrow> None)
     | INVALID \<Rightarrow> Some s)"

definition driver_buckets :: "('p, 'x, 'd) qos_env \<Rightarrow> ('p, 'x, 'd) qos \<Rightarrow> nat list" where
  "driver_buckets env s = map (qe_getBucket env (driver s)) [0..<qe_getSize env (driver s)]"

definition read_tokens :: "nat \<Rightarrow> nat list \<Rightarrow> ('p, 'x, 'd) qos \<Rightarrow> rat list option" where
  "read_tokens f buckets s = those (map (\<lambda>b. map_option (\<lambda>tb. available tb f) (token_buckets s b)) buckets)"

text \<open>A queue was chosen: its token is taken and its first packet sent.\<close>

definition send_chosen :: "('p, 'x, 'd) qos_env \<Rightarrow> time \<Rightarrow> nat \<Rightarrow> nat list \<Rightarrow> nat \<Rightarrow> ('p, 'x, 'd) qos \<Rightarrow> ('p, 'x, 'd) qos option" where
  "send_chosen env now f buckets choice s = do {
     sender \<leftarrow> vec_get buckets choice;
     tb \<leftarrow> token_buckets s sender;
     let tb = fst (consumeToken 1 f (tb\<lparr>hasFaces := True\<rparr>));
     let tb = tb\<lparr>m_need := AList.update f 0 (m_need tb)\<rparr>;
     tq \<leftarrow> map_of (m_tx_queue s) f;
     (tq, item) \<leftarrow> DoDequeue choice tq;
     send_item env now item
       (s\<lparr>token_buckets := (token_buckets s)(sender \<mapsto> tb), m_tx_queue := AList.update f tq (m_tx_queue s)\<rparr>)
   }"

text \<open>No queue can send: the buckets learn which of them are waited for.\<close>

fun record_needs :: "nat \<Rightarrow> nat \<Rightarrow> nat list \<Rightarrow> ('p, 'x, 'd) qos \<Rightarrow> ('p, 'x, 'd) qos option" where
  "record_needs f i [] s = Some s"
| "record_needs f i (b # buckets) s = do {
     tb \<leftarrow> token_buckets s b;
     tq \<leftarrow> map_of (m_tx_queue s) f;
     need \<leftarrow> tokenReq i tq;
     record_needs f (i + 1) buckets
       (s\<lparr>token_buckets := (token_buckets s)(b \<mapsto> tb\<lparr>m_need := AList.update f (of_nat need) (m_need tb)\<rparr>)\<rparr>)
   }"

definition DEVICE_LIMIT :: nat where
  "DEVICE_LIMIT = 25"

function send_face :: "('p, 'x, 'd) qos_env \<Rightarrow> time \<Rightarrow> nat \<Rightarrow> nat \<Rightarrow> bool \<Rightarrow> ('p, 'x, 'd) qos \<Rightarrow> (('p, 'x, 'd) qos \<times> bool) option" where
  "send_face env now f rate tokenwait s = do {
     tq \<leftarrow> map_of (m_tx_queue s) f;
     e \<leftarrow> TxIsEmpty tq;
     if e \<or> tokenwait \<or> DEVICE_LIMIT \<le> rate then Some (s, tokenwait)
     else do {
       let buckets = driver_buckets env s;
       tokens \<leftarrow> read_tokens f buckets s;
       choice \<leftarrow> SelectQueueToSend tokens tq;
       case choice of
         Some c \<Rightarrow> do {
           s \<leftarrow> send_chosen env now f buckets c s;
           send_face env now f (rate + 1) tokenwait s
         }
       | None \<Rightarrow> do {
           s \<leftarrow> record_needs f 0 buckets s;
           send_face env now f rate True s
         }
     }
   }"
  by pat_completeness auto
termination
  by (relation "measure (\<lambda>(env, now, f, rate, tokenwait, s). (DEVICE_LIMIT - rate) + (if tokenwait then 0 else 1))") auto

declare send_face.simps [simp del]

fun send_faces :: "('p, 'x, 'd) qos_env \<Rightarrow> time \<Rightarrow> nat list \<Rightarrow> bool \<Rightarrow> ('p, 'x, 'd) qos \<Rightarrow> ('p, 'x, 'd) qos option" where
  "send_faces env now [] tokenwait s = Some s"
| "send_faces env now (f # fs) tokenwait s = do {
     outFace \<leftarrow> FaceTable_get f (fwd s);
     let rate = (case qe_GetNPackets env (fwd s) outFace of None \<Rightarrow> DEVICE_LIMIT | Some n \<Rightarrow> n);
     (s, tokenwait) \<leftarrow> send_face env now f rate tokenwait s;
     send_faces env now fs tokenwait s
   }"

definition prioritySend :: "('p, 'x, 'd) qos_env \<Rightarrow> time \<Rightarrow> ('p, 'x, 'd) qos \<Rightarrow> ('p, 'x, 'd) qos option" where
  "prioritySend env now s = (let s = (if driverConnected s then s else (setUp env s)\<lparr>driverConnected := True\<rparr>)
     in send_faces env now (qe_order env (map fst (m_tx_queue s))) False s)"

text \<open>A bucket is refilled; its signal runs \<open>prioritySend\<close> once it is connected.\<close>

definition refill_bucket :: "('p, 'x, 'd) qos_env \<Rightarrow> time \<Rightarrow> nat \<Rightarrow> ('p, 'x, 'd) qos \<Rightarrow> ('p, 'x, 'd) qos option" where
  "refill_bucket env now b s = do {
     tb \<leftarrow> token_buckets s b;
     let (tb, callsend) = addToken tb;
     let s = s\<lparr>token_buckets := (token_buckets s)(b \<mapsto> tb)\<rparr>;
     if callsend \<and> senders_connected s \<and> b \<in> set (m_senders s) then prioritySend env now s else Some s
   }"

subsection \<open>Queueing\<close>

definition enqueue_on :: "('p, 'x, 'd) qos_env \<Rightarrow> nat \<Rightarrow> QueueItem \<Rightarrow> nat \<Rightarrow> nat \<Rightarrow> ('p, 'x, 'd) qos \<Rightarrow> (('p, 'x, 'd) qos \<times> bool) option" where
  "enqueue_on env t item pr_level f s = do {
     let txq = (if map_of (m_tx_queue s) f = None
       then AList.update f (initialize (length (m_successReqs s)) NdnPriorityTxQueue_new) (m_tx_queue s) else m_tx_queue s);
     tq \<leftarrow> map_of txq f;
     (tq, ok) \<leftarrow> DoEnqueue (qe_block_size env) t item pr_level tq;
     Some (s\<lparr>m_tx_queue := AList.update f tq txq\<rparr>, ok)
   }"

subsection \<open>Loss rates\<close>

definition add_face_stats :: "string \<Rightarrow> nat \<Rightarrow> ('p, 'x, 'd) qos \<Rightarrow> ('p, 'x, 'd) qos" where
  "add_face_stats namePrefix f s = (let st = stats_at s namePrefix
     in set_stats namePrefix (st\<lparr>absLossRate := map_touch f (absLossRate st), relaLossRate := map_touch f (relaLossRate st)\<rparr>) s)"

fun initialize_loop :: "string \<Rightarrow> face \<Rightarrow> interest \<Rightarrow> NextHop list \<Rightarrow> ('p, 'x, 'd) qos \<Rightarrow> ('p, 'x, 'd) qos option" where
  "initialize_loop namePrefix inF interest [] s = Some s"
| "initialize_loop namePrefix inF interest (nexthop # nexthops) s = do {
     outF \<leftarrow> faces (fwd s) (nh_face nexthop);
     if getId outF = face_key inF \<and> getLinkType outF \<noteq> LINK_TYPE_AD_HOC \<or> wouldViolateScope inF interest outF
     then initialize_loop namePrefix inF interest nexthops s
     else initialize_loop namePrefix inF interest nexthops (add_face_stats namePrefix (face_key outF) s)
   }"

definition QosStrategy_initialize :: "string \<Rightarrow> pit_ref \<Rightarrow> ('p, 'x, 'd) qos \<Rightarrow> ('p, 'x, 'd) qos option" where
  "QosStrategy_initialize name r s = do {
     let s = set_stats name (stats_at s name) s;
     pe \<leftarrow> pit_heap (fwd s) r;
     fibEntry \<leftarrow> lookupFib pe (fwd s);
     front \<leftarrow> vec_get (m_inRecords pe) 0;
     inF \<leftarrow> faces (fwd s) (fr_face front);
     initialize_loop name inF (m_interest pe) (m_nextHops fibEntry) s
   }"

definition getFaceProb :: "string \<Rightarrow> nat \<Rightarrow> bool \<Rightarrow> ('p, 'x, 'd) qos \<Rightarrow> ('p, 'x, 'd) qos \<times> rat" where
  "getFaceProb namePrefix f rel s =
     (let st = stats_at s namePrefix
      in if \<not> bootstrapped st then (set_stats namePrefix st s, 0)
         else if \<not> rel then (set_stats namePrefix (st\<lparr>absLossRate := map_touch f (absLossRate st)\<rparr>) s, float64 (1 - map_at (absLossRate st) f))
         else (set_stats namePrefix (st\<lparr>relaLossRate := map_touch f (relaLossRate st)\<rparr>) s, float64 (1 - map_at (relaLossRate st) f)))"

definition QOS_BETA :: rat where
  "QOS_BETA = float64 (833 / 1000)"

text \<open>\<open>beta * x + (1. - beta) * rate\<close>\<close>

definition ewma :: "rat \<Rightarrow> rat \<Rightarrow> rat" where
  "ewma x rate = float64 (float64 (QOS_BETA * x) + float64 (float64 (1 - QOS_BETA) * rate))"

definition set_abs :: "string \<Rightarrow> nat \<Rightarrow> rat \<Rightarrow> ('p, 'x, 'd) qos \<Rightarrow> ('p, 'x, 'd) qos" where
  "set_abs namePrefix f v s = (let st = stats_at s namePrefix
     in set_stats namePrefix (st\<lparr>absLossRate := AList.update f v (absLossRate st)\<rparr>) s)"

definition set_rela :: "string \<Rightarrow> nat \<Rightarrow> rat \<Rightarrow> ('p, 'x, 'd) qos \<Rightarrow> ('p, 'x, 'd) qos" where
  "set_rela namePrefix f v s = (let st = stats_at s namePrefix
     in set_stats namePrefix (st\<lparr>relaLossRate := AList.update f v (relaLossRate st)\<rparr>) s)"

text \<open>\<open>getName().size() - n\<close> is computed in 64 bits; beyond the size the whole name is taken.\<close>

definition prefix_uri :: "('p, 'x, 'd) qos_env \<Rightarrow> nat \<Rightarrow> name \<Rightarrow> string" where
  "prefix_uri env n name = qe_toUri env (getSubName 0 (unat (of_nat (length name) - of_nat n :: 64 word)) name)"

fun lost_on_others :: "string \<Rightarrow> nat \<Rightarrow> strategy_info OutRecord list \<Rightarrow> ('p, 'x, 'd) qos \<Rightarrow> ('p, 'x, 'd) qos option" where
  "lost_on_others namePrefix inId [] s = Some s"
| "lost_on_others namePrefix inId (out # outs) s = do {
     outF \<leftarrow> faces (fwd s) (fr_face out);
     if inId = getId outF then lost_on_others namePrefix inId outs s
     else lost_on_others namePrefix inId outs
       (set_abs namePrefix (face_key outF) (ewma 1 (map_at (absLossRate (stats_at s namePrefix)) (face_key outF))) s)
   }"

definition QosStrategy_beforeSatisfyInterest :: "('p, 'x, 'd) qos_env \<Rightarrow> pit_ref \<Rightarrow> face_ref \<Rightarrow> data \<Rightarrow> ('p, 'x, 'd) qos \<Rightarrow>
    ('p, 'x, 'd) qos option" where
  "QosStrategy_beforeSatisfyInterest env r inFace data s = do {
     let namePrefix = prefix_uri env 2 (getDataName data);
     if map_of (m_faceStats s) namePrefix = None then Some s
     else do {
       inF \<leftarrow> faces (fwd s) inFace;
       pe \<leftarrow> pit_heap (fwd s) r;
       let f = face_key inF;
       let s = set_abs namePrefix f (ewma 0 (map_at (absLossRate (stats_at s namePrefix)) f)) s;
       let s = set_rela namePrefix f (ewma 0 (map_at (relaLossRate (stats_at s namePrefix)) f)) s;
       lost_on_others namePrefix (getId inF) (m_outRecords pe) s
     }
   }"

text \<open>The second assignment reads the relative rate and writes the absolute one.\<close>

fun lost_on_all :: "string \<Rightarrow> strategy_info OutRecord list \<Rightarrow> ('p, 'x, 'd) qos \<Rightarrow> ('p, 'x, 'd) qos option" where
  "lost_on_all namePrefix [] s = Some s"
| "lost_on_all namePrefix (out # outs) s = do {
     outF \<leftarrow> faces (fwd s) (fr_face out);
     let f = face_key outF;
     let s = set_abs namePrefix f (ewma 1 (map_at (absLossRate (stats_at s namePrefix)) f)) s;
     let st = stats_at s namePrefix;
     let s = set_stats namePrefix (st\<lparr>relaLossRate := map_touch f (relaLossRate st)\<rparr>) s;
     lost_on_all namePrefix outs (set_abs namePrefix f (ewma 1 (map_at (relaLossRate st) f)) s)
   }"

definition beforeExpirePendingInterest :: "('p, 'x, 'd) qos_env \<Rightarrow> pit_ref \<Rightarrow> ('p, 'x, 'd) qos \<Rightarrow> ('p, 'x, 'd) qos option" where
  "beforeExpirePendingInterest env r s = do {
     pe \<leftarrow> pit_heap (fwd s) r;
     let (s, rejected) = wasRejected (pit_name pe) s;
     if rejected then Some s
     else do {
       let namePrefix = prefix_uri env 2 (pit_name pe);
       if map_of (m_faceStats s) namePrefix = None then Some s
       else lost_on_all namePrefix (m_outRecords pe) s
     }
   }"

subsection \<open>Receiving packets\<close>

record best_choice =
  bestFaceID :: nat
  bestProb :: rat
  bestFace :: "face_ref option"
  nEligibleNextHops :: nat
  isSuppressed :: bool

text \<open>One pass over the next hops for the unseen face with the best probability.\<close>

fun best_loop :: "time \<Rightarrow> face_ref \<Rightarrow> interest \<Rightarrow> pit_ref \<Rightarrow> string \<Rightarrow> nat list \<Rightarrow> NextHop list \<Rightarrow> best_choice \<Rightarrow> ('p, 'x, 'd) qos \<Rightarrow>
    (('p, 'x, 'd) qos \<times> best_choice) option" where
  "best_loop now inFace interest r namePrefix seenFaces [] b s = Some (s, b)"
| "best_loop now inFace interest r namePrefix seenFaces (nexthop # nexthops) b s = do {
     let outFace = nh_face nexthop;
     pe \<leftarrow> pit_heap (fwd s) r;
     let (pe, suppressResult) = decidePerUpstream now (qs_retxSuppression s) pe outFace;
     s \<leftarrow> on_fwd (change_pit r (\<lambda>_. Some pe)) s;
     if suppressResult = RETX_SUPPRESS
     then best_loop now inFace interest r namePrefix seenFaces nexthops (b\<lparr>isSuppressed := True\<rparr>) s
     else do {
       inF \<leftarrow> faces (fwd s) inFace;
       outF \<leftarrow> faces (fwd s) outFace;
       if getId outF = getId inF \<and> getLinkType outF \<noteq> LINK_TYPE_AD_HOC \<or> wouldViolateScope inF interest outF
       then best_loop now inFace interest r namePrefix seenFaces nexthops b s
       else if face_key outF \<in> set seenFaces
       then best_loop now inFace interest r namePrefix seenFaces nexthops b s
       else do {
         let f = face_key outF;
         let (s, faceProb) = getFaceProb namePrefix f (bestFaceID b \<noteq> 0) s;
         let b = (if faceProb \<ge> bestProb b then b\<lparr>bestProb := faceProb, bestFaceID := f, bestFace := Some outFace\<rparr> else b);
         best_loop now inFace interest r namePrefix seenFaces nexthops (b\<lparr>nEligibleNextHops := nEligibleNextHops b + 1\<rparr>) s
       }
     }
   }"

definition no_best :: "best_choice \<Rightarrow> best_choice" where
  "no_best b = b\<lparr>bestFaceID := 0, bestProb := 0, bestFace := None\<rparr>"

definition faceKeys :: "NextHop list \<Rightarrow> (face_ref \<Rightarrow> face option) \<Rightarrow> nat set" where
  "faceKeys nexthops fs = (\<lambda>nh. case fs (nh_face nh) of None \<Rightarrow> 0 | Some fc \<Rightarrow> face_key fc) ` set nexthops"

lemma faceKeys_Cons: "faceKeys (nexthop # nexthops) fs =
   insert (case fs (nh_face nexthop) of None \<Rightarrow> 0 | Some fc \<Rightarrow> face_key fc) (faceKeys nexthops fs)"
  by (simp add: faceKeys_def)

lemma finite_faceKeys [simp]: "finite (faceKeys nexthops fs)"
  by (simp add: faceKeys_def)

lemma on_fwd_Some: "on_fwd g s = Some s' \<longleftrightarrow> (\<exists>f. g (fwd s) = Some f \<and> s' = s\<lparr>fwd := f\<rparr>)"
  by (auto simp: on_fwd_def)

lemma set_stats_fwd [simp]: "fwd (set_stats p st s) = fwd s"
  by (simp add: set_stats_def)

lemma getFaceProb_fwd: "getFaceProb p f rel s = (s', x) \<Longrightarrow> fwd s' = fwd s"
  by (auto simp: getFaceProb_def Let_def split: if_splits)

lemma change_pit_same_faces: "change_pit r g f = Some f' \<Longrightarrow> faces f' = faces f"
  by (auto simp: change_pit_def split: bind_splits)

lemma best_loop_faces:
  "best_loop now inFace interest r p seen nexthops b s = Some (s', b') \<Longrightarrow> faces (fwd s') = faces (fwd s)"
proof (induction nexthops arbitrary: b s)
  case Nil
  then show ?case by simp
next
  case (Cons nexthop nexthops)
  then show ?case
    by (auto simp: Let_def on_fwd_Some split: bind_splits if_splits prod.splits dest!: change_pit_same_faces getFaceProb_fwd)
qed

lemma best_loop_unseen:
  "best_loop now inFace interest r p seen nexthops b s = Some (s', b') \<Longrightarrow>
   bestFaceID b' = bestFaceID b \<or> bestFaceID b' \<in> faceKeys nexthops (faces (fwd s)) - set seen"
proof (induction nexthops arbitrary: b s)
  case Nil
  then show ?case by simp
next
  case (Cons nexthop nexthops)
  from Cons.prems show ?case
    by (auto simp: Let_def on_fwd_Some faceKeys_Cons split: bind_splits if_splits prod.splits
        dest!: Cons.IH change_pit_same_faces getFaceProb_fwd)
qed

text \<open>
  The loop that queues the Interest on one face after the other until the probabilities add
  up to the required one or no face is left.  It ends: every round uses up a face.
\<close>

function forward_loop :: "('p, 'x, 'd) qos_env \<Rightarrow> time \<Rightarrow> nat \<Rightarrow> face_ref \<Rightarrow> interest \<Rightarrow> pit_ref \<Rightarrow> string \<Rightarrow> nat \<Rightarrow> rat \<Rightarrow> NextHop list \<Rightarrow>
    nat list \<Rightarrow> rat \<Rightarrow> best_choice \<Rightarrow> bool \<Rightarrow> ('p, 'x, 'd) qos \<Rightarrow> (('p, 'x, 'd) qos \<times> best_choice \<times> bool) option" where
  "forward_loop env now t inFace interest r namePrefix pr_level successProb nexthops seenFaces prob b forwarded s =
     (case best_loop now inFace interest r namePrefix seenFaces nexthops (no_best b) s of
        None \<Rightarrow> None
      | Some (s1, b1) \<Rightarrow>
          if bestFaceID b1 = 0 then Some (s1, b1, forwarded)
          else (case enqueue_on env t ((QueueItem_of r)\<lparr>wireEncode := InterestBlock interest, packetType := INTEREST,
                    inface := Some inFace, outface := bestFace b1\<rparr>) pr_level (bestFaceID b1) s1 of
              None \<Rightarrow> None
            | Some (s2, ok) \<Rightarrow>
                let prob = float64 (prob + bestProb b1); seenFaces = bestFaceID b1 # seenFaces
                in if prob < successProb
                   then forward_loop env now t inFace interest r namePrefix pr_level successProb nexthops seenFaces prob b1 (forwarded \<or> ok) s2
                   else Some (s2, b1, forwarded \<or> ok)))"
  by pat_completeness auto

lemma enqueue_on_fwd: "enqueue_on env t item pr_level f s = Some (s', ok) \<Longrightarrow> fwd s' = fwd s"
  by (auto simp: enqueue_on_def Let_def split: bind_splits if_splits)

lemma round_uses_face:
  assumes "best_loop now inFace interest r p seen nexthops (no_best b) s = Some (s1, b1)" and "bestFaceID b1 \<noteq> 0"
    and "enqueue_on env t item pr_level f s1 = Some (s2, ok)"
  shows "card (faceKeys nexthops (faces (fwd s2)) - set (bestFaceID b1 # seen)) < card (faceKeys nexthops (faces (fwd s)) - set seen)"
proof -
  have "faces (fwd s2) = faces (fwd s)"
    by (simp add: enqueue_on_fwd [OF assms(3)] best_loop_faces [OF assms(1)])
  moreover have "bestFaceID b1 \<in> faceKeys nexthops (faces (fwd s)) - set seen"
    using best_loop_unseen [OF assms(1)] assms(2) by (simp add: no_best_def)
  ultimately show ?thesis by (intro psubset_card_mono) auto
qed

termination forward_loop
  apply (relation "measure (\<lambda>(env, now, t, inFace, interest, r, p, pr, req, nexthops, seen, prob, b, forwarded, s).
    card (faceKeys nexthops (faces (fwd s)) - set seen))")
   apply (rule wf_measure)
  apply (simp only: in_measure split_conv)
  apply hypsubst
  apply (rule round_uses_face, assumption+)
  done

declare forward_loop.simps [simp del]

text \<open>Eligibility for the unclassified Interests: the device queue must not be too long.\<close>

definition qos_isNextHopEligible :: "('p, 'x, 'd) qos_env \<Rightarrow> ('p, 'x) forwarder \<Rightarrow> face_ref \<Rightarrow> interest \<Rightarrow> strategy_info pit_entry \<Rightarrow> time option \<Rightarrow>
    NextHop \<Rightarrow> bool option" where
  "qos_isNextHopEligible env f inFace interest pe unused nexthop = do {
     ok \<leftarrow> isNextHopEligible f inFace interest pe unused nexthop;
     Some (ok \<and> (case qe_GetNPackets env f (nh_face nexthop) of None \<Rightarrow> False | Some rate \<Rightarrow> rate \<le> 100))
   }"

fun qos_find_eligible :: "('p, 'x, 'd) qos_env \<Rightarrow> ('p, 'x) forwarder \<Rightarrow> face_ref \<Rightarrow> interest \<Rightarrow> strategy_info pit_entry \<Rightarrow> time option \<Rightarrow>
    NextHop list \<Rightarrow> NextHop option option" where
  "qos_find_eligible env f inFace interest pe unused [] = Some None"
| "qos_find_eligible env f inFace interest pe unused (nexthop # nexthops) = do {
     ok \<leftarrow> qos_isNextHopEligible env f inFace interest pe unused nexthop;
     if ok then Some (Some nexthop) else qos_find_eligible env f inFace interest pe unused nexthops
   }"

fun qos_earliest_loop :: "('p, 'x, 'd) qos_env \<Rightarrow> ('p, 'x) forwarder \<Rightarrow> face_ref \<Rightarrow> interest \<Rightarrow> strategy_info pit_entry \<Rightarrow> NextHop list \<Rightarrow>
    NextHop option \<Rightarrow> time option \<Rightarrow> NextHop option option" where
  "qos_earliest_loop env f inFace interest pe [] found earliestRenewed = Some found"
| "qos_earliest_loop env f inFace interest pe (it # nexthops) found earliestRenewed = do {
     ok \<leftarrow> qos_isNextHopEligible env f inFace interest pe None it;
     if \<not> ok then qos_earliest_loop env f inFace interest pe nexthops found earliestRenewed
     else do {
       outRecord \<leftarrow> getOutRecord pe (nh_face it);
       if (case earliestRenewed of None \<Rightarrow> True | Some t \<Rightarrow> m_lastRenewed outRecord < t)
       then qos_earliest_loop env f inFace interest pe nexthops (Some it) (Some (m_lastRenewed outRecord))
       else qos_earliest_loop env f inFace interest pe nexthops found earliestRenewed
     }
   }"

text \<open>Queue the Interest on the face of one next hop and send what can be sent.\<close>

definition queue_and_send :: "('p, 'x, 'd) qos_env \<Rightarrow> time \<Rightarrow> nat \<Rightarrow> face_ref \<Rightarrow> interest \<Rightarrow> pit_ref \<Rightarrow> nat \<Rightarrow> NextHop \<Rightarrow> ('p, 'x, 'd) qos \<Rightarrow>
    ('p, 'x, 'd) qos option" where
  "queue_and_send env now t inFace interest r pr_level it s = do {
     outF \<leftarrow> faces (fwd s) (nh_face it);
     (s, _) \<leftarrow> enqueue_on env t ((QueueItem_of r)\<lparr>wireEncode := InterestBlock interest, packetType := INTEREST,
       inface := Some inFace, outface := Some (nh_face it)\<rparr>) pr_level (face_key outF) s;
     prioritySend env now s
   }"

text \<open>The end of the handler when nothing was queued.\<close>

definition reject :: "time \<Rightarrow> interest \<Rightarrow> pit_ref \<Rightarrow> ('p, 'x, 'd) qos \<Rightarrow> ('p, 'x, 'd) qos option" where
  "reject now interest r s = do {
     s \<leftarrow> on_fwd (rejectPendingInterest now r) s;
     Some (s\<lparr>rejectedInterests := rejectedInterests s @ [getName interest]\<rparr>)
   }"

definition count_packet :: "string \<Rightarrow> ('p, 'x, 'd) qos \<Rightarrow> ('p, 'x, 'd) qos" where
  "count_packet namePrefix s = (let st = stats_at s namePrefix; n = totalPacketsSent st + 1
     in set_stats namePrefix (st\<lparr>totalPacketsSent := n, bootstrapped := bootstrapped st \<or> n > 3\<rparr>) s)"

definition decide_per_pit_entry :: "time \<Rightarrow> pit_ref \<Rightarrow> ('p, 'x, 'd) qos \<Rightarrow> (('p, 'x, 'd) qos \<times> RetxSuppressionResult) option" where
  "decide_per_pit_entry now r s = do {
     pe \<leftarrow> pit_heap (fwd s) r;
     (pe, suppression) \<leftarrow> decidePerPitEntry now (qs_retxSuppression s) pe;
     s \<leftarrow> on_fwd (change_pit r (\<lambda>_. Some pe)) s;
     Some (s, suppression)
   }"

definition no_route :: "time \<Rightarrow> face_ref \<Rightarrow> pit_ref \<Rightarrow> ('p, 'x, 'd) qos \<Rightarrow> ('p, 'x, 'd) qos option" where
  "no_route now inFace r s = do {
     s \<leftarrow> on_fwd (sendNack r inFace NACK_NO_ROUTE) s;
     on_fwd (rejectPendingInterest now r) s
   }"

definition forward_classified :: "('p, 'x, 'd) qos_env \<Rightarrow> time \<Rightarrow> nat \<Rightarrow> face_ref \<Rightarrow> interest \<Rightarrow> pit_ref \<Rightarrow> nat \<Rightarrow> ('p, 'x, 'd) qos \<Rightarrow>
    ('p, 'x, 'd) qos option" where
  "forward_classified env now t inFace interest r pr_level s = do {
     successProb \<leftarrow> vec_get (m_successReqs s) pr_level;
     let namePrefix = prefix_uri env 1 (getName interest);
     s \<leftarrow> (if map_of (m_faceStats s) namePrefix = None then QosStrategy_initialize namePrefix r s else Some s);
     let s = count_packet namePrefix s;
     pe \<leftarrow> pit_heap (fwd s) r;
     fibEntry \<leftarrow> lookupFib pe (fwd s);
     (s, b, forwarded) \<leftarrow> forward_loop env now t inFace interest r namePrefix pr_level successProb (m_nextHops fibEntry) [] 0
       \<lparr>bestFaceID = 0, bestProb = 0, bestFace = None, nEligibleNextHops = 0, isSuppressed = False\<rparr> False s;
     s \<leftarrow> prioritySend env now s;
     s \<leftarrow> (if nEligibleNextHops b = 0 \<and> \<not> isSuppressed b then no_route now inFace r s else Some s);
     (s, suppression) \<leftarrow> decide_per_pit_entry now r s;
     if suppression = RETX_SUPPRESS then Some s
     else if \<not> forwarded then reject now interest r s
     else prioritySend env now s
   }"

definition forward_unclassified :: "('p, 'x, 'd) qos_env \<Rightarrow> time \<Rightarrow> nat \<Rightarrow> face_ref \<Rightarrow> interest \<Rightarrow> pit_ref \<Rightarrow> nat \<Rightarrow> ('p, 'x, 'd) qos \<Rightarrow>
    ('p, 'x, 'd) qos option" where
  "forward_unclassified env now t inFace interest r pr_level s = do {
     (s, suppression) \<leftarrow> decide_per_pit_entry now r s;
     if suppression = RETX_SUPPRESS then Some s
     else do {
       pe \<leftarrow> pit_heap (fwd s) r;
       fibEntry \<leftarrow> lookupFib pe (fwd s);
       let nexthops = m_nextHops fibEntry;
       if suppression = RETX_NEW then do {
         it \<leftarrow> qos_find_eligible env (fwd s) inFace interest pe None nexthops;
         case it of
           None \<Rightarrow> no_route now inFace r s
         | Some nexthop \<Rightarrow> queue_and_send env now t inFace interest r pr_level nexthop s
       }
       else do {
         it \<leftarrow> qos_find_eligible env (fwd s) inFace interest pe (Some now) nexthops;
         case it of
           Some nexthop \<Rightarrow> queue_and_send env now t inFace interest r pr_level nexthop s
         | None \<Rightarrow> do {
             it \<leftarrow> qos_earliest_loop env (fwd s) inFace interest pe nexthops None None;
             case it of
               Some nexthop \<Rightarrow> queue_and_send env now t inFace interest r pr_level nexthop s
             | None \<Rightarrow> reject now interest r s
           }
       }
     }
   }"

definition QosStrategy_afterReceiveInterest :: "('p, 'x, 'd) qos_env \<Rightarrow> time \<Rightarrow> nat \<Rightarrow> face_ref \<Rightarrow> interest \<Rightarrow> pit_ref \<Rightarrow> ('p, 'x, 'd) qos \<Rightarrow>
    ('p, 'x, 'd) qos option" where
  "QosStrategy_afterReceiveInterest env now t inFace interest r s = (let pr_level = getPrType env (getName interest)
     in if pr_level < length (m_successReqs s) then forward_classified env now t inFace interest r pr_level s
        else forward_unclassified env now t inFace interest r pr_level s)"

text \<open>The handler for Nacks returns at once.\<close>

definition QosStrategy_afterReceiveNack :: "face_ref \<Rightarrow> nack \<Rightarrow> pit_ref \<Rightarrow> ('p, 'x, 'd) qos \<Rightarrow> ('p, 'x, 'd) qos option" where
  "QosStrategy_afterReceiveNack inFace nack r s = Some s"

fun enqueue_data :: "('p, 'x, 'd) qos_env \<Rightarrow> nat \<Rightarrow> QueueItem \<Rightarrow> nat \<Rightarrow> face_ref list \<Rightarrow> ('p, 'x, 'd) qos \<Rightarrow> ('p, 'x, 'd) qos option" where
  "enqueue_data env t item pr_level [] s = Some s"
| "enqueue_data env t item pr_level (pendingDownstream # pendingDownstreams) s = do {
     outF \<leftarrow> faces (fwd s) pendingDownstream;
     (s, _) \<leftarrow> enqueue_on env t (item\<lparr>outface := Some pendingDownstream\<rparr>) pr_level (face_key outF) s;
     enqueue_data env t item pr_level pendingDownstreams s
   }"

definition QosStrategy_afterReceiveData :: "('p, 'x, 'd) qos_env \<Rightarrow> time \<Rightarrow> nat \<Rightarrow> pit_ref \<Rightarrow> face_ref \<Rightarrow> data \<Rightarrow> ('p, 'x, 'd) qos \<Rightarrow>
    ('p, 'x, 'd) qos option" where
  "QosStrategy_afterReceiveData env now t r inFace data s = do {
     s \<leftarrow> QosStrategy_beforeSatisfyInterest env r inFace data s;
     pe \<leftarrow> pit_heap (fwd s) r;
     let pr_level = getPrType env (getDataName data);
     let pendingDownstreams = sorted_list_of_set
       (set (filter (\<lambda>face. \<not> is_same_link (fwd s) face inFace) (unexpired_downstreams now pe)));
     s \<leftarrow> enqueue_data env t ((QueueItem_of r)\<lparr>wireEncode := DataBlock data, packetType := DATA, inface := Some inFace\<rparr>)
       pr_level pendingDownstreams s;
     prioritySend env now s
   }"

subsection \<open>Sending an item\<close>

text \<open>What sending keeps of the forwarder: the faces, and the Interests of the PIT entries.\<close>

definition pit_kept :: "('p, 'x) forwarder \<Rightarrow> ('p, 'x) forwarder \<Rightarrow> bool" where
  "pit_kept f f' \<longleftrightarrow> faces f' = faces f \<and> m_faces f' = m_faces f \<and>
     (\<forall>r pe. pit_heap f r = Some pe \<longrightarrow> (\<exists>pe'. pit_heap f' r = Some pe' \<and> m_interest pe' = m_interest pe))"

lemma pit_kept_refl [simp]: "pit_kept f f"
  by (simp add: pit_kept_def)

lemma pit_kept_trans: "pit_kept f g \<Longrightarrow> pit_kept g h \<Longrightarrow> pit_kept f h"
  by (simp add: pit_kept_def) metis

text \<open>An item the strategy may have queued: it can be decoded and belongs to its PIT entry.\<close>

definition item_ok :: "('p, 'x, 'd) qos_env \<Rightarrow> ('p, 'x) forwarder \<Rightarrow> QueueItem \<Rightarrow> bool" where
  "item_ok env f item \<longleftrightarrow> (\<exists>r pe face fc. pitEntry item = Some r \<and> pit_heap f r = Some pe \<and> outface item = Some face \<and> faces f face = Some fc \<and>
     ((\<exists>interest. packetType item = INTEREST \<and> wireEncode item = InterestBlock interest \<and> canMatch pe interest 0 = Some True) \<or>
      (\<exists>data. packetType item = DATA \<and> wireEncode item = DataBlock data \<and> fe_matchesData (qe_fw env) (m_interest pe) data)))"

lemma canMatch_interest: "m_interest pe' = m_interest pe \<Longrightarrow> canMatch pe' interest n = canMatch pe interest n"
  by (simp add: canMatch_def)

lemma item_ok_kept:
  assumes "item_ok env f item" and "pit_kept f f'"
  shows "item_ok env f' item"
proof -
  obtain r pe face fc where i: "pitEntry item = Some r" "pit_heap f r = Some pe" "outface item = Some face" "faces f face = Some fc"
    and k: "(\<exists>interest. packetType item = INTEREST \<and> wireEncode item = InterestBlock interest \<and> canMatch pe interest 0 = Some True) \<or>
      (\<exists>data. packetType item = DATA \<and> wireEncode item = DataBlock data \<and> fe_matchesData (qe_fw env) (m_interest pe) data)"
    using assms(1) unfolding item_ok_def by blast
  obtain pe' where pe': "pit_heap f' r = Some pe'" "m_interest pe' = m_interest pe"
    using assms(2) i(2) unfolding pit_kept_def by blast
  have "faces f' face = Some fc" using assms(2) i(4) by (simp add: pit_kept_def)
  with i pe' k canMatch_interest [OF pe'(2)] show ?thesis unfolding item_ok_def by auto
qed

lemma onOutgoingInterest_ok:
  assumes "pit_heap f r = Some pe" and "canMatch pe interest 0 = Some True"
  shows "\<exists>f'. onOutgoingInterest now r face interest f = Some f' \<and> pit_kept f f'"
  using assms by (auto simp: onOutgoingInterest_def change_pit_def insertOrUpdateOutRecord_def send_def bump_def Let_def pit_kept_def)

lemma sendData_ok:
  assumes "pit_heap f r = Some pe" and "faces f face = Some fc" and "fe_matchesData env (m_interest pe) data"
  shows "\<exists>f'. sendData env r data face f = Some f' \<and> pit_kept f f'"
  using assms by (auto simp: sendData_def change_pit_def onOutgoingData_def deleteInRecord_def send_def bump_def Let_def pit_kept_def)

lemma send_item_ok:
  assumes "item_ok env (fwd s) item"
  shows "\<exists>f'. send_item env now item s = Some (s\<lparr>fwd := f'\<rparr>) \<and> pit_kept (fwd s) f'"
proof -
  obtain r pe face fc where i: "pitEntry item = Some r" "pit_heap (fwd s) r = Some pe" "outface item = Some face" "faces (fwd s) face = Some fc"
    and k: "(\<exists>interest. packetType item = INTEREST \<and> wireEncode item = InterestBlock interest \<and> canMatch pe interest 0 = Some True) \<or>
      (\<exists>data. packetType item = DATA \<and> wireEncode item = DataBlock data \<and> fe_matchesData (qe_fw env) (m_interest pe) data)"
    using assms unfolding item_ok_def by blast
  from k show ?thesis
  proof (elim disjE exE conjE)
    fix interest assume a: "packetType item = INTEREST" "wireEncode item = InterestBlock interest" "canMatch pe interest 0 = Some True"
    obtain f' where "onOutgoingInterest now r face interest (fwd s) = Some f'" "pit_kept (fwd s) f'"
      using onOutgoingInterest_ok [OF i(2) a(3)] by blast
    with a i show ?thesis by (intro exI [of _ f']) (simp add: send_item_def prioritySendInterest_def on_fwd_def)
  next
    fix data assume a: "packetType item = DATA" "wireEncode item = DataBlock data" "fe_matchesData (qe_fw env) (m_interest pe) data"
    obtain f' where "sendData (qe_fw env) r data face (fwd s) = Some f'" "pit_kept (fwd s) f'"
      using sendData_ok [OF i(2) i(4) a(3)] by blast
    with a i show ?thesis by (intro exI [of _ f']) (simp add: send_item_def prioritySendData_def on_fwd_def)
  qed
qed

subsection \<open>Tokens pay for packets\<close>

definition txq_ok :: "('p, 'x, 'd) qos_env \<Rightarrow> nat \<Rightarrow> ('p, 'x) forwarder \<Rightarrow> NdnPriorityTxQueue \<Rightarrow> bool" where
  "txq_ok env n f tq \<longleftrightarrow> txq_wf n tq \<and> (\<forall>q\<in>set (m_priorityQueues tq). m_lastVirtualFinishTime q < 2 ^ 64 \<and>
     (\<forall>item\<in>set (m_queue q). item_ok env f item))"

definition qos_ok :: "('p, 'x, 'd) qos_env \<Rightarrow> nat \<Rightarrow> ('p, 'x, 'd) qos \<Rightarrow> bool" where
  "qos_ok env n s \<longleftrightarrow> length (driver_buckets env s) = n \<and> distinct (driver_buckets env s) \<and>
     (\<forall>b\<in>set (driver_buckets env s). \<exists>tb. token_buckets s b = Some tb \<and> tb_wf tb) \<and>
     (\<forall>f tq. map_of (m_tx_queue s) f = Some tq \<longrightarrow> FaceTable_get f (fwd s) \<noteq> None \<and> txq_ok env n (fwd s) tq)"

abbreviation tokens_of :: "('p, 'x, 'd) qos_env \<Rightarrow> nat \<Rightarrow> nat \<Rightarrow> ('p, 'x, 'd) qos \<Rightarrow> rat" where
  "tokens_of env i f s \<equiv> available (the (token_buckets s (driver_buckets env s ! i))) f"

abbreviation queue_of :: "nat \<Rightarrow> NdnPriorityTxQueue \<Rightarrow> QueueItem list" where
  "queue_of i tq \<equiv> m_queue (m_priorityQueues tq ! i)"

text \<open>
  From s to s', every queue lost a number of its first packets, and its bucket as many
  tokens for that face.
\<close>

definition paid :: "('p, 'x, 'd) qos_env \<Rightarrow> nat \<Rightarrow> nat \<Rightarrow> ('p, 'x, 'd) qos \<Rightarrow> NdnPriorityTxQueue \<Rightarrow> ('p, 'x, 'd) qos \<Rightarrow> NdnPriorityTxQueue \<Rightarrow> bool" where
  "paid env n f s tq s' tq' \<longleftrightarrow> (\<forall>i<n. \<exists>k\<le>length (queue_of i tq). queue_of i tq' = drop k (queue_of i tq) \<and>
     tokens_of env i f s' = tokens_of env i f s - of_nat k)"

definition served :: "('p, 'x, 'd) qos_env \<Rightarrow> nat \<Rightarrow> ('p, 'x, 'd) qos \<Rightarrow> ('p, 'x, 'd) qos \<Rightarrow> bool" where
  "served env n s s' \<longleftrightarrow> driver s' = driver s \<and>
     (\<forall>f. case map_of (m_tx_queue s) f of
         None \<Rightarrow> map_of (m_tx_queue s') f = None
       | Some tq \<Rightarrow> \<exists>tq'. map_of (m_tx_queue s') f = Some tq' \<and> paid env n f s tq s' tq')"

lemma driver_buckets_cong: "driver s' = driver s \<Longrightarrow> driver_buckets env s' = driver_buckets env s"
  by (simp add: driver_buckets_def)

lemma paid_refl: "(\<And>i. i < n \<Longrightarrow> tokens_of env i f s' = tokens_of env i f s) \<Longrightarrow> paid env n f s tq s' tq"
  unfolding paid_def by (intro allI impI exI [of _ 0]) simp

lemma paid_trans:
  assumes a: "paid env n f s1 tq1 s2 tq2" and b: "paid env n f s2 tq2 s3 tq3"
  shows "paid env n f s1 tq1 s3 tq3"
  unfolding paid_def
proof (intro allI impI)
  fix i assume i: "i < n"
  obtain k where k: "k \<le> length (queue_of i tq1)" "queue_of i tq2 = drop k (queue_of i tq1)" "tokens_of env i f s2 = tokens_of env i f s1 - of_nat k"
    using a i unfolding paid_def by blast
  obtain l where l: "l \<le> length (queue_of i tq2)" "queue_of i tq3 = drop l (queue_of i tq2)" "tokens_of env i f s3 = tokens_of env i f s2 - of_nat l"
    using b i unfolding paid_def by blast
  show "\<exists>k\<le>length (queue_of i tq1). queue_of i tq3 = drop k (queue_of i tq1) \<and> tokens_of env i f s3 = tokens_of env i f s1 - of_nat k"
    using k l by (intro exI [of _ "k + l"]) (simp add: add.commute)
qed

lemma served_refl: "served env n s s"
  by (simp add: served_def paid_refl split: option.split)

lemma served_Some:
  "served env n s s' \<Longrightarrow> map_of (m_tx_queue s) f = Some tq \<Longrightarrow> \<exists>tq'. map_of (m_tx_queue s') f = Some tq' \<and> paid env n f s tq s' tq'"
  by (auto simp: served_def dest!: spec [of _ f])

lemma served_None:
  "served env n s s' \<Longrightarrow> map_of (m_tx_queue s) f = None \<Longrightarrow> map_of (m_tx_queue s') f = None"
  by (auto simp: served_def dest!: spec [of _ f])

lemma served_trans:
  assumes a: "served env n s1 s2" and b: "served env n s2 s3"
  shows "served env n s1 s3"
proof -
  have "case map_of (m_tx_queue s1) f of
         None \<Rightarrow> map_of (m_tx_queue s3) f = None
       | Some tq \<Rightarrow> \<exists>tq'. map_of (m_tx_queue s3) f = Some tq' \<and> paid env n f s1 tq s3 tq'" for f
  proof (cases "map_of (m_tx_queue s1) f")
    case None
    then show ?thesis using served_None [OF b served_None [OF a None]] by simp
  next
    case (Some tq1)
    obtain tq2 where t2: "map_of (m_tx_queue s2) f = Some tq2" "paid env n f s1 tq1 s2 tq2" using served_Some [OF a Some] by blast
    obtain tq3 where "map_of (m_tx_queue s3) f = Some tq3" "paid env n f s2 tq2 s3 tq3" using served_Some [OF b t2(1)] by blast
    with paid_trans [OF t2(2)] Some show ?thesis by auto
  qed
  moreover have "driver s3 = driver s1" using a b by (simp add: served_def)
  ultimately show ?thesis by (simp add: served_def)
qed

lemma consume_one:
  assumes "tb_wf tb" and "1 \<le> available tb f"
  defines "tb' \<equiv> (fst (consumeToken 1 f (tb\<lparr>hasFaces := True\<rparr>)))"
  shows "tb_wf tb'" and "available tb' g = (if g = f then available tb f - 1 else available tb g)"
proof -
  obtain sig where c: "consumeToken 1 f (tb\<lparr>hasFaces := True\<rparr>) = (tb', sig)"
    unfolding tb'_def by (metis prod.collapse)
  have w: "tb_wf (tb\<lparr>hasFaces := True\<rparr>)" using assms(1) by (simp add: tb_wf_def)
  have av: "available (tb\<lparr>hasFaces := True\<rparr>) g = available tb g" for g by (simp add: available_def split: option.split)
  show "tb_wf tb'" by (rule consumeToken_wf [OF w _ c]) (simp add: av assms(2))
  obtain k where k: "available tb f = of_int k" "0 \<le> k" "k \<le> m_capacity tb" by (rule available_wf [OF assms(1)])
  have "m_capacity tb \<le> 2 ^ 31 - 1" using assms(1) by (simp add: tb_wf_def)
  then have "float64 (of_int (k - 1)) = of_int (k - 1)" using k by (intro fround_of_int) auto
  then show "available tb' g = (if g = f then available tb f - 1 else available tb g)"
    by (simp add: consumeToken_effect(1) [OF c] av k(1))
qed

lemma txq_ok_dequeue:
  assumes "txq_ok env n f tq" and "pit_kept f f'" and "c < n" and "queue_of c tq = item # rest" and "txq_wf n tq'"
    and "queue_of c tq' = rest" and "\<forall>j. j \<noteq> c \<longrightarrow> m_priorityQueues tq' ! j = m_priorityQueues tq ! j"
    and "map m_lastVirtualFinishTime (m_priorityQueues tq') = map m_lastVirtualFinishTime (m_priorityQueues tq)"
  shows "txq_ok env n f' tq'"
proof -
  have len: "length (m_priorityQueues tq') = n" "length (m_priorityQueues tq) = n" using assms(1,5) by (simp_all add: txq_ok_def txq_wf_def)
  have each: "m_lastVirtualFinishTime (m_priorityQueues tq' ! j) < 2 ^ 64 \<and> (\<forall>item\<in>set (queue_of j tq'). item_ok env f' item)" if j: "j < n" for j
  proof -
    have q: "m_priorityQueues tq ! j \<in> set (m_priorityQueues tq)" using j len by simp
    have "m_lastVirtualFinishTime (m_priorityQueues tq' ! j) = m_lastVirtualFinishTime (m_priorityQueues tq ! j)"
      using arg_cong [OF assms(8), of "\<lambda>xs. xs ! j"] j len by simp
    moreover have "set (queue_of j tq') \<subseteq> set (queue_of j tq)"
      using assms(4,6,7) by (cases "j = c") auto
    moreover have "item_ok env f x" if "x \<in> set (queue_of j tq)" for x
      using q assms(1) that by (simp add: txq_ok_def)
    moreover have "m_lastVirtualFinishTime (m_priorityQueues tq ! j) < 2 ^ 64" using q assms(1) by (simp add: txq_ok_def)
    ultimately show ?thesis using item_ok_kept [OF _ assms(2), of env] by auto
  qed
  have "m_lastVirtualFinishTime q < 2 ^ 64 \<and> (\<forall>item\<in>set (m_queue q). item_ok env f' item)" if q: "q \<in> set (m_priorityQueues tq')" for q
  proof -
    obtain j where "j < n" "q = m_priorityQueues tq' ! j" using q len(1) unfolding in_set_conv_nth by auto
    then show ?thesis using each by simp
  qed
  then show ?thesis using assms(5) by (simp add: txq_ok_def)
qed

lemma qos_ok_queue:
  "qos_ok env n s \<Longrightarrow> map_of (m_tx_queue s) f = Some tq \<Longrightarrow> FaceTable_get f (fwd s) \<noteq> None \<and> txq_ok env n (fwd s) tq"
  by (simp add: qos_ok_def)

lemma FaceTable_get_kept: "pit_kept f f' \<Longrightarrow> FaceTable_get g f' = FaceTable_get g f"
  by (simp add: FaceTable_get_def pit_kept_def)

lemma txq_ok_kept: "txq_ok env n f tq \<Longrightarrow> pit_kept f f' \<Longrightarrow> txq_ok env n f' tq"
  by (auto simp: txq_ok_def intro: item_ok_kept)

lemma send_chosen_ok:
  assumes ok: "qos_ok env n s" and tq: "map_of (m_tx_queue s) f = Some tq" and c: "c < n"
    and q: "queue_of c tq = item # rest" and tok: "1 \<le> tokens_of env c f s"
  shows "\<exists>s'. send_chosen env now f (driver_buckets env s) c s = Some s' \<and> qos_ok env n s' \<and> served env n s s'"
proof -
  let ?bs = "driver_buckets env s"
  have bs: "length ?bs = n" "distinct ?bs" using ok by (simp_all add: qos_ok_def)
  obtain tb where tb: "token_buckets s (?bs ! c) = Some tb" "tb_wf tb"
    using ok nth_mem [of c ?bs] c bs(1) unfolding qos_ok_def by blast
  define tb1 where "tb1 = fst (consumeToken 1 f (tb\<lparr>hasFaces := True\<rparr>))"
  define tb2 where "tb2 = tb1\<lparr>m_need := AList.update f 0 (m_need tb1)\<rparr>"
  have tok': "1 \<le> available tb f" using tok tb(1) by simp
  have av: "available tb2 g = available tb1 g" for g by (simp add: tb2_def available_def split: option.split)
  have tb2: "tb_wf tb2" "\<And>g. available tb2 g = (if g = f then available tb f - 1 else available tb g)"
    using consume_one [OF tb(2) tok'] unfolding av by (simp_all add: tb2_def tb1_def tb_wf_def)
  have txq: "txq_ok env n (fwd s) tq" using ok tq by (simp add: qos_ok_def)
  obtain tq' where tq': "DoDequeue c tq = Some (tq', item)" "txq_wf n tq'" "queue_of c tq' = rest"
    "\<forall>j. j \<noteq> c \<longrightarrow> m_priorityQueues tq' ! j = m_priorityQueues tq ! j"
    "map m_lastVirtualFinishTime (m_priorityQueues tq') = map m_lastVirtualFinishTime (m_priorityQueues tq)"
    using DoDequeue_wf [OF _ c q] txq unfolding txq_ok_def by blast
  have item: "item_ok env (fwd s) item"
  proof -
    have "m_priorityQueues tq ! c \<in> set (m_priorityQueues tq)" using txq c by (simp add: txq_ok_def txq_wf_def)
    moreover have "item \<in> set (queue_of c tq)" by (simp add: q)
    ultimately show ?thesis using txq unfolding txq_ok_def by blast
  qed
  define s1 where "s1 = s\<lparr>token_buckets := (token_buckets s)(?bs ! c \<mapsto> tb2), m_tx_queue := AList.update f tq' (m_tx_queue s)\<rparr>"
  have "item_ok env (fwd s1) item" using item by (simp add: s1_def)
  from send_item_ok [OF this, of now] obtain f' where f': "send_item env now item s1 = Some (s1\<lparr>fwd := f'\<rparr>)" "pit_kept (fwd s1) f'"
    by blast
  have kept: "pit_kept (fwd s) f'" using f'(2) by (simp add: s1_def)
  define s2 where "s2 = s1\<lparr>fwd := f'\<rparr>"
  have bs': "driver_buckets env s2 = ?bs" by (simp add: driver_buckets_def s2_def s1_def)
  have sent: "send_chosen env now f ?bs c s = Some s2"
    using tb(1) tq tq'(1) f'(1) c bs(1) by (simp add: send_chosen_def Let_def tb1_def tb2_def s2_def s1_def)
  have queues: "map_of (m_tx_queue s2) g = (if g = f then Some tq' else map_of (m_tx_queue s) g)" for g
    by (simp add: s2_def s1_def update_conv)
  have buckets: "token_buckets s2 b = (if b = ?bs ! c then Some tb2 else token_buckets s b)" for b
    by (simp add: s2_def s1_def)
  have fwd2: "fwd s2 = f'" "driver s2 = driver s" by (simp_all add: s2_def s1_def)
  have "qos_ok env n s2"
    unfolding qos_ok_def bs'
  proof (intro conjI ballI allI impI)
    fix b assume "b \<in> set ?bs"
    then show "\<exists>tb. token_buckets s2 b = Some tb \<and> tb_wf tb"
      using ok tb2(1) by (cases "b = ?bs ! c") (simp_all add: buckets qos_ok_def)
  next
    fix g tqg assume "map_of (m_tx_queue s2) g = Some tqg"
    then show "FaceTable_get g (fwd s2) \<noteq> None"
      using qos_ok_queue [OF ok tq] qos_ok_queue [OF ok, of g tqg] by (cases "g = f") (simp_all add: queues fwd2 FaceTable_get_kept [OF kept])
  next
    fix g tqg assume g: "map_of (m_tx_queue s2) g = Some tqg"
    show "txq_ok env n (fwd s2) tqg"
    proof (cases "g = f")
      case True
      then show ?thesis using g txq_ok_dequeue [OF txq kept c q tq'(2-5)] by (simp add: queues fwd2)
    next
      case False
      then have "map_of (m_tx_queue s) g = Some tqg" using g by (simp add: queues)
      then show ?thesis unfolding fwd2 using qos_ok_queue [OF ok] txq_ok_kept [OF _ kept] by blast
    qed
  qed (simp_all add: bs)
  moreover have "served env n s s2"
  proof -
    have t: "tokens_of env i g s2 = (if i = c \<and> g = f then tokens_of env i g s - 1 else tokens_of env i g s)" if "i < n" for i g
    proof (cases "i = c")
      case True
      then show ?thesis using tb(1) by (simp add: bs' buckets tb2(2))
    next
      case False
      then have "driver_buckets env s ! i \<noteq> driver_buckets env s ! c" using that c bs by (simp add: nth_eq_iff_index_eq)
      then show ?thesis using False by (simp add: bs' buckets)
    qed
    have "paid env n f s tq s2 tq'"
      unfolding paid_def
    proof (intro allI impI)
      fix i assume i: "i < n"
      show "\<exists>k\<le>length (queue_of i tq). queue_of i tq' = drop k (queue_of i tq) \<and> tokens_of env i f s2 = tokens_of env i f s - of_nat k"
      proof (cases "i = c")
        case True
        then show ?thesis using t [OF i] q tq'(3) by (intro exI [of _ 1]) simp
      next
        case False
        then show ?thesis using t [OF i] tq'(4) by (intro exI [of _ 0]) simp
      qed
    qed
    note paid_f = this
    have paid_g: "paid env n g s tqg s2 tqg" if "g \<noteq> f" for g tqg
      by (rule paid_refl) (simp add: t that)
    have "case map_of (m_tx_queue s) g of
         None \<Rightarrow> map_of (m_tx_queue s2) g = None
       | Some tq \<Rightarrow> \<exists>tq'. map_of (m_tx_queue s2) g = Some tq' \<and> paid env n g s tq s2 tq'" for g
    proof (cases "g = f")
      case True
      then show ?thesis using tq paid_f by (simp add: queues)
    next
      case False
      show ?thesis using False paid_g [OF False] by (simp add: queues split: option.split)
    qed
    then show ?thesis by (simp add: served_def fwd2)
  qed
  ultimately show ?thesis using sent by blast
qed

lemma read_tokens_ok:
  assumes "qos_ok env n s"
  shows "read_tokens f (driver_buckets env s) s = Some (map (\<lambda>i. tokens_of env i f s) [0..<n])"
proof -
  have those_map: "those (map (\<lambda>b. map_option g (h b)) bs) = Some (map (\<lambda>b. g (the (h b))) bs)"
    if "\<forall>b\<in>set bs. h b \<noteq> None" for g :: "token_bucket \<Rightarrow> rat" and h and bs :: "nat list"
    using that by (induction bs) auto
  have "\<forall>b\<in>set (driver_buckets env s). token_buckets s b \<noteq> None" using assms by (auto simp: qos_ok_def)
  from those_map [OF this, of "\<lambda>tb. available tb f"]
  have "read_tokens f (driver_buckets env s) s = Some (map (\<lambda>b. available (the (token_buckets s b)) f) (driver_buckets env s))"
    by (simp add: read_tokens_def)
  moreover have "map (\<lambda>b. available (the (token_buckets s b)) f) (driver_buckets env s) = map (\<lambda>i. tokens_of env i f s) [0..<n]"
    using assms by (intro nth_equalityI) (simp_all add: qos_ok_def)
  ultimately show ?thesis by simp
qed

lemma select_ok:
  assumes "txq_ok env n f tq" and "length tokens = n"
  obtains choice where "SelectQueueToSend tokens tq = Some choice"
    and "\<forall>c. choice = Some c \<longrightarrow> c < n \<and> queue_of c tq \<noteq> [] \<and> 1 \<le> tokens ! c"
proof -
  have len: "length (m_priorityQueues tq) = n" "totalQueues tq = n" using assms(1) by (simp_all add: txq_ok_def txq_wf_def)
  then have "\<forall>i<n. m_lastVirtualFinishTime (m_priorityQueues tq ! i) < 2 ^ 64" using assms(1) by (simp add: txq_ok_def)
  from select_loop_spec [of n "m_priorityQueues tq" tokens, OF _ _ this] len assms(2)
  obtain m c where "select_loop (m_priorityQueues tq) tokens n = Some (m, c)"
    and "case c of None \<Rightarrow> True | Some j \<Rightarrow> j < n \<and> can_send (m_priorityQueues tq) tokens j"
    by (auto split: option.splits)
  then show ?thesis using len
    by (intro that [of c]) (auto simp: SelectQueueToSend_def can_send_def IsEmpty_def split: option.splits)
qed

lemma record_needs_ok:
  assumes "qos_ok env n s" and "map_of (m_tx_queue s) f = Some tq" and "set bs \<subseteq> set (driver_buckets env s)" and "i + length bs \<le> n"
  shows "\<exists>s'. record_needs f i bs s = Some s' \<and> qos_ok env n s' \<and> served env n s s'"
  using assms
proof (induction bs arbitrary: i s)
  case Nil
  then show ?case by (simp add: served_refl)
next
  case (Cons b bs)
  obtain tb where tb: "token_buckets s b = Some tb" "tb_wf tb" using Cons.prems(1,3) by (auto simp: qos_ok_def)
  have "length (m_priorityQueues tq) = n" using qos_ok_queue [OF Cons.prems(1,2)] by (simp add: txq_ok_def txq_wf_def)
  then obtain need where need: "tokenReq i tq = Some need" using Cons.prems(4) by (auto simp: tokenReq_def)
  define tb1 where "tb1 = tb\<lparr>m_need := AList.update f (of_nat need) (m_need tb)\<rparr>"
  define s1 where "s1 = s\<lparr>token_buckets := (token_buckets s)(b \<mapsto> tb1)\<rparr>"
  have tb1: "tb_wf tb1" "available tb1 g = available tb g" for g
    using tb(2) by (simp_all add: tb1_def tb_wf_def available_def split: option.split)
  have s1: "driver_buckets env s1 = driver_buckets env s" "m_tx_queue s1 = m_tx_queue s" "fwd s1 = fwd s" "driver s1 = driver s"
    "\<And>a. token_buckets s1 a = (if a = b then Some tb1 else token_buckets s a)"
    by (simp_all add: s1_def driver_buckets_def)
  have "qos_ok env n s1" using Cons.prems(1) tb1(1) unfolding qos_ok_def s1 by auto
  moreover have "served env n s s1"
  proof -
    have "tokens_of env j g s1 = tokens_of env j g s" for j g using tb(1) by (simp add: s1 tb1(2))
    then have "paid env n g s tqg s1 tqg" for g tqg by (intro paid_refl)
    then show ?thesis by (simp add: served_def s1(2,4) split: option.split)
  qed
  moreover have "record_needs f i (b # bs) s = record_needs f (i + 1) bs s1"
    using tb(1) Cons.prems(2) need by (simp add: s1_def tb1_def)
  ultimately show ?case
    using Cons.IH [of s1 "i + 1"] Cons.prems served_trans [of env n s s1] by (auto simp: s1(1,2))
qed

lemma send_face_ok:
  assumes "qos_ok env n s" and "map_of (m_tx_queue s) f \<noteq> None"
  shows "\<exists>s' w. send_face env now f rate tokenwait s = Some (s', w) \<and> qos_ok env n s' \<and> served env n s s'"
  using assms
proof (induction "(DEVICE_LIMIT - rate) + (if tokenwait then 0 else 1::nat)" arbitrary: rate tokenwait s rule: less_induct)
  case less
  obtain tq where tq: "map_of (m_tx_queue s) f = Some tq" using less.prems(2) by blast
  have txq: "txq_ok env n (fwd s) tq" using qos_ok_queue [OF less.prems(1) tq] by simp
  then obtain e where e: "TxIsEmpty tq = Some e" using TxIsEmpty_wf unfolding txq_ok_def by blast
  have continue: "\<exists>s' w. send_face env now f rate1 tokenwait1 s1 = Some (s', w) \<and> qos_ok env n s' \<and> served env n s s'"
    if "(DEVICE_LIMIT - rate1) + (if tokenwait1 then 0 else 1::nat) < (DEVICE_LIMIT - rate) + (if tokenwait then 0 else 1)"
      and s1: "qos_ok env n s1" "served env n s s1" for rate1 tokenwait1 s1
  proof -
    have "map_of (m_tx_queue s1) f \<noteq> None" using served_Some [OF s1(2) tq] by auto
    from less.hyps [OF that(1) s1(1) this] obtain s' w where
      "send_face env now f rate1 tokenwait1 s1 = Some (s', w)" "qos_ok env n s'" "served env n s1 s'" by blast
    then show ?thesis using served_trans [OF s1(2)] by blast
  qed
  consider (stop) "tokenwait \<or> DEVICE_LIMIT \<le> rate \<or> e" | (go) "\<not> tokenwait" "\<not> DEVICE_LIMIT \<le> rate" "\<not> e" by linarith
  then show ?case
  proof cases
    case stop
    then have "send_face env now f rate tokenwait s = Some (s, tokenwait)" using tq e by (subst send_face.simps) auto
    then show ?thesis using less.prems(1) served_refl by blast
  next
    case go
    have len: "length (map (\<lambda>i. tokens_of env i f s) [0..<n]) = n" by simp
    note tokens = read_tokens_ok [OF less.prems(1), of f]
    obtain choice where ch: "SelectQueueToSend (map (\<lambda>i. tokens_of env i f s) [0..<n]) tq = Some choice"
      and c: "\<forall>c. choice = Some c \<longrightarrow> c < n \<and> queue_of c tq \<noteq> [] \<and> 1 \<le> map (\<lambda>i. tokens_of env i f s) [0..<n] ! c"
      by (rule select_ok [OF txq len])
    show ?thesis
    proof (cases choice)
      case None
      have "length (driver_buckets env s) = n" using less.prems(1) by (simp add: qos_ok_def)
      then obtain s1 where s1: "record_needs f 0 (driver_buckets env s) s = Some s1" "qos_ok env n s1" "served env n s s1"
        using record_needs_ok [OF less.prems(1) tq, of "driver_buckets env s" 0] by auto
      have "send_face env now f rate tokenwait s = send_face env now f rate True s1"
        by (subst send_face.simps) (simp add: go tq e tokens ch None s1(1))
      then show ?thesis using continue [of rate True s1] s1 go by simp
    next
      case (Some i)
      then have i: "i < n" "queue_of i tq \<noteq> []" "1 \<le> tokens_of env i f s" using c by auto
      obtain item rest where q: "queue_of i tq = item # rest" using i(2) by (cases "queue_of i tq") auto
      obtain s1 where s1: "send_chosen env now f (driver_buckets env s) i s = Some s1" "qos_ok env n s1" "served env n s s1"
        using send_chosen_ok [OF less.prems(1) tq i(1) q i(3), of now] by blast
      have "send_face env now f rate tokenwait s = send_face env now f (rate + 1) tokenwait s1"
        by (subst send_face.simps) (simp add: go tq e tokens ch Some s1(1))
      then show ?thesis using continue [of "rate + 1" tokenwait s1] s1 go by simp
    qed
  qed
qed

lemma send_faces_ok:
  assumes "qos_ok env n s" and "\<forall>f\<in>set fs. map_of (m_tx_queue s) f \<noteq> None"
  shows "\<exists>s'. send_faces env now fs tokenwait s = Some s' \<and> qos_ok env n s' \<and> served env n s s'"
  using assms
proof (induction fs arbitrary: tokenwait s)
  case Nil
  then show ?case by (simp add: served_refl)
next
  case (Cons f fs)
  obtain tq where tq: "map_of (m_tx_queue s) f = Some tq" using Cons.prems(2) by auto
  obtain face where face: "FaceTable_get f (fwd s) = Some face" using qos_ok_queue [OF Cons.prems(1) tq] by blast
  let ?rate = "case qe_GetNPackets env (fwd s) face of None \<Rightarrow> DEVICE_LIMIT | Some n \<Rightarrow> n"
  obtain s1 w where s1: "send_face env now f ?rate tokenwait s = Some (s1, w)" "qos_ok env n s1" "served env n s s1"
    using send_face_ok [OF Cons.prems(1), of f now ?rate tokenwait] tq by blast
  have "\<forall>g\<in>set fs. map_of (m_tx_queue s1) g \<noteq> None"
  proof
    fix g assume "g \<in> set fs"
    then obtain tqg where "map_of (m_tx_queue s) g = Some tqg" using Cons.prems(2) by auto
    then show "map_of (m_tx_queue s1) g \<noteq> None" using served_Some [OF s1(3)] by blast
  qed
  from Cons.IH [OF s1(2) this, of w] obtain s2 where
    s2: "send_faces env now fs w s1 = Some s2" "qos_ok env n s2" "served env n s1 s2" by blast
  have "send_faces env now (f # fs) tokenwait s = Some s2" using face s1(1) s2(1) by (simp add: Let_def)
  then show ?case using s2(2) served_trans [OF s1(3) s2(3)] by blast
qed

text \<open>C3: sending as tokens allow: on a well-formed state (three queues per face, one token bucket per
  priority, every queued packet decodable and belonging to its PIT entry, every queue
  belonging to a face of the face table) \<open>prioritySend\<close> returns, keeps the state well-formed, and
  takes from each queue of each face a number k of its first packets, in order, and
  exactly k tokens for that face from the bucket of that priority, which never goes below
  zero.\<close>

theorem tokens_pay_for_packets:
  assumes "qos_ok env n s" and "driverConnected s" and "set (qe_order env (map fst (m_tx_queue s))) = set (map fst (m_tx_queue s))"
  shows "\<exists>s'. prioritySend env now s = Some s' \<and> qos_ok env n s' \<and>
    (\<forall>f tq. map_of (m_tx_queue s) f = Some tq \<longrightarrow> (\<exists>tq'. map_of (m_tx_queue s') f = Some tq' \<and>
      (\<forall>i<n. \<exists>k\<le>length (queue_of i tq). queue_of i tq' = drop k (queue_of i tq) \<and>
         tokens_of env i f s' = tokens_of env i f s - of_nat k \<and> 0 \<le> tokens_of env i f s')))"
proof -
  have "\<forall>f\<in>set (qe_order env (map fst (m_tx_queue s))). map_of (m_tx_queue s) f \<noteq> None"
    by (simp add: assms(3) map_of_eq_None_iff)
  from send_faces_ok [OF assms(1) this, of now False] obtain s' where
    s': "prioritySend env now s = Some s'" "qos_ok env n s'" "served env n s s'" by (auto simp: prioritySend_def assms(2))
  have nonneg: "0 \<le> tokens_of env i f s'" if i: "i < n" for i f
  proof -
    have "driver_buckets env s' ! i \<in> set (driver_buckets env s')" using s'(2) i by (simp add: qos_ok_def)
    then obtain tb where tb: "token_buckets s' (driver_buckets env s' ! i) = Some tb" "tb_wf tb" using s'(2) unfolding qos_ok_def by blast
    obtain k where "available tb f = of_int k" "0 \<le> k" by (rule available_wf [OF tb(2)])
    then show ?thesis by (simp add: tb(1))
  qed
  have "\<exists>tq'. map_of (m_tx_queue s') f = Some tq' \<and> (\<forall>i<n. \<exists>k\<le>length (queue_of i tq). queue_of i tq' = drop k (queue_of i tq) \<and>
         tokens_of env i f s' = tokens_of env i f s - of_nat k \<and> 0 \<le> tokens_of env i f s')"
    if "map_of (m_tx_queue s) f = Some tq" for f tq
    using served_Some [OF s'(3) that] nonneg unfolding paid_def by blast
  with s' show ?thesis by blast
qed

definition example_qos_env :: "(unit, unit, nat list) qos_env" where
  "example_qos_env = \<lparr>qe_fw = example_fw_env, qe_toUri = (\<lambda>name. concat (map (\<lambda>c. ''/'' @ value_bytes c) name)),
     qe_block_size = (\<lambda>_. 100), qe_GetNPackets = (\<lambda>f face. Some 0), qe_order = (\<lambda>ks. ks), qe_isSet = (\<lambda>d. d \<noteq> []),
     qe_setSize = (\<lambda>n d. d), qe_addTokenBucket = (\<lambda>b d. d @ [b]), qe_getSize = length, qe_getBucket = (!)\<rparr>"

definition example_item :: QueueItem where
  "example_item = (QueueItem_of 7)\<lparr>wireEncode := InterestBlock (example_interest [Generic ''a'']), packetType := INTEREST,
     inface := Some 1, outface := Some 2\<rparr>"

definition example_qos :: "(unit, unit, nat list) qos" where
  "example_qos = \<lparr>fwd = (example_forwarder three_faces)\<lparr>pit_heap := [7 \<mapsto> used_entry], m_faces := [(262, 2)]\<rparr>, driver = [1, 2, 3],
     token_buckets = (\<lambda>_. Some (TokenBucket\<lparr>m_capacity := 5\<rparr>)),
     m_tx_queue = [(262, \<lparr>m_priorityQueues = (m_priorityQueues (initialize 3 NdnPriorityTxQueue_new))[0 := \<lparr>m_maxQueueSize = QUEUE_SIZE, m_weight = 3,
       m_lastVirtualFinishTime = 90, m_queue = [example_item]\<rparr>], totalQueues = 3\<rparr>)],
     qs_retxSuppression = \<lparr>m_initialInterval = 10, m_multiplier = 2, m_maxInterval = 250\<rparr>, m_successReqs = [1, 1, 0],
     m_senders = [1, 2, 3], senders_connected = True, m_faceStats = [], driverConnected = True, rejectedInterests = []\<rparr>"

theorem tokens_pay_for_packets_witness:
  "\<exists>s'. prioritySend example_qos_env 20 example_qos = Some s' \<and> 0 \<le> tokens_of example_qos_env 0 262 s'"
proof -
  have item: "item_ok example_qos_env (fwd example_qos) example_item"
    by (simp add: item_ok_def example_item_def example_qos_def QueueItem_of_def QueueItem_default_def three_faces_def used_entry_def
        pit_Entry_def canMatch_def example_interest_def)
  have tq: "txq_ok example_qos_env 3 (fwd example_qos) (snd (hd (m_tx_queue example_qos)))"
    using item by (simp add: txq_ok_def txq_wf_def example_qos_def initialize_new SetWeight_def QosQueue_new_def QUEUE_SIZE_def fround_eval
        upt_rec numeral_3_eq_3 less_Suc_eq nth_Cons')
  have "tb_wf (TokenBucket\<lparr>m_capacity := 5\<rparr>)" by (simp add: tb_wf_def TokenBucket_def)
  then have ok: "qos_ok example_qos_env 3 example_qos"
    using tq by (auto simp: qos_ok_def driver_buckets_def example_qos_def example_qos_env_def upt_rec FaceTable_get_def)
  have c: "driverConnected example_qos"
    "set (qe_order example_qos_env (map fst (m_tx_queue example_qos))) = set (map fst (m_tx_queue example_qos))"
    by (simp_all add: example_qos_def example_qos_env_def)
  have "map_of (m_tx_queue example_qos) 262 = Some (snd (hd (m_tx_queue example_qos)))" by (simp add: example_qos_def)
  with tokens_pay_for_packets [OF ok c, of 20] show ?thesis by fastforce
qed

subsection \<open>Failures\<close>

lemma enqueue_unclassified:
  assumes "\<forall>f tq. map_of (m_tx_queue s) f = Some tq \<longrightarrow> length (m_priorityQueues tq) \<le> UNCLASSIFIED"
    and "length (m_successReqs s) \<le> UNCLASSIFIED"
  shows "enqueue_on env t item UNCLASSIFIED f s = None"
proof -
  have none: "DoEnqueue (qe_block_size env) t item UNCLASSIFIED tq = None" if "length (m_priorityQueues tq) \<le> UNCLASSIFIED" for tq
    using that by (simp add: DoEnqueue_def vec_get_def)
  show ?thesis
  proof (cases "map_of (m_tx_queue s) f")
    case None
    then show ?thesis using none assms(2) by (simp add: enqueue_on_def Let_def update_conv initialize_new)
  next
    case (Some tq)
    then show ?thesis using none assms(1) by (simp add: enqueue_on_def Let_def)
  qed
qed

lemma set_rates_keep [simp]:
  "fwd (set_abs p f v s) = fwd s" "m_tx_queue (set_abs p f v s) = m_tx_queue s" "m_successReqs (set_abs p f v s) = m_successReqs s"
  "fwd (set_rela p f v s) = fwd s" "m_tx_queue (set_rela p f v s) = m_tx_queue s" "m_successReqs (set_rela p f v s) = m_successReqs s"
  by (simp_all add: set_abs_def set_rela_def set_stats_def Let_def)

lemma lost_on_others_keeps:
  "lost_on_others p inId outs s = Some s' \<Longrightarrow> fwd s' = fwd s \<and> m_tx_queue s' = m_tx_queue s \<and> m_successReqs s' = m_successReqs s"
proof (induction outs arbitrary: s)
  case (Cons out outs)
  then show ?case by (auto split: bind_splits if_splits dest!: Cons.IH)
qed simp

lemma beforeSatisfy_keeps:
  "QosStrategy_beforeSatisfyInterest env r inFace data s = Some s' \<Longrightarrow>
   fwd s' = fwd s \<and> m_tx_queue s' = m_tx_queue s \<and> m_successReqs s' = m_successReqs s"
  by (auto simp: QosStrategy_beforeSatisfyInterest_def Let_def split: bind_splits if_splits dest!: lost_on_others_keeps)

text \<open>C36: a failure: Data whose name has no priority (its second component is none of the three types) and
  that is due to some downstream makes \<open>afterReceiveData\<close> access a queue out of range: the
  level 715 that \<open>getPrType\<close> returns is used as an index into the three queues.\<close>

theorem unclassified_data_fails:
  assumes "getPrType env (getDataName data) = UNCLASSIFIED"
    and "\<forall>f tq. map_of (m_tx_queue s) f = Some tq \<longrightarrow> length (m_priorityQueues tq) \<le> UNCLASSIFIED"
    and "length (m_successReqs s) \<le> UNCLASSIFIED"
    and "pit_heap (fwd s) r = Some pe" and "face \<in> set (unexpired_downstreams now pe)" and "\<not> is_same_link (fwd s) face inFace"
  shows "QosStrategy_afterReceiveData env now t r inFace data s = None"
proof (cases "QosStrategy_beforeSatisfyInterest env r inFace data s")
  case None
  then show ?thesis by (simp add: QosStrategy_afterReceiveData_def)
next
  case (Some s1)
  note keeps = beforeSatisfy_keeps [OF Some]
  let ?ds = "sorted_list_of_set (set (filter (\<lambda>face. \<not> is_same_link (fwd s) face inFace) (unexpired_downstreams now pe)))"
  have "face \<in> set ?ds" using assms(5,6) by simp
  then obtain d ds where ds: "?ds = d # ds" by (cases ?ds) auto
  have "enqueue_on env t item UNCLASSIFIED f s1 = None" for item f
    using assms(2,3) keeps by (intro enqueue_unclassified) simp_all
  then have "enqueue_data env t item UNCLASSIFIED (d # ds) s1 = None" for item
    by (cases "faces (fwd s1) d") simp_all
  then show ?thesis using Some keeps assms(1,4) ds by (simp add: QosStrategy_afterReceiveData_def Let_def del: enqueue_data.simps)
qed

definition waiting_qos :: "(unit, unit, nat list) qos" where
  "waiting_qos = example_qos\<lparr>fwd := (fwd example_qos)\<lparr>pit_heap := [7 \<mapsto> used_entry\<lparr>m_inRecords :=
     [\<lparr>fr_face = 1, m_lastNonce = 5, m_lastRenewed = 10, m_expiry = 110, fr_info = [], ir_interest = Some (example_interest [Generic ''a''])\<rparr>]\<rparr>]\<rparr>\<rparr>"

definition plain_data :: data where
  "plain_data = \<lparr>getDataName = [Generic ''a''], getDigest = '''', getFreshnessPeriod = 0, getCachePolicyNoCache = False, getContent = ''''\<rparr>"

theorem unclassified_data_fails_witness:
  "QosStrategy_afterReceiveData example_qos_env 20 0 7 2 plain_data waiting_qos = None"
proof -
  have pr: "getPrType example_qos_env (getDataName plain_data) = UNCLASSIFIED"
    by (simp add: getPrType_def getSubName_def example_qos_env_def plain_data_def)
  have q: "\<forall>f tq. map_of (m_tx_queue waiting_qos) f = Some tq \<longrightarrow> length (m_priorityQueues tq) \<le> UNCLASSIFIED"
    "length (m_successReqs waiting_qos) \<le> UNCLASSIFIED"
    by (simp_all add: waiting_qos_def example_qos_def initialize_new UNCLASSIFIED_def)
  obtain pe where pe: "pit_heap (fwd waiting_qos) 7 = Some pe" and d: "1 \<in> set (unexpired_downstreams 20 pe)"
    by (simp add: waiting_qos_def unexpired_downstreams_def image_iff)
  have "\<not> is_same_link (fwd waiting_qos) 1 2"
    by (simp add: is_same_link_def waiting_qos_def example_qos_def three_faces_def)
  from unclassified_data_fails [OF pr q pe d this] show ?thesis .
qed

lemma sends_keep_table:
  "change_pit r g f = Some f' \<Longrightarrow> m_faces f' = m_faces f"
  "onOutgoingInterest now r face interest f = Some f' \<Longrightarrow> m_faces f' = m_faces f"
  "onOutgoingData data face f = Some f' \<Longrightarrow> m_faces f' = m_faces f"
  "onOutgoingNack r face reason f = Some f' \<Longrightarrow> m_faces f' = m_faces f"
  by (auto simp: change_pit_def onOutgoingInterest_def onOutgoingData_def onOutgoingNack_def send_def bump_def Let_def
      split: bind_splits if_splits option.splits)

lemma send_nack_each_keeps_table: "send_nack_each r reason fs f = Some f' \<Longrightarrow> m_faces f' = m_faces f"
proof (induction fs arbitrary: f)
  case (Cons face fs)
  then show ?case by (auto split: bind_splits dest!: Cons.IH sends_keep_table(4))
qed simp

lemma processNack_keeps_table: "processNack env inFace nack r f = Some f' \<Longrightarrow> m_faces f' = m_faces f"
  by (auto simp: processNack_def sendNacks_def Let_def split: bind_splits if_splits option.splits
      dest!: sends_keep_table(4) send_nack_each_keeps_table)

lemma sendData_keeps_table: "sendData env r data face f = Some f' \<Longrightarrow> m_faces f' = m_faces f"
  by (auto simp: sendData_def split: bind_splits dest!: sends_keep_table(1,3))

lemma send_item_keeps_table: "send_item env now item s = Some s' \<Longrightarrow> m_faces (fwd s') = m_faces (fwd s)"
  by (auto simp: send_item_def prioritySendInterest_def prioritySendData_def prioritySendNack_def on_fwd_Some
      split: QosPacketType.splits block.splits bind_splits
      dest!: sends_keep_table(2) sendData_keeps_table processNack_keeps_table)

lemma send_chosen_keeps_table: "send_chosen env now f bs c s = Some s' \<Longrightarrow> m_faces (fwd s') = m_faces (fwd s)"
  by (auto simp: send_chosen_def Let_def split: bind_splits dest!: send_item_keeps_table)

lemma record_needs_keeps_table: "record_needs f i bs s = Some s' \<Longrightarrow> m_faces (fwd s') = m_faces (fwd s)"
proof (induction bs arbitrary: i s)
  case (Cons b bs)
  then show ?case by (auto split: bind_splits dest!: Cons.IH)
qed simp

lemma send_face_keeps_table: "send_face env now f rate tokenwait s = Some (s', w) \<Longrightarrow> m_faces (fwd s') = m_faces (fwd s)"
proof (induction "(DEVICE_LIMIT - rate) + (if tokenwait then 0 else 1::nat)" arbitrary: rate tokenwait s rule: less_induct)
  case less
  from less.prems obtain tq e where tq: "map_of (m_tx_queue s) f = Some tq" and e: "TxIsEmpty tq = Some e"
    by (subst (asm) send_face.simps) (auto split: bind_splits)
  show ?case
  proof (cases "tokenwait \<or> DEVICE_LIMIT \<le> rate")
    case True
    then have "send_face env now f rate tokenwait s = Some (s, tokenwait)" using tq e by (subst send_face.simps) simp
    then show ?thesis using less.prems by simp
  next
    case False
    then have d: "DEVICE_LIMIT - Suc rate < DEVICE_LIMIT - rate" and w: "\<not> tokenwait" by auto
    have ih: "send_face env now f (Suc rate) False s1 = Some (s', w) \<Longrightarrow> m_faces (fwd s') = m_faces (fwd s1)"
      "send_face env now f rate True s1 = Some (s', w) \<Longrightarrow> m_faces (fwd s') = m_faces (fwd s1)" for s1
      using less.hyps [of "Suc rate" False s1] less.hyps [of rate True s1] d w by simp_all
    show ?thesis
    proof (cases e)
      case True
      then have "send_face env now f rate tokenwait s = Some (s, tokenwait)" using tq e False by (subst send_face.simps) simp
      then show ?thesis using less.prems by simp
    next
      case ne: False
      obtain tokens choice where tc: "read_tokens f (driver_buckets env s) s = Some tokens" "SelectQueueToSend tokens tq = Some choice"
        using less.prems False tq e ne by (subst (asm) send_face.simps) (auto simp: Let_def split: bind_splits)
      show ?thesis
      proof (cases choice)
        case None
        have "record_needs f 0 (driver_buckets env s) s \<bind> send_face env now f rate True = Some (s', w)"
          using less.prems False tq e ne tc None by (subst (asm) send_face.simps) simp
        then obtain s1 where "record_needs f 0 (driver_buckets env s) s = Some s1" "send_face env now f rate True s1 = Some (s', w)"
          by (auto simp: Option.bind_eq_Some_conv)
        then show ?thesis using ih(2) record_needs_keeps_table by metis
      next
        case (Some c)
        have "send_chosen env now f (driver_buckets env s) c s \<bind> send_face env now f (Suc rate) False = Some (s', w)"
          using less.prems False tq e ne tc Some by (subst (asm) send_face.simps) simp
        then obtain s1 where "send_chosen env now f (driver_buckets env s) c s = Some s1" "send_face env now f (Suc rate) False s1 = Some (s', w)"
          by (auto simp: Option.bind_eq_Some_conv)
        then show ?thesis using ih(1) send_chosen_keeps_table by metis
      qed
    qed
  qed
qed

lemma send_faces_missing:
  "f \<in> set fs \<Longrightarrow> FaceTable_get f (fwd s) = None \<Longrightarrow> send_faces env now fs tokenwait s = None"
proof (induction fs arbitrary: tokenwait s)
  case (Cons g fs)
  show ?case
  proof (cases "g = f")
    case True
    then show ?thesis using Cons.prems(2) by simp
  next
    case False
    then have f: "f \<in> set fs" using Cons.prems(1) by simp
    have "send_faces env now fs w s1 = None" if "send_face env now g rate tokenwait s = Some (s1, w)" for rate s1 w
      using Cons.IH [OF f] send_face_keeps_table [OF that] Cons.prems(2) by (simp add: FaceTable_get_def)
    then show ?thesis by (auto simp: Let_def split: Option.bind_split)
  qed
qed simp

text \<open>C37: a failure: once the face of a queue has been removed from the face table, \<open>prioritySend\<close> fails
  for good, since it dereferences the null pointer that the face table returns for the id
  of the queue, and queues are never removed.\<close>

theorem removed_face_fails:
  assumes "FaceTable_get f (fwd s) = None" and "f \<in> set (qe_order env (map fst (m_tx_queue s)))"
  shows "prioritySend env now s = None"
  using send_faces_missing [OF assms(2), of "if driverConnected s then s else (setUp env s)\<lparr>driverConnected := True\<rparr>" env now False] assms(1)
  by (auto simp: prioritySend_def Let_def setUp_def)

theorem removed_face_fails_witness:
  "prioritySend example_qos_env 20 (example_qos\<lparr>fwd := (fwd example_qos)\<lparr>m_faces := []\<rparr>\<rparr>) = None"
  by (rule removed_face_fails [of 262]) (simp_all add: FaceTable_get_def example_qos_def example_qos_env_def)

end
