(* ===== verification/Link_Fragmentation.thy ===== *)
theory Link_Fragmentation
  imports Nfd_Prelude "HOL-Library.Multiset"
begin

text \<open>
  The link layer: \<^verbatim>\<open>daemon/face/lp-fragmenter.{hpp,cpp}\<close>, \<^verbatim>\<open>daemon/face/lp-reassembler.{hpp,cpp}\<close> and the
  numbering of fragments in \<^verbatim>\<open>daemon/face/generic-link-service.cpp\<close>.

  An \<open>lp_packet\<close> holds the fields these read; its other fields are kept as one value.  The codec
  of link packets is a parameter: the size of an encoded packet, whether it is encoded as a
  link packet, and its elements, each with a flag for the Fragment element and its size.
  What is used of it is the law \<open>codec_ok\<close>: adding fragmentation costs at most the overhead
  reserved for it.  A reassembled packet is given as its octets; sizes are natural numbers.

  The lemmas: fragments cover the payload in order within the MTU, and the reassembler gives
  the payload back whatever order the fragments arrive in, interleaved with other traffic.
\<close>

subsection \<open>Link packets\<close>

record 'h lp_packet =
  FragmentField :: "8 word list option"
  FragIndexField :: "nat option"
  FragCountField :: "nat option"
  SequenceField :: "64 word option"
  otherFields :: "'h list"

definition lp_Packet :: "'h lp_packet" where
  "lp_Packet = \<lparr>FragmentField = None, FragIndexField = None, FragCountField = None, SequenceField = None, otherFields = []\<rparr>"

record 'h lp_codec =
  lc_size :: "'h lp_packet \<Rightarrow> nat"
  lc_isLpPacket :: "'h lp_packet \<Rightarrow> bool"
  lc_elements :: "'h lp_packet \<Rightarrow> (bool \<times> nat) list"

subsection \<open>Fragmenter\<close>

definition MAX_SINGLE_FRAG_OVERHEAD :: nat where
  "MAX_SINGLE_FRAG_OVERHEAD = 1 + 9 + (1 + 1 + 8) + (1 + 9)"

definition MAX_FRAG_OVERHEAD :: nat where
  "MAX_FRAG_OVERHEAD = 1 + 9 + (1 + 1 + 8) + (1 + 1 + 8) + (1 + 1 + 8) + (1 + 9)"

definition firstHeaderSize :: "'h lp_codec \<Rightarrow> 'h lp_packet \<Rightarrow> nat" where
  "firstHeaderSize codec packet = (if lc_isLpPacket codec packet
     then sum_list (map snd (filter (\<lambda>(isFragment, _). \<not> isFragment) (lc_elements codec packet))) else 0)"

text \<open>The loop that fills the fragments; the first keeps the other fields of the packet.\<close>

function populate :: "'h lp_codec \<Rightarrow> 'h lp_packet \<Rightarrow> nat \<Rightarrow> nat \<Rightarrow> nat \<Rightarrow> nat \<Rightarrow> 8 word list \<Rightarrow> nat \<Rightarrow> ('h lp_packet list \<times> nat) option" where
  "populate codec packet mtu payloadSize fragCount fragIndex netPkt fragSize =
     (if netPkt = [] then Some ([], fragIndex)
      else if fragCount \<le> fragIndex then None
      else do {
        let frag = (if fragIndex = 0 then packet else lp_Packet)
          \<lparr>FragIndexField := Some fragIndex, FragCountField := Some fragCount, FragmentField := Some (take fragSize netPkt)\<rparr>;
        assert (lc_size codec frag \<le> mtu);
        (frags, n) \<leftarrow> populate codec packet mtu payloadSize fragCount (fragIndex + 1) (drop fragSize netPkt) payloadSize;
        Some (frag # frags, n)
      })"
  by pat_completeness auto
termination
  by (relation "measure (\<lambda>(codec, packet, mtu, payloadSize, fragCount, fragIndex, netPkt, fragSize). fragCount - fragIndex)") auto

declare populate.simps [simp del]

definition fragmentPacket :: "'h lp_codec \<Rightarrow> nat \<Rightarrow> 'h lp_packet \<Rightarrow> nat \<Rightarrow> (bool \<times> 'h lp_packet list) option" where
  "fragmentPacket codec nMaxFragments packet mtu = do {
     netPkt \<leftarrow> FragmentField packet;
     assert (FragIndexField packet = None);
     assert (FragCountField packet = None);
     if MAX_SINGLE_FRAG_OVERHEAD + lc_size codec packet \<le> mtu then Some (True, [packet])
     else if mtu < MAX_FRAG_OVERHEAD + firstHeaderSize codec packet + 1 then Some (False, [])
     else do {
       let firstPayloadSize = min (length netPkt) (mtu - firstHeaderSize codec packet - MAX_FRAG_OVERHEAD);
       let payloadSize = mtu - MAX_FRAG_OVERHEAD;
       let fragCount = 1 + (length netPkt - firstPayloadSize) div payloadSize +
         (if (length netPkt - firstPayloadSize) mod payloadSize \<noteq> 0 then 1 else 0);
       if fragCount > nMaxFragments then Some (False, [])
       else do {
         (frags, fragIndex) \<leftarrow> populate codec packet mtu payloadSize fragCount 0 netPkt firstPayloadSize;
         assert (fragIndex = fragCount);
         Some (True, frags)
       }
     }
   }"

subsection \<open>Numbering\<close>

fun assignSequences :: "64 word \<Rightarrow> 'h lp_packet list \<Rightarrow> 64 word \<times> 'h lp_packet list" where
  "assignSequences m_lastSeqNo [] = (m_lastSeqNo, [])"
| "assignSequences m_lastSeqNo (pkt # pkts) =
     (let m_lastSeqNo = m_lastSeqNo + 1; pkt = pkt\<lparr>SequenceField := Some m_lastSeqNo\<rparr>;
          (m_lastSeqNo, pkts) = assignSequences m_lastSeqNo pkts
      in (m_lastSeqNo, pkt # pkts))"

subsection \<open>Reassembler\<close>

type_synonym key = "nat \<times> 64 word"

record 'h PartialPacket =
  fragments :: "'h lp_packet list"
  pp_fragCount :: nat
  nReceivedFragments :: nat
  dropTimer :: "time option"

record 'h reassembler =
  opt_nMaxFragments :: nat
  reassemblyTimeout :: time
  m_partialPackets :: "(key \<times> 'h PartialPacket) list"

definition LpReassembler :: "'h reassembler" where
  "LpReassembler = \<lparr>opt_nMaxFragments = 400, reassemblyTimeout = ms 500, m_partialPackets = []\<rparr>"

definition getFragIndex :: "'h lp_packet \<Rightarrow> nat" where
  "getFragIndex packet = (case FragIndexField packet of None \<Rightarrow> 0 | Some i \<Rightarrow> i)"

definition getFragCount :: "'h lp_packet \<Rightarrow> nat" where
  "getFragCount packet = (case FragCountField packet of None \<Rightarrow> 1 | Some n \<Rightarrow> n)"

definition doReassembly :: "'h PartialPacket \<Rightarrow> 8 word list option" where
  "doReassembly pp = map_option concat (those (map FragmentField (fragments pp)))"

definition partial_at :: "key \<Rightarrow> 'h reassembler \<Rightarrow> 'h PartialPacket" where
  "partial_at key st = (case map_of (m_partialPackets st) key of
       Some pp \<Rightarrow> pp | None \<Rightarrow> \<lparr>fragments = [], pp_fragCount = 0, nReceivedFragments = 0, dropTimer = None\<rparr>)"

definition put_partial :: "key \<Rightarrow> 'h PartialPacket \<Rightarrow> 'h reassembler \<Rightarrow> 'h reassembler" where
  "put_partial key pp st = st\<lparr>m_partialPackets := AList.update key pp (m_partialPackets st)\<rparr>"

definition erase_partial :: "key \<Rightarrow> 'h reassembler \<Rightarrow> 'h reassembler" where
  "erase_partial key st = st\<lparr>m_partialPackets := AList.delete key (m_partialPackets st)\<rparr>"

text \<open>
  The result None of the inner option is the return of false; otherwise the network packet and the
  first fragment.
\<close>

definition receiveFragment :: "time \<Rightarrow> nat \<Rightarrow> 'h lp_packet \<Rightarrow> 'h reassembler \<Rightarrow>
    ('h reassembler \<times> (8 word list \<times> 'h lp_packet) option) option" where
  "receiveFragment now remoteEndpoint packet st = do {
     netPkt \<leftarrow> FragmentField packet;
     let fragIndex = getFragIndex packet;
     let fragCount = getFragCount packet;
     if fragIndex \<ge> fragCount then Some (st, None)
     else if fragCount > opt_nMaxFragments st then Some (st, None)
     else if fragIndex = 0 \<and> fragCount = 1 then Some (st, Some (netPkt, packet))
     else (case SequenceField packet of
         None \<Rightarrow> Some (st, None)
       | Some sequence \<Rightarrow> do {
           let key = (remoteEndpoint, sequence - of_nat fragIndex);
           let pp = partial_at key st;
           let isNew = (pp_fragCount pp = 0);
           let pp = (if isNew
             then pp\<lparr>pp_fragCount := fragCount, nReceivedFragments := 0, fragments := replicate fragCount lp_Packet\<rparr> else pp);
           let st = put_partial key pp st;
           if fragCount \<noteq> pp_fragCount pp then Some (st, None)
           else do {
             old \<leftarrow> vec_get (fragments pp) fragIndex;
             if SequenceField old \<noteq> None then Some (st, None)
             else do {
               let pp = pp\<lparr>fragments := (fragments pp)[fragIndex := packet], nReceivedFragments := nReceivedFragments pp + 1\<rparr>;
               if nReceivedFragments pp = pp_fragCount pp then do {
                 reassembled \<leftarrow> doReassembly pp;
                 firstFrag \<leftarrow> vec_get (fragments pp) 0;
                 Some (erase_partial key st, Some (reassembled, firstFrag))
               }
               else Some (put_partial key (pp\<lparr>dropTimer := Some (now + reassemblyTimeout st)\<rparr>) st, None)
             }
           }
         })
   }"

text \<open>The partial packet of the key is dropped; the number of fragments lost is returned.\<close>

definition timeoutPartialPacket :: "key \<Rightarrow> 'h reassembler \<Rightarrow> 'h reassembler \<times> nat option" where
  "timeoutPartialPacket key st = (case map_of (m_partialPackets st) key of
       None \<Rightarrow> (st, None)
     | Some pp \<Rightarrow> (erase_partial key st, Some (nReceivedFragments pp)))"

definition reassembler_size :: "'h reassembler \<Rightarrow> nat" where
  "reassembler_size st = length (m_partialPackets st)"

text \<open>
  The scheduler runs the drop timers that are due.  A timer set again replaces the one
  before it, so a partial packet has at most one.
\<close>

definition due :: "time \<Rightarrow> 'h reassembler \<Rightarrow> key \<Rightarrow> bool" where
  "due now st key = (case map_of (m_partialPackets st) key of
       None \<Rightarrow> False
     | Some pp \<Rightarrow> (case dropTimer pp of None \<Rightarrow> False | Some t \<Rightarrow> t \<le> now))"

definition run_timers :: "time \<Rightarrow> 'h reassembler \<Rightarrow> 'h reassembler" where
  "run_timers now st = fold (\<lambda>key st. fst (timeoutPartialPacket key st)) (filter (due now st) (map fst (m_partialPackets st))) st"

text \<open>Receiving one packet after the other, each with its time and endpoint, and running the timers meanwhile.\<close>

fun receive_all :: "(time \<times> nat \<times> 'h lp_packet) list \<Rightarrow> 'h reassembler \<Rightarrow>
    ('h reassembler \<times> (8 word list \<times> 'h lp_packet) option list) option" where
  "receive_all [] st = Some (st, [])"
| "receive_all ((now, remoteEndpoint, packet) # evs) st = do {
     (st, res) \<leftarrow> receiveFragment now remoteEndpoint packet (run_timers now st);
     (st, ress) \<leftarrow> receive_all evs st;
     Some (st, res # ress)
   }"

subsection \<open>Fragments cover the packet\<close>

text \<open>
  The law of the codec: an index, a count and a fragment of some length, together with room
  for a sequence number, cost at most the overhead.
\<close>

definition codec_ok :: "'h lp_codec \<Rightarrow> bool" where
  "codec_ok codec \<longleftrightarrow> (\<forall>i n xs.
     lc_size codec (lp_Packet\<lparr>FragIndexField := Some i, FragCountField := Some n, FragmentField := Some xs\<rparr>) \<le> MAX_FRAG_OVERHEAD + length xs \<and>
     (\<forall>p. lc_size codec (p\<lparr>FragIndexField := Some i, FragCountField := Some n, FragmentField := Some xs\<rparr>)
        \<le> MAX_FRAG_OVERHEAD + firstHeaderSize codec p + length xs))"

definition frag_count :: "nat \<Rightarrow> nat \<Rightarrow> nat" where
  "frag_count m k = m div k + (if m mod k \<noteq> 0 then 1 else 0)"

lemma frag_count_0 [simp]: "frag_count 0 k = 0"
  by (simp add: frag_count_def)

lemma frag_count_step:
  assumes "0 < k" and "0 < m"
  shows "frag_count m k = Suc (frag_count (m - k) k)"
proof (cases "k \<le> m")
  case True
  then show ?thesis using assms by (simp add: frag_count_def le_div_geq le_mod_geq)
next
  case False
  then show ?thesis using assms by (simp add: frag_count_def)
qed

text \<open>Numbered fragments of a payload, from index i on, of n.\<close>

definition fragments_of :: "nat \<Rightarrow> nat \<Rightarrow> 8 word list \<Rightarrow> 'h lp_packet list \<Rightarrow> bool" where
  "fragments_of n i netPkt frags \<longleftrightarrow> length frags = n - i \<and>
     (\<forall>j<length frags. FragIndexField (frags ! j) = Some (i + j) \<and> FragCountField (frags ! j) = Some n \<and> FragmentField (frags ! j) \<noteq> None) \<and>
     concat (map (\<lambda>p. the (FragmentField p)) frags) = netPkt"

lemma fragments_of_Cons:
  assumes "fragments_of n (Suc i) rest frags" and "i < n" and "FragIndexField frag = Some i" and "FragCountField frag = Some n"
    and "FragmentField frag = Some xs"
  shows "fragments_of n i (xs @ rest) (frag # frags)"
  using assms by (auto simp: fragments_of_def nth_Cons split: nat.split)

lemma populate_spec:
  assumes codec: "codec_ok codec" and size: "0 < ps" "ps + MAX_FRAG_OVERHEAD \<le> mtu"
  shows "0 < i \<Longrightarrow> n = i + frag_count (length netPkt) ps \<Longrightarrow>
    \<exists>frags. populate codec packet mtu ps n i netPkt ps = Some (frags, n) \<and> fragments_of n i netPkt frags \<and> (\<forall>p\<in>set frags. lc_size codec p \<le> mtu)"
proof (induction "length netPkt" arbitrary: netPkt i rule: less_induct)
  case less
  show ?case
  proof (cases "netPkt = []")
    case True
    then show ?thesis using less.prems by (simp add: populate.simps fragments_of_def)
  next
    case False
    let ?frag = "(lp_Packet :: 'a lp_packet)\<lparr>FragIndexField := Some i, FragCountField := Some n, FragmentField := Some (take ps netPkt)\<rparr>"
    have "lc_size codec ?frag \<le> MAX_FRAG_OVERHEAD + length (take ps netPkt)" using codec unfolding codec_ok_def by blast
    then have fits: "lc_size codec ?frag \<le> mtu" using size(2) by simp
    have n: "n = Suc i + frag_count (length (drop ps netPkt)) ps"
      using less.prems(2) False frag_count_step [OF size(1), of "length netPkt"] by simp
    obtain frags where frags: "populate codec packet mtu ps n (Suc i) (drop ps netPkt) ps = Some (frags, n)"
      "fragments_of n (Suc i) (drop ps netPkt) frags" "\<forall>p\<in>set frags. lc_size codec p \<le> mtu"
      using less.hyps [of "drop ps netPkt" "Suc i"] False size(1) n by auto
    have "populate codec packet mtu ps n i netPkt ps = Some (?frag # frags, n)"
      using False n less.prems(1) fits frags(1) by (subst populate.simps) (simp add: Let_def)
    moreover have "fragments_of n i (take ps netPkt @ drop ps netPkt) (?frag # frags)"
      using n by (intro fragments_of_Cons [OF frags(2)]) simp_all
    ultimately show ?thesis using frags(3) fits by simp
  qed
qed

lemma fragmentPacket_ok:
  assumes codec: "codec_ok codec" and p: "FragmentField packet = Some netPkt" "netPkt \<noteq> []" "FragIndexField packet = None" "FragCountField packet = None"
  shows "\<exists>ok frags. fragmentPacket codec nMaxFragments packet mtu = Some (ok, frags) \<and> (ok \<longrightarrow> frags = [packet] \<or>
    (fragments_of (length frags) 0 netPkt frags \<and> frags \<noteq> [] \<and> otherFields (hd frags) = otherFields packet \<and> length frags \<le> nMaxFragments \<and>
     (\<forall>p\<in>set frags. lc_size codec p \<le> mtu)))"
proof (cases "MAX_SINGLE_FRAG_OVERHEAD + lc_size codec packet \<le> mtu \<or> mtu < MAX_FRAG_OVERHEAD + firstHeaderSize codec packet + 1")
  case True
  then show ?thesis using p by (auto simp: fragmentPacket_def)
next
  case False
  define fps where "fps = min (length netPkt) (mtu - firstHeaderSize codec packet - MAX_FRAG_OVERHEAD)"
  define ps where "ps = mtu - MAX_FRAG_OVERHEAD"
  define n where "n = Suc (frag_count (length netPkt - fps) ps)"
  have size: "0 < ps" "ps + MAX_FRAG_OVERHEAD \<le> mtu" using False by (auto simp: ps_def)
  have frag: "fragmentPacket codec nMaxFragments packet mtu = (if n > nMaxFragments then Some (False, []) else do {
      (frags, fragIndex) \<leftarrow> populate codec packet mtu ps n 0 netPkt fps; assert (fragIndex = n); Some (True, frags) })"
    using False p by (simp add: fragmentPacket_def frag_count_def Let_def fps_def ps_def n_def)
  define frag where "frag = packet\<lparr>FragIndexField := Some 0, FragCountField := Some n, FragmentField := Some (take fps netPkt)\<rparr>"
  have "lc_size codec frag \<le> MAX_FRAG_OVERHEAD + firstHeaderSize codec packet + length (take fps netPkt)"
    unfolding frag_def using codec unfolding codec_ok_def by blast
  moreover have "length (take fps netPkt) \<le> mtu - firstHeaderSize codec packet - MAX_FRAG_OVERHEAD" by (simp add: fps_def)
  moreover have "MAX_FRAG_OVERHEAD + firstHeaderSize codec packet + 1 \<le> mtu" using False by linarith
  ultimately have fits: "lc_size codec frag \<le> mtu" by linarith
  have "\<exists>frags. populate codec packet mtu ps n 1 (drop fps netPkt) ps = Some (frags, n) \<and>
    fragments_of n 1 (drop fps netPkt) frags \<and> (\<forall>p\<in>set frags. lc_size codec p \<le> mtu)"
    by (rule populate_spec [OF codec size]) (simp_all add: n_def)
  then obtain frags where frags: "populate codec packet mtu ps n 1 (drop fps netPkt) ps = Some (frags, n)"
    "fragments_of n 1 (drop fps netPkt) frags" "\<forall>p\<in>set frags. lc_size codec p \<le> mtu" by blast
  have pop: "populate codec packet mtu ps n 0 netPkt fps = Some (frag # frags, n)"
    using p(2) fits frags(1) by (subst populate.simps) (simp add: Let_def frag_def n_def)
  have all: "fragments_of n 0 (take fps netPkt @ drop fps netPkt) (frag # frags)"
    using frags(2) by (intro fragments_of_Cons) (simp_all add: frag_def n_def)
  then have len: "length (frag # frags) = n" by (simp add: fragments_of_def)
  show ?thesis
  proof (cases "n > nMaxFragments")
    case True
    then show ?thesis by (intro exI [of _ False] exI [of _ "[]"]) (simp add: frag)
  next
    case False
    then have "fragmentPacket codec nMaxFragments packet mtu = Some (True, frag # frags)" by (simp add: frag pop)
    moreover have "otherFields frag = otherFields packet" by (simp add: frag_def)
    ultimately show ?thesis using False all len fits frags(3)
      by (intro exI [of _ True] exI [of _ "frag # frags"]) simp
  qed
qed

subsection \<open>Partial packets\<close>

lemma length_filter_update:
  "i < length xs \<Longrightarrow> \<not> P (xs ! i) \<Longrightarrow> P y \<Longrightarrow> length (filter P (xs[i := y])) = Suc (length (filter P xs))"
proof (induction xs arbitrary: i)
  case (Cons x xs)
  then show ?case by (cases i) auto
qed simp

lemma those_map_Some: "(\<forall>x\<in>set xs. f x \<noteq> None) \<Longrightarrow> those (map f xs) = Some (map (\<lambda>x. the (f x)) xs)"
  by (induction xs) auto

definition pp_ok :: "'h PartialPacket \<Rightarrow> bool" where
  "pp_ok pp \<longleftrightarrow> 0 < pp_fragCount pp \<and> length (fragments pp) = pp_fragCount pp \<and> nReceivedFragments pp < pp_fragCount pp \<and>
     nReceivedFragments pp = length (filter (\<lambda>p. SequenceField p \<noteq> None) (fragments pp)) \<and>
     (\<forall>p\<in>set (fragments pp). SequenceField p \<noteq> None \<longrightarrow> FragmentField p \<noteq> None)"

definition reassembler_ok :: "'h reassembler \<Rightarrow> bool" where
  "reassembler_ok st \<longleftrightarrow> (\<forall>k pp. map_of (m_partialPackets st) k = Some pp \<longrightarrow> pp_ok pp)"

lemma reassembler_okD: "reassembler_ok st \<Longrightarrow> map_of (m_partialPackets st) k = Some pp \<Longrightarrow> pp_ok pp"
  unfolding reassembler_ok_def by (drule spec, drule spec, erule mp)

definition key_of :: "nat \<Rightarrow> 'h lp_packet \<Rightarrow> key" where
  "key_of e p = (e, the (SequenceField p) - of_nat (getFragIndex p))"

lemma partials_put [simp]: "map_of (m_partialPackets (put_partial k pp st)) j = (if j = k then Some pp else map_of (m_partialPackets st) j)"
  by (simp add: put_partial_def update_conv)

lemma partials_erase [simp]: "map_of (m_partialPackets (erase_partial k st)) j = (if j = k then None else map_of (m_partialPackets st) j)"
  by (simp add: erase_partial_def delete_conv)

lemma options_kept [simp]:
  "opt_nMaxFragments (put_partial k pp st) = opt_nMaxFragments st" "opt_nMaxFragments (erase_partial k st) = opt_nMaxFragments st"
  "reassemblyTimeout (put_partial k pp st) = reassemblyTimeout st" "reassemblyTimeout (erase_partial k st) = reassemblyTimeout st"
  by (simp_all add: put_partial_def erase_partial_def)

text \<open>The timers drop exactly the partial packets that are due.\<close>

lemma timeouts_spec:
  "opt_nMaxFragments (fold (\<lambda>key st. fst (timeoutPartialPacket key st)) keys st) = opt_nMaxFragments st \<and>
   reassemblyTimeout (fold (\<lambda>key st. fst (timeoutPartialPacket key st)) keys st) = reassemblyTimeout st \<and>
   map_of (m_partialPackets (fold (\<lambda>key st. fst (timeoutPartialPacket key st)) keys st)) k =
     (if k \<in> set keys then None else map_of (m_partialPackets st) k)"
proof (induction keys arbitrary: st)
  case (Cons key keys)
  have "opt_nMaxFragments (fst (timeoutPartialPacket key st)) = opt_nMaxFragments st"
    "reassemblyTimeout (fst (timeoutPartialPacket key st)) = reassemblyTimeout st"
    "map_of (m_partialPackets (fst (timeoutPartialPacket key st))) k = (if k = key then None else map_of (m_partialPackets st) k)"
    by (simp_all add: timeoutPartialPacket_def split: option.split)
  with Cons.IH [of "fst (timeoutPartialPacket key st)"] show ?case by (simp split: if_splits)
qed simp

lemma run_timers_spec:
  "opt_nMaxFragments (run_timers now st) = opt_nMaxFragments st" "reassemblyTimeout (run_timers now st) = reassemblyTimeout st"
  "map_of (m_partialPackets (run_timers now st)) k = (if due now st k then None else map_of (m_partialPackets st) k)"
proof -
  have "k \<in> set (map fst (m_partialPackets st))" if "due now st k"
    using that by (cases "map_of (m_partialPackets st) k") (simp_all add: due_def, metis domI dom_map_of_conv_image_fst)
  then show "map_of (m_partialPackets (run_timers now st)) k = (if due now st k then None else map_of (m_partialPackets st) k)"
    unfolding run_timers_def by (simp only: timeouts_spec set_filter mem_Collect_eq) simp
qed (simp_all add: run_timers_def timeouts_spec)

lemma run_timers_ok: "reassembler_ok st \<Longrightarrow> reassembler_ok (run_timers now st)"
  by (simp add: reassembler_ok_def run_timers_spec)

text \<open>The partial packet a fragment is added to, created when there is none.\<close>

definition opened :: "key \<Rightarrow> nat \<Rightarrow> 'h reassembler \<Rightarrow> 'h PartialPacket" where
  "opened key n st = (if pp_fragCount (partial_at key st) = 0
     then (partial_at key st)\<lparr>pp_fragCount := n, nReceivedFragments := 0, fragments := replicate n lp_Packet\<rparr> else partial_at key st)"

definition with_fragment :: "'h PartialPacket \<Rightarrow> nat \<Rightarrow> 'h lp_packet \<Rightarrow> 'h PartialPacket" where
  "with_fragment pp i p = pp\<lparr>fragments := (fragments pp)[i := p], nReceivedFragments := nReceivedFragments pp + 1\<rparr>"

lemma opened_ok:
  assumes "reassembler_ok st" and "1 < n"
  shows "pp_ok (opened key n st)"
proof (cases "map_of (m_partialPackets st) key")
  case None
  then show ?thesis using assms(2) by (simp add: opened_def partial_at_def pp_ok_def lp_Packet_def)
next
  case (Some pp)
  then have "pp_ok pp" by (rule reassembler_okD [OF assms(1)])
  then show ?thesis using Some by (simp add: opened_def partial_at_def pp_ok_def)
qed

lemma with_fragment_ok:
  assumes "pp_ok pp" and "i < length (fragments pp)" and "SequenceField (fragments pp ! i) = None"
    and "SequenceField p \<noteq> None" and "FragmentField p \<noteq> None"
  shows "nReceivedFragments (with_fragment pp i p) \<noteq> pp_fragCount pp \<Longrightarrow> pp_ok (with_fragment pp i p)"
    and "nReceivedFragments (with_fragment pp i p) = pp_fragCount pp \<Longrightarrow> \<forall>p\<in>set (fragments (with_fragment pp i p)). FragmentField p \<noteq> None"
proof -
  let ?fs = "(fragments pp)[i := p]"
  have count: "length (filter (\<lambda>p. SequenceField p \<noteq> None) ?fs) = Suc (nReceivedFragments pp)"
    using assms by (simp add: length_filter_update pp_ok_def)
  have all: "FragmentField q \<noteq> None" if "q \<in> set ?fs" "SequenceField q \<noteq> None" for q
  proof (cases "q = p")
    case True
    then show ?thesis using assms(5) by simp
  next
    case False
    then have "q \<in> set (fragments pp)" using that(1) set_update_subset_insert [of "fragments pp" i p] by auto
    then show ?thesis using assms(1) that(2) by (simp add: pp_ok_def)
  qed
  show "pp_ok (with_fragment pp i p)" if "nReceivedFragments (with_fragment pp i p) \<noteq> pp_fragCount pp"
  proof -
    have "\<forall>q\<in>set ?fs. SequenceField q \<noteq> None \<longrightarrow> FragmentField q \<noteq> None" using all by blast
    then show ?thesis using that assms(1) count unfolding pp_ok_def with_fragment_def by simp
  qed
  show "\<forall>q\<in>set (fragments (with_fragment pp i p)). FragmentField q \<noteq> None"
    if "nReceivedFragments (with_fragment pp i p) = pp_fragCount pp"
  proof
    fix q assume q: "q \<in> set (fragments (with_fragment pp i p))"
    have "length (filter (\<lambda>p. SequenceField p \<noteq> None) ?fs) = length ?fs"
      using assms(1) count that by (simp add: pp_ok_def with_fragment_def)
    then have "SequenceField q \<noteq> None"
      using length_filter_less [of q ?fs "\<lambda>p. SequenceField p \<noteq> None"] q by (auto simp: with_fragment_def)
    then show "FragmentField q \<noteq> None" using all q by (simp add: with_fragment_def)
  qed
qed

text \<open>What receiving a fragment does, past the checks on the packet itself.\<close>

lemma receive_slow:
  fixes e :: nat
  assumes "FragmentField p = Some x" and "getFragIndex p < getFragCount p" and "getFragCount p \<le> opt_nMaxFragments st" and "getFragCount p \<noteq> 1"
    and "SequenceField p = Some q"
  defines "key \<equiv> key_of e p" and "pp \<equiv> opened (key_of e p) (getFragCount p) st"
  shows "receiveFragment now e p st =
    (if getFragCount p \<noteq> pp_fragCount pp then Some (put_partial key pp st, None)
     else do {
       old \<leftarrow> vec_get (fragments pp) (getFragIndex p);
       if SequenceField old \<noteq> None then Some (put_partial key pp st, None)
       else if nReceivedFragments (with_fragment pp (getFragIndex p) p) = pp_fragCount pp then do {
         reassembled \<leftarrow> doReassembly (with_fragment pp (getFragIndex p) p);
         firstFrag \<leftarrow> vec_get (fragments (with_fragment pp (getFragIndex p) p)) 0;
         Some (erase_partial key (put_partial key pp st), Some (reassembled, firstFrag))
       }
       else Some (put_partial key ((with_fragment pp (getFragIndex p) p)\<lparr>dropTimer := Some (now + reassemblyTimeout st)\<rparr>) (put_partial key pp st), None)
     })"
  using assms(1-5) by (simp add: receiveFragment_def Let_def key_def pp_def key_of_def opened_def with_fragment_def put_partial_def cong: if_cong)

lemma receive_ok:
  assumes ok: "reassembler_ok st" and p: "FragmentField p \<noteq> None"
  shows "\<exists>st' res. receiveFragment now e p st = Some (st', res) \<and> reassembler_ok st' \<and> opt_nMaxFragments st' = opt_nMaxFragments st \<and>
    reassemblyTimeout st' = reassemblyTimeout st \<and> (\<forall>k. k \<noteq> key_of e p \<longrightarrow> map_of (m_partialPackets st') k = map_of (m_partialPackets st) k)"
proof (cases "getFragCount p \<le> getFragIndex p \<or> opt_nMaxFragments st < getFragCount p \<or> getFragCount p = 1 \<or> SequenceField p = None")
  case True
  obtain x where "FragmentField p = Some x" using p by blast
  with True have "\<exists>res. receiveFragment now e p st = Some (st, res)"
    by (auto simp: receiveFragment_def Let_def)
  then show ?thesis using ok by auto
next
  case False
  then obtain q x where q: "SequenceField p = Some q" and x: "FragmentField p = Some x" using p by auto
  have c: "getFragIndex p < getFragCount p" "getFragCount p \<le> opt_nMaxFragments st" "getFragCount p \<noteq> 1" using False by auto
  define key where "key = key_of e p"
  define pp where "pp = opened key (getFragCount p) st"
  have pp: "pp_ok pp" unfolding pp_def using c by (intro opened_ok [OF ok]) simp
  note recv = receive_slow [OF x c q, of now e, folded key_def, folded pp_def]
  have put: "reassembler_ok (put_partial key pp' st')" if "reassembler_ok st'" "pp_ok pp'" for pp' and st' :: "'a reassembler"
    using that by (simp add: reassembler_ok_def)
  have put1: "reassembler_ok (put_partial key pp st)" by (rule put [OF ok pp])
  show ?thesis
  proof (cases "getFragCount p = pp_fragCount pp")
    case False
    then show ?thesis using recv put1 by (simp add: key_def)
  next
    case True
    then have i: "getFragIndex p < length (fragments pp)" using c pp by (simp add: pp_ok_def)
    let ?new = "with_fragment pp (getFragIndex p) p"
    show ?thesis
    proof (cases "SequenceField (fragments pp ! getFragIndex p)")
      case (Some a)
      then show ?thesis using recv put1 i True by (simp add: key_def)
    next
      case None
      note w = with_fragment_ok [OF pp i None, of p]
      show ?thesis
      proof (cases "nReceivedFragments ?new = pp_fragCount pp")
        case full: True
        have "doReassembly ?new \<noteq> None" using w(2) q p full by (simp add: doReassembly_def those_map_Some)
        moreover have "vec_get (fragments ?new) 0 \<noteq> None" using pp by (simp add: with_fragment_def pp_ok_def)
        ultimately obtain a b where "doReassembly ?new = Some a" "vec_get (fragments ?new) 0 = Some b" by blast
        moreover have "reassembler_ok (erase_partial key (put_partial key pp st))" using ok by (simp add: reassembler_ok_def)
        ultimately show ?thesis using recv i True None full by (simp add: key_def)
      next
        case nf: False
        have "pp_ok (?new\<lparr>dropTimer := Some (now + reassemblyTimeout st)\<rparr>)" using w(1) q p nf by (simp add: pp_ok_def)
        from put [OF put1 this] show ?thesis using recv i True None nf by (simp add: key_def)
      qed
    qed
  qed
qed

subsection \<open>Reassembly in any order\<close>

text \<open>The numbered fragments of one message, whose first sequence number is \<open>base\<close>.\<close>

definition message :: "64 word \<Rightarrow> 'h lp_packet list \<Rightarrow> bool" where
  "message base qs \<longleftrightarrow> 1 < length qs \<and> (\<forall>j<length qs. FragIndexField (qs ! j) = Some j \<and> FragCountField (qs ! j) = Some (length qs) \<and>
     SequenceField (qs ! j) = Some (base + of_nat j) \<and> FragmentField (qs ! j) \<noteq> None)"

lemma assignSequences_spec:
  "assignSequences s qs = (s + of_nat (length qs), map (\<lambda>j. (qs ! j)\<lparr>SequenceField := Some (s + 1 + of_nat j)\<rparr>) [0..<length qs])"
proof (induction qs arbitrary: s)
  case (Cons q qs)
  have "[0..<length (q # qs)] = 0 # map Suc [0..<length qs]" by (simp add: map_Suc_upt upt_conv_Cons del: upt_Suc)
  then show ?case by (simp add: Cons.IH algebra_simps del: upt_Suc)
qed simp

lemma fragments_message:
  assumes "fragments_of (length frags) 0 netPkt frags" and "1 < length frags"
  shows "message (s + 1) (snd (assignSequences s frags))"
    and "concat (map (\<lambda>p. the (FragmentField p)) (snd (assignSequences s frags))) = netPkt"
proof -
  show "message (s + 1) (snd (assignSequences s frags))"
    using assms by (simp add: message_def assignSequences_spec fragments_of_def)
  have "map (\<lambda>p. the (FragmentField p)) (snd (assignSequences s frags)) = map (\<lambda>p. the (FragmentField p)) frags"
    by (rule nth_equalityI) (simp_all add: assignSequences_spec)
  then show "concat (map (\<lambda>p. the (FragmentField p)) (snd (assignSequences s frags))) = netPkt"
    using assms(1) by (simp add: fragments_of_def)
qed

text \<open>The fragments with indices in R have arrived.\<close>

definition arrived :: "'h lp_packet list \<Rightarrow> nat set \<Rightarrow> 'h PartialPacket \<Rightarrow> bool" where
  "arrived qs R pp \<longleftrightarrow> pp_fragCount pp = length qs \<and> nReceivedFragments pp = card R \<and>
     fragments pp = map (\<lambda>j. if j \<in> R then qs ! j else lp_Packet) [0..<length qs]"

definition progress :: "key \<Rightarrow> 'h lp_packet list \<Rightarrow> nat set \<Rightarrow> 'h reassembler \<Rightarrow> bool" where
  "progress key qs R st \<longleftrightarrow> R \<subseteq> {0..<length qs} \<and> length qs \<le> opt_nMaxFragments st \<and>
     (if R = {} \<or> R = {0..<length qs} then map_of (m_partialPackets st) key = None
      else \<exists>pp. map_of (m_partialPackets st) key = Some pp \<and> arrived qs R pp)"

lemma opened_arrived:
  assumes "progress key qs R st" and "R \<noteq> {0..<length qs}"
  shows "arrived qs R (opened key (length qs) st)"
proof (cases "R = {}")
  case True
  have "replicate (length qs) lp_Packet = map (\<lambda>j. lp_Packet) [0..<length qs]" by (simp add: map_replicate_const)
  then show ?thesis using assms True by (simp add: progress_def opened_def partial_at_def arrived_def)
next
  case False
  then obtain pp where pp: "map_of (m_partialPackets st) key = Some pp" "arrived qs R pp" using assms by (auto simp: progress_def)
  have "length qs \<noteq> 0" using assms False by (auto simp: progress_def)
  then show ?thesis using pp by (simp add: opened_def partial_at_def arrived_def)
qed

lemma with_fragment_arrived:
  assumes "arrived qs R pp" and "j < length qs" and "j \<notin> R" and "finite R"
  shows "arrived qs (insert j R) (with_fragment pp j (qs ! j))"
proof -
  have "(map (\<lambda>j. if j \<in> R then qs ! j else lp_Packet) [0..<length qs])[j := qs ! j] =
      map (\<lambda>i. if i \<in> insert j R then qs ! i else lp_Packet) [0..<length qs]"
    using assms(2) by (intro nth_equalityI) (simp_all add: nth_list_update)
  then show ?thesis using assms by (simp add: arrived_def with_fragment_def)
qed

lemma receive_own:
  assumes m: "message base qs" and inv: "progress (e, base) qs R st" and j: "j < length qs" "j \<notin> R"
  shows "\<exists>st'. receiveFragment now e (qs ! j) st = Some (st', if insert j R = {0..<length qs}
      then Some (concat (map (\<lambda>p. the (FragmentField p)) qs), qs ! 0) else None) \<and> progress (e, base) qs (insert j R) st' \<and>
      (\<forall>pp. map_of (m_partialPackets st') (e, base) = Some pp \<longrightarrow> dropTimer pp = Some (now + reassemblyTimeout st))"
proof -
  let ?p = "qs ! j" and ?n = "length qs"
  have p: "FragIndexField ?p = Some j" "FragCountField ?p = Some ?n" "SequenceField ?p = Some (base + of_nat j)" "FragmentField ?p \<noteq> None" "1 < ?n"
    using m j(1) by (auto simp: message_def)
  have R: "R \<subseteq> {0..<?n}" "finite R" "R \<noteq> {0..<?n}" "?n \<le> opt_nMaxFragments st"
    using inv j by (auto simp: progress_def finite_subset)
  have idx: "getFragIndex ?p = j" "getFragCount ?p = ?n" "key_of e ?p = (e, base)"
    using p by (simp_all add: getFragIndex_def getFragCount_def key_of_def)
  define pp where "pp = opened (e, base) ?n st"
  have pp: "arrived qs R pp" unfolding pp_def by (rule opened_arrived [OF inv R(3)])
  have new: "arrived qs (insert j R) (with_fragment pp j ?p)" by (rule with_fragment_arrived [OF pp j R(2)])
  have old: "vec_get (fragments pp) j = Some lp_Packet" using pp j by (simp add: arrived_def)
  obtain x where x: "FragmentField ?p = Some x" using p(4) by blast
  have recv: "receiveFragment now e ?p st = (if nReceivedFragments (with_fragment pp j ?p) = ?n then do {
         reassembled \<leftarrow> doReassembly (with_fragment pp j ?p);
         firstFrag \<leftarrow> vec_get (fragments (with_fragment pp j ?p)) 0;
         Some (erase_partial (e, base) (put_partial (e, base) pp st), Some (reassembled, firstFrag))
       }
       else Some (put_partial (e, base) ((with_fragment pp j ?p)\<lparr>dropTimer := Some (now + reassemblyTimeout st)\<rparr>) (put_partial (e, base) pp st), None))"
    using receive_slow [OF x _ _ _ p(3), of st now e] idx j(1) R(4) p(5) old pp by (simp add: pp_def [symmetric] arrived_def lp_Packet_def)
  have sub: "insert j R \<subseteq> {0..<?n}" using R(1) j(1) by auto
  have full: "nReceivedFragments (with_fragment pp j ?p) = ?n \<longleftrightarrow> insert j R = {0..<?n}"
  proof -
    have "nReceivedFragments (with_fragment pp j ?p) = card (insert j R)" using new by (simp add: arrived_def)
    moreover have "card (insert j R) = ?n \<longleftrightarrow> insert j R = {0..<?n}"
      using card_subset_eq [OF _ sub] by auto
    ultimately show ?thesis by simp
  qed
  show ?thesis
  proof (cases "insert j R = {0..<?n}")
    case True
    then have fs: "fragments (with_fragment pp j ?p) = qs"
      using new by (auto simp: arrived_def intro!: nth_equalityI)
    have "\<forall>q\<in>set qs. FragmentField q \<noteq> None" using m by (auto simp: message_def in_set_conv_nth)
    then have "doReassembly (with_fragment pp j ?p) = Some (concat (map (\<lambda>p. the (FragmentField p)) qs))"
      by (simp add: doReassembly_def fs those_map_Some)
    moreover have "vec_get qs 0 = Some (qs ! 0)" using p(5) by (intro vec_get_in) linarith
    ultimately show ?thesis using recv full True fs R(4) by (simp add: progress_def)
  next
    case False
    then show ?thesis using recv full new sub R(4) by (auto simp: progress_def arrived_def)
  qed
qed

abbreviation own :: "nat \<Rightarrow> 'h lp_packet list \<Rightarrow> time \<times> nat \<times> 'h lp_packet \<Rightarrow> bool" where
  "own e qs ev \<equiv> fst (snd ev) = e \<and> snd (snd ev) \<in> set qs"

abbreviation own_indices :: "nat \<Rightarrow> 'h lp_packet list \<Rightarrow> (time \<times> nat \<times> 'h lp_packet) list \<Rightarrow> nat list" where
  "own_indices e qs evs \<equiv> map (\<lambda>ev. getFragIndex (snd (snd ev))) (filter (own e qs) evs)"

text \<open>The results of the own fragments among those of all packets.\<close>

definition own_results :: "nat \<Rightarrow> 'h lp_packet list \<Rightarrow> (time \<times> nat \<times> 'h lp_packet) list \<Rightarrow> 'r list \<Rightarrow> 'r list" where
  "own_results e qs evs ress = map snd (filter (\<lambda>x. own e qs (fst x)) (zip evs ress))"

lemma own_results_Cons [simp]:
  "own_results e qs (ev # evs) (r # ress) = (if own e qs ev then r # own_results e qs evs ress else own_results e qs evs ress)"
  by (simp add: own_results_def)

lemma message_index: "message base qs \<Longrightarrow> p \<in> set qs \<Longrightarrow> getFragIndex p < length qs \<and> p = qs ! getFragIndex p"
  by (auto simp: message_def in_set_conv_nth getFragIndex_def)

abbreviation own_times :: "nat \<Rightarrow> 'h lp_packet list \<Rightarrow> (time \<times> nat \<times> 'h lp_packet) list \<Rightarrow> time list" where
  "own_times e qs evs \<equiv> map fst (filter (own e qs) evs)"

text \<open>The timer of the message is not due before the next of its fragments arrives.\<close>

definition in_time :: "key \<Rightarrow> time list \<Rightarrow> 'h reassembler \<Rightarrow> bool" where
  "in_time key ts st \<longleftrightarrow> (\<forall>pp t. map_of (m_partialPackets st) key = Some pp \<longrightarrow> ts \<noteq> [] \<longrightarrow> dropTimer pp = Some t \<longrightarrow> hd ts < t)"

lemma not_due:
  assumes "in_time key (own_times e qs ((now, e', p) # evs)) st" and "sorted (map fst ((now, e', p) # evs))"
    and "own_times e qs ((now, e', p) # evs) \<noteq> []"
  shows "\<not> due now st key"
proof -
  have "set (own_times e qs xs) \<subseteq> set (map fst xs)" for xs by auto
  then have "hd (own_times e qs ((now, e', p) # evs)) \<in> set (map fst ((now, e', p) # evs))" using hd_in_set [OF assms(3)] by (rule subsetD)
  then have "now \<le> hd (own_times e qs ((now, e', p) # evs))" using assms(2) by auto
  then show ?thesis using assms(1,3) unfolding in_time_def due_def by (fastforce split: option.splits)
qed

lemma run_timers_progress:
  assumes "progress key qs R st" and "\<not> due now st key"
  shows "progress key qs R (run_timers now st)"
  using assms by (simp add: progress_def run_timers_spec)

lemma receive_all_own:
  assumes m: "message base qs"
  shows "reassembler_ok st \<Longrightarrow> progress (e, base) qs R st \<Longrightarrow>
    \<forall>ev\<in>set evs. FragmentField (snd (snd ev)) \<noteq> None \<and> (own e qs ev \<or> key_of (fst (snd ev)) (snd (snd ev)) \<noteq> (e, base)) \<Longrightarrow>
    distinct (own_indices e qs evs) \<Longrightarrow> set (own_indices e qs evs) \<inter> R = {} \<Longrightarrow> set (own_indices e qs evs) \<union> R = {0..<length qs} \<Longrightarrow>
    sorted (map fst evs) \<Longrightarrow> successively (\<lambda>s t. t < s + reassemblyTimeout st) (own_times e qs evs) \<Longrightarrow> in_time (e, base) (own_times e qs evs) st \<Longrightarrow>
    \<exists>st' ress. receive_all evs st = Some (st', ress) \<and> own_results e qs evs ress = (if own_indices e qs evs = [] then []
      else replicate (length (own_indices e qs evs) - 1) None @ [Some (concat (map (\<lambda>p. the (FragmentField p)) qs), qs ! 0)])"
proof (induction evs arbitrary: st R)
  case Nil
  then show ?case by (simp add: own_results_def)
next
  case (Cons ev evs)
  obtain now e' p where ev: "ev = (now, e', p)" by (cases ev)
  have p: "FragmentField p \<noteq> None" using Cons.prems(3) by (simp add: ev)
  define st0 where "st0 = run_timers now st"
  have ok0: "reassembler_ok st0" unfolding st0_def by (rule run_timers_ok [OF Cons.prems(1)])
  have nil: "own_times e qs (ev # evs) = [] \<longleftrightarrow> own_indices e qs (ev # evs) = []" by simp
  have prog0: "progress (e, base) qs R st0"
  proof (cases "own_times e qs (ev # evs) = []")
    case True
    then have "R = {0..<length qs}" using Cons.prems(6) unfolding nil by simp
    then have "map_of (m_partialPackets st) (e, base) = None" using Cons.prems(2) by (simp add: progress_def)
    then have "\<not> due now st (e, base)" by (simp add: due_def)
    then show ?thesis unfolding st0_def by (rule run_timers_progress [OF Cons.prems(2)])
  next
    case False
    then show ?thesis unfolding st0_def ev
      by (intro run_timers_progress [OF Cons.prems(2)] not_due [OF Cons.prems(9,7) [unfolded ev]])
  qed
  obtain st1 res where st1: "receiveFragment now e' p st0 = Some (st1, res)" "reassembler_ok st1" "opt_nMaxFragments st1 = opt_nMaxFragments st0"
    and tm: "reassemblyTimeout st1 = reassemblyTimeout st0"
    and other: "\<forall>k. k \<noteq> key_of e' p \<longrightarrow> map_of (m_partialPackets st1) k = map_of (m_partialPackets st0) k"
    using receive_ok [OF ok0 p, of now e'] by (elim exE conjE) (rule that)
  have evs: "\<forall>ev\<in>set evs. FragmentField (snd (snd ev)) \<noteq> None \<and> (own e qs ev \<or> key_of (fst (snd ev)) (snd (snd ev)) \<noteq> (e, base))"
    using Cons.prems(3) by simp
  have sorted: "sorted (map fst evs)" using Cons.prems(7) by simp
  have tm1: "reassemblyTimeout st1 = reassemblyTimeout st" using tm by (simp add: st0_def run_timers_spec)
  show ?case
  proof (cases "own e qs ev")
    case False
    then have nk: "(e, base) \<noteq> key_of e' p" using Cons.prems(3) by (auto simp: ev)
    have same: "map_of (m_partialPackets st1) (e, base) = map_of (m_partialPackets st0) (e, base)" using spec [OF other, of "(e, base)"] nk by simp
    then have prog: "progress (e, base) qs R st1" using prog0 st1(3) by (simp add: progress_def)
    have ixs: "own_indices e qs (ev # evs) = own_indices e qs evs" "own_times e qs (ev # evs) = own_times e qs evs" using False by simp_all
    have time: "in_time (e, base) (own_times e qs evs) st1"
      using Cons.prems(9) unfolding ixs in_time_def same st0_def run_timers_spec by simp
    have succ: "successively (\<lambda>s t. t < s + reassemblyTimeout st1) (own_times e qs evs)" using Cons.prems(8) unfolding ixs tm1 .
    obtain st' ress where r: "receive_all evs st1 = Some (st', ress)" "own_results e qs evs ress = (if own_indices e qs evs = [] then []
        else replicate (length (own_indices e qs evs) - 1) None @ [Some (concat (map (\<lambda>p. the (FragmentField p)) qs), qs ! 0)])"
      using Cons.IH [OF st1(2) prog evs Cons.prems(4-6) [unfolded ixs] sorted succ time] by (elim exE conjE) (rule that)
    have "receive_all (ev # evs) st = Some (st', res # ress)" "own_results e qs (ev # evs) (res # ress) = own_results e qs evs ress"
      using st1(1) r(1) False by (simp_all add: ev st0_def)
    then show ?thesis unfolding ixs r(2) by (intro exI [of _ st'] exI [of _ "res # ress"] conjI)
  next
    case True
    define j where "j = getFragIndex p"
    have j: "j < length qs" "p = qs ! j" using message_index [OF m, of p] True by (auto simp: ev j_def)
    have e': "e' = e" and ixs: "own_indices e qs (ev # evs) = j # own_indices e qs evs" "own_times e qs (ev # evs) = now # own_times e qs evs"
      using True by (simp_all add: ev j_def)
    have fresh: "j \<notin> R" "j \<notin> set (own_indices e qs evs)" "distinct (own_indices e qs evs)"
      using Cons.prems(4,5) unfolding ixs by auto
    have cover: "set (own_indices e qs evs) \<inter> insert j R = {}" "set (own_indices e qs evs) \<union> insert j R = {0..<length qs}"
      using Cons.prems(5,6) fresh(2) unfolding ixs by auto
    have last: "insert j R = {0..<length qs} \<longleftrightarrow> own_indices e qs evs = []"
    proof
      assume full: "insert j R = {0..<length qs}"
      have gen: "A = {}" if "A \<inter> B = {}" "A \<union> B = B" for A B :: "nat set" using that by blast
      have "set (own_indices e qs evs) = {}" using gen [OF cover [unfolded full]] .
      then show "own_indices e qs evs = []" by (simp only: set_empty)
    next
      assume "own_indices e qs evs = []"
      then show "insert j R = {0..<length qs}" using cover(2) by simp
    qed
    obtain st2 where st2: "receiveFragment now e (qs ! j) st0 = Some (st2, if own_indices e qs evs = []
        then Some (concat (map (\<lambda>p. the (FragmentField p)) qs), qs ! 0) else None)" "progress (e, base) qs (insert j R) st2"
      "\<forall>pp. map_of (m_partialPackets st2) (e, base) = Some pp \<longrightarrow> dropTimer pp = Some (now + reassemblyTimeout st0)"
      using receive_own [OF m prog0 j(1) fresh(1), of now] unfolding last by (elim exE conjE) (rule that)
    then have st12: "st2 = st1" and res: "res = (if own_indices e qs evs = [] then Some (concat (map (\<lambda>p. the (FragmentField p)) qs), qs ! 0) else None)"
      using st1(1) by (simp_all add: e' j(2))
    have succ: "successively (\<lambda>s t. t < s + reassemblyTimeout st1) (own_times e qs evs)"
      and nxt: "own_times e qs evs \<noteq> [] \<Longrightarrow> hd (own_times e qs evs) < now + reassemblyTimeout st"
      using Cons.prems(8) unfolding ixs tm1 by (cases "own_times e qs evs"; simp)+
    have time: "in_time (e, base) (own_times e qs evs) st1"
      using nxt st2(3) tm tm1 unfolding in_time_def st12 by auto
    obtain st' ress where r: "receive_all evs st1 = Some (st', ress)"
      "own_results e qs evs ress = (if own_indices e qs evs = [] then []
        else replicate (length (own_indices e qs evs) - 1) None @ [Some (concat (map (\<lambda>p. the (FragmentField p)) qs), qs ! 0)])"
      using Cons.IH [OF st1(2) st2(2) [unfolded st12] evs fresh(3) cover sorted succ time] by (elim exE conjE) (rule that)
    have 1: "receive_all (ev # evs) st = Some (st', res # ress)" using st1(1) r(1) by (simp add: ev st0_def)
    have "own_results e qs (ev # evs) (res # ress) = res # own_results e qs evs ress" using True by simp
    also have "\<dots> = replicate (length (own_indices e qs evs)) None @ [Some (concat (map (\<lambda>p. the (FragmentField p)) qs), qs ! 0)]"
      unfolding r(2) res by (cases "own_indices e qs evs") simp_all
    finally show ?thesis unfolding ixs(1) using 1 by (intro exI [of _ st'] exI [of _ "res # ress"] conjI) simp_all
  qed
qed

text \<open>C5: fragmentation and reassembly: when a network packet is split into several fragments, each of them
  fits the MTU, and a reassembler that receives the numbered fragments in any order, between
  any packets of other messages, each less than the reassembly timeout after the one before,
  returns the network packet with the link headers of the original packet when the last of
  them arrives, and nothing before.  The drop timers run in between.\<close>

theorem fragmentation_roundtrip:
  assumes codec: "codec_ok codec" and p: "FragmentField packet = Some netPkt" "netPkt \<noteq> []" "FragIndexField packet = None" "FragCountField packet = None"
    and frag: "fragmentPacket codec nMaxFragments packet mtu = Some (True, frags)" and several: "1 < length frags"
    and qs: "qs = snd (assignSequences lastSeqNo frags)"
    and st: "reassembler_ok st" "length frags \<le> opt_nMaxFragments st" "map_of (m_partialPackets st) (e, lastSeqNo + 1) = None"
    and evs: "\<forall>ev\<in>set evs. FragmentField (snd (snd ev)) \<noteq> None \<and>
      (own e qs ev \<or> key_of (fst (snd ev)) (snd (snd ev)) \<noteq> (e, lastSeqNo + 1))"
    and all: "mset (map (\<lambda>ev. snd (snd ev)) (filter (own e qs) evs)) = mset qs"
    and time: "sorted (map fst evs)" "successively (\<lambda>s t. t < s + reassemblyTimeout st) (own_times e qs evs)"
  shows "(\<forall>f\<in>set frags. lc_size codec f \<le> mtu) \<and> (\<exists>st' ress. receive_all evs st = Some (st', ress) \<and>
    own_results e qs evs ress = replicate (length frags - 1) None @ [Some (netPkt, hd qs)] \<and> otherFields (hd qs) = otherFields packet)"
proof -
  have fs: "fragments_of (length frags) 0 netPkt frags" "frags \<noteq> []" "otherFields (hd frags) = otherFields packet" "\<forall>f\<in>set frags. lc_size codec f \<le> mtu"
    using fragmentPacket_ok [OF codec p, of nMaxFragments mtu] frag several by auto
  note m = fragments_message [OF fs(1) several, of lastSeqNo, folded qs]
  have len: "length qs = length frags" by (simp add: qs assignSequences_spec)
  have hd: "hd qs = qs ! 0" "otherFields (hd qs) = otherFields packet"
    using fs(2,3) by (simp_all add: qs assignSequences_spec hd_map hd_conv_nth)
  have "map getFragIndex qs = [0..<length qs]"
    using m(1) by (intro nth_equalityI) (simp_all add: message_def getFragIndex_def)
  then have ixs: "mset (own_indices e qs evs) = mset [0..<length qs]"
    using arg_cong [OF all, of "image_mset getFragIndex"] by (simp add: image_mset.compositionality comp_def flip: mset_map)
  then have set: "set (own_indices e qs evs) = {0..<length qs}" and dis: "distinct (own_indices e qs evs)"
    using mset_eq_setD [OF ixs] mset_eq_imp_distinct_iff [OF ixs] by simp_all
  have n: "length (own_indices e qs evs) = length qs" using mset_eq_length [OF ixs] by simp
  have prog: "progress (e, lastSeqNo + 1) qs {} st" using st(2,3) len by (simp add: progress_def)
  have tim: "in_time (e, lastSeqNo + 1) (own_times e qs evs) st" using st(3) by (simp add: in_time_def)
  have cover: "set (own_indices e qs evs) \<inter> {} = {}" "set (own_indices e qs evs) \<union> {} = {0..<length qs}" using set by simp_all
  obtain st' ress where
    "receive_all evs st = Some (st', ress)" "own_results e qs evs ress = (if own_indices e qs evs = [] then []
      else replicate (length (own_indices e qs evs) - 1) None @ [Some (concat (map (\<lambda>p. the (FragmentField p)) qs), qs ! 0)])"
    using receive_all_own [OF m(1) st(1) prog evs dis cover time tim] by (elim exE conjE) (rule that)
  moreover have "own_indices e qs evs \<noteq> []" using n len several by auto
  ultimately show ?thesis using fs(4) hd m(2) n len by simp
qed

definition example_codec :: "string lp_codec" where
  "example_codec = \<lparr>lc_size = (\<lambda>p. 20 + (case FragmentField p of None \<Rightarrow> 0 | Some xs \<Rightarrow> length xs)), lc_isLpPacket = (\<lambda>p. True),
     lc_elements = (\<lambda>p. [(True, case FragmentField p of None \<Rightarrow> 0 | Some xs \<Rightarrow> length xs)])\<rparr>"

definition example_packet :: "string lp_packet" where
  "example_packet = lp_Packet\<lparr>FragmentField := Some (replicate 11 1 @ replicate 11 2), otherFields := [''CongestionMark'']\<rparr>"

definition example_fragment :: "nat \<Rightarrow> string lp_packet" where
  "example_fragment i = (if i = 0 then example_packet else lp_Packet)\<lparr>FragIndexField := Some i, FragCountField := Some 2,
     FragmentField := Some (replicate 11 (if i = 0 then 1 else 2))\<rparr>"

definition numbered :: "nat \<Rightarrow> string lp_packet" where
  "numbered i = (example_fragment i)\<lparr>SequenceField := Some (of_nat i)\<rparr>"

theorem fragmentation_roundtrip_witness:
  "\<exists>st' res. receive_all [(0, 5, numbered 1), (1, 6, numbered 0), (2, 5, numbered 0)] LpReassembler = Some (st', [None, res, Some (replicate 11 1 @ replicate 11 2, numbered 0)])"
proof -
  let ?evs = "[(0, 5, numbered 1), (1, 6, numbered 0), (2, 5, numbered 0)] :: (time \<times> nat \<times> string lp_packet) list"
  let ?frags = "[example_fragment 0, example_fragment 1]"
  have codec: "codec_ok example_codec"
    by (simp add: codec_ok_def example_codec_def MAX_FRAG_OVERHEAD_def)
  have p: "FragmentField example_packet = Some (replicate 11 1 @ replicate 11 2)" "replicate 11 1 @ replicate 11 2 \<noteq> ([] :: 8 word list)"
    "FragIndexField example_packet = None" "FragCountField example_packet = None"
    by (simp_all add: example_packet_def lp_Packet_def)
  have frag: "fragmentPacket example_codec 400 example_packet 61 = Some (True, ?frags)"
    by (simp add: fragmentPacket_def p example_codec_def MAX_SINGLE_FRAG_OVERHEAD_def MAX_FRAG_OVERHEAD_def firstHeaderSize_def
        populate.simps Let_def example_fragment_def example_packet_def lp_Packet_def)
  have qs: "[numbered 0, numbered 1] = snd (assignSequences (- 1) ?frags)"
    by (simp add: numbered_def Let_def)
  have st: "reassembler_ok LpReassembler" "length ?frags \<le> opt_nMaxFragments (LpReassembler :: string reassembler)"
    "map_of (m_partialPackets (LpReassembler :: string reassembler)) (5, - 1 + 1) = None"
    by (simp_all add: LpReassembler_def reassembler_ok_def)
  have evs: "\<forall>ev\<in>set ?evs. FragmentField (snd (snd ev)) \<noteq> None \<and> (own 5 [numbered 0, numbered 1] ev \<or> key_of (fst (snd ev)) (snd (snd ev)) \<noteq> (5, - 1 + 1))"
    by (simp add: key_of_def numbered_def example_fragment_def)
  have all: "mset (map (\<lambda>ev. snd (snd ev)) (filter (own 5 [numbered 0, numbered 1]) ?evs)) = mset [numbered 0, numbered 1]"
    by simp
  have time: "sorted (map fst ?evs)" "successively (\<lambda>s t. t < s + reassemblyTimeout (LpReassembler :: string reassembler)) (own_times 5 [numbered 0, numbered 1] ?evs)"
    by (simp_all add: LpReassembler_def)
  obtain st' ress where r: "receive_all ?evs LpReassembler = Some (st', ress)"
    and o: "own_results 5 [numbered 0, numbered 1] ?evs ress = [None, Some (replicate 11 1 @ replicate 11 2, numbered 0)]"
    using fragmentation_roundtrip [OF codec p frag _ qs st evs all time] by auto
  have "length ress = 3" using r by (auto split: bind_splits)
  then obtain a b c where "ress = [a, b, c]" by (auto simp: numeral_3_eq_3 length_Suc_conv)
  then show ?thesis using r o by (auto simp: own_results_def)
qed

end
