(* ===== verification/Lp_Reliability.thy ===== *)
theory Lp_Reliability
  imports Link_Fragmentation
begin

text \<open>
  \<^verbatim>\<open>core/rtt-estimator.{hpp,cpp}\<close> and \<^verbatim>\<open>daemon/face/lp-reliability.{hpp,cpp}\<close>: the estimator of the retransmission
  timeout, and the feature of the link service that numbers the fragments it sends, keeps
  them until they are acknowledged and sends them again when they are lost.

  An iterator of the map of unacknowledged fragments is its key, None the end; the map is a
  list of pairs in the order of the keys.  The network packets, which fragments share, live
  in a heap.  A packet that is handed to the transport is appended to \<open>lr_sent\<close>, an Interest
  reported as dropped to \<open>lr_dropped\<close>.  The size of an encoded packet, the sizes of TLV numbers
  and the largest packet are parameters, in \<open>rel_env\<close>.

  The lemmas: the fragments and the network packets refer to each other, the window of
  sequence numbers starts at its first fragment, wrap-around included, and every operation
  keeps this, so that no assertion fails and no sequence number is used twice.
\<close>

subsection \<open>The estimator of the round trip time\<close>

record rtt_estimator =
  m_maxMultiplier :: "16 word"
  m_minRto :: rat
  m_rtt :: rat
  m_gain :: rat
  m_variance :: rat
  m_multiplier :: "16 word"
  m_nSamples :: "32 word"

definition RttEstimator :: "16 word \<Rightarrow> int \<Rightarrow> rat \<Rightarrow> rtt_estimator" where
  "RttEstimator maxMultiplier minRto gain = \<lparr>m_maxMultiplier = maxMultiplier, m_minRto = float64 (of_int minRto),
     m_rtt = 1000000, m_gain = gain, m_variance = 0, m_multiplier = 1, m_nSamples = 0\<rparr>"

definition addMeasurement :: "int \<Rightarrow> rtt_estimator \<Rightarrow> rtt_estimator" where
  "addMeasurement measured e =
     (let m = float64 (of_int measured);
          e = (if 0 < m_nSamples e then
                 let err = float64 (m - m_rtt e);
                     gErr = float64 (err * m_gain e);
                     difference = float64 (\<bar>err\<bar> - m_variance e)
                 in e\<lparr>m_rtt := float64 (m_rtt e + gErr), m_variance := float64 (m_variance e + float64 (difference * m_gain e))\<rparr>
               else e\<lparr>m_rtt := m, m_variance := m\<rparr>)
      in e\<lparr>m_nSamples := m_nSamples e + 1, m_multiplier := 1\<rparr>)"

definition incrementMultiplier :: "rtt_estimator \<Rightarrow> rtt_estimator" where
  "incrementMultiplier e = e\<lparr>m_multiplier := min (m_multiplier e + 1) (m_maxMultiplier e)\<rparr>"

definition doubleMultiplier :: "rtt_estimator \<Rightarrow> rtt_estimator" where
  "doubleMultiplier e = e\<lparr>m_multiplier := min (m_multiplier e * 2) (m_maxMultiplier e)\<rparr>"

text \<open>In microseconds; the conversion to a 64-bit integer is undefined outside its range.\<close>

definition computeRto :: "rtt_estimator \<Rightarrow> int option" where
  "computeRto e =
     (let rto = max (m_minRto e) (float64 (m_rtt e + float64 (4 * m_variance e)));
          rto = float64 (rto * of_nat (unat (m_multiplier e)))
      in if \<bar>rto\<bar> < 2 ^ 63 then Some (if rto < 0 then \<lceil>rto\<rceil> else \<lfloor>rto\<rfloor>) else None)"

subsection \<open>State\<close>

record 'h rel_packet = "'h lp_packet" +
  TxSequenceField :: "64 word option"
  AckField :: "64 word list"

record 'h UnackedFrag =
  uf_pkt :: "'h rel_packet"
  uf_rtoTimer :: "time option"
  uf_sendTime :: time
  uf_retxCount :: nat
  uf_nGreaterSeqAcks :: nat
  uf_netPkt :: nat

record 'h NetPkt =
  np_unackedFrags :: "64 word list"
  np_pkt :: "'h rel_packet"
  np_isInterest :: bool
  np_didRetx :: bool

record rel_options =
  ro_isEnabled :: bool
  ro_maxRetx :: nat
  ro_idleAckTimerPeriod :: int
  ro_seqNumLossThreshold :: nat

record 'h reliability =
  lr_options :: rel_options
  m_unackedFrags :: "(64 word \<times> 'h UnackedFrag) list"
  m_firstUnackedFrag :: "64 word option"
  m_ackQueue :: "64 word list"
  m_lastTxSeqNo :: "64 word"
  m_idleAckTimer :: "time option"
  m_isIdleAckTimerRunning :: bool
  m_rto :: rtt_estimator
  netPkts :: "nat \<Rightarrow> 'h NetPkt option"
  netPkt_next :: nat
  nAcknowledged :: "64 word"
  nRetransmitted :: "64 word"
  nRetxExhausted :: "64 word"
  nOutOverMtu :: "64 word"
  lr_sent :: "'h rel_packet list"
  lr_dropped :: "'h rel_packet list"

record 'h rel_env =
  re_size :: "'h rel_packet \<Rightarrow> int"
  re_isLpPacket :: "'h rel_packet \<Rightarrow> bool"
  re_sizeOfVarNumber :: "int \<Rightarrow> int"
  re_maxPacket :: int
  re_ackType :: int
  re_mtu :: "int option"

definition LpReliability :: "rel_options \<Rightarrow> 'h reliability option" where
  "LpReliability options = do {
     assert (0 < ro_idleAckTimerPeriod options);
     Some \<lparr>lr_options = options, m_unackedFrags = [], m_firstUnackedFrag = None, m_ackQueue = [], m_lastTxSeqNo = - 1,
       m_idleAckTimer = None, m_isIdleAckTimerRunning = False, m_rto = RttEstimator 16 1000 (float64 (1 / 10)),
       netPkts = (\<lambda>_. None), netPkt_next = 0, nAcknowledged = 0, nRetransmitted = 0, nRetxExhausted = 0, nOutOverMtu = 0,
       lr_sent = [], lr_dropped = []\<rparr>
   }"

definition stopIdleAckTimer :: "'h reliability \<Rightarrow> 'h reliability" where
  "stopIdleAckTimer r = r\<lparr>m_idleAckTimer := None, m_isIdleAckTimerRunning := False\<rparr>"

definition setOptions :: "rel_options \<Rightarrow> 'h reliability \<Rightarrow> 'h reliability option" where
  "setOptions options r = do {
     assert (0 < ro_idleAckTimerPeriod options);
     let r = (if ro_isEnabled (lr_options r) \<and> \<not> ro_isEnabled options then stopIdleAckTimer r else r);
     Some (r\<lparr>lr_options := options\<rparr>)
   }"

text \<open>\<^verbatim>\<open>std::map::emplace_hint\<close> and access through an iterator.\<close>

fun uf_emplace :: "64 word \<Rightarrow> 'v \<Rightarrow> (64 word \<times> 'v) list \<Rightarrow> (64 word \<times> 'v) list" where
  "uf_emplace k v [] = [(k, v)]"
| "uf_emplace k v ((j, w) # m) = (if k < j then (k, v) # (j, w) # m else if k = j then (j, w) # m else (j, w) # uf_emplace k v m)"

definition uf_modify :: "64 word \<Rightarrow> ('v \<Rightarrow> 'v) \<Rightarrow> (64 word \<times> 'v) list \<Rightarrow> (64 word \<times> 'v) list" where
  "uf_modify k g m = map (\<lambda>(j, v). (j, if j = k then g v else v)) m"

definition UnackedFrag_new :: "time \<Rightarrow> 'h rel_packet \<Rightarrow> 'h UnackedFrag" where
  "UnackedFrag_new now pkt = \<lparr>uf_pkt = pkt, uf_rtoTimer = None, uf_sendTime = now, uf_retxCount = 0, uf_nGreaterSeqAcks = 0, uf_netPkt = 0\<rparr>"

definition put_netPkt :: "nat \<Rightarrow> 'h NetPkt \<Rightarrow> 'h reliability \<Rightarrow> 'h reliability" where
  "put_netPkt i np r = r\<lparr>netPkts := (netPkts r)(i \<mapsto> np)\<rparr>"

subsection \<open>Acknowledgements\<close>

text \<open>The loop that attaches acknowledgements while there is space for one more.\<close>

fun piggyback_loop :: "int \<Rightarrow> int \<Rightarrow> 64 word list \<Rightarrow> 'h rel_packet \<Rightarrow> 64 word list \<times> 'h rel_packet" where
  "piggyback_loop ackSize remainingSpace [] pkt = ([], pkt)"
| "piggyback_loop ackSize remainingSpace (ackSeq # acks) pkt =
     (if ackSize > remainingSpace then (ackSeq # acks, pkt)
      else piggyback_loop ackSize (remainingSpace - ackSize) acks (pkt\<lparr>AckField := AckField pkt @ [ackSeq]\<rparr>))"

definition piggyback :: "'h rel_env \<Rightarrow> 'h rel_packet \<Rightarrow> 'h reliability \<Rightarrow> ('h rel_packet \<times> 'h reliability) option" where
  "piggyback env pkt r = do {
     assert (ro_isEnabled (lr_options r));
     assert (re_isLpPacket env pkt);
     let pktSize = re_size env pkt;
     let reservedSpace = re_sizeOfVarNumber env (re_maxPacket env) - re_sizeOfVarNumber env pktSize;
     let remainingSpace = (case re_mtu env of None \<Rightarrow> re_maxPacket env | Some mtu \<Rightarrow> mtu) - reservedSpace - pktSize;
     let ackSize = re_sizeOfVarNumber env (re_ackType env) + re_sizeOfVarNumber env 8 + 8;
     let (acks, pkt) = piggyback_loop ackSize remainingSpace (m_ackQueue r) pkt;
     Some (pkt, r\<lparr>m_ackQueue := acks\<rparr>)
   }"

text \<open>
  \<^verbatim>\<open>GenericLinkService::sendLpPacket\<close> with congestion marking off, as it is by default: a packet
  over the MTU is counted and not sent.
\<close>

definition send_piggybacked :: "'h rel_env \<Rightarrow> 'h rel_packet \<Rightarrow> 'h reliability \<Rightarrow> 'h reliability option" where
  "send_piggybacked env pkt r = do {
     (pkt, r) \<leftarrow> (if ro_isEnabled (lr_options r) then piggyback env pkt r else Some (pkt, r));
     Some (if (case re_mtu env of None \<Rightarrow> False | Some mtu \<Rightarrow> re_size env pkt > mtu)
       then r\<lparr>nOutOverMtu := nOutOverMtu r + 1\<rparr> else r\<lparr>lr_sent := lr_sent r @ [pkt]\<rparr>)
   }"

definition startIdleAckTimer :: "time \<Rightarrow> 'h reliability \<Rightarrow> 'h reliability option" where
  "startIdleAckTimer now r = do {
     assert (\<not> m_isIdleAckTimerRunning r);
     Some (r\<lparr>m_isIdleAckTimerRunning := True, m_idleAckTimer := Some (now + ro_idleAckTimerPeriod (lr_options r))\<rparr>)
   }"

definition idle_packet :: "'h rel_packet" where
  "idle_packet = \<lparr>FragmentField = None, FragIndexField = None, FragCountField = None, SequenceField = None, otherFields = [],
     TxSequenceField = None, AckField = []\<rparr>"

text \<open>The handler of the timer; it does not end when no acknowledgement fits into a packet.\<close>

partial_function (option) idle_loop :: "'h rel_env \<Rightarrow> 'h reliability \<Rightarrow> 'h reliability option" where
  "idle_loop env r = (if m_ackQueue r = [] then Some r
     else Option.bind (send_piggybacked env idle_packet r) (idle_loop env))"

definition onIdleAckTimer :: "'h rel_env \<Rightarrow> 'h reliability \<Rightarrow> 'h reliability option" where
  "onIdleAckTimer env r = do {
     r \<leftarrow> idle_loop env r;
     Some (r\<lparr>m_isIdleAckTimerRunning := False, m_idleAckTimer := None\<rparr>)
   }"

subsection \<open>Fragments\<close>

definition assignTxSequence :: "'h rel_packet \<Rightarrow> 'h reliability \<Rightarrow> ('h rel_packet \<times> 64 word \<times> 'h reliability) option" where
  "assignTxSequence frag r = do {
     let txSeq = m_lastTxSeqNo r + 1;
     let r = r\<lparr>m_lastTxSeqNo := txSeq\<rparr>;
     let frag = frag\<lparr>TxSequenceField := Some txSeq\<rparr>;
     if m_unackedFrags r \<noteq> [] then do {
       first \<leftarrow> m_firstUnackedFrag r;
       if txSeq = first then None else Some (frag, txSeq, r)
     }
     else Some (frag, txSeq, r)
   }"

definition deleteUnackedFrag :: "64 word \<Rightarrow> 'h reliability \<Rightarrow> 'h reliability option" where
  "deleteUnackedFrag currentTxSeq r = do {
     firstUnackedTxSeq \<leftarrow> m_firstUnackedFrag r;
     assert (currentTxSeq \<in> fst ` set (m_unackedFrags r));
     let nextFragIt = List.find (\<lambda>j. currentTxSeq < j) (map fst (m_unackedFrags r));
     let frags = filter (\<lambda>(j, _). j \<noteq> currentTxSeq) (m_unackedFrags r);
     let r = r\<lparr>m_unackedFrags := frags\<rparr>;
     Some (if frags = [] then r\<lparr>m_firstUnackedFrag := None\<rparr>
       else if firstUnackedTxSeq = currentTxSeq
         then r\<lparr>m_firstUnackedFrag := Some (case nextFragIt of None \<Rightarrow> fst (hd frags) | Some j \<Rightarrow> j)\<rparr>
       else r)
   }"

fun delete_all :: "64 word list \<Rightarrow> 'h reliability \<Rightarrow> 'h reliability option" where
  "delete_all [] r = Some r"
| "delete_all (s # ss) r = do { r \<leftarrow> deleteUnackedFrag s r; delete_all ss r }"

text \<open>One turn of the loop over the fragments of a packet; \<open>i\<close> is the network packet.\<close>

definition add_fragment :: "time \<Rightarrow> nat \<Rightarrow> 'h rel_packet \<Rightarrow> 'h reliability \<Rightarrow> ('h rel_packet \<times> 'h reliability) option" where
  "add_fragment now i frag r = do {
     (frag, txSeq, r) \<leftarrow> assignTxSequence frag r;
     rto \<leftarrow> computeRto (m_rto r);
     let frags = uf_modify txSeq (\<lambda>f. f\<lparr>uf_sendTime := now, uf_rtoTimer := Some (now + rto * 1000), uf_netPkt := i\<rparr>)
           (uf_emplace txSeq (UnackedFrag_new now frag) (m_unackedFrags r));
     let r = r\<lparr>m_unackedFrags := frags\<rparr>;
     let r = (if length frags = 1 then r\<lparr>m_firstUnackedFrag := Some (fst (hd frags))\<rparr> else r);
     np \<leftarrow> netPkts r i;
     Some (frag, put_netPkt i (np\<lparr>np_unackedFrags := np_unackedFrags np @ [txSeq]\<rparr>) r)
   }"

fun add_fragments :: "time \<Rightarrow> nat \<Rightarrow> 'h rel_packet list \<Rightarrow> 'h reliability \<Rightarrow> ('h rel_packet list \<times> 'h reliability) option" where
  "add_fragments now i [] r = Some ([], r)"
| "add_fragments now i (frag # frags) r = do {
     (frag, r) \<leftarrow> add_fragment now i frag r;
     (frags, r) \<leftarrow> add_fragments now i frags r;
     Some (frag # frags, r)
   }"

definition handleOutgoing :: "time \<Rightarrow> 'h rel_packet list \<Rightarrow> 'h rel_packet \<Rightarrow> bool \<Rightarrow> 'h reliability \<Rightarrow>
    ('h rel_packet list \<times> 'h reliability) option" where
  "handleOutgoing now frags pkt isInterest r = do {
     assert (ro_isEnabled (lr_options r));
     let i = netPkt_next r;
     let r = (put_netPkt i \<lparr>np_unackedFrags = [], np_pkt = pkt, np_isInterest = isInterest, np_didRetx = False\<rparr> r)\<lparr>netPkt_next := i + 1\<rparr>;
     add_fragments now i frags r
   }"

text \<open>
  The fragments from the first of the window up to the acknowledged one, in the order of
  the window: the iterator goes on at the beginning of the map when it reaches its end.
\<close>

definition window_until :: "64 word \<Rightarrow> 'h reliability \<Rightarrow> 64 word list" where
  "window_until ack r = takeWhile (\<lambda>j. j \<noteq> ack)
     ((case m_firstUnackedFrag r of None \<Rightarrow> [] | Some first \<Rightarrow> dropWhile (\<lambda>j. j \<noteq> first) (map fst (m_unackedFrags r))) @
      map fst (m_unackedFrags r))"

definition findLostLpPackets :: "64 word \<Rightarrow> 'h reliability \<Rightarrow> 64 word list \<times> 'h reliability" where
  "findLostLpPackets ack r =
     (let visited = window_until ack r;
          frags = map (\<lambda>(j, f). (j, if j \<in> set visited then f\<lparr>uf_nGreaterSeqAcks := uf_nGreaterSeqAcks f + 1\<rparr> else f)) (m_unackedFrags r);
          lost = filter (\<lambda>j. case map_of frags j of None \<Rightarrow> False | Some f \<Rightarrow> uf_nGreaterSeqAcks f \<ge> ro_seqNumLossThreshold (lr_options r)) visited
      in (lost, r\<lparr>m_unackedFrags := frags\<rparr>))"

definition onLpPacketAcknowledged :: "64 word \<Rightarrow> 'h reliability \<Rightarrow> 'h reliability option" where
  "onLpPacketAcknowledged s r = do {
     frag \<leftarrow> map_of (m_unackedFrags r) s;
     np \<leftarrow> netPkts r (uf_netPkt frag);
     assert (s \<in> set (np_unackedFrags np));
     let left = butlast (update_first (\<lambda>j. j = s) (\<lambda>_. last (np_unackedFrags np)) (np_unackedFrags np));
     let r = put_netPkt (uf_netPkt frag) (np\<lparr>np_unackedFrags := left\<rparr>) r;
     let r = (if left = [] then
                if np_didRetx np then r\<lparr>nRetransmitted := nRetransmitted r + 1\<rparr> else r\<lparr>nAcknowledged := nAcknowledged r + 1\<rparr>
              else r);
     deleteUnackedFrag s r
   }"

text \<open>The fragment is erased on both paths, which cancels its timer.\<close>

definition onLpPacketLost :: "'h rel_env \<Rightarrow> time \<Rightarrow> 64 word \<Rightarrow> 'h reliability \<Rightarrow> (64 word list \<times> 'h reliability) option" where
  "onLpPacketLost env now txSeq r = do {
     txFrag \<leftarrow> map_of (m_unackedFrags r) txSeq;
     np \<leftarrow> netPkts r (uf_netPkt txFrag);
     if uf_retxCount txFrag \<ge> ro_maxRetx (lr_options r) then do {
       let others = filter (\<lambda>j. j \<noteq> txSeq) (np_unackedFrags np);
       r \<leftarrow> delete_all others r;
       let r = r\<lparr>nRetxExhausted := nRetxExhausted r + 1\<rparr>;
       r \<leftarrow> (if np_isInterest np
         then do { assert (FragmentField (np_pkt np) \<noteq> None); Some (r\<lparr>lr_dropped := lr_dropped r @ [np_pkt np]\<rparr>) }
         else Some r);
       r \<leftarrow> deleteUnackedFrag txSeq r;
       Some (others @ [txSeq], r)
     }
     else do {
       (pkt, newTxSeq, r) \<leftarrow> assignTxSequence (uf_pkt txFrag) r;
       let r = r\<lparr>m_unackedFrags := uf_modify newTxSeq (\<lambda>f. f\<lparr>uf_retxCount := uf_retxCount txFrag + 1, uf_netPkt := uf_netPkt txFrag\<rparr>)
             (uf_emplace newTxSeq (UnackedFrag_new now pkt) (m_unackedFrags r))\<rparr>;
       assert (txSeq \<in> set (np_unackedFrags np));
       let r = put_netPkt (uf_netPkt txFrag) (np\<lparr>np_didRetx := True,
             np_unackedFrags := update_first (\<lambda>j. j = txSeq) (\<lambda>_. newTxSeq) (np_unackedFrags np)\<rparr>) r;
       r \<leftarrow> deleteUnackedFrag txSeq r;
       newTxFrag \<leftarrow> map_of (m_unackedFrags r) newTxSeq;
       r \<leftarrow> send_piggybacked env (uf_pkt newTxFrag) r;
       rto \<leftarrow> computeRto (m_rto r);
       Some ([txSeq], r\<lparr>m_unackedFrags := uf_modify newTxSeq (\<lambda>f. f\<lparr>uf_rtoTimer := Some (now + rto * 1000)\<rparr>) (m_unackedFrags r)\<rparr>)
     }
   }"

fun resend_lost :: "'h rel_env \<Rightarrow> time \<Rightarrow> 64 word list \<Rightarrow> 64 word list \<Rightarrow> 'h reliability \<Rightarrow> 'h reliability option" where
  "resend_lost env now [] removed r = Some r"
| "resend_lost env now (s # ss) removed r =
     (if s \<in> set removed then resend_lost env now ss removed r
      else do {
        (removedThisTxSeq, r) \<leftarrow> onLpPacketLost env now s r;
        resend_lost env now ss (removed @ removedThisTxSeq) r
      })"

definition cast_us :: "int \<Rightarrow> int" where
  "cast_us t = sgn t * (\<bar>t\<bar> div 1000)"

definition process_ack :: "'h rel_env \<Rightarrow> time \<Rightarrow> 64 word \<Rightarrow> 'h reliability \<Rightarrow> 'h reliability option" where
  "process_ack env now ackSeq r = (case map_of (m_unackedFrags r) ackSeq of
       None \<Rightarrow> Some r
     | Some frag \<Rightarrow> do {
         let r = r\<lparr>m_unackedFrags := uf_modify ackSeq (uf_rtoTimer_update (\<lambda>_. None)) (m_unackedFrags r)\<rparr>;
         let r = (if uf_retxCount frag = 0 then r\<lparr>m_rto := addMeasurement (cast_us (now - uf_sendTime frag)) (m_rto r)\<rparr> else r);
         let (lostLpPackets, r) = findLostLpPackets ackSeq r;
         r \<leftarrow> onLpPacketAcknowledged ackSeq r;
         resend_lost env now lostLpPackets [] r
       })"

fun process_acks :: "'h rel_env \<Rightarrow> time \<Rightarrow> 64 word list \<Rightarrow> 'h reliability \<Rightarrow> 'h reliability option" where
  "process_acks env now [] r = Some r"
| "process_acks env now (a # acks) r = do { r \<leftarrow> process_ack env now a r; process_acks env now acks r }"

definition processIncomingPacket :: "'h rel_env \<Rightarrow> time \<Rightarrow> 'h rel_packet \<Rightarrow> 'h reliability \<Rightarrow> 'h reliability option" where
  "processIncomingPacket env now pkt r = do {
     assert (ro_isEnabled (lr_options r));
     r \<leftarrow> process_acks env now (AckField pkt) r;
     case (FragmentField pkt, TxSequenceField pkt) of
       (Some _, Some txSeq) \<Rightarrow> do {
         let r = r\<lparr>m_ackQueue := m_ackQueue r @ [txSeq]\<rparr>;
         if \<not> m_isIdleAckTimerRunning r then startIdleAckTimer now r else Some r
       }
     | _ \<Rightarrow> Some r
   }"

subsection \<open>The map of unacknowledged fragments\<close>

lemma uf_emplace_keys: "k \<notin> fst ` set m \<Longrightarrow> map fst (uf_emplace k v m) = insort k (map fst m)"
  by (induction k v m rule: uf_emplace.induct) (auto simp: less_le)

lemma uf_emplace_map_of: "k \<notin> fst ` set m \<Longrightarrow> map_of (uf_emplace k v m) = (map_of m)(k \<mapsto> v)"
  by (induction k v m rule: uf_emplace.induct) (auto simp: fun_eq_iff)

lemma uf_modify_keys [simp]: "map fst (uf_modify k g m) = map fst m"
  by (induction m) (auto simp: uf_modify_def)

lemma uf_modify_map_of: "map_of (uf_modify k g m) = (map_of m)(k := map_option g (map_of m k))"
  by (induction m) (auto simp: uf_modify_def fun_eq_iff)

lemma uf_erase_keys: "map fst (filter (\<lambda>(j, _). j \<noteq> c) m) = filter (\<lambda>j. j \<noteq> c) (map fst m)"
  by (induction m) auto

lemma uf_erase_map_of: "map_of (filter (\<lambda>(j, _). j \<noteq> c) m) = (map_of m)(c := None)"
  by (induction m) (auto simp: fun_eq_iff)

lemma keys_map_of: "k \<in> fst ` set m \<longleftrightarrow> map_of m k \<noteq> None"
  by (simp add: map_of_eq_None_iff)

subsection \<open>The window of sequence numbers\<close>

text \<open>
  The numbers in use lie between the first of the window and the last assigned one,
  counted with wrap-around.
\<close>

definition window_ok :: "64 word option \<Rightarrow> 64 word \<Rightarrow> 64 word list \<Rightarrow> bool" where
  "window_ok first lst ks \<longleftrightarrow> sorted ks \<and> distinct ks \<and>
     (case first of None \<Rightarrow> ks = [] | Some f \<Rightarrow> f \<in> set ks \<and> (\<forall>k\<in>set ks. k - f \<le> lst - f))"

lemma unat_bound64: "unat (x :: 64 word) < 18446744073709551616"
  using unsigned_less [of x] by simp

lemma word_less_next: "(x :: 64 word) + 1 \<noteq> 0 \<Longrightarrow> x < x + 1"
  by (metis add.commute lessI unatSuc word_less_nat_alt)

lemma word_offset_mono:
  assumes "(a :: 64 word) \<le> b" and "b \<le> c"
  shows "b - a \<le> c - a"
  using assms by (simp add: word_le_nat_alt unat_sub) 

lemma word_offset_greater:
  assumes "(f :: 64 word) < g" and "k < f \<or> g \<le> k"
  shows "g - f \<le> k - f"
  using assms unat_bound64 [of k] unat_bound64 [of f] unat_bound64 [of g]
  by (auto simp: word_le_nat_alt word_less_nat_alt unat_sub_if_size word_size)

lemma word_offset_smaller:
  assumes "(g :: 64 word) \<le> k" and "k < f"
  shows "g - f \<le> k - f"
  using assms unat_bound64 [of k] unat_bound64 [of f] unat_bound64 [of g]
  by (auto simp: word_le_nat_alt word_less_nat_alt unat_sub_if_size word_size)

lemma window_next:
  assumes "window_ok (Some f) lst ks" and "lst + 1 \<noteq> f"
  shows "lst + 1 \<notin> set ks" and "window_ok (Some f) (lst + 1) (insort (lst + 1) ks)"
proof -
  have w: "sorted ks" "distinct ks" "f \<in> set ks" "\<forall>k\<in>set ks. k - f \<le> lst - f" using assms(1) by (simp_all add: window_ok_def)
  have "(lst - f) + 1 \<noteq> 0" using assms(2) by (simp add: algebra_simps)
  from word_less_next [OF this] have less: "lst - f < (lst + 1) - f" by (simp add: algebra_simps)
  then show new: "lst + 1 \<notin> set ks" using w(4) by fastforce
  have "\<forall>k\<in>set (insort (lst + 1) ks). k - f \<le> (lst + 1) - f" using w(4) less by (fastforce simp: set_insort_key)
  then show "window_ok (Some f) (lst + 1) (insort (lst + 1) ks)"
    using w new by (simp add: window_ok_def sorted_insort distinct_insort set_insort_key)
qed

lemma find_greater:
  "sorted ks \<Longrightarrow> List.find (\<lambda>j. f < j) ks = Some g \<Longrightarrow> g \<in> set ks \<and> f < g \<and> (\<forall>k\<in>set ks. f < k \<longrightarrow> g \<le> k)" for f :: "'a :: linorder"
  by (induction ks) (auto split: if_splits)

lemma window_delete:
  assumes w: "window_ok (Some f) lst ks" and ne: "filter (\<lambda>j. j \<noteq> c) ks \<noteq> []"
  shows "window_ok (Some (if f = c then (case List.find (\<lambda>j. c < j) ks of None \<Rightarrow> hd (filter (\<lambda>j. j \<noteq> c) ks) | Some j \<Rightarrow> j) else f))
    lst (filter (\<lambda>j. j \<noteq> c) ks)"
proof -
  let ?ks = "filter (\<lambda>j. j \<noteq> c) ks"
  have ks: "sorted ks" "distinct ks" "f \<in> set ks" "\<forall>k\<in>set ks. k - f \<le> lst - f" using w by (simp_all add: window_ok_def)
  then have s: "sorted ?ks" "distinct ?ks" using sorted_filter [of "\<lambda>x. x" ks] by simp_all
  show ?thesis
  proof (cases "f = c")
    case True
    define g where "g = (case List.find (\<lambda>j. f < j) ks of None \<Rightarrow> hd ?ks | Some j \<Rightarrow> j)"
    have g: "g \<in> set ?ks \<and> (\<forall>k\<in>set ?ks. g - f \<le> k - f)"
    proof (cases "List.find (\<lambda>j. f < j) ks")
      case None
      then have "\<forall>k\<in>set ?ks. k < f" using True by (fastforce simp: find_None_iff)
      moreover have "\<forall>k\<in>set ?ks. hd ?ks \<le> k" using s(1) ne by (cases ?ks) auto
      ultimately show ?thesis using None hd_in_set [OF ne] word_offset_smaller by (simp add: g_def)
    next
      case (Some j)
      from find_greater [OF ks(1) this] have j: "j \<in> set ks" "f < j" "\<forall>k\<in>set ks. f < k \<longrightarrow> j \<le> k" by blast+
      have "j - f \<le> k - f" if "k \<in> set ?ks" for k
        by (rule word_offset_greater [OF j(2)]) (use that j(3) True in fastforce)
      with j Some True show ?thesis by (auto simp: g_def)
    qed
    have "k - g \<le> lst - g" if "k \<in> set ?ks" for k
    proof -
      have "(k - f) - (g - f) \<le> (lst - f) - (g - f)" by (rule word_offset_mono) (use g ks(4) that in auto)
      then show ?thesis by simp
    qed
    with g s True show ?thesis by (simp add: window_ok_def g_def)
  next
    case False
    with ks s show ?thesis by (simp add: window_ok_def)
  qed
qed

subsection \<open>Fragments and network packets\<close>

text \<open>
  \<open>N\<close> is the network packet of every fragment in use, \<open>L\<close> the fragments listed in every network
  packet, \<open>P\<close> whether a network packet can be reported when it is given up.
\<close>

definition links_ok :: "(64 word \<Rightarrow> nat option) \<Rightarrow> (nat \<Rightarrow> 64 word list option) \<Rightarrow> (nat \<Rightarrow> bool) \<Rightarrow> nat \<Rightarrow> bool" where
  "links_ok N L P nxt \<longleftrightarrow> (\<forall>k i. N k = Some i \<longrightarrow> i < nxt \<and> P i \<and> (\<exists>ks. L i = Some ks \<and> distinct ks \<and> set ks = {j. N j = Some i}))"

definition frag_of :: "'h reliability \<Rightarrow> 64 word \<Rightarrow> nat option" where
  "frag_of r k = map_option uf_netPkt (map_of (m_unackedFrags r) k)"

definition list_of :: "'h reliability \<Rightarrow> nat \<Rightarrow> 64 word list option" where
  "list_of r i = map_option np_unackedFrags (netPkts r i)"

definition reportable :: "'h reliability \<Rightarrow> nat \<Rightarrow> bool" where
  "reportable r i \<longleftrightarrow> (\<forall>np. netPkts r i = Some np \<longrightarrow> np_isInterest np \<longrightarrow> FragmentField (np_pkt np) \<noteq> None)"

definition lr_ok :: "'h reliability \<Rightarrow> bool" where
  "lr_ok r \<longleftrightarrow> window_ok (m_firstUnackedFrag r) (m_lastTxSeqNo r) (map fst (m_unackedFrags r)) \<and>
     links_ok (frag_of r) (list_of r) (reportable r) (netPkt_next r)"

lemma links_okD:
  assumes "links_ok N L P nxt" and "N k = Some i"
  obtains ks where "i < nxt" and "P i" and "L i = Some ks" and "distinct ks" and "set ks = {j. N j = Some i}"
  using assms unfolding links_ok_def by blast

text \<open>Changing the list of one network packet together with its fragments.\<close>

lemma links_ok_change:
  assumes "links_ok N L P nxt" and "\<And>k j. j \<noteq> i \<Longrightarrow> N' k = Some j \<longleftrightarrow> N k = Some j"
    and "L' = L(i \<mapsto> ks)" and "P' = P" and "nxt' = nxt" and "i < nxt" and "P i" and "distinct ks" and "set ks = {j. N' j = Some i}"
  shows "links_ok N' L' P' nxt'"
  unfolding links_ok_def
proof (intro allI impI)
  fix k j assume k: "N' k = Some j"
  show "j < nxt' \<and> P' j \<and> (\<exists>ks. L' j = Some ks \<and> distinct ks \<and> set ks = {k. N' k = Some j})"
  proof (cases "j = i")
    case True
    then show ?thesis using assms(3-9) by simp
  next
    case False
    with k assms(2) have "N k = Some j" by simp
    then obtain ls where "j < nxt" "P j" "L j = Some ls" "distinct ls" "set ls = {k. N k = Some j}" by (rule links_okD [OF assms(1)])
    then show ?thesis using False assms(2-5) by simp
  qed
qed

lemma links_ok_forget:
  assumes "links_ok N L P nxt" and "\<And>k. N' k \<noteq> Some i" and "\<And>k j. j \<noteq> i \<Longrightarrow> N' k = Some j \<longleftrightarrow> N k = Some j"
  shows "links_ok N' L P nxt"
  unfolding links_ok_def
proof (intro allI impI)
  fix k j assume k: "N' k = Some j"
  then have j: "j \<noteq> i" using assms(2) by blast
  with k assms(3) have "N k = Some j" by simp
  then obtain ls where "j < nxt" "P j" "L j = Some ls" "distinct ls" "set ls = {k. N k = Some j}" by (rule links_okD [OF assms(1)])
  then show "j < nxt \<and> P j \<and> (\<exists>ks. L j = Some ks \<and> distinct ks \<and> set ks = {k. N' k = Some j})" using j assms(3) by simp
qed

lemma replace_one:
  "distinct ks \<Longrightarrow> s \<in> set ks \<Longrightarrow> t \<notin> set ks - {s} \<Longrightarrow>
   distinct (update_first (\<lambda>j. j = s) (\<lambda>_. t) ks) \<and> set (update_first (\<lambda>j. j = s) (\<lambda>_. t) ks) = insert t (set ks - {s})"
  by (induction ks) auto

lemma update_first_append:
  "s \<in> set ys \<Longrightarrow> update_first (\<lambda>j. j = s) g (ys @ zs) = update_first (\<lambda>j. j = s) g ys @ zs"
  "s \<notin> set ys \<Longrightarrow> update_first (\<lambda>j. j = s) g (ys @ zs) = ys @ update_first (\<lambda>j. j = s) g zs"
  by (induction ys) auto

lemma swap_with_last:
  assumes "distinct ks" and "s \<in> set ks"
  shows "distinct (butlast (update_first (\<lambda>j. j = s) (\<lambda>_. last ks) ks)) \<and>
    set (butlast (update_first (\<lambda>j. j = s) (\<lambda>_. last ks) ks)) = set ks - {s}"
proof -
  obtain ys z where ks: "ks = ys @ [z]" using assms(2) by (cases ks rule: rev_cases) auto
  show ?thesis
  proof (cases "s \<in> set ys")
    case True
    then have "z \<notin> set ys - {s}" "z \<noteq> s" using assms(1) ks by auto
    with True replace_one [of ys s z] assms(1) show ?thesis by (auto simp: ks update_first_append)
  next
    case False
    then show ?thesis using assms by (auto simp: ks update_first_append)
  qed
qed

lemma deleteUnackedFrag_ok:
  assumes "window_ok (m_firstUnackedFrag r) (m_lastTxSeqNo r) (map fst (m_unackedFrags r))" and "map_of (m_unackedFrags r) c \<noteq> None"
  obtains frags first where "deleteUnackedFrag c r = Some (r\<lparr>m_unackedFrags := frags, m_firstUnackedFrag := first\<rparr>)"
    and "map_of frags = (map_of (m_unackedFrags r))(c := None)" and "window_ok first (m_lastTxSeqNo r) (map fst frags)"
proof -
  let ?m = "m_unackedFrags r" and ?frags = "filter (\<lambda>(j, _). j \<noteq> c) (m_unackedFrags r)"
  have c: "c \<in> fst ` set ?m" using assms(2) by (simp add: keys_map_of)
  then obtain f where f: "m_firstUnackedFrag r = Some f" using assms(1) by (cases "m_firstUnackedFrag r") (auto simp: window_ok_def)
  define first where "first = (if ?frags = [] then None
    else if f = c then Some (case List.find (\<lambda>j. c < j) (map fst ?m) of None \<Rightarrow> fst (hd ?frags) | Some j \<Rightarrow> j) else Some f)"
  have "deleteUnackedFrag c r = Some (r\<lparr>m_unackedFrags := ?frags, m_firstUnackedFrag := first\<rparr>)"
    using f c by (simp add: deleteUnackedFrag_def first_def Let_def)
  moreover have "window_ok first (m_lastTxSeqNo r) (map fst ?frags)"
  proof (cases "?frags = []")
    case True
    then show ?thesis by (simp add: window_ok_def first_def)
  next
    case False
    then have ne: "filter (\<lambda>j. j \<noteq> c) (map fst ?m) \<noteq> []" unfolding uf_erase_keys [symmetric] by simp
    have "fst (hd ?frags) = hd (filter (\<lambda>j. j \<noteq> c) (map fst ?m))"
      unfolding uf_erase_keys [symmetric] by (rule hd_map [OF False, symmetric])
    then have "first = Some (if f = c then (case List.find (\<lambda>j. c < j) (map fst ?m) of
        None \<Rightarrow> hd (filter (\<lambda>j. j \<noteq> c) (map fst ?m)) | Some j \<Rightarrow> j) else f)"
      unfolding first_def if_not_P [OF False] by (cases "f = c") (simp_all only: if_True if_False simp_thms)
    then show ?thesis unfolding uf_erase_keys using window_delete [OF assms(1) [unfolded f] ne] by (simp only:)
  qed
  ultimately show ?thesis by (rule that [OF _ uf_erase_map_of])
qed

lemma delete_all_ok:
  assumes "window_ok (m_firstUnackedFrag r) (m_lastTxSeqNo r) (map fst (m_unackedFrags r))"
    and "distinct ss" and "\<forall>s\<in>set ss. map_of (m_unackedFrags r) s \<noteq> None"
  shows "\<exists>frags first. delete_all ss r = Some (r\<lparr>m_unackedFrags := frags, m_firstUnackedFrag := first\<rparr>) \<and>
    map_of frags = (\<lambda>k. if k \<in> set ss then None else map_of (m_unackedFrags r) k) \<and> window_ok first (m_lastTxSeqNo r) (map fst frags)"
  using assms
proof (induction ss arbitrary: r)
  case Nil
  then show ?case by (intro exI [of _ "m_unackedFrags r"] exI [of _ "m_firstUnackedFrag r"]) simp
next
  case (Cons s ss)
  obtain frags first where d: "deleteUnackedFrag s r = Some (r\<lparr>m_unackedFrags := frags, m_firstUnackedFrag := first\<rparr>)"
    "map_of frags = (map_of (m_unackedFrags r))(s := None)" "window_ok first (m_lastTxSeqNo r) (map fst frags)"
    by (rule deleteUnackedFrag_ok [OF Cons.prems(1), of s]) (use Cons.prems(3) in simp)
  let ?r = "r\<lparr>m_unackedFrags := frags, m_firstUnackedFrag := first\<rparr>"
  have w: "window_ok (m_firstUnackedFrag ?r) (m_lastTxSeqNo ?r) (map fst (m_unackedFrags ?r))" using d(3) by simp
  have k: "\<forall>t\<in>set ss. map_of (m_unackedFrags ?r) t \<noteq> None" using Cons.prems(2,3) by (auto simp: d(2))
  have dis: "distinct ss" using Cons.prems(2) by simp
  obtain frags' first' where "delete_all ss ?r = Some (?r\<lparr>m_unackedFrags := frags', m_firstUnackedFrag := first'\<rparr>)"
    "map_of frags' = (\<lambda>k. if k \<in> set ss then None else map_of (m_unackedFrags ?r) k)" "window_ok first' (m_lastTxSeqNo ?r) (map fst frags')"
    using Cons.IH [OF w dis k] by (elim exE conjE) (rule that)
  then show ?case using d(1,2) by (intro exI [of _ frags'] exI [of _ first']) (simp add: fun_eq_iff)
qed

lemma lr_okD:
  assumes "lr_ok r"
  shows "window_ok (m_firstUnackedFrag r) (m_lastTxSeqNo r) (map fst (m_unackedFrags r))"
    and "links_ok (frag_of r) (list_of r) (reportable r) (netPkt_next r)"
  using assms by (simp_all add: lr_ok_def)

lemma lr_ok_cong:
  assumes "m_firstUnackedFrag r' = m_firstUnackedFrag r" and "m_lastTxSeqNo r' = m_lastTxSeqNo r" and "map fst (m_unackedFrags r') = map fst (m_unackedFrags r)"
    and "frag_of r' = frag_of r" and "netPkts r' = netPkts r" and "netPkt_next r' = netPkt_next r"
  shows "lr_ok r' = lr_ok r"
proof -
  have "list_of r' = list_of r" "reportable r' = reportable r" using assms(5) by (simp_all add: list_of_def reportable_def fun_eq_iff)
  then show ?thesis using assms by (simp add: lr_ok_def)
qed

text \<open>The network packet of a fragment in use.\<close>

lemma netPkt_of_frag:
  assumes "lr_ok r" and "map_of (m_unackedFrags r) s = Some frag"
  obtains np where "netPkts r (uf_netPkt frag) = Some np" and "distinct (np_unackedFrags np)"
    and "set (np_unackedFrags np) = {j. frag_of r j = Some (uf_netPkt frag)}" and "s \<in> set (np_unackedFrags np)"
    and "uf_netPkt frag < netPkt_next r" and "reportable r (uf_netPkt frag)"
proof -
  have s: "frag_of r s = Some (uf_netPkt frag)" using assms(2) by (simp add: frag_of_def)
  obtain ks where ks: "uf_netPkt frag < netPkt_next r" "reportable r (uf_netPkt frag)" "list_of r (uf_netPkt frag) = Some ks"
    "distinct ks" "set ks = {j. frag_of r j = Some (uf_netPkt frag)}"
    by (rule links_okD [OF lr_okD(2) [OF assms(1)] s])
  then obtain np where "netPkts r (uf_netPkt frag) = Some np" "np_unackedFrags np = ks" by (auto simp: list_of_def)
  with that [of np] ks s show ?thesis by simp
qed

lemma onLpPacketAcknowledged_ok:
  assumes ok: "lr_ok r" and s: "map_of (m_unackedFrags r) s = Some frag"
  shows "\<exists>r'. onLpPacketAcknowledged s r = Some r' \<and> lr_ok r' \<and> map_of (m_unackedFrags r') = (map_of (m_unackedFrags r))(s := None)"
proof -
  let ?i = "uf_netPkt frag"
  obtain np where np: "netPkts r ?i = Some np" "distinct (np_unackedFrags np)"
    "set (np_unackedFrags np) = {j. frag_of r j = Some ?i}" "s \<in> set (np_unackedFrags np)" "?i < netPkt_next r" "reportable r ?i"
    by (rule netPkt_of_frag [OF ok s])
  define left where "left = butlast (update_first (\<lambda>j. j = s) (\<lambda>_. last (np_unackedFrags np)) (np_unackedFrags np))"
  have left: "distinct left" "set left = set (np_unackedFrags np) - {s}" using swap_with_last [OF np(2,4)] by (simp_all add: left_def)
  define r1 where "r1 = put_netPkt ?i (np\<lparr>np_unackedFrags := left\<rparr>) r"
  define r2 where "r2 = (if left = [] then
      if np_didRetx np then r1\<lparr>nRetransmitted := nRetransmitted r1 + 1\<rparr> else r1\<lparr>nAcknowledged := nAcknowledged r1 + 1\<rparr> else r1)"
  have r2: "m_firstUnackedFrag r2 = m_firstUnackedFrag r" "m_lastTxSeqNo r2 = m_lastTxSeqNo r" "m_unackedFrags r2 = m_unackedFrags r"
    "netPkts r2 = (netPkts r)(?i \<mapsto> np\<lparr>np_unackedFrags := left\<rparr>)" "netPkt_next r2 = netPkt_next r"
    by (simp_all add: r2_def r1_def put_netPkt_def)
  have w: "window_ok (m_firstUnackedFrag r2) (m_lastTxSeqNo r2) (map fst (m_unackedFrags r2))" using lr_okD(1) [OF ok] by (simp add: r2)
  obtain frags first where d: "deleteUnackedFrag s r2 = Some (r2\<lparr>m_unackedFrags := frags, m_firstUnackedFrag := first\<rparr>)"
    "map_of frags = (map_of (m_unackedFrags r2))(s := None)" "window_ok first (m_lastTxSeqNo r2) (map fst frags)"
    by (rule deleteUnackedFrag_ok [OF w, of s]) (use s in \<open>simp add: r2\<close>)
  define r' where "r' = r2\<lparr>m_unackedFrags := frags, m_firstUnackedFrag := first\<rparr>"
  have run: "onLpPacketAcknowledged s r = Some r'"
    using s np(1,4) d(1) unfolding r'_def r2_def r1_def left_def by (simp add: onLpPacketAcknowledged_def Let_def)
  have N: "frag_of r' = (frag_of r)(s := None)" by (rule ext) (simp add: frag_of_def r'_def d(2) r2)
  have L: "list_of r' = (list_of r)(?i \<mapsto> left)" by (rule ext) (simp add: list_of_def r'_def r2)
  have P: "reportable r' = reportable r" using np(1) by (auto simp: reportable_def r'_def r2 fun_eq_iff)
  have nxt: "netPkt_next r' = netPkt_next r" by (simp add: r'_def r2)
  have i: "frag_of r s = Some ?i" using s by (simp add: frag_of_def)
  have "links_ok (frag_of r') (list_of r') (reportable r') (netPkt_next r')"
    by (rule links_ok_change [OF lr_okD(2) [OF ok] _ L P nxt np(5,6) left(1)]) (use i in \<open>auto simp: N left(2) np(3)\<close>)
  then have "lr_ok r'" using d(3) by (simp add: lr_ok_def r'_def)
  with run show ?thesis using d(2) by (simp add: r'_def r2)
qed

text \<open>Giving up a network packet removes exactly its fragments.\<close>

lemma lost_exhausted:
  assumes ok: "lr_ok r" and s: "map_of (m_unackedFrags r) s = Some frag" and m: "ro_maxRetx (lr_options r) \<le> uf_retxCount frag"
  shows "\<exists>removed r'. onLpPacketLost env now s r = Some (removed, r') \<and> lr_ok r' \<and>
    map_of (m_unackedFrags r') = (\<lambda>k. if frag_of r k = Some (uf_netPkt frag) then None else map_of (m_unackedFrags r) k)"
proof -
  let ?i = "uf_netPkt frag"
  obtain np where np: "netPkts r ?i = Some np" "distinct (np_unackedFrags np)"
    "set (np_unackedFrags np) = {j. frag_of r j = Some ?i}" "s \<in> set (np_unackedFrags np)" "?i < netPkt_next r" "reportable r ?i"
    by (rule netPkt_of_frag [OF ok s])
  define others where "others = filter (\<lambda>j. j \<noteq> s) (np_unackedFrags np)"
  have o: "distinct others" "\<forall>t\<in>set others. map_of (m_unackedFrags r) t \<noteq> None"
    using np(2,3) by (auto simp: others_def frag_of_def)
  obtain frags1 first1 where d1: "delete_all others r = Some (r\<lparr>m_unackedFrags := frags1, m_firstUnackedFrag := first1\<rparr>)"
    "map_of frags1 = (\<lambda>k. if k \<in> set others then None else map_of (m_unackedFrags r) k)" "window_ok first1 (m_lastTxSeqNo r) (map fst frags1)"
    using delete_all_ok [OF lr_okD(1) [OF ok] o] by (elim exE conjE) (rule that)
  define r1 where "r1 = r\<lparr>m_unackedFrags := frags1, m_firstUnackedFrag := first1, nRetxExhausted := nRetxExhausted r + 1\<rparr>"
  define r2 where "r2 = (if np_isInterest np then r1\<lparr>lr_dropped := lr_dropped r1 @ [np_pkt np]\<rparr> else r1)"
  have r2: "m_firstUnackedFrag r2 = first1" "m_lastTxSeqNo r2 = m_lastTxSeqNo r" "m_unackedFrags r2 = frags1" "netPkts r2 = netPkts r"
    "netPkt_next r2 = netPkt_next r" by (simp_all add: r2_def r1_def)
  have w: "window_ok (m_firstUnackedFrag r2) (m_lastTxSeqNo r2) (map fst (m_unackedFrags r2))" using d1(3) by (simp add: r2)
  obtain frags first where d: "deleteUnackedFrag s r2 = Some (r2\<lparr>m_unackedFrags := frags, m_firstUnackedFrag := first\<rparr>)"
    "map_of frags = (map_of (m_unackedFrags r2))(s := None)" "window_ok first (m_lastTxSeqNo r2) (map fst frags)"
    by (rule deleteUnackedFrag_ok [OF w, of s]) (use s in \<open>simp add: r2 d1(2) others_def\<close>)
  define r' where "r' = r2\<lparr>m_unackedFrags := frags, m_firstUnackedFrag := first\<rparr>"
  have rep: "np_isInterest np \<Longrightarrow> FragmentField (np_pkt np) \<noteq> None" using np(1,6) by (simp add: reportable_def)
  have "onLpPacketLost env now s r = Some (others @ [s], r')"
    using s np(1) m d1(1) rep d(1) unfolding r'_def r2_def r1_def others_def
    by (cases "np_isInterest np") (simp_all add: onLpPacketLost_def Let_def)
  moreover have mp: "map_of (m_unackedFrags r') = (\<lambda>k. if frag_of r k = Some ?i then None else map_of (m_unackedFrags r) k)"
    using np(3,4) by (auto simp: r'_def d(2) r2 d1(2) others_def fun_eq_iff)
  moreover have "lr_ok r'"
  proof -
    have N: "frag_of r' k = (if frag_of r k = Some ?i then None else frag_of r k)" for k
      unfolding frag_of_def [of r'] mp by (auto simp: frag_of_def)
    have f: "list_of r' = list_of r" "reportable r' = reportable r" "netPkt_next r' = netPkt_next r"
      by (simp_all add: list_of_def reportable_def r'_def r2 fun_eq_iff)
    have "links_ok (frag_of r') (list_of r') (reportable r') (netPkt_next r')"
      unfolding f by (rule links_ok_forget [OF lr_okD(2) [OF ok], of _ ?i]) (auto simp: N)
    then show ?thesis using d(3) by (simp add: lr_ok_def r'_def)
  qed
  ultimately show ?thesis by blast
qed

lemma send_piggybacked_keeps:
  assumes "send_piggybacked env p r = Some r'"
  shows "lr_ok r' = lr_ok r" and "m_unackedFrags r' = m_unackedFrags r" and "m_rto r' = m_rto r" and "m_lastTxSeqNo r' = m_lastTxSeqNo r"
proof -
  obtain p' r0 where r0: "(if ro_isEnabled (lr_options r) then piggyback env p r else Some (p, r)) = Some (p', r0)"
    and r': "r' = r0\<lparr>nOutOverMtu := nOutOverMtu r0 + 1\<rparr> \<or> r' = r0\<lparr>lr_sent := lr_sent r0 @ [p']\<rparr>"
    using assms unfolding send_piggybacked_def bind_eq_Some_conv by (auto split: if_splits)
  obtain acks where "r0 = r\<lparr>m_ackQueue := acks\<rparr> \<or> r0 = r"
    using r0 by (auto simp: piggyback_def bind_eq_Some_conv Let_def split: if_splits prod.splits)
  with r' have f: "m_firstUnackedFrag r' = m_firstUnackedFrag r" "m_unackedFrags r' = m_unackedFrags r" "m_rto r' = m_rto r"
    "m_lastTxSeqNo r' = m_lastTxSeqNo r" "netPkts r' = netPkts r" "netPkt_next r' = netPkt_next r" by auto
  then show "m_unackedFrags r' = m_unackedFrags r" "m_rto r' = m_rto r" "m_lastTxSeqNo r' = m_lastTxSeqNo r" by simp_all
  show "lr_ok r' = lr_ok r" by (rule lr_ok_cong) (simp_all add: f frag_of_def fun_eq_iff)
qed

lemma send_piggybacked_returns: "re_isLpPacket env p \<Longrightarrow> send_piggybacked env p r \<noteq> None"
  by (simp add: send_piggybacked_def piggyback_def Let_def split: prod.split)

text \<open>A sequence number that can be assigned is new and extends the window.\<close>

lemma assignTxSequence_ok:
  assumes w: "window_ok (m_firstUnackedFrag r) (m_lastTxSeqNo r) (map fst (m_unackedFrags r))"
    and room: "m_firstUnackedFrag r \<noteq> Some (m_lastTxSeqNo r + 1)"
  shows "assignTxSequence pkt r = Some (pkt\<lparr>TxSequenceField := Some (m_lastTxSeqNo r + 1)\<rparr>, m_lastTxSeqNo r + 1, r\<lparr>m_lastTxSeqNo := m_lastTxSeqNo r + 1\<rparr>)"
    and "m_lastTxSeqNo r + 1 \<notin> fst ` set (m_unackedFrags r)"
    and "window_ok (if m_unackedFrags r = [] then Some (m_lastTxSeqNo r + 1) else m_firstUnackedFrag r) (m_lastTxSeqNo r + 1)
      (insort (m_lastTxSeqNo r + 1) (map fst (m_unackedFrags r)))"
proof -
  show "assignTxSequence pkt r = Some (pkt\<lparr>TxSequenceField := Some (m_lastTxSeqNo r + 1)\<rparr>, m_lastTxSeqNo r + 1, r\<lparr>m_lastTxSeqNo := m_lastTxSeqNo r + 1\<rparr>)"
    using w room by (cases "m_firstUnackedFrag r") (auto simp: assignTxSequence_def window_ok_def Let_def)
  have "m_lastTxSeqNo r + 1 \<notin> set (map fst (m_unackedFrags r)) \<and>
    window_ok (if m_unackedFrags r = [] then Some (m_lastTxSeqNo r + 1) else m_firstUnackedFrag r) (m_lastTxSeqNo r + 1)
      (insort (m_lastTxSeqNo r + 1) (map fst (m_unackedFrags r)))"
  proof (cases "m_firstUnackedFrag r")
    case None
    then show ?thesis using w by (simp add: window_ok_def)
  next
    case (Some f)
    then have "m_unackedFrags r \<noteq> []" "m_lastTxSeqNo r + 1 \<noteq> f" using w room by (auto simp: window_ok_def)
    with window_next [OF w [unfolded Some]] Some show ?thesis by simp
  qed
  then show "m_lastTxSeqNo r + 1 \<notin> fst ` set (m_unackedFrags r)"
    "window_ok (if m_unackedFrags r = [] then Some (m_lastTxSeqNo r + 1) else m_firstUnackedFrag r) (m_lastTxSeqNo r + 1)
      (insort (m_lastTxSeqNo r + 1) (map fst (m_unackedFrags r)))" by simp_all
qed

lemma assignTxSequence_exhausted:
  assumes "window_ok (m_firstUnackedFrag r) (m_lastTxSeqNo r) (map fst (m_unackedFrags r))" and "m_firstUnackedFrag r = Some (m_lastTxSeqNo r + 1)"
  shows "assignTxSequence pkt r = None"
  using assms by (auto simp: assignTxSequence_def window_ok_def Let_def)

text \<open>Sending a fragment again moves it to a new sequence number.\<close>

lemma lost_resent:
  assumes ok: "lr_ok r" and s: "map_of (m_unackedFrags r) s = Some frag" and m: "uf_retxCount frag < ro_maxRetx (lr_options r)"
    and room: "m_firstUnackedFrag r \<noteq> Some (m_lastTxSeqNo r + 1)"
  shows "\<exists>r1 new. lr_ok r1 \<and> map_of (m_unackedFrags r1) = (map_of (m_unackedFrags r))(s := None, m_lastTxSeqNo r + 1 \<mapsto> new) \<and> m_rto r1 = m_rto r \<and>
    TxSequenceField (uf_pkt new) = Some (m_lastTxSeqNo r + 1) \<and> frag_of r1 = (frag_of r)(s := None, m_lastTxSeqNo r + 1 \<mapsto> uf_netPkt frag) \<and>
    onLpPacketLost env now s r = do {
      r2 \<leftarrow> send_piggybacked env (uf_pkt new) r1;
      rto \<leftarrow> computeRto (m_rto r2);
      Some ([s], r2\<lparr>m_unackedFrags := uf_modify (m_lastTxSeqNo r + 1) (\<lambda>f. f\<lparr>uf_rtoTimer := Some (now + rto * 1000)\<rparr>) (m_unackedFrags r2)\<rparr>)
    }"
proof -
  let ?i = "uf_netPkt frag" and ?t = "m_lastTxSeqNo r + 1"
  note a = assignTxSequence_ok [OF lr_okD(1) [OF ok] room]
  obtain np where np: "netPkts r ?i = Some np" "distinct (np_unackedFrags np)"
    "set (np_unackedFrags np) = {j. frag_of r j = Some ?i}" "s \<in> set (np_unackedFrags np)" "?i < netPkt_next r" "reportable r ?i"
    by (rule netPkt_of_frag [OF ok s])
  define new where "new = (UnackedFrag_new now ((uf_pkt frag)\<lparr>TxSequenceField := Some ?t\<rparr>))\<lparr>uf_retxCount := uf_retxCount frag + 1, uf_netPkt := ?i\<rparr>"
  define frags0 where "frags0 = uf_modify ?t (\<lambda>f. f\<lparr>uf_retxCount := uf_retxCount frag + 1, uf_netPkt := ?i\<rparr>)
    (uf_emplace ?t (UnackedFrag_new now ((uf_pkt frag)\<lparr>TxSequenceField := Some ?t\<rparr>)) (m_unackedFrags r))"
  have f0: "map_of frags0 = (map_of (m_unackedFrags r))(?t \<mapsto> new)" "map fst frags0 = insort ?t (map fst (m_unackedFrags r))"
    by (simp_all add: frags0_def uf_modify_map_of uf_emplace_map_of [OF a(2)] uf_emplace_keys [OF a(2)] new_def)
  define ks where "ks = update_first (\<lambda>j. j = s) (\<lambda>_. ?t) (np_unackedFrags np)"
  have tnew: "map_of (m_unackedFrags r) ?t = None" using a(2) by (simp add: map_of_eq_None_iff)
  then have "?t \<notin> set (np_unackedFrags np)" by (simp add: np(3) frag_of_def)
  then have ks: "distinct ks" "set ks = insert ?t (set (np_unackedFrags np) - {s})" using replace_one [OF np(2,4), of ?t] by (simp_all add: ks_def)
  define r0 where "r0 = put_netPkt ?i (np\<lparr>np_didRetx := True, np_unackedFrags := ks\<rparr>) (r\<lparr>m_lastTxSeqNo := ?t, m_unackedFrags := frags0\<rparr>)"
  have r0: "m_firstUnackedFrag r0 = m_firstUnackedFrag r" "m_lastTxSeqNo r0 = ?t" "m_unackedFrags r0 = frags0" "m_rto r0 = m_rto r"
    "netPkts r0 = (netPkts r)(?i \<mapsto> np\<lparr>np_didRetx := True, np_unackedFrags := ks\<rparr>)" "netPkt_next r0 = netPkt_next r"
    by (simp_all add: r0_def put_netPkt_def)
  have "m_unackedFrags r \<noteq> []" using s by auto
  then have w: "window_ok (m_firstUnackedFrag r0) (m_lastTxSeqNo r0) (map fst (m_unackedFrags r0))" using a(3) by (simp add: r0 f0)
  obtain frags first where d: "deleteUnackedFrag s r0 = Some (r0\<lparr>m_unackedFrags := frags, m_firstUnackedFrag := first\<rparr>)"
    "map_of frags = (map_of (m_unackedFrags r0))(s := None)" "window_ok first (m_lastTxSeqNo r0) (map fst frags)"
    by (rule deleteUnackedFrag_ok [OF w, of s]) (use s in \<open>simp add: r0 f0\<close>)
  define r1 where "r1 = r0\<lparr>m_unackedFrags := frags, m_firstUnackedFrag := first\<rparr>"
  have st: "s \<noteq> ?t" using s tnew by auto
  then have mp: "map_of (m_unackedFrags r1) = (map_of (m_unackedFrags r))(s := None, ?t \<mapsto> new)"
    by (simp add: r1_def d(2) r0 f0 fun_upd_twist)
  have nw: "map_of (m_unackedFrags r1) ?t = Some new" by (simp add: mp)
  have N: "frag_of r1 = (frag_of r)(s := None, ?t \<mapsto> ?i)" by (rule ext) (simp add: frag_of_def mp new_def)
  have L: "list_of r1 = (list_of r)(?i \<mapsto> ks)" by (rule ext) (simp add: list_of_def r1_def r0)
  have P: "reportable r1 = reportable r" using np(1) by (auto simp: reportable_def r1_def r0 fun_eq_iff)
  have nxt: "netPkt_next r1 = netPkt_next r" by (simp add: r1_def r0)
  have i: "frag_of r s = Some ?i" "frag_of r ?t = None" using s tnew by (simp_all add: frag_of_def)
  have "links_ok (frag_of r1) (list_of r1) (reportable r1) (netPkt_next r1)"
    by (rule links_ok_change [OF lr_okD(2) [OF ok] _ L P nxt np(5,6) ks(1)]) (use i st in \<open>auto simp: N ks(2) np(3)\<close>)
  then have "lr_ok r1" using d(3) by (simp add: lr_ok_def r1_def)
  moreover have "onLpPacketLost env now s r = do {
      r2 \<leftarrow> send_piggybacked env (uf_pkt new) r1;
      rto \<leftarrow> computeRto (m_rto r2);
      Some ([s], r2\<lparr>m_unackedFrags := uf_modify ?t (\<lambda>f. f\<lparr>uf_rtoTimer := Some (now + rto * 1000)\<rparr>) (m_unackedFrags r2)\<rparr>)
    }"
    using s np(1,4) m a(1) d(1) nw unfolding r1_def r0_def ks_def frags0_def by (simp add: onLpPacketLost_def Let_def)
  moreover have "m_rto r1 = m_rto r" "TxSequenceField (uf_pkt new) = Some ?t"
    by (simp_all add: r1_def r0 new_def UnackedFrag_new_def)
  ultimately show ?thesis using mp N by (intro exI conjI)
qed

lemma lr_ok_frags:
  assumes "map fst frags = map fst (m_unackedFrags r)" and "\<And>k. map_option uf_netPkt (map_of frags k) = frag_of r k"
  shows "lr_ok (r\<lparr>m_unackedFrags := frags\<rparr>) = lr_ok r"
  by (rule lr_ok_cong) (simp_all add: assms frag_of_def [of "r\<lparr>m_unackedFrags := frags\<rparr>"] fun_eq_iff)

lemma lr_ok_modify:
  assumes "\<And>f. uf_netPkt (g f) = uf_netPkt f"
  shows "lr_ok (r\<lparr>m_unackedFrags := uf_modify k g (m_unackedFrags r)\<rparr>) = lr_ok r"
  by (rule lr_ok_frags) (auto simp: uf_modify_map_of frag_of_def option.map_comp comp_def assms)

lemma onLpPacketLost_keeps:
  assumes ok: "lr_ok r" and run: "onLpPacketLost env now s r = Some (removed, r')"
  shows "lr_ok r'"
proof -
  obtain frag where s: "map_of (m_unackedFrags r) s = Some frag" using run by (auto simp: onLpPacketLost_def bind_eq_Some_conv)
  show ?thesis
  proof (cases "ro_maxRetx (lr_options r) \<le> uf_retxCount frag")
    case True
    from lost_exhausted [OF ok s True, of env now] run show ?thesis by auto
  next
    case False
    then have m: "uf_retxCount frag < ro_maxRetx (lr_options r)" by simp
    have room: "m_firstUnackedFrag r \<noteq> Some (m_lastTxSeqNo r + 1)"
    proof
      assume "m_firstUnackedFrag r = Some (m_lastTxSeqNo r + 1)"
      from assignTxSequence_exhausted [OF lr_okD(1) [OF ok] this] run s m show False
        by (auto simp: onLpPacketLost_def bind_eq_Some_conv)
    qed
    from lost_resent [OF ok s m room, of env now] obtain r1 new where r1: "lr_ok r1"
      "map_of (m_unackedFrags r1) = (map_of (m_unackedFrags r))(s := None, m_lastTxSeqNo r + 1 \<mapsto> new)"
      "onLpPacketLost env now s r = do {
        r2 \<leftarrow> send_piggybacked env (uf_pkt new) r1;
        rto \<leftarrow> computeRto (m_rto r2);
        Some ([s], r2\<lparr>m_unackedFrags := uf_modify (m_lastTxSeqNo r + 1) (\<lambda>f. f\<lparr>uf_rtoTimer := Some (now + rto * 1000)\<rparr>) (m_unackedFrags r2)\<rparr>)
      }" by (elim exE conjE) (rule that)
    obtain r2 rto where r2: "send_piggybacked env (uf_pkt new) r1 = Some r2"
      "r' = r2\<lparr>m_unackedFrags := uf_modify (m_lastTxSeqNo r + 1) (\<lambda>f. f\<lparr>uf_rtoTimer := Some (now + rto * 1000)\<rparr>) (m_unackedFrags r2)\<rparr>"
      using run unfolding r1(3) by (auto simp: bind_eq_Some_conv)
    then show ?thesis using r1(1) send_piggybacked_keeps(1) [OF r2(1)] by (simp add: lr_ok_modify)
  qed
qed

lemma resend_lost_keeps: "lr_ok r \<Longrightarrow> resend_lost env now ss removed r = Some r' \<Longrightarrow> lr_ok r'"
  by (induction ss arbitrary: removed r) (auto simp: bind_eq_Some_conv split: if_splits dest: onLpPacketLost_keeps)

lemma findLostLpPackets_keeps: "lr_ok (snd (findLostLpPackets ack r)) = lr_ok r"
proof -
  have *: "map fst (map (\<lambda>(j, f). (j, if j \<in> V then f\<lparr>uf_nGreaterSeqAcks := uf_nGreaterSeqAcks f + 1\<rparr> else f)) m) = map fst m"
    "map_option uf_netPkt (map_of (map (\<lambda>(j, f). (j, if j \<in> V then f\<lparr>uf_nGreaterSeqAcks := uf_nGreaterSeqAcks f + 1\<rparr> else f)) m) k) =
     map_option uf_netPkt (map_of m k)" for V k and m :: "(64 word \<times> 'a UnackedFrag) list"
    by (induction m) auto
  show ?thesis unfolding findLostLpPackets_def Let_def snd_conv by (rule lr_ok_frags) (simp_all only: * frag_of_def)
qed

lemma process_ack_keeps:
  assumes ok: "lr_ok r" and run: "process_ack env now a r = Some r'"
  shows "lr_ok r'"
proof (cases "map_of (m_unackedFrags r) a")
  case None
  with run ok show ?thesis by (simp add: process_ack_def)
next
  case (Some frag)
  define r1 where "r1 = r\<lparr>m_unackedFrags := uf_modify a (uf_rtoTimer_update (\<lambda>_. None)) (m_unackedFrags r)\<rparr>"
  define r2 where "r2 = (if uf_retxCount frag = 0 then r1\<lparr>m_rto := addMeasurement (cast_us (now - uf_sendTime frag)) (m_rto r1)\<rparr> else r1)"
  have "lr_ok r1" using ok by (simp add: r1_def lr_ok_modify)
  moreover have "lr_ok r2 = lr_ok r1" by (rule lr_ok_cong) (simp_all add: r2_def frag_of_def fun_eq_iff)
  ultimately have ok3: "lr_ok (snd (findLostLpPackets a r2))" by (simp add: findLostLpPackets_keeps)
  obtain r4 where r4: "onLpPacketAcknowledged a (snd (findLostLpPackets a r2)) = Some r4"
    "resend_lost env now (fst (findLostLpPackets a r2)) [] r4 = Some r'"
    unfolding r2_def r1_def using run Some by (auto simp: process_ack_def bind_eq_Some_conv case_prod_beta Let_def)
  obtain f3 where "map_of (m_unackedFrags (snd (findLostLpPackets a r2))) a = Some f3"
    using r4(1) by (auto simp: onLpPacketAcknowledged_def bind_eq_Some_conv)
  from onLpPacketAcknowledged_ok [OF ok3 this] r4 show ?thesis using resend_lost_keeps by auto
qed

lemma process_acks_keeps: "lr_ok r \<Longrightarrow> process_acks env now acks r = Some r' \<Longrightarrow> lr_ok r'"
  by (induction acks arbitrary: r) (auto simp: bind_eq_Some_conv dest: process_ack_keeps)

lemma processIncomingPacket_keeps:
  assumes "lr_ok r" and "processIncomingPacket env now pkt r = Some r'"
  shows "lr_ok r'"
proof -
  obtain r1 where r1: "process_acks env now (AckField pkt) r = Some r1"
    and r': "m_firstUnackedFrag r' = m_firstUnackedFrag r1" "m_lastTxSeqNo r' = m_lastTxSeqNo r1" "m_unackedFrags r' = m_unackedFrags r1"
      "netPkts r' = netPkts r1" "netPkt_next r' = netPkt_next r1"
    using assms(2) by (auto simp: processIncomingPacket_def startIdleAckTimer_def bind_eq_Some_conv Let_def split: option.splits if_splits)
  have "lr_ok r' = lr_ok r1" by (rule lr_ok_cong) (simp_all add: r' frag_of_def fun_eq_iff)
  with process_acks_keeps [OF assms(1) r1] show ?thesis by simp
qed

text \<open>The network packet whose fragments are being added.\<close>

definition owns_frags :: "'h reliability \<Rightarrow> nat \<Rightarrow> bool" where
  "owns_frags r i \<longleftrightarrow> i < netPkt_next r \<and> reportable r i \<and> (\<exists>ks. list_of r i = Some ks \<and> distinct ks \<and> set ks = {j. frag_of r j = Some i})"

lemma add_fragment_keeps:
  assumes ok: "lr_ok r" and own: "owns_frags r i" and run: "add_fragment now i frag r = Some (frag', r')"
  shows "lr_ok r'" and "owns_frags r' i" and "TxSequenceField frag' = Some (m_lastTxSeqNo r + 1)" and "m_lastTxSeqNo r' = m_lastTxSeqNo r + 1"
    and "frag_of r (m_lastTxSeqNo r + 1) = None" and "frag_of r' = (frag_of r)(m_lastTxSeqNo r + 1 \<mapsto> i)"
proof -
  let ?t = "m_lastTxSeqNo r + 1"
  note w = lr_okD(1) [OF ok]
  obtain x where x: "assignTxSequence frag r = Some x" using run by (auto simp: add_fragment_def bind_eq_Some_conv)
  have room: "m_firstUnackedFrag r \<noteq> Some ?t"
  proof
    assume "m_firstUnackedFrag r = Some ?t"
    from assignTxSequence_exhausted [OF w this, of frag] x show False by simp
  qed
  note a = assignTxSequence_ok [OF w room]
  obtain rto where rto: "computeRto (m_rto r) = Some rto"
    using run by (auto simp: add_fragment_def bind_eq_Some_conv a(1))
  define frags where "frags = uf_modify ?t (\<lambda>f. f\<lparr>uf_sendTime := now, uf_rtoTimer := Some (now + rto * 1000), uf_netPkt := i\<rparr>)
    (uf_emplace ?t (UnackedFrag_new now (frag\<lparr>TxSequenceField := Some ?t\<rparr>)) (m_unackedFrags r))"
  have keys: "map fst frags = insort ?t (map fst (m_unackedFrags r))" by (simp add: frags_def uf_emplace_keys [OF a(2)])
  have one: "length frags = 1 \<longleftrightarrow> m_unackedFrags r = []" using arg_cong [OF keys, of length] by simp
  have hd1: "fst (hd frags) = ?t" if "m_unackedFrags r = []" using keys that by (cases frags) auto
  obtain np where np: "netPkts r i = Some np" "distinct (np_unackedFrags np)" "set (np_unackedFrags np) = {j. frag_of r j = Some i}"
    and i: "i < netPkt_next r" "reportable r i" using own by (auto simp: owns_frags_def list_of_def)
  define first where "first = (if m_unackedFrags r = [] then Some ?t else m_firstUnackedFrag r)"
  have r': "frag' = frag\<lparr>TxSequenceField := Some ?t\<rparr>" "m_unackedFrags r' = frags" "m_firstUnackedFrag r' = first" "m_lastTxSeqNo r' = ?t"
    "netPkts r' = (netPkts r)(i \<mapsto> np\<lparr>np_unackedFrags := np_unackedFrags np @ [?t]\<rparr>)" "netPkt_next r' = netPkt_next r"
    using run np(1) hd1 one unfolding frags_def first_def
    by (auto simp: add_fragment_def a(1) rto Let_def put_netPkt_def split: if_splits)
  have tnew: "map_of (m_unackedFrags r) ?t = None" using a(2) by (simp add: map_of_eq_None_iff)
  then show nt: "frag_of r ?t = None" by (simp add: frag_of_def)
  show N: "frag_of r' = (frag_of r)(?t \<mapsto> i)"
    by (rule ext) (simp add: frag_of_def r' frags_def uf_modify_map_of uf_emplace_map_of [OF a(2)])
  have L: "list_of r' = (list_of r)(i \<mapsto> np_unackedFrags np @ [?t])" by (rule ext) (simp add: list_of_def r')
  have P: "reportable r' = reportable r" using np(1) by (auto simp: reportable_def r' fun_eq_iff)
  have ks: "distinct (np_unackedFrags np @ [?t])" "set (np_unackedFrags np @ [?t]) = {j. frag_of r' j = Some i}"
    using np(2,3) nt by (auto simp: N)
  have "links_ok (frag_of r') (list_of r') (reportable r') (netPkt_next r')"
    by (rule links_ok_change [OF lr_okD(2) [OF ok] _ L P r'(6) i ks]) (use nt in \<open>auto simp: N\<close>)
  moreover have "window_ok (m_firstUnackedFrag r') (m_lastTxSeqNo r') (map fst (m_unackedFrags r'))" using a(3) by (simp add: r' keys first_def)
  ultimately show "lr_ok r'" by (simp add: lr_ok_def)
  show "owns_frags r' i" using i ks L P r'(6) by (simp add: owns_frags_def)
  show "TxSequenceField frag' = Some ?t" "m_lastTxSeqNo r' = ?t" using r' by simp_all
qed

lemma lost_resent_returns:
  assumes ok: "lr_ok r" and s: "map_of (m_unackedFrags r) s = Some frag" and m: "uf_retxCount frag < ro_maxRetx (lr_options r)"
    and room: "m_firstUnackedFrag r \<noteq> Some (m_lastTxSeqNo r + 1)" and env: "\<And>p. TxSequenceField p \<noteq> None \<Longrightarrow> re_isLpPacket env p"
    and rto: "computeRto (m_rto r) = Some t"
  shows "\<exists>r'. onLpPacketLost env now s r = Some ([s], r') \<and> lr_ok r' \<and> frag_of r' = (frag_of r)(s := None, m_lastTxSeqNo r + 1 \<mapsto> uf_netPkt frag)"
proof -
  from lost_resent [OF ok s m room, of env now] obtain r1 new where r1: "lr_ok r1"
    "map_of (m_unackedFrags r1) = (map_of (m_unackedFrags r))(s := None, m_lastTxSeqNo r + 1 \<mapsto> new)" "m_rto r1 = m_rto r"
    "TxSequenceField (uf_pkt new) = Some (m_lastTxSeqNo r + 1)"
    "frag_of r1 = (frag_of r)(s := None, m_lastTxSeqNo r + 1 \<mapsto> uf_netPkt frag)"
    "onLpPacketLost env now s r = do {
      r2 \<leftarrow> send_piggybacked env (uf_pkt new) r1;
      rto \<leftarrow> computeRto (m_rto r2);
      Some ([s], r2\<lparr>m_unackedFrags := uf_modify (m_lastTxSeqNo r + 1) (\<lambda>f. f\<lparr>uf_rtoTimer := Some (now + rto * 1000)\<rparr>) (m_unackedFrags r2)\<rparr>)
    }" by (elim exE conjE) (rule that)
  obtain r2 where r2: "send_piggybacked env (uf_pkt new) r1 = Some r2" using send_piggybacked_returns [OF env, of "uf_pkt new"] r1(4) by blast
  note k = send_piggybacked_keeps [OF r2]
  define r' where "r' = r2\<lparr>m_unackedFrags := uf_modify (m_lastTxSeqNo r + 1) (\<lambda>f. f\<lparr>uf_rtoTimer := Some (now + t * 1000)\<rparr>) (m_unackedFrags r2)\<rparr>"
  have "onLpPacketLost env now s r = Some ([s], r')" unfolding r1(6) r2 using rto r1(3) k(3) by (simp add: r'_def)
  moreover have "lr_ok r'" using r1(1) k(1) by (simp add: r'_def lr_ok_modify)
  moreover have "frag_of r' = frag_of r1" by (rule ext) (simp add: frag_of_def r'_def uf_modify_map_of k(2) option.map_comp comp_def)
  ultimately show ?thesis using r1(5) by simp
qed

lemma add_fragments_keeps:
  assumes "lr_ok r" and "owns_frags r i" and "add_fragments now i fs r = Some (fs', r')"
  shows "lr_ok r' \<and> map TxSequenceField fs' = map (\<lambda>j. Some (m_lastTxSeqNo r + 1 + of_nat j)) [0..<length fs] \<and>
    (\<forall>j<length fs. frag_of r (m_lastTxSeqNo r + 1 + of_nat j) = None)"
  using assms
proof (induction fs arbitrary: r fs')
  case (Cons f fs)
  obtain f1 r1 fs1 where f1: "add_fragment now i f r = Some (f1, r1)" "add_fragments now i fs r1 = Some (fs1, r')" "fs' = f1 # fs1"
    using Cons.prems(3) by (auto simp: bind_eq_Some_conv)
  note a = add_fragment_keeps [OF Cons.prems(1,2) f1(1)]
  have IH: "lr_ok r'" "map TxSequenceField fs1 = map (\<lambda>j. Some (m_lastTxSeqNo r1 + 1 + of_nat j)) [0..<length fs]"
    "\<forall>j<length fs. frag_of r1 (m_lastTxSeqNo r1 + 1 + of_nat j) = None" using Cons.IH [OF a(1,2) f1(2)] by blast+
  have "frag_of r (m_lastTxSeqNo r + 1 + of_nat j) = None" if "j < Suc (length fs)" for j
  proof (cases j)
    case 0
    then show ?thesis using a(5) by simp
  next
    case (Suc l)
    then have "frag_of r1 (m_lastTxSeqNo r + 1 + of_nat j) = None" using IH(3) that by (auto simp: a(4) algebra_simps)
    then show ?thesis by (simp add: a(6) split: if_splits)
  qed
  moreover have "map TxSequenceField fs' = map (\<lambda>j. Some (m_lastTxSeqNo r + 1 + of_nat j)) [0..<length (f # fs)]"
    by (simp add: f1(3) a(3) IH(2) a(4) map_upt_Suc algebra_simps del: upt_Suc)
  ultimately show ?case using IH(1) by simp
qed simp

lemma handleOutgoing_keeps:
  assumes ok: "lr_ok r" and pkt: "isInterest \<Longrightarrow> FragmentField pkt \<noteq> None" and run: "handleOutgoing now fs pkt isInterest r = Some (fs', r')"
  shows "lr_ok r' \<and> map TxSequenceField fs' = map (\<lambda>j. Some (m_lastTxSeqNo r + 1 + of_nat j)) [0..<length fs] \<and>
    (\<forall>j<length fs. frag_of r (m_lastTxSeqNo r + 1 + of_nat j) = None)"
proof -
  let ?i = "netPkt_next r"
  define r1 where "r1 = (put_netPkt ?i \<lparr>np_unackedFrags = [], np_pkt = pkt, np_isInterest = isInterest, np_didRetx = False\<rparr> r)\<lparr>netPkt_next := ?i + 1\<rparr>"
  have N: "frag_of r1 = frag_of r" "m_lastTxSeqNo r1 = m_lastTxSeqNo r" by (simp_all add: r1_def frag_of_def put_netPkt_def fun_eq_iff)
  have bound: "j < ?i" if "frag_of r k = Some j" for k j by (rule links_okD [OF lr_okD(2) [OF ok] that])
  have other: "list_of r1 j = list_of r j" "reportable r1 j = reportable r j" if "j \<noteq> ?i" for j
    using that by (simp_all add: r1_def list_of_def reportable_def put_netPkt_def)
  have "links_ok (frag_of r1) (list_of r1) (reportable r1) (netPkt_next r1)"
    unfolding links_ok_def N
  proof (intro allI impI)
    fix k j assume k: "frag_of r k = Some j"
    obtain ks where "j < ?i" "reportable r j" "list_of r j = Some ks" "distinct ks" "set ks = {k. frag_of r k = Some j}"
      by (rule links_okD [OF lr_okD(2) [OF ok] k])
    then show "j < netPkt_next r1 \<and> reportable r1 j \<and> (\<exists>ks. list_of r1 j = Some ks \<and> distinct ks \<and> set ks = {k. frag_of r k = Some j})"
      using other [of j] by (simp add: r1_def)
  qed
  then have ok1: "lr_ok r1" using lr_okD(1) [OF ok] by (simp add: lr_ok_def r1_def put_netPkt_def)
  have "{j. frag_of r1 j = Some ?i} = {}" using bound by (auto simp: N)
  then have own: "owns_frags r1 ?i" using pkt by (simp add: owns_frags_def r1_def list_of_def reportable_def put_netPkt_def)
  have "add_fragments now ?i fs r1 = Some (fs', r')"
    using run by (simp add: handleOutgoing_def r1_def Let_def bind_eq_Some_conv)
  from add_fragments_keeps [OF ok1 own this] show ?thesis by (simp add: N)
qed

lemma LpReliability_ok: "LpReliability options = Some r \<Longrightarrow> lr_ok r"
  by (auto simp: LpReliability_def bind_eq_Some_conv lr_ok_def window_ok_def links_ok_def frag_of_def)

subsection \<open>The idle timer\<close>

definition ack_space :: "'h rel_env \<Rightarrow> 'h rel_packet \<Rightarrow> int" where
  "ack_space env pkt = (case re_mtu env of None \<Rightarrow> re_maxPacket env | Some mtu \<Rightarrow> mtu) -
     (re_sizeOfVarNumber env (re_maxPacket env) - re_sizeOfVarNumber env (re_size env pkt)) - re_size env pkt"

lemma piggyback_loop_length: "length (fst (piggyback_loop a n acks p)) \<le> length acks"
  by (induction a n acks p rule: piggyback_loop.induct) auto

lemma piggyback_loop_takes:
  assumes "a \<le> n" and "acks \<noteq> []"
  shows "length (fst (piggyback_loop a n acks p)) < length acks"
proof (cases acks)
  case (Cons x xs)
  with assms(1) piggyback_loop_length [of a "n - a" xs "p\<lparr>AckField := AckField p @ [x]\<rparr>"] show ?thesis by (simp add: le_imp_less_Suc)
qed (use assms(2) in simp)

text \<open>When an idle packet has space for one acknowledgement, the handler of the timer sends them all and ends.\<close>

lemma onIdleAckTimer_returns:
  fixes env :: "'h rel_env" and r :: "'h reliability"
  assumes "ro_isEnabled (lr_options r)" and env: "re_isLpPacket env (idle_packet :: 'h rel_packet)"
    and space: "re_sizeOfVarNumber env (re_ackType env) + re_sizeOfVarNumber env 8 + 8 \<le> ack_space env idle_packet"
  shows "\<exists>r'. onIdleAckTimer env r = Some r' \<and> m_ackQueue r' = [] \<and> \<not> m_isIdleAckTimerRunning r'"
proof -
  have "\<exists>r'. idle_loop env r = Some r' \<and> m_ackQueue r' = []"
    using assms(1)
  proof (induction "length (m_ackQueue r)" arbitrary: r rule: less_induct)
    case less
    show ?case
    proof (cases "m_ackQueue r = []")
      case True
      then show ?thesis by (subst idle_loop.simps) simp
    next
      case False
      obtain acks and p :: "'h rel_packet" where l: "piggyback_loop (re_sizeOfVarNumber env (re_ackType env) + re_sizeOfVarNumber env 8 + 8)
        (ack_space env idle_packet) (m_ackQueue r) idle_packet = (acks, p)" by fastforce
      define r1 where "r1 = (if (case re_mtu env of None \<Rightarrow> False | Some mtu \<Rightarrow> re_size env p > mtu)
        then r\<lparr>m_ackQueue := acks, nOutOverMtu := nOutOverMtu r + 1\<rparr> else r\<lparr>m_ackQueue := acks, lr_sent := lr_sent r @ [p]\<rparr>)"
      have s: "send_piggybacked env idle_packet r = Some r1"
        using less.prems env l by (simp add: send_piggybacked_def piggyback_def ack_space_def Let_def r1_def cong: option.case_cong)
      have "length (m_ackQueue r1) < length (m_ackQueue r)"
        using piggyback_loop_takes [OF space False, of "idle_packet :: 'h rel_packet"] by (simp add: l r1_def)
      from less.hyps [OF this] less.prems have "\<exists>r'. idle_loop env r1 = Some r' \<and> m_ackQueue r' = []" by (simp add: r1_def)
      then show ?thesis using False s by (subst idle_loop.simps) simp
    qed
  qed
  then show ?thesis by (auto simp: onIdleAckTimer_def)
qed

subsection \<open>Properties\<close>

text \<open>C6: the bookkeeping of link reliability is never lost: as long as fragments and network packets refer
  to each other and the numbers in use lie in the window, wrap-around included, an
  acknowledged fragment is removed and nothing else; a fragment that was sent too often is
  given up together with exactly the other fragments of its network packet; any other lost
  fragment moves to the next number, which no fragment uses, unless the numbers are exhausted
  or the timeout cannot be represented, given that a packet with a TxSequence is encoded as an
  LpPacket, as ndn-cxx does it; incoming packets keep the bookkeeping, and the
  fragments of an outgoing packet get consecutive numbers that were not in use.\<close>

theorem reliability_state_kept:
  assumes ok: "lr_ok r"
  shows "(map_of (m_unackedFrags r) s = Some frag \<longrightarrow>
      (\<exists>r'. onLpPacketAcknowledged s r = Some r' \<and> lr_ok r' \<and> map_of (m_unackedFrags r') = (map_of (m_unackedFrags r))(s := None))) \<and>
    (map_of (m_unackedFrags r) s = Some frag \<longrightarrow> ro_maxRetx (lr_options r) \<le> uf_retxCount frag \<longrightarrow>
      (\<exists>removed r'. onLpPacketLost env now s r = Some (removed, r') \<and> lr_ok r' \<and>
        map_of (m_unackedFrags r') = (\<lambda>k. if frag_of r k = Some (uf_netPkt frag) then None else map_of (m_unackedFrags r) k))) \<and>
    (map_of (m_unackedFrags r) s = Some frag \<longrightarrow> uf_retxCount frag < ro_maxRetx (lr_options r) \<longrightarrow>
      m_firstUnackedFrag r \<noteq> Some (m_lastTxSeqNo r + 1) \<longrightarrow> (\<forall>p. TxSequenceField p \<noteq> None \<longrightarrow> re_isLpPacket env p) \<longrightarrow> computeRto (m_rto r) = Some t \<longrightarrow>
      (\<exists>r'. onLpPacketLost env now s r = Some ([s], r') \<and> lr_ok r' \<and> frag_of r (m_lastTxSeqNo r + 1) = None \<and>
        frag_of r' = (frag_of r)(s := None, m_lastTxSeqNo r + 1 \<mapsto> uf_netPkt frag))) \<and>
    (processIncomingPacket env now pkt r = Some r1 \<longrightarrow> lr_ok r1) \<and>
    ((isInterest \<longrightarrow> FragmentField pkt \<noteq> None) \<longrightarrow> handleOutgoing now fs pkt isInterest r = Some (fs', r2) \<longrightarrow>
      lr_ok r2 \<and> map TxSequenceField fs' = map (\<lambda>j. Some (m_lastTxSeqNo r + 1 + of_nat j)) [0..<length fs] \<and>
      (\<forall>j<length fs. frag_of r (m_lastTxSeqNo r + 1 + of_nat j) = None))"
proof (intro conjI impI)
  assume "map_of (m_unackedFrags r) s = Some frag"
  then show "\<exists>r'. onLpPacketAcknowledged s r = Some r' \<and> lr_ok r' \<and> map_of (m_unackedFrags r') = (map_of (m_unackedFrags r))(s := None)"
    by (rule onLpPacketAcknowledged_ok [OF ok])
next
  assume "map_of (m_unackedFrags r) s = Some frag" "ro_maxRetx (lr_options r) \<le> uf_retxCount frag"
  then show "\<exists>removed r'. onLpPacketLost env now s r = Some (removed, r') \<and> lr_ok r' \<and>
      map_of (m_unackedFrags r') = (\<lambda>k. if frag_of r k = Some (uf_netPkt frag) then None else map_of (m_unackedFrags r) k)"
    by (rule lost_exhausted [OF ok])
next
  assume s: "map_of (m_unackedFrags r) s = Some frag" "uf_retxCount frag < ro_maxRetx (lr_options r)"
    and room: "m_firstUnackedFrag r \<noteq> Some (m_lastTxSeqNo r + 1)" and env: "\<forall>p. TxSequenceField p \<noteq> None \<longrightarrow> re_isLpPacket env p"
    and rto: "computeRto (m_rto r) = Some t"
  have "frag_of r (m_lastTxSeqNo r + 1) = None"
    using assignTxSequence_ok(2) [OF lr_okD(1) [OF ok] room] by (simp add: frag_of_def map_of_eq_None_iff)
  with lost_resent_returns [OF ok s room mp [OF spec [OF env]] rto, of now]
  show "\<exists>r'. onLpPacketLost env now s r = Some ([s], r') \<and> lr_ok r' \<and> frag_of r (m_lastTxSeqNo r + 1) = None \<and>
      frag_of r' = (frag_of r)(s := None, m_lastTxSeqNo r + 1 \<mapsto> uf_netPkt frag)" by simp
next
  assume "processIncomingPacket env now pkt r = Some r1"
  then show "lr_ok r1" by (rule processIncomingPacket_keeps [OF ok])
qed (use handleOutgoing_keeps [OF ok, of isInterest pkt now fs fs' r2] in simp_all)

text \<open>A state with one fragment, of sequence number 0.\<close>

definition example_reliability :: "unit reliability" where
  "example_reliability = \<lparr>lr_options = \<lparr>ro_isEnabled = True, ro_maxRetx = 3, ro_idleAckTimerPeriod = ms 5, ro_seqNumLossThreshold = 3\<rparr>,
     m_unackedFrags = [(0, UnackedFrag_new 0 idle_packet)], m_firstUnackedFrag = Some 0, m_ackQueue = [], m_lastTxSeqNo = 0,
     m_idleAckTimer = None, m_isIdleAckTimerRunning = False, m_rto = RttEstimator 16 1000 (1 / 10),
     netPkts = [0 \<mapsto> \<lparr>np_unackedFrags = [0], np_pkt = idle_packet, np_isInterest = False, np_didRetx = False\<rparr>],
     netPkt_next = 1, nAcknowledged = 0, nRetransmitted = 0, nRetxExhausted = 0, nOutOverMtu = 0, lr_sent = [], lr_dropped = []\<rparr>"

text \<open>The encoding of packets: bare when the fragment is the only field.\<close>

definition example_rel_env :: "unit rel_env" where
  "example_rel_env = \<lparr>re_size = (\<lambda>p. 10), re_isLpPacket = (\<lambda>p. TxSequenceField p \<noteq> None \<or> AckField p \<noteq> [] \<or> FragmentField p = None),
     re_sizeOfVarNumber = (\<lambda>n. if n < 253 then 1 else 3), re_maxPacket = 8800, re_ackType = 836, re_mtu = Some 1400\<rparr>"

theorem reliability_state_kept_witness:
  "lr_ok example_reliability \<and> (\<exists>r'. onLpPacketAcknowledged 0 example_reliability = Some r' \<and> lr_ok r' \<and> map_of (m_unackedFrags r') 0 = None) \<and>
   (\<exists>r'. onLpPacketLost example_rel_env 0 0 example_reliability = Some ([0], r') \<and> lr_ok r' \<and> frag_of r' 1 = Some 0)"
proof -
  have ok: "lr_ok example_reliability"
    by (auto simp: lr_ok_def window_ok_def links_ok_def frag_of_def list_of_def reportable_def example_reliability_def UnackedFrag_new_def)
  have s: "map_of (m_unackedFrags example_reliability) 0 = Some (UnackedFrag_new 0 idle_packet)" by (simp add: example_reliability_def)
  obtain r' where "onLpPacketAcknowledged 0 example_reliability = Some r'" "lr_ok r'"
    "map_of (m_unackedFrags r') = (map_of (m_unackedFrags example_reliability))(0 := None)"
    using mp [OF conjunct1 [OF reliability_state_kept [OF ok]] s] by (elim exE conjE) (rule that)
  moreover have env: "\<forall>p. TxSequenceField p \<noteq> None \<longrightarrow> re_isLpPacket example_rel_env p" by (simp add: example_rel_env_def)
  have m: "uf_retxCount (UnackedFrag_new 0 idle_packet :: unit UnackedFrag) < ro_maxRetx (lr_options example_reliability)"
    "m_firstUnackedFrag example_reliability \<noteq> Some (m_lastTxSeqNo example_reliability + 1)"
    by (simp_all add: example_reliability_def UnackedFrag_new_def)
  have rto: "computeRto (m_rto example_reliability) = Some 1000000"
    by (simp add: computeRto_def example_reliability_def RttEstimator_def Let_def fround_of_nat [of 1000000 53, simplified] fround_of_nat [of 1000 53, simplified])
  obtain r'' where "onLpPacketLost example_rel_env 0 0 example_reliability = Some ([0], r'')" "lr_ok r''"
    "frag_of r'' = (frag_of example_reliability)(0 := None, m_lastTxSeqNo example_reliability + 1 \<mapsto> uf_netPkt (UnackedFrag_new 0 idle_packet :: unit UnackedFrag))"
    using mp [OF mp [OF mp [OF mp [OF mp [OF conjunct1 [OF conjunct2 [OF conjunct2 [OF reliability_state_kept [OF ok, where now = 0]]]] s] m(1)] m(2)] env] rto]
    by (elim exE conjE) (rule that)
  moreover have "m_lastTxSeqNo example_reliability = 0" "uf_netPkt (UnackedFrag_new 0 idle_packet :: unit UnackedFrag) = 0"
    by (simp_all add: example_reliability_def UnackedFrag_new_def)
  ultimately show ?thesis using ok by auto
qed

end
