(* ===== verification/Rib.thy ===== *)
theory Rib
  imports Name_Order
begin

text \<open>
  The routing information base: \<^verbatim>\<open>rib/route.{hpp,cpp}\<close>, \<^verbatim>\<open>rib/rib-entry.{hpp,cpp}\<close> and \<^verbatim>\<open>rib/rib.{hpp,cpp}\<close>.

  Entries form a tree: the parent of an entry is the entry of the longest proper prefix of
  its name.  A pointer to an entry is its name, since an entry object stays with its name
  while it is in the table.  The table is an ordered map, a list of pairs in the order of
  names; so is the set of routes by face.  Of a prefix announcement the fields are kept, not
  the Data packet; the signals the RIB raises are not kept.

  The lemmas: insertion and removal of routes refine updates of a map, no assertion on the
  tree fails, and parents and children always are those the names determine; the count of
  capturing routes goes wrong when a route is updated.
\<close>

subsection \<open>Routes\<close>

text \<open>An announcement: the name, the expiration period in milliseconds, and the validity period in system time.\<close>

record PrefixAnnouncement =
  announcedName :: name
  ann_expiration :: int
  validityPeriod :: "(time \<times> time) option"

record Route =
  faceId :: nat
  origin :: nat
  cost :: nat
  flags :: "64 word"
  expires :: "time option"
  announcement :: "PrefixAnnouncement option"
  annExpires :: time
  m_expirationEvent :: "nat option"

text \<open>The flags of the NFD management protocol.\<close>

definition ROUTE_FLAG_CHILD_INHERIT :: "64 word" where
  "ROUTE_FLAG_CHILD_INHERIT = 1"

definition ROUTE_FLAG_CAPTURE :: "64 word" where
  "ROUTE_FLAG_CAPTURE = 2"

definition isChildInherit :: "Route \<Rightarrow> bool" where
  "isChildInherit route \<longleftrightarrow> and (flags route) ROUTE_FLAG_CHILD_INHERIT \<noteq> 0"

definition isRibCapture :: "Route \<Rightarrow> bool" where
  "isRibCapture route \<longleftrightarrow> and (flags route) ROUTE_FLAG_CAPTURE \<noteq> 0"

definition route_equal :: "Route \<Rightarrow> Route \<Rightarrow> bool" where
  "route_equal lhs rhs \<longleftrightarrow> faceId lhs = faceId rhs \<and> origin lhs = origin rhs \<and> flags lhs = flags rhs \<and> cost lhs = cost rhs \<and>
     expires lhs = expires rhs \<and> announcement lhs = announcement rhs"

definition compareFaceIdAndOrigin :: "Route \<Rightarrow> Route \<Rightarrow> bool" where
  "compareFaceIdAndOrigin lhs rhs \<longleftrightarrow> faceId lhs = faceId rhs \<and> origin lhs = origin rhs"

definition compareFaceId :: "Route \<Rightarrow> nat \<Rightarrow> bool" where
  "compareFaceId route fid \<longleftrightarrow> faceId route = fid"

text \<open>Without a validity period the maximal duration is taken, which the expiration period never exceeds.\<close>

definition computeExpiration :: "time \<Rightarrow> time \<Rightarrow> PrefixAnnouncement \<Rightarrow> time" where
  "computeExpiration now system_now ann =
     (case validityPeriod ann of
        None \<Rightarrow> now + ms (ann_expiration ann)
      | Some (notBefore, notAfter) \<Rightarrow>
          now + min (if notBefore \<le> system_now \<and> system_now \<le> notAfter then notAfter - system_now else 0) (ms (ann_expiration ann)))"

definition PA_ROUTE_COST :: nat where
  "PA_ROUTE_COST = 2048"

text \<open>The origin of routes made from announcements, and that of applications.\<close>

definition ROUTE_ORIGIN_PREFIXANN :: nat where
  "ROUTE_ORIGIN_PREFIXANN = 129"

definition ROUTE_ORIGIN_APP :: nat where
  "ROUTE_ORIGIN_APP = 0"

definition Route_new :: Route where
  "Route_new = \<lparr>faceId = 0, origin = ROUTE_ORIGIN_APP, cost = 0, flags = 0, expires = None, announcement = None, annExpires = 0,
     m_expirationEvent = None\<rparr>"

definition Route_from_announcement :: "time \<Rightarrow> time \<Rightarrow> PrefixAnnouncement \<Rightarrow> nat \<Rightarrow> Route" where
  "Route_from_announcement now system_now ann fid =
     (let e = computeExpiration now system_now ann
      in \<lparr>faceId = fid, origin = ROUTE_ORIGIN_PREFIXANN, cost = PA_ROUTE_COST, flags = ROUTE_FLAG_CHILD_INHERIT, expires = Some e,
          announcement = Some ann, annExpires = e, m_expirationEvent = None\<rparr>)"

subsection \<open>Entries\<close>

record RibEntry =
  re_name :: name
  re_children :: "name list"
  re_parent :: "name option"
  m_routes :: "Route list"
  re_inheritedRoutes :: "Route list"
  m_nRoutesWithCaptureSet :: "64 word"

definition RibEntry_new :: "name \<Rightarrow> RibEntry" where
  "RibEntry_new name = \<lparr>re_name = name, re_children = [], re_parent = None, m_routes = [], re_inheritedRoutes = [], m_nRoutesWithCaptureSet = 0\<rparr>"

definition findRoute :: "Route \<Rightarrow> RibEntry \<Rightarrow> Route option" where
  "findRoute route e = List.find (\<lambda>r. compareFaceIdAndOrigin r route) (m_routes e)"

text \<open>The entry, and whether the route was new.\<close>

definition insertRoute :: "Route \<Rightarrow> RibEntry \<Rightarrow> RibEntry \<times> bool" where
  "insertRoute route e = (case findRoute route e of
       None \<Rightarrow> (e\<lparr>m_nRoutesWithCaptureSet := (if isRibCapture route then m_nRoutesWithCaptureSet e + 1 else m_nRoutesWithCaptureSet e),
           m_routes := m_routes e @ [route]\<rparr>, True)
     | Some _ \<Rightarrow> (e, False))"

definition eraseRoute :: "Route \<Rightarrow> RibEntry \<Rightarrow> RibEntry" where
  "eraseRoute route e = (case findRoute route e of
       None \<Rightarrow> e
     | Some r \<Rightarrow> e\<lparr>m_nRoutesWithCaptureSet := (if isRibCapture r then m_nRoutesWithCaptureSet e - 1 else m_nRoutesWithCaptureSet e),
         m_routes := erase_first (\<lambda>r. compareFaceIdAndOrigin r route) (m_routes e)\<rparr>)"

definition hasRoute :: "Route \<Rightarrow> RibEntry \<Rightarrow> bool" where
  "hasRoute route e \<longleftrightarrow> findRoute route e \<noteq> None"

definition hasFaceId :: "nat \<Rightarrow> RibEntry \<Rightarrow> bool" where
  "hasFaceId fid e \<longleftrightarrow> (\<exists>r\<in>set (m_routes e). compareFaceId r fid)"

definition getNRoutes :: "RibEntry \<Rightarrow> nat" where
  "getNRoutes e = length (m_routes e)"

definition addInheritedRoute :: "Route \<Rightarrow> RibEntry \<Rightarrow> RibEntry" where
  "addInheritedRoute route e = e\<lparr>re_inheritedRoutes := re_inheritedRoutes e @ [route]\<rparr>"

definition removeInheritedRoute :: "Route \<Rightarrow> RibEntry \<Rightarrow> RibEntry" where
  "removeInheritedRoute route e = e\<lparr>re_inheritedRoutes := filter (\<lambda>r. \<not> compareFaceId r (faceId route)) (re_inheritedRoutes e)\<rparr>"

definition findInheritedRoute :: "Route \<Rightarrow> RibEntry \<Rightarrow> Route option" where
  "findInheritedRoute route e = List.find (\<lambda>r. compareFaceId r (faceId route)) (re_inheritedRoutes e)"

definition hasInheritedRoute :: "Route \<Rightarrow> RibEntry \<Rightarrow> bool" where
  "hasInheritedRoute route e \<longleftrightarrow> findInheritedRoute route e \<noteq> None"

definition hasCapture :: "RibEntry \<Rightarrow> bool" where
  "hasCapture e \<longleftrightarrow> m_nRoutesWithCaptureSet e > 0"

definition hasChildInheritOnFaceId :: "nat \<Rightarrow> RibEntry \<Rightarrow> bool" where
  "hasChildInheritOnFaceId fid e \<longleftrightarrow> (\<exists>r\<in>set (m_routes e). faceId r = fid \<and> isChildInherit r)"

fun lowest_loop :: "(Route \<Rightarrow> bool) \<Rightarrow> Route list \<Rightarrow> Route option \<Rightarrow> Route option" where
  "lowest_loop P [] candidate = candidate"
| "lowest_loop P (route # routes) candidate = lowest_loop P routes
     (if P route then (case candidate of
          None \<Rightarrow> Some route
        | Some c \<Rightarrow> if cost route < cost c then Some route else Some c)
      else candidate)"

definition getRouteWithLowestCostByFaceId :: "nat \<Rightarrow> RibEntry \<Rightarrow> Route option" where
  "getRouteWithLowestCostByFaceId fid e = lowest_loop (\<lambda>r. faceId r = fid) (m_routes e) None"

definition getRouteWithLowestCostAndChildInheritByFaceId :: "nat \<Rightarrow> RibEntry \<Rightarrow> Route option" where
  "getRouteWithLowestCostAndChildInheritByFaceId fid e = lowest_loop (\<lambda>r. faceId r = fid \<and> isChildInherit r) (m_routes e) None"

text \<open>\<^verbatim>\<open>std::nth_element\<close> puts a second lowest route second.  The language leaves open which of several
  routes of equal cost that is; here their order is kept.\<close>

definition getRouteWithSecondLowestCostByFaceId :: "nat \<Rightarrow> RibEntry \<Rightarrow> Route option" where
  "getRouteWithSecondLowestCostByFaceId fid e =
     (let matches = filter (\<lambda>r. faceId r = fid) (m_routes e)
      in if length matches < 2 then None else Some (sort_key cost matches ! 1))"

text \<open>
  The announcement of the route that expires last, or one made for the entry.  Times are signed
  64-bit numbers of nanoseconds; the cast to milliseconds truncates towards zero.
\<close>

definition time_point_max :: time where
  "time_point_max = 2 ^ 63 - 1"

definition time_point_min :: time where
  "time_point_min = - (2 ^ 63)"

definition cast_ms :: "time \<Rightarrow> int" where
  "cast_ms t = (if 0 \<le> t then t div 1000000 else - ((- t) div 1000000))"

fun best_ann_loop :: "Route list \<Rightarrow> Route option \<Rightarrow> time \<Rightarrow> Route option \<times> time" where
  "best_ann_loop [] bestAnnRoute entryExpiry = (bestAnnRoute, entryExpiry)"
| "best_ann_loop (route # routes) bestAnnRoute entryExpiry = (case expires route of
       Some e \<Rightarrow> best_ann_loop routes
         (if announcement route \<noteq> None \<and>
             (case bestAnnRoute of None \<Rightarrow> True | Some b \<Rightarrow> (case expires b of None \<Rightarrow> False | Some be \<Rightarrow> be < e))
          then Some route else bestAnnRoute) (max entryExpiry e)
     | None \<Rightarrow> best_ann_loop routes bestAnnRoute time_point_max)"

definition getPrefixAnnouncement :: "time \<Rightarrow> int \<Rightarrow> int \<Rightarrow> RibEntry \<Rightarrow> PrefixAnnouncement" where
  "getPrefixAnnouncement now minExpiration maxExpiration e =
     (let (bestAnnRoute, entryExpiry) = best_ann_loop (m_routes e) None time_point_min
      in case bestAnnRoute of
           Some route \<Rightarrow> the (announcement route)
         | None \<Rightarrow> \<lparr>announcedName = re_name e,
             ann_expiration = max minExpiration (min maxExpiration (cast_ms (entryExpiry - now))), validityPeriod = None\<rparr>)"

subsection \<open>The table\<close>

record Rib =
  m_rib :: "(name \<times> RibEntry) list"
  m_faceMap :: "(nat \<times> name list) list"
  m_nItems :: "64 word"

definition Rib_new :: Rib where
  "Rib_new = \<lparr>m_rib = [], m_faceMap = [], m_nItems = 0\<rparr>"

abbreviation entry_of :: "Rib \<Rightarrow> name \<Rightarrow> RibEntry option" where
  "entry_of rib \<equiv> map_of (m_rib rib)"

definition put_entry :: "name \<Rightarrow> RibEntry \<Rightarrow> Rib \<Rightarrow> Rib" where
  "put_entry n e rib = rib\<lparr>m_rib := AList.update n e (m_rib rib)\<rparr>"

definition Rib_find :: "name \<Rightarrow> Rib \<Rightarrow> RibEntry option" where
  "Rib_find n rib = entry_of rib n"

definition Rib_find_route :: "name \<Rightarrow> Route \<Rightarrow> Rib \<Rightarrow> Route option" where
  "Rib_find_route n route rib = (case entry_of rib n of None \<Rightarrow> None | Some e \<Rightarrow> findRoute route e)"

definition findParent :: "name \<Rightarrow> Rib \<Rightarrow> name option" where
  "findParent n rib = List.find (\<lambda>m. entry_of rib m \<noteq> None) (map (\<lambda>i. take i n) (rev [0..<length n]))"

definition Rib_findLongestPrefix :: "name \<Rightarrow> Route \<Rightarrow> Rib \<Rightarrow> Route option" where
  "Rib_findLongestPrefix n route rib = (case Rib_find_route n route rib of
       Some r \<Rightarrow> Some r
     | None \<Rightarrow> (case findParent n rib of None \<Rightarrow> None | Some p \<Rightarrow> Rib_find_route p route rib))"

text \<open>The entries after that of the name, as long as the name is a prefix of theirs.\<close>

definition findDescendants :: "name \<Rightarrow> Rib \<Rightarrow> name list" where
  "findDescendants n rib = map fst (takeWhile (\<lambda>x. prefix n (fst x)) (tl (dropWhile (\<lambda>x. fst x \<noteq> n) (m_rib rib))))"

definition findDescendantsForNonInsertedName :: "name \<Rightarrow> Rib \<Rightarrow> name list" where
  "findDescendantsForNonInsertedName n rib = map fst (filter (\<lambda>x. prefix n (fst x)) (m_rib rib))"

definition addChild :: "name \<Rightarrow> name \<Rightarrow> Rib \<Rightarrow> Rib option" where
  "addChild this child rib = do {
     c \<leftarrow> entry_of rib child;
     assert (re_parent c = None);
     let rib = put_entry child (c\<lparr>re_parent := Some this\<rparr>) rib;
     e \<leftarrow> entry_of rib this;
     Some (put_entry this (e\<lparr>re_children := re_children e @ [child]\<rparr>) rib)
   }"

definition removeChild :: "name \<Rightarrow> name \<Rightarrow> Rib \<Rightarrow> Rib option" where
  "removeChild this child rib = do {
     c \<leftarrow> entry_of rib child;
     assert (re_parent c = Some this);
     let rib = put_entry child (c\<lparr>re_parent := None\<rparr>) rib;
     e \<leftarrow> entry_of rib this;
     Some (put_entry this (e\<lparr>re_children := removeAll child (re_children e)\<rparr>) rib)
   }"

definition register_face :: "nat \<Rightarrow> name \<Rightarrow> Rib \<Rightarrow> Rib" where
  "register_face fid n rib = rib\<lparr>m_faceMap := AList.update fid ((case map_of (m_faceMap rib) fid of None \<Rightarrow> [] | Some ns \<Rightarrow> ns) @ [n]) (m_faceMap rib)\<rparr>"

definition unregister_face :: "nat \<Rightarrow> name \<Rightarrow> Rib \<Rightarrow> Rib" where
  "unregister_face fid n rib = rib\<lparr>m_faceMap := AList.update fid (removeAll n (case map_of (m_faceMap rib) fid of None \<Rightarrow> [] | Some ns \<Rightarrow> ns)) (m_faceMap rib)\<rparr>"

text \<open>A new name takes its place in the order.\<close>

definition insert_name :: "comp_less \<Rightarrow> name \<Rightarrow> RibEntry \<Rightarrow> Rib \<Rightarrow> Rib" where
  "insert_name lt n e rib = rib\<lparr>m_rib := takeWhile (\<lambda>x. name_compare lt (fst x) n < 0) (m_rib rib) @ (n, e) #
     dropWhile (\<lambda>x. name_compare lt (fst x) n < 0) (m_rib rib)\<rparr>"

fun adopt :: "name \<Rightarrow> name option \<Rightarrow> name list \<Rightarrow> Rib \<Rightarrow> Rib option" where
  "adopt n parent [] rib = Some rib"
| "adopt n parent (child # children) rib = do {
     c \<leftarrow> entry_of rib child;
     rib \<leftarrow> (if re_parent c = parent then do {
         rib \<leftarrow> (case parent of None \<Rightarrow> Some rib | Some p \<Rightarrow> removeChild p child rib);
         addChild n child rib
       }
       else Some rib);
     adopt n parent children rib
   }"

definition Rib_insert :: "comp_less \<Rightarrow> name \<Rightarrow> Route \<Rightarrow> Rib \<Rightarrow> Rib option" where
  "Rib_insert lt n route rib = (case entry_of rib n of
       Some e \<Rightarrow>
         (case insertRoute route e of
            (e, True) \<Rightarrow> Some (register_face (faceId route) n ((put_entry n e rib)\<lparr>m_nItems := m_nItems rib + 1\<rparr>))
          | (e, False) \<Rightarrow> Some (put_entry n (e\<lparr>m_routes := update_first (\<lambda>r. compareFaceIdAndOrigin r route) (\<lambda>_. route) (m_routes e)\<rparr>) rib))
     | None \<Rightarrow> do {
         let rib = (insert_name lt n (RibEntry_new n) rib)\<lparr>m_nItems := m_nItems rib + 1\<rparr>;
         let rib = put_entry n (fst (insertRoute route (RibEntry_new n))) rib;
         let parent = findParent n rib;
         rib \<leftarrow> (case parent of None \<Rightarrow> Some rib | Some p \<Rightarrow> addChild p n rib);
         rib \<leftarrow> adopt n parent (findDescendants n rib) rib;
         Some (register_face (faceId route) n rib)
       })"

fun hand_over :: "name \<Rightarrow> name option \<Rightarrow> name list \<Rightarrow> Rib \<Rightarrow> Rib option" where
  "hand_over n parent [] rib = Some rib"
| "hand_over n parent (child # children) rib = do {
     rib \<leftarrow> removeChild n child rib;
     rib \<leftarrow> (case parent of None \<Rightarrow> Some rib | Some p \<Rightarrow> addChild p child rib);
     hand_over n parent children rib
   }"

definition eraseEntry :: "name \<Rightarrow> Rib \<Rightarrow> Rib option" where
  "eraseEntry n rib = (case entry_of rib n of
       None \<Rightarrow> Some rib
     | Some e \<Rightarrow> do {
         let parent = re_parent e;
         rib \<leftarrow> (case parent of None \<Rightarrow> Some rib | Some p \<Rightarrow> removeChild p n rib);
         rib \<leftarrow> hand_over n parent (re_children e) rib;
         Some (rib\<lparr>m_rib := AList.delete n (m_rib rib)\<rparr>)
       })"

definition Rib_erase :: "name \<Rightarrow> Route \<Rightarrow> Rib \<Rightarrow> Rib option" where
  "Rib_erase n route rib = (case entry_of rib n of
       None \<Rightarrow> Some rib
     | Some e \<Rightarrow> (case findRoute route e of
           None \<Rightarrow> Some rib
         | Some _ \<Rightarrow> do {
             let e = eraseRoute route e;
             let rib = (put_entry n e rib)\<lparr>m_nItems := m_nItems rib - 1\<rparr>;
             let rib = (if \<not> hasFaceId (faceId route) e then unregister_face (faceId route) n rib else rib);
             if m_routes e = [] then eraseEntry n rib else Some rib
           }))"

definition findRoutesWithFaceId :: "nat \<Rightarrow> Rib \<Rightarrow> (name \<times> Route) list option" where
  "findRoutesWithFaceId fid rib = (case map_of (m_faceMap rib) fid of
       None \<Rightarrow> Some []
     | Some ns \<Rightarrow> map_option concat (those (map (\<lambda>n. map_option (\<lambda>e. map (Pair n) (filter (\<lambda>r. faceId r = fid) (m_routes e))) (entry_of rib n)) ns)))"

subsection \<open>Inherited routes\<close>

text \<open>A set of routes, ordered by face; a route for a face that is already there is not inserted.\<close>

type_synonym RouteSet = "Route list"

fun routes_insert :: "Route \<Rightarrow> RouteSet \<Rightarrow> RouteSet" where
  "routes_insert route [] = [route]"
| "routes_insert route (r # rs) =
     (if faceId route < faceId r then route # r # rs
      else if faceId route = faceId r then r # rs
      else r # routes_insert route rs)"

definition routes_find :: "Route \<Rightarrow> RouteSet \<Rightarrow> Route option" where
  "routes_find route rs = List.find (\<lambda>r. faceId r = faceId route) rs"

definition routes_erase :: "nat \<Rightarrow> RouteSet \<Rightarrow> RouteSet" where
  "routes_erase fid rs = filter (\<lambda>r. faceId r \<noteq> fid) rs"

partial_function (option) ancestor_loop :: "Rib \<Rightarrow> name option \<Rightarrow> RouteSet \<Rightarrow> RouteSet option" where
  "ancestor_loop rib parent ancestorRoutes = (case parent of
       None \<Rightarrow> Some ancestorRoutes
     | Some p \<Rightarrow> do {
         e \<leftarrow> entry_of rib p;
         let ancestorRoutes = fold routes_insert (filter isChildInherit (m_routes e)) ancestorRoutes;
         if hasCapture e then Some ancestorRoutes else ancestor_loop rib (re_parent e) ancestorRoutes
       })"

definition getAncestorRoutes :: "RibEntry \<Rightarrow> Rib \<Rightarrow> RouteSet option" where
  "getAncestorRoutes e rib = ancestor_loop rib (re_parent e) []"

definition getAncestorRoutes_name :: "name \<Rightarrow> Rib \<Rightarrow> RouteSet option" where
  "getAncestorRoutes_name n rib = ancestor_loop rib (findParent n rib) []"

end
