(* ===== verification/Rib_Tree.thy ===== *)
theory Rib_Tree
  imports Rib
begin

text \<open>
  The tree of the routing information base: what the names determine of parents and
  children, and that insertion and removal of routes keep the entries in that shape, the
  face lookup table and the count of routes in step, and refine updates of a map.
\<close>

subsection \<open>Nearest prefixes\<close>

definition par :: "name set \<Rightarrow> name \<Rightarrow> name option" where
  "par K n = List.find (\<lambda>m. m \<in> K) (map (\<lambda>i. take i n) (rev [0..<length n]))"

lemma par_Nil [simp]: "par K [] = None"
  by (simp add: par_def)

lemma par_snoc [simp]: "par K (n @ [c]) = (if n \<in> K then Some n else par K n)"
proof -
  have 1: "map (\<lambda>i. take i (n @ [c])) (rev [0..<length n]) = map (\<lambda>i. take i n) (rev [0..<length n])"
    by (rule map_cong) auto
  have "rev [0..<length (n @ [c])] = length n # rev [0..<length n]" by simp
  then show ?thesis unfolding par_def by (simp only: list.map 1) simp
qed

lemma findParent_par: "findParent n rib = par (dom (entry_of rib)) n"
  by (simp add: findParent_def par_def domIff)

lemma strict_prefix_snoc: "strict_prefix m (n @ [c]) \<longleftrightarrow> prefix m n"
  unfolding strict_prefix_def by (auto simp del: append_eq_append_conv2)

lemma prefix_eq_or_strict: "prefix m n \<longleftrightarrow> m = n \<or> strict_prefix m n"
  by (rule prefix_order.le_less [THEN trans]) blast

lemma par_None: "par K n = None \<longleftrightarrow> (\<forall>m\<in>K. \<not> strict_prefix m n)"
proof (induction n rule: rev_induct)
  case (snoc c n)
  show ?case
  proof (cases "n \<in> K")
    case True
    then show ?thesis using strict_prefix_snoc [of n n c] by auto
  next
    case False
    then have "(\<forall>m\<in>K. \<not> strict_prefix m (n @ [c])) \<longleftrightarrow> (\<forall>m\<in>K. \<not> strict_prefix m n)"
      unfolding strict_prefix_snoc prefix_eq_or_strict by metis
    with False snoc show ?thesis by simp
  qed
qed simp

lemma par_SomeD: "par K n = Some m \<Longrightarrow> m \<in> K \<and> strict_prefix m n \<and> (\<forall>k\<in>K. strict_prefix k n \<longrightarrow> prefix k m)"
proof (induction n rule: rev_induct)
  case (snoc c n)
  show ?case
  proof (cases "n \<in> K")
    case True
    then show ?thesis using snoc.prems by (auto simp: strict_prefix_snoc)
  next
    case False
    then have m: "m \<in> K" "strict_prefix m n" "\<forall>k\<in>K. strict_prefix k n \<longrightarrow> prefix k m" using snoc by simp_all
    have "prefix k m" if "k \<in> K" "prefix k n" for k
      using that m(3) False prefix_eq_or_strict [of k n] by metis
    then show ?thesis using m(1,2) by (simp add: strict_prefix_snoc prefix_eq_or_strict [of m n])
  qed
qed simp

lemma par_self: "par K n \<noteq> Some n"
  using par_SomeD [of K n n] by auto

lemma par_insert:
  assumes "x \<notin> K"
  shows "par (insert x K) n = (if strict_prefix x n \<and> par K n = par K x then Some x else par K n)"
proof (induction n rule: rev_induct)
  case (snoc c n)
  consider (1) "n = x" | (2) "n \<noteq> x" "n \<in> K" | (3) "n \<noteq> x" "n \<notin> K" by blast
  then show ?case
  proof cases
    case 1
    then show ?thesis using assms by (simp add: strict_prefix_snoc)
  next
    case 2
    have "par K x \<noteq> Some n" if "prefix x n"
      using that par_SomeD [of K x n] prefix_order.less_le_not_le [of n x] by blast
    then have "\<not> (prefix x n \<and> Some n = par K x)" by metis
    then show ?thesis using 2 by (simp add: strict_prefix_snoc) blast
  next
    case 3
    then have "prefix x n \<longleftrightarrow> strict_prefix x n" using prefix_eq_or_strict [of x n] by simp
    then show ?thesis using snoc 3 by (simp add: strict_prefix_snoc)
  qed
qed simp

lemma par_insert_self: "par (insert x K) x = par K x"
proof (cases "x \<in> K")
  case False
  then show ?thesis by (simp add: par_insert)
qed (simp add: insert_absorb)

lemma par_delete:
  assumes "x \<in> K"
  shows "par (K - {x}) n = (if par K n = Some x then par K x else par K n)"
proof -
  have K: "K = insert x (K - {x})" using assms by blast
  have n: "par K n = (if strict_prefix x n \<and> par (K - {x}) n = par (K - {x}) x then Some x else par (K - {x}) n)"
    by (subst K) (rule par_insert, simp)
  have x: "par K x = par (K - {x}) x" by (subst K) (rule par_insert_self)
  have "par (K - {x}) n \<noteq> Some x" using par_SomeD [of "K - {x}" n x] by auto
  then show ?thesis using n x by (auto split: if_splits)
qed

subsection \<open>The order of names and prefixes\<close>

lemma compare_between:
  "strict_order lt \<Longrightarrow> name_compare lt n a < 0 \<Longrightarrow> name_compare lt a b < 0 \<Longrightarrow> prefix n b \<Longrightarrow> prefix n a"
proof (induction n arbitrary: a b)
  case (Cons x n)
  obtain b' where b: "b = x # b'" using Cons.prems(4) by (cases b) auto
  obtain y a' where a: "a = y # a'" using Cons.prems(2) by (cases a) auto
  have "y = x"
  proof (rule ccontr)
    assume "y \<noteq> x"
    then have "lt x y" "lt y x" using Cons.prems(2,3) by (auto simp: a b comp_compare_neg split: if_splits)
    then show False using strict_orderD(4) [OF Cons.prems(1)] by blast
  qed
  then show ?case using Cons.prems Cons.IH [of a' b'] by (simp add: a b)
qed simp

lemma compare_strict_prefix: "strict_prefix n m \<Longrightarrow> name_compare lt n m < 0"
proof (induction n arbitrary: m)
  case Nil
  then show ?case by (cases m) auto
next
  case (Cons a n)
  then show ?case by (cases m) auto
qed

abbreviation names_sorted :: "comp_less \<Rightarrow> name list \<Rightarrow> bool" where
  "names_sorted lt \<equiv> sorted_wrt (\<lambda>a b. name_compare lt a b < 0)"

lemma names_sorted_distinct: "names_sorted lt xs \<Longrightarrow> distinct xs"
  by (induction xs) auto

lemma names_sorted_insert:
  assumes lt: "strict_order lt" and "names_sorted lt xs" "n \<notin> set xs"
  shows "names_sorted lt (takeWhile (\<lambda>x. name_compare lt x n < 0) xs @ n # dropWhile (\<lambda>x. name_compare lt x n < 0) xs)"
  using assms(2,3)
proof (induction xs)
  case (Cons x xs)
  show ?case
  proof (cases "name_compare lt x n < 0")
    case True
    have "\<forall>y\<in>set (takeWhile (\<lambda>x. name_compare lt x n < 0) xs @ n # dropWhile (\<lambda>x. name_compare lt x n < 0) xs). name_compare lt x y < 0"
      using Cons.prems True by (auto dest: set_takeWhileD set_dropWhileD)
    then show ?thesis using Cons True by simp
  next
    case False
    then have nx: "name_compare lt n x < 0"
      using Cons.prems(2) name_compare_pos [OF lt, of x n] name_compare_zero [of lt x n] by (auto simp del: name_compare_zero)
    then have "\<forall>y\<in>set (x # xs). name_compare lt n y < 0"
      using Cons.prems(1) name_compare_trans [OF lt nx] by auto
    then show ?thesis using Cons.prems False by simp
  qed
qed simp

text \<open>Below a name in the order, its extensions come first.\<close>

lemma descendants_block:
  assumes lt: "strict_order lt" and "names_sorted lt xs" "n \<in> set xs"
  shows "takeWhile (prefix n) (tl (dropWhile (\<lambda>x. x \<noteq> n) xs)) = filter (strict_prefix n) xs"
  using assms(2,3)
proof (induction xs)
  case (Cons x xs)
  show ?case
  proof (cases "x = n")
    case True
    have after: "\<forall>y\<in>set xs. name_compare lt n y < 0" using Cons.prems(1) True by simp
    have "takeWhile (prefix n) xs = filter (strict_prefix n) xs" if "names_sorted lt xs" "\<forall>y\<in>set xs. name_compare lt n y < 0" for xs
      using that
    proof (induction xs)
      case (Cons y ys)
      have ny: "n \<noteq> y" using Cons.prems(2) by auto
      show ?case
      proof (cases "prefix n y")
        case True
        then show ?thesis using Cons ny by (simp add: strict_prefix_def)
      next
        case False
        have "\<not> prefix n z" if "z \<in> set ys" for z
          using compare_between [OF lt, of n y z] Cons.prems that False by auto
        then have "filter (strict_prefix n) ys = []" by (auto simp: filter_empty_conv strict_prefix_def)
        moreover have "\<not> strict_prefix n y" using False by (simp add: strict_prefix_def)
        ultimately show ?thesis using False by simp
      qed
    qed simp
    then show ?thesis using True Cons.prems(1) after by simp
  next
    case False
    have "name_compare lt x n < 0" using Cons.prems False by auto
    then have "\<not> name_compare lt n x < 0" using name_compare_pos [OF lt, of n x] by linarith
    then have "\<not> strict_prefix n x" using compare_strict_prefix [of n x lt] by blast
    then show ?thesis using False Cons by simp
  qed
qed simp


subsection \<open>The state besides the tree\<close>

definition strip :: "RibEntry \<Rightarrow> name \<times> Route list \<times> Route list \<times> 64 word" where
  "strip e = (re_name e, m_routes e, re_inheritedRoutes e, m_nRoutesWithCaptureSet e)"

definition frame :: "Rib \<Rightarrow> (name \<times> name \<times> Route list \<times> Route list \<times> 64 word) list \<times> (nat \<times> name list) list \<times> 64 word" where
  "frame rib = (map (\<lambda>(n, e). (n, strip e)) (m_rib rib), m_faceMap rib, m_nItems rib)"

abbreviation node :: "RibEntry \<Rightarrow> name option \<times> name list" where
  "node e \<equiv> (re_parent e, re_children e)"

text \<open>The tree: the parent and the children of every entry.\<close>

definition tree :: "Rib \<Rightarrow> name \<Rightarrow> (name option \<times> name list) option" where
  "tree rib n = map_option node (entry_of rib n)"

lemma entry_put [simp]: "entry_of (put_entry n e rib) = (entry_of rib)(n \<mapsto> e)"
  by (auto simp: put_entry_def update_conv')

lemma put_entry_frame [simp]:
  "m_faceMap (put_entry n e rib) = m_faceMap rib" "m_nItems (put_entry n e rib) = m_nItems rib"
  by (simp_all add: put_entry_def)

lemma map_update_same:
  "map_of xs n = Some e \<Longrightarrow> f e' = f e \<Longrightarrow> map (\<lambda>(n, e). (n, f e)) (AList.update n e' xs) = map (\<lambda>(n, e). (n, f e)) xs"
  by (induction xs) auto

lemma frame_put: "entry_of rib n = Some e \<Longrightarrow> strip e' = strip e \<Longrightarrow> frame (put_entry n e' rib) = frame rib"
  by (simp add: frame_def put_entry_def map_update_same)

lemma tree_put: "tree (put_entry n e rib) = (tree rib)(n \<mapsto> node e)"
  by (auto simp: tree_def fun_eq_iff)

lemma dom_tree: "dom (tree rib) = dom (entry_of rib)"
  by (auto simp: tree_def dom_def)

lemma frameD:
  assumes "frame rib' = frame rib"
  shows "map fst (m_rib rib') = map fst (m_rib rib)" "m_faceMap rib' = m_faceMap rib" "m_nItems rib' = m_nItems rib"
    "map_option strip (entry_of rib' n) = map_option strip (entry_of rib n)"
    "map (\<lambda>(n, e). length (m_routes e)) (m_rib rib') = map (\<lambda>(n, e). length (m_routes e)) (m_rib rib)"
proof -
  have m: "map (\<lambda>(n, e). (n, strip e)) (m_rib rib') = map (\<lambda>(n, e). (n, strip e)) (m_rib rib)"
    using assms by (simp add: frame_def)
  have k: "map fst (map (\<lambda>(n, e). (n, strip e)) xs) = map fst xs" for xs :: "(name \<times> RibEntry) list"
    by (induction xs) auto
  have l: "map (\<lambda>x. length (fst (snd (snd x)))) (map (\<lambda>(n, e). (n, strip e)) xs) = map (\<lambda>(n, e). length (m_routes e)) xs"
    for xs :: "(name \<times> RibEntry) list" by (induction xs) (auto simp: strip_def)
  show "map fst (m_rib rib') = map fst (m_rib rib)" using k [of "m_rib rib'"] k [of "m_rib rib"] m by simp
  show "map (\<lambda>(n, e). length (m_routes e)) (m_rib rib') = map (\<lambda>(n, e). length (m_routes e)) (m_rib rib)"
    using l [of "m_rib rib'"] l [of "m_rib rib"] m by simp
  have "map_of (map (\<lambda>(n, e). (n, strip e)) xs) n = map_option strip (map_of xs n)" for xs
    by (induction xs) auto
  from this [of "m_rib rib'"] this [of "m_rib rib"] m
  show "map_option strip (entry_of rib' n) = map_option strip (entry_of rib n)" by simp
qed (use assms in \<open>simp_all add: frame_def\<close>)

subsection \<open>Moving nodes\<close>

lemma addChild_spec:
  assumes "tree rib c = Some (None, cs)" "tree rib n = Some (p, ds)" "c \<noteq> n"
  shows "\<exists>rib'. addChild n c rib = Some rib' \<and> frame rib' = frame rib \<and>
    tree rib' = (tree rib)(c \<mapsto> (Some n, cs), n \<mapsto> (p, ds @ [c]))"
proof -
  obtain ce where ce: "entry_of rib c = Some ce" "re_parent ce = None" "re_children ce = cs"
    using assms(1) by (auto simp: tree_def)
  obtain ne where ne: "entry_of rib n = Some ne" "re_parent ne = p" "re_children ne = ds"
    using assms(2) by (auto simp: tree_def)
  define rib1 where "rib1 = put_entry c (ce\<lparr>re_parent := Some n\<rparr>) rib"
  have n1: "entry_of rib1 n = Some ne" using ne assms(3) by (simp add: rib1_def)
  have "frame rib1 = frame rib" unfolding rib1_def by (rule frame_put [OF ce(1)]) (simp add: strip_def)
  moreover have "frame (put_entry n (ne\<lparr>re_children := ds @ [c]\<rparr>) rib1) = frame rib1"
    by (rule frame_put [OF n1]) (simp add: strip_def)
  moreover have "addChild n c rib = Some (put_entry n (ne\<lparr>re_children := ds @ [c]\<rparr>) rib1)"
    using ce ne n1 by (simp add: addChild_def rib1_def)
  moreover have "tree (put_entry n (ne\<lparr>re_children := ds @ [c]\<rparr>) rib1) = (tree rib)(c \<mapsto> (Some n, cs), n \<mapsto> (p, ds @ [c]))"
    using ce ne by (simp add: tree_put rib1_def)
  ultimately show ?thesis by metis
qed

lemma removeChild_spec:
  assumes "tree rib c = Some (Some n, cs)" "tree rib n = Some (p, ds)" "c \<noteq> n"
  shows "\<exists>rib'. removeChild n c rib = Some rib' \<and> frame rib' = frame rib \<and>
    tree rib' = (tree rib)(c \<mapsto> (None, cs), n \<mapsto> (p, removeAll c ds))"
proof -
  obtain ce where ce: "entry_of rib c = Some ce" "re_parent ce = Some n" "re_children ce = cs"
    using assms(1) by (auto simp: tree_def)
  obtain ne where ne: "entry_of rib n = Some ne" "re_parent ne = p" "re_children ne = ds"
    using assms(2) by (auto simp: tree_def)
  define rib1 where "rib1 = put_entry c (ce\<lparr>re_parent := None\<rparr>) rib"
  have n1: "entry_of rib1 n = Some ne" using ne assms(3) by (simp add: rib1_def)
  have "frame rib1 = frame rib" unfolding rib1_def by (rule frame_put [OF ce(1)]) (simp add: strip_def)
  moreover have "frame (put_entry n (ne\<lparr>re_children := removeAll c ds\<rparr>) rib1) = frame rib1"
    by (rule frame_put [OF n1]) (simp add: strip_def)
  moreover have "removeChild n c rib = Some (put_entry n (ne\<lparr>re_children := removeAll c ds\<rparr>) rib1)"
    using ce ne n1 by (simp add: removeChild_def rib1_def)
  moreover have "tree (put_entry n (ne\<lparr>re_children := removeAll c ds\<rparr>) rib1) = (tree rib)(c \<mapsto> (None, cs), n \<mapsto> (p, removeAll c ds))"
    using ce ne by (simp add: tree_put rib1_def)
  ultimately show ?thesis by metis
qed

lemma removeAll_as_filter: "removeAll c xs = filter (\<lambda>x. x \<noteq> c) xs"
  by (induction xs) auto

text \<open>A new node n takes the nodes S, which were below p, as its children.\<close>

definition adopted :: "name \<Rightarrow> name option \<Rightarrow> name list \<Rightarrow> (name \<rightharpoonup> name option \<times> name list) \<Rightarrow> name \<rightharpoonup> name option \<times> name list" where
  "adopted n p S T m =
     (if m \<in> set S then map_option (\<lambda>(_, cs). (Some n, cs)) (T m)
      else if m = n then map_option (\<lambda>(q, cs). (q, cs @ S)) (T m)
      else if p = Some m then map_option (\<lambda>(q, cs). (q, filter (\<lambda>c. c \<notin> set S) cs)) (T m)
      else T m)"

lemma adopted_Nil: "adopted n p [] T = T"
  by (auto simp: adopted_def fun_eq_iff option.map_ident_strong split: prod.splits)

lemma adopt_one:
  assumes c: "tree rib c = Some (p, cs)" "tree rib n = Some nd" "c \<noteq> n" "p \<noteq> Some n" "p \<noteq> Some c"
    and p: "\<And>q. p = Some q \<Longrightarrow> tree rib q \<noteq> None"
  shows "\<exists>rib'. (do { rib \<leftarrow> (case p of None \<Rightarrow> Some rib | Some p \<Rightarrow> removeChild p c rib); addChild n c rib }) = Some rib' \<and>
    frame rib' = frame rib \<and> tree rib' = adopted n p [c] (tree rib)"
proof (cases p)
  case None
  obtain q ds where nd: "nd = (q, ds)" by (cases nd)
  obtain rib' where "addChild n c rib = Some rib'" "frame rib' = frame rib" "tree rib' = (tree rib)(c \<mapsto> (Some n, cs), n \<mapsto> (q, ds @ [c]))"
    using addChild_spec [OF c(1) [unfolded None] c(2) [unfolded nd] c(3)] by (elim exE conjE) (rule that)
  moreover have "(tree rib)(c \<mapsto> (Some n, cs), n \<mapsto> (q, ds @ [c])) = adopted n p [c] (tree rib)"
    using c nd None by (auto simp: adopted_def fun_eq_iff)
  ultimately show ?thesis using None by simp
next
  case (Some q)
  obtain r ds where nd: "nd = (r, ds)" by (cases nd)
  obtain qp qs where q: "tree rib q = Some (qp, qs)" using p [OF Some] by (cases "tree rib q") auto
  have cq: "c \<noteq> q" and nq: "n \<noteq> q" using c(4,5) Some by auto
  obtain rib1 where r1: "removeChild q c rib = Some rib1" "frame rib1 = frame rib"
    "tree rib1 = (tree rib)(c \<mapsto> (None, cs), q \<mapsto> (qp, removeAll c qs))"
    using removeChild_spec [OF c(1) [unfolded Some] q cq] by (elim exE conjE) (rule that)
  have c1: "tree rib1 c = Some (None, cs)" and n1: "tree rib1 n = Some (r, ds)"
    using c(2,3) nd cq nq by (simp_all add: r1(3))
  obtain rib' where r2: "addChild n c rib1 = Some rib'" "frame rib' = frame rib1" "tree rib' = (tree rib1)(c \<mapsto> (Some n, cs), n \<mapsto> (r, ds @ [c]))"
    using addChild_spec [OF c1 n1 c(3)] by (elim exE conjE) (rule that)
  have "tree rib' = adopted n p [c] (tree rib)"
    using c nd q cq nq Some unfolding r2(3) r1(3) by (auto simp: adopted_def fun_eq_iff removeAll_as_filter)
  then show ?thesis using r1 r2 Some by simp
qed

lemma adopt_spec:
  assumes "distinct cs" "n \<notin> set cs" "p \<noteq> Some n" "\<And>q. p = Some q \<Longrightarrow> q \<notin> set cs \<and> tree rib q \<noteq> None"
    "tree rib n \<noteq> None" "\<forall>c\<in>set cs. tree rib c \<noteq> None"
  shows "\<exists>rib'. adopt n p cs rib = Some rib' \<and> frame rib' = frame rib \<and>
    tree rib' = adopted n p (filter (\<lambda>c. fst (the (tree rib c)) = p) cs) (tree rib)"
  using assms
proof (induction cs arbitrary: rib)
  case Nil
  then show ?case by (simp add: adopted_Nil)
next
  case (Cons c cs)
  obtain ce where ce: "entry_of rib c = Some ce" using Cons.prems(6) by (auto simp: tree_def)
  have tc: "tree rib c = Some (node ce)" using ce by (simp add: tree_def)
  show ?case
  proof (cases "re_parent ce = p")
    case False
    have q: "q \<notin> set cs \<and> tree rib q \<noteq> None" if "p = Some q" for q using Cons.prems(4) [OF that] by simp
    show ?thesis using Cons.IH [of rib] Cons.prems q False ce tc by simp
  next
    case True
    obtain nd where nd: "tree rib n = Some nd" using Cons.prems(5) by auto
    have q1: "tree rib q \<noteq> None" if "p = Some q" for q using Cons.prems(4) [OF that] by simp
    have pc: "p \<noteq> Some c" using Cons.prems(4) [of c] by auto
    obtain rib1 where r1: "(do { rib \<leftarrow> (case p of None \<Rightarrow> Some rib | Some p \<Rightarrow> removeChild p c rib); addChild n c rib }) = Some rib1"
      "frame rib1 = frame rib" "tree rib1 = adopted n p [c] (tree rib)"
      using adopt_one [of rib c p "re_children ce" n nd] tc True nd Cons.prems(2,3) pc q1 by (auto simp del: not_None_eq)
    have dom1: "tree rib1 m = None \<longleftrightarrow> tree rib m = None" for m
      unfolding r1(3) by (auto simp: adopted_def split: option.splits)
    have same: "tree rib1 m = tree rib m" if "m \<in> set cs" for m
      using that Cons.prems(1,2,4) unfolding r1(3) by (auto simp: adopted_def)
    have q2: "q \<notin> set cs \<and> tree rib1 q \<noteq> None" if "p = Some q" for q
      using Cons.prems(4) [OF that] dom1 [of q] by simp
    obtain rib' where r': "adopt n p cs rib1 = Some rib'" "frame rib' = frame rib1"
      "tree rib' = adopted n p (filter (\<lambda>c. fst (the (tree rib1 c)) = p) cs) (tree rib1)"
      using Cons.IH [of rib1] Cons.prems(1,2,3,5,6) q2 dom1 by (auto simp del: not_None_eq)
    have S: "filter (\<lambda>c. fst (the (tree rib1 c)) = p) cs = filter (\<lambda>c. fst (the (tree rib c)) = p) cs"
      by (rule filter_cong) (auto simp: same)
    define S where "S = filter (\<lambda>c. fst (the (tree rib c)) = p) cs"
    have cS: "c \<notin> set S" "n \<notin> set S" using Cons.prems(1,2) by (auto simp: S_def)
    have pS: "q \<notin> set S" if "p = Some q" for q using q2 [OF that] by (auto simp: S_def)
    have "adopted n p S (adopted n p [c] (tree rib)) = adopted n p (c # S) (tree rib)"
      using cS pS Cons.prems(2,3) pc by (auto simp: adopted_def fun_eq_iff option.map_comp comp_def split: prod.splits intro!: option.map_cong)
    then have "tree rib' = adopted n p (filter (\<lambda>c. fst (the (tree rib c)) = p) (c # cs)) (tree rib)"
      using tc True unfolding r'(3) S unfolding r1(3) by (simp add: S_def)
    moreover have "adopt n p (c # cs) rib = Some rib'" using ce True r1(1) r'(1) by (auto split: Option.bind_splits)
    ultimately show ?thesis using r'(2) r1(2) by simp
  qed
qed


text \<open>The nodes S below n are handed over to its parent p.\<close>

definition handed :: "name \<Rightarrow> name option \<Rightarrow> name list \<Rightarrow> (name \<rightharpoonup> name option \<times> name list) \<Rightarrow> name \<rightharpoonup> name option \<times> name list" where
  "handed n p S T m =
     (if m \<in> set S then map_option (\<lambda>(_, cs). (p, cs)) (T m)
      else if m = n then map_option (\<lambda>(q, cs). (q, filter (\<lambda>c. c \<notin> set S) cs)) (T m)
      else if p = Some m then map_option (\<lambda>(q, cs). (q, cs @ S)) (T m)
      else T m)"

lemma handed_Nil: "handed n p [] T = T"
  by (auto simp: handed_def fun_eq_iff option.map_ident_strong split: prod.splits)

lemma hand_one:
  assumes c: "tree rib c = Some (Some n, cs)" "tree rib n = Some nd" "c \<noteq> n" "p \<noteq> Some n" "p \<noteq> Some c"
    and p: "\<And>q. p = Some q \<Longrightarrow> tree rib q \<noteq> None"
  shows "\<exists>rib'. (do { rib \<leftarrow> removeChild n c rib; case p of None \<Rightarrow> Some rib | Some p \<Rightarrow> addChild p c rib }) = Some rib' \<and>
    frame rib' = frame rib \<and> tree rib' = handed n p [c] (tree rib)"
proof -
  obtain r ds where nd: "nd = (r, ds)" by (cases nd)
  obtain rib1 where r1: "removeChild n c rib = Some rib1" "frame rib1 = frame rib"
    "tree rib1 = (tree rib)(c \<mapsto> (None, cs), n \<mapsto> (r, removeAll c ds))"
    using removeChild_spec [OF c(1) c(2) [unfolded nd] c(3)] by (elim exE conjE) (rule that)
  show ?thesis
  proof (cases p)
    case None
    then have "tree rib1 = handed n p [c] (tree rib)"
      using c nd unfolding r1(3) by (auto simp: handed_def fun_eq_iff removeAll_as_filter)
    then show ?thesis using r1 None by simp
  next
    case (Some q)
    obtain qp qs where q: "tree rib q = Some (qp, qs)" using p [OF Some] by (cases "tree rib q") auto
    have cq: "c \<noteq> q" and nq: "n \<noteq> q" using c(4,5) Some by auto
    have c1: "tree rib1 c = Some (None, cs)" and q1: "tree rib1 q = Some (qp, qs)"
      using c(3) q cq nq by (simp_all add: r1(3))
    obtain rib' where r2: "addChild q c rib1 = Some rib'" "frame rib' = frame rib1" "tree rib' = (tree rib1)(c \<mapsto> (Some q, cs), q \<mapsto> (qp, qs @ [c]))"
      using addChild_spec [OF c1 q1 cq] by (elim exE conjE) (rule that)
    have "tree rib' = handed n p [c] (tree rib)"
      using c nd q cq nq Some unfolding r2(3) r1(3) by (auto simp: handed_def fun_eq_iff removeAll_as_filter)
    then show ?thesis using r1 r2 Some by simp
  qed
qed

lemma hand_over_spec:
  assumes "distinct cs" "n \<notin> set cs" "p \<noteq> Some n" "\<And>q. p = Some q \<Longrightarrow> q \<notin> set cs \<and> tree rib q \<noteq> None"
    "tree rib n \<noteq> None" "\<forall>c\<in>set cs. \<exists>ds. tree rib c = Some (Some n, ds)"
  shows "\<exists>rib'. hand_over n p cs rib = Some rib' \<and> frame rib' = frame rib \<and> tree rib' = handed n p cs (tree rib)"
  using assms
proof (induction cs arbitrary: rib)
  case Nil
  then show ?case by (simp add: handed_Nil)
next
  case (Cons c cs)
  obtain ds where tc: "tree rib c = Some (Some n, ds)" using Cons.prems(6) by auto
  obtain nd where nd: "tree rib n = Some nd" using Cons.prems(5) by auto
  have q1: "tree rib q \<noteq> None" if "p = Some q" for q using Cons.prems(4) [OF that] by simp
  have pc: "p \<noteq> Some c" using Cons.prems(4) [of c] by auto
  obtain rib1 where r1: "(do { rib \<leftarrow> removeChild n c rib; case p of None \<Rightarrow> Some rib | Some p \<Rightarrow> addChild p c rib }) = Some rib1"
    "frame rib1 = frame rib" "tree rib1 = handed n p [c] (tree rib)"
    using hand_one [of rib c n ds nd p] tc nd Cons.prems(2,3) pc q1 by (auto simp del: not_None_eq)
  have dom1: "tree rib1 m = None \<longleftrightarrow> tree rib m = None" for m
    unfolding r1(3) by (auto simp: handed_def split: option.splits)
  have same: "tree rib1 m = tree rib m" if "m \<in> set cs" for m
    using that Cons.prems(1,2,4) unfolding r1(3) by (auto simp: handed_def)
  have q2: "q \<notin> set cs \<and> tree rib1 q \<noteq> None" if "p = Some q" for q
    using Cons.prems(4) [OF that] dom1 [of q] by simp
  have below: "\<forall>c\<in>set cs. \<exists>ds. tree rib1 c = Some (Some n, ds)" using Cons.prems(6) same by simp
  obtain rib' where r': "hand_over n p cs rib1 = Some rib'" "frame rib' = frame rib1" "tree rib' = handed n p cs (tree rib1)"
    using Cons.IH [of rib1] Cons.prems(1,2,3,5) q2 dom1 below by (auto simp del: not_None_eq)
  have c: "c \<notin> set cs" "n \<notin> set cs" using Cons.prems(1,2) by auto
  have pS: "q \<notin> set cs" if "p = Some q" for q using q2 [OF that] by auto
  have "handed n p cs (handed n p [c] (tree rib)) = handed n p (c # cs) (tree rib)"
    using c pS Cons.prems(2,3) pc by (auto simp: handed_def fun_eq_iff option.map_comp comp_def split: prod.splits intro!: option.map_cong)
  then have "tree rib' = handed n p (c # cs) (tree rib)" unfolding r'(3) r1(3) .
  moreover have "hand_over n p (c # cs) rib = Some rib'" using r1(1) r'(1) by (auto split: Option.bind_splits)
  ultimately show ?case using r'(2) r1(2) by simp
qed

subsection \<open>Well-formed trees\<close>

definition rib_tree_ok :: "(name \<rightharpoonup> name option \<times> name list) \<Rightarrow> bool" where
  "rib_tree_ok T \<longleftrightarrow> (\<forall>n p cs. T n = Some (p, cs) \<longrightarrow>
     p = par (dom T) n \<and> distinct cs \<and> set cs = {c \<in> dom T. par (dom T) c = Some n})"

lemma rib_tree_okD:
  assumes "rib_tree_ok T" "T n = Some (p, cs)"
  shows "p = par (dom T) n" "distinct cs" "set cs = {c \<in> dom T. par (dom T) c = Some n}"
  using assms unfolding rib_tree_ok_def by blast+

definition linked :: "name \<Rightarrow> name option \<Rightarrow> (name \<rightharpoonup> name option \<times> name list) \<Rightarrow> name \<rightharpoonup> name option \<times> name list" where
  "linked n p T m = (if m = n then Some (p, []) else if p = Some m then map_option (\<lambda>(q, cs). (q, cs @ [n])) (T m) else T m)"

lemma rib_tree_ok_adopted:
  assumes T: "rib_tree_ok T" and n: "n \<notin> dom T" and p: "p = par (dom T) n"
    and S: "distinct S" "set S = {c \<in> dom T. strict_prefix n c \<and> par (dom T) c = p}"
  shows "rib_tree_ok (adopted n p S (linked n p T))"
proof -
  define D where "D = dom T"
  note TD = rib_tree_okD [OF T, folded D_def]
  have nD: "n \<notin> D" and pD: "par D n = p" and SD: "set S = {c \<in> D. strict_prefix n c \<and> par D c = p}"
    using n p S(2) by (simp_all add: D_def)
  have SDD: "c \<in> set S \<Longrightarrow> c \<in> D" for c using SD by simp
  have nS: "n \<notin> set S" using SDD nD by blast
  have pS: "q \<notin> set S" "q \<noteq> n" "q \<in> D" if "p = Some q" for q
    using par_SomeD [of D n q] that pD SD nD by (auto simp: prefix_order.less_not_sym)
  have Dom: "dom (adopted n p S (linked n p T)) = insert n D"
    using SD pS(3) by (auto simp: adopted_def linked_def D_def dom_def split: if_splits)
  have par: "par (insert n D) c = (if c \<in> set S then Some n else par D c)" if "c \<in> D" for c
    using that pD par_insert [OF nD, of c] SD by auto
  have parn: "par (insert n D) n = p" using par_insert_self [of n D] pD by simp
  have notn: "par D c \<noteq> Some n" for c using par_SomeD [of D c n] nD by auto
  have kids: "{c \<in> insert n D. par (insert n D) c = Some m} = {c \<in> D. par D c = Some m \<and> c \<notin> set S} \<union> {c. c = n \<and> p = Some m}"
    if "m \<noteq> n" for m using that parn nD by (auto simp: par split: if_splits)
  have kidsn: "{c \<in> insert n D. par (insert n D) c = Some n} = set S"
  proof (rule set_eqI)
    fix c
    have "p \<noteq> Some n" using pS(2) [of n] by blast
    then show "c \<in> {c \<in> insert n D. par (insert n D) c = Some n} \<longleftrightarrow> c \<in> set S"
      using parn nS notn [of c] par [of c] SDD [of c] by (cases "c = n"; cases "c \<in> D") (simp_all, blast)
  qed
  show ?thesis
    unfolding rib_tree_ok_def Dom
  proof (intro allI impI)
    fix m q cs
    assume m: "adopted n p S (linked n p T) m = Some (q, cs)"
    have mD: "m = n \<or> m \<in> D" using Dom m by auto
    consider (S) "m \<in> set S" "m \<noteq> n" "p \<noteq> Some m" "m \<in> D" | (n) "m = n" | (p) "m \<notin> set S" "m \<noteq> n" "p = Some m" "m \<in> D"
      | (other) "m \<notin> set S" "m \<noteq> n" "p \<noteq> Some m" "m \<in> D"
      using nS pS(1) mD by blast
    then show "q = par (insert n D) m \<and> distinct cs \<and> set cs = {c \<in> insert n D. par (insert n D) c = Some m}"
    proof cases
      case S
      obtain q' where Tm: "T m = Some (q', cs)" and q: "q = Some n"
        using m S by (auto simp: adopted_def linked_def split: option.splits)
      have "{c \<in> D. par D c = Some m \<and> c \<notin> set S} = {c \<in> D. par D c = Some m}" using SD S(3) by auto
      then show ?thesis unfolding kids [OF S(2)] using TD [OF Tm] par [OF S(4)] S q by simp
    next
      case n
      then have "q = p" "cs = S" using m nS by (auto simp: adopted_def linked_def)
      then show ?thesis using n parn kidsn assms(4) by simp
    next
      case p
      obtain cs' where Tm: "T m = Some (q, cs')" and cs: "cs = filter (\<lambda>c. c \<notin> set S) (cs' @ [n])"
        using m p by (auto simp: adopted_def linked_def split: option.splits)
      have "n \<notin> set cs'" using TD(3) [OF Tm] nD by auto
      moreover have "set cs = {c \<in> D. par D c = Some m \<and> c \<notin> set S} \<union> {c. c = n \<and> p = Some m}"
        unfolding cs using TD(3) [OF Tm] nS p(3) by auto
      ultimately show ?thesis unfolding kids [OF p(2)] using TD(1,2) [OF Tm] par [OF p(4)] p(1) cs nS by simp
    next
      case other
      have Tm: "T m = Some (q, cs)" using m other by (auto simp: adopted_def linked_def)
      have "{c \<in> D. par D c = Some m \<and> c \<notin> set S} = {c \<in> D. par D c = Some m}" using SD other(3) by auto
      then show ?thesis unfolding kids [OF other(2)] using TD [OF Tm] par [OF other(4)] other by simp
    qed
  qed
qed

definition unlinked :: "name \<Rightarrow> name option \<Rightarrow> (name \<rightharpoonup> name option \<times> name list) \<Rightarrow> name \<rightharpoonup> name option \<times> name list" where
  "unlinked n p T m = (if p = Some m then map_option (\<lambda>(q, cs). (q, removeAll n cs)) (T m) else T m)"

lemma rib_tree_ok_handed:
  assumes T: "rib_tree_ok T" and n: "T n = Some (p, S)"
    and T': "\<And>m. m \<noteq> n \<Longrightarrow> T' m = handed n p S (unlinked n p T) m" "T' n = None"
  shows "rib_tree_ok T'"
proof -
  define D where "D = dom T"
  note TD = rib_tree_okD [OF T, folded D_def]
  note N = TD [OF n]
  have nD: "n \<in> D" using n by (auto simp: D_def)
  have nS: "n \<notin> set S" using N(3) par_self by auto
  have pS: "q \<notin> set S" "q \<noteq> n" "q \<in> D" if "p = Some q" for q
    using par_SomeD [of D n q] par_SomeD [of D q n] that N by (auto dest: prefix_order.less_asym)
  have none: "T' m = None \<longleftrightarrow> T m = None" if "m \<noteq> n" for m
    unfolding T'(1) [OF that] using that by (simp add: handed_def unlinked_def)
  have Dom: "dom T' = D - {n}"
  proof (rule set_eqI)
    fix m
    show "m \<in> dom T' \<longleftrightarrow> m \<in> D - {n}" using none [of m] T'(2) by (cases "m = n") (simp_all add: domIff D_def)
  qed
  have par: "par (D - {n}) c = (if par D c = Some n then p else par D c)" for c
    using par_delete [OF nD, of c] N(1) by simp
  have pD: "par D n = p" using N(1) by simp
  have kids: "{c \<in> D - {n}. par (D - {n}) c = Some m} = {c \<in> D - {n}. par D c = Some m} \<union> {c. c \<in> set S \<and> p = Some m}"
    if "m \<noteq> n" for m
  proof (rule set_eqI)
    fix c
    show "c \<in> {c \<in> D - {n}. par (D - {n}) c = Some m} \<longleftrightarrow> c \<in> {c \<in> D - {n}. par D c = Some m} \<union> {c. c \<in> set S \<and> p = Some m}"
    proof (cases "c = n")
      case True
      then show ?thesis using nS by simp
    next
      case False
      have "c \<in> set S \<longleftrightarrow> c \<in> D \<and> par D c = Some n" unfolding N(3) by simp
      then show ?thesis using that False par [of c] by (cases "par D c = Some n") auto
    qed
  qed
  show ?thesis
    unfolding rib_tree_ok_def Dom
  proof (intro allI impI)
    fix m q cs
    assume m: "T' m = Some (q, cs)"
    then have mn: "m \<noteq> n" using T'(2) by auto
    have mD: "m \<in> D" using Dom m by auto
    have h: "handed n p S (unlinked n p T) m = Some (q, cs)" using m T'(1) [OF mn] by simp
    consider (S) "m \<in> set S" "p \<noteq> Some m" | (p) "m \<notin> set S" "p = Some m" | (other) "m \<notin> set S" "p \<noteq> Some m"
      using pS(1) by blast
    then show "q = par (D - {n}) m \<and> distinct cs \<and> set cs = {c \<in> D - {n}. par (D - {n}) c = Some m}"
    proof cases
      case S
      obtain q' where Tm: "T m = Some (q', cs)" and q: "q = p"
        using h S by (auto simp: handed_def unlinked_def split: option.splits)
      have "{c \<in> D - {n}. par D c = Some m} = {c \<in> D. par D c = Some m}" using pD S(2) by auto
      then show ?thesis unfolding kids [OF mn] using TD [OF Tm] par [of m] S q N(3) by simp
    next
      case p
      obtain cs' where Tm: "T m = Some (q, cs')" and cs: "cs = removeAll n cs' @ S"
        using h p mn by (auto simp: handed_def unlinked_def split: option.splits)
      have "par D m \<noteq> Some n" using p(1) N(3) mD by auto
      moreover have "set cs' \<inter> set S = {}" unfolding TD(3) [OF Tm] N(3) using mn by auto
      moreover have "set cs = {c \<in> D - {n}. par D c = Some m} \<union> {c. c \<in> set S \<and> p = Some m}"
        unfolding cs using TD(3) [OF Tm] p(2) by (simp add: set_eq_iff) blast
      moreover have "distinct cs" unfolding cs using TD(2) [OF Tm] N(2) calculation(2) by (auto simp: distinct_removeAll)
      ultimately show ?thesis unfolding kids [OF mn] using TD(1) [OF Tm] par [of m] by simp
    next
      case other
      have Tm: "T m = Some (q, cs)" using h other mn by (auto simp: handed_def unlinked_def)
      have "{c \<in> D - {n}. par D c = Some m} = {c \<in> D. par D c = Some m}" using pD other(2) by auto
      moreover have "par D m \<noteq> Some n" using other(1) N(3) mD by auto
      ultimately show ?thesis unfolding kids [OF mn] using TD [OF Tm] par [of m] other by simp
    qed
  qed
qed

end
