(* ===== verification/Rib_Invariant.thy ===== *)
theory Rib_Invariant
  imports Rib_Tree
begin

text \<open>
  The invariant of the routing information base, kept by insertion and removal of routes, and
  the refinement of a map from names, faces and origins to routes.
\<close>

subsection \<open>The invariant\<close>

abbreviation rkey :: "Route \<Rightarrow> nat \<times> nat" where
  "rkey r \<equiv> (faceId r, origin r)"

definition nroutes :: "(name \<times> RibEntry) list \<Rightarrow> nat" where
  "nroutes xs = sum_list (map (\<lambda>(n, e). length (m_routes e)) xs)"

definition face_names :: "Rib \<Rightarrow> nat \<Rightarrow> name list" where
  "face_names rib f = (case map_of (m_faceMap rib) f of None \<Rightarrow> [] | Some ns \<Rightarrow> ns)"

definition entry_ok :: "name \<Rightarrow> RibEntry \<Rightarrow> bool" where
  "entry_ok n e \<longleftrightarrow> re_name e = n \<and> m_routes e \<noteq> [] \<and> distinct (map rkey (m_routes e))"

definition faces_ok :: "Rib \<Rightarrow> bool" where
  "faces_ok rib \<longleftrightarrow> (\<forall>f n. n \<in> set (face_names rib f) \<longleftrightarrow> (\<exists>e. entry_of rib n = Some e \<and> hasFaceId f e))"

definition rib_ok :: "comp_less \<Rightarrow> Rib \<Rightarrow> bool" where
  "rib_ok lt rib \<longleftrightarrow> names_sorted lt (map fst (m_rib rib)) \<and> rib_tree_ok (tree rib) \<and> (\<forall>n e. entry_of rib n = Some e \<longrightarrow> entry_ok n e) \<and>
     m_nItems rib = of_nat (nroutes (m_rib rib)) \<and> faces_ok rib"

text \<open>The routes of the table, by name, face and origin.\<close>

definition routes_view :: "Rib \<Rightarrow> name \<times> nat \<times> nat \<Rightarrow> Route option" where
  "routes_view rib = (\<lambda>(n, k). case entry_of rib n of None \<Rightarrow> None | Some e \<Rightarrow> List.find (\<lambda>r. rkey r = k) (m_routes e))"

lemma rib_okD:
  assumes "rib_ok lt rib"
  shows "names_sorted lt (map fst (m_rib rib))" "rib_tree_ok (tree rib)" "entry_of rib n = Some e \<Longrightarrow> entry_ok n e"
    "m_nItems rib = of_nat (nroutes (m_rib rib))" "faces_ok rib"
  using assms unfolding rib_ok_def by blast+

lemma compare_key: "compareFaceIdAndOrigin r route \<longleftrightarrow> rkey r = rkey route"
  by (simp add: compareFaceIdAndOrigin_def)

lemma hasCapture_nonzero: "hasCapture e \<longleftrightarrow> m_nRoutesWithCaptureSet e \<noteq> 0"
  by (simp add: hasCapture_def word_neq_0_conv)

lemma findRoute_key: "findRoute route e = List.find (\<lambda>r. rkey r = rkey route) (m_routes e)"
  by (simp add: findRoute_def compare_key)

lemma hasFaceId_image: "hasFaceId f e \<longleftrightarrow> f \<in> faceId ` set (m_routes e)"
  by (auto simp: hasFaceId_def compareFaceId_def)

lemma face_names_register [simp]:
  "face_names (register_face f n rib) g = face_names rib g @ (if g = f then [n] else [])"
  by (simp add: face_names_def register_face_def update_conv split: option.splits)

lemma face_names_unregister [simp]:
  "face_names (unregister_face f n rib) g = (if g = f then removeAll n (face_names rib g) else face_names rib g)"
  by (simp add: face_names_def unregister_face_def update_conv split: option.splits)

lemma register_fields [simp]:
  "m_rib (register_face f n rib) = m_rib rib" "m_nItems (register_face f n rib) = m_nItems rib"
  "m_rib (unregister_face f n rib) = m_rib rib" "m_nItems (unregister_face f n rib) = m_nItems rib"
  by (simp_all add: register_face_def unregister_face_def)

lemma face_names_put [simp]:
  "face_names (put_entry n e rib) = face_names rib" "face_names (rib\<lparr>m_nItems := k\<rparr>) = face_names rib"
  "face_names (rib\<lparr>m_rib := xs\<rparr>) = face_names rib"
  by (simp_all add: face_names_def fun_eq_iff)

lemma tree_fields [simp]:
  "tree (register_face f n rib) = tree rib" "tree (unregister_face f n rib) = tree rib" "tree (rib\<lparr>m_nItems := k\<rparr>) = tree rib"
  by (simp_all add: tree_def fun_eq_iff)

subsection \<open>Counting routes\<close>

lemma nroutes_update: "map_of xs n = Some e \<Longrightarrow> nroutes (AList.update n e' xs) + length (m_routes e) = nroutes xs + length (m_routes e')"
  by (induction xs) (auto simp: nroutes_def)

lemma nroutes_delete: "distinct (map fst xs) \<Longrightarrow> map_of xs n = Some e \<Longrightarrow> nroutes (AList.delete n xs) + length (m_routes e) = nroutes xs"
proof (induction xs)
  case (Cons x xs)
  have "AList.delete n xs = xs" if "n \<notin> fst ` set xs" using that by (simp add: delete_idem)
  then show ?case using Cons by (cases x) (auto simp: nroutes_def)
qed simp

lemma nroutes_insert: "nroutes (takeWhile P xs @ (n, e) # dropWhile P xs) = nroutes xs + length (m_routes e)"
proof -
  have "nroutes xs = nroutes (takeWhile P xs @ dropWhile P xs)" by simp
  then show ?thesis by (simp add: nroutes_def del: takeWhile_dropWhile_id)
qed

lemma keys_delete: "map fst (AList.delete n xs) = filter (\<lambda>m. m \<noteq> n) (map fst xs)"
  by (induction xs) auto

lemma keys_put: "entry_of rib n = Some e \<Longrightarrow> map fst (m_rib (put_entry n e' rib)) = map fst (m_rib rib)"
  using keys_update_existing [of n "m_rib rib" e'] map_of_SomeD [of "m_rib rib" n e] by (force simp: put_entry_def)

lemma entry_insert_name:
  assumes "entry_of rib n = None"
  shows "entry_of (insert_name lt n e rib) = (entry_of rib)(n \<mapsto> e)"
proof -
  let ?P = "\<lambda>x. name_compare lt (fst x) n < 0"
  have "n \<notin> fst ` set (m_rib rib)" using assms by (simp add: map_of_eq_None_iff)
  then have t: "n \<notin> fst ` set (takeWhile ?P (m_rib rib))" using set_takeWhileD by fastforce
  have "entry_of rib = map_of (takeWhile ?P (m_rib rib) @ dropWhile ?P (m_rib rib))" by simp
  also have "\<dots> = map_of (dropWhile ?P (m_rib rib)) ++ map_of (takeWhile ?P (m_rib rib))" by (simp only: map_of_append)
  finally have V: "entry_of rib = \<dots>" .
  have "entry_of (insert_name lt n e rib) = (map_of (dropWhile ?P (m_rib rib)))(n \<mapsto> e) ++ map_of (takeWhile ?P (m_rib rib))"
    by (simp add: insert_name_def)
  also have "\<dots> = (entry_of rib)(n \<mapsto> e)"
    unfolding V using t by (simp add: map_add_upd_left dom_map_of_conv_image_fst)
  finally show ?thesis .
qed

subsection \<open>Entries that stay\<close>

lemma replace_entry_ok:
  assumes ok: "rib_ok lt rib" and e: "entry_of rib n = Some e" and e': "entry_ok n e'" "node e' = node e"
    and k: "k + of_nat (length (m_routes e)) = m_nItems rib + of_nat (length (m_routes e'))"
    and r: "m_rib rib' = m_rib (put_entry n e' rib)" "m_nItems rib' = k" "faces_ok rib'"
  shows "rib_ok lt rib'"
  unfolding rib_ok_def
proof (intro conjI)
  have V: "entry_of rib' = (entry_of rib)(n \<mapsto> e')" by (simp add: r)
  show "names_sorted lt (map fst (m_rib rib'))" using rib_okD(1) [OF ok] keys_put [OF e, of e'] by (simp add: r)
  have "tree rib' = tree rib" using e e'(2) by (auto simp: tree_def fun_eq_iff V)
  then show "rib_tree_ok (tree rib')" using rib_okD(2) [OF ok] by simp
  show "\<forall>m d. entry_of rib' m = Some d \<longrightarrow> entry_ok m d" using rib_okD(3) [OF ok] e'(1) by (simp add: V)
  have "of_nat (nroutes (m_rib rib') + length (m_routes e)) = (of_nat (nroutes (m_rib rib) + length (m_routes e')) :: 64 word)"
    using nroutes_update [OF e, of e'] by (simp add: r put_entry_def del: of_nat_add)
  then have "of_nat (nroutes (m_rib rib')) + of_nat (length (m_routes e)) = (k :: 64 word) + of_nat (length (m_routes e))"
    using k rib_okD(4) [OF ok] by simp
  then show "m_nItems rib' = of_nat (nroutes (m_rib rib'))" using r(2) by simp
  show "faces_ok rib'" by (rule r(3))
qed

lemma view_put:
  assumes "entry_of rib' = (entry_of rib)(n \<mapsto> e')"
    and "\<And>k. List.find (\<lambda>r. rkey r = k) (m_routes e') = (if k = j then v else routes_view rib (n, k))"
  shows "routes_view rib' = (routes_view rib)((n, j) := v)"
  using assms by (auto simp: routes_view_def fun_eq_iff)


lemma find_in_append: "List.find P (xs @ ys) = (case List.find P xs of None \<Rightarrow> List.find P ys | Some x \<Rightarrow> Some x)"
  by (induction xs) auto

lemma find_key_None: "List.find (\<lambda>r. rkey r = k) rs = None \<longleftrightarrow> k \<notin> rkey ` set rs"
  by (auto simp: find_eq_None)

definition insert_result :: "comp_less \<Rightarrow> name \<Rightarrow> Route \<Rightarrow> Rib \<Rightarrow> Rib \<Rightarrow> bool" where
  "insert_result lt n route rib rib' \<longleftrightarrow> Rib_insert lt n route rib = Some rib' \<and> rib_ok lt rib' \<and>
     routes_view rib' = (routes_view rib)((n, rkey route) \<mapsto> route)"

lemma insert_new_route:
  assumes ok: "rib_ok lt rib" and e: "entry_of rib n = Some e" and new: "findRoute route e = None"
  shows "\<exists>rib'. insert_result lt n route rib rib'"
proof -
  define e' where "e' = e\<lparr>m_nRoutesWithCaptureSet := (if isRibCapture route then m_nRoutesWithCaptureSet e + 1 else m_nRoutesWithCaptureSet e),
    m_routes := m_routes e @ [route]\<rparr>"
  have e': "m_routes e' = m_routes e @ [route]" "node e' = node e" "re_name e' = re_name e" by (simp_all add: e'_def)
  define rib' where "rib' = register_face (faceId route) n ((put_entry n e' rib)\<lparr>m_nItems := m_nItems rib + 1\<rparr>)"
  have new': "rkey route \<notin> rkey ` set (m_routes e)" using new unfolding findRoute_key find_key_None .
  have "Rib_insert lt n route rib = Some rib'"
    using e new by (simp add: Rib_insert_def insertRoute_def rib'_def e'_def)
  moreover have "rib_ok lt rib'"
  proof (rule replace_entry_ok [OF ok e, of e' "m_nItems rib + 1"])
    show "entry_ok n e'" using rib_okD(3) [OF ok e] new' by (simp add: entry_ok_def e')
    show "faces_ok rib'" using rib_okD(5) [OF ok] e by (auto simp: faces_ok_def rib'_def hasFaceId_image e')
  qed (simp_all add: e' rib'_def)
  moreover have "routes_view rib' = (routes_view rib)((n, rkey route) \<mapsto> route)"
  proof (rule view_put [of _ _ _ e'])
    show "entry_of rib' = (entry_of rib)(n \<mapsto> e')" by (simp add: rib'_def)
    fix k
    show "List.find (\<lambda>r. rkey r = k) (m_routes e') = (if k = rkey route then Some route else routes_view rib (n, k))"
      using new e by (auto simp: e' find_in_append routes_view_def findRoute_key split: option.splits)
  qed
  ultimately show ?thesis by (auto simp: insert_result_def)
qed

lemma insert_old_route:
  assumes ok: "rib_ok lt rib" and e: "entry_of rib n = Some e" and old: "findRoute route e = Some r"
  shows "\<exists>rib'. insert_result lt n route rib rib'"
proof -
  define e' where "e' = e\<lparr>m_routes := update_first (\<lambda>r. compareFaceIdAndOrigin r route) (\<lambda>_. route) (m_routes e)\<rparr>"
  have e': "m_routes e' = update_first (\<lambda>r. rkey r = rkey route) (\<lambda>_. route) (m_routes e)" "node e' = node e" "re_name e' = re_name e"
    by (simp_all add: e'_def compare_key)
  define rib' where "rib' = put_entry n e' rib"
  have keys: "map rkey (m_routes e') = map rkey (m_routes e)" unfolding e' by (rule map_update_first) simp
  have "length (m_routes e') = length (m_routes e)" by (simp add: e')
  have faces: "faceId ` set (m_routes e') = faceId ` set (m_routes e)"
    using arg_cong [OF keys, of "\<lambda>ks. fst ` set ks"] by (simp add: image_image)
  have "Rib_insert lt n route rib = Some rib'"
    using e old by (simp add: Rib_insert_def insertRoute_def rib'_def e'_def)
  moreover have "rib_ok lt rib'"
  proof (rule replace_entry_ok [OF ok e, of e' "m_nItems rib"])
    have "m_routes e' \<noteq> []" using rib_okD(3) [OF ok e] keys by (auto simp: entry_ok_def)
    then show "entry_ok n e'" using rib_okD(3) [OF ok e] keys by (simp add: entry_ok_def e'(3))
    show "faces_ok rib'" using rib_okD(5) [OF ok] e by (auto simp: faces_ok_def rib'_def hasFaceId_image faces)
  qed (simp_all add: e' rib'_def)
  moreover have "routes_view rib' = (routes_view rib)((n, rkey route) \<mapsto> route)"
  proof (rule view_put [of _ _ _ e'])
    show "entry_of rib' = (entry_of rib)(n \<mapsto> e')" by (simp add: rib'_def)
    fix k
    show "List.find (\<lambda>r. rkey r = k) (m_routes e') = (if k = rkey route then Some route else routes_view rib (n, k))"
    proof (cases "k = rkey route")
      case True
      then show ?thesis
        using old find_update_first_same [of "\<lambda>r. rkey r = rkey route" "\<lambda>_. route" "m_routes e"] by (simp add: e' findRoute_key)
    next
      case False
      have "List.find (\<lambda>r. rkey r = k) (m_routes e') = List.find (\<lambda>r. rkey r = k) (m_routes e)"
        unfolding e' by (rule find_update_first_other) (use False in auto)
      then show ?thesis using False e by (simp add: routes_view_def)
    qed
  qed
  ultimately show ?thesis by (auto simp: insert_result_def)
qed

subsection \<open>Entries that come\<close>

lemma findDescendants_filter:
  assumes "strict_order lt" "names_sorted lt (map fst (m_rib rib))" "entry_of rib n \<noteq> None"
  shows "findDescendants n rib = filter (strict_prefix n) (map fst (m_rib rib))"
proof -
  have "n \<in> set (map fst (m_rib rib))" using assms(3) by (auto simp: map_of_eq_None_iff)
  then show ?thesis
    using descendants_block [OF assms(1,2)]
    by (simp add: findDescendants_def takeWhile_map dropWhile_map comp_def map_tl [symmetric])
qed

lemma dom_keys: "dom (entry_of rib) = set (map fst (m_rib rib))"
  by (simp add: dom_map_of_conv_image_fst)

lemma insert_new_entry:
  assumes lt: "strict_order lt" and ok: "rib_ok lt rib" and n: "entry_of rib n = None"
  shows "\<exists>rib'. insert_result lt n route rib rib'"
proof -
  define e0 where "e0 = fst (insertRoute route (RibEntry_new n))"
  have e0: "m_routes e0 = [route]" "node e0 = (None, [])" "re_name e0 = n"
    by (simp_all add: e0_def insertRoute_def RibEntry_new_def findRoute_def)
  define s1 where "s1 = put_entry n e0 ((insert_name lt n (RibEntry_new n) rib)\<lparr>m_nItems := m_nItems rib + 1\<rparr>)"
  define p where "p = findParent n s1"
  have V1: "entry_of s1 = (entry_of rib)(n \<mapsto> e0)" by (simp add: s1_def entry_insert_name [OF n])
  have T1: "tree s1 = (tree rib)(n \<mapsto> (None, []))" by (auto simp: tree_def V1 e0 fun_eq_iff)
  have D: "dom (entry_of s1) = insert n (dom (tree rib))" by (simp add: V1 dom_tree)
  have nD: "n \<notin> dom (tree rib)" using n by (simp add: dom_tree domIff)
  have p: "p = par (dom (tree rib)) n" by (simp add: p_def findParent_par D par_insert_self)
  have pq: "q \<noteq> n" "tree rib q \<noteq> None" "strict_prefix q n" if "p = Some q" for q
    using par_SomeD [of "dom (tree rib)" n q] that p nD by auto
  have "\<exists>s2. (case p of None \<Rightarrow> Some s1 | Some q \<Rightarrow> addChild q n s1) = Some s2 \<and> frame s2 = frame s1 \<and> tree s2 = linked n p (tree rib)"
  proof (cases p)
    case None
    then show ?thesis using T1 by (auto simp: linked_def fun_eq_iff)
  next
    case (Some q)
    obtain qp qs where q: "tree rib q = Some (qp, qs)" using pq(2) [OF Some] by (cases "tree rib q") auto
    have 1: "tree s1 n = Some (None, [])" and 2: "tree s1 q = Some (qp, qs)" using T1 q pq(1) [OF Some] by simp_all
    obtain s2 where s2: "addChild q n s1 = Some s2" "frame s2 = frame s1" "tree s2 = (tree s1)(n \<mapsto> (Some q, []), q \<mapsto> (qp, qs @ [n]))"
      using addChild_spec [OF 1 2 pq(1) [OF Some, symmetric]] by (elim exE conjE) (rule that)
    have "tree s2 = linked n p (tree rib)" using Some q pq(1) [OF Some] by (auto simp: s2(3) T1 linked_def fun_eq_iff)
    then show ?thesis using s2 Some by simp
  qed
  then obtain s2 where s2: "(case p of None \<Rightarrow> Some s1 | Some q \<Rightarrow> addChild q n s1) = Some s2" "frame s2 = frame s1" "tree s2 = linked n p (tree rib)"
    by (elim exE conjE) (rule that)
  have sorted1: "names_sorted lt (map fst (m_rib s1))"
  proof -
    have "entry_of ((insert_name lt n (RibEntry_new n) rib)\<lparr>m_nItems := m_nItems rib + 1\<rparr>) n = Some (RibEntry_new n)"
      by (simp add: entry_insert_name [OF n])
    then have "map fst (m_rib s1) = map fst (m_rib (insert_name lt n (RibEntry_new n) rib))"
      unfolding s1_def by (subst keys_put) simp_all
    also have "\<dots> = takeWhile (\<lambda>x. name_compare lt x n < 0) (map fst (m_rib rib)) @ n # dropWhile (\<lambda>x. name_compare lt x n < 0) (map fst (m_rib rib))"
      by (simp add: insert_name_def takeWhile_map dropWhile_map comp_def)
    finally show ?thesis
      using names_sorted_insert [OF lt rib_okD(1) [OF ok], of n] n by (simp add: map_of_eq_None_iff)
  qed
  define cs where "cs = findDescendants n s2"
  have sorted2: "names_sorted lt (map fst (m_rib s2))" using sorted1 frameD(1) [OF s2(2)] by simp
  have n2: "entry_of s2 n \<noteq> None" using V1 frameD(4) [OF s2(2), of n] by auto
  have cs: "cs = filter (strict_prefix n) (map fst (m_rib s1))"
    unfolding cs_def findDescendants_filter [OF lt sorted2 n2] frameD(1) [OF s2(2)] ..
  have cs1: "distinct cs" "set cs = {c \<in> dom (tree rib). strict_prefix n c}"
    using names_sorted_distinct [OF sorted1] D unfolding cs dom_keys by auto
  have csq: "q \<notin> set cs" if "p = Some q" for q using pq(3) [OF that] cs1(2) by (auto dest: prefix_order.less_asym)
  have t2: "tree s2 c = tree rib c" if "c \<in> set cs" for c
    using that csq cs1(2) by (auto simp: s2(3) linked_def)
  define S where "S = filter (\<lambda>c. fst (the (tree s2 c)) = p) cs"
  have "\<exists>s3. adopt n p cs s2 = Some s3 \<and> frame s3 = frame s2 \<and> tree s3 = adopted n p S (tree s2)"
    unfolding S_def
  proof (rule adopt_spec [OF cs1(1)])
    show "n \<notin> set cs" using cs1(2) by auto
    show "p \<noteq> Some n" using pq(1) by auto
    show "q \<notin> set cs \<and> tree s2 q \<noteq> None" if "p = Some q" for q
      using csq [OF that] pq [OF that] that by (simp add: s2(3) linked_def)
    show "tree s2 n \<noteq> None" by (simp add: s2(3) linked_def)
    show "\<forall>c\<in>set cs. tree s2 c \<noteq> None" using t2 cs1(2) by (simp add: domIff)
  qed
  then obtain s3 where s3: "adopt n p cs s2 = Some s3" "frame s3 = frame s2" "tree s3 = adopted n p S (tree s2)"
    by (elim exE conjE) (rule that)
  have S: "distinct S" "set S = {c \<in> dom (tree rib). strict_prefix n c \<and> par (dom (tree rib)) c = p}"
  proof -
    show "distinct S" using cs1(1) by (simp add: S_def)
    have "fst (the (tree s2 c)) = par (dom (tree rib)) c" if "c \<in> set cs" for c
      using that t2 [OF that] rib_tree_okD(1) [OF rib_okD(2) [OF ok], of c] cs1(2) by (cases "tree rib c") auto
    then have "S = filter (\<lambda>c. par (dom (tree rib)) c = p) cs" unfolding S_def by (intro filter_cong) simp_all
    then show "set S = {c \<in> dom (tree rib). strict_prefix n c \<and> par (dom (tree rib)) c = p}"
      using cs1(2) by (simp only: set_filter) blast
  qed
  have T3: "rib_tree_ok (tree s3)"
    unfolding s3(3) s2(3) by (rule rib_tree_ok_adopted [OF rib_okD(2) [OF ok] nD p S])
  define rib' where "rib' = register_face (faceId route) n s3"
  have f3: "frame s3 = frame s1" using s2(2) s3(2) by simp
  note F = frameD [OF f3]
  have op: "Rib_insert lt n route rib = Some rib'"
    unfolding Rib_insert_def n option.case Let_def e0_def [symmetric] s1_def [symmetric] p_def [symmetric] s2(1)
    using s3(1) by (simp add: cs_def rib'_def)
  have ent: "\<exists>e. entry_of s1 m = Some e \<and> strip d = strip e" if "entry_of s3 m = Some d" for m d
    using that F(4) [of m] by (cases "entry_of s1 m") auto
  have ent': "\<exists>d. entry_of s3 m = Some d \<and> strip d = strip e" if "entry_of s1 m = Some e" for m e
    using that F(4) [of m] by (cases "entry_of s3 m") auto
  have "rib_ok lt rib'"
    unfolding rib_ok_def
  proof (intro conjI allI impI)
    show "names_sorted lt (map fst (m_rib rib'))" using sorted1 F(1) by (simp add: rib'_def)
    show "rib_tree_ok (tree rib')" using T3 by (simp add: rib'_def)
    show "entry_ok m d" if md: "entry_of rib' m = Some d" for m d
    proof -
      obtain e where e: "entry_of s1 m = Some e" "strip d = strip e" using ent [of m d] md by (auto simp: rib'_def)
      have "entry_ok n e0" by (simp add: entry_ok_def e0)
      then have "entry_ok m e" using e(1) rib_okD(3) [OF ok, of m e] by (auto simp: V1 split: if_splits)
      then show ?thesis using e(2) by (simp add: entry_ok_def strip_def)
    qed
    have "nroutes (m_rib s3) = nroutes (m_rib s1)" using F(5) by (simp add: nroutes_def)
    also have "\<dots> + 0 = nroutes (m_rib rib) + 1"
    proof -
      have x: "map_of (m_rib (insert_name lt n (RibEntry_new n) rib)) n = Some (RibEntry_new n)" by (simp add: entry_insert_name [OF n])
      have "nroutes (m_rib s1) + 0 = nroutes (m_rib (insert_name lt n (RibEntry_new n) rib)) + 1"
        using nroutes_update [OF x, of e0] by (simp add: s1_def put_entry_def e0 RibEntry_new_def)
      then show ?thesis by (simp add: insert_name_def nroutes_insert RibEntry_new_def)
    qed
    finally show "m_nItems rib' = of_nat (nroutes (m_rib rib'))"
      using F(3) rib_okD(4) [OF ok] by (simp add: rib'_def s1_def)
    show "faces_ok rib'"
      unfolding faces_ok_def
    proof (intro allI)
      fix f m
      have "face_names rib' f = face_names rib f @ (if f = faceId route then [n] else [])"
        unfolding rib'_def face_names_register using F(2) by (simp add: face_names_def s1_def insert_name_def)
      moreover have "(\<exists>e. entry_of rib' m = Some e \<and> hasFaceId f e) \<longleftrightarrow> (\<exists>e. entry_of s1 m = Some e \<and> hasFaceId f e)"
        using ent [of m] ent' [of m] by (fastforce simp: rib'_def hasFaceId_image strip_def)
      moreover have "m \<in> set (face_names rib f) \<longleftrightarrow> (\<exists>e. entry_of rib m = Some e \<and> hasFaceId f e)"
        using rib_okD(5) [OF ok] by (simp add: faces_ok_def)
      ultimately show "m \<in> set (face_names rib' f) \<longleftrightarrow> (\<exists>e. entry_of rib' m = Some e \<and> hasFaceId f e)"
        using n by (auto simp: V1 hasFaceId_image e0)
    qed
  qed
  moreover have "routes_view rib' = (routes_view rib)((n, rkey route) \<mapsto> route)"
  proof -
    have "routes_view rib' = routes_view s1"
    proof (rule ext, clarify)
      fix m f r
      show "routes_view rib' (m, f, r) = routes_view s1 (m, f, r)"
        using F(4) [of m] by (cases "entry_of s1 m"; cases "entry_of s3 m") (auto simp: routes_view_def rib'_def strip_def)
    qed
    also have "\<dots> = (routes_view rib)((n, rkey route) \<mapsto> route)"
      by (rule view_put [OF V1]) (auto simp: e0 routes_view_def n)
    finally show ?thesis .
  qed
  ultimately show ?thesis using op by (auto simp: insert_result_def)
qed


lemma Rib_insert_ok:
  assumes "strict_order lt" "rib_ok lt rib"
  shows "\<exists>rib'. Rib_insert lt n route rib = Some rib' \<and> rib_ok lt rib' \<and> routes_view rib' = (routes_view rib)((n, rkey route) \<mapsto> route)"
proof (cases "entry_of rib n")
  case None
  then show ?thesis using insert_new_entry [OF assms] by (auto simp: insert_result_def)
next
  case (Some e)
  then show ?thesis
    using insert_new_route [OF assms(2) Some] insert_old_route [OF assms(2) Some]
    by (cases "findRoute route e") (auto simp: insert_result_def)
qed

subsection \<open>Entries that go\<close>

lemma eraseRoute_routes:
  assumes "distinct (map rkey (m_routes e))" "findRoute route e \<noteq> None"
  shows "m_routes (eraseRoute route e) = filter (\<lambda>r. rkey r \<noteq> rkey route) (m_routes e)" "node (eraseRoute route e) = node e"
    "re_name (eraseRoute route e) = re_name e" "length (m_routes e) = length (m_routes (eraseRoute route e)) + 1"
proof -
  obtain r where r: "findRoute route e = Some r" using assms(2) by auto
  have "erase_first (\<lambda>r. compareFaceIdAndOrigin r route) (m_routes e) = filter (\<lambda>r. rkey r \<noteq> rkey route) (m_routes e)"
    using erase_first_key [OF assms(1), of "rkey route"] by (simp add: compare_key)
  then show routes: "m_routes (eraseRoute route e) = filter (\<lambda>r. rkey r \<noteq> rkey route) (m_routes e)"
    "node (eraseRoute route e) = node e" "re_name (eraseRoute route e) = re_name e"
    using r by (simp_all add: eraseRoute_def)
  have "length (erase_first P xs) + 1 = length xs" if "List.find P xs \<noteq> None" for P and xs :: "Route list"
    using that by (induction xs) auto
  from this [of "\<lambda>r. compareFaceIdAndOrigin r route" "m_routes e"]
  show "length (m_routes e) = length (m_routes (eraseRoute route e)) + 1"
    using r by (simp add: eraseRoute_def findRoute_def)
qed

lemma find_filter_key:
  "List.find (\<lambda>r. rkey r = k) (filter (\<lambda>r. rkey r \<noteq> j) rs) = (if k = j then None else List.find (\<lambda>r. rkey r = k) rs)"
  by (induction rs) auto

lemma erase_last_route:
  assumes ok: "rib_ok lt rib" and e: "entry_of rib n = Some e" "m_routes e = [r]"
    and s: "entry_of s = (entry_of rib)(n \<mapsto> e')" "node e' = node e" "map fst (m_rib s) = map fst (m_rib rib)"
      "nroutes (m_rib s) + 1 = nroutes (m_rib rib)" "m_routes e' = []" "m_nItems s = m_nItems rib - 1"
      "\<And>f. set (face_names s f) = set (face_names rib f) - {n}"
  shows "\<exists>rib'. eraseEntry n s = Some rib' \<and> rib_ok lt rib' \<and> routes_view rib' = (\<lambda>(m, k). if m = n then None else routes_view rib (m, k))"
proof -
  define p where "p = re_parent e"
  have en: "entry_of s n = Some e'" "re_parent e' = p" "re_children e' = re_children e" using s(1,2) by (simp_all add: p_def)
  have T: "tree s = tree rib" using e s(1,2) by (auto simp: tree_def fun_eq_iff)
  have Tn: "tree rib n = Some (p, re_children e)" using e by (simp add: tree_def p_def)
  note N = rib_tree_okD [OF rib_okD(2) [OF ok] Tn]
  have nS: "n \<notin> set (re_children e)" using N(3) par_self by auto
  have pq: "q \<noteq> n" "tree rib q \<noteq> None" "q \<notin> set (re_children e)" if "p = Some q" for q
  proof -
    have q: "q \<in> dom (tree rib)" "strict_prefix q n" using par_SomeD [of "dom (tree rib)" n q] that N(1) by auto
    then show "q \<noteq> n" "tree rib q \<noteq> None" by auto
    have "par (dom (tree rib)) q \<noteq> Some n" using par_SomeD [of "dom (tree rib)" q n] q(2) by (auto dest: prefix_order.less_asym)
    then show "q \<notin> set (re_children e)" unfolding N(3) by simp
  qed
  have "\<exists>s1. (case p of None \<Rightarrow> Some s | Some q \<Rightarrow> removeChild q n s) = Some s1 \<and> frame s1 = frame s \<and>
      (\<forall>m. m \<noteq> n \<longrightarrow> tree s1 m = unlinked n p (tree rib) m) \<and> tree s1 n \<noteq> None"
  proof (cases p)
    case None
    then show ?thesis using T Tn by (auto simp: unlinked_def)
  next
    case (Some q)
    obtain qp qs where q: "tree rib q = Some (qp, qs)" using pq(2) [OF Some] by (cases "tree rib q") auto
    obtain s1 where s1: "removeChild q n s = Some s1" "frame s1 = frame s" "tree s1 = (tree s)(n \<mapsto> (None, re_children e), q \<mapsto> (qp, removeAll n qs))"
      using removeChild_spec [of s n q "re_children e" qp qs] Tn q T Some pq(1) [OF Some] by auto
    then show ?thesis using Some q T pq(1) [OF Some] by (auto simp: unlinked_def)
  qed
  then obtain s1 where s1: "(case p of None \<Rightarrow> Some s | Some q \<Rightarrow> removeChild q n s) = Some s1" "frame s1 = frame s"
    "\<forall>m. m \<noteq> n \<longrightarrow> tree s1 m = unlinked n p (tree rib) m" "tree s1 n \<noteq> None"
    by (elim exE conjE) (rule that)
  have "\<exists>s2. hand_over n p (re_children e) s1 = Some s2 \<and> frame s2 = frame s1 \<and> tree s2 = handed n p (re_children e) (tree s1)"
  proof (rule hand_over_spec [OF N(2) nS])
    show "p \<noteq> Some n" using pq(1) by auto
    show "q \<notin> set (re_children e) \<and> tree s1 q \<noteq> None" if "p = Some q" for q
      using pq [OF that] s1(3) that by (simp add: unlinked_def)
    show "tree s1 n \<noteq> None" by (rule s1(4))
    show "\<forall>c\<in>set (re_children e). \<exists>ds. tree s1 c = Some (Some n, ds)"
    proof
      fix c assume c: "c \<in> set (re_children e)"
      then have c': "c \<in> dom (tree rib)" "par (dom (tree rib)) c = Some n" using N(3) by simp_all
      obtain q cs where tc: "tree rib c = Some (q, cs)" using c'(1) by (cases "tree rib c") auto
      have "q = Some n" using rib_tree_okD(1) [OF rib_okD(2) [OF ok] tc] c'(2) by simp
      moreover have "c \<noteq> n" "p \<noteq> Some c" using c nS pq(3) by auto
      ultimately show "\<exists>ds. tree s1 c = Some (Some n, ds)" using tc s1(3) by (simp add: unlinked_def)
    qed
  qed
  then obtain s2 where s2: "hand_over n p (re_children e) s1 = Some s2" "frame s2 = frame s1" "tree s2 = handed n p (re_children e) (tree s1)"
    by (elim exE conjE) (rule that)
  define rib' where "rib' = s2\<lparr>m_rib := AList.delete n (m_rib s2)\<rparr>"
  have f2: "frame s2 = frame s" using s1(2) s2(2) by simp
  note F = frameD [OF f2]
  have op: "eraseEntry n s = Some rib'"
    using s1(1) s2(1) by (simp add: eraseEntry_def en rib'_def)
  have V: "entry_of rib' m = (if m = n then None else entry_of s2 m)" for m
    by (simp add: rib'_def delete_conv')
  have ent: "map_option strip (entry_of rib' m) = (if m = n then None else map_option strip (entry_of rib m))" for m
    using F(4) [of m] by (simp add: V s(1))
  have ent1: "\<exists>d. entry_of rib m = Some d \<and> strip c = strip d \<and> m \<noteq> n" if "entry_of rib' m = Some c" for m c
    using that ent [of m] by (cases "entry_of rib m") (auto split: if_splits)
  have ent2: "\<exists>c. entry_of rib' m = Some c \<and> strip c = strip d" if "entry_of rib m = Some d" "m \<noteq> n" for m d
    using that ent [of m] by (cases "entry_of rib' m") (auto split: if_splits)
  have keys2: "map fst (m_rib s2) = map fst (m_rib rib)" using F(1) s(3) by simp
  have "rib_ok lt rib'"
    unfolding rib_ok_def
  proof (intro conjI allI impI)
    have "map fst (m_rib rib') = filter (\<lambda>m. m \<noteq> n) (map fst (m_rib rib))"
      unfolding keys2 [symmetric] by (simp add: rib'_def keys_delete)
    then show "names_sorted lt (map fst (m_rib rib'))" using rib_okD(1) [OF ok] by (simp add: sorted_wrt_filter)
    show "rib_tree_ok (tree rib')"
    proof (rule rib_tree_ok_handed [OF rib_okD(2) [OF ok] Tn])
      show "tree rib' n = None" by (simp add: tree_def V)
      show "tree rib' m = handed n p (re_children e) (unlinked n p (tree rib)) m" if "m \<noteq> n" for m
      proof -
        have "tree rib' m = tree s2 m" using that by (simp add: tree_def V)
        then show ?thesis using s1(3) that by (simp add: s2(3) handed_def)
      qed
    qed
    show "entry_ok m c" if mc: "entry_of rib' m = Some c" for m c
    proof -
      obtain d where "entry_of rib m = Some d" "strip c = strip d" using ent1 [OF mc] by blast
      then show ?thesis using rib_okD(3) [OF ok, of m d] by (simp add: entry_ok_def strip_def)
    qed
    have dist: "distinct (map fst (m_rib s2))" using keys2 names_sorted_distinct [OF rib_okD(1) [OF ok]] by simp
    obtain e2 where e2: "map_of (m_rib s2) n = Some e2" "m_routes e2 = []"
      using F(4) [of n] s(5) en(1) by (cases "map_of (m_rib s2) n") (auto simp: strip_def)
    have "nroutes (m_rib rib') = nroutes (m_rib s2)" using nroutes_delete [OF dist e2(1)] e2(2) by (simp add: rib'_def)
    also have "\<dots> = nroutes (m_rib s)" using F(5) by (simp add: nroutes_def)
    finally have "nroutes (m_rib rib') + 1 = nroutes (m_rib rib)" using s(4) by simp
    then have "m_nItems rib = of_nat (nroutes (m_rib rib') + 1)" using rib_okD(4) [OF ok] by simp
    then show "m_nItems rib' = of_nat (nroutes (m_rib rib'))" using F(3) s(6) by (simp add: rib'_def)
    show "faces_ok rib'"
      unfolding faces_ok_def
    proof (intro allI)
      fix f m
      have "set (face_names rib' f) = set (face_names rib f) - {n}"
        using s(7) [of f] F(2) by (simp add: rib'_def) (simp add: face_names_def)
      moreover have "m \<in> set (face_names rib f) \<longleftrightarrow> (\<exists>e. entry_of rib m = Some e \<and> hasFaceId f e)"
        using rib_okD(5) [OF ok] by (simp add: faces_ok_def)
      moreover have "(\<exists>c. entry_of rib' m = Some c \<and> hasFaceId f c) \<longleftrightarrow> m \<noteq> n \<and> (\<exists>d. entry_of rib m = Some d \<and> hasFaceId f d)"
        using ent1 [of m] ent2 [of m] by (fastforce simp: hasFaceId_image strip_def)
      ultimately show "m \<in> set (face_names rib' f) \<longleftrightarrow> (\<exists>e. entry_of rib' m = Some e \<and> hasFaceId f e)" by auto
    qed
  qed
  moreover have "routes_view rib' = (\<lambda>(m, k). if m = n then None else routes_view rib (m, k))"
  proof (rule ext, clarify)
    fix m f o'
    show "routes_view rib' (m, f, o') = (if m = n then None else routes_view rib (m, f, o'))"
      using ent [of m] by (cases "entry_of rib' m"; cases "entry_of rib m") (auto simp: routes_view_def strip_def split: if_splits)
  qed
  ultimately show ?thesis using op by blast
qed


lemma Rib_erase_ok:
  assumes ok: "rib_ok lt rib"
  shows "\<exists>rib'. Rib_erase n route rib = Some rib' \<and> rib_ok lt rib' \<and> routes_view rib' = (routes_view rib)((n, rkey route) := None)"
proof (cases "\<exists>e r. entry_of rib n = Some e \<and> findRoute route e = Some r")
  case False
  then have "Rib_erase n route rib = Some rib" "routes_view rib (n, rkey route) = None"
    by (auto simp: Rib_erase_def routes_view_def findRoute_key split: option.splits)
  then show ?thesis using ok by (auto simp: fun_upd_idem)
next
  case True
  then obtain e r where e: "entry_of rib n = Some e" and r: "findRoute route e = Some r" by blast
  have eok: "entry_ok n e" by (rule rib_okD(3) [OF ok e])
  define e' where "e' = eraseRoute route e"
  have "distinct (map rkey (m_routes e))" "findRoute route e \<noteq> None" using eok r by (simp_all add: entry_ok_def)
  note E = eraseRoute_routes [OF this, folded e'_def]
  define s where "s = (let rib = (put_entry n e' rib)\<lparr>m_nItems := m_nItems rib - 1\<rparr>
    in if \<not> hasFaceId (faceId route) e' then unregister_face (faceId route) n rib else rib)"
  have s: "m_rib s = m_rib (put_entry n e' rib)" "m_nItems s = m_nItems rib - 1"
    by (simp_all add: s_def Let_def)
  have V: "entry_of s = (entry_of rib)(n \<mapsto> e')" unfolding s(1) by (rule entry_put)
  have op: "Rib_erase n route rib = (if m_routes e' = [] then eraseEntry n s else Some s)"
    using e r by (simp add: Rib_erase_def Let_def s_def e'_def [symmetric])
  have ent: "m \<in> set (face_names rib f) \<longleftrightarrow> (\<exists>e. entry_of rib m = Some e \<and> hasFaceId f e)" for f m
    using rib_okD(5) [OF ok] by (simp add: faces_ok_def)
  have other: "hasFaceId f e' \<longleftrightarrow> hasFaceId f e" if "f \<noteq> faceId route" for f
    using that by (auto simp: hasFaceId_image E(1))
  have faces: "face_names s f = (if f = faceId route \<and> \<not> hasFaceId f e' then removeAll n (face_names rib f) else face_names rib f)" for f
    by (auto simp: s_def Let_def)
  have view: "List.find (\<lambda>r. rkey r = k) (m_routes e') = (if k = rkey route then None else routes_view rib (n, k))" for k
    using e by (simp add: E(1) find_filter_key routes_view_def del: prod.inject)
  show ?thesis
  proof (cases "m_routes e' = []")
    case False
    have has: "hasFaceId (faceId route) e"
      using find_SomeD [OF r [unfolded findRoute_key]] unfolding hasFaceId_image by (metis Pair_inject imageI)
    have "rib_ok lt s"
    proof (rule replace_entry_ok [OF ok e, of e'])
      show "entry_ok n e'" using eok False by (simp add: entry_ok_def E(1,3) distinct_map_filter)
      show "node e' = node e" by (rule E(2))
      show "m_rib s = m_rib (put_entry n e' rib)" "m_nItems s = m_nItems rib - 1" by (rule s)+
      show "m_nItems rib - 1 + of_nat (length (m_routes e)) = m_nItems rib + of_nat (length (m_routes e'))"
        using E(4) by simp
      show "faces_ok s"
        unfolding faces_ok_def
      proof (intro allI)
        fix f m
        show "m \<in> set (face_names s f) \<longleftrightarrow> (\<exists>d. entry_of s m = Some d \<and> hasFaceId f d)"
          using ent [of m f] other [of f] has e by (cases "f = faceId route"; cases "m = n") (auto simp: V faces)
      qed
    qed
    moreover have "routes_view s = (routes_view rib)((n, rkey route) := None)"
      by (rule view_put [OF V view])
    ultimately show ?thesis using op False by simp
  next
    case True
    have one: "\<exists>r. m_routes e = [r]" using E(4) True by (cases "m_routes e") auto
    then obtain r1 where r1: "m_routes e = [r1]" by blast
    have r1k: "rkey r1 = rkey route" using r r1 by (auto simp: findRoute_key split: if_splits)
    have eface: "hasFaceId f e \<longleftrightarrow> f = faceId route" for f using r1k by (auto simp: hasFaceId_image r1)
    have e'face: "\<not> hasFaceId f e'" for f using True by (simp add: hasFaceId_image)
    have "\<exists>rib'. eraseEntry n s = Some rib' \<and> rib_ok lt rib' \<and> routes_view rib' = (\<lambda>(m, k). if m = n then None else routes_view rib (m, k))"
    proof (rule erase_last_route [OF ok e r1 V E(2)])
      show "map fst (m_rib s) = map fst (m_rib rib)" using keys_put [OF e] by (simp add: s)
      show "nroutes (m_rib s) + 1 = nroutes (m_rib rib)"
        using nroutes_update [OF e, of e'] r1 True by (simp add: s put_entry_def)
      show "m_routes e' = []" by (rule True)
      show "m_nItems s = m_nItems rib - 1" by (rule s)
      show "set (face_names s f) = set (face_names rib f) - {n}" for f
        using ent [of n f] e eface [of f] e'face by (auto simp: faces)
    qed
    moreover have "(\<lambda>(m, k). if m = n then None else routes_view rib (m, k)) = (routes_view rib)((n, rkey route) := None)"
      using e r1 r1k by (auto simp: fun_eq_iff routes_view_def)
    ultimately show ?thesis using op True by simp
  qed
qed

subsection \<open>Runs\<close>

datatype rib_op = Insert name Route | Erase name Route

fun rib_step :: "comp_less \<Rightarrow> rib_op \<Rightarrow> Rib \<Rightarrow> Rib option" where
  "rib_step lt (Insert n route) rib = Rib_insert lt n route rib"
| "rib_step lt (Erase n route) rib = Rib_erase n route rib"

fun rib_steps :: "comp_less \<Rightarrow> rib_op list \<Rightarrow> Rib \<Rightarrow> Rib option" where
  "rib_steps lt [] rib = Some rib"
| "rib_steps lt (step # steps) rib = do { rib \<leftarrow> rib_step lt step rib; rib_steps lt steps rib }"

text \<open>What the operations mean for a map.\<close>

fun map_steps :: "rib_op list \<Rightarrow> (name \<times> nat \<times> nat \<rightharpoonup> Route) \<Rightarrow> name \<times> nat \<times> nat \<rightharpoonup> Route" where
  "map_steps [] m = m"
| "map_steps (Insert n route # steps) m = map_steps steps (m((n, rkey route) \<mapsto> route))"
| "map_steps (Erase n route # steps) m = map_steps steps (m((n, rkey route) := None))"

lemma rib_ok_new: "rib_ok lt Rib_new"
  by (simp add: rib_ok_def Rib_new_def rib_tree_ok_def tree_def nroutes_def faces_ok_def face_names_def)

lemma rib_steps_ok:
  assumes "strict_order lt" "rib_ok lt rib"
  shows "\<exists>rib'. rib_steps lt steps rib = Some rib' \<and> rib_ok lt rib' \<and> routes_view rib' = map_steps steps (routes_view rib)"
  using assms(2)
proof (induction steps arbitrary: rib)
  case (Cons step steps)
  show ?case
  proof (cases step)
    case (Insert n route)
    obtain rib1 where 1: "Rib_insert lt n route rib = Some rib1" "rib_ok lt rib1" "routes_view rib1 = (routes_view rib)((n, rkey route) \<mapsto> route)"
      using Rib_insert_ok [OF assms(1) Cons.prems, of n route] by (elim exE conjE) (rule that)
    show ?thesis using Cons.IH [OF 1(2), unfolded 1(3)] 1(1) Insert by (simp del: fun_upd_apply)
  next
    case (Erase n route)
    obtain rib1 where 1: "Rib_erase n route rib = Some rib1" "rib_ok lt rib1" "routes_view rib1 = (routes_view rib)((n, rkey route) := None)"
      using Rib_erase_ok [OF Cons.prems, of n route] by (elim exE conjE) (rule that)
    show ?thesis using Cons.IH [OF 1(2), unfolded 1(3)] 1(1) Erase by (simp del: fun_upd_apply)
  qed
qed simp


text \<open>C7: the routing information base refines a map: from the empty table, every sequence of insertions and
  removals of routes runs without a failed assertion, after it a lookup by name, face and
  origin finds exactly what the same sequence leaves in a map, the entries are those names
  that have routes, the parent of each is the entry of its longest proper prefix, its
  children are the entries it is the parent of, the table is sorted, and the number of items
  is the number of routes (modulo the width of the counter).\<close>

theorem rib_refines_map:
  assumes "strict_order lt"
  shows "\<exists>rib. rib_steps lt steps Rib_new = Some rib \<and> (\<forall>n route. Rib_find_route n route rib = map_steps steps Map.empty (n, rkey route)) \<and>
    names_sorted lt (map fst (m_rib rib)) \<and> m_nItems rib = of_nat (nroutes (m_rib rib)) \<and>
    (\<forall>n e. entry_of rib n = Some e \<longrightarrow> re_name e = n \<and> m_routes e \<noteq> [] \<and> re_parent e = findParent n rib \<and>
       (\<forall>c. c \<in> set (re_children e) \<longleftrightarrow> entry_of rib c \<noteq> None \<and> findParent c rib = Some n))"
proof -
  have empty: "routes_view Rib_new = Map.empty" by (auto simp: routes_view_def Rib_new_def fun_eq_iff)
  obtain rib where rib: "rib_steps lt steps Rib_new = Some rib" "rib_ok lt rib" "routes_view rib = map_steps steps Map.empty"
    using rib_steps_ok [OF assms rib_ok_new, of steps, unfolded empty] by (elim exE conjE) (rule that)
  have look: "Rib_find_route n route rib = map_steps steps Map.empty (n, rkey route)" for n route
    unfolding rib(3) [symmetric] by (simp add: Rib_find_route_def routes_view_def findRoute_key split: option.split)
  have entry: "re_name e = n \<and> m_routes e \<noteq> [] \<and> re_parent e = findParent n rib \<and>
       (\<forall>c. c \<in> set (re_children e) \<longleftrightarrow> entry_of rib c \<noteq> None \<and> findParent c rib = Some n)" if e: "entry_of rib n = Some e" for n e
  proof -
    have t: "tree rib n = Some (node e)" using e by (simp add: tree_def)
    note N = rib_tree_okD [OF rib_okD(2) [OF rib(2)] t, unfolded dom_tree, folded findParent_par]
    have "c \<in> set (re_children e) \<longleftrightarrow> entry_of rib c \<noteq> None \<and> findParent c rib = Some n" for c
      unfolding N(3) by (simp add: domIff)
    then show ?thesis using N(1) rib_okD(3) [OF rib(2) e] by (simp add: entry_ok_def)
  qed
  show ?thesis
    using rib(1) look entry rib_okD(1,4) [OF rib(2)] by (intro exI [of _ rib] conjI allI impI) simp_all
qed

definition example_route :: "nat \<Rightarrow> nat \<Rightarrow> nat \<Rightarrow> 64 word \<Rightarrow> Route" where
  "example_route f orig c fl = Route_new\<lparr>faceId := f, origin := orig, cost := c, flags := fl\<rparr>"

theorem rib_refines_map_witness:
  "let a = [Component 8 ''a'']; r = example_route 1 0 10 1
   in strict_order octet_less \<and>
     (\<exists>rib. rib_steps octet_less [Insert (a @ a) r, Insert a r, Erase (a @ a) r] Rib_new = Some rib \<and>
       Rib_find_route a r rib = Some r \<and> Rib_find_route (a @ a) r rib = None)"
  unfolding Let_def
  using strict_order_octet rib_refines_map [OF strict_order_octet, of "[Insert ([Component 8 ''a''] @ [Component 8 ''a'']) (example_route 1 0 10 1),
    Insert [Component 8 ''a''] (example_route 1 0 10 1), Erase ([Component 8 ''a''] @ [Component 8 ''a'']) (example_route 1 0 10 1)]"]
  by (elim exE conjE) (intro conjI exI, assumption+, simp_all add: example_route_def)

lemma found_routes:
  assumes ok: "rib_ok lt rib"
  shows "\<exists>found. findRoutesWithFaceId f rib = Some found \<and>
    set found = {(n, r). \<exists>e. entry_of rib n = Some e \<and> r \<in> set (m_routes e) \<and> faceId r = f}"
proof -
  have ent: "n \<in> set (face_names rib f) \<longleftrightarrow> (\<exists>e. entry_of rib n = Some e \<and> hasFaceId f e)" for n
    using rib_okD(5) [OF ok] by (simp add: faces_ok_def)
  let ?routes = "\<lambda>n. map (Pair n) (filter (\<lambda>r. faceId r = f) (m_routes (the (entry_of rib n))))"
  have "those (map (\<lambda>n. map_option (\<lambda>e. map (Pair n) (filter (\<lambda>r. faceId r = f) (m_routes e))) (entry_of rib n)) ns) = Some (map ?routes ns)"
    if "\<forall>n\<in>set ns. entry_of rib n \<noteq> None" for ns
    using that by (induction ns) auto
  moreover have "\<forall>n\<in>set (face_names rib f). entry_of rib n \<noteq> None" using ent by auto
  ultimately have "findRoutesWithFaceId f rib = Some (concat (map ?routes (face_names rib f)))"
    by (simp add: findRoutesWithFaceId_def face_names_def split: option.splits)
  moreover have "set (concat (map ?routes (face_names rib f))) = {(n, r). \<exists>e. entry_of rib n = Some e \<and> r \<in> set (m_routes e) \<and> faceId r = f}"
  proof -
    have in_names: "n \<in> set (face_names rib f)" if "entry_of rib n = Some e" "r \<in> set (m_routes e)" "faceId r = f" for n e r
      using that ent by (auto simp: hasFaceId_image)
    have "\<exists>e. entry_of rib n = Some e" if "n \<in> set (face_names rib f)" for n using that ent by blast
    then show ?thesis by (fastforce dest: in_names)
  qed
  ultimately show ?thesis by blast
qed

text \<open>C23: the face lookup table is complete: after any sequence of insertions and removals, the routes found for
  a face, which are those withdrawn when the face is destroyed, are exactly the routes of the
  table through that face, under the names of their entries.\<close>

theorem face_lookup_complete:
  assumes "strict_order lt" "rib_steps lt steps Rib_new = Some rib"
  shows "\<exists>found. findRoutesWithFaceId f rib = Some found \<and>
    set found = {(n, r). \<exists>e. entry_of rib n = Some e \<and> r \<in> set (m_routes e) \<and> faceId r = f}"
proof -
  have "rib_ok lt rib" using rib_steps_ok [OF assms(1) rib_ok_new, of steps] assms(2) by auto
  then show ?thesis by (rule found_routes)
qed

theorem face_lookup_complete_witness:
  "let a = [Component 8 ''a'']; r = example_route 1 0 10 1
   in strict_order octet_less \<and> (\<exists>rib found. rib_steps octet_less [Insert a r] Rib_new = Some rib \<and> findRoutesWithFaceId 1 rib = Some found \<and> set found = {(a, r)})"
proof -
  let ?a = "[Component 8 ''a'']" and ?r = "example_route 1 0 10 1"
  have run: "\<exists>rib e. rib_steps octet_less [Insert ?a ?r] Rib_new = Some rib \<and> m_rib rib = [(?a, e)] \<and> m_routes e = [?r]"
    by (simp add: Rib_insert_def Rib_new_def insert_name_def insertRoute_def RibEntry_new_def findRoute_def put_entry_def
        findParent_def findDescendants_def register_face_def example_route_def Route_new_def)
  then obtain rib e where rib: "rib_steps octet_less [Insert ?a ?r] Rib_new = Some rib" "m_rib rib = [(?a, e)]" "m_routes e = [?r]" by blast
  have "faceId ?r = 1" by (simp add: example_route_def)
  then have "\<exists>found. findRoutesWithFaceId 1 rib = Some found \<and> set found = {(?a, ?r)}"
    using face_lookup_complete [OF strict_order_octet rib(1), of 1] rib(2,3) by (auto split: if_splits)
  then show ?thesis using strict_order_octet rib(1) by (auto simp: Let_def)
qed

subsection \<open>The count of capturing routes\<close>

text \<open>C33: updating a route loses track of captures: in any valid table, when an entry has at least
  two routes, none of them capturing and none counted, and one of them is registered again
  with the Capture flag, the entry has a capturing route but is not counted as capturing;
  removing that route afterwards wraps the counter around, so that the entry, which keeps
  its other routes, is taken to capture although none of them does.\<close>

theorem updated_capture_is_miscounted:
  assumes ok: "rib_ok lt rib" and e: "entry_of rib n = Some e" "\<not> hasCapture e" "\<forall>r\<in>set (m_routes e). \<not> isRibCapture r"
    and route: "findRoute route e \<noteq> None" "isRibCapture route" and others: "2 \<le> length (m_routes e)"
  shows "\<exists>rib1 e1 rib2 e2. Rib_insert lt n route rib = Some rib1 \<and> entry_of rib1 n = Some e1 \<and>
      route \<in> set (m_routes e1) \<and> \<not> hasCapture e1 \<and>
      Rib_erase n route rib1 = Some rib2 \<and> entry_of rib2 n = Some e2 \<and>
      m_routes e2 = filter (\<lambda>r. rkey r \<noteq> rkey route) (m_routes e) \<and> (\<forall>r\<in>set (m_routes e2). \<not> isRibCapture r) \<and> hasCapture e2"
proof -
  obtain old where old: "findRoute route e = Some old" using route(1) by blast
  define e1 where "e1 = e\<lparr>m_routes := update_first (\<lambda>r. compareFaceIdAndOrigin r route) (\<lambda>_. route) (m_routes e)\<rparr>"
  have m1: "m_routes e1 = update_first (\<lambda>r. rkey r = rkey route) (\<lambda>_. route) (m_routes e)" by (simp add: e1_def compare_key)
  have keys: "map rkey (m_routes e1) = map rkey (m_routes e)" unfolding m1 by (rule map_update_first) simp
  have dist: "distinct (map rkey (m_routes e1))" using rib_okD(3) [OF ok e(1)] keys by (simp add: entry_ok_def)
  have c1: "m_nRoutesWithCaptureSet e1 = 0" using e(2) by (simp add: e1_def hasCapture_nonzero)
  have find1: "findRoute route e1 = Some route"
    using old find_update_first_same [of "\<lambda>r. rkey r = rkey route" "\<lambda>_. route" "m_routes e"] by (simp add: m1 findRoute_key)
  define e2 where "e2 = eraseRoute route e1"
  have m2: "m_routes e2 = filter (\<lambda>r. rkey r \<noteq> rkey route) (m_routes e)"
  proof -
    have "filter (\<lambda>r. rkey r \<noteq> rkey route) (update_first (\<lambda>r. rkey r = rkey route) (\<lambda>_. route) xs) = filter (\<lambda>r. rkey r \<noteq> rkey route) xs" for xs
      by (induction xs) auto
    then show ?thesis unfolding e2_def using eraseRoute_routes(1) [OF dist] find1 by (simp add: m1)
  qed
  have ne: "m_routes e2 \<noteq> []"
    using eraseRoute_routes(4) [OF dist, of route] find1 arg_cong [OF keys, of length] others by (auto simp: e2_def)
  have c2: "hasCapture e2" using find1 c1 route(2) by (simp add: e2_def eraseRoute_def hasCapture_nonzero)
  define rib1 where "rib1 = put_entry n e1 rib"
  have ins: "Rib_insert lt n route rib = Some rib1" using e old by (simp add: Rib_insert_def insertRoute_def rib1_def e1_def)
  obtain rib2 where rib2: "Rib_erase n route rib1 = Some rib2" "entry_of rib2 n = Some e2"
    using find1 ne by (simp add: Rib_erase_def rib1_def Let_def e2_def [symmetric])
  have "route \<in> set (m_routes e1)" using find_SomeD [OF find1 [unfolded findRoute_key]] by simp
  moreover have "\<not> hasCapture e1" using c1 by (simp add: hasCapture_nonzero)
  moreover have "\<forall>r\<in>set (m_routes e2). \<not> isRibCapture r" using e(3) by (simp add: m2)
  moreover have "entry_of rib1 n = Some e1" by (simp add: rib1_def)
  ultimately show ?thesis using ins rib2 m2 c2 by (intro exI conjI)
qed

theorem updated_capture_is_miscounted_witness:
  "let a = [Component 8 ''a''];
       plain = example_route 1 0 10 0; capturing = example_route 1 0 10 ROUTE_FLAG_CAPTURE; other = example_route 2 0 10 0
   in \<exists>rib rib1 e1 rib2 e2. rib_steps octet_less [Insert a plain, Insert a other] Rib_new = Some rib \<and> rib_ok octet_less rib \<and>
        Rib_insert octet_less a capturing rib = Some rib1 \<and> entry_of rib1 a = Some e1 \<and> \<not> hasCapture e1 \<and>
        Rib_erase a capturing rib1 = Some rib2 \<and> entry_of rib2 a = Some e2 \<and> m_routes e2 = [other] \<and> hasCapture e2"
proof -
  let ?a = "[Component 8 ''a'']"
  let ?p = "example_route 1 0 10 0" and ?c = "example_route 1 0 10 ROUTE_FLAG_CAPTURE" and ?o = "example_route 2 0 10 0"
  have "\<exists>rib e. rib_steps octet_less [Insert ?a ?p, Insert ?a ?o] Rib_new = Some rib \<and> entry_of rib ?a = Some e \<and>
      m_routes e = [?p, ?o] \<and> \<not> hasCapture e"
    by (simp add: Rib_insert_def Rib_new_def insert_name_def insertRoute_def RibEntry_new_def findRoute_def put_entry_def
        findParent_def findDescendants_def register_face_def example_route_def Route_new_def isRibCapture_def compareFaceIdAndOrigin_def hasCapture_nonzero)
  then obtain rib e where rib: "rib_steps octet_less [Insert ?a ?p, Insert ?a ?o] Rib_new = Some rib" "entry_of rib ?a = Some e"
    "m_routes e = [?p, ?o]" "\<not> hasCapture e" by (elim exE conjE) (rule that)
  have ok: "rib_ok octet_less rib"
    using rib_steps_ok [OF strict_order_octet rib_ok_new, of "[Insert ?a ?p, Insert ?a ?o]"] rib(1) by auto
  have h: "\<forall>r\<in>set (m_routes e). \<not> isRibCapture r" "findRoute ?c e \<noteq> None" "isRibCapture ?c" "2 \<le> length (m_routes e)"
    by (simp_all add: rib(3) findRoute_def compareFaceIdAndOrigin_def example_route_def isRibCapture_def ROUTE_FLAG_CAPTURE_def ROUTE_ORIGIN_APP_def)
  have f: "filter (\<lambda>r. rkey r \<noteq> rkey ?c) (m_routes e) = [?o]" by (simp add: rib(3) example_route_def)
  obtain rib1 e1 rib2 e2 where "Rib_insert octet_less ?a ?c rib = Some rib1" "entry_of rib1 ?a = Some e1" "\<not> hasCapture e1"
    "Rib_erase ?a ?c rib1 = Some rib2" "entry_of rib2 ?a = Some e2" "m_routes e2 = [?o]" "hasCapture e2"
    using updated_capture_is_miscounted [OF ok rib(2,4) h] unfolding f by (elim exE conjE) (rule that)
  then show ?thesis unfolding Let_def using rib(1) ok by (intro exI conjI)
qed

end
