(* ===== verification/Fib_Updater.thy ===== *)
theory Fib_Updater
  imports Rib_Invariant
begin

text \<open>
  The computation of FIB updates from RIB updates: \<^verbatim>\<open>rib/fib-update.{hpp,cpp}\<close>, \<^verbatim>\<open>rib/rib-update.{hpp,cpp}\<close>,
  \<^verbatim>\<open>rib/rib-update-batch.{hpp,cpp}\<close> and the first half of \<^verbatim>\<open>rib/fib-updater.cpp\<close>.

  The updater reads the RIB, and collects next hops to add and remove as well as the routes
  that entries inherit.  The recursion over a subtree is a loop over a stack of the entries
  still to visit, each with the routes to add and to remove there.
\<close>

subsection \<open>Updates\<close>

datatype RibUpdate_Action = REGISTER | UNREGISTER | REMOVE_FACE

record RibUpdate =
  ru_action :: RibUpdate_Action
  ru_name :: name
  ru_route :: Route

record RibUpdateBatch =
  rb_faceId :: nat
  rb_updates :: "RibUpdate list"

definition RibUpdateBatch_new :: "nat \<Rightarrow> RibUpdateBatch" where
  "RibUpdateBatch_new fid = \<lparr>rb_faceId = fid, rb_updates = []\<rparr>"

definition batch_add :: "RibUpdate \<Rightarrow> RibUpdateBatch \<Rightarrow> RibUpdateBatch option" where
  "batch_add update batch = do {
     assert (rb_faceId batch = faceId (ru_route update));
     Some (batch\<lparr>rb_updates := rb_updates batch @ [update]\<rparr>)
   }"

datatype FibUpdate_Action = ADD_NEXTHOP | REMOVE_NEXTHOP

record FibUpdate =
  fu_name :: name
  fu_faceId :: nat
  fu_cost :: nat
  fu_action :: FibUpdate_Action

definition createAddUpdate :: "name \<Rightarrow> nat \<Rightarrow> nat \<Rightarrow> FibUpdate" where
  "createAddUpdate n fid c = \<lparr>fu_name = n, fu_faceId = fid, fu_cost = c, fu_action = ADD_NEXTHOP\<rparr>"

definition createRemoveUpdate :: "name \<Rightarrow> nat \<Rightarrow> FibUpdate" where
  "createRemoveUpdate n fid = \<lparr>fu_name = n, fu_faceId = fid, fu_cost = 0, fu_action = REMOVE_NEXTHOP\<rparr>"

subsection \<open>Collecting updates\<close>

record fib_updater =
  m_batchFaceId :: nat
  m_updatesForBatchFaceId :: "FibUpdate list"
  m_updatesForNonBatchFaceId :: "FibUpdate list"
  m_inheritedRoutes :: "RibUpdate list"

definition add_or_replace :: "FibUpdate \<Rightarrow> FibUpdate list \<Rightarrow> FibUpdate list" where
  "add_or_replace update updates =
     (let same = (\<lambda>other. fu_name update = fu_name other \<and> fu_faceId update = fu_faceId other)
      in if List.find same updates \<noteq> None
         then update_first same (\<lambda>u. u\<lparr>fu_action := fu_action update, fu_cost := fu_cost update\<rparr>) updates
         else updates @ [update])"

definition addFibUpdate :: "FibUpdate \<Rightarrow> fib_updater \<Rightarrow> fib_updater" where
  "addFibUpdate update u =
     (if fu_faceId update = m_batchFaceId u
      then u\<lparr>m_updatesForBatchFaceId := add_or_replace update (m_updatesForBatchFaceId u)\<rparr>
      else u\<lparr>m_updatesForNonBatchFaceId := add_or_replace update (m_updatesForNonBatchFaceId u)\<rparr>)"

definition addInheritedRoute_update :: "name \<Rightarrow> Route \<Rightarrow> fib_updater \<Rightarrow> fib_updater" where
  "addInheritedRoute_update n route u =
     u\<lparr>m_inheritedRoutes := m_inheritedRoutes u @ [\<lparr>ru_action = REGISTER, ru_name = n, ru_route = route\<rparr>]\<rparr>"

definition removeInheritedRoute_update :: "name \<Rightarrow> Route \<Rightarrow> fib_updater \<Rightarrow> fib_updater" where
  "removeInheritedRoute_update n route u =
     u\<lparr>m_inheritedRoutes := m_inheritedRoutes u @ [\<lparr>ru_action = UNREGISTER, ru_name = n, ru_route = route\<rparr>]\<rparr>"

text \<open>An inherited route is recorded together with the next hop it gives.\<close>

definition inherit_add :: "name \<Rightarrow> Route \<Rightarrow> fib_updater \<Rightarrow> fib_updater" where
  "inherit_add n route u = addFibUpdate (createAddUpdate n (faceId route) (cost route)) (addInheritedRoute_update n route u)"

definition inherit_remove :: "name \<Rightarrow> Route \<Rightarrow> fib_updater \<Rightarrow> fib_updater" where
  "inherit_remove n route u = addFibUpdate (createRemoveUpdate n (faceId route)) (removeInheritedRoute_update n route u)"

definition addInheritedRoutes :: "RibEntry \<Rightarrow> RouteSet \<Rightarrow> fib_updater \<Rightarrow> fib_updater" where
  "addInheritedRoutes e routesToAdd =
     fold (\<lambda>route u. if \<not> hasFaceId (faceId route) e then inherit_add (re_name e) route u else u) routesToAdd"

definition addInheritedRoutes_ignoring :: "name \<Rightarrow> RouteSet \<Rightarrow> Route \<Rightarrow> fib_updater \<Rightarrow> fib_updater" where
  "addInheritedRoutes_ignoring n routesToAdd ignore =
     fold (\<lambda>route u. if faceId route \<noteq> faceId ignore then inherit_add n route u else u) routesToAdd"

definition removeInheritedRoutes :: "RibEntry \<Rightarrow> RouteSet \<Rightarrow> fib_updater \<Rightarrow> fib_updater" where
  "removeInheritedRoutes e routesToRemove =
     fold (\<lambda>route u. if hasInheritedRoute route e then inherit_remove (re_name e) route u else u) routesToRemove"

subsection \<open>Subtrees\<close>

fun remove_loop :: "RibEntry \<Rightarrow> RouteSet \<Rightarrow> fib_updater \<Rightarrow> RouteSet \<times> fib_updater" where
  "remove_loop e [] u = ([], u)"
| "remove_loop e (route # routes) u =
     (if hasChildInheritOnFaceId (faceId route) e then remove_loop e routes u
      else
        let u = (if hasInheritedRoute route e then inherit_remove (re_name e) route u else u);
            (kept, u) = remove_loop e routes u
        in (route # kept, u))"

fun add_loop :: "RibEntry \<Rightarrow> RouteSet \<Rightarrow> fib_updater \<Rightarrow> RouteSet \<times> fib_updater" where
  "add_loop e [] u = ([], u)"
| "add_loop e (route # routes) u =
     (if hasChildInheritOnFaceId (faceId route) e then add_loop e routes u
      else
        let u = (if \<not> hasFaceId (faceId route) e then inherit_add (re_name e) route u else u);
            (kept, u) = add_loop e routes u
        in (route # kept, u))"

text \<open>The entries to visit, the first of them next; those below an entry come before its siblings.\<close>

partial_function (option) traverseSubTrees :: "Rib \<Rightarrow> (name \<times> RouteSet \<times> RouteSet) list \<Rightarrow> fib_updater \<Rightarrow> fib_updater option" where
  "traverseSubTrees rib todo u = (case todo of
       [] \<Rightarrow> Some u
     | (n, routesToAdd, routesToRemove) # rest \<Rightarrow> do {
         e \<leftarrow> entry_of rib n;
         if hasCapture e then traverseSubTrees rib rest u
         else do {
           let (routesToRemove, u) = remove_loop e routesToRemove u;
           let (routesToAdd, u) = add_loop e routesToAdd u;
           traverseSubTrees rib (map (\<lambda>c. (c, routesToAdd, routesToRemove)) (re_children e) @ rest) u
         }
       })"

definition modifyChildrensInheritedRoutes :: "Rib \<Rightarrow> name list \<Rightarrow> RouteSet \<Rightarrow> RouteSet \<Rightarrow> fib_updater \<Rightarrow> fib_updater option" where
  "modifyChildrensInheritedRoutes rib children routesToAdd routesToRemove u =
     traverseSubTrees rib (map (\<lambda>c. (c, routesToAdd, routesToRemove)) children) u"

subsection \<open>The cases of an update\<close>

definition createFibUpdatesForNewRibEntry :: "Rib \<Rightarrow> name \<Rightarrow> Route \<Rightarrow> name list \<Rightarrow> fib_updater \<Rightarrow> fib_updater option" where
  "createFibUpdatesForNewRibEntry rib n route children u = do {
     let u = addFibUpdate (createAddUpdate n (faceId route) (cost route)) u;
     if \<not> isChildInherit route \<and> \<not> isRibCapture route then do {
       ancestorRoutes \<leftarrow> getAncestorRoutes_name n rib;
       Some (addInheritedRoutes_ignoring n ancestorRoutes route u)
     }
     else if isChildInherit route \<and> isRibCapture route then do {
       ancestorRoutes \<leftarrow> getAncestorRoutes_name n rib;
       modifyChildrensInheritedRoutes rib children [route] ancestorRoutes u
     }
     else if isChildInherit route then do {
       ancestorRoutes \<leftarrow> getAncestorRoutes_name n rib;
       let u = addInheritedRoutes_ignoring n ancestorRoutes route u;
       let ancestorRoutes = routes_insert route (routes_erase (faceId route) ancestorRoutes);
       modifyChildrensInheritedRoutes rib children ancestorRoutes [] u
     }
     else do {
       ancestorRoutes \<leftarrow> getAncestorRoutes_name n rib;
       modifyChildrensInheritedRoutes rib children [] ancestorRoutes u
     }
   }"

definition createFibUpdatesForNewRoute :: "Rib \<Rightarrow> RibEntry \<Rightarrow> Route \<Rightarrow> bool \<Rightarrow> fib_updater \<Rightarrow> fib_updater option" where
  "createFibUpdatesForNewRoute rib e route captureWasTurnedOn u = do {
     let prevRoute = getRouteWithLowestCostAndChildInheritByFaceId (faceId route) e;
     let routesToAdd = (if isChildInherit route \<and> (case prevRoute of None \<Rightarrow> True | Some prev \<Rightarrow> cost route \<le> cost prev) then [route] else []);
     (routesToRemove, u) \<leftarrow> (if captureWasTurnedOn then do {
         routesToRemove \<leftarrow> getAncestorRoutes e rib;
         Some (routesToRemove, removeInheritedRoutes e routesToRemove u)
       }
       else Some ([], u));
     u \<leftarrow> modifyChildrensInheritedRoutes rib (re_children e) routesToAdd routesToRemove u;
     let other = getRouteWithLowestCostByFaceId (faceId route) e;
     Some (if (case other of None \<Rightarrow> True | Some other \<Rightarrow> cost route \<le> cost other)
       then addFibUpdate (createAddUpdate (re_name e) (faceId route) (cost route)) u else u)
   }"

definition update_cost :: "RibEntry \<Rightarrow> Route \<Rightarrow> Route \<Rightarrow> Route option \<Rightarrow> fib_updater \<Rightarrow> fib_updater option" where
  "update_cost e route existingRoute prevRoute u = do {
     lowest \<leftarrow> getRouteWithLowestCostByFaceId (faceId route) e;
     if cost route \<le> cost lowest then Some (addFibUpdate (createAddUpdate (re_name e) (faceId route) (cost route)) u)
     else if cost existingRoute < cost lowest then do {
       prev \<leftarrow> prevRoute;
       Some (addFibUpdate (createAddUpdate (re_name e) (faceId prev) (cost prev)) u)
     }
     else Some u
   }"

definition update_inherit :: "Rib \<Rightarrow> RibEntry \<Rightarrow> Route \<Rightarrow> Route \<Rightarrow> Route option \<Rightarrow> fib_updater \<Rightarrow> fib_updater option" where
  "update_inherit rib e route existingRoute prevRoute u =
     (if \<not> isChildInherit existingRoute \<and> isChildInherit route then
        (if (case prevRoute of None \<Rightarrow> True | Some prev \<Rightarrow> cost route \<le> cost prev)
         then modifyChildrensInheritedRoutes rib (re_children e) [route] [] u else Some u)
      else if isChildInherit existingRoute \<and> \<not> isChildInherit route then do {
        routesToAdd \<leftarrow> (case prevRoute of
            Some prev \<Rightarrow> Some [prev]
          | None \<Rightarrow> do {
              ancestorRoutes \<leftarrow> getAncestorRoutes e rib;
              Some (case routes_find route ancestorRoutes of None \<Rightarrow> [] | Some r \<Rightarrow> [r])
            });
        modifyChildrensInheritedRoutes rib (re_children e) routesToAdd [route] u
      }
      else Some u)"

definition update_capture :: "Rib \<Rightarrow> RibEntry \<Rightarrow> Route \<Rightarrow> Route \<Rightarrow> fib_updater \<Rightarrow> fib_updater option" where
  "update_capture rib e route existingRoute u =
     (if \<not> isRibCapture existingRoute \<and> isRibCapture route then do {
        ancestorRoutes \<leftarrow> getAncestorRoutes e rib;
        let u = removeInheritedRoutes e ancestorRoutes u;
        modifyChildrensInheritedRoutes rib (re_children e) [] ancestorRoutes u
      }
      else if isRibCapture existingRoute \<and> \<not> isRibCapture route then do {
        ancestorRoutes \<leftarrow> getAncestorRoutes e rib;
        let u = addInheritedRoutes e ancestorRoutes u;
        modifyChildrensInheritedRoutes rib (re_children e) ancestorRoutes [] u
      }
      else Some u)"

definition createFibUpdatesForUpdatedRoute :: "Rib \<Rightarrow> RibEntry \<Rightarrow> Route \<Rightarrow> Route \<Rightarrow> fib_updater \<Rightarrow> fib_updater option" where
  "createFibUpdatesForUpdatedRoute rib e route existingRoute u = do {
     let costDidChange = (cost route \<noteq> cost existingRoute);
     let prevRoute = getRouteWithLowestCostAndChildInheritByFaceId (faceId route) e;
     if flags route = flags existingRoute \<and> \<not> costDidChange then Some u
     else do {
       u \<leftarrow> (if costDidChange then update_cost e route existingRoute prevRoute u else Some u);
       if costDidChange \<and> (case prevRoute of None \<Rightarrow> True | Some prev \<Rightarrow> cost route \<le> cost prev) \<and>
           flags route = flags existingRoute \<and> isChildInherit route
       then modifyChildrensInheritedRoutes rib (re_children e) [route] [] u
       else do {
         u \<leftarrow> update_inherit rib e route existingRoute prevRoute u;
         update_capture rib e route existingRoute u
       }
     }
   }"

definition erase_inherited :: "Rib \<Rightarrow> RibEntry \<Rightarrow> Route \<Rightarrow> bool \<Rightarrow> fib_updater \<Rightarrow> fib_updater option" where
  "erase_inherited rib e route captureWasTurnedOff u =
     (if isChildInherit route \<and> isRibCapture route then do {
        (routesToAdd, u) \<leftarrow> (if captureWasTurnedOff \<and> getNRoutes e \<noteq> 0 then do {
            routesToAdd \<leftarrow> getAncestorRoutes e rib;
            Some (routesToAdd, addInheritedRoutes e routesToAdd u)
          }
          else Some ([], u));
        modifyChildrensInheritedRoutes rib (re_children e) routesToAdd [route] u
      }
      else if isChildInherit route then do {
        routesToAdd \<leftarrow> (if \<not> hasCapture e then getAncestorRoutes e rib else Some []);
        modifyChildrensInheritedRoutes rib (re_children e) routesToAdd [route] u
      }
      else if isRibCapture route then do {
        (routesToAdd, u) \<leftarrow> (if captureWasTurnedOff \<and> getNRoutes e \<noteq> 0 then do {
            routesToAdd \<leftarrow> getAncestorRoutes e rib;
            Some (routesToAdd, addInheritedRoutes e routesToAdd u)
          }
          else Some ([], u));
        modifyChildrensInheritedRoutes rib (re_children e) routesToAdd [] u
      }
      else Some u)"

definition createFibUpdatesForErasedRoute :: "Rib \<Rightarrow> RibEntry \<Rightarrow> Route \<Rightarrow> bool \<Rightarrow> fib_updater \<Rightarrow> fib_updater option" where
  "createFibUpdatesForErasedRoute rib e route captureWasTurnedOff u = do {
     let u = addFibUpdate (createRemoveUpdate (re_name e) (faceId route)) u;
     u \<leftarrow> erase_inherited rib e route captureWasTurnedOff u;
     ancestorRoutes \<leftarrow> getAncestorRoutes e rib;
     Some (if \<not> hasCapture e \<and> getNRoutes e \<noteq> 0
       then (case routes_find route ancestorRoutes of
           None \<Rightarrow> u
         | Some r \<Rightarrow> inherit_add (re_name e) r u)
       else u)
   }"

definition createFibUpdatesForErasedRibEntry :: "RibEntry \<Rightarrow> fib_updater \<Rightarrow> fib_updater" where
  "createFibUpdatesForErasedRibEntry e =
     fold (\<lambda>route. addFibUpdate (createRemoveUpdate (re_name e) (faceId route))) (re_inheritedRoutes e)"

subsection \<open>Batches\<close>

definition computeUpdatesForRegistration :: "Rib \<Rightarrow> RibUpdate \<Rightarrow> fib_updater \<Rightarrow> fib_updater option" where
  "computeUpdatesForRegistration rib update u =
     (let n = ru_name update; route = ru_route update
      in case entry_of rib n of
           Some e \<Rightarrow> (case findRoute route e of
               None \<Rightarrow> createFibUpdatesForNewRoute rib e route (\<not> hasCapture e \<and> isRibCapture route) u
             | Some existingRoute \<Rightarrow>
                 let entryCopy = e\<lparr>m_routes := update_first (\<lambda>r. compareFaceIdAndOrigin r route)
                       (\<lambda>r. r\<lparr>flags := flags route, cost := cost route, expires := expires route\<rparr>) (m_routes e)\<rparr>
                 in createFibUpdatesForUpdatedRoute rib entryCopy route existingRoute u)
         | None \<Rightarrow>
             let parent = findParent n rib;
                 children = filter (\<lambda>d. (case entry_of rib d of None \<Rightarrow> False | Some e \<Rightarrow> re_parent e = parent)) (findDescendantsForNonInsertedName n rib)
             in createFibUpdatesForNewRibEntry rib n route children u)"

definition computeUpdatesForUnregistration :: "Rib \<Rightarrow> RibUpdate \<Rightarrow> fib_updater \<Rightarrow> fib_updater option" where
  "computeUpdatesForUnregistration rib update u =
     (let n = ru_name update; route = ru_route update
      in case entry_of rib n of
           None \<Rightarrow> Some u
         | Some e \<Rightarrow> (case findRoute route e of
               None \<Rightarrow> Some u
             | Some existing \<Rightarrow> do {
                 let temp = eraseRoute route e;
                 let captureWasTurnedOff = (hasCapture e \<and> \<not> hasCapture temp);
                 u \<leftarrow> createFibUpdatesForErasedRoute rib temp existing captureWasTurnedOff u;
                 u \<leftarrow> (case getRouteWithSecondLowestCostByFaceId (faceId route) e of
                     None \<Rightarrow> Some u
                   | Some nxt \<Rightarrow> createFibUpdatesForNewRoute rib temp nxt False u);
                 Some (if getNRoutes e = 1 then createFibUpdatesForErasedRibEntry e u else u)
               }))"

fun computeUpdates_loop :: "Rib \<Rightarrow> RibUpdate list \<Rightarrow> fib_updater \<Rightarrow> fib_updater option" where
  "computeUpdates_loop rib [] u = Some u"
| "computeUpdates_loop rib (update # updates) u = do {
     u \<leftarrow> (case ru_action update of
         REGISTER \<Rightarrow> computeUpdatesForRegistration rib update u
       | UNREGISTER \<Rightarrow> computeUpdatesForUnregistration rib update u
       | REMOVE_FACE \<Rightarrow> do {
           u \<leftarrow> computeUpdatesForUnregistration rib update u;
           Some (u\<lparr>m_updatesForBatchFaceId := []\<rparr>)
         });
     computeUpdates_loop rib updates u
   }"

definition computeUpdates :: "Rib \<Rightarrow> RibUpdateBatch \<Rightarrow> fib_updater \<Rightarrow> fib_updater option" where
  "computeUpdates rib batch = computeUpdates_loop rib (rb_updates batch)"

text \<open>The first part of \<^verbatim>\<open>computeAndSendFibUpdates\<close>: a fresh computation for the batch.\<close>

definition beginBatch :: "Rib \<Rightarrow> RibUpdateBatch \<Rightarrow> fib_updater option" where
  "beginBatch rib batch = computeUpdates rib batch
     \<lparr>m_batchFaceId = rb_faceId batch, m_updatesForBatchFaceId = [], m_updatesForNonBatchFaceId = [], m_inheritedRoutes = []\<rparr>"

subsection \<open>Applying a batch to the RIB\<close>

fun modifyInheritedRoutes :: "RibUpdate list \<Rightarrow> Rib \<Rightarrow> Rib option" where
  "modifyInheritedRoutes [] rib = Some rib"
| "modifyInheritedRoutes (update # updates) rib = do {
     e \<leftarrow> entry_of rib (ru_name update);
     let e = (case ru_action update of
         REGISTER \<Rightarrow> addInheritedRoute (ru_route update) e
       | UNREGISTER \<Rightarrow> removeInheritedRoute (ru_route update) e
       | REMOVE_FACE \<Rightarrow> e);
     modifyInheritedRoutes updates (put_entry (ru_name update) e rib)
   }"

definition apply_update :: "comp_less \<Rightarrow> RibUpdate \<Rightarrow> Rib \<Rightarrow> Rib option" where
  "apply_update lt update rib = (case ru_action update of
       REGISTER \<Rightarrow> Rib_insert lt (ru_name update) (ru_route update) rib
     | UNREGISTER \<Rightarrow> Rib_erase (ru_name update) (ru_route update) rib
     | REMOVE_FACE \<Rightarrow> Rib_erase (ru_name update) (ru_route update) rib)"

fun apply_batch :: "comp_less \<Rightarrow> RibUpdate list \<Rightarrow> Rib \<Rightarrow> Rib option" where
  "apply_batch lt [] rib = Some rib"
| "apply_batch lt (update # updates) rib = do { rib \<leftarrow> apply_update lt update rib; apply_batch lt updates rib }"

subsection \<open>Walks along ancestors and subtrees return\<close>

lemma entry_tree: "entry_of rib n = Some e \<Longrightarrow> tree rib n = Some (node e)"
  by (simp add: tree_def)

lemma parent_shorter:
  assumes "rib_ok lt rib" "entry_of rib n = Some e" "re_parent e = Some p"
  shows "entry_of rib p \<noteq> None" "length p < length n"
  using par_SomeD [of "dom (tree rib)" n p] rib_tree_okD(1) [OF rib_okD(2) [OF assms(1)] entry_tree [OF assms(2)]] assms(3)
  by (auto simp: dom_tree prefix_length_less)

lemma child_longer:
  assumes "rib_ok lt rib" "entry_of rib n = Some e" "c \<in> set (re_children e)"
  shows "entry_of rib c \<noteq> None" "strict_prefix n c"
  using par_SomeD [of "dom (tree rib)" c n] rib_tree_okD(3) [OF rib_okD(2) [OF assms(1)] entry_tree [OF assms(2)]] assms(3)
  by (auto simp: dom_tree)

lemma ancestor_loop_returns:
  assumes "rib_ok lt rib" "\<And>p. parent = Some p \<Longrightarrow> entry_of rib p \<noteq> None"
  shows "\<exists>routes. ancestor_loop rib parent acc = Some routes"
proof -
  have "\<exists>routes. ancestor_loop rib (Some p) acc = Some routes" if "entry_of rib p \<noteq> None" for p
    using that
  proof (induction "length p" arbitrary: p acc rule: less_induct)
    case less
    obtain e where e: "entry_of rib p = Some e" using less.prems by auto
    let ?acc = "fold routes_insert (filter isChildInherit (m_routes e)) acc"
    have rest: "\<exists>routes. ancestor_loop rib (re_parent e) ?acc = Some routes"
    proof (cases "re_parent e")
      case None
      then show ?thesis by (simp add: ancestor_loop.simps)
    next
      case (Some q)
      then show ?thesis using less.hyps parent_shorter [OF assms(1) e Some] by simp
    qed
    then show ?case by (subst ancestor_loop.simps) (simp add: e Let_def)
  qed
  then show ?thesis using assms(2) by (cases parent) (simp_all add: ancestor_loop.simps)
qed

lemma getAncestorRoutes_returns:
  assumes "rib_ok lt rib" "entry_of rib n = Some e" "re_parent d = re_parent e"
  shows "\<exists>routes. getAncestorRoutes d rib = Some routes"
  unfolding getAncestorRoutes_def assms(3) using ancestor_loop_returns [OF assms(1)] parent_shorter(1) [OF assms(1,2)] by blast

lemma getAncestorRoutes_name_returns:
  assumes "rib_ok lt rib"
  shows "\<exists>routes. getAncestorRoutes_name n rib = Some routes"
  unfolding getAncestorRoutes_name_def
proof (rule ancestor_loop_returns [OF assms])
  fix p
  assume "findParent n rib = Some p"
  then show "entry_of rib p \<noteq> None" using par_SomeD [of "dom (entry_of rib)" n p] by (auto simp: findParent_par)
qed

text \<open>What recording an inherited route for the names of a set keeps.\<close>

locale update_invariant =
  fixes D :: "name set" and P :: "fib_updater \<Rightarrow> bool"
  assumes add: "n \<in> D \<Longrightarrow> P u \<Longrightarrow> P (inherit_add n route u)"
    and remove: "n \<in> D \<Longrightarrow> P u \<Longrightarrow> P (inherit_remove n route u)"
begin

lemma fold_keeps: "(\<And>route u. route \<in> set routes \<Longrightarrow> P u \<Longrightarrow> P (f route u)) \<Longrightarrow> P u \<Longrightarrow> P (fold f routes u)"
  by (induction routes arbitrary: u) auto

lemma addInheritedRoutes_keeps: "re_name e \<in> D \<Longrightarrow> P u \<Longrightarrow> P (addInheritedRoutes e routes u)"
  unfolding addInheritedRoutes_def by (rule fold_keeps) (auto simp: add)

lemma addInheritedRoutes_ignoring_keeps: "n \<in> D \<Longrightarrow> P u \<Longrightarrow> P (addInheritedRoutes_ignoring n routes ignore u)"
  unfolding addInheritedRoutes_ignoring_def by (rule fold_keeps) (auto simp: add)

lemma removeInheritedRoutes_keeps: "re_name e \<in> D \<Longrightarrow> P u \<Longrightarrow> P (removeInheritedRoutes e routes u)"
  unfolding removeInheritedRoutes_def by (rule fold_keeps) (auto simp: remove)

lemma remove_loop_keeps: "re_name e \<in> D \<Longrightarrow> P u \<Longrightarrow> P (snd (remove_loop e routes u))"
  by (induction routes arbitrary: u) (simp_all add: Let_def remove case_prod_beta)

lemma add_loop_keeps: "re_name e \<in> D \<Longrightarrow> P u \<Longrightarrow> P (snd (add_loop e routes u))"
  by (induction routes arbitrary: u) (simp_all add: Let_def add case_prod_beta)

lemma traverse_one:
  assumes ok: "rib_ok lt rib" and D: "\<And>m k. m \<in> D \<Longrightarrow> strict_prefix m k \<Longrightarrow> entry_of rib k \<noteq> None \<Longrightarrow> k \<in> D"
    and L: "\<And>m. entry_of rib m \<noteq> None \<Longrightarrow> length m \<le> L"
  shows "n \<in> D \<Longrightarrow> entry_of rib n \<noteq> None \<Longrightarrow> P u \<Longrightarrow>
    \<exists>u'. P u' \<and> (\<forall>rest. traverseSubTrees rib ((n, routesToAdd, routesToRemove) # rest) u = traverseSubTrees rib rest u')"
proof (induction "L - length n" arbitrary: n u routesToAdd routesToRemove rule: less_induct)
  case less
  obtain e where e: "entry_of rib n = Some e" using less.prems(2) by auto
  have name: "re_name e = n" using rib_okD(3) [OF ok e] by (simp add: entry_ok_def)
  show ?case
  proof (cases "hasCapture e")
    case True
    then show ?thesis using less.prems(3) e by (intro exI [of _ u]) (subst traverseSubTrees.simps, simp)
  next
    case False
    obtain rem u1 where r: "remove_loop e routesToRemove u = (rem, u1)" by (cases "remove_loop e routesToRemove u")
    obtain ad u2 where a: "add_loop e routesToAdd u1 = (ad, u2)" by (cases "add_loop e routesToAdd u1")
    have "P u1" using remove_loop_keeps [of e u routesToRemove] less.prems(1,3) name r by simp
    then have P2: "P u2" using add_loop_keeps [of e u1 routesToAdd] less.prems(1) name a by simp
    have kids: "\<exists>u'. P u' \<and> (\<forall>rest. traverseSubTrees rib (map (\<lambda>c. (c, ad, rem)) cs @ rest) u = traverseSubTrees rib rest u')"
      if "set cs \<subseteq> set (re_children e)" "P u" for cs u
      using that
    proof (induction cs arbitrary: u)
      case Nil
      then show ?case by auto
    next
      case (Cons c cs)
      have c: "entry_of rib c \<noteq> None" "strict_prefix n c" using child_longer [OF ok e, of c] Cons.prems(1) by auto
      have "L - length c < L - length n" using L [OF c(1)] prefix_length_less [OF c(2)] by linarith
      then obtain u1 where u1: "P u1" "\<forall>rest. traverseSubTrees rib ((c, ad, rem) # rest) u = traverseSubTrees rib rest u1"
        using less.hyps [OF _ D [OF less.prems(1) c(2,1)] c(1) Cons.prems(2), of ad rem] by blast
      obtain u2 where "P u2" "\<forall>rest. traverseSubTrees rib (map (\<lambda>c. (c, ad, rem)) cs @ rest) u1 = traverseSubTrees rib rest u2"
        using Cons.IH [OF _ u1(1)] Cons.prems(1) by auto
      then show ?case using u1(2) by (intro exI [of _ u2]) simp
    qed
    obtain u' where u': "P u'" "\<forall>rest. traverseSubTrees rib (map (\<lambda>c. (c, ad, rem)) (re_children e) @ rest) u2 = traverseSubTrees rib rest u'"
      using kids [OF subset_refl P2] by (elim exE conjE) (rule that)
    have "traverseSubTrees rib ((n, routesToAdd, routesToRemove) # rest) u = traverseSubTrees rib rest u'" for rest
      using u'(2) e False r a by (subst traverseSubTrees.simps) simp
    then show ?thesis using u'(1) by blast
  qed
qed

lemma modifyChildren_keeps:
  assumes ok: "rib_ok lt rib" and D: "\<And>m k. m \<in> D \<Longrightarrow> strict_prefix m k \<Longrightarrow> entry_of rib k \<noteq> None \<Longrightarrow> k \<in> D"
    and cs: "\<And>c. c \<in> set cs \<Longrightarrow> c \<in> D \<and> entry_of rib c \<noteq> None" and P: "P u"
  shows "\<exists>u'. modifyChildrensInheritedRoutes rib cs routesToAdd routesToRemove u = Some u' \<and> P u'"
proof -
  obtain L where L: "\<And>m. entry_of rib m \<noteq> None \<Longrightarrow> length m \<le> L"
  proof -
    have fin: "finite (length ` dom (entry_of rib))" by (simp add: finite_dom_map_of)
    have "length m \<le> Max (length ` dom (entry_of rib))" if "entry_of rib m \<noteq> None" for m
      using that by (intro Max_ge [OF fin]) auto
    then show thesis by (rule that)
  qed
  show ?thesis
    unfolding modifyChildrensInheritedRoutes_def using cs P
  proof (induction cs arbitrary: u)
    case Nil
    then show ?case by (simp add: traverseSubTrees.simps)
  next
    case (Cons c cs)
    have c: "c \<in> D" "entry_of rib c \<noteq> None" using Cons.prems(1) [of c] by simp_all
    have ex: "\<exists>u1. P u1 \<and> (\<forall>rest. traverseSubTrees rib ((c, routesToAdd, routesToRemove) # rest) u = traverseSubTrees rib rest u1)"
      by (rule traverse_one [OF ok _ _ c Cons.prems(2)]) (use D L in blast)+
    obtain u1 where u1: "P u1" "\<forall>rest. traverseSubTrees rib ((c, routesToAdd, routesToRemove) # rest) u = traverseSubTrees rib rest u1"
      using ex by blast
    then show ?case using Cons.IH [OF _ u1(1)] Cons.prems(1) by auto
  qed
qed

end

subsection \<open>Where updates go\<close>

abbreviation fu_key :: "FibUpdate \<Rightarrow> name \<times> nat" where
  "fu_key x \<equiv> (fu_name x, fu_faceId x)"

definition below :: "name set \<Rightarrow> name \<Rightarrow> name set" where
  "below K n = {m \<in> K. prefix n m}"

definition upd_ok :: "name set \<Rightarrow> name \<Rightarrow> fib_updater \<Rightarrow> bool" where
  "upd_ok K n u \<longleftrightarrow>
     distinct (map fu_key (m_updatesForBatchFaceId u)) \<and> distinct (map fu_key (m_updatesForNonBatchFaceId u)) \<and>
     (\<forall>x\<in>set (m_updatesForBatchFaceId u). fu_faceId x = m_batchFaceId u \<and> prefix n (fu_name x)) \<and>
     (\<forall>x\<in>set (m_updatesForNonBatchFaceId u). fu_faceId x \<noteq> m_batchFaceId u \<and> prefix n (fu_name x)) \<and>
     (\<forall>x\<in>set (m_inheritedRoutes u). ru_name x \<in> below K n \<and> ru_action x \<noteq> REMOVE_FACE)"

lemma keys_add_or_replace:
  "map fu_key (add_or_replace x xs) = (if fu_key x \<in> set (map fu_key xs) then map fu_key xs else map fu_key xs @ [fu_key x])"
proof -
  let ?same = "\<lambda>other. fu_name x = fu_name other \<and> fu_faceId x = fu_faceId other"
  have "List.find ?same xs \<noteq> None \<longleftrightarrow> fu_key x \<in> set (map fu_key xs)" by (auto simp: find_eq_None)
  moreover have "map fu_key (update_first ?same (\<lambda>u. u\<lparr>fu_action := fu_action x, fu_cost := fu_cost x\<rparr>) xs) = map fu_key xs"
    by (rule map_update_first) simp
  ultimately show ?thesis by (simp add: add_or_replace_def Let_def)
qed

lemma distinct_add_or_replace: "distinct (map fu_key xs) \<Longrightarrow> distinct (map fu_key (add_or_replace x xs))"
  unfolding keys_add_or_replace by simp

lemma set_add_or_replace:
  assumes "y \<in> set (add_or_replace x xs)" "Q (fu_key x)" "\<forall>z\<in>set xs. Q (fu_key z)"
  shows "Q (fu_key y)"
proof -
  have "fu_key y \<in> set (map fu_key (add_or_replace x xs))" using assms(1) by simp
  then have "fu_key y = fu_key x \<or> fu_key y \<in> set (map fu_key xs)" unfolding keys_add_or_replace by (auto split: if_splits)
  then show ?thesis using assms(2,3) by auto
qed

lemma addFibUpdate_ok:
  assumes "upd_ok K n u" "prefix n (fu_name x)"
  shows "upd_ok K n (addFibUpdate x u)"
proof (cases "fu_faceId x = m_batchFaceId u")
  case True
  have "fu_faceId y = m_batchFaceId u \<and> prefix n (fu_name y)" if "y \<in> set (add_or_replace x (m_updatesForBatchFaceId u))" for y
    using set_add_or_replace [OF that, of "\<lambda>k. snd k = m_batchFaceId u \<and> prefix n (fst k)"] assms True by (auto simp: upd_ok_def)
  then show ?thesis using assms True by (auto simp: upd_ok_def addFibUpdate_def distinct_add_or_replace)
next
  case False
  have "fu_faceId y \<noteq> m_batchFaceId u \<and> prefix n (fu_name y)" if "y \<in> set (add_or_replace x (m_updatesForNonBatchFaceId u))" for y
    using set_add_or_replace [OF that, of "\<lambda>k. snd k \<noteq> m_batchFaceId u \<and> prefix n (fst k)"] assms False by (auto simp: upd_ok_def)
  then show ?thesis using assms False by (auto simp: upd_ok_def addFibUpdate_def distinct_add_or_replace)
qed

interpretation ui: update_invariant "below K n" "upd_ok K n" for K n
proof
  fix m u route
  assume m: "m \<in> below K n" and u: "upd_ok K n u"
  show "upd_ok K n (inherit_add m route u)"
    unfolding inherit_add_def by (rule addFibUpdate_ok) (use m u in \<open>auto simp: addInheritedRoute_update_def upd_ok_def below_def createAddUpdate_def\<close>)
  show "upd_ok K n (inherit_remove m route u)"
    unfolding inherit_remove_def by (rule addFibUpdate_ok) (use m u in \<open>auto simp: removeInheritedRoute_update_def upd_ok_def below_def createRemoveUpdate_def\<close>)
qed

text \<open>The situation of an update: a well-formed table, and the names the update may concern.\<close>

definition update_at :: "comp_less \<Rightarrow> Rib \<Rightarrow> name set \<Rightarrow> name \<Rightarrow> bool" where
  "update_at lt rib K n \<longleftrightarrow> rib_ok lt rib \<and> (\<forall>k. entry_of rib k \<noteq> None \<longrightarrow> strict_prefix n k \<longrightarrow> k \<in> K)"

lemma update_atD:
  assumes "update_at lt rib K n"
  shows "rib_ok lt rib" "entry_of rib k \<noteq> None \<Longrightarrow> strict_prefix n k \<Longrightarrow> k \<in> K"
  using assms unfolding update_at_def by blast+

lemma below_closed: "update_at lt rib K n \<Longrightarrow> m \<in> below K n \<Longrightarrow> strict_prefix m k \<Longrightarrow> entry_of rib k \<noteq> None \<Longrightarrow> k \<in> below K n"
  using update_atD(2) [of lt rib K n k] prefix_order.le_less_trans [of n m k] by (auto simp: below_def prefix_order.less_imp_le)

lemma strict_below: "update_at lt rib K n \<Longrightarrow> strict_prefix n k \<Longrightarrow> entry_of rib k \<noteq> None \<Longrightarrow> k \<in> below K n"
  using update_atD(2) [of lt rib K n k] by (auto simp: below_def prefix_order.less_imp_le)

lemma modify_ok:
  assumes at: "update_at lt rib K n" and "\<And>c. c \<in> set cs \<Longrightarrow> strict_prefix n c \<and> entry_of rib c \<noteq> None" "upd_ok K n u"
  shows "\<exists>u'. modifyChildrensInheritedRoutes rib cs a r u = Some u' \<and> upd_ok K n u'"
  by (rule ui.modifyChildren_keeps [OF update_atD(1) [OF at] below_closed [OF at]]) (use assms strict_below [OF at] in auto)

lemma add_own: "upd_ok K n u \<Longrightarrow> upd_ok K n (addFibUpdate (createAddUpdate n f c) u)"
  by (rule addFibUpdate_ok) (simp_all add: createAddUpdate_def)

lemma remove_own: "upd_ok K n u \<Longrightarrow> upd_ok K n (addFibUpdate (createRemoveUpdate n f) u)"
  by (rule addFibUpdate_ok) (simp_all add: createRemoveUpdate_def)

lemma own_below: "n \<in> K \<Longrightarrow> n \<in> below K n"
  by (simp add: below_def)

text \<open>An entry of the table at the name, and a copy of it with other routes.\<close>

definition update_entry :: "comp_less \<Rightarrow> Rib \<Rightarrow> name set \<Rightarrow> name \<Rightarrow> RibEntry \<Rightarrow> RibEntry \<Rightarrow> bool" where
  "update_entry lt rib K n e d \<longleftrightarrow> update_at lt rib K n \<and> entry_of rib n = Some e \<and>
     re_parent d = re_parent e \<and> re_children d = re_children e \<and> re_name d = n"

lemma update_entryD:
  assumes "update_entry lt rib K n e d"
  shows "update_at lt rib K n" "rib_ok lt rib" "entry_of rib n = Some e" "re_parent d = re_parent e" "re_children d = re_children e" "re_name d = n"
  using assms update_atD(1) unfolding update_entry_def by blast+

lemma kids_ok:
  assumes at: "update_entry lt rib K n e d" and "upd_ok K n u"
  shows "\<exists>u'. modifyChildrensInheritedRoutes rib (re_children d) a r u = Some u' \<and> upd_ok K n u'"
  by (rule modify_ok [OF update_entryD(1) [OF at] _ assms(2)]) (auto dest: child_longer [OF update_entryD(2,3) [OF at]] simp: update_entryD(5) [OF at])

lemma ancestors: "update_entry lt rib K n e d \<Longrightarrow> \<exists>routes. getAncestorRoutes d rib = Some routes"
  by (rule getAncestorRoutes_returns [OF update_entryD(2,3,4)])

lemma newRoute_ok:
  assumes at: "update_entry lt rib K n e d" and "upd_ok K n u" "on \<Longrightarrow> n \<in> K"
  shows "\<exists>u'. createFibUpdatesForNewRoute rib d route on u = Some u' \<and> upd_ok K n u'"
proof -
  obtain anc where anc: "getAncestorRoutes d rib = Some anc" using ancestors [OF at] by blast
  have "\<exists>rem u1. (if on then do { r \<leftarrow> getAncestorRoutes d rib; Some (r, removeInheritedRoutes d r u) } else Some ([], u)) = Some (rem, u1) \<and> upd_ok K n u1"
    using assms anc ui.removeInheritedRoutes_keeps [of d K n u anc] own_below update_entryD(6) [OF at] by (cases on) auto
  then obtain rem u1 where 1: "(if on then do { r \<leftarrow> getAncestorRoutes d rib; Some (r, removeInheritedRoutes d r u) } else Some ([], u)) = Some (rem, u1)"
    "upd_ok K n u1" by blast
  define ad where "ad = (if isChildInherit route \<and> (case getRouteWithLowestCostAndChildInheritByFaceId (faceId route) d of
    None \<Rightarrow> True | Some prev \<Rightarrow> cost route \<le> cost prev) then [route] else [])"
  obtain u2 where "modifyChildrensInheritedRoutes rib (re_children d) ad rem u1 = Some u2" "upd_ok K n u2"
    using kids_ok [OF at 1(2)] by blast
  then show ?thesis
    unfolding createFibUpdatesForNewRoute_def Let_def 1(1) ad_def [symmetric] by (simp add: update_entryD(6) [OF at] add_own)
qed

lemma erasedRibEntry_ok: "update_entry lt rib K n e d \<Longrightarrow> upd_ok K n u \<Longrightarrow> upd_ok K n (createFibUpdatesForErasedRibEntry d u)"
  unfolding createFibUpdatesForErasedRibEntry_def by (rule ui.fold_keeps) (simp_all add: update_entryD(6) remove_own)

lemma erase_inherited_ok:
  assumes at: "update_entry lt rib K n e d" and u: "upd_ok K n u" and K: "getNRoutes d \<noteq> 0 \<Longrightarrow> n \<in> K"
  shows "\<exists>u'. erase_inherited rib d route off u = Some u' \<and> upd_ok K n u'"
proof -
  obtain anc where anc: "getAncestorRoutes d rib = Some anc" using ancestors [OF at] by blast
  have keep: "upd_ok K n (addInheritedRoutes d anc u)" if "getNRoutes d \<noteq> 0"
    using ui.addInheritedRoutes_keeps [of d K n u anc] own_below [OF K [OF that]] update_entryD(6) [OF at] u by simp
  have "\<exists>ad u1. (if off \<and> getNRoutes d \<noteq> 0 then do { r \<leftarrow> getAncestorRoutes d rib; Some (r, addInheritedRoutes d r u) } else Some ([], u)) = Some (ad, u1) \<and>
      upd_ok K n u1"
    using u anc keep by auto
  then obtain ad u1 where 1: "(if off \<and> getNRoutes d \<noteq> 0 then do { r \<leftarrow> getAncestorRoutes d rib; Some (r, addInheritedRoutes d r u) } else Some ([], u)) = Some (ad, u1)"
    "upd_ok K n u1" by blast
  have 2: "\<exists>ad. (if \<not> hasCapture d then getAncestorRoutes d rib else Some []) = Some ad" using anc by auto
  show ?thesis
    unfolding erase_inherited_def 1(1) using 2 kids_ok [OF at 1(2)] kids_ok [OF at u] u by auto
qed

lemma erasedRoute_ok:
  assumes at: "update_entry lt rib K n e d" and "upd_ok K n u" "getNRoutes d \<noteq> 0 \<Longrightarrow> n \<in> K"
  shows "\<exists>u'. createFibUpdatesForErasedRoute rib d route off u = Some u' \<and> upd_ok K n u'"
proof -
  obtain anc where anc: "getAncestorRoutes d rib = Some anc" using ancestors [OF at] by blast
  obtain u1 where "erase_inherited rib d route off (addFibUpdate (createRemoveUpdate n (faceId route)) u) = Some u1" "upd_ok K n u1"
    using erase_inherited_ok [OF at remove_own [OF assms(2)] assms(3)] by blast
  then show ?thesis
    using anc ui.add [of n K n u1] assms(3) own_below
    by (auto simp: createFibUpdatesForErasedRoute_def update_entryD(6) [OF at] split: option.splits)
qed

lemma update_cost_ok:
  assumes at: "update_entry lt rib K n e d" and "upd_ok K n u" "getRouteWithLowestCostByFaceId (faceId route) d = Some lowest"
    "\<not> (cost lowest < cost route \<and> cost existing < cost lowest \<and> prev = None)"
  shows "\<exists>u'. update_cost d route existing prev u = Some u' \<and> upd_ok K n u'"
  using assms add_own by (auto simp: update_cost_def update_entryD(6) [OF at] split: option.split)

lemma update_inherit_ok:
  assumes at: "update_entry lt rib K n e d" and u: "upd_ok K n u"
  shows "\<exists>u'. update_inherit rib d route existing prev u = Some u' \<and> upd_ok K n u'"
proof -
  obtain anc where anc: "getAncestorRoutes d rib = Some anc" using ancestors [OF at] by blast
  have "\<exists>ad. (case prev of Some p \<Rightarrow> Some [p] | None \<Rightarrow> do { r \<leftarrow> getAncestorRoutes d rib; Some (case routes_find route r of None \<Rightarrow> [] | Some x \<Rightarrow> [x]) }) = Some ad"
    using anc by (cases prev) auto
  then show ?thesis
    unfolding update_inherit_def using kids_ok [OF at u] u by auto
qed

lemma update_capture_ok:
  assumes at: "update_entry lt rib K n e d" and u: "upd_ok K n u" and K: "n \<in> K"
  shows "\<exists>u'. update_capture rib d route existing u = Some u' \<and> upd_ok K n u'"
proof -
  obtain anc where anc: "getAncestorRoutes d rib = Some anc" using ancestors [OF at] by blast
  have "upd_ok K n (addInheritedRoutes d anc u)" "upd_ok K n (removeInheritedRoutes d anc u)"
    using ui.addInheritedRoutes_keeps [of d K n u anc] ui.removeInheritedRoutes_keeps [of d K n u anc] own_below [OF K] update_entryD(6) [OF at] u by simp_all
  then show ?thesis
    unfolding update_capture_def using anc kids_ok [OF at] u by auto
qed

lemma updatedRoute_ok:
  assumes at: "update_entry lt rib K n e d" and u: "upd_ok K n u" and K: "n \<in> K" and low: "getRouteWithLowestCostByFaceId (faceId route) d = Some lowest"
  shows "if cost lowest < cost route \<and> cost existing < cost lowest \<and> getRouteWithLowestCostAndChildInheritByFaceId (faceId route) d = None
    then createFibUpdatesForUpdatedRoute rib d route existing u = None
    else \<exists>u'. createFibUpdatesForUpdatedRoute rib d route existing u = Some u' \<and> upd_ok K n u'"
proof -
  define prev where "prev = getRouteWithLowestCostAndChildInheritByFaceId (faceId route) d"
  let ?null = "cost lowest < cost route \<and> cost existing < cost lowest \<and> prev = None"
  have rest: "\<exists>u'. (do { u \<leftarrow> update_inherit rib d route existing prev u; update_capture rib d route existing u }) = Some u' \<and> upd_ok K n u'"
    if "upd_ok K n u" for u
    using update_inherit_ok [OF at that, of route existing prev] update_capture_ok [OF at _ K, of _ route existing] by auto
  show ?thesis
  proof (cases ?null)
    case True
    then show ?thesis
      using low by (simp add: createFibUpdatesForUpdatedRoute_def Let_def prev_def [symmetric] update_cost_def)
  next
    case False
    have "\<exists>u1. (if cost route \<noteq> cost existing then update_cost d route existing prev u else Some u) = Some u1 \<and> upd_ok K n u1"
      using False u update_cost_ok [OF at u low, of existing prev] by auto
    then obtain u1 where u1: "(if cost route \<noteq> cost existing then update_cost d route existing prev u else Some u) = Some u1" "upd_ok K n u1" by blast
    then have "\<exists>u'. createFibUpdatesForUpdatedRoute rib d route existing u = Some u' \<and> upd_ok K n u'"
      unfolding createFibUpdatesForUpdatedRoute_def Let_def prev_def [symmetric] u1(1)
      using u rest [OF u1(2)] kids_ok [OF at u1(2), of "[route]" "[]"] by auto
    then show ?thesis unfolding prev_def [symmetric] using False by auto
  qed
qed

subsection \<open>A batch from computation to application\<close>

lemma lowest_loop_Some: "candidate \<noteq> None \<or> (\<exists>r\<in>set routes. P r) \<Longrightarrow> lowest_loop P routes candidate \<noteq> None"
  by (induction routes arbitrary: candidate) (auto split: option.splits)

lemma lowest_loop_minimal:
  "lowest_loop P routes candidate = Some r \<Longrightarrow>
    (\<forall>x\<in>set routes. P x \<longrightarrow> cost r \<le> cost x) \<and> (\<forall>c. candidate = Some c \<longrightarrow> cost r \<le> cost c) \<and> (candidate = Some r \<or> r \<in> set routes \<and> P r)"
proof (induction routes arbitrary: candidate)
  case (Cons x routes)
  then show ?case by (cases candidate) (fastforce split: if_splits)+
qed simp

definition updated_copy :: "Route \<Rightarrow> RibEntry \<Rightarrow> RibEntry" where
  "updated_copy route e = e\<lparr>m_routes := update_first (\<lambda>r. compareFaceIdAndOrigin r route)
     (\<lambda>r. r\<lparr>flags := flags route, cost := cost route, expires := expires route\<rparr>) (m_routes e)\<rparr>"

text \<open>The update for which the previous route is dereferenced although there is none.\<close>

definition null_previous_route :: "Rib \<Rightarrow> RibUpdate \<Rightarrow> bool" where
  "null_previous_route rib update \<longleftrightarrow> ru_action update = REGISTER \<and>
     (case Rib_find_route (ru_name update) (ru_route update) rib of
        None \<Rightarrow> False
      | Some existing \<Rightarrow>
          let d = updated_copy (ru_route update) (the (entry_of rib (ru_name update)));
              lowest = the (getRouteWithLowestCostByFaceId (faceId (ru_route update)) d)
          in cost lowest < cost (ru_route update) \<and> cost existing < cost lowest \<and>
             getRouteWithLowestCostAndChildInheritByFaceId (faceId (ru_route update)) d = None)"

lemma registration_ok:
  assumes at: "update_at lt rib K (ru_name update)" and u: "upd_ok K (ru_name update) u" and K: "ru_name update \<in> K" and reg: "ru_action update = REGISTER"
  shows "if null_previous_route rib update then computeUpdatesForRegistration rib update u = None
    else \<exists>u'. computeUpdatesForRegistration rib update u = Some u' \<and> upd_ok K (ru_name update) u'"
proof (cases "entry_of rib (ru_name update)")
  case (Some e)
  let ?n = "ru_name update" and ?route = "ru_route update"
  have name: "re_name e = ?n" using rib_okD(3) [OF update_atD(1) [OF at] Some] by (simp add: entry_ok_def)
  show ?thesis
  proof (cases "findRoute ?route e")
    case None
    have "update_entry lt rib K ?n e e" using at Some name by (simp add: update_entry_def)
    then have "\<exists>u'. createFibUpdatesForNewRoute rib e ?route (\<not> hasCapture e \<and> isRibCapture ?route) u = Some u' \<and> upd_ok K ?n u'"
      by (rule newRoute_ok [OF _ u K])
    then show ?thesis using Some None by (simp add: computeUpdatesForRegistration_def null_previous_route_def Rib_find_route_def Let_def)
  next
    case (Some existing)
    define d where "d = updated_copy ?route e"
    have ue: "update_entry lt rib K ?n e d"
      using at \<open>entry_of rib ?n = Some e\<close> name by (simp add: update_entry_def d_def updated_copy_def)
    have ex: "existing \<in> set (m_routes e)" "faceId existing = faceId ?route"
      using find_SomeD [OF Some [unfolded findRoute_def]] by (auto simp: compareFaceIdAndOrigin_def)
    have "map faceId (m_routes d) = map faceId (m_routes e)" unfolding d_def updated_copy_def by (simp, rule map_update_first) simp
    then have "faceId ?route \<in> faceId ` set (m_routes d)" using ex by (metis image_eqI set_map)
    then have "\<exists>r\<in>set (m_routes d). faceId r = faceId ?route" by auto
    then obtain lowest where low: "getRouteWithLowestCostByFaceId (faceId ?route) d = Some lowest"
      using lowest_loop_Some [of None "m_routes d" "\<lambda>r. faceId r = faceId ?route"] by (auto simp: getRouteWithLowestCostByFaceId_def)
    have "computeUpdatesForRegistration rib update u = createFibUpdatesForUpdatedRoute rib d ?route existing u"
      using \<open>entry_of rib ?n = Some e\<close> Some by (simp add: computeUpdatesForRegistration_def Let_def d_def updated_copy_def)
    moreover have "null_previous_route rib update \<longleftrightarrow> cost lowest < cost ?route \<and> cost existing < cost lowest \<and>
        getRouteWithLowestCostAndChildInheritByFaceId (faceId ?route) d = None"
      using \<open>entry_of rib ?n = Some e\<close> Some low reg by (simp add: null_previous_route_def Rib_find_route_def Let_def d_def [symmetric])
    ultimately show ?thesis using updatedRoute_ok [OF ue u K low, of existing] by simp
  qed
next
  case None
  let ?n = "ru_name update" and ?route = "ru_route update"
  define cs where "cs = filter (\<lambda>d. (case entry_of rib d of None \<Rightarrow> False | Some e \<Rightarrow> re_parent e = findParent ?n rib)) (findDescendantsForNonInsertedName ?n rib)"
  have cs: "strict_prefix ?n c \<and> entry_of rib c \<noteq> None" if "c \<in> set cs" for c
    using that None by (auto simp: cs_def findDescendantsForNonInsertedName_def strict_prefix_def split: option.splits)
  obtain anc where anc: "getAncestorRoutes_name ?n rib = Some anc" using getAncestorRoutes_name_returns [OF update_atD(1) [OF at]] by blast
  define u1 where "u1 = addFibUpdate (createAddUpdate ?n (faceId ?route) (cost ?route)) u"
  have u1: "upd_ok K ?n u1" using add_own [OF u] by (simp add: u1_def)
  have u2: "upd_ok K ?n (addInheritedRoutes_ignoring ?n anc ?route u1)"
    by (rule ui.addInheritedRoutes_ignoring_keeps [OF own_below [OF K] u1])
  have "\<exists>u'. createFibUpdatesForNewRibEntry rib ?n ?route cs u = Some u' \<and> upd_ok K ?n u'"
    unfolding createFibUpdatesForNewRibEntry_def Let_def u1_def [symmetric] anc
    using u2 modify_ok [OF at cs u1] modify_ok [OF at cs u2] by auto
  then show ?thesis using None by (simp add: computeUpdatesForRegistration_def null_previous_route_def Rib_find_route_def cs_def Let_def)
qed

lemma unregistration_ok:
  assumes at: "update_at lt rib K (ru_name update)" and u: "upd_ok K (ru_name update) u"
    and K: "\<And>e. entry_of rib (ru_name update) = Some e \<Longrightarrow> m_routes (eraseRoute (ru_route update) e) \<noteq> [] \<Longrightarrow> ru_name update \<in> K"
  shows "\<exists>u'. computeUpdatesForUnregistration rib update u = Some u' \<and> upd_ok K (ru_name update) u'"
proof (cases "\<exists>e r. entry_of rib (ru_name update) = Some e \<and> findRoute (ru_route update) e = Some r")
  case False
  then show ?thesis using u by (auto simp: computeUpdatesForUnregistration_def Let_def split: option.split)
next
  case True
  let ?n = "ru_name update" and ?route = "ru_route update"
  obtain e r where e: "entry_of rib ?n = Some e" and r: "findRoute ?route e = Some r" using True by blast
  define d where "d = eraseRoute ?route e"
  have name: "re_name e = ?n" using rib_okD(3) [OF update_atD(1) [OF at] e] by (simp add: entry_ok_def)
  have ue: "update_entry lt rib K ?n e d" using at e name r by (simp add: update_entry_def d_def eraseRoute_def)
  have ue': "update_entry lt rib K ?n e e" using at e name by (simp add: update_entry_def)
  have Kd: "?n \<in> K" if "getNRoutes d \<noteq> 0" using K [OF e] that by (simp add: d_def getNRoutes_def)
  obtain u1 where u1: "createFibUpdatesForErasedRoute rib d r (hasCapture e \<and> \<not> hasCapture d) u = Some u1" "upd_ok K ?n u1"
    using erasedRoute_ok [OF ue u Kd] by blast
  have "\<exists>u2. (case getRouteWithSecondLowestCostByFaceId (faceId ?route) e of None \<Rightarrow> Some u1
      | Some nxt \<Rightarrow> createFibUpdatesForNewRoute rib d nxt False u1) = Some u2 \<and> upd_ok K ?n u2"
    using newRoute_ok [OF ue u1(2)] u1(2) by (cases "getRouteWithSecondLowestCostByFaceId (faceId ?route) e") auto
  then obtain u2 where u2: "(case getRouteWithSecondLowestCostByFaceId (faceId ?route) e of None \<Rightarrow> Some u1
      | Some nxt \<Rightarrow> createFibUpdatesForNewRoute rib d nxt False u1) = Some u2" "upd_ok K ?n u2" by blast
  show ?thesis
    using e r u1(1) u2 erasedRibEntry_ok [OF ue' u2(2)] by (simp add: computeUpdatesForUnregistration_def Let_def d_def [symmetric])
qed

lemma modifyInheritedRoutes_ok:
  assumes "rib_ok lt rib" "\<forall>x\<in>set updates. entry_of rib (ru_name x) \<noteq> None"
  shows "\<exists>rib'. modifyInheritedRoutes updates rib = Some rib' \<and> rib_ok lt rib' \<and> routes_view rib' = routes_view rib"
  using assms
proof (induction updates arbitrary: rib)
  case (Cons x updates)
  obtain e where e: "entry_of rib (ru_name x) = Some e" using Cons.prems(2) by auto
  define e' where "e' = (case ru_action x of REGISTER \<Rightarrow> addInheritedRoute (ru_route x) e
    | UNREGISTER \<Rightarrow> removeInheritedRoute (ru_route x) e | REMOVE_FACE \<Rightarrow> e)"
  have e': "m_routes e' = m_routes e" "node e' = node e" "re_name e' = re_name e"
    by (cases "ru_action x"; simp add: e'_def addInheritedRoute_def removeInheritedRoute_def)+
  define rib1 where "rib1 = put_entry (ru_name x) e' rib"
  have ok1: "rib_ok lt rib1"
  proof (rule replace_entry_ok [OF Cons.prems(1) e, of e' "m_nItems rib"])
    show "entry_ok (ru_name x) e'" using rib_okD(3) [OF Cons.prems(1) e] by (simp add: entry_ok_def e')
    show "faces_ok rib1" using rib_okD(5) [OF Cons.prems(1)] e by (auto simp: faces_ok_def rib1_def hasFaceId_image e')
  qed (simp_all add: e' rib1_def)
  have view: "routes_view rib1 = routes_view rib" using e by (auto simp: routes_view_def rib1_def fun_eq_iff e')
  have "\<forall>y\<in>set updates. entry_of rib1 (ru_name y) \<noteq> None" using Cons.prems(2) by (simp add: rib1_def)
  then show ?case using Cons.IH [OF ok1] e view by (simp add: rib1_def e'_def)
qed simp

lemma entry_view:
  assumes "rib_ok lt rib"
  shows "entry_of rib n \<noteq> None \<longleftrightarrow> (\<exists>k. routes_view rib (n, k) \<noteq> None)"
proof
  assume "entry_of rib n \<noteq> None"
  then obtain e where e: "entry_of rib n = Some e" by auto
  then obtain r rs where "m_routes e = r # rs" using rib_okD(3) [OF assms e] by (cases "m_routes e") (auto simp: entry_ok_def)
  then show "\<exists>k. routes_view rib (n, k) \<noteq> None" using e by (intro exI [of _ "rkey r"]) (simp add: routes_view_def)
qed (auto simp: routes_view_def split: option.splits)

lemma apply_update_ok:
  assumes "strict_order lt" "rib_ok lt rib"
  shows "\<exists>rib'. apply_update lt update rib = Some rib' \<and> rib_ok lt rib' \<and>
    routes_view rib' = (routes_view rib)((ru_name update, rkey (ru_route update)) := (if ru_action update = REGISTER then Some (ru_route update) else None))"
  using Rib_insert_ok [OF assms, of "ru_name update" "ru_route update"] Rib_erase_ok [OF assms(2), of "ru_name update" "ru_route update"]
  by (cases "ru_action update") (simp_all add: apply_update_def)

lemma batch_ok:
  assumes lt: "strict_order lt" and ok: "rib_ok lt rib" and batch: "rb_updates batch = [update]"
  shows "if null_previous_route rib update then beginBatch rib batch = None
    else \<exists>u rib' rib''. beginBatch rib batch = Some u \<and>
      distinct (map fu_key (m_updatesForBatchFaceId u @ m_updatesForNonBatchFaceId u)) \<and>
      (\<forall>x\<in>set (m_updatesForBatchFaceId u). fu_faceId x = m_batchFaceId u \<and> prefix (ru_name update) (fu_name x)) \<and>
      (\<forall>x\<in>set (m_updatesForNonBatchFaceId u). fu_faceId x \<noteq> m_batchFaceId u \<and> prefix (ru_name update) (fu_name x)) \<and>
      apply_batch lt (rb_updates batch) rib = Some rib' \<and> modifyInheritedRoutes (m_inheritedRoutes u) rib' = Some rib'' \<and> rib_ok lt rib'' \<and>
      routes_view rib'' = (routes_view rib)((ru_name update, rkey (ru_route update)) := (if ru_action update = REGISTER then Some (ru_route update) else None))"
proof -
  let ?n = "ru_name update" and ?k = "rkey (ru_route update)"
  obtain rib' where rib': "apply_update lt update rib = Some rib'" "rib_ok lt rib'"
    "routes_view rib' = (routes_view rib)((?n, ?k) := (if ru_action update = REGISTER then Some (ru_route update) else None))"
    using apply_update_ok [OF lt ok, of update] by (elim exE conjE) (rule that)
  define K where "K = dom (entry_of rib')"
  have inK: "m \<in> K \<longleftrightarrow> (\<exists>k. routes_view rib' (m, k) \<noteq> None)" for m
    using entry_view [OF rib'(2), of m] by (simp add: K_def domIff)
  have other: "m \<in> K" if "entry_of rib m \<noteq> None" "m \<noteq> ?n" for m
    using entry_view [OF ok, of m] that inK [of m] by (auto simp: rib'(3))
  have at: "update_at lt rib K ?n" using ok other by (auto simp: update_at_def)
  define u0 where "u0 = \<lparr>m_batchFaceId = rb_faceId batch, m_updatesForBatchFaceId = [], m_updatesForNonBatchFaceId = [], m_inheritedRoutes = []\<rparr>"
  have u0: "upd_ok K ?n u0" by (simp add: u0_def upd_ok_def)
  have comp: "if null_previous_route rib update then beginBatch rib batch = None else \<exists>u. beginBatch rib batch = Some u \<and> upd_ok K ?n u"
  proof (cases "ru_action update = REGISTER")
    case True
    have "routes_view rib' (?n, ?k) \<noteq> None" using True by (simp add: rib'(3))
    then have "?n \<in> K" using inK by blast
    from registration_ok [OF at u0 this True] show ?thesis
      using True by (auto simp: beginBatch_def computeUpdates_def batch u0_def [symmetric] split: if_splits)
  next
    case False
    have "?n \<in> K" if e: "entry_of rib ?n = Some e" and ne: "m_routes (eraseRoute (ru_route update) e) \<noteq> []" for e
    proof -
      have dist: "distinct (map rkey (m_routes e))" "m_routes e \<noteq> []" using rib_okD(3) [OF ok e] by (simp_all add: entry_ok_def)
      obtain r where r: "r \<in> set (m_routes e)" "rkey r \<noteq> ?k"
      proof (cases "findRoute (ru_route update) e")
        case None
        then show thesis using that dist(2) by (cases "m_routes e") (auto simp: findRoute_key split: if_splits)
      next
        case (Some x)
        then have "filter (\<lambda>r. rkey r \<noteq> ?k) (m_routes e) \<noteq> []" using eraseRoute_routes(1) [OF dist(1), of "ru_route update"] ne by simp
        then show thesis using that by (auto simp: filter_empty_conv)
      qed
      have "routes_view rib (?n, rkey r) \<noteq> None" using e r(1) by (auto simp: routes_view_def find_eq_None)
      then have "routes_view rib' (?n, rkey r) \<noteq> None" using r(2) by (auto simp: rib'(3))
      then show ?thesis using inK by blast
    qed
    then obtain u where u: "computeUpdatesForUnregistration rib update u0 = Some u" "upd_ok K ?n u"
      using unregistration_ok [OF at u0] by blast
    have "upd_ok K ?n (u\<lparr>m_updatesForBatchFaceId := []\<rparr>)" using u(2) by (simp add: upd_ok_def)
    then show ?thesis
      using False u by (cases "ru_action update") (simp_all add: null_previous_route_def beginBatch_def computeUpdates_def batch u0_def [symmetric])
  qed
  show ?thesis
  proof (cases "null_previous_route rib update")
    case True
    then show ?thesis using comp by simp
  next
    case False
    then obtain u where u: "beginBatch rib batch = Some u" "upd_ok K ?n u" using comp by auto
    have "\<forall>x\<in>set (m_inheritedRoutes u). entry_of rib' (ru_name x) \<noteq> None" using u(2) by (auto simp: upd_ok_def below_def K_def)
    then obtain rib'' where rib'': "modifyInheritedRoutes (m_inheritedRoutes u) rib' = Some rib''" "rib_ok lt rib''" "routes_view rib'' = routes_view rib'"
      using modifyInheritedRoutes_ok [OF rib'(2)] by blast
    have "distinct (map fu_key (m_updatesForBatchFaceId u @ m_updatesForNonBatchFaceId u))"
      using u(2) by (fastforce simp: upd_ok_def)
    then show ?thesis
      using False u rib' rib'' unfolding upd_ok_def batch by (simp add: batch del: map_append)
  qed
qed

text \<open>C9: every RIB update is computed and applied: on a well-formed RIB, the computation of FIB updates for a
  registration, an unregistration or the removal of a face returns, except for an update that
  makes the code dereference a null route; the next hops it adds and removes are for names
  under the prefix of the update, at most one for each name and face, split by whether they
  are for the face of the batch; and applying the update and the inherited routes it
  recorded passes every assertion and leaves a well-formed RIB with exactly that route
  changed.\<close>

theorem rib_update_computed_and_applied:
  assumes lt: "strict_order lt" and ok: "rib_ok lt rib" and batch: "rb_updates batch = [update]"
  shows "if null_previous_route rib update then beginBatch rib batch = None
    else \<exists>u rib' rib''. beginBatch rib batch = Some u \<and>
      distinct (map fu_key (m_updatesForBatchFaceId u @ m_updatesForNonBatchFaceId u)) \<and>
      (\<forall>x\<in>set (m_updatesForBatchFaceId u). fu_faceId x = m_batchFaceId u \<and> prefix (ru_name update) (fu_name x)) \<and>
      (\<forall>x\<in>set (m_updatesForNonBatchFaceId u). fu_faceId x \<noteq> m_batchFaceId u \<and> prefix (ru_name update) (fu_name x)) \<and>
      apply_batch lt (rb_updates batch) rib = Some rib' \<and> modifyInheritedRoutes (m_inheritedRoutes u) rib' = Some rib'' \<and> rib_ok lt rib'' \<and>
      routes_view rib'' = (routes_view rib)((ru_name update, rkey (ru_route update)) := (if ru_action update = REGISTER then Some (ru_route update) else None))"
  by (rule batch_ok [OF assms])

definition example_update :: "RibUpdate_Action \<Rightarrow> Route \<Rightarrow> RibUpdate" where
  "example_update action route = \<lparr>ru_action = action, ru_name = [Component 8 ''a''], ru_route = route\<rparr>"

theorem rib_update_computed_and_applied_witness:
  "let update = example_update REGISTER (example_route 1 0 10 1); batch = \<lparr>rb_faceId = 1, rb_updates = [update]\<rparr>
   in strict_order octet_less \<and> rib_ok octet_less Rib_new \<and> rb_updates batch = [update] \<and> \<not> null_previous_route Rib_new update \<and>
     (\<exists>u rib' rib''. beginBatch Rib_new batch = Some u \<and> apply_batch octet_less (rb_updates batch) Rib_new = Some rib' \<and>
       modifyInheritedRoutes (m_inheritedRoutes u) rib' = Some rib'' \<and> rib_ok octet_less rib'')"
proof -
  define update where "update = example_update REGISTER (example_route 1 0 10 1)"
  define batch where "batch = \<lparr>rb_faceId = 1, rb_updates = [update]\<rparr>"
  have b: "rb_updates batch = [update]" by (simp add: batch_def)
  have n: "\<not> null_previous_route Rib_new update"
    by (simp add: null_previous_route_def Rib_find_route_def Rib_new_def)
  obtain u rib' rib'' where "beginBatch Rib_new batch = Some u" "apply_batch octet_less (rb_updates batch) Rib_new = Some rib'"
    "modifyInheritedRoutes (m_inheritedRoutes u) rib' = Some rib''" "rib_ok octet_less rib''"
    using rib_update_computed_and_applied [OF strict_order_octet rib_ok_new b, unfolded if_not_P [OF n]] by (elim exE conjE) (rule that)
  then show ?thesis
    unfolding Let_def update_def [symmetric] batch_def [symmetric] using n b strict_order_octet rib_ok_new [of octet_less]
    by (intro conjI exI)
qed

subsection \<open>The next hop of a new route\<close>

definition has_update :: "FibUpdate \<Rightarrow> fib_updater \<Rightarrow> bool" where
  "has_update x u \<longleftrightarrow> m_batchFaceId u = fu_faceId x \<and> x \<in> set (m_updatesForBatchFaceId u)"

lemma in_update_first_other: "x \<in> set xs \<Longrightarrow> \<not> P x \<Longrightarrow> x \<in> set (update_first P f xs)"
  by (induction xs) auto

lemma update_first_hit: "List.find P xs = Some y \<Longrightarrow> f y \<in> set (update_first P f xs)"
  by (induction xs) (auto split: if_splits)

lemma has_update_other: "has_update x u \<Longrightarrow> fu_key y \<noteq> fu_key x \<Longrightarrow> has_update x (addFibUpdate y u)"
  by (auto simp: has_update_def addFibUpdate_def add_or_replace_def Let_def intro: in_update_first_other)

lemma has_update_own: "m_batchFaceId u = fu_faceId x \<Longrightarrow> has_update x (addFibUpdate x u)"
proof -
  assume b: "m_batchFaceId u = fu_faceId x"
  let ?same = "\<lambda>other. fu_name x = fu_name other \<and> fu_faceId x = fu_faceId other"
  have "x \<in> set (add_or_replace x xs)" for xs
  proof (cases "List.find ?same xs")
    case (Some y)
    then have "y\<lparr>fu_action := fu_action x, fu_cost := fu_cost x\<rparr> = x" using find_SomeD [OF Some] by simp
    then show ?thesis
      using update_first_hit [OF Some, of "\<lambda>u. u\<lparr>fu_action := fu_action x, fu_cost := fu_cost x\<rparr>"] Some
      by (simp add: add_or_replace_def Let_def)
  qed (simp add: add_or_replace_def)
  then show ?thesis using b by (simp add: has_update_def addFibUpdate_def)
qed

lemma has_update_inherited [simp]:
  "has_update x (addInheritedRoute_update n route u) = has_update x u" "has_update x (removeInheritedRoute_update n route u) = has_update x u"
  by (simp_all add: has_update_def addInheritedRoute_update_def removeInheritedRoute_update_def)

interpretation own: update_invariant "{m. strict_prefix (fu_name x) m}" "has_update x" for x
proof
  fix m u route
  assume m: "m \<in> {m. strict_prefix (fu_name x) m}" and u: "has_update x u"
  then have "m \<noteq> fu_name x" by auto
  then show "has_update x (inherit_add m route u)" "has_update x (inherit_remove m route u)"
    using u unfolding inherit_add_def inherit_remove_def
    by (auto intro!: has_update_other simp: createAddUpdate_def createRemoveUpdate_def)
qed

lemma own_kept_in_children:
  assumes "rib_ok lt rib" "\<And>c. c \<in> set cs \<Longrightarrow> strict_prefix (fu_name x) c \<and> entry_of rib c \<noteq> None" "has_update x u"
  shows "\<exists>u'. modifyChildrensInheritedRoutes rib cs a r u = Some u' \<and> has_update x u'"
  by (rule own.modifyChildren_keeps [OF assms(1)]) (use assms in \<open>auto dest: prefix_order.less_trans\<close>)

lemma own_kept_ignoring:
  assumes "has_update x u" "fu_faceId x = faceId ignore"
  shows "has_update x (addInheritedRoutes_ignoring n routes ignore u)"
  unfolding addInheritedRoutes_ignoring_def
  by (rule own.fold_keeps [OF _ assms(1)])
    (use assms(2) in \<open>auto intro!: has_update_other simp: inherit_add_def createAddUpdate_def\<close>)

text \<open>The face of the batch does not change during the computation.\<close>

interpretation face: update_invariant UNIV "\<lambda>u. m_batchFaceId u = f" for f
  by unfold_locales (simp_all add: inherit_add_def inherit_remove_def addFibUpdate_def addInheritedRoute_update_def removeInheritedRoute_update_def)

lemma newRoute_last:
  assumes ok: "rib_ok lt rib" and e: "entry_of rib n = Some e" and f: "m_batchFaceId u = faceId route"
    and low: "case getRouteWithLowestCostByFaceId (faceId route) e of None \<Rightarrow> True | Some other \<Rightarrow> cost route \<le> cost other"
    and u': "createFibUpdatesForNewRoute rib e route on u = Some u'"
  shows "has_update (createAddUpdate n (faceId route) (cost route)) u'"
proof -
  have name: "re_name e = n" using rib_okD(3) [OF ok e] by (simp add: entry_ok_def)
  have keep: "m_batchFaceId v' = faceId route" if "modifyChildrensInheritedRoutes rib (re_children e) a r v = Some v'" "m_batchFaceId v = faceId route" for a r v v'
    using face.modifyChildren_keeps [OF ok _ _ that(2), of "re_children e" a r] child_longer(1) [OF ok e] that(1) by auto
  have "\<exists>v. u' = addFibUpdate (createAddUpdate n (faceId route) (cost route)) v \<and> m_batchFaceId v = faceId route"
    using u' low f keep face.removeInheritedRoutes_keeps [of e u "faceId route"]
    unfolding createFibUpdatesForNewRoute_def Let_def name by (cases on) (auto simp: bind_eq_Some_conv)
  then show ?thesis by (auto intro!: has_update_own simp: createAddUpdate_def)
qed

text \<open>Registering a route that the RIB does not have yet, and
  that is no more expensive than the other routes of its name through its face, adds the next
  hop with exactly its face and cost to the updates for that face.\<close>

lemma cheapest_route_update:
  assumes lt: "strict_order lt" and ok: "rib_ok lt rib" and update: "ru_action update = REGISTER" "Rib_find_route (ru_name update) (ru_route update) rib = None"
    and cheapest: "\<forall>e r. entry_of rib (ru_name update) = Some e \<longrightarrow> r \<in> set (m_routes e) \<longrightarrow> faceId r = faceId (ru_route update) \<longrightarrow>
      cost (ru_route update) \<le> cost r"
  shows "\<exists>u. beginBatch rib \<lparr>rb_faceId = faceId (ru_route update), rb_updates = [update]\<rparr> = Some u \<and>
    createAddUpdate (ru_name update) (faceId (ru_route update)) (cost (ru_route update)) \<in> set (m_updatesForBatchFaceId u)"
proof -
  let ?n = "ru_name update" and ?route = "ru_route update"
  define x where "x = createAddUpdate ?n (faceId ?route) (cost ?route)"
  have x: "fu_name x = ?n" "fu_faceId x = faceId ?route" by (simp_all add: x_def createAddUpdate_def)
  define u0 where "u0 = \<lparr>m_batchFaceId = faceId ?route, m_updatesForBatchFaceId = [], m_updatesForNonBatchFaceId = [], m_inheritedRoutes = []\<rparr>"
  have u0: "m_batchFaceId u0 = fu_faceId x" by (simp add: u0_def x)
  have "\<exists>u. computeUpdatesForRegistration rib update u0 = Some u \<and> has_update x u"
  proof (cases "entry_of rib ?n")
    case (Some e)
    have new: "findRoute ?route e = None" using update(2) Some by (simp add: Rib_find_route_def)
    have name: "re_name e = ?n" using rib_okD(3) [OF ok Some] by (simp add: entry_ok_def)
    define K where "K = insert ?n (dom (entry_of rib))"
    have at: "update_entry lt rib K ?n e e" using ok Some name by (auto simp: update_entry_def update_at_def K_def)
    have "upd_ok K ?n u0" by (simp add: upd_ok_def u0_def)
    moreover have "?n \<in> K" by (simp add: K_def)
    ultimately obtain u where u: "createFibUpdatesForNewRoute rib e ?route (\<not> hasCapture e \<and> isRibCapture ?route) u0 = Some u"
      using newRoute_ok [OF at, of u0 "\<not> hasCapture e \<and> isRibCapture ?route" ?route] by blast
    have low: "case getRouteWithLowestCostByFaceId (faceId ?route) e of None \<Rightarrow> True | Some other \<Rightarrow> cost ?route \<le> cost other"
    proof (cases "getRouteWithLowestCostByFaceId (faceId ?route) e")
      case lowest: (Some r)
      have "r \<in> set (m_routes e)" "faceId r = faceId ?route"
        using lowest_loop_minimal [OF lowest [unfolded getRouteWithLowestCostByFaceId_def]] by simp_all
      then show ?thesis using cheapest Some lowest by simp
    qed simp
    have "has_update x u" unfolding x_def by (rule newRoute_last [OF ok Some _ low u]) (simp add: u0_def)
    then show ?thesis using Some new u by (simp add: computeUpdatesForRegistration_def Let_def)
  next
    case None
    define cs where "cs = filter (\<lambda>d. (case entry_of rib d of None \<Rightarrow> False | Some e \<Rightarrow> re_parent e = findParent ?n rib)) (findDescendantsForNonInsertedName ?n rib)"
    have cs: "strict_prefix (fu_name x) c \<and> entry_of rib c \<noteq> None" if "c \<in> set cs" for c
      using that None by (auto simp: cs_def x findDescendantsForNonInsertedName_def strict_prefix_def split: option.splits)
    obtain anc where anc: "getAncestorRoutes_name ?n rib = Some anc" using getAncestorRoutes_name_returns [OF ok] by blast
    define u1 where "u1 = addFibUpdate x u0"
    have u1: "has_update x u1" unfolding u1_def by (rule has_update_own [OF u0])
    have u2: "has_update x (addInheritedRoutes_ignoring ?n anc ?route u1)" by (rule own_kept_ignoring [OF u1 x(2)])
    have "\<exists>u'. createFibUpdatesForNewRibEntry rib ?n ?route cs u0 = Some u' \<and> has_update x u'"
      unfolding createFibUpdatesForNewRibEntry_def Let_def x_def [symmetric] u1_def [symmetric] anc
      using u2 own_kept_in_children [OF ok cs u1, of cs "[?route]" anc] own_kept_in_children [OF ok cs u1, of cs "[]" anc]
        own_kept_in_children [OF ok cs u2, of cs "routes_insert ?route (routes_erase (faceId ?route) anc)" "[]"]
      by (simp split: if_split)
    then show ?thesis using None by (simp add: computeUpdatesForRegistration_def Let_def cs_def)
  qed
  then obtain u where "computeUpdatesForRegistration rib update u0 = Some u" "x \<in> set (m_updatesForBatchFaceId u)"
    unfolding has_update_def by blast
  then show ?thesis by (simp add: beginBatch_def computeUpdates_def update(1) u0_def [symmetric] x_def)
qed

subsection \<open>Updates that go wrong\<close>

text \<open>The table with two routes through face 1 for one name, of cost 10 and 50.\<close>

definition two_routes :: "64 word \<Rightarrow> Rib option" where
  "two_routes fl = rib_steps octet_less [Insert [Component 8 ''a''] (example_route 1 0 10 fl), Insert [Component 8 ''a''] (example_route 1 255 50 fl)] Rib_new"

lemma sort_second_not_cheapest:
  assumes "distinct rs" "2 \<le> length rs" "\<forall>q\<in>set rs. q \<noteq> c \<longrightarrow> cost c < cost q"
  shows "sort_key cost rs ! 1 \<in> set rs - {c}"
proof -
  let ?ys = "sort_key cost rs"
  have l: "length ?ys = length rs" "distinct ?ys" using assms(1) by simp_all
  have in0: "?ys ! 0 \<in> set rs" and in1: "?ys ! 1 \<in> set rs"
    using assms(2) l nth_mem [of _ ?ys] by (metis length_sort less_le_trans pos2 set_sort, metis length_sort less_le_trans one_less_numeral_iff semiring_norm(76) set_sort)
  have pos: "0 < length ?ys" "1 < length ?ys" using assms(2) unfolding l(1) by linarith+
  then have ne: "?ys ! 0 \<noteq> ?ys ! 1" using nth_eq_iff_index_eq [OF l(2), of 0 1] by simp
  have "map cost ?ys ! 0 \<le> map cost ?ys ! 1" using assms(2) by (intro sorted_nth_mono) simp_all
  then have le: "cost (?ys ! 0) \<le> cost (?ys ! 1)" unfolding nth_map [OF pos(1)] nth_map [OF pos(2)] .
  have "?ys ! 1 \<noteq> c"
  proof
    assume "?ys ! 1 = c"
    with ne in0 assms(3) have "cost c < cost (?ys ! 0)" by auto
    with le \<open>?ys ! 1 = c\<close> show False by simp
  qed
  with in1 show ?thesis by simp
qed

lemma own_kept_inherited:
  assumes "has_update x u" "\<forall>a\<in>set routes. faceId a \<noteq> fu_faceId x"
  shows "has_update x (addInheritedRoutes e routes u)"
  unfolding addInheritedRoutes_def
  by (rule own.fold_keeps [OF _ assms(1)])
    (use assms(2) in \<open>auto intro!: has_update_other simp: inherit_add_def createAddUpdate_def\<close>)

lemma erased_route_kept:
  assumes ok: "rib_ok lt rib" and e: "entry_of rib n = Some e" and d: "node d = node e" "re_name d = n"
    and anc: "getAncestorRoutes e rib = Some anc" "\<forall>a\<in>set anc. faceId a \<noteq> faceId route"
    and f: "m_batchFaceId u = faceId route"
  shows "\<exists>u'. createFibUpdatesForErasedRoute rib d route off u = Some u' \<and> has_update (createRemoveUpdate n (faceId route)) u'"
proof -
  define x where "x = createRemoveUpdate n (faceId route)"
  have x: "fu_name x = n" "fu_faceId x = faceId route" by (simp_all add: x_def createRemoveUpdate_def)
  have an: "getAncestorRoutes d rib = Some anc" using anc(1) d(1) by (simp add: getAncestorRoutes_def)
  have cs: "strict_prefix (fu_name x) c \<and> entry_of rib c \<noteq> None" if "c \<in> set (re_children d)" for c
    using child_longer [OF ok e] that d(1) x(1) by auto
  have keep: "\<exists>v'. modifyChildrensInheritedRoutes rib (re_children d) a r v = Some v' \<and> has_update x v'" if "has_update x v" for a r v
    by (rule own_kept_in_children [OF ok cs that])
  define u1 where "u1 = addFibUpdate x u"
  have u1: "has_update x u1" unfolding u1_def by (rule has_update_own) (simp add: f x)
  have u2: "has_update x (addInheritedRoutes d anc u1)" by (rule own_kept_inherited [OF u1]) (use anc(2) x in simp)
  have "\<exists>v. erase_inherited rib d route off u1 = Some v \<and> has_update x v"
    unfolding erase_inherited_def an using keep [OF u1] keep [OF u2] u1 by (simp split: if_split)
  then obtain v where v: "erase_inherited rib d route off u1 = Some v" "has_update x v" by blast
  have "routes_find route anc = None" using anc(2) by (simp add: routes_find_def find_eq_None)
  then show ?thesis
    using v an d(2) by (simp add: createFibUpdatesForErasedRoute_def Let_def x_def [symmetric] u1_def [symmetric])
qed

lemma findRoute_member:
  assumes "distinct (map rkey (m_routes e))" and "q \<in> set (m_routes e)"
  shows "findRoute q e = Some q"
proof (cases "findRoute q e")
  case None
  with assms(2) show ?thesis by (auto simp: findRoute_key find_eq_None)
next
  case (Some p)
  with find_SomeD [of _ "m_routes e" p] have "p \<in> set (m_routes e)" "rkey p = rkey q" by (auto simp: findRoute_key)
  moreover have "inj_on rkey (set (m_routes e))" using assms(1) by (simp only: distinct_map)
  ultimately show ?thesis using Some assms(2) by (auto dest: inj_onD)
qed

lemma lowest_cost_le:
  assumes "c \<in> set (m_routes d)"
  shows "\<exists>low. getRouteWithLowestCostByFaceId (faceId c) d = Some low \<and> cost low \<le> cost c"
proof -
  obtain low where low: "getRouteWithLowestCostByFaceId (faceId c) d = Some low"
    using lowest_loop_Some [of None "m_routes d" "\<lambda>q. faceId q = faceId c"] assms by (auto simp: getRouteWithLowestCostByFaceId_def)
  moreover have "cost low \<le> cost c"
    using lowest_loop_minimal [OF low [unfolded getRouteWithLowestCostByFaceId_def]] assms by simp
  ultimately show ?thesis by blast
qed

text \<open>The second lowest of several routes through a face is dearer than a route that is cheaper than
  all others.\<close>

lemma second_lowest_dearer:
  assumes d: "distinct (m_routes e)" and r: "r \<in> set (m_routes e)" and c: "c \<in> set (m_routes e)" "c \<noteq> r" "faceId c = faceId r"
    "\<forall>q\<in>set (m_routes e). q \<noteq> c \<longrightarrow> faceId q = faceId r \<longrightarrow> cost c < cost q"
  shows "\<exists>nxt. getRouteWithSecondLowestCostByFaceId (faceId r) e = Some nxt \<and> faceId nxt = faceId r \<and> cost c < cost nxt"
    and "length (m_routes e) \<noteq> 1"
proof -
  let ?ms = "filter (\<lambda>q. faceId q = faceId r) (m_routes e)"
  have "card {c, r} \<le> card (set ?ms)" using c r by (intro card_mono) auto
  also have "card (set ?ms) = length ?ms" using d by (intro distinct_card) simp
  finally have two: "2 \<le> length ?ms" using c(2) by simp
  then show "length (m_routes e) \<noteq> 1" using length_filter_le [of "\<lambda>q. faceId q = faceId r" "m_routes e"] by linarith
  have "sort_key cost ?ms ! 1 \<in> set ?ms - {c}"
    by (rule sort_second_not_cheapest) (use d two c(4) in auto)
  then show "\<exists>nxt. getRouteWithSecondLowestCostByFaceId (faceId r) e = Some nxt \<and> faceId nxt = faceId r \<and> cost c < cost nxt"
    using two c(4) by (simp add: getRouteWithSecondLowestCostByFaceId_def)
qed

lemma dearer_route_adds_nothing:
  assumes ok: "rib_ok lt rib" and e: "entry_of rib (fu_name x) = Some e" "node d = node e" and u: "has_update x u"
    and low: "getRouteWithLowestCostByFaceId (faceId route) d = Some low" "cost low < cost route"
  shows "\<exists>u'. createFibUpdatesForNewRoute rib d route False u = Some u' \<and> has_update x u'"
proof -
  have cs: "strict_prefix (fu_name x) c \<and> entry_of rib c \<noteq> None" if "c \<in> set (re_children d)" for c
    using child_longer [OF ok e(1)] that e(2) by auto
  have "\<exists>v'. modifyChildrensInheritedRoutes rib (re_children d) a b u = Some v' \<and> has_update x v'" for a b
    by (rule own_kept_in_children [OF ok cs u])
  then show ?thesis using low by (simp add: createFibUpdatesForNewRoute_def Let_def split: if_split)
qed

lemma only_update:
  assumes "strict_order lt" "rib_ok lt rib" "rb_updates batch = [update]" "beginBatch rib batch = Some u" and x: "has_update x u"
  shows "{y \<in> set (m_updatesForBatchFaceId u @ m_updatesForNonBatchFaceId u). fu_name y = fu_name x \<and> fu_faceId y = fu_faceId x} = {x}"
proof -
  define us where "us = m_updatesForBatchFaceId u @ m_updatesForNonBatchFaceId u"
  have np: "\<not> null_previous_route rib update" using batch_ok [OF assms(1-3)] assms(4) by (cases "null_previous_route rib update") simp_all
  obtain v where "beginBatch rib batch = Some v" "distinct (map fu_key (m_updatesForBatchFaceId v @ m_updatesForNonBatchFaceId v))"
    using batch_ok [OF assms(1-3), unfolded if_not_P [OF np]] by (elim exE conjE) (rule that)
  then have "distinct (map fu_key us)" unfolding assms(4) option.inject us_def by (simp only:)
  then have inj: "inj_on fu_key (set us)" by (simp only: distinct_map)
  have "x \<in> set us" using x by (simp add: us_def has_update_def)
  then show ?thesis unfolding us_def [symmetric] using inj_onD [OF inj] by blast
qed

text \<open>C32: unregistering an expensive route removes the next hop of a cheap one: in any valid RIB, when a
  name has several routes through one face, one of them cheaper than all the others, and any
  other of them is unregistered, the only FIB update for that name and face is the removal
  of the next hop, although the cheapest route stays in the RIB; this is so whenever the
  entry inherits no route through that face from its ancestors.\<close>

theorem unregistration_drops_shared_next_hop:
  assumes lt: "strict_order lt" and ok: "rib_ok lt rib" and e: "entry_of rib n = Some e"
    and r: "r \<in> set (m_routes e)" and cheap: "cheap \<in> set (m_routes e)" "cheap \<noteq> r" "faceId cheap = faceId r"
      "\<forall>q\<in>set (m_routes e). q \<noteq> cheap \<longrightarrow> faceId q = faceId r \<longrightarrow> cost cheap < cost q"
    and anc: "getAncestorRoutes e rib = Some anc" "\<forall>a\<in>set anc. faceId a \<noteq> faceId r"
  shows "\<exists>u rib'. beginBatch rib \<lparr>rb_faceId = faceId r, rb_updates = [\<lparr>ru_action = UNREGISTER, ru_name = n, ru_route = r\<rparr>]\<rparr> = Some u \<and>
    {x \<in> set (m_updatesForBatchFaceId u @ m_updatesForNonBatchFaceId u). fu_name x = n \<and> fu_faceId x = faceId r} = {createRemoveUpdate n (faceId r)} \<and>
    apply_update lt \<lparr>ru_action = UNREGISTER, ru_name = n, ru_route = r\<rparr> rib = Some rib' \<and> Rib_find_route n cheap rib' = Some cheap"
proof -
  let ?update = "\<lparr>ru_action = UNREGISTER, ru_name = n, ru_route = r\<rparr>"
  let ?batch = "\<lparr>rb_faceId = faceId r, rb_updates = [?update]\<rparr>"
  define x where "x = createRemoveUpdate n (faceId r)"
  have x: "fu_name x = n" "fu_faceId x = faceId r" by (simp_all add: x_def createRemoveUpdate_def)
  define u0 where "u0 = \<lparr>m_batchFaceId = faceId r, m_updatesForBatchFaceId = [], m_updatesForNonBatchFaceId = [], m_inheritedRoutes = []\<rparr>"
  define temp where "temp = eraseRoute r e"
  have ent: "entry_ok n e" using rib_okD(3) [OF ok e] .
  then have dist: "distinct (map rkey (m_routes e))" and d: "distinct (m_routes e)" by (auto simp: entry_ok_def distinct_map)
  note find = findRoute_member [OF dist]
  have temp: "m_routes temp = filter (\<lambda>q. rkey q \<noteq> rkey r) (m_routes e)" "node temp = node e" "re_name temp = n"
    using eraseRoute_routes [OF dist, of r] find [OF r] ent by (simp_all add: temp_def entry_ok_def)
  have key: "rkey cheap \<noteq> rkey r" using find [OF r] find [OF cheap(1)] cheap(2) by (auto simp: findRoute_key)
  obtain nxt where nxt: "getRouteWithSecondLowestCostByFaceId (faceId r) e = Some nxt" "faceId nxt = faceId r" "cost cheap < cost nxt"
    using second_lowest_dearer(1) [OF d r cheap] by blast
  have "cheap \<in> set (m_routes temp)" using cheap(1) key temp(1) by auto
  then obtain low where low: "getRouteWithLowestCostByFaceId (faceId r) temp = Some low" "cost low \<le> cost cheap"
    using lowest_cost_le cheap(3) by metis
  obtain u1 where u1: "createFibUpdatesForErasedRoute rib temp r (hasCapture e \<and> \<not> hasCapture temp) u0 = Some u1" "has_update x u1"
    unfolding x_def using erased_route_kept [OF ok e temp(2,3) anc, of u0] by (auto simp: u0_def)
  obtain u2 where u2: "createFibUpdatesForNewRoute rib temp nxt False u1 = Some u2" "has_update x u2"
    using dearer_route_adds_nothing [OF ok _ temp(2) u1(2), of nxt low] low nxt e x(1) by auto
  have begun: "beginBatch rib ?batch = Some u2"
    using e find [OF r] u1(1) u2(1) second_lowest_dearer(2) [OF d r cheap] nxt(1)
    by (simp add: beginBatch_def computeUpdates_def computeUpdatesForUnregistration_def Let_def u0_def [symmetric] temp_def [symmetric] getNRoutes_def)
  obtain rib' where rib': "apply_update lt ?update rib = Some rib'" "routes_view rib' = (routes_view rib)((n, rkey r) := None)"
    using apply_update_ok [OF lt ok, of ?update] by (elim exE conjE) (rule that, assumption, simp)
  have view: "Rib_find_route n q t = routes_view t (n, rkey q)" for q t
    by (simp add: Rib_find_route_def routes_view_def findRoute_key split: option.split)
  have "routes_view rib (n, rkey cheap) = Some cheap" using find [OF cheap(1)] e by (simp add: routes_view_def findRoute_key)
  then have "Rib_find_route n cheap rib' = Some cheap" unfolding view rib'(2) using key by (simp only: fun_upd_def prod.inject if_False simp_thms)
  moreover have "rb_updates ?batch = [?update]" by simp
  note only_update [OF lt ok this begun u2(2), unfolded x]
  ultimately show ?thesis using begun rib'(1) unfolding x_def by (intro exI conjI)
qed

theorem unregistration_drops_shared_next_hop_witness:
  "\<exists>rib u rib'. two_routes 0 = Some rib \<and> rib_ok octet_less rib \<and>
     beginBatch rib \<lparr>rb_faceId = 1, rb_updates = [example_update UNREGISTER (example_route 1 255 50 0)]\<rparr> = Some u \<and>
     createRemoveUpdate [Component 8 ''a''] 1 \<in> set (m_updatesForBatchFaceId u @ m_updatesForNonBatchFaceId u) \<and>
     apply_update octet_less (example_update UNREGISTER (example_route 1 255 50 0)) rib = Some rib' \<and>
     Rib_find_route [Component 8 ''a''] (example_route 1 0 10 0) rib' = Some (example_route 1 0 10 0)"
proof -
  let ?a = "[Component 8 ''a'']" and ?r = "example_route 1 255 50 0" and ?c = "example_route 1 0 10 0"
  have "\<exists>rib e. two_routes 0 = Some rib \<and> entry_of rib ?a = Some e \<and> m_routes e = [?c, ?r] \<and> re_parent e = None"
    by (simp add: two_routes_def Rib_insert_def Rib_new_def insert_name_def insertRoute_def RibEntry_new_def findRoute_def put_entry_def
        findParent_def findDescendants_def register_face_def example_route_def Route_new_def isRibCapture_def compareFaceIdAndOrigin_def)
  then obtain rib e where rib: "two_routes 0 = Some rib" "entry_of rib ?a = Some e" "m_routes e = [?c, ?r]" "re_parent e = None"
    by (elim exE conjE) (rule that)
  have ok: "rib_ok octet_less rib"
    using rib_steps_ok [OF strict_order_octet rib_ok_new, of "[Insert ?a ?c, Insert ?a ?r]"] rib(1) by (auto simp: two_routes_def)
  have f: "faceId ?r = 1" by (simp add: example_route_def)
  have h: "?r \<in> set (m_routes e)" "?c \<in> set (m_routes e)" "?c \<noteq> ?r" "faceId ?c = faceId ?r"
    "\<forall>q\<in>set (m_routes e). q \<noteq> ?c \<longrightarrow> faceId q = faceId ?r \<longrightarrow> cost ?c < cost q"
    "getAncestorRoutes e rib = Some []" "\<forall>a\<in>set []. faceId a \<noteq> faceId ?r"
    by (simp_all add: rib(3,4) example_route_def Route_new_def getAncestorRoutes_def ancestor_loop.simps)
  obtain u rib' where u: "beginBatch rib \<lparr>rb_faceId = 1, rb_updates = [\<lparr>ru_action = UNREGISTER, ru_name = ?a, ru_route = ?r\<rparr>]\<rparr> = Some u"
    "{x \<in> set (m_updatesForBatchFaceId u @ m_updatesForNonBatchFaceId u). fu_name x = ?a \<and> fu_faceId x = 1} = {createRemoveUpdate ?a 1}"
    "apply_update octet_less \<lparr>ru_action = UNREGISTER, ru_name = ?a, ru_route = ?r\<rparr> rib = Some rib'" "Rib_find_route ?a ?c rib' = Some ?c"
    using unregistration_drops_shared_next_hop [OF strict_order_octet ok rib(2) h] unfolding f by (elim exE conjE) (rule that)
  have "createRemoveUpdate ?a 1 \<in> set (m_updatesForBatchFaceId u @ m_updatesForNonBatchFaceId u)" using u(2) by blast
  then show ?thesis unfolding example_update_def using rib(1) ok u(1,3,4) by (intro exI conjI)
qed

text \<open>Raising a cost can crash the daemon: when a name has two routes through one face without the
  ChildInherit flag, registering the cheaper one again with a cost above the other's
  dereferences a null pointer.\<close>

theorem raised_cost_dereferences_null:
  "\<exists>rib. two_routes 0 = Some rib \<and> null_previous_route rib (example_update REGISTER (example_route 1 0 60 0)) \<and>
     beginBatch rib \<lparr>rb_faceId = 1, rb_updates = [example_update REGISTER (example_route 1 0 60 0)]\<rparr> = None"
  by (simp add: two_routes_def Let_def Rib_insert_def Rib_new_def insert_name_def insertRoute_def RibEntry_new_def findRoute_def put_entry_def
      findParent_def findDescendants_def register_face_def example_route_def example_update_def Route_new_def isRibCapture_def
      isChildInherit_def ROUTE_ORIGIN_APP_def compareFaceIdAndOrigin_def null_previous_route_def Rib_find_route_def updated_copy_def
      getRouteWithLowestCostByFaceId_def getRouteWithLowestCostAndChildInheritByFaceId_def beginBatch_def computeUpdates_def
      computeUpdatesForRegistration_def createFibUpdatesForUpdatedRoute_def update_cost_def)

end
