(* ===== verification/Rib_Manager.thy ===== *)
theory Rib_Manager
  imports Fib_Updater Name_Tree_Hashtable
begin

text \<open>
  The RIB daemon at work: the queue of updates in \<^verbatim>\<open>rib/rib.cpp\<close>, the sending of FIB updates and the
  handling of responses in \<^verbatim>\<open>rib/fib-updater.cpp\<close>, and \<^verbatim>\<open>rib/rib-manager.{hpp,cpp}\<close>.

  The state holds the RIB, its queue, the updater, the commands that were sent to the
  forwarder and are not answered yet, and the events of the scheduler.  A callback is data:
  which result goes to which caller.  The code of the controller's timeout is a parameter, as
  is the verdict of the validator of announcements.
\<close>

subsection \<open>State\<close>

datatype RibUpdateResult = RU_OK | RU_ERROR | RU_EXPIRED

datatype SlAnnounceResult = SL_OK | SL_ERROR | SL_VALIDATION_FAILURE | SL_EXPIRED | SL_NOT_FOUND

fun getSlAnnounceResultFromRibUpdateResult :: "RibUpdateResult \<Rightarrow> SlAnnounceResult" where
  "getSlAnnounceResultFromRibUpdateResult RU_OK = SL_OK"
| "getSlAnnounceResultFromRibUpdateResult RU_ERROR = SL_ERROR"
| "getSlAnnounceResultFromRibUpdateResult RU_EXPIRED = SL_EXPIRED"

text \<open>The callback of a route operation: none of interest, or that of a self-learning caller.\<close>

datatype done_callback = Ignore | SlCallback nat

text \<open>The callbacks of the manager are both given or both null.\<close>

record UpdateQueueItem =
  qi_batch :: RibUpdateBatch
  qi_callback :: "done_callback option"

record command =
  c_verb :: FibUpdate_Action
  c_update :: FibUpdate
  c_item :: UpdateQueueItem
  c_nTimeouts :: nat

datatype rib_event = RouteExpiration name Route | FaceDestroyed nat

record rib_manager =
  rm_rib :: Rib
  m_updateBatches :: "UpdateQueueItem list"
  m_isUpdateInProgress :: bool
  m_fibUpdater :: fib_updater
  rm_commands :: "command list"
  rm_events :: "(nat \<times> time \<times> rib_event) list"
  rm_nextEvent :: nat
  rm_isLocalhopEnabled :: bool
  m_registeredFaces :: "nat list"
  m_activeFaceFetchEvent :: "time option"
  rm_slResults :: "(nat \<times> SlAnnounceResult) list"

definition RibManager_new :: rib_manager where
  "RibManager_new = \<lparr>rm_rib = Rib_new, m_updateBatches = [], m_isUpdateInProgress = False,
     m_fibUpdater = \<lparr>m_batchFaceId = 0, m_updatesForBatchFaceId = [], m_updatesForNonBatchFaceId = [], m_inheritedRoutes = []\<rparr>,
     rm_commands = [], rm_events = [], rm_nextEvent = 0, rm_isLocalhopEnabled = False, m_registeredFaces = [], m_activeFaceFetchEvent = None,
     rm_slResults = []\<rparr>"

subsection \<open>Events and callbacks\<close>

definition scheduleEvent :: "time \<Rightarrow> rib_event \<Rightarrow> rib_manager \<Rightarrow> nat \<times> rib_manager" where
  "scheduleEvent t event rm = (rm_nextEvent rm, rm\<lparr>rm_events := rm_events rm @ [(rm_nextEvent rm, t, event)], rm_nextEvent := rm_nextEvent rm + 1\<rparr>)"

definition cancelExpirationEvent :: "Route \<Rightarrow> rib_manager \<Rightarrow> rib_manager" where
  "cancelExpirationEvent route rm = (case m_expirationEvent route of
       None \<Rightarrow> rm
     | Some eid \<Rightarrow> rm\<lparr>rm_events := filter (\<lambda>ev. fst ev \<noteq> eid) (rm_events rm)\<rparr>)"

text \<open>
  The event of a route that is overwritten or erased is cancelled; erasing it from the copy of
  the entry when an unregistration is computed cancels it as well.
\<close>

definition cancel_existing :: "RibUpdate \<Rightarrow> rib_manager \<Rightarrow> rib_manager" where
  "cancel_existing update rm = (case Rib_find_route (ru_name update) (ru_route update) (rm_rib rm) of
       None \<Rightarrow> rm
     | Some existing \<Rightarrow> cancelExpirationEvent existing rm)"

definition scheduleActiveFaceFetch :: "time \<Rightarrow> time \<Rightarrow> rib_manager \<Rightarrow> rib_manager" where
  "scheduleActiveFaceFetch now timeToWait rm = rm\<lparr>m_activeFaceFetchEvent := Some (now + timeToWait)\<rparr>"

definition ACTIVE_FACE_FETCH_INTERVAL :: time where
  "ACTIVE_FACE_FETCH_INTERVAL = ms (5 * 60 * 1000)"

definition run_done :: "done_callback \<Rightarrow> RibUpdateResult \<Rightarrow> rib_manager \<Rightarrow> rib_manager" where
  "run_done cb result rm = (case cb of
       Ignore \<Rightarrow> rm
     | SlCallback i \<Rightarrow> rm\<lparr>rm_slResults := rm_slResults rm @ [(i, getSlAnnounceResultFromRibUpdateResult result)]\<rparr>)"

definition managerSuccessCallback :: "done_callback option \<Rightarrow> rib_manager \<Rightarrow> rib_manager" where
  "managerSuccessCallback cb rm = (case cb of None \<Rightarrow> rm | Some d \<Rightarrow> run_done d RU_OK rm)"

definition managerFailureCallback :: "time \<Rightarrow> done_callback option \<Rightarrow> rib_manager \<Rightarrow> rib_manager" where
  "managerFailureCallback now cb rm = (case cb of
       None \<Rightarrow> rm
     | Some d \<Rightarrow> run_done d RU_ERROR (scheduleActiveFaceFetch now (ms 1000) rm))"

subsection \<open>Sending FIB updates\<close>

definition MAX_NUM_TIMEOUTS :: nat where
  "MAX_NUM_TIMEOUTS = 10"

definition ERROR_FACE_NOT_FOUND :: nat where
  "ERROR_FACE_NOT_FOUND = 410"

definition sendAddNextHopUpdate :: "FibUpdate \<Rightarrow> UpdateQueueItem \<Rightarrow> nat \<Rightarrow> rib_manager \<Rightarrow> rib_manager" where
  "sendAddNextHopUpdate update item nTimeouts rm =
     rm\<lparr>rm_commands := rm_commands rm @ [\<lparr>c_verb = ADD_NEXTHOP, c_update = update, c_item = item, c_nTimeouts = nTimeouts\<rparr>]\<rparr>"

definition sendRemoveNextHopUpdate :: "FibUpdate \<Rightarrow> UpdateQueueItem \<Rightarrow> nat \<Rightarrow> rib_manager \<Rightarrow> rib_manager" where
  "sendRemoveNextHopUpdate update item nTimeouts rm =
     rm\<lparr>rm_commands := rm_commands rm @ [\<lparr>c_verb = REMOVE_NEXTHOP, c_update = update, c_item = item, c_nTimeouts = nTimeouts\<rparr>]\<rparr>"

definition sendUpdates :: "FibUpdate list \<Rightarrow> UpdateQueueItem \<Rightarrow> rib_manager \<Rightarrow> rib_manager" where
  "sendUpdates updates item =
     fold (\<lambda>update. if fu_action update = ADD_NEXTHOP then sendAddNextHopUpdate update item 0 else sendRemoveNextHopUpdate update item 0) updates"

text \<open>The state, and whether there was nothing to send, so that the caller's success callback runs.\<close>

definition sendUpdatesForNonBatchFaceId :: "UpdateQueueItem \<Rightarrow> rib_manager \<Rightarrow> rib_manager \<times> bool" where
  "sendUpdatesForNonBatchFaceId item rm =
     (let updates = m_updatesForNonBatchFaceId (m_fibUpdater rm)
      in if updates \<noteq> [] then (sendUpdates updates item rm, False) else (rm, True))"

definition sendUpdatesForBatchFaceId :: "UpdateQueueItem \<Rightarrow> rib_manager \<Rightarrow> rib_manager \<times> bool" where
  "sendUpdatesForBatchFaceId item rm =
     (let updates = m_updatesForBatchFaceId (m_fibUpdater rm)
      in if updates \<noteq> [] then (sendUpdates updates item rm, False) else sendUpdatesForNonBatchFaceId item rm)"

definition computeAndSendFibUpdates :: "UpdateQueueItem \<Rightarrow> rib_manager \<Rightarrow> (rib_manager \<times> bool) option" where
  "computeAndSendFibUpdates item rm = do {
     u \<leftarrow> beginBatch (rm_rib rm) (qi_batch item);
     let rm = fold (\<lambda>update rm. if ru_action update = REGISTER then rm else cancel_existing update rm) (rb_updates (qi_batch item)) rm;
     Some (sendUpdatesForBatchFaceId item (rm\<lparr>m_fibUpdater := u\<rparr>))
   }"

subsection \<open>The queue of updates\<close>

text \<open>\<^verbatim>\<open>onFibUpdateSuccess\<close> up to the point where the next batch is sent.\<close>

definition finishUpdate :: "comp_less \<Rightarrow> UpdateQueueItem \<Rightarrow> rib_manager \<Rightarrow> rib_manager option" where
  "finishUpdate lt item rm = do {
     let rm = fold cancel_existing (rb_updates (qi_batch item)) rm;
     rib \<leftarrow> apply_batch lt (rb_updates (qi_batch item)) (rm_rib rm);
     rib \<leftarrow> modifyInheritedRoutes (m_inheritedRoutes (m_fibUpdater rm)) rib;
     Some (managerSuccessCallback (qi_callback item) (rm\<lparr>rm_rib := rib, m_isUpdateInProgress := False\<rparr>))
   }"

partial_function (option) sendBatchFromQueue :: "comp_less \<Rightarrow> rib_manager \<Rightarrow> rib_manager option" where
  "sendBatchFromQueue lt rm = (case m_updateBatches rm of
       [] \<Rightarrow> Some rm
     | item # rest \<Rightarrow>
         if m_isUpdateInProgress rm then Some rm
         else do {
           assert (length (rb_updates (qi_batch item)) = 1);
           (rm, nothingToSend) \<leftarrow> computeAndSendFibUpdates item (rm\<lparr>m_isUpdateInProgress := True, m_updateBatches := rest\<rparr>);
           if nothingToSend then do {
             rm \<leftarrow> finishUpdate lt item rm;
             sendBatchFromQueue lt rm
           }
           else Some rm
         })"

definition onFibUpdateSuccess :: "comp_less \<Rightarrow> UpdateQueueItem \<Rightarrow> rib_manager \<Rightarrow> rib_manager option" where
  "onFibUpdateSuccess lt item rm = do {
     rm \<leftarrow> finishUpdate lt item rm;
     sendBatchFromQueue lt rm
   }"

definition onFibUpdateFailure :: "comp_less \<Rightarrow> time \<Rightarrow> UpdateQueueItem \<Rightarrow> rib_manager \<Rightarrow> rib_manager option" where
  "onFibUpdateFailure lt now item rm =
     sendBatchFromQueue lt (managerFailureCallback now (qi_callback item) (rm\<lparr>m_isUpdateInProgress := False\<rparr>))"

definition addUpdateToQueue :: "RibUpdate \<Rightarrow> done_callback option \<Rightarrow> rib_manager \<Rightarrow> rib_manager option" where
  "addUpdateToQueue update cb rm = do {
     batch \<leftarrow> batch_add update (RibUpdateBatch_new (faceId (ru_route update)));
     Some (rm\<lparr>m_updateBatches := m_updateBatches rm @ [\<lparr>qi_batch = batch, qi_callback = cb\<rparr>]\<rparr>)
   }"

definition beginApplyUpdate :: "comp_less \<Rightarrow> RibUpdate \<Rightarrow> done_callback option \<Rightarrow> rib_manager \<Rightarrow> rib_manager option" where
  "beginApplyUpdate lt update cb rm = do {
     rm \<leftarrow> addUpdateToQueue update cb rm;
     sendBatchFromQueue lt rm
   }"

fun queue_removals :: "(name \<times> Route) list \<Rightarrow> rib_manager \<Rightarrow> rib_manager option" where
  "queue_removals [] rm = Some rm"
| "queue_removals ((n, route) # routes) rm = do {
     rm \<leftarrow> addUpdateToQueue \<lparr>ru_action = REMOVE_FACE, ru_name = n, ru_route = route\<rparr> None rm;
     queue_removals routes rm
   }"

definition beginRemoveFace :: "comp_less \<Rightarrow> nat \<Rightarrow> rib_manager \<Rightarrow> rib_manager option" where
  "beginRemoveFace lt fid rm = do {
     routes \<leftarrow> findRoutesWithFaceId fid (rm_rib rm);
     rm \<leftarrow> queue_removals routes rm;
     sendBatchFromQueue lt rm
   }"

definition onRouteExpiration :: "comp_less \<Rightarrow> name \<Rightarrow> Route \<Rightarrow> rib_manager \<Rightarrow> rib_manager option" where
  "onRouteExpiration lt n route rm = beginApplyUpdate lt \<lparr>ru_action = UNREGISTER, ru_name = n, ru_route = route\<rparr> None rm"

subsection \<open>Responses of the forwarder\<close>

definition onUpdateSuccess :: "comp_less \<Rightarrow> FibUpdate \<Rightarrow> UpdateQueueItem \<Rightarrow> rib_manager \<Rightarrow> rib_manager option" where
  "onUpdateSuccess lt update item rm =
     (let u = m_fibUpdater rm
      in if fu_faceId update = m_batchFaceId u then
           let rm = rm\<lparr>m_fibUpdater := u\<lparr>m_updatesForBatchFaceId := removeAll update (m_updatesForBatchFaceId u)\<rparr>\<rparr>
           in if m_updatesForBatchFaceId (m_fibUpdater rm) = [] then
                (case sendUpdatesForNonBatchFaceId item rm of
                   (rm, True) \<Rightarrow> onFibUpdateSuccess lt item rm
                 | (rm, False) \<Rightarrow> Some rm)
              else Some rm
         else
           let rm = rm\<lparr>m_fibUpdater := u\<lparr>m_updatesForNonBatchFaceId := removeAll update (m_updatesForNonBatchFaceId u)\<rparr>\<rparr>
           in if m_updatesForNonBatchFaceId (m_fibUpdater rm) = [] then onFibUpdateSuccess lt item rm else Some rm)"

definition onUpdateError :: "comp_less \<Rightarrow> nat \<Rightarrow> time \<Rightarrow> FibUpdate \<Rightarrow> UpdateQueueItem \<Rightarrow> nat \<Rightarrow> nat \<Rightarrow> rib_manager \<Rightarrow> rib_manager option" where
  "onUpdateError lt ERROR_TIMEOUT now update item code nTimeouts rm =
     (let u = m_fibUpdater rm
      in if code = ERROR_TIMEOUT \<and> nTimeouts < MAX_NUM_TIMEOUTS then Some (sendAddNextHopUpdate update item (nTimeouts + 1) rm)
         else if code = ERROR_FACE_NOT_FOUND then
           (if fu_faceId update = m_batchFaceId u then onFibUpdateFailure lt now item rm
            else
              let rm = rm\<lparr>m_fibUpdater := u\<lparr>m_updatesForNonBatchFaceId := removeAll update (m_updatesForNonBatchFaceId u)\<rparr>\<rparr>
              in if m_updatesForNonBatchFaceId (m_fibUpdater rm) = [] then onFibUpdateSuccess lt item rm else Some rm)
         else None)"

text \<open>The response to the i-th unanswered command: success, or an error code.\<close>

definition onResponse :: "comp_less \<Rightarrow> nat \<Rightarrow> time \<Rightarrow> nat \<Rightarrow> nat option \<Rightarrow> rib_manager \<Rightarrow> rib_manager option" where
  "onResponse lt ERROR_TIMEOUT now i response rm = do {
     c \<leftarrow> vec_get (rm_commands rm) i;
     let rm = rm\<lparr>rm_commands := take i (rm_commands rm) @ drop (i + 1) (rm_commands rm)\<rparr>;
     case response of
       None \<Rightarrow> onUpdateSuccess lt (c_update c) (c_item c) rm
     | Some code \<Rightarrow> onUpdateError lt ERROR_TIMEOUT now (c_update c) (c_item c) code (c_nTimeouts c) rm
   }"

subsection \<open>Routes of the manager\<close>

definition beginRibUpdate :: "comp_less \<Rightarrow> RibUpdate \<Rightarrow> done_callback \<Rightarrow> rib_manager \<Rightarrow> rib_manager option" where
  "beginRibUpdate lt update cb rm = beginApplyUpdate lt update (Some cb) rm"

definition beginAddRoute :: "comp_less \<Rightarrow> time \<Rightarrow> name \<Rightarrow> Route \<Rightarrow> time option \<Rightarrow> done_callback \<Rightarrow> rib_manager \<Rightarrow> rib_manager option" where
  "beginAddRoute lt now n route expiresIn cb rm =
     (let (route, expiresIn) = (case expiresIn of
            Some t \<Rightarrow> (route\<lparr>expires := Some (now + t)\<rparr>, Some t)
          | None \<Rightarrow> (route, map_option (\<lambda>e. e - now) (expires route)))
      in if (case expiresIn of None \<Rightarrow> False | Some t \<Rightarrow> t \<le> 0) then do {
           rm \<leftarrow> onRouteExpiration lt n route rm;
           Some (run_done cb RU_EXPIRED rm)
         }
         else
           let (route, rm) = (case expiresIn of
                 None \<Rightarrow> (route, rm)
               | Some t \<Rightarrow> (case scheduleEvent (now + t) (RouteExpiration n route) rm of
                     (eid, rm) \<Rightarrow> (route\<lparr>m_expirationEvent := Some eid\<rparr>, rm)));
               rm = rm\<lparr>m_registeredFaces := List.insert (faceId route) (m_registeredFaces rm)\<rparr>
           in beginRibUpdate lt \<lparr>ru_action = REGISTER, ru_name = n, ru_route = route\<rparr> cb rm)"

definition beginRemoveRoute :: "comp_less \<Rightarrow> name \<Rightarrow> Route \<Rightarrow> done_callback \<Rightarrow> rib_manager \<Rightarrow> rib_manager option" where
  "beginRemoveRoute lt n route cb rm = beginRibUpdate lt \<lparr>ru_action = UNREGISTER, ru_name = n, ru_route = route\<rparr> cb rm"

text \<open>The response to the registration of the daemon's own prefix.\<close>

definition onTopPrefixRegistered :: "comp_less \<Rightarrow> name \<Rightarrow> nat \<Rightarrow> rib_manager \<Rightarrow> rib_manager option" where
  "onTopPrefixRegistered lt topPrefix fid rm = do {
     let route = Route_new\<lparr>faceId := fid, origin := ROUTE_ORIGIN_APP, flags := ROUTE_FLAG_CHILD_INHERIT\<rparr>;
     rib \<leftarrow> Rib_insert lt topPrefix route (rm_rib rm);
     Some (rm\<lparr>rm_rib := rib, m_registeredFaces := List.insert fid (m_registeredFaces rm)\<rparr>)
   }"

subsection \<open>Control commands\<close>

record ControlParameters =
  cp_name :: name
  cp_faceId :: nat
  cp_origin :: nat
  cp_cost :: nat
  cp_flags :: "64 word"
  cp_expirationPeriod :: "int option"

definition setFaceForSelfRegistration :: "nat option \<Rightarrow> ControlParameters \<Rightarrow> ControlParameters option" where
  "setFaceForSelfRegistration incomingFaceIdTag parameters =
     (if cp_faceId parameters = 0 then map_option (\<lambda>fid. parameters\<lparr>cp_faceId := fid\<rparr>) incomingFaceIdTag else Some parameters)"

text \<open>
  The code of the response and the state.  An expiration period of the maximal duration counts
  as none, as does a missing one.
\<close>

definition registerEntry :: "comp_less \<Rightarrow> time \<Rightarrow> nat option \<Rightarrow> ControlParameters \<Rightarrow> rib_manager \<Rightarrow> (nat \<times> rib_manager) option" where
  "registerEntry lt now incomingFaceIdTag parameters rm =
     (if length (cp_name parameters) > FIB_MAX_DEPTH then Some (414, rm)
      else do {
        parameters \<leftarrow> setFaceForSelfRegistration incomingFaceIdTag parameters;
        let route = Route_new\<lparr>faceId := cp_faceId parameters, origin := cp_origin parameters, cost := cp_cost parameters, flags := cp_flags parameters\<rparr>;
        rm \<leftarrow> beginAddRoute lt now (cp_name parameters) route (map_option ms (cp_expirationPeriod parameters)) Ignore rm;
        Some (200, rm)
      })"

definition unregisterEntry :: "comp_less \<Rightarrow> nat option \<Rightarrow> ControlParameters \<Rightarrow> rib_manager \<Rightarrow> (nat \<times> rib_manager) option" where
  "unregisterEntry lt incomingFaceIdTag parameters rm = do {
     parameters \<leftarrow> setFaceForSelfRegistration incomingFaceIdTag parameters;
     let route = Route_new\<lparr>faceId := cp_faceId parameters, origin := cp_origin parameters\<rparr>;
     rm \<leftarrow> beginRemoveRoute lt (cp_name parameters) route Ignore rm;
     Some (200, rm)
   }"

text \<open>The dataset of the RIB: for every entry the face, origin, cost, flags and remaining lifetime of its routes.\<close>

definition listEntries :: "time \<Rightarrow> rib_manager \<Rightarrow> (name \<times> (nat \<times> nat \<times> nat \<times> 64 word \<times> int option) list) list" where
  "listEntries now rm = map (\<lambda>(n, e). (re_name e, map (\<lambda>r. (faceId r, origin r, cost r, flags r, map_option (\<lambda>t. cast_ms (t - now)) (expires r))) (m_routes e)))
     (m_rib (rm_rib rm))"

subsection \<open>Self-learning\<close>

definition slAnnounce :: "comp_less \<Rightarrow> time \<Rightarrow> time \<Rightarrow> bool \<Rightarrow> PrefixAnnouncement \<Rightarrow> nat \<Rightarrow> int \<Rightarrow> nat \<Rightarrow> rib_manager \<Rightarrow> rib_manager option" where
  "slAnnounce lt now system_now isValid pa fid maxLifetime cb rm =
     (if \<not> rm_isLocalhopEnabled rm then Some (rm\<lparr>rm_slResults := rm_slResults rm @ [(cb, SL_VALIDATION_FAILURE)]\<rparr>)
      else if isValid then
        let route = Route_from_announcement now system_now pa fid;
            route = route\<lparr>expires := Some (min (annExpires route) (now + ms maxLifetime))\<rparr>
        in beginAddRoute lt now (announcedName pa) route None (SlCallback cb) rm
      else Some (rm\<lparr>rm_slResults := rm_slResults rm @ [(cb, SL_VALIDATION_FAILURE)]\<rparr>))"

definition slRenew :: "comp_less \<Rightarrow> time \<Rightarrow> name \<Rightarrow> nat \<Rightarrow> int \<Rightarrow> nat \<Rightarrow> rib_manager \<Rightarrow> rib_manager option" where
  "slRenew lt now n fid maxLifetime cb rm =
     (let routeQuery = Route_new\<lparr>faceId := fid, origin := ROUTE_ORIGIN_PREFIXANN\<rparr>
      in case Rib_findLongestPrefix n routeQuery (rm_rib rm) of
           None \<Rightarrow> Some (rm\<lparr>rm_slResults := rm_slResults rm @ [(cb, SL_NOT_FOUND)]\<rparr>)
         | Some oldRoute \<Rightarrow> (case announcement oldRoute of
               None \<Rightarrow> Some (rm\<lparr>rm_slResults := rm_slResults rm @ [(cb, SL_NOT_FOUND)]\<rparr>)
             | Some pa \<Rightarrow>
                 let route = oldRoute\<lparr>expires := Some (min (annExpires oldRoute) (now + ms maxLifetime))\<rparr>
                 in beginAddRoute lt now (announcedName pa) route None (SlCallback cb) rm))"

definition slFindAnn :: "time \<Rightarrow> name \<Rightarrow> rib_manager \<Rightarrow> PrefixAnnouncement option" where
  "slFindAnn now n rm =
     (let entry = (case Rib_find n (rm_rib rm) of
            Some e \<Rightarrow> Some e
          | None \<Rightarrow> (case findParent n (rm_rib rm) of None \<Rightarrow> None | Some p \<Rightarrow> entry_of (rm_rib rm) p))
      in map_option (getPrefixAnnouncement now 15000 3600000) entry)"

subsection \<open>Faces that go away\<close>

definition onFaceDestroyedEvent :: "comp_less \<Rightarrow> nat \<Rightarrow> rib_manager \<Rightarrow> rib_manager option" where
  "onFaceDestroyedEvent lt fid rm = do {
     rm \<leftarrow> beginRemoveFace lt fid rm;
     Some (rm\<lparr>m_registeredFaces := removeAll fid (m_registeredFaces rm)\<rparr>)
   }"

definition onFetchActiveFacesFailure :: "time \<Rightarrow> rib_manager \<Rightarrow> rib_manager" where
  "onFetchActiveFacesFailure now = scheduleActiveFaceFetch now ACTIVE_FACE_FETCH_INTERVAL"

definition removeInvalidFaces :: "time \<Rightarrow> nat list \<Rightarrow> rib_manager \<Rightarrow> rib_manager" where
  "removeInvalidFaces now activeFaces rm =
     scheduleActiveFaceFetch now ACTIVE_FACE_FETCH_INTERVAL
       (fold (\<lambda>fid rm. if fid \<notin> set activeFaces then snd (scheduleEvent now (FaceDestroyed fid) rm) else rm) (m_registeredFaces rm) rm)"

text \<open>A notification of the face monitor: whether it is that of a destroyed face, and the face.\<close>

definition onNotification :: "time \<Rightarrow> bool \<Rightarrow> nat \<Rightarrow> rib_manager \<Rightarrow> rib_manager" where
  "onNotification now isDestroyed fid rm = (if isDestroyed then snd (scheduleEvent now (FaceDestroyed fid) rm) else rm)"

text \<open>The scheduler runs an event.\<close>

definition run_event :: "comp_less \<Rightarrow> rib_event \<Rightarrow> rib_manager \<Rightarrow> rib_manager option" where
  "run_event lt event rm = (case event of
       RouteExpiration n route \<Rightarrow> onRouteExpiration lt n route rm
     | FaceDestroyed fid \<Rightarrow> onFaceDestroyedEvent lt fid rm)"

subsection \<open>Sending\<close>

lemma cancel_fields [simp]:
  "rm_rib (cancel_existing x rm) = rm_rib rm" "m_updateBatches (cancel_existing x rm) = m_updateBatches rm"
  "m_isUpdateInProgress (cancel_existing x rm) = m_isUpdateInProgress rm" "m_fibUpdater (cancel_existing x rm) = m_fibUpdater rm"
  "rm_commands (cancel_existing x rm) = rm_commands rm" "m_registeredFaces (cancel_existing x rm) = m_registeredFaces rm"
  by (simp_all add: cancel_existing_def cancelExpirationEvent_def split: option.split)

lemma sendUpdates_fields:
  "\<exists>cs. rm_commands (sendUpdates us item rm) = rm_commands rm @ cs \<and> length cs = length us \<and> (\<forall>c\<in>set cs. c_item c = item)"
  "rm_rib (sendUpdates us item rm) = rm_rib rm" "m_updateBatches (sendUpdates us item rm) = m_updateBatches rm"
  "m_isUpdateInProgress (sendUpdates us item rm) = m_isUpdateInProgress rm" "m_registeredFaces (sendUpdates us item rm) = m_registeredFaces rm"
proof -
  let ?f = "\<lambda>update. if fu_action update = ADD_NEXTHOP then sendAddNextHopUpdate update item 0 else sendRemoveNextHopUpdate update item 0"
  have step: "\<exists>c. rm_commands (?f x rm) = rm_commands rm @ [c] \<and> c_item c = item" "rm_rib (?f x rm) = rm_rib rm"
    "m_updateBatches (?f x rm) = m_updateBatches rm" "m_isUpdateInProgress (?f x rm) = m_isUpdateInProgress rm"
    "m_registeredFaces (?f x rm) = m_registeredFaces rm" for x rm
    by (simp_all add: sendAddNextHopUpdate_def sendRemoveNextHopUpdate_def)
  show "\<exists>cs. rm_commands (sendUpdates us item rm) = rm_commands rm @ cs \<and> length cs = length us \<and> (\<forall>c\<in>set cs. c_item c = item)"
    unfolding sendUpdates_def
  proof (induction us arbitrary: rm)
    case (Cons x us)
    obtain c where c: "rm_commands (?f x rm) = rm_commands rm @ [c]" "c_item c = item" using step(1) by blast
    obtain cs where cs: "rm_commands (fold ?f us (?f x rm)) = rm_commands (?f x rm) @ cs" "length cs = length us" "\<forall>c\<in>set cs. c_item c = item"
      using Cons.IH [of "?f x rm"] by (elim exE conjE) (rule that)
    show ?case using c cs by (intro exI [of _ "c # cs"]) simp
  qed simp
  show "rm_rib (sendUpdates us item rm) = rm_rib rm" "m_updateBatches (sendUpdates us item rm) = m_updateBatches rm"
    "m_isUpdateInProgress (sendUpdates us item rm) = m_isUpdateInProgress rm" "m_registeredFaces (sendUpdates us item rm) = m_registeredFaces rm"
    unfolding sendUpdates_def by (induction us arbitrary: rm; simp add: step(2-5))+
qed

subsection \<open>Removing a face\<close>

definition removal :: "name \<Rightarrow> Route \<Rightarrow> UpdateQueueItem" where
  "removal n r = \<lparr>qi_batch = \<lparr>rb_faceId = faceId r, rb_updates = [\<lparr>ru_action = REMOVE_FACE, ru_name = n, ru_route = r\<rparr>]\<rparr>, qi_callback = None\<rparr>"

definition awaits :: "UpdateQueueItem \<Rightarrow> rib_manager \<Rightarrow> bool" where
  "awaits item rm \<longleftrightarrow> item \<in> set (m_updateBatches rm) \<or> (\<exists>c\<in>set (rm_commands rm). c_item c = item)"

lemma queue_removals_spec:
  "queue_removals routes rm = Some (rm\<lparr>m_updateBatches := m_updateBatches rm @ map (\<lambda>(n, r). removal n r) routes\<rparr>)"
proof (induction routes arbitrary: rm)
  case (Cons x routes)
  obtain n r where x: "x = (n, r)" by (cases x)
  have "addUpdateToQueue \<lparr>ru_action = REMOVE_FACE, ru_name = n, ru_route = r\<rparr> None rm = Some (rm\<lparr>m_updateBatches := m_updateBatches rm @ [removal n r]\<rparr>)"
    by (simp add: addUpdateToQueue_def batch_add_def RibUpdateBatch_new_def removal_def)
  then show ?case using Cons.IH by (simp add: x)
qed simp

lemma removal_batch:
  assumes lt: "strict_order lt" and ok: "rib_ok lt rib"
  shows "\<exists>u rib' rib''. beginBatch rib (qi_batch (removal n r)) = Some u \<and> m_updatesForBatchFaceId u = [] \<and>
    apply_batch lt (rb_updates (qi_batch (removal n r))) rib = Some rib' \<and> modifyInheritedRoutes (m_inheritedRoutes u) rib' = Some rib'' \<and>
    rib_ok lt rib'' \<and> routes_view rib'' = (routes_view rib)((n, rkey r) := None)"
proof -
  let ?update = "\<lparr>ru_action = REMOVE_FACE, ru_name = n, ru_route = r\<rparr>"
  have b: "rb_updates (qi_batch (removal n r)) = [?update]" by (simp add: removal_def)
  have nn: "\<not> null_previous_route rib ?update" by (simp add: null_previous_route_def)
  obtain u rib' rib'' where u: "beginBatch rib (qi_batch (removal n r)) = Some u"
    "apply_batch lt (rb_updates (qi_batch (removal n r))) rib = Some rib'" "modifyInheritedRoutes (m_inheritedRoutes u) rib' = Some rib''" "rib_ok lt rib''"
    "routes_view rib'' = (routes_view rib)((n, rkey r) := None)"
    using batch_ok [OF lt ok b, unfolded if_not_P [OF nn]] by (elim exE conjE) (rule that, simp_all)
  moreover have "m_updatesForBatchFaceId u = []"
    using u(1) by (auto simp: beginBatch_def computeUpdates_def removal_def bind_eq_Some_conv)
  ultimately show ?thesis by blast
qed

lemma send_removals:
  assumes lt: "strict_order lt"
  shows "rib_ok lt (rm_rib rm) \<Longrightarrow> \<not> m_isUpdateInProgress rm \<Longrightarrow> m_updateBatches rm = map (\<lambda>(n, r). removal n r) routes \<Longrightarrow>
    \<exists>rm'. sendBatchFromQueue lt rm = Some rm' \<and> rib_ok lt (rm_rib rm') \<and> (m_isUpdateInProgress rm' \<or> m_updateBatches rm' = []) \<and>
      m_registeredFaces rm' = m_registeredFaces rm \<and>
      (\<forall>n k. (\<forall>(m, r)\<in>set routes. (m, rkey r) \<noteq> (n, k)) \<longrightarrow> routes_view (rm_rib rm') (n, k) = routes_view (rm_rib rm) (n, k)) \<and>
      (\<forall>n k. routes_view (rm_rib rm) (n, k) = None \<longrightarrow> routes_view (rm_rib rm') (n, k) = None) \<and>
      (\<forall>(n, r)\<in>set routes. routes_view (rm_rib rm') (n, rkey r) = None \<or> m_isUpdateInProgress rm' \<and> awaits (removal n r) rm')"
proof (induction routes arbitrary: rm)
  case Nil
  then show ?case by (simp add: sendBatchFromQueue.simps)
next
  case (Cons x routes)
  obtain n r where x: "x = (n, r)" by (cases x)
  have q: "m_updateBatches rm = removal n r # map (\<lambda>(n, r). removal n r) routes" using Cons.prems(3) by (simp add: x)
  obtain u rib' rib'' where u: "beginBatch (rm_rib rm) (qi_batch (removal n r)) = Some u" "m_updatesForBatchFaceId u = []"
    "apply_batch lt (rb_updates (qi_batch (removal n r))) (rm_rib rm) = Some rib'" "modifyInheritedRoutes (m_inheritedRoutes u) rib' = Some rib''"
    "rib_ok lt rib''" "routes_view rib'' = (routes_view (rm_rib rm))((n, rkey r) := None)"
    using removal_batch [OF lt Cons.prems(1), of n r] by (elim exE conjE) (rule that)
  let ?update = "\<lparr>ru_action = REMOVE_FACE, ru_name = n, ru_route = r\<rparr>"
  define rm1 where "rm1 = (cancel_existing ?update (rm\<lparr>m_isUpdateInProgress := True, m_updateBatches := map (\<lambda>(n, r). removal n r) routes\<rparr>))\<lparr>m_fibUpdater := u\<rparr>"
  have rm1: "rm_rib rm1 = rm_rib rm" "m_isUpdateInProgress rm1" "m_updateBatches rm1 = map (\<lambda>(n, r). removal n r) routes" "m_fibUpdater rm1 = u"
    "m_registeredFaces rm1 = m_registeredFaces rm" by (simp_all add: rm1_def)
  have comp: "computeAndSendFibUpdates (removal n r) (rm\<lparr>m_isUpdateInProgress := True, m_updateBatches := map (\<lambda>(n, r). removal n r) routes\<rparr>) =
      Some (sendUpdatesForNonBatchFaceId (removal n r) rm1)"
    using u(1,2) by (simp add: computeAndSendFibUpdates_def sendUpdatesForBatchFaceId_def rm1_def removal_def)
  have one: "length (rb_updates (qi_batch (removal n r))) = 1" by (simp add: removal_def)
  show ?case
  proof (cases "m_updatesForNonBatchFaceId u = []")
    case False
    define rm' where "rm' = sendUpdates (m_updatesForNonBatchFaceId u) (removal n r) rm1"
    note F = sendUpdates_fields [of "m_updatesForNonBatchFaceId u" "removal n r" rm1, folded rm'_def]
    have "sendBatchFromQueue lt rm = Some rm'"
      using q Cons.prems(2) comp one False by (subst sendBatchFromQueue.simps) (simp add: sendUpdatesForNonBatchFaceId_def rm1(4) rm'_def)
    moreover obtain cs where cs: "rm_commands rm' = rm_commands rm1 @ cs" "length cs = length (m_updatesForNonBatchFaceId u)" "\<forall>c\<in>set cs. c_item c = removal n r"
      using F(1) by (elim exE conjE) (rule that)
    have "cs \<noteq> []" using cs(2) False by auto
    then have "awaits (removal n r) rm'" using cs(1,3) by (cases cs) (auto simp: awaits_def)
    moreover have "awaits (removal m s) rm'" if "(m, s) \<in> set routes" for m s using that F(3) rm1(3) by (force simp: awaits_def)
    ultimately show ?thesis
      using Cons.prems(1) F(2,4,5) rm1(1,2,5) x by (intro exI [of _ rm']) auto
  next
    case True
    define rm2 where "rm2 = (cancel_existing ?update rm1)\<lparr>rm_rib := rib'', m_isUpdateInProgress := False\<rparr>"
    have rm2: "rm_rib rm2 = rib''" "\<not> m_isUpdateInProgress rm2" "m_updateBatches rm2 = map (\<lambda>(n, r). removal n r) routes"
      "m_registeredFaces rm2 = m_registeredFaces rm" by (simp_all add: rm2_def rm1)
    have fin: "finishUpdate lt (removal n r) rm1 = Some rm2"
    proof -
      have "fold cancel_existing (rb_updates (qi_batch (removal n r))) rm1 = cancel_existing ?update rm1" "qi_callback (removal n r) = None"
        by (simp_all add: removal_def)
      then show ?thesis using u(3,4) rm1(1,4) by (simp add: finishUpdate_def rm2_def managerSuccessCallback_def)
    qed
    have "sendBatchFromQueue lt rm = sendBatchFromQueue lt rm2"
      using q Cons.prems(2) comp one True fin by (subst sendBatchFromQueue.simps) (simp add: sendUpdatesForNonBatchFaceId_def rm1(4))
    moreover obtain rm' where rm': "sendBatchFromQueue lt rm2 = Some rm'" "rib_ok lt (rm_rib rm')" "m_isUpdateInProgress rm' \<or> m_updateBatches rm' = []"
      "m_registeredFaces rm' = m_registeredFaces rm2"
      "\<forall>n k. (\<forall>(m, r)\<in>set routes. (m, rkey r) \<noteq> (n, k)) \<longrightarrow> routes_view (rm_rib rm') (n, k) = routes_view (rm_rib rm2) (n, k)"
      "\<forall>n k. routes_view (rm_rib rm2) (n, k) = None \<longrightarrow> routes_view (rm_rib rm') (n, k) = None"
      "\<forall>(n, r)\<in>set routes. routes_view (rm_rib rm') (n, rkey r) = None \<or> m_isUpdateInProgress rm' \<and> awaits (removal n r) rm'"
      using Cons.IH [of rm2] u(5) rm2 by (auto simp del: not_None_eq)
    have gone: "routes_view (rm_rib rm') (n, rkey r) = None" using rm'(6) by (simp add: rm2(1) u(6))
    have kept: "routes_view (rm_rib rm') (m, k) = routes_view (rm_rib rm) (m, k)" if mk: "\<forall>(m', r')\<in>set (x # routes). (m', rkey r') \<noteq> (m, k)" for m k
    proof -
      have rest: "\<forall>(m', r')\<in>set routes. (m', rkey r') \<noteq> (m, k)" using mk by simp
      have "routes_view (rm_rib rm') (m, k) = routes_view (rm_rib rm2) (m, k)"
        by (rule spec [OF spec [OF rm'(5), of m], of k, THEN mp, OF rest])
      also have "\<dots> = routes_view (rm_rib rm) (m, k)" using mk by (auto simp: rm2(1) u(6) x)
      finally show ?thesis .
    qed
    have none: "routes_view (rm_rib rm') (m, k) = None" if "routes_view (rm_rib rm) (m, k) = None" for m k
      using spec [OF spec [OF rm'(6), of m], of k] that by (simp add: rm2(1) u(6))
    show ?thesis
      using \<open>sendBatchFromQueue lt rm = sendBatchFromQueue lt rm2\<close> rm'(1,2,3,4,7) rm2(4) gone kept none x
      by (intro exI [of _ rm'] conjI) simp_all
  qed
qed

text \<open>C10: no route of a destroyed face is forgotten: when an idle manager learns that a face is gone, processing the
  removal returns, routes of other faces are untouched, and every route of the face is
  either out of the RIB already or awaits its removal in the queue or in an update that is in
  progress; when none is in progress, all routes of the face are gone.\<close>

theorem face_removal_forgets_no_route:
  assumes lt: "strict_order lt" and ok: "rib_ok lt (rm_rib rm)" and idle: "\<not> m_isUpdateInProgress rm" "m_updateBatches rm = []"
  shows "\<exists>rm'. onFaceDestroyedEvent lt f rm = Some rm' \<and> rib_ok lt (rm_rib rm') \<and> f \<notin> set (m_registeredFaces rm') \<and>
    (m_isUpdateInProgress rm' \<or> m_updateBatches rm' = []) \<and>
    (\<forall>n g orig. g \<noteq> f \<longrightarrow> routes_view (rm_rib rm') (n, g, orig) = routes_view (rm_rib rm) (n, g, orig)) \<and>
    (\<forall>n orig r. routes_view (rm_rib rm') (n, f, orig) = Some r \<longrightarrow> m_isUpdateInProgress rm' \<and> (\<exists>r. rkey r = (f, orig) \<and> awaits (removal n r) rm'))"
proof -
  obtain found where found: "findRoutesWithFaceId f (rm_rib rm) = Some found"
    "set found = {(n, r). \<exists>e. entry_of (rm_rib rm) n = Some e \<and> r \<in> set (m_routes e) \<and> faceId r = f}"
    using found_routes [OF ok, of f] by (elim exE conjE) (rule that)
  define rm1 where "rm1 = rm\<lparr>m_updateBatches := map (\<lambda>(n, r). removal n r) found\<rparr>"
  have rm1: "rib_ok lt (rm_rib rm1)" "\<not> m_isUpdateInProgress rm1" "m_updateBatches rm1 = map (\<lambda>(n, r). removal n r) found" "rm_rib rm1 = rm_rib rm"
    using ok idle by (simp_all add: rm1_def)
  obtain rm2 where rm2: "sendBatchFromQueue lt rm1 = Some rm2" "rib_ok lt (rm_rib rm2)" "m_isUpdateInProgress rm2 \<or> m_updateBatches rm2 = []"
    "\<forall>n k. (\<forall>(m, r)\<in>set found. (m, rkey r) \<noteq> (n, k)) \<longrightarrow> routes_view (rm_rib rm2) (n, k) = routes_view (rm_rib rm1) (n, k)"
    "\<forall>n k. routes_view (rm_rib rm1) (n, k) = None \<longrightarrow> routes_view (rm_rib rm2) (n, k) = None"
    "\<forall>(n, r)\<in>set found. routes_view (rm_rib rm2) (n, rkey r) = None \<or> m_isUpdateInProgress rm2 \<and> awaits (removal n r) rm2"
    using send_removals [OF lt rm1(1-3)] by (elim exE conjE) (rule that)
  define rm' where "rm' = rm2\<lparr>m_registeredFaces := removeAll f (m_registeredFaces rm2)\<rparr>"
  have op: "onFaceDestroyedEvent lt f rm = Some rm'"
    using found(1) rm2(1) idle(2) by (simp add: onFaceDestroyedEvent_def beginRemoveFace_def queue_removals_spec rm1_def rm'_def)
  have other: "routes_view (rm_rib rm') (n, g, orig) = routes_view (rm_rib rm) (n, g, orig)" if "g \<noteq> f" for n g orig
  proof -
    have rest: "\<forall>(m, r)\<in>set found. (m, rkey r) \<noteq> (n, g, orig)" using found(2) that by auto
    show ?thesis using spec [OF spec [OF rm2(4), of n], of "(g, orig)", THEN mp, OF rest] by (simp add: rm'_def rm1(4))
  qed
  have own: "m_isUpdateInProgress rm' \<and> (\<exists>r. rkey r = (f, orig) \<and> awaits (removal n r) rm')" if view: "routes_view (rm_rib rm') (n, f, orig) = Some r" for n orig r
  proof -
    have "routes_view (rm_rib rm) (n, f, orig) \<noteq> None"
      using spec [OF spec [OF rm2(5), of n], of "(f, orig)"] view by (auto simp: rm'_def rm1(4))
    then obtain e s where e: "entry_of (rm_rib rm) n = Some e" "s \<in> set (m_routes e)" "rkey s = (f, orig)"
      by (auto simp: routes_view_def split: option.splits dest!: find_SomeD)
    then have "(n, s) \<in> set found" using found(2) by auto
    then have "routes_view (rm_rib rm2) (n, rkey s) = None \<or> m_isUpdateInProgress rm2 \<and> awaits (removal n s) rm2" using rm2(6) by auto
    then have "m_isUpdateInProgress rm2 \<and> awaits (removal n s) rm2" using view e(3) by (simp add: rm'_def)
    then show ?thesis using e(3) by (auto simp: rm'_def awaits_def)
  qed
  show ?thesis
    using op rm2(2,3) other own by (intro exI [of _ rm']) (auto simp: rm'_def)
qed

theorem face_removal_forgets_no_route_witness:
  "let a = [Component 8 ''a'']; r = example_route 1 0 10 1
   in \<exists>rib rm'. rib_steps octet_less [Insert a r] Rib_new = Some rib \<and> rib_ok octet_less rib \<and> strict_order octet_less \<and>
     \<not> m_isUpdateInProgress RibManager_new \<and> m_updateBatches RibManager_new = [] \<and>
     onFaceDestroyedEvent octet_less 1 (RibManager_new\<lparr>rm_rib := rib\<rparr>) = Some rm' \<and>
     (routes_view (rm_rib rm') (a, 1, 0) = None \<or> m_isUpdateInProgress rm')"
proof -
  let ?a = "[Component 8 ''a'']" and ?r = "example_route 1 0 10 1"
  obtain rib where rib: "rib_steps octet_less [Insert ?a ?r] Rib_new = Some rib" "rib_ok octet_less rib"
    using rib_steps_ok [OF strict_order_octet rib_ok_new, of "[Insert ?a ?r]"] by (elim exE conjE) (rule that)
  let ?rm = "RibManager_new\<lparr>rm_rib := rib\<rparr>"
  have "rib_ok octet_less (rm_rib ?rm)" "\<not> m_isUpdateInProgress ?rm" "m_updateBatches ?rm = []" using rib(2) by (simp_all add: RibManager_new_def)
  from face_removal_forgets_no_route [OF strict_order_octet this, of 1] obtain rm' where
    "onFaceDestroyedEvent octet_less 1 ?rm = Some rm'"
    "\<forall>n orig r. routes_view (rm_rib rm') (n, 1, orig) = Some r \<longrightarrow> m_isUpdateInProgress rm' \<and> (\<exists>r. rkey r = (1, orig) \<and> awaits (removal n r) rm')"
    by (elim exE conjE) (rule that)
  then have "onFaceDestroyedEvent octet_less 1 ?rm = Some rm' \<and> (routes_view (rm_rib rm') (?a, 1, 0) = None \<or> m_isUpdateInProgress rm')"
    by (cases "routes_view (rm_rib rm') (?a, 1, 0)") auto
  then show ?thesis
    unfolding Let_def using rib strict_order_octet by (intro exI [of _ rib] exI [of _ rm']) (simp add: RibManager_new_def)
qed

subsection \<open>Responses that go wrong\<close>

text \<open>C30: a removal that times out is retried as an addition: when the forwarder does not answer a command to
  remove a next hop, up to the limit of retries the update is sent again, but as a command to
  add the next hop.\<close>

theorem timed_out_removal_adds_next_hop:
  assumes "vec_get (rm_commands rm) i = Some c" "c_verb c = REMOVE_NEXTHOP" "c_nTimeouts c < MAX_NUM_TIMEOUTS"
  shows "\<exists>rm'. onResponse lt ERROR_TIMEOUT now i (Some ERROR_TIMEOUT) rm = Some rm' \<and>
    (let retry = last (rm_commands rm') in c_update retry = c_update c \<and> c_verb retry = ADD_NEXTHOP \<and> c_nTimeouts retry = c_nTimeouts c + 1)"
  using assms by (simp add: onResponse_def onUpdateError_def sendAddNextHopUpdate_def Let_def)

theorem timed_out_removal_adds_next_hop_witness:
  "let c = \<lparr>c_verb = REMOVE_NEXTHOP, c_update = createRemoveUpdate [] 1, c_item = removal [] (example_route 1 0 10 0), c_nTimeouts = 0\<rparr>;
       rm = RibManager_new\<lparr>rm_commands := [c]\<rparr>
   in vec_get (rm_commands rm) 0 = Some c \<and> c_verb c = REMOVE_NEXTHOP \<and> c_nTimeouts c < MAX_NUM_TIMEOUTS \<and>
     (\<exists>rm'. onResponse octet_less 10060 0 0 (Some 10060) rm = Some rm' \<and> c_verb (last (rm_commands rm')) = ADD_NEXTHOP)"
proof -
  let ?c = "\<lparr>c_verb = REMOVE_NEXTHOP, c_update = createRemoveUpdate [] 1, c_item = removal [] (example_route 1 0 10 0), c_nTimeouts = 0\<rparr>"
  let ?rm = "RibManager_new\<lparr>rm_commands := [?c]\<rparr>"
  have h: "vec_get (rm_commands ?rm) 0 = Some ?c" "c_verb ?c = REMOVE_NEXTHOP" "c_nTimeouts ?c < MAX_NUM_TIMEOUTS"
    by (simp_all add: vec_get_def MAX_NUM_TIMEOUTS_def)
  then show ?thesis
    using timed_out_removal_adds_next_hop [OF h, of octet_less 10060 0] by (auto simp: Let_def)
qed

lemma cancel_results [simp]: "rm_slResults (cancel_existing update rm) = rm_slResults rm"
  by (simp add: cancel_existing_def cancelExpirationEvent_def split: option.split)

lemma sendUpdates_state [simp]:
  "rm_rib (sendUpdates us item rm) = rm_rib rm" "rm_slResults (sendUpdates us item rm) = rm_slResults rm"
  "m_fibUpdater (sendUpdates us item rm) = m_fibUpdater rm" "m_updateBatches (sendUpdates us item rm) = m_updateBatches rm"
  by (induction us arbitrary: rm; simp add: sendUpdates_def sendAddNextHopUpdate_def sendRemoveNextHopUpdate_def)+

lemma sendUpdates_commands:
  "rm_commands (sendUpdates us item rm) =
     rm_commands rm @ map (\<lambda>x. \<lparr>c_verb = fu_action x, c_update = x, c_item = item, c_nTimeouts = 0\<rparr>) us"
proof (induction us arbitrary: rm)
  case (Cons x us)
  then show ?case by (cases "fu_action x") (simp_all add: sendUpdates_def sendAddNextHopUpdate_def sendRemoveNextHopUpdate_def)
qed (simp add: sendUpdates_def)

text \<open>C29: a failed registration can be applied: take any state of the manager with a valid RIB in which the two
  oldest unanswered FIB commands are for the face of the registration in progress, made by a
  self-learning caller, and exactly one other registration waits in the queue, whose FIB
  updates, at least one, are all for its own, different face and let no name inherit the
  route.  When both commands are answered that the face does not exist, the caller is told of
  the failure after the first answer, which leaves the RIB unchanged, but of success after
  the second, and the route of the failed registration is in the RIB.\<close>

theorem failed_registration_is_applied:
  assumes lt: "strict_order lt" and ok: "rib_ok lt (rm_rib rm)"
    and c: "rm_commands rm = c1 # c2 # cs" "c_item c1 = item" "c_item c2 = item"
      "fu_faceId (c_update c1) = m_batchFaceId (m_fibUpdater rm)" "fu_faceId (c_update c2) = m_batchFaceId (m_fibUpdater rm)"
    and item: "rb_updates (qi_batch item) = [\<lparr>ru_action = REGISTER, ru_name = n, ru_route = route\<rparr>]" "qi_callback item = Some (SlCallback i)"
    and queue: "m_updateBatches rm = [waiting]" "rb_updates (qi_batch waiting) = [update]" "ru_action update = REGISTER"
    and u: "beginBatch (rm_rib rm) (qi_batch waiting) = Some u" "m_updatesForBatchFaceId u \<noteq> []" "m_updatesForNonBatchFaceId u = []"
      "m_inheritedRoutes u = []" "m_batchFaceId u \<noteq> m_batchFaceId (m_fibUpdater rm)"
    and timeout: "ERROR_TIMEOUT \<noteq> ERROR_FACE_NOT_FOUND"
  shows "\<exists>rm1 rm2. onResponse lt ERROR_TIMEOUT now 0 (Some ERROR_FACE_NOT_FOUND) rm = Some rm1 \<and>
    onResponse lt ERROR_TIMEOUT now' 0 (Some ERROR_FACE_NOT_FOUND) rm1 = Some rm2 \<and>
    rm_slResults rm1 = rm_slResults rm @ [(i, SL_ERROR)] \<and> rm_rib rm1 = rm_rib rm \<and>
    rm_slResults rm2 = rm_slResults rm @ [(i, SL_ERROR), (i, SL_OK)] \<and> Rib_find_route n route (rm_rib rm2) = Some route"
proof -
  define rm0 where "rm0 = rm\<lparr>rm_commands := c2 # cs, m_activeFaceFetchEvent := Some (now + ms 1000),
    rm_slResults := rm_slResults rm @ [(i, SL_ERROR)], m_isUpdateInProgress := True, m_updateBatches := [], m_fibUpdater := u\<rparr>"
  define rm1 where "rm1 = sendUpdates (m_updatesForBatchFaceId u) waiting rm0"
  have r1: "onResponse lt ERROR_TIMEOUT now 0 (Some ERROR_FACE_NOT_FOUND) rm = Some rm1"
    using c item(2) queue u(1,2) timeout
    by (simp add: onResponse_def vec_get_def onUpdateError_def Let_def onFibUpdateFailure_def managerFailureCallback_def run_done_def
        scheduleActiveFaceFetch_def sendBatchFromQueue.simps computeAndSendFibUpdates_def sendUpdatesForBatchFaceId_def rm1_def rm0_def)
  obtain ds where ds: "rm_commands rm1 = c2 # ds"
    using sendUpdates_commands [of "m_updatesForBatchFaceId u" waiting rm0] by (simp add: rm1_def rm0_def)
  obtain rib where rib: "Rib_insert lt n route (rm_rib rm) = Some rib" "routes_view rib = (routes_view (rm_rib rm))((n, rkey route) \<mapsto> route)"
    using Rib_insert_ok [OF lt ok, of n route] by (elim exE conjE) (rule that)
  have f1: "rm_rib rm1 = rm_rib rm" "rm_slResults rm1 = rm_slResults rm @ [(i, SL_ERROR)]" "m_fibUpdater rm1 = u" "m_updateBatches rm1 = []"
    by (simp_all add: rm1_def rm0_def)
  have "\<exists>rm2. onResponse lt ERROR_TIMEOUT now' 0 (Some ERROR_FACE_NOT_FOUND) rm1 = Some rm2 \<and>
      rm_slResults rm2 = rm_slResults rm1 @ [(i, SL_OK)] \<and> rm_rib rm2 = rib"
    using ds c(3,5) item u(3,4,5) f1 timeout rib(1)
    by (simp add: onResponse_def vec_get_def onUpdateError_def Let_def onFibUpdateSuccess_def finishUpdate_def apply_update_def
        managerSuccessCallback_def run_done_def sendBatchFromQueue.simps)
  then obtain rm2 where r2: "onResponse lt ERROR_TIMEOUT now' 0 (Some ERROR_FACE_NOT_FOUND) rm1 = Some rm2"
    "rm_slResults rm2 = rm_slResults rm1 @ [(i, SL_OK)]" "rm_rib rm2 = rib" by (elim exE conjE) (rule that)
  have "Rib_find_route n route rib = routes_view rib (n, rkey route)"
    by (simp add: Rib_find_route_def routes_view_def findRoute_key split: option.split)
  also have "\<dots> = Some route" unfolding rib(2) by simp
  finally show ?thesis using r1 r2 f1 by simp
qed

text \<open>
  A run: the name /a/b has a route; a route for /a that children inherit is registered through
  face 9, and another route through face 3 while that update is in progress; both commands
  for face 9 are then answered that the face does not exist.
\<close>

definition failing_state :: "rib_manager option" where
  "failing_state = do {
     rib \<leftarrow> Rib_insert octet_less [Component 8 ''a'', Component 8 ''b''] (example_route 2 0 10 0) Rib_new;
     rm \<leftarrow> beginAddRoute octet_less 0 [Component 8 ''a''] (example_route 9 0 10 ROUTE_FLAG_CHILD_INHERIT) None (SlCallback 1)
       (RibManager_new\<lparr>rm_rib := rib\<rparr>);
     beginAddRoute octet_less 0 [] (example_route 3 0 10 0) None Ignore rm
   }"

definition failing_commands :: "rib_manager \<Rightarrow> bool" where
  "failing_commands rm = (case rm_commands rm of
       [c1, c2] \<Rightarrow> c_item c1 = c_item c2 \<and> fu_faceId (c_update c1) = m_batchFaceId (m_fibUpdater rm) \<and>
         fu_faceId (c_update c2) = m_batchFaceId (m_fibUpdater rm) \<and> m_batchFaceId (m_fibUpdater rm) = 9 \<and>
         rb_updates (qi_batch (c_item c1)) =
           [\<lparr>ru_action = REGISTER, ru_name = [Component 8 ''a''], ru_route = example_route 9 0 10 ROUTE_FLAG_CHILD_INHERIT\<rparr>] \<and>
         qi_callback (c_item c1) = Some (SlCallback 1)
     | _ \<Rightarrow> False)"

definition waiting_updates :: "rib_manager \<Rightarrow> bool" where
  "waiting_updates rm = (case m_updateBatches rm of
       [waiting] \<Rightarrow> rb_updates (qi_batch waiting) = [\<lparr>ru_action = REGISTER, ru_name = [], ru_route = example_route 3 0 10 0\<rparr>] \<and>
         (case beginBatch (rm_rib rm) (qi_batch waiting) of
            None \<Rightarrow> False
          | Some u \<Rightarrow> m_updatesForBatchFaceId u \<noteq> [] \<and> m_updatesForNonBatchFaceId u = [] \<and> m_inheritedRoutes u = [] \<and> m_batchFaceId u = 3)
     | _ \<Rightarrow> False)"

declare sendBatchFromQueue.simps [code] traverseSubTrees.simps [code] ancestor_loop.simps [code]

lemma failing_state_run:
  "case failing_state of None \<Rightarrow> False
   | Some rm \<Rightarrow> Rib_insert octet_less [Component 8 ''a'', Component 8 ''b''] (example_route 2 0 10 0) Rib_new = Some (rm_rib rm) \<and>
       failing_commands rm \<and> waiting_updates rm \<and> rm_slResults rm = []"
  by code_simp

theorem failed_registration_is_applied_witness:
  "\<exists>rm rm1 rm2. failing_state = Some rm \<and> onResponse octet_less 10060 0 0 (Some ERROR_FACE_NOT_FOUND) rm = Some rm1 \<and>
     onResponse octet_less 10060 0 0 (Some ERROR_FACE_NOT_FOUND) rm1 = Some rm2 \<and> rm_slResults rm2 = [(1, SL_ERROR), (1, SL_OK)] \<and>
     Rib_find_route [Component 8 ''a''] (example_route 9 0 10 ROUTE_FLAG_CHILD_INHERIT) (rm_rib rm2) =
       Some (example_route 9 0 10 ROUTE_FLAG_CHILD_INHERIT)"
proof -
  let ?route = "example_route 9 0 10 ROUTE_FLAG_CHILD_INHERIT" and ?r3 = "example_route 3 0 10 0"
  obtain rm where rm: "failing_state = Some rm"
    "Rib_insert octet_less [Component 8 ''a'', Component 8 ''b''] (example_route 2 0 10 0) Rib_new = Some (rm_rib rm)"
    "failing_commands rm" "waiting_updates rm" "rm_slResults rm = []"
  proof (cases failing_state)
    case (Some rm)
    show ?thesis using failing_state_run [unfolded Some option.case] by (elim conjE) (rule that [OF Some])
  qed (use failing_state_run in simp)
  have ok: "rib_ok octet_less (rm_rib rm)"
    using Rib_insert_ok [OF strict_order_octet rib_ok_new, of "[Component 8 ''a'', Component 8 ''b'']" "example_route 2 0 10 0"] rm(2)
    by (metis option.inject)
  obtain c1 c2 where c: "rm_commands rm = [c1, c2]" "c_item c1 = c_item c2" "fu_faceId (c_update c1) = m_batchFaceId (m_fibUpdater rm)"
    "fu_faceId (c_update c2) = m_batchFaceId (m_fibUpdater rm)" "m_batchFaceId (m_fibUpdater rm) = 9"
    "rb_updates (qi_batch (c_item c2)) = [\<lparr>ru_action = REGISTER, ru_name = [Component 8 ''a''], ru_route = ?route\<rparr>]"
    "qi_callback (c_item c2) = Some (SlCallback 1)"
    using rm(3) by (auto simp: failing_commands_def split: list.splits)
  obtain waiting u where w: "m_updateBatches rm = [waiting]"
    "rb_updates (qi_batch waiting) = [\<lparr>ru_action = REGISTER, ru_name = [], ru_route = ?r3\<rparr>]"
    "beginBatch (rm_rib rm) (qi_batch waiting) = Some u" "m_updatesForBatchFaceId u \<noteq> []" "m_updatesForNonBatchFaceId u = []"
    "m_inheritedRoutes u = []" "m_batchFaceId u = 3"
    using rm(4) by (auto simp: waiting_updates_def split: list.splits option.splits)
  have t: "m_batchFaceId u \<noteq> m_batchFaceId (m_fibUpdater rm)" "10060 \<noteq> ERROR_FACE_NOT_FOUND" "ru_action \<lparr>ru_action = REGISTER, ru_name = [], ru_route = ?r3\<rparr> = REGISTER"
    by (simp_all add: c(5) w(7) ERROR_FACE_NOT_FOUND_def)
  obtain rm1 rm2 where "onResponse octet_less 10060 0 0 (Some ERROR_FACE_NOT_FOUND) rm = Some rm1"
    "onResponse octet_less 10060 0 0 (Some ERROR_FACE_NOT_FOUND) rm1 = Some rm2"
    "rm_slResults rm2 = rm_slResults rm @ [(1, SL_ERROR), (1, SL_OK)]" "Rib_find_route [Component 8 ''a''] ?route (rm_rib rm2) = Some ?route"
    using failed_registration_is_applied [OF strict_order_octet ok c(1,2) refl c(3,4,6,7) w(1,2) t(3) w(3-6) t(1,2), of 0 0]
    by (elim exE conjE) (rule that)
  then show ?thesis using rm(1) unfolding rm(5) append_Nil by (intro exI conjI)
qed

end
