(* ===== verification/Management.thy ===== *)
theory Management
  imports Forwarder_State Rib_Manager
begin

text \<open>
  \<^verbatim>\<open>daemon/mgmt/fib-manager.cpp\<close>, \<^verbatim>\<open>strategy-choice-manager.cpp\<close> and \<^verbatim>\<open>cs-manager.cpp\<close>: the managers
  that execute the control commands on the tables of the forwarder.

  A handler returns the code of the response it sends, the parameters in its body where the
  handler computes them, and the forwarder.  Decoding and authentication of the commands are
  those of the dispatcher of ndn-cxx; the parameters reach a handler decoded.

  The lemmas: the handlers of the FIB manager refine a map from prefixes and faces to costs
  and keep every FIB entry non-empty and sorted; the updates the RIB sends, executed by the
  FIB manager, change the FIB as the RIB computed; the strategy choice manager answers with
  the instance it installed, and its error codes leave the forwarder as it was.
\<close>

subsection \<open>FIB manager\<close>

definition FibManager_setFaceForSelfRegistration :: "nat option \<Rightarrow> ControlParameters \<Rightarrow> ControlParameters option" where
  "FibManager_setFaceForSelfRegistration incomingFaceIdTag params =
     (if cp_faceId params = 0
      then do { tag \<leftarrow> incomingFaceIdTag; Some (params\<lparr>cp_faceId := tag\<rparr>) }
      else Some params)"

definition FibManager_addNextHop :: "nat option \<Rightarrow> ControlParameters \<Rightarrow> ('p, 'x) forwarder \<Rightarrow> (nat \<times> ('p, 'x) forwarder) option" where
  "FibManager_addNextHop incomingFaceIdTag params f = do {
     params \<leftarrow> FibManager_setFaceForSelfRegistration incomingFaceIdTag params;
     let pfx = cp_name params;
     if length pfx > getMaxDepth then Some (414, f)
     else case FaceTable_get (cp_faceId params) f of
         None \<Rightarrow> Some (410, f)
       | Some face \<Rightarrow> do {
           (f, n, _) \<leftarrow> Fib_insert pfx f;
           nte \<leftarrow> nte_at f n;
           fe \<leftarrow> m_fibEntry nte;
           Some (200, setFibEntry n (Some (addOrUpdateNextHop face 0 (cp_cost params) fe)) f)
         }
   }"

definition FibManager_removeNextHop :: "nat option \<Rightarrow> ControlParameters \<Rightarrow> ('p, 'x) forwarder \<Rightarrow> (nat \<times> ('p, 'x) forwarder) option" where
  "FibManager_removeNextHop incomingFaceIdTag params f = do {
     params \<leftarrow> FibManager_setFaceForSelfRegistration incomingFaceIdTag params;
     case FaceTable_get (cp_faceId params) f of
       None \<Rightarrow> Some (200, f)
     | Some face \<Rightarrow> do {
         found \<leftarrow> Fib_findExactMatch f (cp_name params);
         case found of
           None \<Rightarrow> Some (200, f)
         | Some n \<Rightarrow> do {
             nte \<leftarrow> nte_at f n;
             fe \<leftarrow> m_fibEntry nte;
             let fe = entry_removeNextHop face 0 fe;
             let f = setFibEntry n (Some fe) f;
             if \<not> hasNextHops fe then do { f \<leftarrow> Fib_erase (Some n) f; Some (200, f) }
             else Some (200, f)
           }
       }
   }"

text \<open>The dataset of the FIB: for every entry its prefix and the identifiers and costs of its next hops.\<close>

definition FibManager_listEntries :: "('p, 'x) forwarder \<Rightarrow> (name \<times> (nat \<times> nat) list) list option" where
  "FibManager_listEntries f = do {
     ns \<leftarrow> Fib_getRange f;
     those (map (\<lambda>n. do {
       nte \<leftarrow> nte_at f n;
       fe \<leftarrow> m_fibEntry nte;
       nexthops \<leftarrow> those (map (\<lambda>nh. map_option (\<lambda>face. (getId face, nh_cost nh)) (faces f (nh_face nh))) (m_nextHops fe));
       Some (fib_prefix fe, nexthops)
     }) ns)
   }"

text \<open>
  A command of \<^verbatim>\<open>FibUpdater::sendAddNextHopUpdate\<close> or \<^verbatim>\<open>sendRemoveNextHopUpdate\<close> as the FIB manager
  receives it.  The incoming face is that of the daemon itself.
\<close>

definition update_parameters :: "FibUpdate \<Rightarrow> ControlParameters" where
  "update_parameters u = \<lparr>cp_name = fu_name u, cp_faceId = fu_faceId u, cp_origin = 0, cp_cost = fu_cost u, cp_flags = 0,
     cp_expirationPeriod = None\<rparr>"

definition execute_update :: "nat option \<Rightarrow> FibUpdate \<Rightarrow> ('p, 'x) forwarder \<Rightarrow> (nat \<times> ('p, 'x) forwarder) option" where
  "execute_update tag u = (if fu_action u = ADD_NEXTHOP then FibManager_addNextHop tag (update_parameters u)
     else FibManager_removeNextHop tag (update_parameters u))"

fun execute_updates :: "nat option \<Rightarrow> FibUpdate list \<Rightarrow> ('p, 'x) forwarder \<Rightarrow> (nat list \<times> ('p, 'x) forwarder) option" where
  "execute_updates tag [] f = Some ([], f)"
| "execute_updates tag (u # us) f = do {
     (code, f) \<leftarrow> execute_update tag u f;
     (codes, f) \<leftarrow> execute_updates tag us f;
     Some (code # codes, f)
   }"

subsection \<open>Strategy choice manager\<close>

definition StrategyChoiceManager_setStrategy :: "strategy strategy_env \<Rightarrow> name \<Rightarrow> name \<Rightarrow> ('p, 'x) forwarder \<Rightarrow>
    (int \<times> name option \<times> ('p, 'x) forwarder) option" where
  "StrategyChoiceManager_setStrategy env pfx sname f = do {
     (f, res) \<leftarrow> sc_insert env pfx sname f;
     if res \<noteq> OK then Some (getStatusCode res, None, f)
     else do {
       (hasEntry, instanceName) \<leftarrow> sc_get f pfx;
       assert hasEntry;
       Some (200, Some instanceName, f)
     }
   }"

definition StrategyChoiceManager_unsetStrategy :: "strategy strategy_env \<Rightarrow> name \<Rightarrow> ('p, 'x) forwarder \<Rightarrow>
    (int \<times> ('p, 'x) forwarder) option" where
  "StrategyChoiceManager_unsetStrategy env pfx f = do { f \<leftarrow> sc_erase env pfx f; Some (200, f) }"

definition StrategyChoiceManager_listChoices :: "('p, 'x) forwarder \<Rightarrow> (name \<times> name) list option" where
  "StrategyChoiceManager_listChoices f = do {
     ns \<leftarrow> sc_getRange f;
     those (map (\<lambda>n. do {
       nte \<leftarrow> nte_at f n;
       e \<leftarrow> m_strategyChoiceEntry nte;
       instanceName \<leftarrow> getStrategyInstanceName f n;
       Some (sc_prefix e, instanceName)
     }) ns)
   }"

subsection \<open>Content store manager\<close>

text \<open>The fields of the command that are present; a flag is present when its bit of the mask is set.\<close>

record CsParameters =
  csp_name :: name
  csp_capacity :: "nat option"
  csp_admit :: "bool option"
  csp_serve :: "bool option"
  csp_count :: "nat option"

definition ERASE_LIMIT :: nat where
  "ERASE_LIMIT = 256"

definition CsManager_changeConfig :: "('p, 'x) fw_env \<Rightarrow> CsParameters \<Rightarrow> ('p, 'x) forwarder \<Rightarrow>
    (nat \<times> CsParameters \<times> ('p, 'x) forwarder) option" where
  "CsManager_changeConfig env params f = do {
     cs \<leftarrow> (case csp_capacity params of None \<Rightarrow> Some (m_cs f) | Some c \<Rightarrow> setLimit (fe_policy env) c (m_cs f));
     let cs = (case csp_admit params of None \<Rightarrow> cs | Some b \<Rightarrow> enableAdmit b cs);
     let cs = (case csp_serve params of None \<Rightarrow> cs | Some b \<Rightarrow> enableServe b cs);
     Some (200, \<lparr>csp_name = [], csp_capacity = Some (m_limit cs), csp_admit = Some (m_shouldAdmit cs),
       csp_serve = Some (m_shouldServe cs), csp_count = None\<rparr>, f\<lparr>m_cs := cs\<rparr>)
   }"

text \<open>
  \<open>interestOf\<close> is the Interest that \<^verbatim>\<open>Interest(name).setCanBePrefix(true)\<close> constructs.  A missing count is
  the largest value of the type.
\<close>

definition CsManager_erase :: "('p, 'x) fw_env \<Rightarrow> (name \<Rightarrow> interest) \<Rightarrow> time \<Rightarrow> CsParameters \<Rightarrow> ('p, 'x) forwarder \<Rightarrow>
    (nat \<times> CsParameters \<times> ('p, 'x) forwarder) option" where
  "CsManager_erase env interestOf now params f = do {
     let pfx = csp_name params;
     let count = (case csp_count params of Some c \<Rightarrow> c | None \<Rightarrow> 2 ^ 64 - 1);
     (cs, nErased) \<leftarrow> Cs_erase (fe_less env) (fe_successor env) (fe_policy env) pfx (min count ERASE_LIMIT) (m_cs f);
     let body = \<lparr>csp_name = pfx, csp_capacity = None, csp_admit = None, csp_serve = None, csp_count = Some nErased\<rparr>;
     if nErased = ERASE_LIMIT \<and> count > ERASE_LIMIT
     then do {
       (cs, found) \<leftarrow> Cs_find (fe_less env) (fe_successor env) (fe_matchesData env) (fe_policy env) now (interestOf pfx) cs;
       Some (200, (if found \<noteq> None then body\<lparr>csp_capacity := Some ERASE_LIMIT\<rparr> else body), f\<lparr>m_cs := cs\<rparr>)
     }
     else Some (200, body, f\<lparr>m_cs := cs\<rparr>)
   }"

record CsInfo =
  ci_capacity :: nat
  ci_enableAdmit :: bool
  ci_enableServe :: bool
  ci_nEntries :: nat
  ci_nHits :: "64 word"
  ci_nMisses :: "64 word"

definition CsManager_serveInfo :: "('p, 'x) forwarder \<Rightarrow> CsInfo" where
  "CsManager_serveInfo f = \<lparr>ci_capacity = m_limit (m_cs f), ci_enableAdmit = m_shouldAdmit (m_cs f),
     ci_enableServe = m_shouldServe (m_cs f), ci_nEntries = length (cs_table (m_cs f)),
     ci_nHits = nCsHits (m_counters f), ci_nMisses = nCsMisses (m_counters f)\<rparr>"

subsection \<open>The FIB as a map from prefixes and next hops to costs\<close>

text \<open>Every FIB entry is at its prefix, has a next hop, and lists its next hops by cost, each once.\<close>

definition fib_ok :: "('i, 'st, 'z) tables_scheme \<Rightarrow> bool" where
  "fib_ok t \<longleftrightarrow> nt_wf (nameTree t) \<and>
     (\<forall>n e. fib_view t n = Some e \<longrightarrow> fib_prefix e = n \<and> nexthops_ok e \<and> m_nextHops e \<noteq> [])"

definition fib_cost :: "('i, 'st, 'z) tables_scheme \<Rightarrow> name \<Rightarrow> face_ref \<times> nat \<Rightarrow> nat option" where
  "fib_cost t n k = Option.bind (fib_view t n) (\<lambda>e. nexthop_cost e k)"

lemma fib_okD:
  assumes "fib_ok t"
  shows "nt_wf (nameTree t)" and "fib_view t n = Some e \<Longrightarrow> fib_prefix e = n"
    and "fib_view t n = Some e \<Longrightarrow> nexthops_ok e" and "fib_view t n = Some e \<Longrightarrow> m_nextHops e \<noteq> []"
  using assms unfolding fib_ok_def by blast+

text \<open>Putting an entry at its prefix, or none, in a well-formed FIB.\<close>

lemma fib_ok_upd:
  assumes "fib_ok t" and "nt_wf (nameTree t')" and "fib_view t' = (fib_view t)(n := fe)"
    and "\<And>e. fe = Some e \<Longrightarrow> fib_prefix e = n \<and> nexthops_ok e \<and> m_nextHops e \<noteq> []"
  shows "fib_ok t'" and "fib_cost t' = (fib_cost t)(n := (case fe of None \<Rightarrow> (\<lambda>_. None) | Some e \<Rightarrow> nexthop_cost e))"
proof -
  have "fib_prefix e = m \<and> nexthops_ok e \<and> m_nextHops e \<noteq> []" if "fib_view t' m = Some e" for m e
    using that assms(4) [of e] fib_okD(2-4) [OF assms(1), of m e] by (cases "m = n") (simp_all add: assms(3))
  then show "fib_ok t'" using assms(2) by (simp add: fib_ok_def)
  show "fib_cost t' = (fib_cost t)(n := (case fe of None \<Rightarrow> (\<lambda>_. None) | Some e \<Rightarrow> nexthop_cost e))"
    by (rule ext)+ (simp add: fib_cost_def assms(3) split: option.split)
qed

lemma nexthops_ok_new: "nexthops_ok (fib_Entry n)" "nexthop_cost (fib_Entry n) = (\<lambda>_. None)" "fib_prefix (fib_Entry n) = n"
  by (simp_all add: nexthops_ok_def nexthop_cost_def fib_Entry_def)

lemma nexthop_cost_nonempty: "nexthop_cost e k \<noteq> None \<Longrightarrow> m_nextHops e \<noteq> []"
  by (auto simp: nexthop_cost_def)

lemma nexthop_cost_empty: "m_nextHops e = [] \<Longrightarrow> nexthop_cost e = (\<lambda>_. None)"
  by (simp add: nexthop_cost_def)

lemma addNextHop_refines:
  assumes ok: "fib_ok f" and p: "FibManager_setFaceForSelfRegistration tag params = Some p"
    and len: "length (cp_name p) \<le> getMaxDepth" and face: "FaceTable_get (cp_faceId p) f = Some face"
  shows "\<exists>f'. FibManager_addNextHop tag params f = Some (200, f') \<and> fib_ok f' \<and>
    fib_cost f' = (fib_cost f)(cp_name p := (fib_cost f (cp_name p))((face, 0) \<mapsto> cp_cost p))"
proof -
  let ?n = "cp_name p"
  obtain f1 where f1: "Fib_insert ?n f = Some (f1, ?n, fib_view f ?n = None)" "nt_wf (nameTree f1)"
    "fib_view f1 = (if fib_view f ?n = None then (fib_view f)(?n \<mapsto> fib_Entry ?n) else fib_view f)"
    using Fib_insert_spec [OF fib_okD(1) [OF ok] len] .
  define fe where "fe = (case fib_view f ?n of None \<Rightarrow> fib_Entry ?n | Some e \<Rightarrow> e)"
  have v: "fib_view f1 ?n = Some fe" by (simp add: f1(3) fe_def split: option.split)
  then have ne: "nte_at f1 ?n \<noteq> None" using fib_view_exists by (metis option.distinct(1))
  then obtain nte where nte: "nte_at f1 ?n = Some nte" by blast
  with v have m: "m_fibEntry nte = Some fe" using fib_viewI by metis
  have fe: "fib_prefix fe = ?n" "nexthops_ok fe" "nexthop_cost fe = fib_cost f ?n"
    using fib_okD(2,3) [OF ok, of ?n] by (simp_all add: fe_def nexthops_ok_new fib_cost_def fun_eq_iff split: option.split)
  define e where "e = addOrUpdateNextHop face 0 (cp_cost p) fe"
  note e = addOrUpdateNextHop_ok [OF fe(2), of face 0 "cp_cost p", folded e_def]
  have cost: "nexthop_cost e = (fib_cost f ?n)((face, 0) \<mapsto> cp_cost p)" by (simp add: e(2) fe(3))
  then have "m_nextHops e \<noteq> []" using nexthop_cost_nonempty [of e "(face, 0)"] by simp
  then have good: "fib_prefix e = ?n \<and> nexthops_ok e \<and> m_nextHops e \<noteq> []" using e fe(1) by simp
  define f2 where "f2 = setFibEntry ?n (Some e) f1"
  have f2: "nt_wf (nameTree f2)" "fib_view f2 = (fib_view f)(?n := Some e)"
    using setFibEntry_wf(1,2) [OF f1(2) ne, of "Some e"] by (simp_all add: f2_def f1(3))
  have "FibManager_addNextHop tag params f = Some (200, f2)"
    using p len face f1(1) nte m by (simp add: FibManager_addNextHop_def f2_def e_def)
  moreover have "fib_ok f2" "fib_cost f2 = (fib_cost f)(?n := nexthop_cost e)"
    using fib_ok_upd [OF ok f2] good by simp_all
  ultimately show ?thesis unfolding cost by blast
qed


lemma Fib_findExactMatch_spec:
  assumes "nt_wf (nameTree t)"
  shows "Fib_findExactMatch t pfx = Some (if fib_view t pfx = None then None else Some pfx)"
proof (cases "nte_at t pfx")
  case None
  then have "fib_view t pfx = None" by (simp add: view_def)
  with None show ?thesis by (simp add: Fib_findExactMatch_def findExactMatch_spec [OF assms])
next
  case (Some nte)
  with fib_viewI [OF Some] show ?thesis by (simp add: Fib_findExactMatch_def findExactMatch_spec [OF assms])
qed

lemma removeNextHop_refines:
  assumes ok: "fib_ok f" and p: "FibManager_setFaceForSelfRegistration tag params = Some p"
    and face: "FaceTable_get (cp_faceId p) f = Some face"
  shows "\<exists>f'. FibManager_removeNextHop tag params f = Some (200, f') \<and> fib_ok f' \<and>
    fib_cost f' = (fib_cost f)(cp_name p := (fib_cost f (cp_name p))((face, 0) := None))"
proof (cases "fib_view f (cp_name p)")
  case None
  then have "FibManager_removeNextHop tag params f = Some (200, f)"
    using p face by (simp add: FibManager_removeNextHop_def Fib_findExactMatch_spec [OF fib_okD(1) [OF ok]])
  moreover have "fib_cost f (cp_name p) = (\<lambda>_. None)" using None by (simp add: fib_cost_def fun_eq_iff)
  ultimately show ?thesis using ok by (simp add: fun_upd_idem)
next
  case (Some fe)
  let ?n = "cp_name p"
  have wf: "nt_wf (nameTree f)" by (rule fib_okD(1) [OF ok])
  have ne: "nte_at f ?n \<noteq> None" by (rule fib_view_exists) (simp add: Some)
  then obtain nte where nte: "nte_at f ?n = Some nte" by blast
  then have m: "m_fibEntry nte = Some fe" using fib_viewI [OF nte] Some by simp
  define e where "e = entry_removeNextHop face 0 fe"
  note e = removeNextHop_ok(1,3) [OF fib_okD(3) [OF ok Some], of face 0, folded e_def]
  have pre: "fib_prefix e = ?n" using fib_okD(2) [OF ok Some] by (simp add: e_def entry_removeNextHop_def)
  have cost: "nexthop_cost e = (fib_cost f ?n)((face, 0) := None)"
    unfolding e(2) by (simp add: fib_cost_def Some fun_eq_iff)
  define f1 where "f1 = setFibEntry ?n (Some e) f"
  note f1 = setFibEntry_wf [OF wf ne, of "Some e", folded f1_def]
  have run: "FibManager_removeNextHop tag params f =
      (if \<not> hasNextHops e then do { f \<leftarrow> Fib_erase (Some ?n) f1; Some (200, f) } else Some (200, f1))"
    using p face Some nte m by (simp add: FibManager_removeNextHop_def Fib_findExactMatch_spec [OF wf] e_def f1_def Let_def)
  show ?thesis
  proof (cases "hasNextHops e")
    case True
    then have "fib_ok f1" "fib_cost f1 = (fib_cost f)(?n := nexthop_cost e)"
      using fib_ok_upd [OF ok f1(1,2)] e(1) pre by (simp_all add: hasNextHops_def)
    with run True show ?thesis unfolding cost by simp
  next
    case False
    obtain f2 where f2: "Fib_erase_nte ?n True f1 = Some f2" "nt_wf (nameTree f2)" "fib_view f2 = (fib_view f1)(?n := None)"
      using Fib_erase_nte_spec [OF f1(1,3)] .
    have v2: "fib_view f2 = (fib_view f)(?n := None)" by (simp add: f2(3) f1(2))
    have "nexthop_cost e = (\<lambda>_. None)" by (rule nexthop_cost_empty) (use False in \<open>simp add: hasNextHops_def\<close>)
    then have "fib_ok f2" "fib_cost f2 = (fib_cost f)(?n := nexthop_cost e)"
      using fib_ok_upd [OF ok f2(2) v2] by simp_all
    with run False f2(1) show ?thesis unfolding cost by (simp add: Fib_erase_def)
  qed
qed

text \<open>The managers leave the face table as it is.\<close>

lemma setFibEntry_faces [simp]: "m_faces (setFibEntry n fe f) = m_faces (f :: ('p, 'x) forwarder)"
  by (simp add: setFibEntry_def modify_nte_def)

lemma Fib_insert_faces: "Fib_insert pfx f = Some (f', n, b) \<Longrightarrow> m_faces f' = m_faces (f :: ('p, 'x) forwarder)"
  by (auto simp: Fib_insert_def bind_eq_Some_conv Let_def split: if_splits)

lemma Fib_erase_faces: "Fib_erase r f = Some f' \<Longrightarrow> m_faces f' = m_faces (f :: ('p, 'x) forwarder)"
  by (auto simp: Fib_erase_def Fib_erase_nte_def bind_eq_Some_conv Let_def split: if_splits option.splits)

lemma addNextHop_faces: "FibManager_addNextHop tag params f = Some (code, f') \<Longrightarrow> m_faces f' = m_faces f"
  by (auto simp: FibManager_addNextHop_def bind_eq_Some_conv Let_def dest: Fib_insert_faces split: if_splits option.splits)

lemma removeNextHop_faces: "FibManager_removeNextHop tag params f = Some (code, f') \<Longrightarrow> m_faces f' = m_faces f"
  by (auto simp: FibManager_removeNextHop_def bind_eq_Some_conv Let_def dest!: Fib_erase_faces split: if_splits option.splits)

subsection \<open>The updates of the RIB on the FIB\<close>

definition update_face :: "nat \<Rightarrow> ('p, 'x) forwarder \<Rightarrow> FibUpdate \<Rightarrow> face_ref option" where
  "update_face tag f u = FaceTable_get (if fu_faceId u = 0 then tag else fu_faceId u) f"

definition update_code :: "nat \<Rightarrow> ('p, 'x) forwarder \<Rightarrow> FibUpdate \<Rightarrow> nat" where
  "update_code tag f u = (if fu_action u = REMOVE_NEXTHOP then 200
     else if getMaxDepth < length (fu_name u) then 414
     else if update_face tag f u = None then 410 else 200)"

definition update_cost :: "nat \<Rightarrow> ('p, 'x) forwarder \<Rightarrow> FibUpdate \<Rightarrow> (name \<Rightarrow> face_ref \<times> nat \<Rightarrow> nat option) \<Rightarrow>
    name \<Rightarrow> face_ref \<times> nat \<Rightarrow> nat option" where
  "update_cost tag f u c = (case update_face tag f u of
       None \<Rightarrow> c
     | Some face \<Rightarrow> if update_code tag f u \<noteq> 200 then c
         else c(fu_name u := (c (fu_name u))((face, 0) := (if fu_action u = ADD_NEXTHOP then Some (fu_cost u) else None))))"

lemma execute_update_refines:
  assumes "fib_ok f"
  shows "\<exists>f'. execute_update (Some tag) u f = Some (update_code tag f u, f') \<and> fib_ok f' \<and>
    fib_cost f' = update_cost tag f u (fib_cost f) \<and> m_faces f' = m_faces f"
proof -
  define p where "p = (update_parameters u)\<lparr>cp_faceId := if fu_faceId u = 0 then tag else fu_faceId u\<rparr>"
  have sp: "FibManager_setFaceForSelfRegistration (Some tag) (update_parameters u) = Some p"
    by (simp add: FibManager_setFaceForSelfRegistration_def p_def update_parameters_def)
  have p: "cp_name p = fu_name u" "cp_cost p = fu_cost u" "FaceTable_get (cp_faceId p) f = update_face tag f u"
    by (simp_all add: p_def update_parameters_def update_face_def)
  show ?thesis
  proof (cases "fu_action u")
    case ADD_NEXTHOP
    have ex: "execute_update (Some tag) u f = FibManager_addNextHop (Some tag) (update_parameters u) f"
      using ADD_NEXTHOP by (simp add: execute_update_def)
    show ?thesis
    proof (cases "update_code tag f u = 200")
      case True
      then obtain face where len: "length (cp_name p) \<le> getMaxDepth" and face: "update_face tag f u = Some face"
        using ADD_NEXTHOP by (auto simp: update_code_def p split: if_splits)
      from addNextHop_refines [OF assms sp len face [folded p(3)]] show ?thesis
        unfolding ex using True addNextHop_faces by (fastforce simp: update_cost_def face ADD_NEXTHOP p)
    next
      case False
      then have "execute_update (Some tag) u f = Some (update_code tag f u, f)"
        unfolding ex using ADD_NEXTHOP by (auto simp: FibManager_addNextHop_def sp p update_code_def split: if_splits)
      with False assms show ?thesis by (simp add: update_cost_def split: option.split)
    qed
  next
    case REMOVE_NEXTHOP
    have ex: "execute_update (Some tag) u f = FibManager_removeNextHop (Some tag) (update_parameters u) f"
      "update_code tag f u = 200"
      using REMOVE_NEXTHOP by (simp_all add: execute_update_def update_code_def)
    show ?thesis
    proof (cases "update_face tag f u")
      case None
      then show ?thesis unfolding ex using assms by (simp add: FibManager_removeNextHop_def sp p update_cost_def)
    next
      case (Some face)
      from removeNextHop_refines [OF assms sp, of face] Some show ?thesis
        unfolding ex using removeNextHop_faces by (fastforce simp: update_cost_def ex REMOVE_NEXTHOP p)
    qed
  qed
qed

lemma update_cong:
  assumes "m_faces f' = m_faces f"
  shows "update_face tag f' = update_face tag f" and "update_code tag f' = update_code tag f" and "update_cost tag f' = update_cost tag f"
proof -
  show 1: "update_face tag f' = update_face tag f" using assms by (simp add: update_face_def FaceTable_get_def fun_eq_iff)
  then show 2: "update_code tag f' = update_code tag f" by (simp add: update_code_def fun_eq_iff)
  show "update_cost tag f' = update_cost tag f" by (rule ext)+ (simp only: update_cost_def 1 2)
qed

lemma execute_updates_refines:
  assumes "fib_ok f"
  shows "\<exists>f'. execute_updates (Some tag) us f = Some (map (update_code tag f) us, f') \<and> fib_ok f' \<and>
    fib_cost f' = fold (update_cost tag f) us (fib_cost f) \<and> m_faces f' = m_faces f"
  using assms
proof (induction us arbitrary: f)
  case (Cons u us)
  obtain f1 where f1: "execute_update (Some tag) u f = Some (update_code tag f u, f1)" "fib_ok f1"
    "fib_cost f1 = update_cost tag f u (fib_cost f)" "m_faces f1 = m_faces f"
    using execute_update_refines [OF Cons.prems, of tag u] by (elim exE conjE) (rule that)
  obtain f2 where "execute_updates (Some tag) us f1 = Some (map (update_code tag f1) us, f2)" "fib_ok f2"
    "fib_cost f2 = fold (update_cost tag f1) us (fib_cost f1)" "m_faces f2 = m_faces f1"
    using Cons.IH [OF f1(2)] by (elim exE conjE) (rule that)
  then show ?case by (simp add: f1 update_cong [OF f1(4)])
qed simp

lemma update_costs_other:
  "\<forall>u\<in>set us. fu_name u \<noteq> n \<or> update_face tag f u \<noteq> Some (fst k) \<Longrightarrow> fold (update_cost tag f) us c n k = c n k"
proof (induction us arbitrary: c)
  case (Cons u us)
  have "update_cost tag f u c n k = c n k" using Cons.prems by (cases k) (auto simp: update_cost_def split: option.split)
  with Cons show ?case by simp
qed simp

lemma update_face_inj:
  assumes "face_table_ok f" and "update_face tag f u = Some face" and "FaceTable_get i f = Some face"
  shows "i = (if fu_faceId u = 0 then tag else fu_faceId u)"
  using assms by (auto simp: face_table_ok_def update_face_def FaceTable_get_def) (metis option.inject)+

subsection \<open>The answers of the strategy choice manager\<close>

lemma sc_get_names:
  assumes "sc_ok t" and "sc_names t pfx = Some iname"
  shows "sc_get t pfx = Some (True, iname)"
proof -
  obtain e where e: "sc_view t pfx = Some e" using assms(2) by (cases "sc_view t pfx") (simp_all add: sc_names_def)
  then have "nte_at t pfx \<noteq> None" using sc_view_exists by (metis option.distinct(1))
  then obtain nte where nte: "nte_at t pfx = Some nte" by blast
  with e have "m_strategyChoiceEntry nte = Some e" using sc_view_nte by metis
  with nte e assms(2) show ?thesis
    by (cases "m_strategy e")
      (simp_all add: sc_get_def findExactMatch_spec [OF sc_okD(2) [OF assms(1)]] getStrategyInstanceName_def getStrategy_view sc_names_def)
qed

text \<open>
  Setting a strategy that can be created answers 200 with the name of the new instance; the
  errors 414, 404 and 409 leave the forwarder as it was; unsetting removes the choice.
\<close>

lemma strategy_commands:
  assumes ok: "sc_ok f"
  shows "length pfx \<le> getMaxDepth \<Longrightarrow> create env sname = Some (Inr (Some inst)) \<Longrightarrow>
      \<exists>f'. StrategyChoiceManager_setStrategy env pfx sname f = Some (200, Some (fst inst), f') \<and> sc_ok f' \<and> sc_names f' = (sc_names f)(pfx \<mapsto> fst inst)"
    and "getMaxDepth < length pfx \<Longrightarrow> StrategyChoiceManager_setStrategy env pfx sname f = Some (414, None, f)"
    and "length pfx \<le> getMaxDepth \<Longrightarrow> create env sname = Some (Inr None) \<Longrightarrow> StrategyChoiceManager_setStrategy env pfx sname f = Some (404, None, f)"
    and "length pfx \<le> getMaxDepth \<Longrightarrow> create env sname = Some (Inl what) \<Longrightarrow> StrategyChoiceManager_setStrategy env pfx sname f = Some (409, None, f)"
    and "pfx \<noteq> [] \<Longrightarrow> \<exists>f'. StrategyChoiceManager_unsetStrategy env pfx f = Some (200, f') \<and> sc_ok f' \<and> sc_names f' = (sc_names f)(pfx := None)"
proof -
  assume "length pfx \<le> getMaxDepth" "create env sname = Some (Inr (Some inst))"
  then obtain f' where f': "sc_insert env pfx sname f = Some (f', OK)" "sc_ok f'" "sc_names f' = (sc_names f)(pfx \<mapsto> fst inst)"
    using sc_insert_spec [OF ok] by blast
  have "sc_get f' pfx = Some (True, fst inst)" by (rule sc_get_names [OF f'(2)]) (simp add: f'(3))
  with f' show "\<exists>f'. StrategyChoiceManager_setStrategy env pfx sname f = Some (200, Some (fst inst), f') \<and> sc_ok f' \<and>
      sc_names f' = (sc_names f)(pfx \<mapsto> fst inst)"
    by (simp add: StrategyChoiceManager_setStrategy_def)
next
  assume "pfx \<noteq> []"
  from sc_erase_spec [OF ok this, of env] show
    "\<exists>f'. StrategyChoiceManager_unsetStrategy env pfx f = Some (200, f') \<and> sc_ok f' \<and> sc_names f' = (sc_names f)(pfx := None)"
    by (auto simp: StrategyChoiceManager_unsetStrategy_def)
qed (simp_all add: StrategyChoiceManager_setStrategy_def sc_insert_def getStatusCode_def)

subsection \<open>Properties\<close>

text \<open>C11: the commands of the FIB manager refine operations on a map from prefixes and faces to
  costs: adding a next hop answers 200 and sets exactly the cost of that prefix and face,
  unless the prefix is too long (414) or the face does not exist (410), which leave the
  forwarder as it was; removing a next hop always answers 200 and removes exactly that
  prefix and face.  Every FIB entry stays at its prefix, sorted by cost, without duplicates
  and with at least one next hop.\<close>

theorem fib_manager_refines_map:
  assumes ok: "fib_ok f" and p: "FibManager_setFaceForSelfRegistration tag params = Some p"
  shows "(getMaxDepth < length (cp_name p) \<longrightarrow> FibManager_addNextHop tag params f = Some (414, f)) \<and>
    (length (cp_name p) \<le> getMaxDepth \<longrightarrow> FaceTable_get (cp_faceId p) f = None \<longrightarrow> FibManager_addNextHop tag params f = Some (410, f)) \<and>
    (length (cp_name p) \<le> getMaxDepth \<longrightarrow> FaceTable_get (cp_faceId p) f = Some face \<longrightarrow>
      (\<exists>f'. FibManager_addNextHop tag params f = Some (200, f') \<and> fib_ok f' \<and>
        fib_cost f' = (fib_cost f)(cp_name p := (fib_cost f (cp_name p))((face, 0) \<mapsto> cp_cost p)))) \<and>
    (FaceTable_get (cp_faceId p) f = None \<longrightarrow> FibManager_removeNextHop tag params f = Some (200, f)) \<and>
    (FaceTable_get (cp_faceId p) f = Some face \<longrightarrow>
      (\<exists>f'. FibManager_removeNextHop tag params f = Some (200, f') \<and> fib_ok f' \<and>
        fib_cost f' = (fib_cost f)(cp_name p := (fib_cost f (cp_name p))((face, 0) := None))))"
proof (intro conjI impI)
  assume "length (cp_name p) \<le> getMaxDepth" "FaceTable_get (cp_faceId p) f = Some face"
  then show "\<exists>f'. FibManager_addNextHop tag params f = Some (200, f') \<and> fib_ok f' \<and>
    fib_cost f' = (fib_cost f)(cp_name p := (fib_cost f (cp_name p))((face, 0) \<mapsto> cp_cost p))"
    by (rule addNextHop_refines [OF ok p])
next
  assume "FaceTable_get (cp_faceId p) f = Some face"
  then show "\<exists>f'. FibManager_removeNextHop tag params f = Some (200, f') \<and> fib_ok f' \<and>
    fib_cost f' = (fib_cost f)(cp_name p := (fib_cost f (cp_name p))((face, 0) := None))"
    by (rule removeNextHop_refines [OF ok p])
qed (simp_all add: FibManager_addNextHop_def FibManager_removeNextHop_def p)

text \<open>A forwarder with one face, of identifier 256.\<close>

definition managed_forwarder :: "(unit, unit) forwarder" where
  "managed_forwarder = (example_forwarder [1 \<mapsto> example_face\<lparr>getId := 256\<rparr>])\<lparr>m_faces := [(256, 1)], m_lastFaceId := 256\<rparr>"

lemma managed_forwarder_ok:
  "fib_ok managed_forwarder" "face_table_ok managed_forwarder" "FaceTable_get 256 managed_forwarder = Some 1"
  "fib_cost managed_forwarder n k = None"
proof -
  obtain nt :: "strategy_info nt" where nt: "NameTree (\<lambda>c. 0) 16 = Some nt" "nt_wf nt" "entry_at nt = (\<lambda>_. None)"
    using NameTree_wf [of 16 "\<lambda>c. 0"] by (metis zero_less_numeral)
  have t: "nameTree managed_forwarder = nt"
    using nt(1) by (simp add: managed_forwarder_def example_forwarder_def tables_new_def tables.defs forwarder.defs)
  show "fib_ok managed_forwarder" "fib_cost managed_forwarder n k = None"
    using nt(2,3) by (simp_all add: fib_ok_def fib_cost_def t view_def)
  show "face_table_ok managed_forwarder" "FaceTable_get 256 managed_forwarder = Some 1"
    by (simp_all add: face_table_ok_def FaceTable_get_def managed_forwarder_def INVALID_FACEID_def)
qed

theorem fib_manager_refines_map_witness:
  "\<exists>params f'. fib_ok managed_forwarder \<and>
     FibManager_addNextHop (Some 256) params managed_forwarder = Some (200, f') \<and> fib_cost f' [Component 8 ''a''] (1, 0) = Some 10"
proof -
  define params where "params = \<lparr>cp_name = [Component 8 ''a''], cp_faceId = 0, cp_origin = 0, cp_cost = 10, cp_flags = 0, cp_expirationPeriod = None\<rparr>"
  have p: "FibManager_setFaceForSelfRegistration (Some 256) params = Some (params\<lparr>cp_faceId := 256\<rparr>)"
    by (simp add: FibManager_setFaceForSelfRegistration_def params_def)
  have n: "cp_name (params\<lparr>cp_faceId := 256\<rparr>) = [Component 8 ''a'']" "cp_cost (params\<lparr>cp_faceId := 256\<rparr>) = 10"
    "cp_faceId (params\<lparr>cp_faceId := 256\<rparr>) = 256" by (simp_all add: params_def)
  have len: "length [Component 8 ''a''] \<le> getMaxDepth" by (simp add: getMaxDepth_def FIB_MAX_DEPTH_def)
  obtain f' where f': "FibManager_addNextHop (Some 256) params managed_forwarder = Some (200, f')"
    "fib_cost f' = (fib_cost managed_forwarder)([Component 8 ''a''] := (fib_cost managed_forwarder [Component 8 ''a''])((1, 0) \<mapsto> 10))"
    using fib_manager_refines_map [OF managed_forwarder_ok(1) p, of 1] managed_forwarder_ok(3) len unfolding n by blast
  have "fib_cost f' [Component 8 ''a''] (1, 0) = Some 10" unfolding f'(2) by simp
  with f'(1) managed_forwarder_ok(1) show ?thesis by (intro exI conjI)
qed

text \<open>C8: a registered route is forwarded: registering a route that the RIB does not have yet, for a
  name within the depth limit of the FIB, through a face that exists and no more expensive
  than the other routes of its name through that face, computes updates of which one adds
  that next hop.  The FIB manager, executing all of them, answers 200 to this one, and to
  every other 200, 414 when its name is too long or 410 when its face no longer exists;
  afterwards the FIB has the next hop for that prefix and face with exactly that cost, and
  prefixes that are not under the registered one keep their next hops.  The commands arrive
  on a face that is not the one of the route.\<close>

theorem registered_route_is_forwarded:
  assumes rib: "strict_order lt" "rib_ok lt rib"
    and update: "ru_action update = REGISTER" "Rib_find_route (ru_name update) (ru_route update) rib = None"
    and cheapest: "\<forall>e r. entry_of rib (ru_name update) = Some e \<longrightarrow> r \<in> set (m_routes e) \<longrightarrow> faceId r = faceId (ru_route update) \<longrightarrow>
      cost (ru_route update) \<le> cost r"
    and fib: "fib_ok f" "face_table_ok f" "FaceTable_get (faceId (ru_route update)) f = Some face"
    and len: "length (ru_name update) \<le> getMaxDepth" and tag: "tag \<noteq> faceId (ru_route update)"
  shows "\<exists>u f'. beginBatch rib \<lparr>rb_faceId = faceId (ru_route update), rb_updates = [update]\<rparr> = Some u \<and>
    execute_updates (Some tag) (m_updatesForBatchFaceId u @ m_updatesForNonBatchFaceId u) f =
      Some (map (update_code tag f) (m_updatesForBatchFaceId u @ m_updatesForNonBatchFaceId u), f') \<and>
    createAddUpdate (ru_name update) (faceId (ru_route update)) (cost (ru_route update)) \<in> set (m_updatesForBatchFaceId u) \<and>
    update_code tag f (createAddUpdate (ru_name update) (faceId (ru_route update)) (cost (ru_route update))) = 200 \<and>
    fib_ok f' \<and>
    fib_cost f' (ru_name update) (face, 0) = Some (cost (ru_route update)) \<and>
    (\<forall>n. \<not> prefix (ru_name update) n \<longrightarrow> fib_cost f' n = fib_cost f n)"
proof -
  let ?batch = "\<lparr>rb_faceId = faceId (ru_route update), rb_updates = [update]\<rparr>"
  define x where "x = createAddUpdate (ru_name update) (faceId (ru_route update)) (cost (ru_route update))"
  have b: "rb_updates ?batch = [update]" by simp
  have np: "\<not> null_previous_route rib update" using update by (simp add: null_previous_route_def)
  obtain u where u: "beginBatch rib ?batch = Some u"
    "distinct (map fu_key (m_updatesForBatchFaceId u @ m_updatesForNonBatchFaceId u))"
    "\<forall>y\<in>set (m_updatesForBatchFaceId u). fu_faceId y = m_batchFaceId u \<and> prefix (ru_name update) (fu_name y)"
    "\<forall>y\<in>set (m_updatesForNonBatchFaceId u). fu_faceId y \<noteq> m_batchFaceId u \<and> prefix (ru_name update) (fu_name y)"
    using batch_ok [OF rib b, unfolded if_not_P [OF np]] by (elim exE conjE) (rule that)
  define us where "us = m_updatesForBatchFaceId u @ m_updatesForNonBatchFaceId u"
  have own: "x \<in> set (m_updatesForBatchFaceId u)" using cheapest_route_update [OF rib update cheapest] u(1) by (simp add: x_def)
  then have "x \<in> set us" by (simp add: us_def)
  then obtain ys zs where us: "us = ys @ x # zs" by (meson split_list)
  have under: "prefix (ru_name update) (fu_name y)" if "y \<in> set us" for y using that u(3,4) by (auto simp: us_def)
  obtain f' where f': "execute_updates (Some tag) us f = Some (map (update_code tag f) us, f')" "fib_ok f'"
    "fib_cost f' = fold (update_cost tag f) us (fib_cost f)"
    using execute_updates_refines [OF fib(1), of tag us] by (elim exE conjE) (rule that)
  have "map_of (m_faces f) 0 = None" using fib(2) by (simp add: face_table_ok_def INVALID_FACEID_def)
  then have id: "faceId (ru_route update) \<noteq> 0" using fib(3) by (metis FaceTable_get_def option.distinct(1))
  have x: "fu_name x = ru_name update" "fu_faceId x = faceId (ru_route update)" "fu_action x = ADD_NEXTHOP" "fu_cost x = cost (ru_route update)"
    by (simp_all add: x_def createAddUpdate_def)
  have xf: "update_face tag f x = Some face" "update_code tag f x = 200"
    using id fib(3) len by (simp_all add: update_face_def update_code_def x)
  have others: "fu_name y \<noteq> ru_name update \<or> update_face tag f y \<noteq> Some (fst (face, 0 :: nat))" if "y \<in> set zs" for y
  proof -
    have "fu_key x \<notin> fu_key ` set zs" using u(2) unfolding us_def [symmetric] us by simp
    moreover have "fu_key y \<in> fu_key ` set zs" using that by (rule imageI)
    ultimately have "fu_key y \<noteq> fu_key x" by metis
    then show ?thesis using update_face_inj [OF fib(2) _ fib(3), of tag y] tag x(1,2) by (auto split: if_splits)
  qed
  have "fib_cost f' (ru_name update) (face, 0) = Some (cost (ru_route update))"
    unfolding f'(3) us using others
    by (simp add: update_costs_other [of zs "ru_name update" tag f "(face, 0)"]) (simp add: update_cost_def xf x)
  moreover have "fib_cost f' n = fib_cost f n" if "\<not> prefix (ru_name update) n" for n
  proof
    fix k :: "face_ref \<times> nat"
    have "\<forall>y\<in>set us. fu_name y \<noteq> n \<or> update_face tag f y \<noteq> Some (fst k)" using under that by blast
    then show "fib_cost f' n k = fib_cost f n k" unfolding f'(3) by (rule update_costs_other)
  qed
  ultimately show ?thesis using u(1) f'(1,2) own xf(2) unfolding us_def x_def by blast
qed

theorem registered_route_is_forwarded_witness:
  "let update = example_update REGISTER (example_route 256 0 10 1)
   in rib_ok octet_less Rib_new \<and> fib_ok managed_forwarder \<and>
     (\<exists>u f'. beginBatch Rib_new \<lparr>rb_faceId = 256, rb_updates = [update]\<rparr> = Some u \<and>
       execute_updates (Some 1) (m_updatesForBatchFaceId u @ m_updatesForNonBatchFaceId u) managed_forwarder =
         Some (map (update_code 1 managed_forwarder) (m_updatesForBatchFaceId u @ m_updatesForNonBatchFaceId u), f') \<and>
       fib_cost f' [Component 8 ''a''] (1, 0) = Some 10)"
proof -
  define update where "update = example_update REGISTER (example_route 256 0 10 1)"
  have u: "ru_action update = REGISTER" "Rib_find_route (ru_name update) (ru_route update) Rib_new = None"
    "faceId (ru_route update) = 256" "cost (ru_route update) = 10" "ru_name update = [Component 8 ''a'']"
    by (simp_all add: update_def example_update_def example_route_def Rib_find_route_def Rib_new_def)
  have c: "\<forall>e r. entry_of Rib_new (ru_name update) = Some e \<longrightarrow> r \<in> set (m_routes e) \<longrightarrow> faceId r = faceId (ru_route update) \<longrightarrow> cost (ru_route update) \<le> cost r"
    by (simp add: Rib_new_def)
  have f: "FaceTable_get (faceId (ru_route update)) managed_forwarder = Some 1" "length (ru_name update) \<le> getMaxDepth"
    "1 \<noteq> faceId (ru_route update)"
    using managed_forwarder_ok(3) by (simp_all add: u getMaxDepth_def FIB_MAX_DEPTH_def)
  obtain v f' where "beginBatch Rib_new \<lparr>rb_faceId = faceId (ru_route update), rb_updates = [update]\<rparr> = Some v"
    "execute_updates (Some 1) (m_updatesForBatchFaceId v @ m_updatesForNonBatchFaceId v) managed_forwarder =
      Some (map (update_code 1 managed_forwarder) (m_updatesForBatchFaceId v @ m_updatesForNonBatchFaceId v), f')"
    "fib_cost f' (ru_name update) (1, 0) = Some (cost (ru_route update))"
    using registered_route_is_forwarded [OF strict_order_octet rib_ok_new u(1,2) c managed_forwarder_ok(1,2) f] by (elim exE conjE) (rule that)
  then show ?thesis
    unfolding Let_def update_def [symmetric] u using managed_forwarder_ok(1) rib_ok_new [of octet_less] by (intro conjI exI)
qed

end
