(* ===== verification/Spec2Isabelle.thy ===== *)
theory Spec2Isabelle
  imports Token_Bucket Priority_Tx_Queue Name_Tree Fib Pit City_Hash Dead_Nonce_List Fw_Algorithm Content_Store Measurements
    Partial_Enumeration Strategy_Choice Forwarder Qos_Strategy Lp_Reliability Management
begin

text \<open>
  A verification development of NFD-QoS, a Named Data Networking forwarding daemon with
  quality-of-service queues for the ndnSIM simulator (sources under \<^verbatim>\<open>src/\<close>).

  \<^bold>\<open>The program.\<close>  A forwarder receives Interests, Data and Nacks on faces.  It keeps a tree of
  names (\<^verbatim>\<open>daemon/table/name-tree*\<close>) that the FIB, the PIT, the measurements table and the strategy
  choice table attach their entries to, a content store with a replacement policy, and a
  dead nonce list for loop detection; forwarding strategies decide where Interests go.  The
  QoS strategy puts packets into three queues of different priority per face, drained
  according to token buckets (\<^verbatim>\<open>daemon/fw/ndn-*\<close>).

  \<^bold>\<open>The theories.\<close>
  \<^item> \<open>Floating_Point\<close>: rounding of rationals to single and double precision, used wherever the code
    computes with \<^verbatim>\<open>float\<close> or \<^verbatim>\<open>double\<close>; conversions to integers.
  \<^item> \<open>Nfd_Prelude\<close>: names, packets, faces, time, failing accesses, containers.
  \<^item> \<open>Token_Bucket\<close>, \<open>Qos_Queue\<close>, \<open>Priority_Tx_Queue\<close>: \<^verbatim>\<open>fw/ndn-token-bucket\<close>, \<^verbatim>\<open>fw/ndn-qos-queue\<close>,
    \<^verbatim>\<open>fw/ndn-priority-tx-queue\<close>.  Tokens stay within the capacity, queues are FIFO within their limit,
    the weighted fair choice of the queue to send from is the earliest virtual finish time
    among the queues that can send; finish times are computed in single precision and can lie
    before the packet was enqueued.
  \<^item> \<open>Name_Tree_Hashtable\<close>, \<open>Name_Tree\<close>: \<^verbatim>\<open>table/name-tree-hashtable\<close>, \<^verbatim>\<open>name-tree\<close>, \<^verbatim>\<open>name-tree-entry\<close>,
    \<^verbatim>\<open>name-tree-iterator\<close>.  The hashtable with resizing refines a map; the tree invariant is kept
    by creation and removal; the three longest prefix matches agree; enumerations are
    complete.  The locale \<open>nt_field\<close> is what an attached table relies on.
  \<^item> \<open>Partial_Enumeration\<close>: the pre-order walk of a subtree in \<^verbatim>\<open>name-tree-iterator\<close> ends and visits
    exactly the entries its predicate lets it reach.
  \<^item> \<open>Tables\<close>: the entries of the attached tables and the state they share, the record \<open>tables\<close>.
  \<^item> \<open>Fib\<close>: \<^verbatim>\<open>table/fib\<close>, \<^verbatim>\<open>fib-entry\<close>, \<^verbatim>\<open>fib-nexthop\<close>; refines a map from names to sorted next hops.
  \<^item> \<open>Pit\<close>: \<^verbatim>\<open>table/pit\<close>, \<^verbatim>\<open>pit-entry\<close>, \<^verbatim>\<open>pit-*-record\<close>; one entry per name and selectors, all Data matches
    are found.
  \<^item> \<open>Measurements\<close>: \<^verbatim>\<open>table/measurements*\<close>; the life of an entry.
  \<^item> \<open>Strategy_Registry\<close>, \<open>Strategy_Choice\<close>: the registry in \<^verbatim>\<open>fw/strategy\<close>, \<^verbatim>\<open>table/strategy-choice*\<close> and
    \<^verbatim>\<open>table/measurements-accessor\<close>; lookup of strategy versions, the table refines a map of
    prefixes to strategy instances, and a change of strategy to another type clears exactly what
    it owned.
  \<^item> \<open>City_Hash\<close>: \<^verbatim>\<open>core/city-hash\<close>; no load outside the input.
  \<^item> \<open>Dead_Nonce_List\<close>: \<^verbatim>\<open>table/dead-nonce-list\<close>; recent nonces are found, capacity within bounds.
  \<^item> \<open>Fw_Algorithm\<close>: \<^verbatim>\<open>fw/algorithm\<close>, \<^verbatim>\<open>fw/retx-suppression-*\<close>, \<^verbatim>\<open>fw/unsolicited-data-policy\<close>,
    \<^verbatim>\<open>table/network-region-table\<close>; scope control, duplicate nonces, suppression intervals.
  \<^item> \<open>Name_Order\<close>: the canonical order of names and successors.
  \<^item> \<open>Content_Store\<close>: \<^verbatim>\<open>table/cs*\<close>; the locale \<open>cs_policy_spec\<close> is the contract of a replacement policy,
    interpreted for LRU and priority FIFO; the table stays sorted, within its limit and in step
    with the policy, and a lookup is complete; a rightmost lookup by a full name can step back
    from the beginning of the table.
  \<^item> \<open>Forwarder_State\<close>: the state of a forwarder, an extension of \<open>tables\<close>; \<^verbatim>\<open>fw/face-table\<close>, \<^verbatim>\<open>table/cleanup\<close>
    and the outgoing pipelines of \<^verbatim>\<open>fw/forwarder\<close>; ids and faces stay in correspondence.
  \<^item> \<open>Strategies\<close>: the base class in \<^verbatim>\<open>fw/strategy\<close>, \<^verbatim>\<open>fw/process-nack-traits\<close>, \<^verbatim>\<open>fw/best-route-strategy\<close>,
    \<^verbatim>\<open>fw/best-route-strategy2\<close>, \<^verbatim>\<open>fw/multicast-strategy\<close>; best route picks the upstream used earliest.
  \<^item> \<open>Forwarder\<close>: the pipelines of \<^verbatim>\<open>fw/forwarder\<close> and runs of the forwarder on packets and timers; over
    every run the /localhost scope is respected, and a looping Interest is never forwarded,
    neither while its PIT entry lives nor after, when its nonces are in the dead nonce list.
  \<^item> \<open>Qos_Strategy\<close>: \<^verbatim>\<open>fw/qos-strategy\<close> with the queues and buckets above, as one state with the forwarder
    it sends through; draining the queues returns, takes packets in order and one token for
    each of them.
  \<^item> \<open>Link_Fragmentation\<close>: \<^verbatim>\<open>face/lp-fragmenter\<close>, \<^verbatim>\<open>face/lp-reassembler\<close> and the numbering of fragments in
    \<^verbatim>\<open>face/generic-link-service\<close>; a packet that is fragmented comes out of the reassembler whole,
    once, whatever the order of its fragments and the other traffic, when its fragments follow one
    another within the reassembly timeout; the drop timers run in between.
  \<^item> \<open>Lp_Reliability\<close>: \<^verbatim>\<open>core/rtt-estimator\<close> and \<^verbatim>\<open>face/lp-reliability\<close>; the unacknowledged fragments, the network
    packets they belong to and the window of sequence numbers, which may wrap around, stay
    consistent, and no sequence number is used twice.  A packet over the MTU is dropped as the link
    service drops it; congestion marking, off by default, is left out.
  \<^item> \<open>Rib\<close>, \<open>Rib_Tree\<close>, \<open>Rib_Invariant\<close>: \<^verbatim>\<open>rib/route\<close>, \<^verbatim>\<open>rib/rib-entry\<close> and \<^verbatim>\<open>rib/rib\<close>; the definitions, the shape of
    the tree of entries, and that insertion and removal of routes keep it and refine a map.
  \<^item> \<open>Fib_Updater\<close>: the computation of FIB updates and inherited routes in \<^verbatim>\<open>rib/fib-updater\<close>; it returns
    for every update except those that dereference a null route, touches only names under
    the prefix, and its result can be applied.  The locale \<open>update_invariant\<close> is what the walks over
    the tree keep; it is interpreted for the shape of the updates, for the next hop of the
    updated name and for the face of the batch.
  \<^item> \<open>Rib_Manager\<close>: the queue of updates in \<^verbatim>\<open>rib/rib\<close>, commands and responses in \<^verbatim>\<open>rib/fib-updater\<close>, and
    \<^verbatim>\<open>rib/rib-manager\<close>; no route of a destroyed face is forgotten, and what goes wrong when the
    forwarder rejects commands or does not answer.
  \<^item> \<open>Management\<close>: \<^verbatim>\<open>mgmt/fib-manager\<close>, \<^verbatim>\<open>mgmt/strategy-choice-manager\<close> and \<^verbatim>\<open>mgmt/cs-manager\<close>; the FIB
    commands refine a map from prefixes and faces to costs, and a route registered with the
    RIB ends up in the FIB when the FIB manager executes the updates computed for it.

  \<^bold>\<open>Correspondence.\<close>  A class is a record, a member function a definition that takes the object
  and returns it updated; an object owned by one other is stored in it, a shared one lives
  in a heap (PIT entries) and a pointer to a name tree entry is its name.  A failed
  \<^verbatim>\<open>BOOST_ASSERT\<close>, a null dereference, an exception or an out-of-range access is None.  The clock
  is the argument \<open>now\<close>; a scheduled event is the time it fires.  \<^verbatim>\<open>size_t\<close> counters that can wrap are
  words.  Loops are structural or well-founded recursion; the walks along parent pointers, in
  the name tree and in the RIB, the iteration of a range, the rightmost lookup, the queue of
  RIB updates and the idle timer of a link, which need not end on every state, are partial functions to option, and the theorems show that they return (the rightmost lookup excepted, see there).  No fuel is used.

  \<^bold>\<open>Parameters.\<close>  Code of ndn-cxx and ns-3: \<^verbatim>\<open>Interest::matchesData\<close>, the order and successor of
  names, the encoding of a name, packet sizes, the codec of link packets, the code of
  a controller timeout, the verdict of validators, device queues, the token driver.  What is used of them are the named
  hypotheses of the theorems, with witnesses on concrete functions.

  \<^bold>\<open>Not modelled.\<close>  Logging, printing and the static objects that register strategies and
  policies; the face system except for fragmentation and reliability, and its transports (sockets, timers of the operating system);
  the creation of faces, the validation and dispatch of control commands and the configuration files;
  the tools and tests.  The strategies \<^verbatim>\<open>ncc\<close>, \<^verbatim>\<open>asf\<close>, \<^verbatim>\<open>access\<close>, \<^verbatim>\<open>self-learning\<close>, \<^verbatim>\<open>qos-mitigation\<close> and
  \<^verbatim>\<open>best-route-attacker\<close> are not modelled in this version.  Of the tags of packets only the chosen next hop is kept;
  signals are connected as the forwarder's constructor connects them.
\<close>

end
